(* ===== verification/Prelude.thy ===== *)
theory Prelude
  imports Main "HOL-Library.Word"
begin

text \<open>
  Shared vocabulary of the development: the C integer types the sources use, the
  collections of rewrite rules the component theories fill, and the lemmas on machine
  words, lists and finite products that several components need.

  A \<^verbatim>\<open>uint64_t\<close> is a 64-bit word, an \<^verbatim>\<open>unsigned int\<close> and a \<^verbatim>\<open>uint32_t\<close> are 32-bit
  words; \<open>+\<close>, \<open>-\<close> and \<open>*\<close> wrap around, as in C. A C \<^verbatim>\<open>int\<close> that is only a loop
  counter or a count of table entries is an unbounded \<open>int\<close> or \<open>nat\<close>.
\<close>

unbundle bit_operations_syntax

type_synonym u64 = "64 word"
type_synonym u32 = "32 word"

named_theorems bb_simps \<open>evaluation rules of the bounding box operations\<close>
named_theorems st_simps \<open>evaluation rules of the storage operations\<close>
named_theorems wf_intros \<open>preservation of the well-formedness invariants\<close>

section \<open>Machine words\<close>

lemma unat_u64_bound: "unat (x :: u64) < 18446744073709551616"
  using unsigned_less [of x] by simp

lemma unat_plus_u64:
  fixes x y :: u64
  assumes "unat x + unat y < 18446744073709551616"
  shows "unat (x + y) = unat x + unat y"
  using assms by (simp add: unat_word_ariths)

lemma unat_mult_u64:
  fixes x y :: u64
  assumes "unat x * unat y < 18446744073709551616"
  shows "unat (x * y) = unat x * unat y"
  using assms by (simp add: unat_word_ariths)

lemma unat_minus_u64:
  fixes x y :: u64
  assumes "y \<le> x"
  shows "unat (x - y) = unat x - unat y"
  using assms by (rule unat_sub)

lemma unat_suc_u64:
  fixes x y :: u64
  assumes "x < y"
  shows "unat (x + 1) = Suc (unat x)"
  using assms unat_u64_bound [of y]
  by (subst unat_plus_u64) (simp_all add: word_less_nat_alt)

lemma unat_extent_u64:
  fixes l u :: u64
  assumes "l \<le> u" and "unat u - unat l < 18446744073709551615"
  shows "unat (u - l + 1) = Suc (unat u - unat l)"
proof -
  have "unat (u - l) = unat u - unat l"
    using assms(1) by (rule unat_minus_u64)
  with assms(2) have "unat (u - l) + unat (1 :: u64) < 18446744073709551616"
    by simp
  from unat_plus_u64 [OF this] show ?thesis
    using \<open>unat (u - l) = unat u - unat l\<close> by simp
qed

lemma of_nat_u64_eq_0: "n < 18446744073709551616 \<Longrightarrow> (of_nat n :: u64) = 0 \<longleftrightarrow> n = 0"
  using unat_of_nat [of n, where 'a = 64] by (auto simp: unat_eq_0 [symmetric] simp del: unat_of_nat)

lemma card_Int_eq_iff: "finite A \<Longrightarrow> card (A \<inter> B) = card A \<longleftrightarrow> A \<subseteq> B"
  using card_subset_eq [of A "A \<inter> B"] by (auto simp: Int_absorb2)

text \<open>The midpoint of an interval, as the splitting routines compute it.\<close>

lemma unat_mid_u64:
  fixes l u :: u64
  assumes "unat l + unat u < 18446744073709551616"
  shows "unat ((l + u) div 2) = (unat l + unat u) div 2"
  using assms by (simp add: unat_div unat_plus_u64)

lemma mid_u64:
  fixes l u :: u64
  assumes "l \<le> u" and "unat l + unat u < 18446744073709551616"
  shows "l \<le> (l + u) div 2" and "(l + u) div 2 \<le> u"
    and "l < u \<Longrightarrow> (l + u) div 2 < u"
  using assms by (simp_all add: word_le_nat_alt word_less_nat_alt unat_mid_u64)

lemma drop_bit_1_u64: "drop_bit 1 (x :: u64) = x div 2"
  by (simp add: drop_bit_eq_div)

lemma mid_split_u64:
  fixes l u x :: u64
  assumes "l \<le> u" and "unat l + unat u < 18446744073709551616"
  shows "(l + u) div 2 + 1 \<le> x \<longleftrightarrow> (l + u) div 2 < x"
proof (cases "(l + u) div 2 < x")
  case True
  then show ?thesis
    using unat_suc_u64 [OF True] by (simp add: word_le_nat_alt word_less_nat_alt)
next
  case False
  have "unat ((l + u) div 2) < 9223372036854775808"
    using assms(2) by (simp add: unat_mid_u64)
  then have "unat ((l + u) div 2 + 1) = Suc (unat ((l + u) div 2))"
    by (subst unat_plus_u64) simp_all
  with False show ?thesis
    by (simp add: word_le_nat_alt word_less_nat_alt)
qed

lemma unat_image_interval:
  "unat ` {l..u :: 'a::len word} = {unat l..unat u}"
proof
  show "unat ` {l..u} \<subseteq> {unat l..unat u}"
    by (auto simp: word_le_nat_alt)
  show "{unat l..unat u} \<subseteq> unat ` {l..u}"
  proof
    fix n assume n: "n \<in> {unat l..unat u}"
    then have lt: "n < 2 ^ LENGTH('a)"
      using unsigned_less [of u] by (meson atLeastAtMost_iff le_less_trans)
    then have "unat (word_of_nat n :: 'a word) = n"
      by (simp add: unat_of_nat)
    with n show "n \<in> unat ` {l..u}"
      by (intro image_eqI [of _ _ "word_of_nat n"]) (auto simp: word_le_nat_alt)
  qed
qed

lemma card_word_interval:
  "card {l..u :: 'a::len word} = Suc (unat u) - unat l"
proof -
  have "card (unat ` {l..u}) = card {l..u}"
    by (rule card_image) (auto intro: inj_onI simp: word_unat_eq_iff)
  then show ?thesis
    by (simp add: unat_image_interval)
qed

section \<open>Finite products of sets of list elements\<close>

lemma lists_dims_Suc:
  "{p. length p = Suc n \<and> (\<forall>i<Suc n. p ! i \<in> A i)} =
     (\<lambda>(p, x). p @ [x]) ` ({p. length p = n \<and> (\<forall>i<n. p ! i \<in> A i)} \<times> A n)"
  (is "?L = ?R")
proof
  show "?L \<subseteq> ?R"
  proof
    fix p assume p: "p \<in> ?L"
    then have "p \<noteq> []" by auto
    then obtain q x where px: "p = q @ [x]" by (cases p rule: rev_cases) auto
    with p have len: "length q = n" by simp
    from p have all: "\<forall>i<Suc n. p ! i \<in> A i" by simp
    have "p ! n \<in> A n" using all by blast
    then have "x \<in> A n" using px len by (simp add: nth_append)
    moreover have "q ! i \<in> A i" if "i < n" for i
      using all [rule_format, of i] px len that by (simp add: nth_append)
    ultimately have "(q, x) \<in> {p. length p = n \<and> (\<forall>i<n. p ! i \<in> A i)} \<times> A n"
      using len by simp
    then show "p \<in> ?R" using px by (intro image_eqI [of _ _ "(q, x)"]) simp_all
  qed
  show "?R \<subseteq> ?L" by (auto simp: nth_append less_Suc_eq)
qed

lemma card_lists_dims:
  "card {p. length p = n \<and> (\<forall>i<n. p ! i \<in> A i)} = (\<Prod>i<n. card (A i))"
proof (induction n)
  case 0
  have "{p. length p = 0 \<and> (\<forall>i<0. p ! i \<in> A i)} = {[]}" by auto
  then show ?case by simp
next
  case (Suc n)
  have "inj_on (\<lambda>(p, x). p @ [x]) ({p. length p = n \<and> (\<forall>i<n. p ! i \<in> A i)} \<times> A n)"
    by (auto simp: inj_on_def)
  then show ?case
    by (simp only: lists_dims_Suc card_image card_cartesian_product Suc) simp
qed

lemma finite_lists_dims:
  "(\<And>i. i < n \<Longrightarrow> finite (A i)) \<Longrightarrow> finite {p. length p = n \<and> (\<forall>i<n. p ! i \<in> A i)}"
proof (induction n)
  case 0
  have "{p. length p = 0 \<and> (\<forall>i<0. p ! i \<in> A i)} = {[]}" by auto
  then show ?case by simp
next
  case (Suc n)
  then show ?case
    by (simp only: lists_dims_Suc finite_imageI finite_SigmaI lessI less_SucI)
qed

section \<open>Loops over array positions\<close>

text \<open>
  A C loop \<^verbatim>\<open>for(i = 0; i < n; i++)\<close> that updates position \<open>i\<close> of an array is a fold
  over \<open>[0..<n]\<close>.
\<close>

lemma length_fold_upd:
  "length (fold (\<lambda>j xs. xs[j := f j]) js xs) = length xs"
  by (induction js arbitrary: xs) auto

lemma fold_upd_upt:
  assumes "n \<le> length xs"
  shows "fold (\<lambda>j xs. xs[j := f j]) [0..<n] xs = map f [0..<n] @ drop n xs"
  using assms
proof (induction n)
  case 0
  then show ?case by simp
next
  case (Suc n)
  then have "drop n xs = xs ! n # drop (Suc n) xs"
    by (simp add: Cons_nth_drop_Suc)
  with Suc show ?case by (simp add: list_update_append)
qed

lemma list_all_upt [simp]: "list_all P [0..<n] \<longleftrightarrow> (\<forall>i<n. P i)"
  by (auto simp: list_all_iff)

lemma prod_upt: "(\<Prod>i<n. f i) = prod_list (map f [0..<n])" for f :: "nat \<Rightarrow> 'a::comm_monoid_mult"
  by (induction n) (simp_all add: mult.commute)

lemma sum_upt: "(\<Sum>i<n. f i) = sum_list (map f [0..<n])" for f :: "nat \<Rightarrow> 'a::comm_monoid_add"
  by (induction n) (simp_all add: add.commute)

lemma all_less_two: "(\<forall>i<(2::nat). P i) \<longleftrightarrow> P 0 \<and> P 1"
  by (auto simp: less_2_cases_iff)

section \<open>Tables of buckets\<close>

text \<open>
  A table whose bucket \<open>i\<close> holds only elements with key \<open>i\<close>: buckets are disjoint, and an
  element of the table is in the bucket of its key.
\<close>

definition keyed :: "('a \<Rightarrow> nat) \<Rightarrow> 'a list list \<Rightarrow> bool" where
  "keyed f xss \<longleftrightarrow> (\<forall>i<length xss. \<forall>x\<in>set (xss ! i). f x = i)"

lemma keyed_in_concat:
  assumes "keyed f xss"
  shows "x \<in> set (concat xss) \<longleftrightarrow> f x < length xss \<and> x \<in> set (xss ! f x)"
proof
  assume "x \<in> set (concat xss)"
  then obtain xs where "xs \<in> set xss" "x \<in> set xs" by auto
  then obtain i where "i < length xss" "x \<in> set (xss ! i)"
    by (auto simp: in_set_conv_nth [of xs])
  with assms show "f x < length xss \<and> x \<in> set (xss ! f x)" by (auto simp: keyed_def)
next
  assume "f x < length xss \<and> x \<in> set (xss ! f x)"
  then show "x \<in> set (concat xss)" by auto
qed

lemma keyed_update:
  assumes "keyed f xss" "\<And>x. x \<in> set xs \<Longrightarrow> f x = i"
  shows "keyed f (xss[i := xs])"
  unfolding keyed_def
proof (intro allI impI ballI)
  fix k x assume "k < length (xss[i := xs])" "x \<in> set (xss[i := xs] ! k)"
  then show "f x = k"
    using assms by (cases "k = i") (auto simp: keyed_def)
qed

lemma keyed_distinct_concat:
  assumes "keyed f xss" "\<And>xs. xs \<in> set xss \<Longrightarrow> distinct xs"
  shows "distinct (concat xss)"
  using assms
proof (induction xss rule: rev_induct)
  case Nil
  then show ?case by simp
next
  case (snoc xs xss)
  have "keyed f xss"
    unfolding keyed_def
  proof (intro allI impI ballI)
    fix i x assume "i < length xss" "x \<in> set (xss ! i)"
    then show "f x = i"
      using snoc.prems(1) unfolding keyed_def
      by (metis length_append_singleton less_SucI nth_append)
  qed
  moreover have "\<forall>x\<in>set xs. f x = length xss"
    using snoc.prems(1) by (auto simp: keyed_def)
  moreover have "set (concat xss) \<inter> set xs = {}"
  proof (rule ccontr)
    assume "set (concat xss) \<inter> set xs \<noteq> {}"
    then obtain x where "x \<in> set (concat xss)" "x \<in> set xs" by blast
    with \<open>keyed f xss\<close> \<open>\<forall>x\<in>set xs. f x = length xss\<close> show False
      using keyed_in_concat [of f xss x] by simp
  qed
  ultimately show ?case using snoc by simp
qed

lemma sum_list_length_update:
  assumes "i < length xss"
  shows "sum_list (map length (xss[i := xs])) + length (xss ! i) =
    sum_list (map length xss) + length xs"
  using assms
proof (induction xss arbitrary: i)
  case Nil
  then show ?case by simp
next
  case (Cons ys xss)
  then show ?case by (cases i) auto
qed

lemma set_concat_push:
  "i < length xss \<Longrightarrow> set (concat (xss[i := x # xss ! i])) = insert x (set (concat xss))"
proof (induction xss arbitrary: i)
  case Nil
  then show ?case by simp
next
  case (Cons ys xss)
  then show ?case by (cases i) auto
qed

lemma length_filter_neq:
  "distinct xs \<Longrightarrow> a \<in> set xs \<Longrightarrow> length (filter (\<lambda>x. x \<noteq> a) xs) = length xs - 1"
  using length_remove1 [of a xs] distinct_remove1_removeAll [of xs a]
  by (simp add: removeAll_filter_not_eq eq_commute [of a])

end
