(* ===== verification/Hilbert.thy ===== *)
theory Hilbert
  imports Prelude
begin

text \<open>
  The Hilbert curve of \<^verbatim>\<open>include/sfc.h\<close>: \<^verbatim>\<open>bitTranspose\<close>, \<^verbatim>\<open>hilbert_c2i\<close> and
  \<^verbatim>\<open>hilbert_i2c\<close>, with the macros they use. \<^verbatim>\<open>bitmask_t\<close> is a 64-bit, \<^verbatim>\<open>halfmask_t\<close> a 32-bit
  word; the \<^verbatim>\<open>unsigned\<close> counts of dimensions and bits are natural numbers. The comparison, box and
  floating-point routines of the header are not called by the program.
\<close>

type_synonym bitmask_t = u64
type_synonym halfmask_t = u32

section \<open>Macros\<close>

definition ones64 :: "nat \<Rightarrow> bitmask_t" where
  "ones64 k = push_bit (k - 1) 2 - 1"

definition ones32 :: "nat \<Rightarrow> halfmask_t" where
  "ones32 k = push_bit (k - 1) 2 - 1"

text \<open>
  With 32 dimensions and rotation 0 the source shifts a 32-bit number by 32, which C leaves undefined; the
  shifts here give 0. Ten dimensions are the most the program uses.
\<close>

definition rotateRight :: "halfmask_t \<Rightarrow> nat \<Rightarrow> nat \<Rightarrow> bitmask_t" where
  "rotateRight arg nRots nDims =
     ucast (drop_bit nRots arg OR push_bit (nDims - nRots) arg) AND ones64 nDims"

definition rotateLeft :: "halfmask_t \<Rightarrow> nat \<Rightarrow> nat \<Rightarrow> bitmask_t" where
  "rotateLeft arg nRots nDims =
     ucast (push_bit nRots arg OR drop_bit (nDims - nRots) arg) AND ones64 nDims"

text \<open>The loop \<^verbatim>\<open>while(bits) bits >>= 1, ++rotation\<close>.\<close>

lemma drop_bit_less_u32: "bits \<noteq> 0 \<Longrightarrow> unat (drop_bit (Suc 0) bits) < unat bits" for bits :: u32
proof -
  assume "bits \<noteq> 0"
  then have "0 < unat bits" by (simp add: unat_gt_0)
  then have "unat bits div 2 < unat bits" by (intro div_less_dividend) simp_all
  then show ?thesis by (simp add: drop_bit_Suc unat_div)
qed

function shift_out :: "halfmask_t \<Rightarrow> nat \<Rightarrow> nat" where
  "shift_out bits rotation =
     (if bits \<noteq> 0 then shift_out (drop_bit 1 bits) (rotation + 1) else rotation)"
  by auto
termination
  by (relation "measure (unat \<circ> fst)") (auto simp: drop_bit_less_u32)

declare shift_out.simps [simp del]

definition adjust_rotation :: "nat \<Rightarrow> nat \<Rightarrow> halfmask_t \<Rightarrow> halfmask_t \<Rightarrow> nat" where
  "adjust_rotation rotation nDims nd1Ones bits =
     (let rotation = shift_out (bits AND (- bits AND nd1Ones)) rotation + 1
      in if rotation \<ge> nDims then rotation - nDims else rotation)"

section \<open>Transposing a bit matrix\<close>

text \<open>
  The body of the two \<^verbatim>\<open>for\<close> loops over the dimensions; the state is \<^verbatim>\<open>(inCoords, coords,
  utCoords, oddShift)\<close>, and \<^verbatim>\<open>odd\<close> tells whether \<^verbatim>\<open>inB & 1\<close> holds.
\<close>

definition transpose_dim ::
  "nat \<Rightarrow> nat \<Rightarrow> nat \<Rightarrow> bitmask_t \<Rightarrow> bitmask_t \<Rightarrow> bitmask_t \<Rightarrow> nat \<Rightarrow>
   bitmask_t \<times> bitmask_t \<times> bitmask_t \<times> nat \<Rightarrow> bitmask_t \<times> bitmask_t \<times> bitmask_t \<times> nat" where
  "transpose_dim inB utB shiftAmt inMask utMask inFieldStarts d = (\<lambda>(inCoords, coords, utCoords, oddShift).
     let inp = inCoords AND inMask;
         inCoords = drop_bit inB inCoords;
         (coords, oddShift, inp) =
           (if odd inB
            then (coords OR push_bit oddShift (inp AND inFieldStarts), oddShift + 1, inp AND NOT inFieldStarts)
            else (coords, oddShift, inp));
         inp = (inp OR push_bit shiftAmt inp) AND utMask
     in (inCoords, coords, utCoords OR push_bit (d * utB) inp, oddShift))"

function transpose_loop ::
  "nat \<Rightarrow> nat \<Rightarrow> bitmask_t \<Rightarrow> bitmask_t \<Rightarrow> bitmask_t \<Rightarrow> bitmask_t \<Rightarrow> bitmask_t" where
  "transpose_loop nDims inB inFieldEnds inMask inCoords coords =
     (let utB = inB div 2
      in if utB = 0 then coords OR inCoords
         else let shiftAmt = (nDims - 1) * utB;
                  utFieldEnds = inFieldEnds OR push_bit (shiftAmt + utB) inFieldEnds;
                  utMask = push_bit utB utFieldEnds - utFieldEnds;
                  inFieldStarts = push_bit (inB - 1) inFieldEnds;
                  (_, coords, utCoords, _) =
                    fold (transpose_dim inB utB shiftAmt inMask utMask inFieldStarts) [0..<nDims]
                      (inCoords, coords, 0, 2 * shiftAmt)
              in transpose_loop nDims utB utFieldEnds utMask utCoords coords)"
  by auto
termination
  by (relation "measure (\<lambda>(nDims, inB, _). inB)") auto

declare transpose_loop.simps [simp del]

definition bitTranspose :: "nat \<Rightarrow> nat \<Rightarrow> bitmask_t \<Rightarrow> bitmask_t" where
  "bitTranspose nDims nBits inCoords = transpose_loop nDims nBits 1 (ones64 nBits) inCoords 0"

section \<open>Coordinates to index\<close>

text \<open>
  The \<^verbatim>\<open>do ... while(b)\<close> loop: \<^verbatim>\<open>b\<close> runs from \<^verbatim>\<open>nDims * nBits\<close> down to 0 in steps of \<^verbatim>\<open>nDims\<close>,
  so the argument \<open>k\<close> counts the remaining rounds.
\<close>

fun c2i_loop ::
  "nat \<Rightarrow> bitmask_t \<Rightarrow> halfmask_t \<Rightarrow> nat \<Rightarrow> nat \<Rightarrow> halfmask_t \<Rightarrow> bitmask_t \<Rightarrow> bitmask_t" where
  "c2i_loop nDims coords ndOnes 0 rotation flipBit index = index"
| "c2i_loop nDims coords ndOnes (Suc k) rotation flipBit index =
     (let bits = ucast (drop_bit (nDims * k) coords AND ucast ndOnes) :: halfmask_t;
          bits = ucast (rotateRight (flipBit XOR bits) rotation nDims) :: halfmask_t;
          index = push_bit nDims index OR ucast bits;
          flipBit = push_bit rotation 1;
          rotation = adjust_rotation rotation nDims (drop_bit 1 ndOnes) bits
      in c2i_loop nDims coords ndOnes k rotation flipBit index)"

text \<open>The loop \<^verbatim>\<open>for(d = 1; d < nDimsBits; d *= 2) index ^= index >> d\<close>.\<close>

function xor_prefix :: "nat \<Rightarrow> nat \<Rightarrow> bitmask_t \<Rightarrow> bitmask_t" where
  "xor_prefix d n index =
     (if 0 < d \<and> d < n then xor_prefix (d * 2) n (index XOR drop_bit d index) else index)"
  by auto
termination
  by (relation "measure (\<lambda>(d, n, _). n - d)") auto

declare xor_prefix.simps [simp del]

definition hilbert_c2i :: "nat \<Rightarrow> nat \<Rightarrow> bitmask_t list \<Rightarrow> bitmask_t" where
  "hilbert_c2i nDims nBits coord =
     (if nDims > 1
      then let nDimsBits = nDims * nBits;
               coords = fold (\<lambda>d coords. push_bit nBits coords OR coord ! d) (rev [0..<nDims]) 0;
               index =
                 (if nBits > 1
                  then let ndOnes = ones32 nDims;
                           nthbits = ones64 nDimsBits div ucast ndOnes;
                           coords = bitTranspose nDims nBits coords;
                           coords = coords XOR drop_bit nDims coords
                       in c2i_loop nDims coords ndOnes nBits 0 0 0 XOR drop_bit 1 nthbits
                  else coords)
           in xor_prefix 1 nDimsBits index
      else coord ! 0)"

section \<open>Index to coordinates\<close>

fun i2c_loop ::
  "nat \<Rightarrow> bitmask_t \<Rightarrow> halfmask_t \<Rightarrow> nat \<Rightarrow> nat \<Rightarrow> halfmask_t \<Rightarrow> bitmask_t \<Rightarrow> bitmask_t" where
  "i2c_loop nDims index ndOnes 0 rotation flipBit coords = coords"
| "i2c_loop nDims index ndOnes (Suc k) rotation flipBit coords =
     (let bits = ucast (drop_bit (nDims * k) index AND ucast ndOnes) :: halfmask_t;
          coords = push_bit nDims coords OR (rotateLeft bits rotation nDims XOR ucast flipBit);
          flipBit = push_bit rotation 1;
          rotation = adjust_rotation rotation nDims (drop_bit 1 ndOnes) bits
      in i2c_loop nDims index ndOnes k rotation flipBit coords)"

definition hilbert_i2c :: "nat \<Rightarrow> nat \<Rightarrow> bitmask_t \<Rightarrow> bitmask_t list" where
  "hilbert_i2c nDims nBits index =
     (if nDims > 1
      then let nbOnes = ones32 nBits;
               coords =
                 (if nBits > 1
                  then let nDimsBits = nDims * nBits;
                           ndOnes = ones32 nDims;
                           nthbits = ones64 nDimsBits div ucast ndOnes;
                           index = index XOR drop_bit 1 (index XOR nthbits);
                           coords = i2c_loop nDims index ndOnes nBits 0 0 0;
                           coords = xor_prefix nDims nDimsBits coords
                       in bitTranspose nBits nDims coords
                  else index XOR drop_bit 1 index)
           in map (\<lambda>d. drop_bit (d * nBits) coords AND ucast nbOnes) [0..<nDims]
      else [index])"

end
