(* ===== verification/Curve.thy ===== *)
theory Curve
  imports Hilbert
begin

text \<open>
  The levels of the Hilbert curve: words with few bits, Gray codes and their inverse \<open>xor_prefix\<close>, rotations, and
  the loops of \<^verbatim>\<open>hilbert_c2i\<close> and \<^verbatim>\<open>hilbert_i2c\<close> as functions on lists of levels that undo each other.
\<close>

unbundle bit_operations_syntax

section \<open>Words with few bits\<close>

text \<open>\<open>fits k w\<close>: the word has no bit at \<open>k\<close> or above.\<close>

definition fits :: "nat \<Rightarrow> 'a::len word \<Rightarrow> bool" where
  "fits k w \<longleftrightarrow> (\<forall>i\<ge>k. \<not> bit w i)"

lemma fits_drop: "fits k w \<longleftrightarrow> drop_bit k w = 0"
proof
  assume "drop_bit k w = 0"
  then have "\<not> bit w (k + i)" for i by (metis bit_0_eq bit_drop_bit_eq bot_apply bot_bool_def comp_apply)
  then show "fits k w" by (auto simp: fits_def dest!: le_Suc_ex)
qed (auto intro!: bit_word_eqI simp: fits_def bit_simps)

lemma fits_less: "k < LENGTH('a) \<Longrightarrow> fits k w \<longleftrightarrow> w < 2 ^ k" for w :: "'a::len word"
proof -
  assume k: "k < LENGTH('a)"
  have "fits k w \<longleftrightarrow> take_bit k w = w"
    by (auto simp: fits_def intro!: bit_word_eqI simp: bit_take_bit_iff) (metis bit_take_bit_iff not_le)+
  also have "\<dots> \<longleftrightarrow> w < 2 ^ k"
    using k by (simp add: take_bit_eq_mask mask_eq_iff word_2p_lem word_size)
  finally show ?thesis .
qed

lemma fits_full: "LENGTH('a) \<le> k \<Longrightarrow> fits k w" for w :: "'a::len word"
  by (auto simp: fits_def dest: bit_imp_le_length)

lemma fits_ops [intro]:
  "fits k a \<Longrightarrow> fits k b \<Longrightarrow> fits k (a XOR b)" "fits k a \<Longrightarrow> fits k b \<Longrightarrow> fits k (a OR b)"
  "fits k a \<Longrightarrow> fits k (a AND b)" "fits k b \<Longrightarrow> fits k (a AND b)" "fits k a \<Longrightarrow> fits k (drop_bit d a)" "fits k 0"
  by (auto simp: fits_def bit_simps)

lemma fits_mono: "fits k w \<Longrightarrow> k \<le> l \<Longrightarrow> fits l w"
  by (auto simp: fits_def)

lemma ones64_mask: "0 < k \<Longrightarrow> ones64 k = mask k"
  by (cases k) (simp_all add: ones64_def mask_eq_exp_minus_1 push_bit_eq_mult)

lemma ones32_mask: "0 < k \<Longrightarrow> ones32 k = mask k"
  by (cases k) (simp_all add: ones32_def mask_eq_exp_minus_1 push_bit_eq_mult)

section \<open>Gray codes\<close>

definition gray :: "nat \<Rightarrow> 'a::len word \<Rightarrow> 'a word" where
  "gray d w = w XOR drop_bit d w"

lemma bit_gray: "bit (gray d w) i \<longleftrightarrow> bit w i \<noteq> bit w (i + d)"
  by (auto simp: gray_def bit_simps add.commute)

lemma xor_prefix_gray: "0 < d \<Longrightarrow> fits n y \<Longrightarrow> xor_prefix d n (gray d y) = y"
proof (induction d n "gray d y" arbitrary: rule: xor_prefix.induct)
  case (1 d n)
  show ?case
  proof (cases "d < n")
    case True
    have "gray d y XOR drop_bit d (gray d y) = gray (d * 2) y"
      by (rule bit_word_eqI) (auto simp: gray_def bit_simps add.assoc mult_2_right)
    then show ?thesis using 1 True by (subst xor_prefix.simps) simp
  next
    case False
    then have "drop_bit d y = 0" using 1(3) fits_mono [of n y d] by (simp add: fits_drop)
    then show ?thesis using False by (subst xor_prefix.simps) (simp add: gray_def)
  qed
qed

lemma xor_prefix_linear: "xor_prefix e n (gray d x) = gray d (xor_prefix e n x)"
proof (induction e n x rule: xor_prefix.induct)
  case (1 e n x)
  have "gray d x XOR drop_bit e (gray d x) = gray d (x XOR drop_bit e x)"
    by (rule bit_word_eqI) (auto simp: gray_def bit_simps ac_simps)
  then show ?case using 1 by (subst (1 2) xor_prefix.simps) simp
qed

lemma gray_xor_prefix: "0 < d \<Longrightarrow> fits n x \<Longrightarrow> gray d (xor_prefix d n x) = x"
  by (metis xor_prefix_linear xor_prefix_gray)

lemma fits_xor_prefix: "fits k x \<Longrightarrow> fits k (xor_prefix d n x)"
proof (induction d n x rule: xor_prefix.induct)
  case (1 d n x)
  then show ?case by (subst xor_prefix.simps) auto
qed

section \<open>Rotations\<close>

lemma bit_rotateRight:
  assumes "r < n" "n \<le> 32" "fits n a"
  shows "bit (rotateRight a r n) i \<longleftrightarrow> i < n \<and> bit a ((i + r) mod n)"
proof (cases "i + r < n")
  case True
  then show ?thesis using assms by (auto simp: rotateRight_def ones64_mask bit_simps add.commute)
next
  case False
  then have "\<not> bit a (i + r)" using assms(3) by (simp add: fits_def)
  moreover have "i < n \<Longrightarrow> (i + r) mod n = i + r - n" using False assms(1) by (simp add: mod_if)
  moreover have "i - (n - r) = i + r - n" using assms(1) by simp
  ultimately show ?thesis using False assms by (auto simp: rotateRight_def ones64_mask bit_simps add.commute)
qed

lemma bit_rotateLeft:
  assumes "r < n" "n \<le> 32" "fits n a"
  shows "bit (rotateLeft a r n) i \<longleftrightarrow> i < n \<and> bit a ((i + (n - r)) mod n)"
proof (cases "i < r")
  case True
  then have "(i + (n - r)) mod n = i + (n - r)" using assms(1) by simp
  then show ?thesis using True assms by (auto simp: rotateLeft_def ones64_mask bit_simps add.commute)
next
  case False
  then have "\<not> bit a (i + (n - r))" using assms(1,3) by (simp add: fits_def)
  moreover have "i < n \<Longrightarrow> (i + (n - r)) mod n = i - r" using False assms(1) by (simp add: mod_if)
  ultimately show ?thesis using False assms by (auto simp: rotateLeft_def ones64_mask bit_simps add.commute)
qed

lemma fits_rotate [intro]: "0 < n \<Longrightarrow> fits n (rotateRight a r n)" "0 < n \<Longrightarrow> fits n (rotateLeft a r n)"
  by (auto simp: fits_def rotateRight_def rotateLeft_def ones64_mask bit_simps)

lemma fits_ucast [intro]: "fits n w \<Longrightarrow> fits n (ucast w)"
  by (auto simp: fits_def bit_simps)

lemma ucast_up_down: "n \<le> 32 \<Longrightarrow> fits n w \<Longrightarrow> ucast (ucast w :: u32) = (w :: u64)"
  by (rule bit_word_eqI) (auto simp: bit_simps fits_def not_less intro: ccontr)

lemma ucast_down_up: "ucast (ucast w :: u64) = (w :: u32)"
  by (rule bit_word_eqI) (auto simp: bit_simps)

lemma mod_shift: "0 < n \<Longrightarrow> i < n \<Longrightarrow> a + b = n \<Longrightarrow> ((i + a) mod n + b) mod n = i" for n :: nat
  by (metis add.assoc mod_add_left_eq mod_add_self2 mod_less)

lemma rotate_cancel:
  assumes "r < n" "n \<le> 32" "fits n a"
  shows "rotateLeft (ucast (rotateRight a r n)) r n = ucast a" "rotateRight (ucast (rotateLeft a r n)) r n = ucast a"
proof -
  have n: "0 < n" using assms(1) by simp
  have f: "fits n (ucast (rotateRight a r n) :: u32)" "fits n (ucast (rotateLeft a r n) :: u32)" using n by blast+
  have big: "\<not> bit a i" if "\<not> i < n" for i using assms(3) that by (simp add: fits_def)
  have m: "((i + (n - r)) mod n + r) mod n = i" "((i + r) mod n + (n - r)) mod n = i" if "i < n" for i
    using mod_shift [OF n that, of "n - r" r] mod_shift [OF n that, of r "n - r"] assms(1) by linarith+
  have l: "i < n \<Longrightarrow> i < 64" for i using assms(2) by simp
  show "rotateLeft (ucast (rotateRight a r n)) r n = ucast a"
  proof (rule bit_word_eqI)
    fix i
    show "bit (rotateLeft (ucast (rotateRight a r n)) r n) i = bit (ucast a :: u64) i"
      using n m(1) [of i] big [of i] l [of i] order_less_le_trans [OF mod_less_divisor [OF n] assms(2), of "i + (n - r)"] by (cases "i < n") (auto simp: bit_rotateRight bit_rotateLeft assms f bit_simps)
  qed
  show "rotateRight (ucast (rotateLeft a r n)) r n = ucast a"
  proof (rule bit_word_eqI)
    fix i
    show "bit (rotateRight (ucast (rotateLeft a r n)) r n) i = bit (ucast a :: u64) i"
      using n m(2) [of i] big [of i] l [of i] order_less_le_trans [OF mod_less_divisor [OF n] assms(2), of "i + r"] by (cases "i < n") (auto simp: bit_rotateRight bit_rotateLeft assms f bit_simps)
  qed
qed

text \<open>The rotation stays below the number of dimensions.\<close>

lemma shift_out_le: "fits k w \<Longrightarrow> shift_out w r \<le> r + k"
proof (induction w r arbitrary: k rule: shift_out.induct)
  case (1 w r)
  show ?case
  proof (cases "w = 0")
    case False
    then have "0 < k" using 1(2) fits_drop [of 0 w] by (cases k) auto
    moreover have "fits (k - 1) (drop_bit 1 w)" using 1(2) by (auto simp: fits_def bit_simps)
    ultimately show ?thesis using 1(1) [OF False, of "k - 1"] False by (subst shift_out.simps) simp
  qed (simp add: shift_out.simps)
qed

lemma adjust_rotation_less:
  assumes "r < n"
  shows "adjust_rotation r n (drop_bit 1 (ones32 n)) b < n"
proof -
  have "fits (n - 1) (b AND (- b AND drop_bit 1 (ones32 n)))"
    using assms by (auto simp: fits_def ones32_mask bit_simps)
  from shift_out_le [OF this, of r] assms show ?thesis by (auto simp: adjust_rotation_def Let_def)
qed

lemma fits_flip: "r < n \<Longrightarrow> fits n (push_bit r 1)"
  by (auto simp: fits_def bit_simps)

lemmas rot_simps = adjust_rotation_less [simplified] fits_flip [simplified]

section \<open>Levels\<close>

text \<open>The loops as functions on the list of levels, the highest first.\<close>

fun enc :: "nat \<Rightarrow> nat \<Rightarrow> u32 \<Rightarrow> u32 list \<Rightarrow> u32 list" where
  "enc n r f [] = []"
| "enc n r f (g # gs) =
     (let b = ucast (rotateRight (f XOR g) r n) in b # enc n (adjust_rotation r n (drop_bit 1 (ones32 n)) b) (push_bit r 1) gs)"

fun dec :: "nat \<Rightarrow> nat \<Rightarrow> u32 \<Rightarrow> u32 list \<Rightarrow> u32 list" where
  "dec n r f [] = []"
| "dec n r f (b # bs) =
     (ucast (rotateLeft b r n) XOR f) # dec n (adjust_rotation r n (drop_bit 1 (ones32 n)) b) (push_bit r 1) bs"

definition lv :: "nat \<Rightarrow> nat \<Rightarrow> u64 \<Rightarrow> u32 list" where
  "lv n k w = map (\<lambda>j. ucast (drop_bit (n * j) w AND ucast (ones32 n))) (rev [0..<k])"

definition joinl :: "nat \<Rightarrow> u32 list \<Rightarrow> u64 \<Rightarrow> u64" where
  "joinl n bs acc = fold (\<lambda>b acc. push_bit n acc OR ucast b) bs acc"

lemma lv_simps [simp]: "lv n 0 w = []" "lv n (Suc k) w = ucast (drop_bit (n * k) w AND ucast (ones32 n)) # lv n k w"
  by (simp_all add: lv_def)

lemma joinl_simps [simp]: "joinl n [] acc = acc" "joinl n (b # bs) acc = joinl n bs (push_bit n acc OR ucast b)"
  by (simp_all add: joinl_def)

lemma length_lv [simp]: "length (lv n k w) = k" by (simp add: lv_def)

lemma length_enc [simp]: "length (enc n r f gs) = length gs"
  by (induction gs arbitrary: r f) (simp_all add: Let_def)

lemma c2i_loop_eq: "c2i_loop n w (ones32 n) k r f idx = joinl n (enc n r f (lv n k w)) idx"
  by (induction k arbitrary: r f idx) (simp_all add: Let_def)

lemma i2c_loop_eq:
  assumes "0 < n" "n \<le> 32"
  shows "i2c_loop n w (ones32 n) k r f cs = joinl n (dec n r f (lv n k w)) cs"
proof (induction k arbitrary: r f cs)
  case (Suc k)
  have "ucast (ucast (rotateLeft b r n) XOR f) = rotateLeft b r n XOR ucast f" for b
    using ucast_up_down [OF assms(2) fits_rotate(2) [OF assms(1)], of b r] by (metis unsigned_xor_eq)
  then show ?case using Suc by (simp add: Let_def)
qed simp

lemma dec_enc: "r < n \<Longrightarrow> n \<le> 32 \<Longrightarrow> fits n f \<Longrightarrow> list_all (fits n) gs \<Longrightarrow> dec n r f (enc n r f gs) = gs"
proof (induction gs arbitrary: r f)
  case (Cons g gs)
  have "ucast (ucast (f XOR g) :: u64) XOR f = g" by (rule bit_word_eqI) (auto simp: bit_simps)
  then show ?case using Cons rotate_cancel(1) [OF Cons(2,3), of "f XOR g"]
    by (simp add: Let_def rot_simps fits_ops(1))
qed simp

lemma enc_dec: "r < n \<Longrightarrow> n \<le> 32 \<Longrightarrow> list_all (fits n) bs \<Longrightarrow> enc n r f (dec n r f bs) = bs"
proof (induction bs arbitrary: r f)
  case (Cons b bs)
  have "f XOR (ucast (rotateLeft b r n) XOR f) = ucast (rotateLeft b r n)" by (rule bit_word_eqI) (auto simp: bit_simps)
  then show ?case using Cons rotate_cancel(2) [OF Cons(2,3), of b]
    by (simp add: Let_def rot_simps ucast_down_up)
qed simp

lemma fits_enc: "0 < n \<Longrightarrow> list_all (fits n) (enc n r f gs)"
  by (induction gs arbitrary: r f) (auto simp: Let_def)

lemma fits_dec: "r < n \<Longrightarrow> fits n f \<Longrightarrow> list_all (fits n) (dec n r f bs)"
proof (induction bs arbitrary: r f)
  case (Cons b bs)
  then have "fits n (ucast (rotateLeft b r n) :: u32)" by (intro fits_ucast fits_rotate) simp
  then show ?case using Cons by (simp add: rot_simps fits_ops(1))
qed simp

lemma joinl_snoc: "joinl n (bs @ [b]) acc = push_bit n (joinl n bs acc) OR ucast b"
  by (simp add: joinl_def)

lemma bit_joinl:
  assumes "0 < n" "list_all (fits n) bs" "i < 64"
  shows "bit (joinl n bs acc) i \<longleftrightarrow>
    (if i < n * length bs then bit (bs ! (length bs - 1 - i div n)) (i mod n) else bit acc (i - n * length bs))"
  using assms(2,3)
proof (induction bs arbitrary: i rule: rev_induct)
  case (snoc b bs)
  show ?case
  proof (cases "i < n")
    case True
    then show ?thesis using snoc(3) by (auto simp: joinl_snoc bit_simps nth_append)
  next
    case False
    then have "\<not> bit b i" using snoc(2) by (simp add: fits_def)
    moreover have "(i - n) div n = i div n - 1" "(i - n) mod n = i mod n" "0 < i div n" using False assms(1)
      by (simp_all add: le_div_geq le_mod_geq div_greater_zero_iff)
    moreover have "i - n - n * length bs = i - n * Suc (length bs)" by simp
    moreover have "length bs - i div n = length bs - 1 - (i div n - 1)" using \<open>0 < i div n\<close> by simp
    moreover have "length bs - i div n < length bs" if "i - n < n * length bs"
      using that \<open>0 < i div n\<close> by (cases "length bs") auto
    ultimately show ?thesis using snoc False by (auto simp: joinl_snoc bit_simps nth_append)
  qed
qed simp

lemma bit_lv: "j < k \<Longrightarrow> 0 < n \<Longrightarrow> n \<le> 32 \<Longrightarrow> bit (lv n k w ! j) i \<longleftrightarrow> i < n \<and> bit w (n * (k - 1 - j) + i)"
  by (auto simp: lv_def rev_nth bit_simps ones32_mask)

lemma fits_lv: "0 < n \<Longrightarrow> n \<le> 32 \<Longrightarrow> list_all (fits n) (lv n k w)"
  unfolding list_all_length by (auto simp: bit_lv fits_def)

lemma joinl_lv:
  assumes "0 < n" "n \<le> 32" "fits (n * k) w"
  shows "joinl n (lv n k w) 0 = w"
proof (rule bit_word_eqI)
  fix i assume "i < LENGTH(64)"
  then have i: "i < 64" by simp
  show "bit (joinl n (lv n k w) 0) i = bit w i"
  proof (cases "i < n * k")
    case True
    then have d: "i div n < k" by (simp add: less_mult_imp_div_less mult.commute)
    then have "k - 1 - (k - 1 - i div n) = i div n" by simp
    then show ?thesis using True d bit_joinl [OF assms(1) fits_lv [OF assms(1,2)] i, of k w 0] assms(1,2)
      by (simp add: bit_lv)
  next
    case False
    then show ?thesis using bit_joinl [OF assms(1) fits_lv [OF assms(1,2)] i, of k w 0] assms(3) by (simp add: fits_def)
  qed
qed

lemma lv_joinl:
  assumes "0 < n" "n \<le> 32" "list_all (fits n) bs" "n * length bs \<le> 64"
  shows "lv n (length bs) (joinl n bs acc) = bs"
proof (rule nth_equalityI)
  fix j assume "j < length (lv n (length bs) (joinl n bs acc))"
  then have j: "j < length bs" by simp
  show "lv n (length bs) (joinl n bs acc) ! j = bs ! j"
  proof (rule bit_word_eqI)
    fix i
    let ?p = "n * (length bs - 1 - j) + i"
    show "bit (lv n (length bs) (joinl n bs acc) ! j) i = bit (bs ! j) i"
    proof (cases "i < n")
      case True
      have "?p < n * Suc (length bs - 1 - j)" using True by simp
      also have "\<dots> \<le> n * length bs" using j by (intro mult_le_mono2) simp
      finally have p: "?p < n * length bs" .
      moreover have "?p div n = length bs - 1 - j" "?p mod n = i" using True by simp_all
      ultimately show ?thesis using True j assms bit_joinl [OF assms(1,3), of ?p acc] by (simp add: bit_lv)
    next
      case False
      then show ?thesis using assms j by (auto simp: bit_lv fits_def list_all_length)
    qed
  qed
qed simp

lemma fits_joinl:
  assumes "0 < n" "list_all (fits n) bs"
  shows "fits (n * length bs) (joinl n bs 0)"
  unfolding fits_def
proof (intro allI impI)
  fix i assume i: "n * length bs \<le> i"
  show "\<not> bit (joinl n bs 0) i"
  proof (cases "i < 64")
    case True
    then show ?thesis using bit_joinl [OF assms True, of 0] i by simp
  qed (auto dest: bit_imp_le_length)
qed

end
