(* ===== verification/Transpose.thy ===== *)
theory Transpose
  imports Curve
begin

text \<open>
  \<^verbatim>\<open>bitTranspose\<close> transposes a bit matrix. Its loop halves fields of bits: while the fields start at the bits
  \<open>b \<in> B\<close> and are \<open>w\<close> wide, the bit \<open>b + j\<close> of row \<open>d\<close> stands at \<open>n * b + d * w + j\<close>; bits that are left over by
  an odd width are put in their final place at once.
\<close>

unbundle bit_operations_syntax

section \<open>Sums of disjoint words\<close>

lemma bit_sum:
  fixes f :: "'b \<Rightarrow> 'a::len word"
  assumes "finite B" "\<forall>b\<in>B. \<forall>c\<in>B. b \<noteq> c \<longrightarrow> (\<forall>i. \<not> (bit (f b) i \<and> bit (f c) i))"
  shows "bit (sum f B) i \<longleftrightarrow> (\<exists>b\<in>B. bit (f b) i)"
  using assms
proof (induction B arbitrary: i rule: finite_induct)
  case (insert b B)
  then have IH: "bit (sum f B) i \<longleftrightarrow> (\<exists>b\<in>B. bit (f b) i)" for i by blast
  have "f b AND sum f B = 0" using insert(2,4) by (intro bit_word_eqI) (auto simp: bit_simps IH)
  then have "f b + sum f B = f b OR sum f B" by (rule disjunctive_add_eq_or)
  then show ?case using insert(1,2) by (simp add: bit_simps IH)
qed simp

section \<open>Fields\<close>

definition fields :: "nat \<Rightarrow> nat \<Rightarrow> nat set \<Rightarrow> bool" where
  "fields m w B \<longleftrightarrow> 0 < w \<and> (\<forall>b\<in>B. b + w \<le> m) \<and> (\<forall>b\<in>B. \<forall>c\<in>B. b < c \<longrightarrow> b + w \<le> c)"

lemma fields_finite: "fields m w B \<Longrightarrow> finite B"
  by (rule finite_subset [of _ "{..m}"]) (auto simp: fields_def)

text \<open>The positions of the bits of different fields differ.\<close>

lemma place_unique:
  assumes "fields m w B" "b \<in> B" "c \<in> B" "d < n" "e < n" "j < w" "k < w" "n * b + d * w + j = n * c + e * w + k"
  shows "b = c \<and> d = e \<and> j = k"
proof -
  have le: "n * x + d * w + j < n * y" if "x \<in> B" "y \<in> B" "x < y" "d < n" "j < w" for x y d j
  proof -
    have "d * w + j < Suc d * w" using that by simp
    also have "\<dots> \<le> n * w" using that by (intro mult_le_mono1) simp
    finally have "n * x + (d * w + j) < n * (x + w)" by (simp add: distrib_left)
    also have "\<dots> \<le> n * y" using assms(1) that by (intro mult_le_mono2) (auto simp: fields_def)
    finally show ?thesis by simp
  qed
  have bc: "b = c" using le [of b c d j] le [of c b e k] assms by (metis le_add1 linorder_neqE_nat not_less add.assoc)
  then have "d * w + j = e * w + k" using assms(8) by simp
  then have "(d * w + j) div w = (e * w + k) div w" "(d * w + j) mod w = (e * w + k) mod w" by simp_all
  then show ?thesis using bc assms(6,7) by simp
qed

definition ends :: "nat \<Rightarrow> nat set \<Rightarrow> u64 \<Rightarrow> bool" where
  "ends n B E \<longleftrightarrow> (\<forall>i. bit E i \<longleftrightarrow> (\<exists>b\<in>B. i = n * b))"

definition masks :: "nat \<Rightarrow> nat \<Rightarrow> nat set \<Rightarrow> u64 \<Rightarrow> bool" where
  "masks n w B M \<longleftrightarrow> (\<forall>i. bit M i \<longleftrightarrow> (\<exists>b\<in>B. n * b \<le> i \<and> i < n * b + w))"

lemma field_end: "fields m w B \<Longrightarrow> 0 < n \<Longrightarrow> n * m \<le> 64 \<Longrightarrow> b \<in> B \<Longrightarrow> n * b < 64 \<and> n * b + w \<le> 64"
proof -
  assume f: "fields m w B" "0 < n" "n * m \<le> 64" "b \<in> B"
  then have "n * (b + w) \<le> 64" by (metis fields_def mult_le_mono2 order_trans)
  moreover have "w \<le> n * w" "0 < w" using f by (auto simp: fields_def)
  ultimately show ?thesis unfolding distrib_left by linarith
qed

lemma mask_of_ends:
  assumes "fields m w B" "0 < n" "n * m \<le> 64" "ends n B E"
  shows "masks n w B (push_bit w E - E)"
proof -
  have fin: "finite B" using assms(1) by (rule fields_finite)
  have E: "E = (\<Sum>b\<in>B. 2 ^ (n * b))"
  proof (rule bit_word_eqI)
    fix i
    have "bit (\<Sum>b\<in>B. 2 ^ (n * b) :: u64) i \<longleftrightarrow> (\<exists>b\<in>B. bit (2 ^ (n * b) :: u64) i)"
      using assms(2) by (intro bit_sum [OF fin]) (auto simp: bit_simps)
    then show "bit E i = bit (\<Sum>b\<in>B. 2 ^ (n * b) :: u64) i"
      using assms(4) field_end [OF assms(1-3)] by (auto simp: ends_def bit_simps)
  qed
  have "push_bit w E - E = (\<Sum>b\<in>B. push_bit (n * b) (mask w))"
    by (simp add: E push_bit_eq_mult mask_eq_exp_minus_1 sum_distrib_left left_diff_distrib sum_subtractf mult.commute)
  moreover have "bit (\<Sum>b\<in>B. push_bit (n * b) (mask w) :: u64) i \<longleftrightarrow> (\<exists>b\<in>B. n * b \<le> i \<and> i < n * b + w)" for i
  proof -
    have "bit (\<Sum>b\<in>B. push_bit (n * b) (mask w) :: u64) i \<longleftrightarrow> (\<exists>b\<in>B. bit (push_bit (n * b) (mask w) :: u64) i)"
    proof (intro bit_sum [OF fin] ballI impI allI notI)
      fix b c i assume bc: "b \<in> B" "c \<in> B" "b \<noteq> c" "bit (push_bit (n * b) (mask w) :: u64) i \<and> bit (push_bit (n * c) (mask w) :: u64) i"
      then have "n * b \<le> i" "i - n * b < w" "n * c \<le> i" "i - n * c < w" by (auto simp: bit_simps)
      then show False using place_unique [OF assms(1) bc(1,2), of 0 n 0 "i - n * b" "i - n * c"] bc(3) assms(2) by simp
    qed
    then show ?thesis using field_end [OF assms(1-3)] by (auto simp: bit_simps) fastforce
  qed
  ultimately show ?thesis by (simp add: masks_def)
qed

section \<open>One halving\<close>

text \<open>The fields after a halving; \<open>left\<close> tells which bits have reached their place before.\<close>

definition halves :: "nat \<Rightarrow> nat set \<Rightarrow> nat set" where
  "halves u B = B \<union> (\<lambda>b. b + u) ` B"

lemma fields_halves:
  assumes "fields m w B" "u = w div 2" "0 < u"
  shows "fields m u (halves u B)"
proof -
  have w: "2 * u \<le> w" using assms(2) by simp
  have bm: "b + w \<le> m" if "b \<in> B" for b using assms(1) that by (simp add: fields_def)
  have bc: "b + w \<le> c" if "b \<in> B" "c \<in> B" "b < c" for b c using assms(1) that by (simp add: fields_def)
  have "b + u \<le> c" if "b \<in> halves u B" "c \<in> halves u B" "b < c" for b c
  proof -
    from that obtain b0 c0 where b0: "b0 \<in> B" "b = b0 \<or> b = b0 + u" and c0: "c0 \<in> B" "c = c0 \<or> c = c0 + u" by (auto simp: halves_def)
    show ?thesis
    proof (cases b0 c0 rule: linorder_cases)
      case less
      then show ?thesis using bc [OF b0(1) c0(1)] b0(2) c0(2) w by auto
    next
      case greater
      then show ?thesis using bc [OF c0(1) b0(1)] b0(2) c0(2) w that(3) by auto
    qed (use b0(2) c0(2) that(3) in auto)
  qed
  moreover have "b + u \<le> m" if "b \<in> halves u B" for b using that bm w by (fastforce simp: halves_def)
  ultimately show ?thesis using assms(3) by (simp add: fields_def)
qed

lemma ends_halves:
  assumes "fields m w B" "0 < n" "n * m \<le> 64" "ends n B E" "u = w div 2"
  shows "ends n (halves u B) (E OR push_bit (n * u) E)"
  unfolding ends_def
proof
  fix i
  have "bit (E OR push_bit (n * u) E) i \<longleftrightarrow> (\<exists>b\<in>B. i = n * b) \<or> (\<exists>b\<in>B. n * u \<le> i \<and> i < 64 \<and> i - n * u = n * b)"
    using assms(4) by (auto simp: ends_def bit_simps)
  also have "n * u \<le> i \<and> i < 64 \<and> i - n * u = n * b \<longleftrightarrow> i = n * (b + u)" if "b \<in> B" for b
  proof -
    have "n * (b + u) < n * (b + w)" using assms(1,2,5) by (simp add: fields_def)
    also have "\<dots> \<le> n * m" using assms(1) that by (intro mult_le_mono2) (simp add: fields_def)
    finally have "n * b + n * u < 64" using assms(3) by (simp add: distrib_left)
    then show ?thesis by (auto simp: distrib_left)
  qed
  then have "(\<exists>b\<in>B. n * u \<le> i \<and> i < 64 \<and> i - n * u = n * b) \<longleftrightarrow> (\<exists>b\<in>B. i = n * (b + u))" by (rule bex_cong [OF refl])
  finally show "bit (E OR push_bit (n * u) E) i \<longleftrightarrow> (\<exists>b\<in>halves u B. i = n * b)" by (simp add: halves_def bex_Un)
qed

text \<open>\<open>row n w B R d V\<close>: the word \<open>V\<close> holds the fields of row \<open>d\<close>; \<open>mat\<close> holds those of the first \<open>k\<close> rows.\<close>

definition row :: "nat \<Rightarrow> nat \<Rightarrow> nat set \<Rightarrow> (nat \<Rightarrow> bool) \<Rightarrow> u64 \<Rightarrow> bool" where
  "row n w B Q V \<longleftrightarrow> (\<forall>i. bit V i \<longleftrightarrow> (\<exists>b\<in>B. \<exists>j<w. i = n * b + j \<and> Q (b + j)))"

definition mat :: "nat \<Rightarrow> nat \<Rightarrow> nat set \<Rightarrow> (nat \<Rightarrow> nat \<Rightarrow> bool) \<Rightarrow> nat \<Rightarrow> u64 \<Rightarrow> bool" where
  "mat n w B R k V \<longleftrightarrow> (\<forall>i. bit V i \<longleftrightarrow> (\<exists>b\<in>B. \<exists>d<k. \<exists>j<w. i = n * b + d * w + j \<and> R d (b + j)))"

lemma take_row:
  assumes "fields m w B" "masks n w B M" "mat n w B R n X" "d < n"
  shows "row n w B (R d) (drop_bit (d * w) X AND M)"
  unfolding row_def
proof
  fix i
  have "(\<exists>b\<in>B. \<exists>j<w. i = n * b + j \<and> R d (b + j))"
    if X: "c \<in> B" "e < n" "k < w" "d * w + i = n * c + e * w + k" "R e (c + k)" and M: "b \<in> B" "n * b \<le> i" "i < n * b + w" for b c e k
  proof -
    have "n * b + d * w + (i - n * b) = n * c + e * w + k" using X(4) M(2) by simp
    from place_unique [OF assms(1) M(1) X(1) assms(4) X(2) _ X(3) this] M have "b = c \<and> d = e \<and> i - n * b = k" by simp
    then show ?thesis using X(3,5) M(1,2) by (intro bexI [OF _ M(1)] exI [of _ k]) auto
  qed
  moreover have "bit X (d * w + i) \<and> bit M i" if "b \<in> B" "j < w" "i = n * b + j" "R d (b + j)" for b j
  proof -
    have "d * w + i = n * b + d * w + j" "n * b \<le> i" "i < n * b + w" using that by simp_all
    then show ?thesis using that(1,2,4) assms(4) assms(2) [unfolded masks_def] assms(3) [unfolded mat_def] by blast
  qed
  ultimately show "bit (drop_bit (d * w) X AND M) i \<longleftrightarrow> (\<exists>b\<in>B. \<exists>j<w. i = n * b + j \<and> R d (b + j))"
    using assms(2,3) by (auto simp: mat_def masks_def bit_simps)
qed

text \<open>The halves of a row, and the bits an odd width leaves over.\<close>

lemma split_row:
  assumes "fields m w B" "u = w div 2" "0 < u" "2 \<le> n" "n * m \<le> 64" "masks n u (halves u B) M'" "row n (2 * u) B Q V"
  shows "row n u (halves u B) Q ((V OR push_bit ((n - 1) * u) V) AND M')"
  unfolding row_def
proof
  fix i
  let ?s = "(n - 1) * u"
  note f' = fields_halves [OF assms(1-3)]
  have n: "0 < n" using assms(4) by simp
  have un: "?s + u = n * u" using assms(4) by (cases n) simp_all
  have in64: "i < 64" if "b \<in> B" "i < n * (b + u) + u" for b
  proof -
    have "n * (b + u) + u \<le> n * (b + u) + n * u" using assms(4) by simp
    also have "\<dots> \<le> n * (b + w)" using assms(2) by (simp add: distrib_left flip: mult_2)
    also have "\<dots> \<le> n * m" using assms(1) that(1) by (intro mult_le_mono2) (simp add: fields_def)
    finally show ?thesis using that(2) assms(5) by simp
  qed
  have V: "bit V i \<longleftrightarrow> (\<exists>b\<in>B. \<exists>j<2 * u. i = n * b + j \<and> Q (b + j))" for i using assms(7) by (simp add: row_def)
  have M: "bit M' i \<longleftrightarrow> (\<exists>b\<in>halves u B. n * b \<le> i \<and> i < n * b + u)" for i using assms(6) by (simp add: masks_def)
  show "bit ((V OR push_bit ?s V) AND M') i \<longleftrightarrow> (\<exists>b\<in>halves u B. \<exists>j<u. i = n * b + j \<and> Q (b + j))"
  proof
    assume "\<exists>b\<in>halves u B. \<exists>j<u. i = n * b + j \<and> Q (b + j)"
    then obtain b j where bj: "b \<in> halves u B" "j < u" "i = n * b + j" "Q (b + j)" by blast
    then have "n * b \<le> i" "i < n * b + u" by simp_all
    then have m: "bit M' i" using M bj(1) by blast
    from bj(1) consider "b \<in> B" | c where "c \<in> B" "b = c + u" by (auto simp: halves_def)
    then show "bit ((V OR push_bit ?s V) AND M') i"
    proof cases
      case 1
      then have "bit V i" using V bj by (auto intro!: bexI [of _ b] exI [of _ j])
      then show ?thesis using m by (simp add: bit_simps)
    next
      case 2
      then have "i < 64" using in64 bj by simp
      moreover have "i = ?s + (n * c + (u + j))" using bj(3) 2 un by (simp add: distrib_left)
      moreover have "bit V (n * c + (u + j))" using V 2 bj by (auto intro!: bexI [of _ c] exI [of _ "u + j"] simp: add.assoc)
      ultimately show ?thesis using m by (simp add: bit_simps)
    qed
  next
    assume "bit ((V OR push_bit ?s V) AND M') i"
    then have "bit V i \<or> (?s \<le> i \<and> bit V (i - ?s))" and "bit M' i" by (auto simp: bit_simps)
    then obtain b where b: "b \<in> halves u B" "n * b \<le> i" "i < n * b + u" using M by blast
    have un: False if "c \<in> B" "0 < d" "d < n" "j < u" "i = n * c + d * u + j" for c d j
    proof -
      have c: "c \<in> halves u B" "i - n * b < u" using that(1) b by (auto simp: halves_def)
      have "n * c + d * u + j = n * b + 0 * u + (i - n * b)" using that(5) b(2) by simp
      from place_unique [OF f' c(1) b(1) that(3) n that(4) c(2) this] that(2) show False by simp
    qed
    from \<open>bit V i \<or> (?s \<le> i \<and> bit V (i - ?s))\<close> show "\<exists>b\<in>halves u B. \<exists>j<u. i = n * b + j \<and> Q (b + j)"
    proof
      assume "bit V i"
      then obtain c j where c: "c \<in> B" "j < 2 * u" "i = n * c + j" "Q (c + j)" using V by blast
      show ?thesis
      proof (cases "j < u")
        case True
        then show ?thesis using c by (auto simp: halves_def)
      next
        case False
        then show ?thesis using un [OF c(1), of 1 "j - u"] c(2,3) assms(4) by simp
      qed
    next
      assume "?s \<le> i \<and> bit V (i - ?s)"
      then obtain c j where c: "?s \<le> i" "c \<in> B" "j < 2 * u" "i - ?s = n * c + j" "Q (c + j)" using V by blast
      show ?thesis
      proof (cases "j < u")
        case True
        have "i = n * c + (n - 1) * u + j" using c(1,4) by linarith
        then show ?thesis using un [OF c(2) _ _ True, of "n - 1"] assms(4) by simp
      next
        case False
        then have "i = n * (c + u) + (j - u)" "Q (c + u + (j - u))" "j - u < u" using c \<open>?s + u = n * u\<close> by (simp_all add: distrib_left)
        then show ?thesis using c(2) by (auto simp: halves_def)
      qed
    qed
  qed
qed

lemma odd_row:
  assumes "fields m w B" "w = 2 * u + 1" "0 < n" "n * m \<le> 64" "ends n B E" "row n w B Q V" "d < n"
  shows "row n (2 * u) B Q (V AND NOT (push_bit (2 * u) E))"
    "bit (push_bit (2 * ((n - 1) * u) + d) (V AND push_bit (2 * u) E)) i \<longleftrightarrow> (\<exists>b\<in>B. i = n * (b + 2 * u) + d \<and> Q (b + 2 * u))"
proof -
  have V: "bit V i \<longleftrightarrow> (\<exists>b\<in>B. \<exists>j<w. i = n * b + j \<and> Q (b + j))" for i using assms(6) by (simp add: row_def)
  have S: "bit (push_bit (2 * u) E) i \<longleftrightarrow> (\<exists>b\<in>B. i = n * b + 2 * u)" for i
  proof -
    have "n * b + 2 * u < 64" if "b \<in> B" for b using field_end [OF assms(1,3,4) that] assms(2) by simp
    then show ?thesis using assms(5) by (auto simp: ends_def bit_simps) (metis add_diff_inverse_nat add.commute not_less)
  qed
  have un: "b = c \<and> j = k" if "b \<in> B" "c \<in> B" "j < w" "k < w" "n * b + j = n * c + k" for b c j k
    using place_unique [OF assms(1) that(1,2) assms(3,3) that(3,4)] that(5) by simp
  show "row n (2 * u) B Q (V AND NOT (push_bit (2 * u) E))"
    unfolding row_def
  proof
    fix i
    have "bit (V AND NOT (push_bit (2 * u) E)) i \<longleftrightarrow> bit V i \<and> \<not> bit (push_bit (2 * u) E) i"
      by (auto simp: bit_simps dest: bit_imp_le_length)
    also have "\<dots> \<longleftrightarrow> (\<exists>b\<in>B. \<exists>j<2 * u. i = n * b + j \<and> Q (b + j))"
    proof
      assume "bit V i \<and> \<not> bit (push_bit (2 * u) E) i"
      then obtain b j where "b \<in> B" "j < w" "i = n * b + j" "Q (b + j)" "j \<noteq> 2 * u" unfolding V S by blast
      then show "\<exists>b\<in>B. \<exists>j<2 * u. i = n * b + j \<and> Q (b + j)" using assms(2) by (auto intro!: bexI [of _ b] exI [of _ j])
    next
      assume "\<exists>b\<in>B. \<exists>j<2 * u. i = n * b + j \<and> Q (b + j)"
      then obtain b j where b: "b \<in> B" "j < 2 * u" "i = n * b + j" "Q (b + j)" by blast
      then have "\<not> (\<exists>c\<in>B. i = n * c + 2 * u)" using un [OF b(1), of _ j "2 * u"] assms(2) by auto
      then show "bit V i \<and> \<not> bit (push_bit (2 * u) E) i" unfolding V S using b assms(2) by (auto intro!: bexI [of _ b] exI [of _ j])
    qed
    finally show "bit (V AND NOT (push_bit (2 * u) E)) i \<longleftrightarrow> (\<exists>b\<in>B. \<exists>j<2 * u. i = n * b + j \<and> Q (b + j))" .
  qed
  let ?s = "2 * ((n - 1) * u) + d"
  have VS: "bit (V AND push_bit (2 * u) E) i \<longleftrightarrow> (\<exists>b\<in>B. i = n * b + 2 * u \<and> Q (b + 2 * u))" for i
  proof -
    have "(\<exists>b\<in>B. i = n * b + 2 * u \<and> Q (b + 2 * u))" if "b \<in> B" "c \<in> B" "j < w" "i = n * b + j" "i = n * c + 2 * u" "Q (b + j)" for b c j
      using un [OF that(1,2,3), of "2 * u"] that assms(2) by auto
    moreover have "bit V i" if "b \<in> B" "i = n * b + 2 * u" "Q (b + 2 * u)" for b
      unfolding V using that assms(2) by (intro bexI [OF _ that(1)] exI [of _ "2 * u"]) simp
    ultimately show ?thesis using V [of i] S [of i] unfolding bit_and_iff by blast
  qed
  have sh: "?s + (n * b + 2 * u) = n * (b + 2 * u) + d" for b
    using assms(3) by (cases n) (simp_all add: distrib_left algebra_simps)
  have "n * (b + 2 * u) + d < 64" if "b \<in> B" for b
  proof -
    have "n * (b + 2 * u) + d < n * (b + w)" using assms(2,7) by (simp add: distrib_left)
    also have "\<dots> \<le> n * m" using assms(1) that by (intro mult_le_mono2) (simp add: fields_def)
    finally show ?thesis using assms(4) by simp
  qed
  then show "bit (push_bit ?s (V AND push_bit (2 * u) E)) i \<longleftrightarrow> (\<exists>b\<in>B. i = n * (b + 2 * u) + d \<and> Q (b + 2 * u))"
    unfolding bit_push_bit_iff VS using sh by (auto dest!: le_Suc_ex) (metis le_add1 add_diff_cancel_left')+
qed

section \<open>The loops\<close>

lemma dims_fold:
  assumes "fields m w B" "u = w div 2" "0 < u" "2 \<le> n" "n * m \<le> 64" "ends n B E" "masks n w B M" "masks n u (halves u B) M'"
    and "mat n w B R n X" "k \<le> n"
  shows "\<exists>C' U'. fold (transpose_dim w u ((n - 1) * u) M M' (push_bit (w - 1) E)) [0..<k] (X, C, 0, 2 * ((n - 1) * u)) =
      (drop_bit (k * w) X, C', U', 2 * ((n - 1) * u) + (if odd w then k else 0)) \<and>
    (\<forall>i. bit C' i \<longleftrightarrow> bit C i \<or> (odd w \<and> (\<exists>b\<in>B. \<exists>d<k. i = n * (b + 2 * u) + d \<and> R d (b + 2 * u)))) \<and>
    mat n u (halves u B) R k U'"
  using assms(10)
proof (induction k)
  case 0
  then show ?case by (simp add: mat_def)
next
  case (Suc k)
  let ?s = "(n - 1) * u" and ?V = "drop_bit (k * w) X AND M"
  have n: "0 < n" "k < n" using assms(4) Suc(2) by simp_all
  obtain C' U' where IH: "fold (transpose_dim w u ?s M M' (push_bit (w - 1) E)) [0..<k] (X, C, 0, 2 * ?s) =
      (drop_bit (k * w) X, C', U', 2 * ?s + (if odd w then k else 0))"
    "\<And>i. bit C' i \<longleftrightarrow> bit C i \<or> (odd w \<and> (\<exists>b\<in>B. \<exists>d<k. i = n * (b + 2 * u) + d \<and> R d (b + 2 * u)))"
    "mat n u (halves u B) R k U'"
    using Suc by auto
  note V = take_row [OF assms(1,7,9) n(2)]
  have shift: "drop_bit w (drop_bit (k * w) X) = drop_bit (Suc k * w) X" by (simp add: add.commute)
  have mat: "mat n u (halves u B) R (Suc k) (U' OR push_bit (k * u) V')" if "row n u (halves u B) (R k) V'" for V'
    unfolding mat_def
  proof
    fix i
    have lt: "n * b + k * u + j < 64" if "b \<in> halves u B" "j < u" for b j
    proof -
      have "n * b + k * u + j < n * b + Suc k * u" using that by simp
      also have "\<dots> \<le> n * b + n * u" using n(2) by (intro add_le_mono mult_le_mono1) simp_all
      also have "\<dots> = n * (b + u)" by (simp add: distrib_left)
      also have "\<dots> \<le> n * m" using fields_halves [OF assms(1-3)] that(1) by (intro mult_le_mono2) (simp add: fields_def)
      finally show ?thesis using assms(5) by simp
    qed
    have "bit (push_bit (k * u) V') i \<longleftrightarrow> (\<exists>b\<in>halves u B. \<exists>j<u. (k * u \<le> i \<and> i < 64 \<and> i - k * u = n * b + j) \<and> R k (b + j))"
      using that by (auto simp: row_def bit_simps)
    moreover have "(k * u \<le> i \<and> i < 64 \<and> i - k * u = n * b + j) \<longleftrightarrow> i = n * b + k * u + j" if "b \<in> halves u B" "j < u" for b j
      using lt [OF that] by auto
    ultimately have "bit (push_bit (k * u) V') i \<longleftrightarrow> (\<exists>b\<in>halves u B. \<exists>j<u. i = n * b + k * u + j \<and> R k (b + j))" by blast
    then show "bit (U' OR push_bit (k * u) V') i \<longleftrightarrow> (\<exists>b\<in>halves u B. \<exists>d<Suc k. \<exists>j<u. i = n * b + d * u + j \<and> R d (b + j))"
      using IH(3) unfolding mat_def bit_or_iff by (auto simp: less_Suc_eq)
  qed
  show ?case
  proof (cases "odd w")
    case True
    then have w: "w = 2 * u + 1" "w - 1 = 2 * u" using assms(2) by auto
    define L where "L = push_bit (2 * ?s + k) (?V AND push_bit (2 * u) E)"
    define V' where "V' = (?V AND NOT (push_bit (2 * u) E) OR push_bit ?s (?V AND NOT (push_bit (2 * u) E))) AND M'"
    note o = odd_row [OF assms(1) w(1) n(1) assms(5,6) V n(2), folded L_def]
    note V' = split_row [OF assms(1-5,8) o(1), folded V'_def]
    have "transpose_dim w u ?s M M' (push_bit (w - 1) E) k (drop_bit (k * w) X, C', U', 2 * ?s + k) =
        (drop_bit (Suc k * w) X, C' OR L, U' OR push_bit (k * u) V', 2 * ?s + Suc k)"
      using True by (simp add: transpose_dim_def Let_def shift V'_def L_def w(2) del: One_nat_def)
    moreover have "bit (C' OR L) i \<longleftrightarrow> bit C i \<or> (odd w \<and> (\<exists>b\<in>B. \<exists>d<Suc k. i = n * (b + 2 * u) + d \<and> R d (b + 2 * u)))" for i
      unfolding bit_or_iff IH(2) o(2) using True by (auto simp: less_Suc_eq)
    ultimately show ?thesis using IH(1) mat [OF V'] True by simp
  next
    case False
    then have w: "w = 2 * u" using assms(2) by auto
    define V' where "V' = (?V OR push_bit ?s ?V) AND M'"
    have "row n (2 * u) B (R k) ?V" using V w by simp
    note V' = split_row [OF assms(1-5,8) this, folded V'_def]
    have "transpose_dim w u ?s M M' (push_bit (w - 1) E) k (drop_bit (k * w) X, C', U', 2 * ?s) =
        (drop_bit (Suc k * w) X, C', U' OR push_bit (k * u) V', 2 * ?s)"
      using False by (simp add: transpose_dim_def Let_def shift V'_def del: One_nat_def)
    then show ?thesis using IH mat [OF V'] False by simp
  qed
qed

definition cover :: "nat \<Rightarrow> nat set \<Rightarrow> nat set" where
  "cover w B = (\<Union>b\<in>B. {b..<b + w})"

definition placed :: "nat \<Rightarrow> nat \<Rightarrow> nat set \<Rightarrow> (nat \<Rightarrow> nat \<Rightarrow> bool) \<Rightarrow> u64 \<Rightarrow> bool" where
  "placed n m A R C \<longleftrightarrow> (\<forall>i. bit C i \<longleftrightarrow> (\<exists>c<m. \<exists>d<n. i = n * c + d \<and> c \<notin> A \<and> R d c))"

lemma cover_halves:
  assumes "fields m w B" "u = w div 2"
  shows "cover w B = cover u (halves u B) \<union> (if odd w then (\<lambda>b. b + 2 * u) ` B else {})"
    and "odd w \<Longrightarrow> b \<in> B \<Longrightarrow> b + 2 * u \<notin> cover u (halves u B)"
proof -
  have split: "{b..<b + w} = {b..<b + u} \<union> {b + u..<b + u + u} \<union> (if odd w then {b + 2 * u} else {})" for b
    using assms(2) by auto presburger+
  show "cover w B = cover u (halves u B) \<union> (if odd w then (\<lambda>b. b + 2 * u) ` B else {})"
    unfolding cover_def split by (auto simp: halves_def)
  assume b: "odd w" "b \<in> B"
  show "b + 2 * u \<notin> cover u (halves u B)"
  proof
    assume "b + 2 * u \<in> cover u (halves u B)"
    then obtain c where c: "c \<in> B" "c \<le> b + 2 * u" "b + 2 * u < c + 2 * u" by (auto simp: cover_def halves_def)
    then have "b + w \<le> c" using assms(1) b by (auto simp: fields_def)
    then show False using c b assms(2) by presburger
  qed
qed

lemma transpose_loop_bits:
  assumes "2 \<le> n" "n * m \<le> 64"
  shows "fields m w B \<Longrightarrow> ends n B E \<Longrightarrow> masks n w B M \<Longrightarrow> mat n w B R n X \<Longrightarrow> placed n m (cover w B) R C \<Longrightarrow>
    bit (transpose_loop n w E M X C) i \<longleftrightarrow> (\<exists>c<m. \<exists>d<n. i = n * c + d \<and> R d c)"
proof (induction w arbitrary: B E M X C rule: less_induct)
  case (less w)
  let ?u = "w div 2" and ?s = "(n - 1) * (w div 2)"
  have n: "0 < n" using assms(1) by simp
  have w0: "0 < w" using less(2) by (simp add: fields_def)
  show ?case
  proof (cases "w = 1")
    case True
    then have "bit (transpose_loop n w E M X C) i \<longleftrightarrow> bit C i \<or> bit X i" by (subst transpose_loop.simps) (simp add: bit_or_iff)
    also have "bit X i \<longleftrightarrow> (\<exists>c<m. \<exists>d<n. i = n * c + d \<and> c \<in> cover w B \<and> R d c)"
      using less(2,5) True by (auto simp: mat_def cover_def fields_def Suc_le_eq)
    finally show ?thesis using less(6) unfolding placed_def by blast
  next
    case False
    then have u: "0 < ?u" "?u < w" using w0 by auto
    let ?E = "E OR push_bit (?s + ?u) E"
    have su: "?s + ?u = n * ?u" using n by (cases n) simp_all
    have E: "ends n (halves ?u B) ?E" unfolding su using ends_halves [OF less(2) n assms(2) less(3) refl] .
    note f = fields_halves [OF less(2) refl u(1)]
    note M = mask_of_ends [OF f n assms(2) E]
    obtain C' U' where d: "fold (transpose_dim w ?u ?s M (push_bit ?u ?E - ?E) (push_bit (w - 1) E)) [0..<n] (X, C, 0, 2 * ?s) =
        (drop_bit (n * w) X, C', U', 2 * ?s + (if odd w then n else 0))"
      "\<And>i. bit C' i \<longleftrightarrow> bit C i \<or> (odd w \<and> (\<exists>b\<in>B. \<exists>d<n. i = n * (b + 2 * ?u) + d \<and> R d (b + 2 * ?u)))"
      "mat n ?u (halves ?u B) R n U'"
      using dims_fold [OF less(2) refl u(1) assms less(3,4) M less(5) order.refl, of C] by blast
    have "placed n m (cover ?u (halves ?u B)) R C'"
      unfolding placed_def
    proof
      fix i
      have bm: "b + 2 * ?u < m" if "b \<in> B" "odd w" for b
      proof -
        have "b + w \<le> m" using less(2) that(1) by (simp add: fields_def)
        moreover have "w = 2 * ?u + 1" using that(2) by presburger
        ultimately show ?thesis by simp
      qed
      show "bit C' i \<longleftrightarrow> (\<exists>c<m. \<exists>d<n. i = n * c + d \<and> c \<notin> cover ?u (halves ?u B) \<and> R d c)"
        unfolding d(2) using less(6) bm cover_halves [OF less(2) refl] unfolding placed_def
        by (auto split: if_splits) metis+
    qed
    from less(1) [OF u(2) f E M d(3) this] show ?thesis
      using u d(1) by (subst transpose_loop.simps) (simp add: Let_def)
  qed
qed

lemma bit_bitTranspose:
  assumes "2 \<le> n" "0 < m" "n * m \<le> 64" "fits (n * m) W"
  shows "bit (bitTranspose n m W) i \<longleftrightarrow> (\<exists>c<m. \<exists>d<n. i = n * c + d \<and> bit W (d * m + c))"
proof -
  have f: "fields m m {0}" using assms(2) by (simp add: fields_def)
  have "m \<le> n * m" using assms(1) by simp
  then have m: "m \<le> 64" using assms(3) by linarith
  have "mat n m {0} (\<lambda>d c. bit W (d * m + c)) n W"
    unfolding mat_def
  proof
    fix i
    have "\<exists>d<n. \<exists>j<m. i = d * m + j" if "bit W i"
    proof -
      have "i < n * m" using assms(4) that by (auto simp: fits_def not_le [symmetric])
      then have "i div m < n" "i mod m < m" "i = i div m * m + i mod m" using assms(2) by (simp_all add: less_mult_imp_div_less)
      then show ?thesis by blast
    qed
    then show "bit W i \<longleftrightarrow> (\<exists>b\<in>{0}. \<exists>d<n. \<exists>j<m. i = n * b + d * m + j \<and> bit W (d * m + (b + j)))" by auto
  qed
  moreover have "ends n {0} 1" by (auto simp: ends_def bit_1_iff)
  moreover have "masks n m {0} (ones64 m)" using assms(2) m by (auto simp: masks_def ones64_mask bit_simps)
  moreover have "placed n m (cover m {0}) (\<lambda>d c. bit W (d * m + c)) 0" by (auto simp: placed_def cover_def)
  ultimately show ?thesis unfolding bitTranspose_def using transpose_loop_bits [OF assms(1,3) f] by blast
qed

lemma transpose_place: "c < m \<Longrightarrow> d < n \<Longrightarrow> n * c + d < n * m" for n m c d :: nat
proof -
  assume "c < m" "d < n"
  then have "n * c + d < n * Suc c" by simp
  also have "\<dots> \<le> n * m" using \<open>c < m\<close> by (intro mult_le_mono2) simp
  finally show ?thesis .
qed

lemma fits_bitTranspose: "2 \<le> n \<Longrightarrow> 0 < m \<Longrightarrow> n * m \<le> 64 \<Longrightarrow> fits (n * m) W \<Longrightarrow> fits (n * m) (bitTranspose n m W)"
  by (auto simp: fits_def bit_bitTranspose dest: transpose_place leD)

text \<open>Transposing twice gives the matrix back.\<close>

lemma bitTranspose_twice:
  assumes "2 \<le> n" "2 \<le> m" "n * m \<le> 64" "fits (n * m) W"
  shows "bitTranspose m n (bitTranspose n m W) = W"
proof (rule bit_word_eqI)
  fix i
  have f: "fits (m * n) (bitTranspose n m W)" using fits_bitTranspose [OF assms(1) _ assms(3,4)] assms(2) by (simp add: mult.commute)
  have "(\<exists>d<n. \<exists>c<m. i = m * d + c \<and> bit (bitTranspose n m W) (c * n + d)) \<longleftrightarrow> bit W i"
  proof
    assume "\<exists>d<n. \<exists>c<m. i = m * d + c \<and> bit (bitTranspose n m W) (c * n + d)"
    then obtain c d where *: "d < n" "c < m" "i = m * d + c" "bit (bitTranspose n m W) (c * n + d)" by blast
    then obtain c' d' where "c' < m" "d' < n" "c * n + d = n * c' + d'" "bit W (d' * m + c')"
      using bit_bitTranspose [OF assms(1) _ assms(3,4)] assms(2) by auto
    moreover have "c = c' \<and> d = d'"
    proof -
      have "(c * n + d) div n = (n * c' + d') div n" "(c * n + d) mod n = (n * c' + d') mod n" using calculation(3) by simp_all
      then show ?thesis using *(1) calculation(2) by simp
    qed
    ultimately show "bit W i" using *(3) by (simp add: mult.commute)
  next
    assume b: "bit W i"
    then have "i < n * m" using assms(4) by (auto simp: fits_def not_le [symmetric])
    then have "i div m < n" "i mod m < m" "i = m * (i div m) + i mod m" using assms(2) by (simp_all add: less_mult_imp_div_less)
    moreover have "bit (bitTranspose n m W) (i mod m * n + i div m)"
    proof -
      have "i mod m * n + i div m = n * (i mod m) + i div m" "bit W (i div m * m + i mod m)" using b by (simp_all add: mult.commute)
      moreover have "0 < m" using assms(2) by simp
      ultimately show ?thesis using bit_bitTranspose [OF assms(1) _ assms(3,4)] \<open>i div m < n\<close> \<open>i mod m < m\<close> by blast
    qed
    ultimately show "\<exists>d<n. \<exists>c<m. i = m * d + c \<and> bit (bitTranspose n m W) (c * n + d)" by blast
  qed
  then show "bit (bitTranspose m n (bitTranspose n m W)) i = bit W i"
    using bit_bitTranspose [OF assms(2) _ _ f] assms(1,3) by (simp add: mult.commute)
qed

end
