(* ===== verification/CurveMap.thy ===== *)
theory CurveMap
  imports Transpose
begin

text \<open>
  \<^verbatim>\<open>hilbert_c2i\<close> and \<^verbatim>\<open>hilbert_i2c\<close> are inverse to each other: the indices of a curve with \<open>n\<close> dimensions of \<open>m\<close>
  bits number the points of the cube.
\<close>

unbundle bit_operations_syntax

section \<open>Packing the coordinates\<close>

lemma fits_uint: "fits k w \<longleftrightarrow> uint w < 2 ^ k" for w :: "'a::len word"
proof -
  have "fits k w \<longleftrightarrow> take_bit k w = w"
    by (auto simp: fits_def intro!: bit_word_eqI simp: bit_take_bit_iff) (metis bit_take_bit_iff not_le)+
  then show ?thesis by (simp add: take_bit_eq_mask mask_eq_iff)
qed

definition pack :: "nat \<Rightarrow> u64 list \<Rightarrow> u64" where
  "pack m coord = fold (\<lambda>d coords. push_bit m coords OR coord ! d) (rev [0..<length coord]) 0"

definition unpack :: "nat \<Rightarrow> nat \<Rightarrow> u64 \<Rightarrow> u64 list" where
  "unpack n m w = map (\<lambda>d. drop_bit (d * m) w AND ucast (ones32 m)) [0..<n]"

lemma pack_joinl:
  assumes "m \<le> 32" "list_all (fits m) coord"
  shows "pack m coord = joinl m (rev (map ucast coord)) 0"
proof -
  have "fold (\<lambda>d coords. push_bit m coords OR coord ! d) ds a = fold (\<lambda>b acc. push_bit m acc OR ucast b) (map (\<lambda>d. ucast (coord ! d) :: u32) ds) a"
    if "set ds \<subseteq> {..<length coord}" for ds a
    using that assms by (induction ds arbitrary: a) (simp_all add: ucast_up_down list_all_length)
  from this [of "rev [0..<length coord]" 0]
  have "pack m coord = joinl m (map (\<lambda>d. ucast (coord ! d)) (rev [0..<length coord])) 0" by (simp add: pack_def joinl_def atLeast0LessThan)
  moreover have "map (\<lambda>d. ucast (coord ! d)) (rev [0..<length coord]) = (rev (map ucast coord) :: u32 list)"
    by (rule nth_equalityI) (simp_all add: rev_nth)
  ultimately show ?thesis by simp
qed

lemma unpack_lv: "m \<le> 32 \<Longrightarrow> 0 < m \<Longrightarrow> unpack n m w = map ucast (rev (lv m n w))"
proof -
  assume m: "m \<le> 32" "0 < m"
  have "fits m (drop_bit (d * m) w AND ucast (ones32 m))" for d using m by (auto simp: fits_def bit_simps ones32_mask)
  then show ?thesis using m by (simp add: unpack_def lv_def rev_map ucast_up_down mult.commute)
qed

lemma fits_unpack: "0 < m \<Longrightarrow> list_all (fits m) (unpack n m w)"
  by (auto simp: unpack_def list_all_iff fits_def bit_simps ones32_mask)

lemma length_unpack [simp]: "length (unpack n m w) = n" by (simp add: unpack_def)

lemma fits_map_ucast: "list_all (fits m) xs \<Longrightarrow> list_all (fits m) (map ucast xs)"
  by (auto simp: list_all_iff)

lemma unpack_pack:
  assumes "0 < m" "m \<le> 32" "list_all (fits m) coord" "m * length coord \<le> 64"
  shows "unpack (length coord) m (pack m coord) = coord" "fits (m * length coord) (pack m coord)"
proof -
  let ?bs = "rev (map ucast coord) :: u32 list"
  have b: "list_all (fits m) ?bs" using fits_map_ucast [OF assms(3)] by (simp add: list_all_rev)
  have "map (\<lambda>x. ucast (ucast x :: u32)) coord = coord" using assms(2,3) by (intro map_idI) (auto simp: list_all_iff ucast_up_down)
  then show "unpack (length coord) m (pack m coord) = coord"
    using lv_joinl [OF assms(1,2) b] assms(4) by (simp add: unpack_lv assms pack_joinl comp_def rev_map)
  show "fits (m * length coord) (pack m coord)" using fits_joinl [OF assms(1) b] by (simp add: pack_joinl assms)
qed

lemma pack_unpack:
  assumes "0 < m" "m \<le> 32" "fits (m * n) w"
  shows "pack m (unpack n m w) = w"
  using joinl_lv [OF assms] fits_unpack [OF assms(1), of n w] assms
  by (simp add: pack_joinl) (simp add: unpack_lv rev_map comp_def ucast_down_up)

section \<open>The two conversions\<close>

definition nth_bits :: "nat \<Rightarrow> nat \<Rightarrow> u64" where
  "nth_bits n m = ones64 (n * m) div ucast (ones32 n)"

lemma fits_nth_bits:
  assumes "0 < n * m"
  shows "fits (n * m) (nth_bits n m)"
proof -
  have "fits (n * m) (ones64 (n * m))" using assms by (auto simp: ones64_mask fits_def bit_simps)
  then have "uint (ones64 (n * m)) < 2 ^ (n * m)" by (simp only: fits_uint)
  moreover have "unat (nth_bits n m) \<le> unat (ones64 (n * m))" by (simp add: nth_bits_def unat_div)
  then have "uint (nth_bits n m) \<le> uint (ones64 (n * m))" by (simp only: word_le_nat_alt [symmetric] word_le_def)
  ultimately show ?thesis by (simp only: fits_uint)
qed

text \<open>The curve on words: from the transposed coordinates to the index, and back.\<close>

definition to_index :: "nat \<Rightarrow> nat \<Rightarrow> u64 \<Rightarrow> u64" where
  "to_index n m t = xor_prefix 1 (n * m) (joinl n (enc n 0 0 (lv n m (gray n t))) 0 XOR drop_bit 1 (nth_bits n m))"

definition of_index :: "nat \<Rightarrow> nat \<Rightarrow> u64 \<Rightarrow> u64" where
  "of_index n m i = xor_prefix n (n * m) (joinl n (dec n 0 0 (lv n m (gray 1 i XOR drop_bit 1 (nth_bits n m)))) 0)"

lemma hilbert_c2i_alt:
  assumes "1 < n" "length coord = n"
  shows "hilbert_c2i n m coord =
    (if 1 < m then to_index n m (bitTranspose n m (pack m coord)) else xor_prefix 1 (n * m) (pack m coord))"
  using assms by (simp add: hilbert_c2i_def Let_def to_index_def c2i_loop_eq gray_def nth_bits_def pack_def)

lemma hilbert_i2c_alt:
  assumes "1 < n" "n \<le> 32"
  shows "hilbert_i2c n m i = unpack n m (if 1 < m then bitTranspose m n (of_index n m i) else gray 1 i)"
proof -
  have "i XOR drop_bit 1 (i XOR w) = gray 1 i XOR drop_bit 1 w" for w by (simp add: gray_def xor.assoc)
  then show ?thesis using assms by (simp add: hilbert_i2c_def Let_def of_index_def i2c_loop_eq unpack_def nth_bits_def gray_def)
qed

lemma length_dec [simp]: "length (dec n r f bs) = length bs"
  by (induction bs arbitrary: r f) simp_all

lemma index_inverse:
  assumes "1 < n" "n \<le> 32" "1 < m" "n * m \<le> 64" "fits (n * m) t"
  shows "of_index n m (to_index n m t) = t" "fits (n * m) (to_index n m t)"
    "to_index n m (of_index n m t) = t" "fits (n * m) (of_index n m t)"
proof -
  have n: "0 < n" "0 < n * m" using assms(1,3) by simp_all
  note fl = fits_lv [OF n(1) assms(2)]
  have f0: "fits n (0 :: u32)" by blast
  have fn: "fits (n * m) (drop_bit 1 (nth_bits n m))" using fits_nth_bits [OF n(2)] by blast
  let ?e = "\<lambda>t. enc n 0 0 (lv n m (gray n t))" and ?y = "gray 1 t XOR drop_bit 1 (nth_bits n m)"
  have e: "fits (n * m) (joinl n (?e t) 0)" "list_all (fits n) (?e t)" for t
    using fits_joinl [OF n(1) fits_enc [OF n(1), of 0 0 "lv n m (gray n t)"]] fits_enc [OF n(1)] by simp_all
  then show "fits (n * m) (to_index n m t)" unfolding to_index_def using fn by (intro fits_xor_prefix fits_ops(1))
  have fg: "fits (n * m) (gray k t)" for k using assms(5) by (auto simp: gray_def)
  have "gray 1 (to_index n m t) = joinl n (?e t) 0 XOR drop_bit 1 (nth_bits n m)"
    unfolding to_index_def using e(1) fn by (intro gray_xor_prefix fits_ops(1)) simp
  then have "gray 1 (to_index n m t) XOR drop_bit 1 (nth_bits n m) = joinl n (?e t) 0" by (simp add: xor.assoc)
  moreover have "lv n m (joinl n (?e t) 0) = ?e t" using lv_joinl [OF n(1) assms(2) e(2)] assms(4) by simp
  moreover have "dec n 0 0 (?e t) = lv n m (gray n t)" using dec_enc [OF n(1) assms(2) f0 fl] .
  moreover have "joinl n (lv n m (gray n t)) 0 = gray n t" using joinl_lv [OF n(1) assms(2) fg] .
  ultimately show "of_index n m (to_index n m t) = t"
    using xor_prefix_gray [OF n(1) assms(5)] by (simp add: of_index_def)
  have fy: "fits (n * m) ?y" using fg fn by (intro fits_ops(1))
  let ?d = "dec n 0 0 (lv n m ?y)"
  have d: "list_all (fits n) ?d" "length ?d = m" using fits_dec [OF n(1) f0] by simp_all
  have fd: "fits (n * m) (joinl n ?d 0)" using fits_joinl [OF n(1) d(1)] d(2) by simp
  then show "fits (n * m) (of_index n m t)" unfolding of_index_def by (intro fits_xor_prefix)
  have "gray n (of_index n m t) = joinl n ?d 0" unfolding of_index_def using gray_xor_prefix [OF n(1) fd] .
  moreover have "lv n m (joinl n ?d 0) = ?d" using lv_joinl [OF n(1) assms(2) d(1)] assms(4) d(2) by simp
  moreover have "enc n 0 0 ?d = lv n m ?y" using enc_dec [OF n(1) assms(2) fl] .
  moreover have "joinl n (lv n m ?y) 0 = ?y" using joinl_lv [OF n(1) assms(2) fy] .
  ultimately show "to_index n m (of_index n m t) = t"
    using xor_prefix_gray [OF zero_less_one assms(5)] by (simp add: to_index_def xor.assoc)
qed

section \<open>The curve is a bijection\<close>

lemma hilbert_inverse:
  assumes "0 < n" "n \<le> 32" "0 < m" "n * m \<le> 64" "length coord = n" "list_all (fits m) coord" "fits (n * m) i"
  shows "hilbert_i2c n m (hilbert_c2i n m coord) = coord \<and> fits (n * m) (hilbert_c2i n m coord) \<and>
    hilbert_c2i n m (hilbert_i2c n m i) = i \<and> list_all (fits m) (hilbert_i2c n m i) \<and> length (hilbert_i2c n m i) = n"
proof (cases "n = 1")
  case True
  then obtain x where "coord = [x]" using assms(5) by (metis One_nat_def length_0_conv length_Suc_conv)
  then show ?thesis using True assms by (simp add: hilbert_c2i_def hilbert_i2c_def)
next
  case False
  then have n: "1 < n" "0 < n" using assms(1) by simp_all
  have "2 * m \<le> n * m" using n by (intro mult_le_mono1) simp
  then have m: "m \<le> 32" using assms(4) by linarith
  note up = unpack_pack [OF assms(3) m assms(6)] and pu = pack_unpack [OF assms(3) m]
  have nm: "m * n = n * m" by simp
  note p = up(2) [unfolded assms(5) nm] and u = up(1) [unfolded assms(5) nm]
  show ?thesis
  proof (cases "1 < m")
    case True
    then have m2: "2 \<le> m" "2 \<le> n" using n by simp_all
    have t: "fits (n * m) (bitTranspose n m (pack m coord))" using fits_bitTranspose [OF m2(2) assms(3,4)] p assms(4) by simp
    note inv = index_inverse [OF n(1) assms(2) True assms(4)]
    have s: "fits (n * m) (bitTranspose m n (of_index n m i))"
      using fits_bitTranspose [OF m2(1) n(2)] inv(4) [OF assms(7)] assms(4) nm by simp
    have "bitTranspose m n (bitTranspose n m (pack m coord)) = pack m coord"
      using bitTranspose_twice [OF m2(2,1) assms(4)] p assms(4) by simp
    moreover have "bitTranspose n m (bitTranspose m n (of_index n m i)) = of_index n m i"
      using bitTranspose_twice [OF m2 _] inv(4) [OF assms(7)] assms(4) nm by simp
    ultimately show ?thesis
      using True u inv(1,2) [OF t] inv(3) [OF assms(7)] pu [of n, unfolded nm, OF s] fits_unpack [OF assms(3)] assms(4,5)
      by (simp add: hilbert_c2i_alt [OF n(1)] hilbert_i2c_alt [OF n(1) assms(2)])
  next
    case False
    then have m1: "m = 1" using assms(3) by simp
    have g: "fits n (gray 1 i)" using assms(7) m1 by (auto simp: gray_def)
    have pn: "fits n (pack 1 coord)" using p m1 assms(4) by simp
    show ?thesis
      using u m1 gray_xor_prefix [OF zero_less_one pn] fits_xor_prefix [OF pn, of 1 n] pu [of n] g assms xor_prefix_gray [OF zero_less_one, of n i]
        fits_unpack [of 1 n "gray 1 i"]
      by (simp add: hilbert_c2i_alt [OF n(1)] hilbert_i2c_alt [OF n(1) assms(2)])
  qed
qed

text \<open>
  C18: the Hilbert curve is a bijection. For \<open>n\<close> dimensions of \<open>m\<close> bits, as long as the index fits 64 bits, the
  coordinates of the index of a point are the point, and the index of the coordinates of an index is the
  index; each lies in its range.
\<close>

theorem hilbert_bijection:
  assumes "0 < n" "n \<le> 32" "0 < m" "n * m \<le> 64" "length coord = n" "list_all (fits m) coord" "fits (n * m) i"
  shows "hilbert_i2c n m (hilbert_c2i n m coord) = coord \<and> fits (n * m) (hilbert_c2i n m coord) \<and>
    hilbert_c2i n m (hilbert_i2c n m i) = i \<and> list_all (fits m) (hilbert_i2c n m i) \<and> length (hilbert_i2c n m i) = n"
  by (rule hilbert_inverse [OF assms])

theorem hilbert_bijection_witness:
  "hilbert_i2c 3 4 (hilbert_c2i 3 4 [5, 0, 15]) = [5, 0, 15] \<and> hilbert_c2i 3 4 (hilbert_i2c 3 4 1234) = 1234"
proof -
  have "list_all (fits 4) [5, 0, 15 :: u64]" "fits (3 * 4) (1234 :: u64)" by (simp_all add: fits_uint)
  then show ?thesis using hilbert_bijection [of 3 4 "[5, 0, 15]" 1234] by simp
qed

end
