(* ===== verification/BBox.thy ===== *)
theory BBox
  imports Prelude
begin

text \<open>
  Bounding boxes: \<^verbatim>\<open>struct coord\<close>, \<^verbatim>\<open>struct bbox\<close> and the geometric operations of
  \<^verbatim>\<open>src/bbox.c\<close>. A box denotes the set \<open>points\<close> of its integer coordinates; the lemmas
  relate every operation to that set.
\<close>

section \<open>Data\<close>

definition BBOX_MAX_NDIM :: nat where
  "BBOX_MAX_NDIM = 10"

type_synonym coord = "u64 list"

record bbox =
  num_dims :: int
  lb :: coord
  ub :: coord

abbreviation ndims :: "bbox \<Rightarrow> nat" where
  "ndims b \<equiv> nat (num_dims b)"

section \<open>Operations\<close>

definition coord_dist :: "coord \<Rightarrow> coord \<Rightarrow> nat \<Rightarrow> u64" where
  "coord_dist c0 c1 dim = c1 ! dim - c0 ! dim + 1"

definition bbox_dist :: "bbox \<Rightarrow> nat \<Rightarrow> u64" where
  "bbox_dist bb dim = coord_dist (lb bb) (ub bb) dim"

text \<open>The two halves \<^verbatim>\<open>b_tab[0]\<close> and \<^verbatim>\<open>b_tab[1]\<close> of a box along one dimension.\<close>

definition bbox_divide_in2_ondim :: "bbox \<Rightarrow> nat \<Rightarrow> bbox \<times> bbox" where
  "bbox_divide_in2_ondim b0 dim =
     (let n = drop_bit 1 (lb b0 ! dim + ub b0 ! dim)
      in (b0\<lparr>ub := (ub b0)[dim := n]\<rparr>, b0\<lparr>lb := (lb b0)[dim := n + 1]\<rparr>))"

text \<open>
  The split in \<open>2 ^ num_dims\<close> sub-boxes. \<open>bbox_divide_step\<close> is the body of the inner
  \<^verbatim>\<open>while(j < ndims)\<close> loop for sub-box \<open>i\<close>; the coordinates past \<open>num_dims\<close> of the caller's
  table entries keep their old values. The midpoint is a \<^verbatim>\<open>long\<close> in the source, where \<^verbatim>\<open>n + 1\<close> overflows when the
  midpoint is \<open>2^63 - 1\<close>; there the source is undefined and the model has the 64-bit result.
\<close>

definition bbox_divide_step :: "bbox \<Rightarrow> nat \<Rightarrow> nat \<Rightarrow> bbox \<Rightarrow> bbox" where
  "bbox_divide_step b0 i j t =
     (let n = (lb b0 ! j + ub b0 ! j) div 2
      in if \<not> bit i j
         then t\<lparr>lb := (lb t)[j := lb b0 ! j], ub := (ub t)[j := n]\<rparr>
         else t\<lparr>lb := (lb t)[j := n + 1], ub := (ub t)[j := ub b0 ! j]\<rparr>)"

definition bbox_divide_sub :: "bbox \<Rightarrow> nat \<Rightarrow> bbox \<Rightarrow> bbox" where
  "bbox_divide_sub b0 i t =
     fold (bbox_divide_step b0 i) [0..<ndims b0] (t\<lparr>num_dims := num_dims b0\<rparr>)"

definition bbox_divide :: "bbox \<Rightarrow> bbox list \<Rightarrow> bbox list" where
  "bbox_divide b0 b_tab =
     map (\<lambda>i. bbox_divide_sub b0 i (b_tab ! i)) [0..<2 ^ ndims b0] @ drop (2 ^ ndims b0) b_tab"

definition bbox_include_ondim :: "bbox \<Rightarrow> bbox \<Rightarrow> nat \<Rightarrow> bool" where
  "bbox_include_ondim b0 b1 dim \<longleftrightarrow> lb b0 ! dim \<le> lb b1 ! dim \<and> ub b1 ! dim \<le> ub b0 ! dim"

definition bbox_include :: "bbox \<Rightarrow> bbox \<Rightarrow> bool" where
  "bbox_include b0 b1 \<longleftrightarrow> list_all (bbox_include_ondim b0 b1) [0..<ndims b0]"

definition bbox_intersect_ondim :: "bbox \<Rightarrow> bbox \<Rightarrow> nat \<Rightarrow> bool" where
  "bbox_intersect_ondim b0 b1 dim \<longleftrightarrow>
     lb b0 ! dim \<le> lb b1 ! dim \<and> lb b1 ! dim \<le> ub b0 ! dim \<or>
     lb b1 ! dim \<le> lb b0 ! dim \<and> lb b0 ! dim \<le> ub b1 ! dim"

definition bbox_does_intersect :: "bbox \<Rightarrow> bbox \<Rightarrow> bool" where
  "bbox_does_intersect b0 b1 \<longleftrightarrow> list_all (bbox_intersect_ondim b0 b1) [0..<ndims b0]"

text \<open>
  The intersection is written dimension by dimension into the caller's box \<open>b2\<close>.
  \<^verbatim>\<open>max(a, b)\<close> is \<^verbatim>\<open>(a) > (b) ? (a) : (b)\<close>, \<^verbatim>\<open>min(a, b)\<close> is \<^verbatim>\<open>(a) < (b) ? (a) : (b)\<close>.
\<close>

definition bbox_intersect_step :: "bbox \<Rightarrow> bbox \<Rightarrow> nat \<Rightarrow> bbox \<Rightarrow> bbox" where
  "bbox_intersect_step b0 b1 i b2 =
     b2\<lparr>lb := (lb b2)[i := (if lb b0 ! i > lb b1 ! i then lb b0 ! i else lb b1 ! i)],
        ub := (ub b2)[i := (if ub b0 ! i < ub b1 ! i then ub b0 ! i else ub b1 ! i)]\<rparr>"

definition bbox_intersect :: "bbox \<Rightarrow> bbox \<Rightarrow> bbox \<Rightarrow> bbox" where
  "bbox_intersect b0 b1 b2 =
     fold (bbox_intersect_step b0 b1) [0..<ndims b0] (b2\<lparr>num_dims := num_dims b0\<rparr>)"

definition bbox_equals :: "bbox \<Rightarrow> bbox \<Rightarrow> bool" where
  "bbox_equals bb0 bb1 \<longleftrightarrow>
     (if num_dims bb0 = num_dims bb1
      then list_all (\<lambda>i. \<not> (lb bb0 ! i \<noteq> lb bb1 ! i \<or> ub bb0 ! i \<noteq> ub bb1 ! i)) [0..<ndims bb0]
      else False)"

definition bbox_volume :: "bbox \<Rightarrow> u64" where
  "bbox_volume bb = fold (\<lambda>i n. n * coord_dist (lb bb) (ub bb) i) [0..<ndims bb] 1"

text \<open>
  \<^verbatim>\<open>bbox_to_origin\<close> prints an error on a dimensionality mismatch and then continues with
  the dimensionality of \<open>bb_glb\<close>.
\<close>

definition bbox_to_origin_step :: "bbox \<Rightarrow> nat \<Rightarrow> bbox \<Rightarrow> bbox" where
  "bbox_to_origin_step bb_glb i bb =
     bb\<lparr>lb := (lb bb)[i := lb bb ! i - lb bb_glb ! i],
        ub := (ub bb)[i := ub bb ! i - lb bb_glb ! i]\<rparr>"

definition bbox_to_origin :: "bbox \<Rightarrow> bbox \<Rightarrow> bbox" where
  "bbox_to_origin bb bb_glb =
     fold (bbox_to_origin_step bb_glb) [0..<ndims bb_glb] (bb\<lparr>num_dims := num_dims bb_glb\<rparr>)"

lemmas bbox_defs = bbox_include_ondim_def bbox_include_def bbox_intersect_ondim_def
  bbox_does_intersect_def bbox_equals_def coord_dist_def bbox_dist_def

section \<open>Well-formed boxes and the points they denote\<close>

definition wf_bbox :: "bbox \<Rightarrow> bool" where
  "wf_bbox b \<longleftrightarrow> 0 \<le> num_dims b \<and> ndims b \<le> BBOX_MAX_NDIM \<and>
     length (lb b) = BBOX_MAX_NDIM \<and> length (ub b) = BBOX_MAX_NDIM"

definition nonempty_bbox :: "bbox \<Rightarrow> bool" where
  "nonempty_bbox b \<longleftrightarrow> (\<forall>i<ndims b. lb b ! i \<le> ub b ! i)"

definition points :: "bbox \<Rightarrow> u64 list set" where
  "points b = {p. length p = ndims b \<and> (\<forall>i<ndims b. lb b ! i \<le> p ! i \<and> p ! i \<le> ub b ! i)}"

text \<open>
  \<open>safe_bbox\<close>: no sum of a lower and an upper bound wraps around, so the midpoints the
  splitting routines compute are the real midpoints.
\<close>

definition safe_bbox :: "bbox \<Rightarrow> bool" where
  "safe_bbox b \<longleftrightarrow> (\<forall>i<ndims b. unat (lb b ! i) + unat (ub b ! i) < 18446744073709551616)"

text \<open>The number of points of a box, as an unbounded number.\<close>

definition vol :: "bbox \<Rightarrow> nat" where
  "vol b = (\<Prod>i<ndims b. Suc (unat (ub b ! i)) - unat (lb b ! i))"

text \<open>A box given by its bounds, for concrete examples.\<close>

definition mk_box :: "coord \<Rightarrow> coord \<Rightarrow> bbox" where
  "mk_box l u =
     \<lparr>num_dims = int (length l), lb = l @ replicate (10 - length l) 0,
      ub = u @ replicate (10 - length u) 0\<rparr>"

lemma mk_box_sel:
  "num_dims (mk_box l u) = int (length l)"
  "i < length l \<Longrightarrow> lb (mk_box l u) ! i = l ! i" "i < length u \<Longrightarrow> ub (mk_box l u) ! i = u ! i"
  by (simp_all add: mk_box_def nth_append)

lemma wf_mk_box: "length l \<le> 10 \<Longrightarrow> length u \<le> 10 \<Longrightarrow> wf_bbox (mk_box l u)"
  by (simp add: wf_bbox_def BBOX_MAX_NDIM_def mk_box_def)

lemma nonempty_mk_box:
  "length l = length u \<Longrightarrow> nonempty_bbox (mk_box l u) \<longleftrightarrow> list_all2 (\<le>) l u"
  by (auto simp: nonempty_bbox_def mk_box_sel list_all2_conv_all_nth)

lemma safe_mk_box:
  "length l = length u \<Longrightarrow> safe_bbox (mk_box l u) \<longleftrightarrow>
     list_all2 (\<lambda>x y. unat x + unat y < 18446744073709551616) l u"
  by (auto simp: safe_bbox_def mk_box_sel list_all2_conv_all_nth)

lemmas mk_box_simps = wf_mk_box nonempty_mk_box safe_mk_box mk_box_sel(1)

lemma nonempty_bbox_eval [bb_simps]:
  "nonempty_bbox b \<longleftrightarrow> list_all (\<lambda>i. lb b ! i \<le> ub b ! i) [0..<ndims b]"
  by (simp add: nonempty_bbox_def)

lemma vol_eval [bb_simps]:
  "vol b = prod_list (map (\<lambda>i. Suc (unat (ub b ! i)) - unat (lb b ! i)) [0..<ndims b])"
  by (simp add: vol_def prod_upt)

lemmas bbox_eval = bb_simps upt_rec BBOX_MAX_NDIM_def mk_box_def wf_bbox_def

lemma wf_bboxI [intro?]:
  assumes "0 \<le> num_dims b" "ndims b \<le> 10" "length (lb b) = 10" "length (ub b) = 10"
  shows "wf_bbox b"
  using assms by (simp add: wf_bbox_def BBOX_MAX_NDIM_def)

lemma wf_bboxD [simp]:
  assumes "wf_bbox b"
  shows "length (lb b) = 10" "length (ub b) = 10" "ndims b \<le> 10" "0 \<le> num_dims b"
  using assms by (auto simp: wf_bbox_def BBOX_MAX_NDIM_def)

lemma points_alt:
  "points b = {p. length p = ndims b \<and> (\<forall>i<ndims b. p ! i \<in> {lb b ! i..ub b ! i})}"
  by (auto simp: points_def)

lemma finite_points [simp]: "finite (points b)"
  unfolding points_alt by (rule finite_lists_dims) simp

lemma card_points: "card (points b) = vol b"
  unfolding points_alt card_lists_dims vol_def by (simp add: card_word_interval)

lemma take_lb_in_points:
  "wf_bbox b \<Longrightarrow> nonempty_bbox b \<Longrightarrow> take (ndims b) (lb b) \<in> points b"
  by (simp add: points_def nonempty_bbox_def)

lemma take_ub_in_points:
  "wf_bbox b \<Longrightarrow> nonempty_bbox b \<Longrightarrow> take (ndims b) (ub b) \<in> points b"
  by (simp add: points_def nonempty_bbox_def)

lemma nonempty_bbox_iff:
  assumes "wf_bbox b"
  shows "nonempty_bbox b \<longleftrightarrow> points b \<noteq> {}"
proof
  show "nonempty_bbox b \<Longrightarrow> points b \<noteq> {}"
    using take_lb_in_points [OF assms] by blast
  assume "points b \<noteq> {}"
  then obtain p where "p \<in> points b" by blast
  then show "nonempty_bbox b"
    by (auto simp: points_def nonempty_bbox_def intro: order_trans)
qed

lemma vol_pos_iff: "wf_bbox b \<Longrightarrow> 0 < vol b \<longleftrightarrow> nonempty_bbox b"
  by (metis card_gt_0_iff card_points finite_points nonempty_bbox_iff)


section \<open>Inclusion and intersection tests\<close>

lemma bbox_include_points:
  "num_dims b0 = num_dims b1 \<Longrightarrow> bbox_include b0 b1 \<Longrightarrow> points b1 \<subseteq> points b0"
  by (fastforce simp: bbox_defs points_def intro: order_trans)

lemma points_include:
  assumes "num_dims b0 = num_dims b1" "wf_bbox b1" "nonempty_bbox b1" "points b1 \<subseteq> points b0"
  shows "bbox_include b0 b1"
proof -
  have "take (ndims b1) (lb b1) \<in> points b0" and "take (ndims b1) (ub b1) \<in> points b0"
    using assms take_lb_in_points take_ub_in_points by blast+
  then show ?thesis
    using assms(1,2) by (auto simp: bbox_defs points_def)
qed

lemma points_disjoint_ondim:
  assumes "i < ndims b0" "num_dims b0 = num_dims b1" "\<not> bbox_intersect_ondim b0 b1 i"
  shows "points b0 \<inter> points b1 = {}"
  using assms by (fastforce simp: bbox_defs points_def)

lemma not_intersect_points:
  assumes "num_dims b0 = num_dims b1" "\<not> bbox_does_intersect b0 b1"
  shows "points b0 \<inter> points b1 = {}"
proof -
  from assms(2) obtain i where "i < ndims b0" "\<not> bbox_intersect_ondim b0 b1 i"
    by (auto simp: bbox_does_intersect_def)
  then show ?thesis using assms(1) by (intro points_disjoint_ondim)
qed

lemma intersect_points:
  assumes dims: "num_dims b0 = num_dims b1"
    and ne: "nonempty_bbox b0" "nonempty_bbox b1"
    and int: "bbox_does_intersect b0 b1"
  shows "points b0 \<inter> points b1 \<noteq> {}"
proof -
  let ?p = "map (\<lambda>i. max (lb b0 ! i) (lb b1 ! i)) [0..<ndims b0]"
  have "lb b0 ! i \<le> ub b1 ! i \<and> lb b1 ! i \<le> ub b0 ! i" if "i < ndims b0" for i
    using that dims ne int
    by (auto simp: bbox_does_intersect_def bbox_intersect_ondim_def nonempty_bbox_def
        dest!: spec [of _ i] intro: order_trans)
  then have "?p \<in> points b0 \<inter> points b1"
    using dims ne by (simp add: points_def nonempty_bbox_def)
  then show ?thesis by blast
qed

section \<open>The box operations, coordinate by coordinate\<close>

text \<open>
  The three loops that write a box dimension by dimension, in closed form: positions below
  the dimensionality are set, the others keep the value of the box written into.
\<close>

lemma fold_bbox_upd:
  "fold (\<lambda>j t. t\<lparr>lb := (lb t)[j := f j], ub := (ub t)[j := g j]\<rparr>) js t =
     t\<lparr>lb := fold (\<lambda>j xs. xs[j := f j]) js (lb t), ub := fold (\<lambda>j xs. xs[j := g j]) js (ub t)\<rparr>"
  by (induction js arbitrary: t) simp_all

lemma bbox_divide_step_alt:
  "bbox_divide_step b0 i =
     (\<lambda>j t. t\<lparr>lb := (lb t)[j := if bit i j then (lb b0 ! j + ub b0 ! j) div 2 + 1 else lb b0 ! j],
             ub := (ub t)[j := if bit i j then ub b0 ! j else (lb b0 ! j + ub b0 ! j) div 2]\<rparr>)"
  by (intro ext) (simp add: bbox_divide_step_def Let_def)

lemma bbox_divide_sub_alt:
  assumes "wf_bbox b0" "wf_bbox t"
  shows "bbox_divide_sub b0 i t =
     t\<lparr>num_dims := num_dims b0,
       lb := map (\<lambda>j. if bit i j then (lb b0 ! j + ub b0 ! j) div 2 + 1 else lb b0 ! j)
               [0..<ndims b0] @ drop (ndims b0) (lb t),
       ub := map (\<lambda>j. if bit i j then ub b0 ! j else (lb b0 ! j + ub b0 ! j) div 2)
               [0..<ndims b0] @ drop (ndims b0) (ub t)\<rparr>"
  using assms
  by (simp add: bbox_divide_sub_def bbox_divide_step_alt fold_bbox_upd fold_upd_upt)

lemma bbox_intersect_step_alt:
  "bbox_intersect_step b0 b1 =
     (\<lambda>j t. t\<lparr>lb := (lb t)[j := max (lb b0 ! j) (lb b1 ! j)],
             ub := (ub t)[j := min (ub b0 ! j) (ub b1 ! j)]\<rparr>)"
  by (intro ext) (simp add: bbox_intersect_step_def max_def min_def not_le not_less)

lemma bbox_intersect_alt:
  assumes "wf_bbox b0" "wf_bbox b2"
  shows "bbox_intersect b0 b1 b2 =
     b2\<lparr>num_dims := num_dims b0,
        lb := map (\<lambda>j. max (lb b0 ! j) (lb b1 ! j)) [0..<ndims b0] @ drop (ndims b0) (lb b2),
        ub := map (\<lambda>j. min (ub b0 ! j) (ub b1 ! j)) [0..<ndims b0] @ drop (ndims b0) (ub b2)\<rparr>"
  using assms
  by (simp add: bbox_intersect_def bbox_intersect_step_alt fold_bbox_upd fold_upd_upt)

lemma bbox_intersect_sel:
  assumes "wf_bbox b0" "wf_bbox b2"
  shows "num_dims (bbox_intersect b0 b1 b2) = num_dims b0"
    and "i < ndims b0 \<Longrightarrow> lb (bbox_intersect b0 b1 b2) ! i = max (lb b0 ! i) (lb b1 ! i)"
    and "i < ndims b0 \<Longrightarrow> ub (bbox_intersect b0 b1 b2) ! i = min (ub b0 ! i) (ub b1 ! i)"
  using assms by (simp_all add: bbox_intersect_alt nth_append)

lemma wf_bbox_intersect [wf_intros]:
  "wf_bbox b0 \<Longrightarrow> wf_bbox b2 \<Longrightarrow> wf_bbox (bbox_intersect b0 b1 b2)"
  by (rule wf_bboxI) (simp_all add: bbox_intersect_alt)

lemma wf_bbox_divide_sub [wf_intros]:
  "wf_bbox b0 \<Longrightarrow> wf_bbox t \<Longrightarrow> wf_bbox (bbox_divide_sub b0 i t)"
  by (rule wf_bboxI) (simp_all add: bbox_divide_sub_alt)

lemma points_intersect:
  assumes "wf_bbox b0" "wf_bbox b2" "num_dims b0 = num_dims b1"
  shows "points (bbox_intersect b0 b1 b2) = points b0 \<inter> points b1"
  using assms by (auto simp: points_def bbox_intersect_sel)

section \<open>Splitting a box\<close>

definition mid :: "bbox \<Rightarrow> nat \<Rightarrow> u64" where
  "mid b j = (lb b ! j + ub b ! j) div 2"

lemma mid_props:
  assumes "nonempty_bbox b" "safe_bbox b" "j < ndims b"
  shows "lb b ! j \<le> mid b j" "mid b j \<le> ub b ! j"
    and "lb b ! j < ub b ! j \<Longrightarrow> mid b j < ub b ! j"
    and "mid b j + 1 \<le> x \<longleftrightarrow> mid b j < x"
  using assms mid_u64 mid_split_u64 unfolding mid_def nonempty_bbox_def safe_bbox_def by blast+

lemma bbox_divide_sub_sel:
  assumes "wf_bbox b0" "wf_bbox t"
  shows "num_dims (bbox_divide_sub b0 i t) = num_dims b0"
    and "j < ndims b0 \<Longrightarrow> lb (bbox_divide_sub b0 i t) ! j = (if bit i j then mid b0 j + 1 else lb b0 ! j)"
    and "j < ndims b0 \<Longrightarrow> ub (bbox_divide_sub b0 i t) ! j = (if bit i j then ub b0 ! j else mid b0 j)"
  using assms by (simp_all add: bbox_divide_sub_alt nth_append mid_def)

text \<open>Sub-box \<open>i\<close> holds the points whose halves, dimension by dimension, are the bits of \<open>i\<close>.\<close>

lemma points_divide_sub:
  assumes "wf_bbox b0" "wf_bbox t" "nonempty_bbox b0" "safe_bbox b0"
  shows "points (bbox_divide_sub b0 i t) =
     {p \<in> points b0. \<forall>j<ndims b0. bit i j \<longleftrightarrow> mid b0 j < p ! j}"
proof -
  have dim: "(lb (bbox_divide_sub b0 i t) ! j \<le> x \<and> x \<le> ub (bbox_divide_sub b0 i t) ! j) \<longleftrightarrow>
      (lb b0 ! j \<le> x \<and> x \<le> ub b0 ! j) \<and> (bit i j \<longleftrightarrow> mid b0 j < x)" if "j < ndims b0" for j x
    using mid_props [OF assms(3,4) that] bbox_divide_sub_sel(2,3) [OF assms(1,2) that]
    by (auto simp: not_less)
  show ?thesis
    unfolding points_def bbox_divide_sub_sel(1) [OF assms(1,2)]
    by (auto simp: dim)
qed

lemma nonempty_divide_sub:
  assumes "wf_bbox b0" "wf_bbox t" "nonempty_bbox b0" "safe_bbox b0"
    and "\<forall>j<ndims b0. lb b0 ! j < ub b0 ! j"
  shows "nonempty_bbox (bbox_divide_sub b0 i t)"
  unfolding nonempty_bbox_def
  using assms mid_props [OF assms(3,4)] by (simp add: bbox_divide_sub_sel)

lemma bits_of_halves:
  obtains i :: nat where "i < 2 ^ n" "\<forall>j<n. bit i j \<longleftrightarrow> P j"
proof
  let ?i = "horner_sum of_bool 2 (map P [0..<n]) :: nat"
  show "\<forall>j<n. bit ?i j \<longleftrightarrow> P j" by (simp add: bit_horner_sum_bit_iff)
  have "take_bit n ?i = ?i"
    by (rule bit_eqI) (auto simp: bit_take_bit_iff bit_horner_sum_bit_iff)
  then show "?i < 2 ^ n" by (simp add: take_bit_nat_eq_self_iff)
qed

lemma bits_below_inj:
  fixes i k :: nat
  assumes "i < 2 ^ n" "k < 2 ^ n" "\<forall>j<n. bit i j \<longleftrightarrow> bit k j"
  shows "i = k"
proof -
  have "take_bit n i = take_bit n k"
    using assms(3) by (intro bit_eqI) (auto simp: bit_take_bit_iff)
  then show ?thesis using assms(1,2) by (simp add: take_bit_nat_eq_self)
qed

lemma points_divide_Union:
  assumes "wf_bbox b0" "nonempty_bbox b0" "safe_bbox b0" "\<And>i. i < 2 ^ ndims b0 \<Longrightarrow> wf_bbox (t i)"
  shows "(\<Union>i<2 ^ ndims b0. points (bbox_divide_sub b0 i (t i))) = points b0"
proof
  show "(\<Union>i<2 ^ ndims b0. points (bbox_divide_sub b0 i (t i))) \<subseteq> points b0"
    using assms points_divide_sub by auto
  show "points b0 \<subseteq> (\<Union>i<2 ^ ndims b0. points (bbox_divide_sub b0 i (t i)))"
  proof
    fix p assume p: "p \<in> points b0"
    obtain i :: nat where i: "i < 2 ^ ndims b0" "\<forall>j<ndims b0. bit i j \<longleftrightarrow> mid b0 j < p ! j"
      by (rule bits_of_halves)
    with p assms have "p \<in> points (bbox_divide_sub b0 i (t i))"
      by (simp add: points_divide_sub)
    with i show "p \<in> (\<Union>i<2 ^ ndims b0. points (bbox_divide_sub b0 i (t i)))" by blast
  qed
qed

lemma points_divide_disjoint:
  assumes "wf_bbox b0" "nonempty_bbox b0" "safe_bbox b0" "wf_bbox s" "wf_bbox t"
    and "i < 2 ^ ndims b0" "k < 2 ^ ndims b0" "i \<noteq> k"
  shows "points (bbox_divide_sub b0 i s) \<inter> points (bbox_divide_sub b0 k t) = {}"
proof -
  have "i = k" if "p \<in> points (bbox_divide_sub b0 i s)" "p \<in> points (bbox_divide_sub b0 k t)" for p
    using that assms by (intro bits_below_inj [of i "ndims b0" k]) (auto simp: points_divide_sub)
  with assms(8) show ?thesis by blast
qed

lemma bbox_divide_in2_alt:
  "bbox_divide_in2_ondim b0 dim =
     (b0\<lparr>ub := (ub b0)[dim := mid b0 dim]\<rparr>, b0\<lparr>lb := (lb b0)[dim := mid b0 dim + 1]\<rparr>)"
  by (simp only: bbox_divide_in2_ondim_def mid_def drop_bit_1_u64 Let_def)

lemma points_divide_in2:
  assumes "wf_bbox b0" "nonempty_bbox b0" "safe_bbox b0" "dim < ndims b0"
  shows "points (fst (bbox_divide_in2_ondim b0 dim)) = {p \<in> points b0. p ! dim \<le> mid b0 dim}"
    and "points (snd (bbox_divide_in2_ondim b0 dim)) = {p \<in> points b0. mid b0 dim < p ! dim}"
proof -
  note mp = mid_props [OF assms(2-4)]
  have len: "dim < length (lb b0)" "dim < length (ub b0)"
    using assms(1,4) by (simp_all add: less_le_trans)
  have l: "(lb b0 ! j \<le> x \<and> x \<le> (ub b0)[dim := mid b0 dim] ! j) \<longleftrightarrow>
      (lb b0 ! j \<le> x \<and> x \<le> ub b0 ! j) \<and> (j = dim \<longrightarrow> x \<le> mid b0 dim)" for j x
    using mp(1,2) len by (cases "j = dim") (auto intro: order_trans)
  have r: "((lb b0)[dim := mid b0 dim + 1] ! j \<le> x \<and> x \<le> ub b0 ! j) \<longleftrightarrow>
      (lb b0 ! j \<le> x \<and> x \<le> ub b0 ! j) \<and> (j = dim \<longrightarrow> mid b0 dim < x)" for j x
    using mp(1) len by (cases "j = dim") (auto simp: mp(4) intro: order_trans less_imp_le)
  show "points (fst (bbox_divide_in2_ondim b0 dim)) = {p \<in> points b0. p ! dim \<le> mid b0 dim}"
    using assms(4) by (auto simp: bbox_divide_in2_alt points_def l)
  show "points (snd (bbox_divide_in2_ondim b0 dim)) = {p \<in> points b0. mid b0 dim < p ! dim}"
    using assms(4) by (auto simp: bbox_divide_in2_alt points_def r)
qed

section \<open>Volume, equality, translation\<close>

definition ordered_bbox :: "bbox \<Rightarrow> bool" where
  "ordered_bbox b \<longleftrightarrow> (\<forall>i<ndims b. unat (lb b ! i) \<le> Suc (unat (ub b ! i)))"

text \<open>
  A box is \<open>ordered_bbox\<close> when no lower bound exceeds its upper bound by more than one:
  besides the non-empty boxes these are the empty halves that splitting an extent of one
  element leaves behind.
\<close>

lemma nonempty_ordered: "nonempty_bbox b \<Longrightarrow> ordered_bbox b"
  by (auto simp: nonempty_bbox_def ordered_bbox_def word_le_nat_alt le_SucI)

lemma fold_mult_prod:
  "fold (\<lambda>i n. n * f i) [0..<k] (1 :: 'a::comm_semiring_1) = (\<Prod>i<k. f i)"
  by (induction k) (simp_all add: ac_simps)

lemma coord_dist_of_nat:
  assumes "unat (c0 ! i) \<le> Suc (unat (c1 ! i))"
  shows "coord_dist c0 c1 i = of_nat (Suc (unat (c1 ! i)) - unat (c0 ! i))"
  using assms by (simp only: coord_dist_def of_nat_diff) simp

lemma bbox_volume_of_nat:
  assumes "ordered_bbox b"
  shows "bbox_volume b = of_nat (vol b)"
proof -
  have "bbox_volume b = (\<Prod>i<ndims b. coord_dist (lb b) (ub b) i)"
    by (simp only: bbox_volume_def fold_mult_prod)
  also have "\<dots> = (\<Prod>i<ndims b. of_nat (Suc (unat (ub b ! i)) - unat (lb b ! i)))"
    using assms by (intro prod.cong) (auto simp: ordered_bbox_def coord_dist_of_nat)
  finally show ?thesis by (simp only: vol_def of_nat_prod)
qed

lemma unat_bbox_volume:
  assumes "ordered_bbox b" "vol b < 18446744073709551616"
  shows "unat (bbox_volume b) = vol b"
  using assms by (simp add: bbox_volume_of_nat unat_of_nat)

lemma bbox_equals_alt:
  assumes "wf_bbox b0" "wf_bbox b1"
  shows "bbox_equals b0 b1 \<longleftrightarrow> num_dims b0 = num_dims b1 \<and>
     take (ndims b0) (lb b0) = take (ndims b0) (lb b1) \<and>
     take (ndims b0) (ub b0) = take (ndims b0) (ub b1)"
  using assms by (auto simp: bbox_equals_def list_eq_iff_nth_eq)

lemma bbox_equals_refl: "bbox_equals b b"
  by (simp add: bbox_equals_def)

lemma bbox_equals_points:
  "bbox_equals b0 b1 \<Longrightarrow> points b0 = points b1"
  by (auto simp: bbox_equals_def points_def split: if_splits)

lemma points_bbox_equals:
  assumes "wf_bbox b0" "wf_bbox b1" "num_dims b0 = num_dims b1" "nonempty_bbox b0"
    and "points b0 = points b1"
  shows "bbox_equals b0 b1"
proof -
  have ne: "nonempty_bbox b1"
    using assms nonempty_bbox_iff by metis
  have "bbox_include b0 b1" "bbox_include b1 b0"
    using assms ne by (simp_all add: points_include)
  with assms(3) show ?thesis
    by (auto simp: bbox_defs intro: order_antisym)
qed

lemma bbox_to_origin_sel:
  assumes "wf_bbox bb" "wf_bbox bb_glb" "i < ndims bb_glb"
  shows "lb (bbox_to_origin bb bb_glb) ! i = lb bb ! i - lb bb_glb ! i"
    and "ub (bbox_to_origin bb bb_glb) ! i = ub bb ! i - lb bb_glb ! i"
proof -
  have "lb (fold (bbox_to_origin_step g) [0..<n] b) ! i =
          (if i < n then lb b ! i - lb g ! i else lb b ! i) \<and>
        ub (fold (bbox_to_origin_step g) [0..<n] b) ! i =
          (if i < n then ub b ! i - lb g ! i else ub b ! i) \<and>
        length (lb (fold (bbox_to_origin_step g) [0..<n] b)) = length (lb b) \<and>
        length (ub (fold (bbox_to_origin_step g) [0..<n] b)) = length (ub b)"
    if "n \<le> length (lb b)" "n \<le> length (ub b)" for n g b
    using that by (induction n) (auto simp: bbox_to_origin_step_def nth_list_update less_Suc_eq)
  from this [of "ndims bb_glb" "bb\<lparr>num_dims := num_dims bb_glb\<rparr>" bb_glb] assms
  show "lb (bbox_to_origin bb bb_glb) ! i = lb bb ! i - lb bb_glb ! i"
    and "ub (bbox_to_origin bb bb_glb) ! i = ub bb ! i - lb bb_glb ! i"
    by (simp_all add: bbox_to_origin_def)
qed

section \<open>Properties\<close>

text \<open>
  For two non-empty boxes of the same dimensionality, \<^verbatim>\<open>bbox_does_intersect\<close> answers whether
  they have a point in common, and \<^verbatim>\<open>bbox_intersect\<close> writes the box of exactly the common points
  into any destination.
\<close>

theorem bbox_intersect_correct:
  assumes "wf_bbox b0" "wf_bbox b1" "wf_bbox b2" "num_dims b0 = num_dims b1"
    and "nonempty_bbox b0" "nonempty_bbox b1"
  shows "(bbox_does_intersect b0 b1 \<longleftrightarrow> points b0 \<inter> points b1 \<noteq> {}) \<and>
    wf_bbox (bbox_intersect b0 b1 b2) \<and> points (bbox_intersect b0 b1 b2) = points b0 \<inter> points b1"
  using assms not_intersect_points [of b0 b1] intersect_points [of b0 b1]
    points_intersect [of b0 b2 b1] wf_bbox_intersect [of b0 b2 b1] by blast

theorem bbox_intersect_correct_witness:
  "bbox_does_intersect (mk_box [0, 2] [3, 4]) (mk_box [3, 0] [5, 2]) \<and>
   points (bbox_intersect (mk_box [0, 2] [3, 4]) (mk_box [3, 0] [5, 2]) (mk_box [] [])) =
     points (mk_box [0, 2] [3, 4]) \<inter> points (mk_box [3, 0] [5, 2])"
proof -
  have "bbox_does_intersect (mk_box [0, 2] [3, 4]) (mk_box [3, 0] [5, 2])" by code_simp
  with bbox_intersect_correct [of "mk_box [0, 2] [3, 4]" "mk_box [3, 0] [5, 2]" "mk_box [] []"]
  show ?thesis by (simp add: mk_box_simps)
qed

text \<open>
  \<^verbatim>\<open>bbox_include\<close> of two boxes of the same dimensionality decides inclusion of their points,
  when the included box is not empty; \<^verbatim>\<open>bbox_equals\<close> decides equality of the points.
\<close>

theorem bbox_include_equals_iff:
  assumes "wf_bbox b0" "wf_bbox b1" "num_dims b0 = num_dims b1" "nonempty_bbox b1"
  shows "(bbox_include b0 b1 \<longleftrightarrow> points b1 \<subseteq> points b0) \<and>
    (bbox_equals b0 b1 \<longleftrightarrow> points b0 = points b1)"
proof
  show "bbox_include b0 b1 \<longleftrightarrow> points b1 \<subseteq> points b0"
    using assms bbox_include_points points_include by blast
  have "nonempty_bbox b0" if "points b0 = points b1"
    using that assms nonempty_bbox_iff by blast
  then show "bbox_equals b0 b1 \<longleftrightarrow> points b0 = points b1"
    using assms bbox_equals_points points_bbox_equals by blast
qed

theorem bbox_include_equals_iff_witness:
  "(bbox_include (mk_box [0, 0] [7, 9]) (mk_box [1, 2] [3, 9]) \<longleftrightarrow>
      points (mk_box [1, 2] [3, 9]) \<subseteq> points (mk_box [0, 0] [7, 9])) \<and>
   bbox_include (mk_box [0, 0] [7, 9]) (mk_box [1, 2] [3, 9])"
proof
  show "bbox_include (mk_box [0, 0] [7, 9]) (mk_box [1, 2] [3, 9])" by code_simp
  show "bbox_include (mk_box [0, 0] [7, 9]) (mk_box [1, 2] [3, 9]) \<longleftrightarrow>
      points (mk_box [1, 2] [3, 9]) \<subseteq> points (mk_box [0, 0] [7, 9])"
    using bbox_include_equals_iff [of "mk_box [0, 0] [7, 9]" "mk_box [1, 2] [3, 9]"]
    by (simp add: mk_box_simps)
qed

text \<open>
  C12: \<^verbatim>\<open>bbox_divide\<close> partitions a non-empty box: the \<open>2 ^ num_dims\<close> boxes it writes cover exactly
  the points of the box, and no two of them share a point, as long as no midpoint sum wraps.
\<close>

theorem bbox_divide_partitions:
  assumes "wf_bbox b0" "nonempty_bbox b0" "safe_bbox b0"
    and "length b_tab = 2 ^ ndims b0" "list_all wf_bbox b_tab"
  shows "length (bbox_divide b0 b_tab) = 2 ^ ndims b0 \<and>
    (\<Union>b\<in>set (bbox_divide b0 b_tab). points b) = points b0 \<and>
    (\<forall>i<2 ^ ndims b0. \<forall>k<2 ^ ndims b0. i \<noteq> k \<longrightarrow>
       points (bbox_divide b0 b_tab ! i) \<inter> points (bbox_divide b0 b_tab ! k) = {})"
proof -
  have t: "wf_bbox (b_tab ! i)" if "i < 2 ^ ndims b0" for i
    using that assms(4,5) by (simp add: list_all_length)
  have d: "bbox_divide b0 b_tab = map (\<lambda>i. bbox_divide_sub b0 i (b_tab ! i)) [0..<2 ^ ndims b0]"
    using assms(4) by (simp add: bbox_divide_def)
  have "(\<Union>b\<in>set (bbox_divide b0 b_tab). points b) = points b0"
    using points_divide_Union [OF assms(1-3) t] by (simp add: d atLeast_upt)
  moreover have "points (bbox_divide b0 b_tab ! i) \<inter> points (bbox_divide b0 b_tab ! k) = {}"
    if "i < 2 ^ ndims b0" "k < 2 ^ ndims b0" "i \<noteq> k" for i k
    using points_divide_disjoint [OF assms(1-3) t t] that by (simp add: d)
  ultimately show ?thesis by (simp add: d)
qed

theorem bbox_divide_partitions_witness:
  "(\<Union>b\<in>set (bbox_divide (mk_box [0, 1] [2, 1]) (replicate 4 (mk_box [] []))). points b) =
   points (mk_box [0, 1] [2, 1])"
  using bbox_divide_partitions [of "mk_box [0, 1] [2, 1]" "replicate 4 (mk_box [] [])"]
  by (simp add: mk_box_simps list_all_length)

text \<open>
  \<^verbatim>\<open>bbox_volume\<close> is the number of points of a non-empty box whose volume fits 64 bits (and that
  number modulo \<open>2 ^ 64\<close> in general).
\<close>

theorem bbox_volume_counts_points:
  assumes "nonempty_bbox b"
  shows "bbox_volume b = of_nat (card (points b)) \<and>
    (card (points b) < 18446744073709551616 \<longrightarrow> unat (bbox_volume b) = card (points b))"
  unfolding card_points
  by (intro conjI impI bbox_volume_of_nat unat_bbox_volume nonempty_ordered [OF assms])

theorem bbox_volume_counts_points_witness:
  "bbox_volume (mk_box [1, 2, 0] [4, 3, 0]) = of_nat (card (points (mk_box [1, 2, 0] [4, 3, 0]))) \<and>
   bbox_volume (mk_box [1, 2, 0] [4, 3, 0]) = 8"
proof
  show "bbox_volume (mk_box [1, 2, 0] [4, 3, 0]) = of_nat (card (points (mk_box [1, 2, 0] [4, 3, 0])))"
    using bbox_volume_counts_points [of "mk_box [1, 2, 0] [4, 3, 0]"]
    by (simp add: mk_box_simps)
  show "bbox_volume (mk_box [1, 2, 0] [4, 3, 0]) = 8" by code_simp
qed

end
