(* ===== verification/CQueue.thy ===== *)
theory CQueue
  imports Prelude
begin

text \<open>
  The singly linked FIFO queue of \<^verbatim>\<open>include/queue.h\<close>. The nodes a queue has allocated are a
  partial map from addresses to nodes kept with the queue, \<open>brk\<close> is the next address
  \<^verbatim>\<open>malloc\<close> returns, and reading a node that is not allocated (a \<open>NULL\<close> or freed pointer)
  has no result. The locale \<open>fifo\<close> is what the clients of the queue rely on; it is
  interpreted on the operations of the header.
\<close>

section \<open>Data and operations\<close>

record 'a queue_node =
  qn_next :: "nat option"
  qn_obj :: 'a

record 'a queue =
  num_elem :: nat
  q_head :: "nat option"
  q_tail :: "nat option"
  nodes :: "nat \<Rightarrow> 'a queue_node option"
  brk :: nat

definition queue_init :: "'a queue" where
  "queue_init = \<lparr>num_elem = 0, q_head = None, q_tail = None, nodes = (\<lambda>_. None), brk = 0\<rparr>"

definition queue_enqueue :: "'a queue \<Rightarrow> 'a \<Rightarrow> 'a queue option" where
  "queue_enqueue q obj =
     (let qn = brk q;
          q1 = q\<lparr>nodes := (nodes q)(qn \<mapsto> \<lparr>qn_next = None, qn_obj = obj\<rparr>), brk := Suc qn\<rparr>
      in if num_elem q = 0
         then Some (q1\<lparr>q_head := Some qn, q_tail := Some qn, num_elem := Suc (num_elem q)\<rparr>)
         else case q_tail q of
                None \<Rightarrow> None
              | Some t \<Rightarrow>
                  (case nodes q1 t of
                     None \<Rightarrow> None
                   | Some n \<Rightarrow>
                       Some (q1\<lparr>nodes := (nodes q1)(t \<mapsto> n\<lparr>qn_next := Some qn\<rparr>),
                                q_tail := Some qn, num_elem := Suc (num_elem q)\<rparr>)))"

text \<open>\<^verbatim>\<open>queue_dequeue\<close> returns the object (\<open>None\<close> for \<open>NULL\<close> on an empty queue) and the queue.\<close>

definition queue_dequeue :: "'a queue \<Rightarrow> ('a option \<times> 'a queue) option" where
  "queue_dequeue q =
     (if num_elem q = 0 then Some (None, q)
      else case q_head q of
             None \<Rightarrow> None
           | Some a \<Rightarrow>
               (case nodes q a of
                  None \<Rightarrow> None
                | Some n \<Rightarrow>
                    (let q1 = q\<lparr>q_head := qn_next n, nodes := (nodes q)(a := None),
                                num_elem := num_elem q - 1\<rparr>
                     in Some (Some (qn_obj n),
                              if num_elem q1 = 0 then q1\<lparr>q_tail := None\<rparr> else q1))))"

definition queue_is_empty :: "'a queue \<Rightarrow> bool" where
  "queue_is_empty q \<longleftrightarrow> num_elem q = 0"

definition queue_size :: "'a queue \<Rightarrow> nat" where
  "queue_size q = num_elem q"

section \<open>The interface its clients rely on\<close>

locale fifo =
  fixes init :: 'q
    and enq :: "'q \<Rightarrow> 'a \<Rightarrow> 'q option"
    and deq :: "'q \<Rightarrow> ('a option \<times> 'q) option"
    and is_empty :: "'q \<Rightarrow> bool"
    and size_of :: "'q \<Rightarrow> nat"
    and holds :: "'q \<Rightarrow> 'a list \<Rightarrow> bool"
  assumes holds_init: "holds init []"
    and enq_ok: "holds q xs \<Longrightarrow> \<exists>q'. enq q x = Some q' \<and> holds q' (xs @ [x])"
    and deq_nil: "holds q [] \<Longrightarrow> deq q = Some (None, q)"
    and deq_cons: "holds q (x # xs) \<Longrightarrow> \<exists>q'. deq q = Some (Some x, q') \<and> holds q' xs"
    and is_empty_iff: "holds q xs \<Longrightarrow> is_empty q \<longleftrightarrow> xs = []"
    and size_eq: "holds q xs \<Longrightarrow> size_of q = length xs"
begin

fun enq_all :: "'q \<Rightarrow> 'a list \<Rightarrow> 'q option" where
  "enq_all q [] = Some q"
| "enq_all q (x # xs) = Option.bind (enq q x) (\<lambda>q'. enq_all q' xs)"

fun deq_n :: "nat \<Rightarrow> 'q \<Rightarrow> 'a list option" where
  "deq_n 0 q = Some []"
| "deq_n (Suc n) q = (case deq q of Some (Some x, q') \<Rightarrow> map_option ((#) x) (deq_n n q') | _ \<Rightarrow> None)"

lemma enq_all_ok:
  assumes "holds q xs"
  shows "\<exists>q'. enq_all q ys = Some q' \<and> holds q' (xs @ ys)"
  using assms
proof (induction ys arbitrary: q xs)
  case Nil
  then show ?case by simp
next
  case (Cons y ys)
  obtain q1 where q1: "enq q y = Some q1" "holds q1 (xs @ [y])"
    using enq_ok [OF Cons.prems] by blast
  from Cons.IH [OF q1(2)] q1(1) show ?case by simp
qed

lemma deq_n_ok: "holds q xs \<Longrightarrow> deq_n (length xs) q = Some xs"
proof (induction xs arbitrary: q)
  case Nil
  then show ?case by simp
next
  case (Cons x xs)
  obtain q' where "deq q = Some (Some x, q')" "holds q' xs"
    using deq_cons [OF Cons.prems] by blast
  with Cons.IH show ?case by simp
qed

lemma fifo_order:
  "\<exists>q. enq_all init xs = Some q \<and> size_of q = length xs \<and> deq_n (length xs) q = Some xs"
  using enq_all_ok [OF holds_init, of xs] deq_n_ok size_eq by fastforce

end

section \<open>The queue of the header is a FIFO queue\<close>

text \<open>The chain of nodes from an address, ending in \<open>NULL\<close>.\<close>

fun chain :: "(nat \<Rightarrow> 'a queue_node option) \<Rightarrow> nat option \<Rightarrow> nat list \<Rightarrow> 'a list \<Rightarrow> bool" where
  "chain m p [] xs \<longleftrightarrow> p = None \<and> xs = []"
| "chain m p (a # as) xs \<longleftrightarrow>
     (\<exists>n ys. p = Some a \<and> m a = Some n \<and> xs = qn_obj n # ys \<and> chain m (qn_next n) as ys)"

definition queue_holds :: "'a queue \<Rightarrow> 'a list \<Rightarrow> bool" where
  "queue_holds q xs \<longleftrightarrow>
     (\<exists>as. chain (nodes q) (q_head q) as xs \<and> distinct as \<and> (\<forall>a\<in>set as. a < brk q) \<and>
           num_elem q = length as \<and> q_tail q = (if as = [] then None else Some (last as)))"

lemma chain_length: "chain m p as xs \<Longrightarrow> length xs = length as"
  by (induction as arbitrary: p xs) auto

lemma chain_frame:
  "chain m p as xs \<Longrightarrow> a \<notin> set as \<Longrightarrow> chain (m(a := v)) p as xs"
  by (induction as arbitrary: p xs) auto

lemma chain_snoc:
  assumes "chain m p as xs" "as \<noteq> []" "distinct as" "b \<notin> set as" "m (last as) = Some n"
  shows "chain (m(b \<mapsto> \<lparr>qn_next = None, qn_obj = x\<rparr>, last as \<mapsto> n\<lparr>qn_next := Some b\<rparr>)) p
           (as @ [b]) (xs @ [x])"
  using assms
proof (induction as arbitrary: p xs)
  case Nil
  then show ?case by simp
next
  case (Cons a as)
  show ?case
  proof (cases "as = []")
    case True
    with Cons.prems show ?thesis by auto
  next
    case False
    obtain k ys where k: "p = Some a" "m a = Some k" "xs = qn_obj k # ys" "chain m (qn_next k) as ys"
      using Cons.prems(1) by auto
    have "a \<noteq> last as" using Cons.prems(3) False by auto
    with Cons.IH [OF k(4)] Cons.prems False k show ?thesis by auto
  qed
qed

lemma chain_last_alloc:
  "chain m p as xs \<Longrightarrow> as \<noteq> [] \<Longrightarrow> \<exists>n. m (last as) = Some n"
  by (induction as arbitrary: p xs) auto

lemma queue_holds_init: "queue_holds queue_init []"
  by (auto simp: queue_holds_def queue_init_def intro!: exI [of _ "[]"])

lemma queue_holds_enqueue:
  assumes "queue_holds q xs"
  shows "\<exists>q'. queue_enqueue q x = Some q' \<and> queue_holds q' (xs @ [x])"
proof -
  obtain as where as: "chain (nodes q) (q_head q) as xs" "distinct as" "\<forall>a\<in>set as. a < brk q"
    "num_elem q = length as" "q_tail q = (if as = [] then None else Some (last as))"
    using assms by (auto simp: queue_holds_def)
  show ?thesis
  proof (cases "as = []")
    case True
    with as show ?thesis
      by (auto simp: queue_enqueue_def queue_holds_def Let_def intro!: exI [of _ "[brk q]"])
  next
    case False
    obtain n where n: "nodes q (last as) = Some n"
      using chain_last_alloc [OF as(1) False] by blast
    have fresh: "brk q \<notin> set as" "last as \<noteq> brk q" using as(3) last_in_set [OF False] by auto
    let ?m = "(nodes q)(brk q \<mapsto> \<lparr>qn_next = None, qn_obj = x\<rparr>, last as \<mapsto> n\<lparr>qn_next := Some (brk q)\<rparr>)"
    have "chain ?m (q_head q) (as @ [brk q]) (xs @ [x])"
      using chain_snoc [OF as(1) False as(2) fresh(1) n] .
    with False as n fresh show ?thesis
      by (auto simp: queue_enqueue_def queue_holds_def Let_def less_Suc_eq
          intro!: exI [of _ "as @ [brk q]"])
  qed
qed

lemma queue_holds_dequeue:
  assumes "queue_holds q (x # xs)"
  shows "\<exists>q'. queue_dequeue q = Some (Some x, q') \<and> queue_holds q' xs"
proof -
  obtain as where as: "chain (nodes q) (q_head q) as (x # xs)" "distinct as" "\<forall>a\<in>set as. a < brk q"
    "num_elem q = length as" "q_tail q = (if as = [] then None else Some (last as))"
    using assms by (auto simp: queue_holds_def)
  then obtain a bs where bs: "as = a # bs" by (cases as) auto
  with as obtain n where n: "q_head q = Some a" "nodes q a = Some n" "x = qn_obj n"
    "chain (nodes q) (qn_next n) bs xs" by auto
  have "chain ((nodes q)(a := None)) (qn_next n) bs xs"
    using chain_frame [OF n(4), of a None] as(2) bs by simp
  with as bs n show ?thesis
    by (auto simp: queue_dequeue_def queue_holds_def Let_def intro!: exI [of _ bs])
qed

lemma queue_holds_dequeue_nil: "queue_holds q [] \<Longrightarrow> queue_dequeue q = Some (None, q)"
  by (auto simp: queue_holds_def queue_dequeue_def dest: chain_length)

lemma queue_holds_size: "queue_holds q xs \<Longrightarrow> queue_size q = length xs"
  by (auto simp: queue_holds_def queue_size_def dest: chain_length)

lemma queue_holds_empty: "queue_holds q xs \<Longrightarrow> queue_is_empty q \<longleftrightarrow> xs = []"
  by (auto simp: queue_holds_def queue_is_empty_def dest: chain_length)

interpretation cq: fifo queue_init queue_enqueue queue_dequeue queue_is_empty queue_size queue_holds
  by unfold_locales (simp_all add: queue_holds_init queue_holds_enqueue queue_holds_dequeue
      queue_holds_dequeue_nil queue_holds_size queue_holds_empty)

text \<open>
  The loop \<^verbatim>\<open>while(!queue_is_empty(q)) { x = queue_dequeue(q); ... }\<close> that empties a queue into
  an array.
\<close>

partial_function (option) queue_drain :: "'a queue \<Rightarrow> 'a list \<Rightarrow> 'a list option" where
  "queue_drain q acc =
     (if queue_is_empty q then Some acc
      else Option.bind (queue_dequeue q) (\<lambda>(x, q').
             Option.bind x (\<lambda>x. queue_drain q' (acc @ [x]))))"

declare queue_drain.simps [code]

lemma queue_drain_ok: "queue_holds q xs \<Longrightarrow> queue_drain q acc = Some (acc @ xs)"
proof (induction xs arbitrary: q acc)
  case Nil
  then show ?case by (simp add: queue_drain.simps queue_holds_empty)
next
  case (Cons x xs)
  obtain q' where "queue_dequeue q = Some (Some x, q')" "queue_holds q' xs"
    using cq.deq_cons [OF Cons.prems] by blast
  with Cons show ?case by (simp add: queue_drain.simps [of q] queue_holds_empty)
qed

section \<open>Property\<close>

text \<open>The pointer queue is first-in first-out. Enqueueing the elements of any list into a fresh
  queue never dereferences an invalid node, the size counts them, and emptying the queue returns
  them in the order in which they were enqueued.\<close>

theorem queue_fifo:
  "\<exists>q. cq.enq_all queue_init xs = Some q \<and> queue_size q = length xs \<and> queue_drain q [] = Some xs"
  using cq.enq_all_ok [OF queue_holds_init, of xs] queue_drain_ok [of _ xs "[]"]
    queue_holds_size [of _ xs] by auto

end
