(* ===== verification/Intv.thy ===== *)
theory Intv
  imports BBox CQueue Hilbert
begin

text \<open>
  Linearisation of boxes: \<^verbatim>\<open>struct intv\<close>, \<^verbatim>\<open>bbox_flat\<close>, \<^verbatim>\<open>intv_compact\<close>, the breadth-first
  decomposition \<^verbatim>\<open>bbox_to_intv\<close> with two linked queues and \<^verbatim>\<open>bbox_to_intv2\<close> with a growing ring
  buffer, of \<^verbatim>\<open>src/bbox.c\<close>. Both are shown to compute the same decomposition, to terminate on
  a virtual cube whose side is a power of two, and to cover exactly the points of the box.
\<close>

section \<open>Operations\<close>

record intv =
  i_lb :: u64
  i_ub :: u64

definition intv_do_intersect :: "intv \<Rightarrow> intv \<Rightarrow> bool" where
  "intv_do_intersect i0 i1 \<longleftrightarrow>
     i_lb i0 \<le> i_lb i1 \<and> i_lb i1 \<le> i_ub i0 \<or> i_lb i1 \<le> i_lb i0 \<and> i_lb i0 \<le> i_ub i1"

definition intv_size :: "intv \<Rightarrow> u64" where
  "intv_size i = i_ub i - i_lb i + 1"

lemma drop_bit_less_u64: "n \<noteq> 0 \<Longrightarrow> unat (drop_bit (Suc 0) n) < unat n" for n :: u64
proof -
  assume "n \<noteq> 0"
  then have "0 < unat n" by (simp add: unat_gt_0)
  then have "unat n div 2 < unat n" by (intro div_less_dividend) simp_all
  then show ?thesis by (simp add: drop_bit_Suc unat_div)
qed

function compute_bits :: "u64 \<Rightarrow> nat" where
  "compute_bits n = (if n \<noteq> 0 then compute_bits (drop_bit 1 n) + 1 else 0)"
  by auto
termination
  by (relation "measure unat") (auto simp: drop_bit_less_u64)

declare compute_bits.simps [simp del]

text \<open>The corner \<open>i\<close> of a box: the upper bound in the dimensions whose bit is set in \<open>i\<close>.\<close>

definition sfc_corner :: "bbox \<Rightarrow> nat \<Rightarrow> u64 list" where
  "sfc_corner bb i =
     fold (\<lambda>j c. if bit i j then c[j := ub bb ! j] else c) [0..<ndims bb]
       (map (\<lambda>k. lb bb ! k) [0..<ndims bb])"

definition flat_step :: "bbox \<Rightarrow> nat \<Rightarrow> nat \<Rightarrow> intv \<Rightarrow> intv" where
  "flat_step bb bpd i itv =
     (let index = hilbert_c2i (ndims bb) bpd (sfc_corner bb i)
      in if index < i_lb itv then itv\<lparr>i_lb := index\<rparr>
         else if index > i_ub itv then itv\<lparr>i_ub := index\<rparr> else itv)"

definition bbox_flat :: "bbox \<Rightarrow> nat \<Rightarrow> intv" where
  "bbox_flat bb bpd = fold (flat_step bb bpd) [0..<2 ^ ndims bb] \<lparr>i_lb = NOT 0, i_ub = 0\<rparr>"

text \<open>
  \<^verbatim>\<open>intv_compact\<close> works in place: \<open>i\<close> is the last entry of the result, \<open>j\<close> the entry read. The table has
  at least one entry, also when \<open>num_itv\<close> is 0.
\<close>

definition compact_step :: "nat \<Rightarrow> intv list \<times> nat \<Rightarrow> intv list \<times> nat" where
  "compact_step j = (\<lambda>(i_tab, i).
     if i_ub (i_tab ! i) + 1 = i_lb (i_tab ! j)
     then (i_tab[i := (i_tab ! i)\<lparr>i_ub := i_ub (i_tab ! j)\<rparr>], i)
     else (i_tab[i + 1 := i_tab ! j], i + 1))"

definition intv_compact :: "intv list \<Rightarrow> nat \<Rightarrow> intv list \<times> nat" where
  "intv_compact i_tab num_itv =
     (let (i_tab, i) = fold compact_step [1..<num_itv] (i_tab, 0) in (i_tab, i + 1))"

text \<open>
  \<^verbatim>\<open>qsort\<close> with \<^verbatim>\<open>intv_compar\<close> sorts by lower bounds; \<^verbatim>\<open>sort_key\<close> is one such order. The table is then
  compacted and cut to the entries in use. \<open>junk\<close> is the memory behind the entries: with no
  interval at all, the compaction still reports one entry, whatever \<open>junk\<close> holds.
\<close>

definition intv_compar :: "intv \<Rightarrow> intv \<Rightarrow> int" where
  "intv_compar i0 i1 = (if i_lb i0 < i_lb i1 then -1 else if i_lb i0 > i_lb i1 then 1 else 0)"

definition sort_compact :: "intv \<Rightarrow> intv list \<Rightarrow> intv list" where
  "sort_compact junk i_tab =
     (let (t, n) = intv_compact (sort_key i_lb i_tab @ [junk]) (length i_tab) in take n t)"

subsection \<open>With queues\<close>

definition virt_box :: "bbox \<Rightarrow> u64 \<Rightarrow> bbox" where
  "virt_box bb mx =
     \<lparr>num_dims = num_dims bb, lb = replicate BBOX_MAX_NDIM 0,
      ub = fold (\<lambda>i c. c[i := mx - 1]) [0..<ndims bb] (replicate BBOX_MAX_NDIM 0)\<rparr>"

fun enqueue_all :: "'a queue \<Rightarrow> 'a list \<Rightarrow> 'a queue option" where
  "enqueue_all q [] = Some q"
| "enqueue_all q (x # xs) = Option.bind (queue_enqueue q x) (\<lambda>q. enqueue_all q xs)"

partial_function (option) intv_loop ::
  "bbox \<Rightarrow> nat \<Rightarrow> bbox queue \<Rightarrow> intv queue \<Rightarrow> bbox list \<Rightarrow> intv queue option" where
  "intv_loop bb bpd q_can q_good b_tab =
     (if queue_is_empty q_can then Some q_good
      else Option.bind (queue_dequeue q_can) (\<lambda>(obj, q_can).
           Option.bind obj (\<lambda>bb_virt.
             if bbox_include bb bb_virt
             then Option.bind (queue_enqueue q_good (bbox_flat bb_virt bpd)) (\<lambda>q_good.
                    intv_loop bb bpd q_can q_good b_tab)
             else if bbox_does_intersect bb bb_virt
             then let b_tab = bbox_divide bb_virt b_tab
                  in Option.bind (enqueue_all q_can (take (2 ^ ndims bb) b_tab)) (\<lambda>q_can.
                       intv_loop bb bpd q_can q_good b_tab)
             else intv_loop bb bpd q_can q_good b_tab)))"

declare intv_loop.simps [code]

definition bbox_to_intv :: "intv \<Rightarrow> bbox \<Rightarrow> u64 \<Rightarrow> nat \<Rightarrow> intv list option" where
  "bbox_to_intv junk bb dim_virt bpd =
     (let bpd = compute_bits dim_virt;
          b_tab = replicate (2 ^ ndims bb)
            \<lparr>num_dims = 0, lb = replicate BBOX_MAX_NDIM 0, ub = replicate BBOX_MAX_NDIM 0\<rparr>
      in Option.bind (queue_enqueue queue_init (virt_box bb dim_virt)) (\<lambda>q_can.
         Option.bind (intv_loop bb bpd q_can queue_init b_tab) (\<lambda>q_good.
         Option.bind (queue_drain q_good []) (\<lambda>i_tab. Some (sort_compact junk i_tab)))))"

subsection \<open>With a ring buffer\<close>

record ring =
  bb_tab :: "bbox list"
  bb_size :: nat
  bb_head :: nat
  bb_tail :: nat

text \<open>
  Growing the ring: the block of the head moves to the front of the new table. The rest of the
  new table is uninitialised.
\<close>

definition ring_grow :: "bbox \<Rightarrow> nat \<Rightarrow> ring \<Rightarrow> ring" where
  "ring_grow junk n r =
     (let tmp_size = bb_size r + bb_size r div 2;
          bb_nsize = tmp_size - tmp_size mod n;
          bb_nhead = bb_head r - bb_head r mod n;
          kept = (if bb_tail r > bb_head r
                  then take (bb_tail r - bb_nhead) (drop bb_nhead (bb_tab r))
                  else take (bb_size r - bb_nhead) (drop bb_nhead (bb_tab r)) @ take (bb_tail r) (bb_tab r))
      in \<lparr>bb_tab = kept @ replicate (bb_nsize - length kept) junk, bb_size = bb_nsize,
          bb_head = bb_head r mod n, bb_tail = bb_size r - n\<rparr>)"

definition ring_divide :: "bbox \<Rightarrow> nat \<Rightarrow> ring \<Rightarrow> ring" where
  "ring_divide junk n r =
     (let r = (if (bb_tail r + n) mod bb_size r = bb_head r - bb_head r mod n then ring_grow junk n r else r);
          pbb = bb_tab r ! bb_head r
      in r\<lparr>bb_tab := take (bb_tail r) (bb_tab r) @ bbox_divide pbb (drop (bb_tail r) (bb_tab r)),
           bb_tail := (bb_tail r + n) mod bb_size r\<rparr>)"

definition ring_next :: "ring \<Rightarrow> ring" where
  "ring_next r = r\<lparr>bb_head := (bb_head r + 1) mod bb_size r\<rparr>"

text \<open>The interval table grows when it is full, so appending to it always succeeds.\<close>

partial_function (option) intv2_loop ::
  "bbox \<Rightarrow> nat \<Rightarrow> bbox \<Rightarrow> ring \<Rightarrow> intv list \<Rightarrow> intv list option" where
  "intv2_loop bb bpd junk r i_tab =
     (if bb_head r = bb_tail r then Some i_tab
      else let pbb = bb_tab r ! bb_head r
           in if bbox_include bb pbb
              then intv2_loop bb bpd junk (ring_next r) (i_tab @ [bbox_flat pbb bpd])
              else if bbox_does_intersect bb pbb
              then intv2_loop bb bpd junk (ring_next (ring_divide junk (2 ^ ndims bb) r)) i_tab
              else intv2_loop bb bpd junk (ring_next r) i_tab)"

declare intv2_loop.simps [code]

definition ring_init :: "bbox \<Rightarrow> bbox \<Rightarrow> u64 \<Rightarrow> ring" where
  "ring_init junk bb n =
     (let pbb = fold (\<lambda>i p. p\<lparr>lb := (lb p)[i := 0], ub := (ub p)[i := n - 1]\<rparr>) [0..<ndims bb]
                  (junk\<lparr>num_dims := num_dims bb\<rparr>)
      in \<lparr>bb_tab = replicate 4095 junk @ [pbb], bb_size = 4096, bb_head = 4095, bb_tail = 0\<rparr>)"

definition bbox_to_intv2 :: "intv \<Rightarrow> bbox \<Rightarrow> bbox \<Rightarrow> u64 \<Rightarrow> nat \<Rightarrow> intv list option" where
  "bbox_to_intv2 ijunk junk bb dim_virt bpd =
     (let bpd = compute_bits dim_virt
      in Option.bind (intv2_loop bb bpd junk (ring_init junk bb dim_virt) []) (\<lambda>i_tab.
           Some (sort_compact ijunk i_tab)))"

section \<open>The decomposition on lists\<close>

text \<open>
  The breadth-first search both routines perform, on boxes reduced to the coordinates in use: it
  collects the boxes inside \<open>bb\<close> and splits those that meet it.
\<close>

definition trim :: "bbox \<Rightarrow> bbox" where
  "trim b = b\<lparr>lb := take (ndims b) (lb b), ub := take (ndims b) (ub b)\<rparr>"

definition child :: "bbox \<Rightarrow> nat \<Rightarrow> bbox" where
  "child b i = \<lparr>num_dims = num_dims b,
     lb = map (\<lambda>j. if bit i j then mid b j + 1 else lb b ! j) [0..<ndims b],
     ub = map (\<lambda>j. if bit i j then ub b ! j else mid b j) [0..<ndims b]\<rparr>"

partial_function (option) decomp :: "bbox \<Rightarrow> bbox list \<Rightarrow> bbox list \<Rightarrow> bbox list option" where
  "decomp bb q good =
     (case q of
        [] \<Rightarrow> Some good
      | b # q \<Rightarrow>
          if bbox_include bb b then decomp bb q (good @ [b])
          else if bbox_does_intersect bb b
          then decomp bb (q @ map (child b) [0..<2 ^ ndims bb]) good
          else decomp bb q good)"

text \<open>Boxes the searches handle: full coordinate arrays, and the dimensionality of \<open>bb\<close>.\<close>

definition box_like :: "bbox \<Rightarrow> bbox \<Rightarrow> bool" where
  "box_like bb b \<longleftrightarrow> wf_bbox b \<and> num_dims b = num_dims bb"

lemma ndims_trim [simp]: "num_dims (trim b) = num_dims b"
  by (simp add: trim_def)

lemma trim_nth:
  "i < ndims b \<Longrightarrow> lb (trim b) ! i = lb b ! i" "i < ndims b \<Longrightarrow> ub (trim b) ! i = ub b ! i"
  by (simp_all add: trim_def)

lemma trim_tests:
  assumes "num_dims b = num_dims bb"
  shows "bbox_include bb (trim b) = bbox_include bb b"
    and "bbox_does_intersect bb (trim b) = bbox_does_intersect bb b"
  using assms by (auto simp: bbox_defs trim_nth)

lemma sfc_corner_alt:
  "sfc_corner bb i = map (\<lambda>j. if bit i j then ub bb ! j else lb bb ! j) [0..<ndims bb]"
proof -
  have "fold (\<lambda>j c. if bit i j then c[j := ub bb ! j] else c) [0..<n] (map (\<lambda>k. lb bb ! k) [0..<m]) =
      map (\<lambda>j. if bit i j \<and> j < n then ub bb ! j else lb bb ! j) [0..<m]" if "n \<le> m" for n m
    using that
  proof (induction n)
    case (Suc n)
    then show ?case
      by (auto intro!: nth_equalityI simp: nth_list_update less_Suc_eq)
  qed simp
  from this [of "ndims bb" "ndims bb"] show ?thesis by (simp add: sfc_corner_def cong: map_cong)
qed

lemma bbox_flat_trim: "bbox_flat (trim b) bpd = bbox_flat b bpd"
proof -
  have "sfc_corner (trim b) i = sfc_corner b i" for i
    by (simp add: sfc_corner_alt trim_nth cong: map_cong)
  then have "flat_step (trim b) bpd = flat_step b bpd" by (intro ext) (simp add: flat_step_def)
  then show ?thesis by (simp add: bbox_flat_def)
qed

lemma mid_trim: "j < ndims b \<Longrightarrow> mid (trim b) j = mid b j"
  by (simp add: mid_def trim_nth)

lemma trim_divide_sub:
  assumes "wf_bbox b" "wf_bbox t"
  shows "trim (bbox_divide_sub b i t) = child (trim b) i"
proof -
  let ?d = "bbox_divide_sub b i t"
  have nd: "num_dims ?d = num_dims b" using assms by (simp add: bbox_divide_sub_sel)
  have l: "length (lb ?d) = 10" "length (ub ?d) = 10" using wf_bbox_divide_sub [OF assms] by simp_all
  have "take (ndims b) (lb ?d) = map (\<lambda>j. if bit i j then mid b j + 1 else lb b ! j) [0..<ndims b]"
    "take (ndims b) (ub ?d) = map (\<lambda>j. if bit i j then ub b ! j else mid b j) [0..<ndims b]"
    using assms l wf_bboxD(3) [OF assms(1)] by (auto intro!: nth_equalityI simp: bbox_divide_sub_sel)
  then show ?thesis
    using nd assms by (simp add: trim_def child_def bbox_divide_sub_alt mid_def cong: map_cong)
qed

lemma divide_children:
  assumes "box_like bb b" "length tab \<ge> 2 ^ ndims bb" "list_all wf_bbox tab"
  shows "list_all (box_like bb) (take (2 ^ ndims bb) (bbox_divide b tab))"
    and "map trim (take (2 ^ ndims bb) (bbox_divide b tab)) = map (child (trim b)) [0..<2 ^ ndims bb]"
    and "length (bbox_divide b tab) = length tab" "list_all wf_bbox (bbox_divide b tab)"
    and "drop (2 ^ ndims bb) (bbox_divide b tab) = drop (2 ^ ndims bb) tab"
proof -
  have b: "wf_bbox b" "num_dims b = num_dims bb" using assms(1) by (auto simp: box_like_def)
  have t: "wf_bbox (tab ! i)" if "i < 2 ^ ndims bb" for i
    using that assms(2,3) by (auto simp: list_all_length)
  have d: "bbox_divide b tab = map (\<lambda>i. bbox_divide_sub b i (tab ! i)) [0..<2 ^ ndims bb] @ drop (2 ^ ndims bb) tab"
    using b(2) by (simp add: bbox_divide_def)
  show "list_all (box_like bb) (take (2 ^ ndims bb) (bbox_divide b tab))"
    using b t by (simp add: d list_all_iff box_like_def wf_bbox_divide_sub bbox_divide_sub_sel)
  show "map trim (take (2 ^ ndims bb) (bbox_divide b tab)) = map (child (trim b)) [0..<2 ^ ndims bb]"
    using b(1) t by (simp add: d trim_divide_sub)
  show "length (bbox_divide b tab) = length tab" using assms(2) by (simp add: d)
  show "list_all wf_bbox (bbox_divide b tab)"
    using b(1) t assms(3) by (auto simp: d list_all_iff wf_bbox_divide_sub dest: in_set_dropD)
  show "drop (2 ^ ndims bb) (bbox_divide b tab) = drop (2 ^ ndims bb) tab" by (simp add: d)
qed

section \<open>The queue version computes the decomposition\<close>

lemma enqueue_all_ok: "queue_holds q ys \<Longrightarrow> \<exists>q'. enqueue_all q xs = Some q' \<and> queue_holds q' (ys @ xs)"
proof (induction xs arbitrary: q ys)
  case (Cons x xs)
  obtain q1 where "queue_enqueue q x = Some q1" "queue_holds q1 (ys @ [x])"
    using queue_holds_enqueue [OF Cons.prems, of x] by blast
  with Cons.IH [of q1 "ys @ [x]"] show ?case by simp
qed simp

lemma decomp_simps:
  "decomp bb [] good = Some good"
  "bbox_include bb b \<Longrightarrow> decomp bb (b # q) good = decomp bb q (good @ [b])"
  "\<not> bbox_include bb b \<Longrightarrow> bbox_does_intersect bb b \<Longrightarrow>
     decomp bb (b # q) good = decomp bb (q @ map (child b) [0..<2 ^ ndims bb]) good"
  "\<not> bbox_include bb b \<Longrightarrow> \<not> bbox_does_intersect bb b \<Longrightarrow> decomp bb (b # q) good = decomp bb q good"
  by (simp_all add: decomp.simps)

lemma decomp_induct [consumes 1, case_names nil inc int out]:
  assumes "decomp bb q good = Some g"
    and "\<And>good. P [] good good"
    and "\<And>b q good g. bbox_include bb b \<Longrightarrow> P q (good @ [b]) g \<Longrightarrow> P (b # q) good g"
    and "\<And>b q good g. \<not> bbox_include bb b \<Longrightarrow> bbox_does_intersect bb b \<Longrightarrow>
      P (q @ map (child b) [0..<2 ^ ndims bb]) good g \<Longrightarrow> P (b # q) good g"
    and "\<And>b q good g. \<not> bbox_include bb b \<Longrightarrow> \<not> bbox_does_intersect bb b \<Longrightarrow> P q good g \<Longrightarrow> P (b # q) good g"
  shows "P q good g"
proof -
  have "bb' = bb \<longrightarrow> P q good g" if "decomp bb' q good = Some g" for bb'
    using that
  proof (rule decomp.raw_induct [rotated])
    fix dec bb' q good g
    assume ih: "\<And>bb' q good g. dec bb' q good = Some g \<Longrightarrow> bb' = bb \<longrightarrow> P q good g"
      and step: "(case q of [] \<Rightarrow> Some good
        | b # q \<Rightarrow> if bbox_include bb' b then dec bb' q (good @ [b])
            else if bbox_does_intersect bb' b then dec bb' (q @ map (child b) [0..<2 ^ ndims bb']) good
            else dec bb' q good) = Some g"
    show "bb' = bb \<longrightarrow> P q good g"
      using step ih assms(2-) by (auto split: list.splits if_splits)
  qed
  with assms(1) show ?thesis by blast
qed

lemma intv_loop_decomp:
  assumes "decomp bb q good = Some g"
  shows "queue_holds qc xs \<Longrightarrow> q = map trim xs \<Longrightarrow> list_all (box_like bb) xs \<Longrightarrow>
    length b_tab = 2 ^ ndims bb \<Longrightarrow> list_all wf_bbox b_tab \<Longrightarrow>
    queue_holds qg (map (\<lambda>b. bbox_flat b bpd) good) \<Longrightarrow>
    \<exists>q'. intv_loop bb bpd qc qg b_tab = Some q' \<and> queue_holds q' (map (\<lambda>b. bbox_flat b bpd) g)"
  using assms
proof (induction arbitrary: qc xs b_tab qg rule: decomp_induct)
  case (nil good)
  then show ?case by (simp add: intv_loop.simps queue_holds_empty)
next
  case (inc b q good g)
  then obtain x xs' where xs: "xs = x # xs'" "b = trim x" "q = map trim xs'" by auto
  then have x: "num_dims x = num_dims bb" using inc.prems(3) by (simp add: box_like_def)
  obtain q1 where q1: "queue_dequeue qc = Some (Some x, q1)" "queue_holds q1 xs'"
    using queue_holds_dequeue [OF inc.prems(1) [unfolded xs(1)]] by blast
  obtain q2 where q2: "queue_enqueue qg (bbox_flat x bpd) = Some q2"
    "queue_holds q2 (map (\<lambda>b. bbox_flat b bpd) (good @ [b]))"
    using queue_holds_enqueue [OF inc.prems(6)] xs(2) by (auto simp: bbox_flat_trim)
  have "\<not> queue_is_empty qc" "bbox_include bb x" "list_all (box_like bb) xs'"
    using inc.prems(1,3) inc.hyps xs x by (simp_all add: queue_holds_empty trim_tests)
  with inc.IH [OF q1(2) xs(3) _ inc.prems(4,5) q2(2)] q1(1) q2(1) show ?case
    by (subst intv_loop.simps) simp
next
  case (int b q good g)
  then obtain x xs' where xs: "xs = x # xs'" "b = trim x" "q = map trim xs'" by auto
  then have x: "box_like bb x" "num_dims x = num_dims bb" using int.prems(3) by (simp_all add: box_like_def)
  obtain q1 where q1: "queue_dequeue qc = Some (Some x, q1)" "queue_holds q1 xs'"
    using queue_holds_dequeue [OF int.prems(1) [unfolded xs(1)]] by blast
  note dc = divide_children [OF x(1) eq_refl [OF int.prems(4) [symmetric]] int.prems(5)]
  let ?tab = "bbox_divide x b_tab"
  have take: "take (2 ^ ndims bb) ?tab = ?tab" using dc(3) int.prems(4) by simp
  obtain q2 where q2: "enqueue_all q1 ?tab = Some q2" "queue_holds q2 (xs' @ ?tab)"
    using enqueue_all_ok [OF q1(2)] by blast
  have "q @ map (child b) [0..<2 ^ ndims bb] = map trim (xs' @ ?tab)"
    using xs dc(2) unfolding take by simp
  moreover have "\<not> queue_is_empty qc" "\<not> bbox_include bb x" "bbox_does_intersect bb x"
    "list_all (box_like bb) (xs' @ ?tab)"
    using int.prems(1,3) int.hyps xs x(2) dc(1) unfolding take by (simp_all add: queue_holds_empty trim_tests)
  ultimately show ?case
    using int.IH [OF q2(2) _ _ _ dc(4) int.prems(6)] q1(1) q2(1) dc(3) int.prems(4)
    by (subst intv_loop.simps) (simp add: Let_def take)
next
  case (out b q good g)
  then obtain x xs' where xs: "xs = x # xs'" "b = trim x" "q = map trim xs'" by auto
  then have x: "num_dims x = num_dims bb" using out.prems(3) by (simp add: box_like_def)
  obtain q1 where q1: "queue_dequeue qc = Some (Some x, q1)" "queue_holds q1 xs'"
    using queue_holds_dequeue [OF out.prems(1) [unfolded xs(1)]] by blast
  have "\<not> queue_is_empty qc" "\<not> bbox_include bb x" "\<not> bbox_does_intersect bb x" "list_all (box_like bb) xs'"
    using out.prems(1,3) out.hyps xs x by (simp_all add: queue_holds_empty trim_tests)
  with out.IH [OF q1(2) xs(3) _ out.prems(4-6)] q1(1) show ?case
    by (subst intv_loop.simps) simp
qed

section \<open>The ring buffer computes the decomposition\<close>

text \<open>
  The ring in blocks of \<open>n\<close> boxes: the block of the head starts at \<open>bh\<close>, the head is \<open>h0\<close> boxes into
  it, and the boxes up to the tail are the \<open>u\<close> boxes from \<open>bh\<close> on, modulo the size. One block is
  always free.
\<close>

definition ring_rep :: "nat \<Rightarrow> ring \<Rightarrow> nat \<Rightarrow> nat \<Rightarrow> nat \<Rightarrow> bool" where
  "ring_rep n r bh u h0 \<longleftrightarrow> 0 < n \<and> n dvd bb_size r \<and> 2 * n \<le> bb_size r \<and>
     length (bb_tab r) = bb_size r \<and> list_all wf_bbox (bb_tab r) \<and>
     n dvd bh \<and> bh < bb_size r \<and> n dvd u \<and> u + n \<le> bb_size r \<and>
     h0 < n \<and> (h0 < u \<or> u = 0 \<and> h0 = 0) \<and>
     bb_head r = bh + h0 \<and> bb_tail r = (bh + u) mod bb_size r"

definition ring_slots :: "ring \<Rightarrow> nat \<Rightarrow> nat list \<Rightarrow> bbox list" where
  "ring_slots r bh is = map (\<lambda>i. bb_tab r ! ((bh + i) mod bb_size r)) is"

definition ring_holds :: "nat \<Rightarrow> ring \<Rightarrow> bbox list \<Rightarrow> bool" where
  "ring_holds n r xs \<longleftrightarrow> (\<exists>bh u h0. ring_rep n r bh u h0 \<and> xs = ring_slots r bh [h0..<u])"

lemma block_bound:
  fixes n a b :: nat
  assumes "n dvd a" "n dvd b" "a < b"
  shows "a + n \<le> b"
proof -
  from assms(1,2) have "n dvd b - a" by (simp add: dvd_diff_nat)
  then have "n \<le> b - a" using assms(3) by (intro dvd_imp_le) simp_all
  then show ?thesis using assms(3) by simp
qed

lemma ring_repD:
  assumes "ring_rep n r bh u h0"
  shows "0 < n" "n dvd bb_size r" "2 * n \<le> bb_size r" "length (bb_tab r) = bb_size r"
    "list_all wf_bbox (bb_tab r)" "n dvd bh" "bh < bb_size r" "n dvd u" "u + n \<le> bb_size r" "h0 < n"
    "h0 < u \<or> u = 0 \<and> h0 = 0" "bb_head r = bh + h0" "bb_tail r = (bh + u) mod bb_size r"
    "bh + h0 < bb_size r" "bb_head r - bb_head r mod n = bh" "bb_head r mod n = h0"
proof -
  show base: "0 < n" "n dvd bb_size r" "2 * n \<le> bb_size r" "length (bb_tab r) = bb_size r"
    "list_all wf_bbox (bb_tab r)" "n dvd bh" "bh < bb_size r" "n dvd u" "u + n \<le> bb_size r" "h0 < n"
    "h0 < u \<or> u = 0 \<and> h0 = 0" "bb_head r = bh + h0" "bb_tail r = (bh + u) mod bb_size r"
    using assms by (auto simp: ring_rep_def)
  show "bh + h0 < bb_size r" using block_bound [OF base(6,2,7)] base(10) by simp
  show "bb_head r mod n = h0" using base by (auto simp: mod_add_eq elim!: dvdE)
  then show "bb_head r - bb_head r mod n = bh" using base by simp
qed

lemma ring_empty_iff:
  assumes "ring_holds n r xs"
  shows "bb_head r = bb_tail r \<longleftrightarrow> xs = []"
proof -
  obtain bh u h0 where rep: "ring_rep n r bh u h0" and xs: "xs = ring_slots r bh [h0..<u]"
    using assms by (auto simp: ring_holds_def)
  note d = ring_repD [OF rep]
  show ?thesis
  proof (cases "h0 < u")
    case True
    have "(bh + u) mod bb_size r \<noteq> bh + h0"
    proof
      assume eq: "(bh + u) mod bb_size r = bh + h0"
      then have "(bh + u) mod bb_size r = (bh + h0) mod bb_size r" using d(14) by simp
      then have "bb_size r dvd (bh + u) - (bh + h0)" using True by (subst (asm) mod_eq_dvd_iff_nat) auto
      then have "bb_size r \<le> u - h0" using True by (intro dvd_imp_le) auto
      then show False using d(1,9) by simp
    qed
    with True d xs show ?thesis by (auto simp: ring_slots_def)
  next
    case False
    with d xs show ?thesis by (auto simp: ring_slots_def)
  qed
qed

lemma ring_hd:
  assumes "ring_holds n r (x # xs)"
  shows "bb_tab r ! bb_head r = x" "wf_bbox x"
proof -
  obtain bh u h0 where rep: "ring_rep n r bh u h0" and xs: "x # xs = ring_slots r bh [h0..<u]"
    using assms by (auto simp: ring_holds_def)
  note d = ring_repD [OF rep]
  have "h0 < u" using xs by (cases "h0 < u") (auto simp: ring_slots_def)
  then have "[h0..<u] = h0 # [Suc h0..<u]" by (rule upt_conv_Cons)
  with xs d show x: "bb_tab r ! bb_head r = x" by (simp add: ring_slots_def)
  show "wf_bbox x" using d(4,5,12,14) by (auto simp: x [symmetric] list_all_length)
qed

lemma ring_next_ok:
  assumes "ring_holds n r (x # xs)"
  shows "ring_holds n (ring_next r) xs"
proof -
  obtain bh u h0 where rep: "ring_rep n r bh u h0" and xs: "x # xs = ring_slots r bh [h0..<u]"
    using assms by (auto simp: ring_holds_def)
  note d = ring_repD [OF rep]
  have hu: "h0 < u" using xs by (cases "h0 < u") (auto simp: ring_slots_def)
  then have xs': "xs = ring_slots r bh [Suc h0..<u]"
    using xs by (simp add: ring_slots_def upt_conv_Cons)
  have un: "n \<le> u" using d(8) hu by (auto intro: dvd_imp_le)
  have same: "bb_tab (ring_next r) = bb_tab r" "bb_size (ring_next r) = bb_size r"
    "bb_tail (ring_next r) = bb_tail r" "bb_head (ring_next r) = (bh + h0 + 1) mod bb_size r"
    using d(12) by (simp_all add: ring_next_def)
  show ?thesis
  proof (cases "Suc h0 < n")
    case True
    have "bh + h0 + 1 < bb_size r" using block_bound [OF d(6,2,7)] True by simp
    then have "ring_rep n (ring_next r) bh u (Suc h0)"
      using rep True un unfolding ring_rep_def same by simp
    then show ?thesis
      unfolding ring_holds_def using xs' by (auto simp: ring_slots_def same)
  next
    case False
    then have h0: "Suc h0 = n" using d(10) by simp
    let ?bh = "(bh + n) mod bb_size r"
    have dvd: "n dvd ?bh" using d(2,6) by (simp add: dvd_mod)
    have "(?bh + (u - n)) mod bb_size r = (bh + n + (u - n)) mod bb_size r" by (rule mod_add_left_eq)
    then have tail: "(bh + u) mod bb_size r = (?bh + (u - n)) mod bb_size r" using un by simp
    have "ring_rep n (ring_next r) ?bh (u - n) 0"
      unfolding ring_rep_def same using d un h0 dvd tail
      by (auto simp: dvd_diff_nat add.assoc)
    moreover have "xs = ring_slots (ring_next r) ?bh [0..<u - n]"
    proof -
      have "[Suc h0..<u] = map (\<lambda>i. i + n) [0..<u - n]"
        using h0 un by (simp add: map_add_upt)
      then show ?thesis
        unfolding xs' ring_slots_def same by (simp add: mod_add_left_eq add.assoc add.commute [of n])
    qed
    ultimately show ?thesis unfolding ring_holds_def by blast
  qed
qed

lemma ring_grow_ok:
  assumes rep: "ring_rep n r bh u h0" and full: "u + n = bb_size r" and hu: "h0 < u" and junk: "wf_bbox junk"
  shows "ring_rep n (ring_grow junk n r) 0 u h0"
    and "ring_slots (ring_grow junk n r) 0 [h0..<u] = ring_slots r bh [h0..<u]"
    and "u + 2 * n \<le> bb_size (ring_grow junk n r)"
proof -
  note d = ring_repD [OF rep]
  let ?sz = "bb_size r" and ?tab = "bb_tab r"
  let ?tmp = "bb_size r + bb_size r div 2"
  define nsize where "nsize = ?tmp - ?tmp mod n"
  define kept where "kept = (if bb_tail r > bb_head r then take (bb_tail r - bh) (drop bh ?tab)
      else take (?sz - bh) (drop bh ?tab) @ take (bb_tail r) ?tab)"
  have g: "ring_grow junk n r =
      \<lparr>bb_tab = kept @ replicate (nsize - length kept) junk, bb_size = nsize, bb_head = h0, bb_tail = u\<rparr>"
    using full d(15,16) by (simp add: ring_grow_def Let_def nsize_def kept_def)
  have un: "n \<le> u" using d(8) hu by (auto intro: dvd_imp_le)
  have kept: "length kept = u" "i < u \<Longrightarrow> kept ! i = ?tab ! ((bh + i) mod ?sz)" for i
  proof -
    have "length kept = u \<and> (\<forall>i<u. kept ! i = ?tab ! ((bh + i) mod ?sz))"
    proof (cases "bh = 0")
      case True
      then have "bb_tail r = u" "bb_head r < bb_tail r" using d full hu by simp_all
      with True d(1,4,9) show ?thesis by (simp add: kept_def)
    next
      case False
      then have "n \<le> bh" using d(6) by (auto intro: dvd_imp_le)
      then have "bh + u = (bh - n) + ?sz" using full by simp
      moreover have "bh - n < ?sz" using d(7) by simp
      ultimately have t: "bb_tail r = bh - n" using d(13) by simp
      then have k: "kept = drop bh ?tab @ take (bh - n) ?tab" using d(4,12) by (simp add: kept_def)
      have len: "length kept = u" using d(4,7) full \<open>n \<le> bh\<close> by (simp add: k)
      have "kept ! i = ?tab ! ((bh + i) mod ?sz)" if "i < u" for i
      proof (cases "bh + i < ?sz")
        case True
        then show ?thesis using d(4) by (simp add: k nth_append)
      next
        case False
        then have m: "(bh + i) mod ?sz = bh + i - ?sz" using that d(7) full by (simp add: le_mod_geq)
        have "bh + i - ?sz < bh - n" using that full False \<open>n \<le> bh\<close> by simp
        then show ?thesis using False d(4,7) by (simp add: k nth_append m add.commute)
      qed
      with len show ?thesis by simp
    qed
    then show "length kept = u" "i < u \<Longrightarrow> kept ! i = ?tab ! ((bh + i) mod ?sz)" by auto
  qed
  have "?sz + n \<le> ?tmp" using d(3) by simp
  then have "(?sz + n) div n \<le> ?tmp div n" by (rule div_le_mono)
  moreover have "nsize = ?tmp div n * n" using minus_mod_eq_div_mult [of ?tmp n] by (simp add: nsize_def)
  moreover have "(?sz + n) div n * n = ?sz + n" using d(2) by (intro dvd_div_mult_self) simp
  ultimately have ns: "?sz + n \<le> nsize" "n dvd nsize" by (metis mult_le_mono1, simp)
  have wf: "list_all wf_bbox (bb_tab (ring_grow junk n r))"
    using d(5) junk by (auto simp: g kept_def list_all_iff dest: in_set_takeD in_set_dropD)
  show "ring_rep n (ring_grow junk n r) 0 u h0"
    unfolding ring_rep_def using d ns full hu kept(1) wf un by (auto simp: g)
  show "ring_slots (ring_grow junk n r) 0 [h0..<u] = ring_slots r bh [h0..<u]"
    using kept ns full by (auto simp: ring_slots_def g nth_append)
  show "u + 2 * n \<le> bb_size (ring_grow junk n r)" using ns full by (simp add: g)
qed

lemma ring_append:
  assumes rep: "ring_rep n r bh u h0" and room: "u + 2 * n \<le> bb_size r" and hu: "h0 < u"
    and like: "box_like bb x" and n: "n = 2 ^ ndims bb"
  defines "r' \<equiv> r\<lparr>bb_tab := take (bb_tail r) (bb_tab r) @ bbox_divide x (drop (bb_tail r) (bb_tab r)),
     bb_tail := (bb_tail r + n) mod bb_size r\<rparr>"
  shows "\<exists>ys. ring_rep n r' bh (u + n) h0 \<and> ring_slots r' bh [h0..<u + n] = ring_slots r bh [h0..<u] @ ys \<and>
    list_all (box_like bb) ys \<and> map trim ys = map (child (trim x)) [0..<2 ^ ndims bb]"
proof -
  note d = ring_repD [OF rep]
  let ?t = "bb_tail r" and ?sz = "bb_size r"
  have t: "n dvd ?t" "?t < ?sz" using d by (auto simp: dvd_mod)
  have tn: "?t + n \<le> ?sz" using block_bound [OF t(1) d(2) t(2)] .
  have wfd: "list_all wf_bbox (drop ?t (bb_tab r))" using d(5) by (auto simp: list_all_iff dest: in_set_dropD)
  have long: "length (drop ?t (bb_tab r)) \<ge> 2 ^ ndims bb" using tn d(4) n by simp
  note dc = divide_children [OF like long wfd]
  let ?new = "bbox_divide x (drop ?t (bb_tab r))"
  have tab: "bb_tab r' = take ?t (bb_tab r) @ ?new" "bb_size r' = ?sz" "bb_head r' = bb_head r"
    "bb_tail r' = (?t + n) mod ?sz" by (simp_all add: r'_def)
  have keep: "bb_tab r' ! i = bb_tab r ! i" if "i < ?sz" "i < ?t \<or> ?t + n \<le> i" for i
  proof (cases "i < ?t")
    case True
    then show ?thesis using t d(4) by (simp add: tab nth_append)
  next
    case False
    then have "i - ?t = n + (i - ?t - n)" "?t + n \<le> i" using that by auto
    then have "?new ! (i - ?t) = drop n ?new ! (i - ?t - n)" using dc(3) that(1) d(4) n by (simp add: nth_drop)
    also have "\<dots> = bb_tab r ! i" using dc(5) n that False d(4) by (simp add: nth_drop)
    finally show ?thesis using False t d(4) by (simp add: tab nth_append)
  qed
  have new: "bb_tab r' ! (?t + i) = take n ?new ! i" if "i < n" for i
    using that t d(4) by (simp add: tab nth_append)
  have slot_t: "(bh + (u + i)) mod ?sz = ?t + i" if "i < n" for i
  proof -
    have "(bh + (u + i)) mod ?sz = (?t + i) mod ?sz" by (simp add: d(13) mod_add_left_eq add.assoc)
    then show ?thesis using that tn by simp
  qed
  have old: "bb_tab r' ! ((bh + i) mod ?sz) = bb_tab r ! ((bh + i) mod ?sz)" if "i < u" for i
  proof (rule keep)
    show "(bh + i) mod ?sz < ?sz" using d(7) by simp
    show "(bh + i) mod ?sz < ?t \<or> ?t + n \<le> (bh + i) mod ?sz"
    proof (rule ccontr)
      assume "\<not> ?thesis"
      then obtain k where k: "k < n" "(bh + i) mod ?sz = ?t + k" by (metis add_diff_inverse_nat nat_add_left_cancel_less not_le)
      then have "(bh + (u + k)) mod ?sz = (bh + i) mod ?sz" by (simp add: slot_t)
      then have "?sz dvd (bh + (u + k)) - (bh + i)" using that by (subst (asm) mod_eq_dvd_iff_nat) auto
      then have "?sz \<le> u + k - i" using that by (intro dvd_imp_le) auto
      then show False using k(1) d(9) by simp
    qed
  qed
  have len: "length (bb_tab r') = ?sz" using t d(4) dc(3) by (simp add: tab)
  have wf: "list_all wf_bbox (bb_tab r')" using d(5) dc(4) by (auto simp: tab list_all_iff dest: in_set_takeD)
  have "bb_tail r' = (bh + (u + n)) mod ?sz" by (simp add: tab d(13) mod_add_left_eq add.assoc)
  then have "ring_rep n r' bh (u + n) h0"
    unfolding ring_rep_def using d room len wf hu by (auto simp: tab)
  moreover have "ring_slots r' bh [h0..<u + n] = ring_slots r bh [h0..<u] @ take n ?new"
  proof -
    have "[h0..<u + n] = [h0..<u] @ map (\<lambda>i. u + i) [0..<n]"
      using hu upt_add_eq_append [of h0 u n] by (simp add: map_add_upt add.commute [of u] less_imp_le)
    moreover have "map (\<lambda>i. bb_tab r' ! ((bh + (u + i)) mod ?sz)) [0..<n] = take n ?new"
    proof (rule nth_equalityI)
      show "length (map (\<lambda>i. bb_tab r' ! ((bh + (u + i)) mod ?sz)) [0..<n]) = length (take n ?new)"
        using dc(3) long n by simp
    qed (simp add: slot_t new)
    ultimately show ?thesis using old by (simp add: ring_slots_def tab comp_def)
  qed
  ultimately show ?thesis using dc(1,2) n by blast
qed

lemma ring_divide_ok:
  assumes "ring_holds n r (x # xs)" "box_like bb x" "n = 2 ^ ndims bb" "wf_bbox junk"
  shows "\<exists>ys. ring_holds n (ring_divide junk n r) (x # xs @ ys) \<and> list_all (box_like bb) ys \<and>
    map trim ys = map (child (trim x)) [0..<2 ^ ndims bb]"
proof -
  obtain bh u h0 where rep: "ring_rep n r bh u h0" and xs: "x # xs = ring_slots r bh [h0..<u]"
    using assms(1) by (auto simp: ring_holds_def)
  note d = ring_repD [OF rep]
  have hu: "h0 < u" using xs by (cases "h0 < u") (auto simp: ring_slots_def)
  have un: "n \<le> u" using d(8) hu by (auto intro: dvd_imp_le)
  define r1 where "r1 = (if (bb_tail r + n) mod bb_size r = bh then ring_grow junk n r else r)"
  have full: "(bb_tail r + n) mod bb_size r = bh \<longleftrightarrow> u + n = bb_size r"
  proof -
    have m: "(bb_tail r + n) mod bb_size r = (bh + (u + n)) mod bb_size r"
      by (simp add: d(13) mod_add_left_eq add.assoc)
    show ?thesis
    proof
      assume "(bb_tail r + n) mod bb_size r = bh"
      then have "(bh + (u + n)) mod bb_size r = bh mod bb_size r" using m d(7) by simp
      then have "bb_size r dvd (bh + (u + n)) - bh" by (subst (asm) mod_eq_dvd_iff_nat) auto
      then have "bb_size r \<le> u + n" using d(1) by (intro dvd_imp_le) auto
      then show "u + n = bb_size r" using d(9) by simp
    qed (use m d(7) in simp)
  qed
  obtain bh1 where r1: "ring_rep n r1 bh1 u h0" "ring_slots r1 bh1 [h0..<u] = x # xs"
    "u + 2 * n \<le> bb_size r1"
  proof (cases "u + n = bb_size r")
    case True
    then show thesis
      using that [of 0] ring_grow_ok [OF rep True hu assms(4)] full xs by (simp add: r1_def)
  next
    case False
    then have "u + n < bb_size r" using d(9) by simp
    from block_bound [OF _ d(2) this] d(8) have "u + n + n \<le> bb_size r" by simp
    then show thesis using that [of bh] rep full False xs by (simp add: r1_def)
  qed
  have hd: "bb_tab r1 ! bb_head r1 = x"
    using r1(1) r1(2) [symmetric] by (intro ring_hd(1) [of n r1 x xs]) (unfold ring_holds_def, blast)
  have div: "ring_divide junk n r =
      r1\<lparr>bb_tab := take (bb_tail r1) (bb_tab r1) @ bbox_divide x (drop (bb_tail r1) (bb_tab r1)),
         bb_tail := (bb_tail r1 + n) mod bb_size r1\<rparr>"
    unfolding ring_divide_def d(15) r1_def [symmetric] Let_def hd ..
  from ring_append [OF r1(1,3) hu assms(2,3)] obtain ys where
    "ring_rep n (ring_divide junk n r) bh1 (u + n) h0"
    "ring_slots (ring_divide junk n r) bh1 [h0..<u + n] = (x # xs) @ ys"
    "list_all (box_like bb) ys" "map trim ys = map (child (trim x)) [0..<2 ^ ndims bb]"
    unfolding div r1(2) by blast
  then show ?thesis unfolding ring_holds_def by (metis append_Cons)
qed

lemma intv2_loop_decomp:
  assumes "decomp bb q good = Some g" "wf_bbox junk"
  shows "ring_holds (2 ^ ndims bb) r xs \<Longrightarrow> q = map trim xs \<Longrightarrow> list_all (box_like bb) xs \<Longrightarrow>
    intv2_loop bb bpd junk r (map (\<lambda>b. bbox_flat b bpd) good) = Some (map (\<lambda>b. bbox_flat b bpd) g)"
  using assms(1)
proof (induction arbitrary: r xs rule: decomp_induct)
  case (nil good)
  then have "bb_head r = bb_tail r" using ring_empty_iff [OF nil.prems(1)] by simp
  then show ?case by (subst intv2_loop.simps) simp
next
  case (inc b q good g)
  then obtain x xs' where xs: "xs = x # xs'" "b = trim x" "q = map trim xs'" by auto
  then have x: "num_dims x = num_dims bb" using inc.prems(3) by (simp add: box_like_def)
  note rh = inc.prems(1) [unfolded xs(1)]
  have "bb_head r \<noteq> bb_tail r" "bbox_include bb x" "list_all (box_like bb) xs'"
    using ring_empty_iff [OF rh] inc.prems(3) inc.hyps xs x by (simp_all add: trim_tests)
  with inc.IH [OF ring_next_ok [OF rh] xs(3)] ring_hd(1) [OF rh] xs(2) show ?case
    by (subst intv2_loop.simps) (simp add: Let_def bbox_flat_trim)
next
  case (int b q good g)
  then obtain x xs' where xs: "xs = x # xs'" "b = trim x" "q = map trim xs'" by auto
  then have x: "box_like bb x" "num_dims x = num_dims bb" using int.prems(3) by (simp_all add: box_like_def)
  note rh = int.prems(1) [unfolded xs(1)]
  obtain ys where ys: "ring_holds (2 ^ ndims bb) (ring_divide junk (2 ^ ndims bb) r) (x # xs' @ ys)"
    "list_all (box_like bb) ys" "map trim ys = map (child (trim x)) [0..<2 ^ ndims bb]"
    using ring_divide_ok [OF rh x(1) refl assms(2)] by blast
  have "bb_head r \<noteq> bb_tail r" "\<not> bbox_include bb x" "bbox_does_intersect bb x"
    "list_all (box_like bb) (xs' @ ys)" "q @ map (child b) [0..<2 ^ ndims bb] = map trim (xs' @ ys)"
    using ring_empty_iff [OF rh] int.prems(3) int.hyps xs x ys(2,3) by (simp_all add: trim_tests)
  with int.IH [OF ring_next_ok [OF ys(1)]] ring_hd(1) [OF rh] show ?case
    by (subst intv2_loop.simps) (simp add: Let_def)
next
  case (out b q good g)
  then obtain x xs' where xs: "xs = x # xs'" "b = trim x" "q = map trim xs'" by auto
  then have x: "num_dims x = num_dims bb" using out.prems(3) by (simp add: box_like_def)
  note rh = out.prems(1) [unfolded xs(1)]
  have "bb_head r \<noteq> bb_tail r" "\<not> bbox_include bb x" "\<not> bbox_does_intersect bb x" "list_all (box_like bb) xs'"
    using ring_empty_iff [OF rh] out.prems(3) out.hyps xs x by (simp_all add: trim_tests)
  with out.IH [OF ring_next_ok [OF rh] xs(3)] ring_hd(1) [OF rh] show ?case
    by (subst intv2_loop.simps) (simp add: Let_def)
qed

section \<open>Cubes whose side is a power of two\<close>

definition cube :: "nat \<Rightarrow> bbox \<Rightarrow> bool" where
  "cube k b \<longleftrightarrow> length (lb b) = ndims b \<and> length (ub b) = ndims b \<and>
     (\<forall>j<ndims b. 2 ^ k dvd unat (lb b ! j) \<and> unat (ub b ! j) + 1 = unat (lb b ! j) + 2 ^ k \<and>
        unat (ub b ! j) < 9223372036854775808)"

lemma cube_box:
  assumes "cube k b"
  shows "nonempty_bbox b" "safe_bbox b"
proof -
  have "unat (lb b ! j) \<le> unat (ub b ! j)" if "j < ndims b" for j
  proof -
    have "unat (ub b ! j) + 1 = unat (lb b ! j) + 2 ^ k" using assms that by (simp add: cube_def)
    moreover have "(1::nat) \<le> 2 ^ k" by simp
    ultimately show ?thesis by linarith
  qed
  note le = this
  then show "nonempty_bbox b" by (simp add: nonempty_bbox_def word_le_nat_alt)
  have "unat (lb b ! j) + unat (ub b ! j) < 18446744073709551616" if "j < ndims b" for j
  proof -
    have "unat (ub b ! j) < 9223372036854775808" using assms that by (simp add: cube_def)
    with le [OF that] show ?thesis by linarith
  qed
  then show "safe_bbox b" by (simp add: safe_bbox_def)
qed

lemma child_sel:
  "num_dims (child b i) = num_dims b"
  "j < ndims b \<Longrightarrow> lb (child b i) ! j = (if bit i j then mid b j + 1 else lb b ! j)"
  "j < ndims b \<Longrightarrow> ub (child b i) ! j = (if bit i j then ub b ! j else mid b j)"
  by (simp_all add: child_def)

lemma points_child:
  assumes "nonempty_bbox b" "safe_bbox b"
  shows "points (child b i) = {p \<in> points b. \<forall>j<ndims b. bit i j \<longleftrightarrow> mid b j < p ! j}"
proof -
  have dim: "(lb (child b i) ! j \<le> x \<and> x \<le> ub (child b i) ! j) \<longleftrightarrow>
      (lb b ! j \<le> x \<and> x \<le> ub b ! j) \<and> (bit i j \<longleftrightarrow> mid b j < x)" if "j < ndims b" for j x
  proof -
    note mp = mid_props(1,2,4) [OF assms that]
    show ?thesis
      using mp(1,2) by (cases "bit i j") (auto simp: child_sel that mp(3) not_less intro: order_trans less_imp_le)
  qed
  show ?thesis unfolding points_def child_sel(1) by (auto simp: dim)
qed

lemma cube_child:
  assumes "cube (Suc k) b"
  shows "cube k (child b i)"
proof -
  have "2 ^ k dvd unat (lb (child b i) ! j) \<and>
      unat (ub (child b i) ! j) + 1 = unat (lb (child b i) ! j) + 2 ^ k \<and>
      unat (ub (child b i) ! j) < 9223372036854775808" if j: "j < ndims b" for j
  proof -
    have b: "2 ^ Suc k dvd unat (lb b ! j)" "unat (ub b ! j) + 1 = unat (lb b ! j) + 2 ^ Suc k"
      "unat (ub b ! j) < 9223372036854775808" using assms j by (auto simp: cube_def)
    have "unat (lb b ! j) + unat (ub b ! j) < 18446744073709551616"
      using cube_box(2) [OF assms] j by (simp add: safe_bbox_def)
    then have "unat (mid b j) = (unat (lb b ! j) + unat (ub b ! j)) div 2"
      unfolding mid_def by (rule unat_mid_u64)
    also have "\<dots> = unat (lb b ! j) + 2 ^ k - 1"
    proof -
      have "(1::nat) \<le> 2 ^ k" by simp
      then have "unat (lb b ! j) + unat (ub b ! j) = 2 * (unat (lb b ! j) + 2 ^ k - 1) + 1" using b(2) by simp
      then show ?thesis by simp
    qed
    finally have m: "unat (mid b j) + 1 = unat (lb b ! j) + 2 ^ k" by simp
    moreover have "unat (mid b j + 1) = unat (mid b j) + unat (1 :: u64)"
      using m b(2,3) by (intro unat_plus_u64) simp
    moreover have "2 ^ k dvd unat (lb b ! j)" using b(1) by (meson dvd_trans le_imp_power_dvd lessI less_imp_le)
    ultimately show ?thesis using b(2,3) j by (simp add: child_def)
  qed
  then show ?thesis by (simp add: cube_def child_def)
qed

lemma unit_cube_included:
  assumes "cube 0 b" "num_dims b = num_dims bb" "nonempty_bbox bb" "bbox_does_intersect bb b"
  shows "bbox_include bb b"
proof -
  have "lb b ! j = ub b ! j" if "j < ndims b" for j
    using assms(1) that by (simp add: cube_def word_unat_eq_iff)
  then show ?thesis
    using assms(2-4) by (auto simp: bbox_defs nonempty_bbox_def)
qed

text \<open>The number of boxes the search visits below a cube is at most its \<open>weight\<close>.\<close>

fun weight :: "nat \<Rightarrow> nat \<Rightarrow> nat" where
  "weight d 0 = 1"
| "weight d (Suc k) = Suc (2 ^ d * weight d k)"

lemma weight_pos: "0 < weight d k"
  by (cases k) simp_all

lemma decomp_terminates:
  assumes "nonempty_bbox bb" "\<And>b k. (b, k) \<in> set q \<Longrightarrow> cube k b \<and> num_dims b = num_dims bb"
  shows "\<exists>g. decomp bb (map fst q) good = Some g"
  using assms(2)
proof (induction "\<Sum>(b, k)\<leftarrow>q. weight (ndims bb) k" arbitrary: q good rule: less_induct)
  case less
  show ?case
  proof (cases q)
    case Nil
    then show ?thesis by (simp add: decomp_simps)
  next
    case (Cons bk q')
    obtain b k where bk: "bk = (b, k)" by fastforce
    have b: "cube k b" "num_dims b = num_dims bb" using less.prems Cons bk by auto
    have q': "\<exists>g. decomp bb (map fst q') good' = Some g" for good'
      using less.prems Cons bk weight_pos [of "ndims bb" k] by (intro less.hyps) auto
    show ?thesis
    proof (cases "\<not> bbox_include bb b \<and> bbox_does_intersect bb b")
      case False
      then show ?thesis using q' Cons bk by (cases "bbox_include bb b") (simp_all add: decomp_simps)
    next
      case True
      then obtain k' where k: "k = Suc k'"
        using unit_cube_included b assms(1) by (cases k) auto
      let ?cs = "map (\<lambda>i. (child b i, k')) [0..<2 ^ ndims bb]"
      have "(\<Sum>(b, k)\<leftarrow>q' @ ?cs. weight (ndims bb) k) < (\<Sum>(b, k)\<leftarrow>q. weight (ndims bb) k)"
        using Cons bk k by (simp add: comp_def sum_list_triv)
      moreover have "cube m c \<and> num_dims c = num_dims bb" if "(c, m) \<in> set (q' @ ?cs)" for c m
        using that less.prems [of c m] cube_child [OF b(1) [unfolded k]] b(2) Cons
        by (auto simp: child_sel(1))
      ultimately have "\<exists>g. decomp bb (map fst (q' @ ?cs)) good = Some g" by (rule less.hyps)
      then show ?thesis using True Cons bk by (simp add: decomp_simps comp_def)
    qed
  qed
qed

section \<open>The boxes found partition the query\<close>

text \<open>In how many boxes of a list a point lies.\<close>

definition cnt :: "u64 list \<Rightarrow> bbox list \<Rightarrow> nat" where
  "cnt p bs = length (filter (\<lambda>b. p \<in> points b) bs)"

lemma cnt_simps [simp]:
  "cnt p [] = 0" "cnt p (b # bs) = (if p \<in> points b then 1 else 0) + cnt p bs"
  "cnt p (bs @ cs) = cnt p bs + cnt p cs"
  by (simp_all add: cnt_def)

lemma cnt_map_upt: "cnt p (map f [0..<n]) = card {i. i < n \<and> p \<in> points (f i)}"
proof (induction n)
  case (Suc n)
  have "{i. i < Suc n \<and> p \<in> points (f i)} =
      (if p \<in> points (f n) then insert n {i. i < n \<and> p \<in> points (f i)} else {i. i < n \<and> p \<in> points (f i)})"
    by (auto simp: less_Suc_eq)
  then show ?case by (simp add: Suc)
qed simp

lemma cnt_children:
  assumes "nonempty_bbox b" "safe_bbox b"
  shows "cnt p (map (child b) [0..<2 ^ ndims b]) = (if p \<in> points b then 1 else 0)"
proof (cases "p \<in> points b")
  case True
  obtain i :: nat where i: "i < 2 ^ ndims b" "\<forall>j<ndims b. bit i j \<longleftrightarrow> mid b j < p ! j"
    by (rule bits_of_halves)
  have "k = i" if "k < 2 ^ ndims b" "p \<in> points (child b k)" for k
    using that i(2) by (intro bits_below_inj [OF that(1) i(1)]) (simp add: points_child [OF assms])
  moreover have "p \<in> points (child b i)" using True i(2) by (simp add: points_child [OF assms])
  ultimately have "{k. k < 2 ^ ndims b \<and> p \<in> points (child b k)} = {i}" using i(1) by blast
  then show ?thesis using True by (simp add: cnt_map_upt)
next
  case False
  then show ?thesis by (simp add: cnt_map_upt points_child [OF assms])
qed

definition cubes_like :: "bbox \<Rightarrow> bbox list \<Rightarrow> bool" where
  "cubes_like bb q \<longleftrightarrow> (\<forall>b\<in>set q. (\<exists>k. cube k b) \<and> num_dims b = num_dims bb)"

lemma cubes_like_simps [simp]:
  "cubes_like bb []" "cubes_like bb (b # q) \<longleftrightarrow> (\<exists>k. cube k b) \<and> num_dims b = num_dims bb \<and> cubes_like bb q"
  "cubes_like bb (q @ q') \<longleftrightarrow> cubes_like bb q \<and> cubes_like bb q'"
  by (auto simp: cubes_like_def)

lemma cubes_like_children:
  assumes "cube k b" "num_dims b = num_dims bb" "nonempty_bbox bb"
    and "\<not> bbox_include bb b" "bbox_does_intersect bb b"
  shows "cubes_like bb (map (child b) js)"
proof -
  obtain k' where "k = Suc k'"
    using unit_cube_included assms by (cases k) auto
  then show ?thesis using assms(1,2) cube_child by (auto simp: cubes_like_def child_sel(1))
qed

lemma decomp_counts:
  assumes "decomp bb q good = Some g"
  shows "cubes_like bb q \<Longrightarrow> nonempty_bbox bb \<Longrightarrow>
    \<exists>new. g = good @ new \<and> cubes_like bb new \<and> (\<forall>p. cnt p new = (if p \<in> points bb then cnt p q else 0))"
  using assms
proof (induction rule: decomp_induct)
  case (nil good)
  show ?case by (intro exI [of _ "[]"]) simp
next
  case (inc b q good g)
  have q: "cubes_like bb q" using inc.prems(1) by simp
  obtain new where new: "g = (good @ [b]) @ new" "cubes_like bb new"
    "\<forall>p. cnt p new = (if p \<in> points bb then cnt p q else 0)" using inc.IH [OF q inc.prems(2)] by blast
  have sub: "points b \<subseteq> points bb" using inc.hyps inc.prems(1) by (intro bbox_include_points) simp_all
  show ?case
  proof (intro exI [of _ "b # new"] conjI allI)
    show "cnt p (b # new) = (if p \<in> points bb then cnt p (b # q) else 0)" for p
      using new(3) sub by (simp add: subset_iff)
  qed (use new inc.prems(1) in simp_all)
next
  case (int b q good g)
  obtain k where k: "cube k b" "num_dims b = num_dims bb" using int.prems(1) by auto
  have q: "cubes_like bb (q @ map (child b) [0..<2 ^ ndims bb])"
    using int.prems(1) cubes_like_children [OF k int.prems(2) int.hyps] by simp
  have c: "cnt p (q @ map (child b) [0..<2 ^ ndims bb]) = cnt p (b # q)" for p
    using cnt_children [OF cube_box [OF k(1)], of p] k(2) by simp
  from int.IH [OF q int.prems(2)] show ?case unfolding c .
next
  case (out b q good g)
  have q: "cubes_like bb q" using out.prems(1) by simp
  obtain new where new: "g = good @ new" "cubes_like bb new"
    "\<forall>p. cnt p new = (if p \<in> points bb then cnt p q else 0)" using out.IH [OF q out.prems(2)] by blast
  have "points bb \<inter> points b = {}" using out.hyps out.prems by (intro not_intersect_points) simp_all
  then have "\<forall>p. cnt p new = (if p \<in> points bb then cnt p (b # q) else 0)" using new(3) by auto
  with new(1,2) show ?case by blast
qed

section \<open>Both routines on a virtual cube\<close>

lemma unat_side: "K \<le> 63 \<Longrightarrow> unat ((2 :: u64) ^ K - 1) = 2 ^ K - 1"
proof -
  assume K: "K \<le> 63"
  then have "(2::nat) ^ K \<le> 2 ^ 63" by (intro power_increasing) simp_all
  then have u: "unat ((2 :: u64) ^ K) = 2 ^ K" using unat_of_nat [of "2 ^ K", where 'a = 64] by simp
  have "(1 :: u64) \<le> 2 ^ K" by (simp add: word_le_nat_alt u)
  then show ?thesis by (simp add: unat_minus_u64 u)
qed

lemma virt_box_props:
  assumes "wf_bbox bb" "K \<le> 63"
  shows "box_like bb (virt_box bb (2 ^ K))" "cube K (trim (virt_box bb (2 ^ K)))"
proof -
  have d: "ndims bb \<le> 10" using assms(1) by simp
  have v: "virt_box bb (2 ^ K) = \<lparr>num_dims = num_dims bb, lb = replicate 10 0,
      ub = replicate (ndims bb) (2 ^ K - 1) @ replicate (10 - ndims bb) 0\<rparr>"
    using d by (simp add: virt_box_def BBOX_MAX_NDIM_def fold_upd_upt map_replicate_const)
  show "box_like bb (virt_box bb (2 ^ K))"
    using d assms(1) by (auto simp: v box_like_def intro!: wf_bboxI)
  have "(2::nat) ^ K \<le> 2 ^ 63" using assms(2) by (intro power_increasing) simp_all
  then show "cube K (trim (virt_box bb (2 ^ K)))"
    using d by (auto simp: cube_def v trim_def unat_side [OF assms(2)])
qed

lemma ring_init_holds:
  assumes "wf_bbox bb" "wf_bbox junk"
  shows "\<exists>x. ring_holds (2 ^ ndims bb) (ring_init junk bb n) [x] \<and> box_like bb x \<and> trim x = trim (virt_box bb n)"
proof -
  let ?f = "\<lambda>i p. p\<lparr>lb := (lb p)[i := 0], ub := (ub p)[i := n - 1]\<rparr>"
  define x where "x = fold ?f [0..<ndims bb] (junk\<lparr>num_dims := num_dims bb\<rparr>)"
  have d: "ndims bb \<le> 10" using assms(1) by simp
  have x: "x = junk\<lparr>num_dims := num_dims bb, lb := map (\<lambda>_. 0) [0..<ndims bb] @ drop (ndims bb) (lb junk),
      ub := map (\<lambda>_. n - 1) [0..<ndims bb] @ drop (ndims bb) (ub junk)\<rparr>"
    using d assms(2) by (simp add: x_def fold_bbox_upd fold_upd_upt)
  have wfx: "wf_bbox x" using d assms by (auto simp: x intro!: wf_bboxI)
  have tx: "trim x = trim (virt_box bb n)"
    using d assms(2) by (simp add: x trim_def virt_box_def BBOX_MAX_NDIM_def fold_upd_upt map_replicate_const)
  let ?n = "2 ^ ndims bb :: nat"
  have n: "?n dvd 1024" using le_imp_power_dvd [OF d, of "2::nat"] by simp
  then have n2: "?n dvd 4096" "?n \<le> 1024" by (auto intro: dvd_trans dvd_imp_le)
  let ?r = "ring_init junk bb n"
  have r: "?r = \<lparr>bb_tab = replicate 4095 junk @ [x], bb_size = 4096, bb_head = 4095, bb_tail = 0\<rparr>"
    by (simp add: ring_init_def x_def)
  have "ring_rep ?n ?r (4096 - ?n) ?n (?n - 1)"
    unfolding ring_rep_def using n2 assms(2) wfx
    by (auto simp: r dvd_diff_nat list_all_iff)
  moreover have "ring_slots ?r (4096 - ?n) [?n - 1..<?n] = [x]"
  proof -
    have "[?n - 1..<?n] = [?n - 1]" using upt_rec [of "?n - 1" ?n] by simp
    moreover have "4096 - ?n + (?n - 1) = 4095" using n2(2) by (simp add: le_trans)
    ultimately show ?thesis by (simp add: ring_slots_def r nth_append)
  qed
  ultimately have "ring_holds ?n ?r [x]" unfolding ring_holds_def by metis
  with tx wfx show ?thesis by (auto simp: box_like_def x)
qed

lemma bbox_to_intv_both:
  assumes "wf_bbox bb" "nonempty_bbox bb" "wf_bbox junk" "K \<le> 63"
  shows "\<exists>g. bbox_to_intv ijunk bb (2 ^ K) bpd =
      Some (sort_compact ijunk (map (\<lambda>b. bbox_flat b (compute_bits (2 ^ K))) g)) \<and>
    bbox_to_intv2 ijunk junk bb (2 ^ K) bpd = bbox_to_intv ijunk bb (2 ^ K) bpd \<and>
    cubes_like bb g \<and>
    (\<forall>p. cnt p g = (if p \<in> points bb \<and> p \<in> points (virt_box bb (2 ^ K)) then 1 else 0))"
proof -
  let ?v = "virt_box bb (2 ^ K)" and ?bits = "compute_bits (2 ^ K)"
  note v = virt_box_props [OF assms(1,4)]
  have vd: "num_dims ?v = num_dims bb" using v(1) by (simp add: box_like_def)
  obtain g where g: "decomp bb [trim ?v] [] = Some g"
    using decomp_terminates [OF assms(2), of "[(trim ?v, K)]" "[]"] v(2) vd by auto
  obtain new where "g = [] @ new" "cubes_like bb new"
    "\<forall>p. cnt p new = (if p \<in> points bb then cnt p [trim ?v] else 0)"
    using decomp_counts [OF g _ assms(2)] v(2) vd by auto
  moreover have "points (trim ?v) = points ?v"
    by (auto simp: points_def trim_nth)
  ultimately have parts: "cubes_like bb g"
    "\<forall>p. cnt p g = (if p \<in> points bb \<and> p \<in> points ?v then 1 else 0)" by auto
  let ?tab = "replicate (2 ^ ndims bb)
    \<lparr>num_dims = 0, lb = replicate BBOX_MAX_NDIM 0, ub = replicate BBOX_MAX_NDIM 0\<rparr> :: bbox list"
  have tab: "length ?tab = 2 ^ ndims bb" "list_all wf_bbox ?tab"
    by (auto simp: list_all_iff wf_bbox_def BBOX_MAX_NDIM_def)
  obtain q where q: "queue_enqueue queue_init ?v = Some q" "queue_holds q [?v]"
    using queue_holds_enqueue [OF queue_holds_init, of ?v] by auto
  obtain q' where q': "intv_loop bb ?bits q queue_init ?tab = Some q'"
    "queue_holds q' (map (\<lambda>b. bbox_flat b ?bits) g)"
    using intv_loop_decomp [OF g q(2) _ _ tab, of queue_init ?bits] v(1) queue_holds_init by auto
  have one: "bbox_to_intv ijunk bb (2 ^ K) bpd = Some (sort_compact ijunk (map (\<lambda>b. bbox_flat b ?bits) g))"
    using q(1) q'(1) queue_drain_ok [OF q'(2), of "[]"] by (simp add: bbox_to_intv_def Let_def)
  obtain x where x: "ring_holds (2 ^ ndims bb) (ring_init junk bb (2 ^ K)) [x]" "box_like bb x" "trim x = trim ?v"
    using ring_init_holds [OF assms(1,3)] by blast
  have "intv2_loop bb ?bits junk (ring_init junk bb (2 ^ K)) [] = Some (map (\<lambda>b. bbox_flat b ?bits) g)"
    using intv2_loop_decomp [OF g assms(3) x(1), of ?bits] x(2,3) by simp
  then have "bbox_to_intv2 ijunk junk bb (2 ^ K) bpd = bbox_to_intv ijunk bb (2 ^ K) bpd"
    unfolding one by (simp add: bbox_to_intv2_def Let_def)
  with one parts show ?thesis by blast
qed

text \<open>
  C20: on a virtual cube of side \<open>2 ^ K\<close>, \<^verbatim>\<open>bbox_to_intv\<close> and \<^verbatim>\<open>bbox_to_intv2\<close> terminate for every non-empty
  box and return the same table. It is the sorted and compacted table of the intervals of cubes
  that partition the points the box has in the virtual domain.
\<close>

theorem bbox_to_intv_routines_agree:
  assumes "wf_bbox bb" "nonempty_bbox bb" "wf_bbox junk" "K \<le> 63"
  shows "\<exists>g. bbox_to_intv ijunk bb (2 ^ K) bpd =
      Some (sort_compact ijunk (map (\<lambda>b. bbox_flat b (compute_bits (2 ^ K))) g)) \<and>
    bbox_to_intv2 ijunk junk bb (2 ^ K) bpd = bbox_to_intv ijunk bb (2 ^ K) bpd \<and>
    cubes_like bb g \<and>
    (\<forall>p. cnt p g = (if p \<in> points bb \<and> p \<in> points (virt_box bb (2 ^ K)) then 1 else 0))"
  using bbox_to_intv_both [OF assms] .

theorem bbox_to_intv_routines_agree_witness:
  "\<exists>g. bbox_to_intv2 \<lparr>i_lb = 0, i_ub = 0\<rparr> (mk_box [] []) (mk_box [1, 0] [2, 3]) (2 ^ 2) 0 =
     bbox_to_intv \<lparr>i_lb = 0, i_ub = 0\<rparr> (mk_box [1, 0] [2, 3]) (2 ^ 2) 0 \<and>
     (\<forall>p. cnt p g = (if p \<in> points (mk_box [1, 0] [2, 3]) \<and> p \<in> points (virt_box (mk_box [1, 0] [2, 3]) (2 ^ 2)) then 1 else 0))"
proof -
  have "wf_bbox (mk_box [1, 0] [2, 3])" "nonempty_bbox (mk_box [1, 0] [2, 3])" "wf_bbox (mk_box [] [])" "2 \<le> (63::nat)"
    by (simp_all add: mk_box_simps)
  from bbox_to_intv_routines_agree [OF this, of "\<lparr>i_lb = 0, i_ub = 0\<rparr>" 0] show ?thesis by blast
qed

section \<open>Compaction keeps the covered indices\<close>

fun compact :: "intv \<Rightarrow> intv list \<Rightarrow> intv list" where
  "compact c [] = [c]"
| "compact c (x # xs) =
     (if i_ub c + 1 = i_lb x then compact (c\<lparr>i_ub := i_ub x\<rparr>) xs else c # compact x xs)"

lemma compact_steps:
  assumes "i < j" "j \<le> m" "m \<le> length tab"
  shows "\<exists>tab' i'. fold compact_step [j..<m] (tab, i) = (tab', i') \<and>
    take (Suc i') tab' = take i tab @ compact (tab ! i) (drop j (take m tab))"
  using assms
proof (induction "m - j" arbitrary: tab i j)
  case 0
  then show ?case by (simp add: take_Suc_conv_app_nth)
next
  case (Suc d)
  then have j: "j < m" "j < length tab" "i < length tab" by auto
  then have dj: "drop j (take m tab) = tab ! j # drop (Suc j) (take m tab)"
    by (simp add: Cons_nth_drop_Suc [symmetric])
  have up: "fold compact_step [j..<m] (tab, i) = fold compact_step [Suc j..<m] (compact_step j (tab, i))"
    using j by (simp add: upt_conv_Cons)
  show ?case
  proof (cases "i_ub (tab ! i) + 1 = i_lb (tab ! j)")
    case True
    let ?tab = "tab[i := (tab ! i)\<lparr>i_ub := i_ub (tab ! j)\<rparr>]"
    have "drop (Suc j) (take m ?tab) = drop (Suc j) (take m tab)" using Suc.prems(1) by (simp add: take_update_swap)
    with Suc.hyps(1) [of "Suc j" i ?tab] Suc.prems Suc.hyps(2) True j show ?thesis
      by (simp add: up compact_step_def dj)
  next
    case False
    let ?tab = "tab[Suc i := tab ! j]"
    have "drop (Suc j) (take m ?tab) = drop (Suc j) (take m tab)" using Suc.prems(1) by (simp add: take_update_swap)
    moreover have "take (Suc i) ?tab = take i tab @ [tab ! i]" using j by (simp add: take_Suc_conv_app_nth)
    ultimately show ?thesis
      using Suc.hyps(1) [of "Suc j" "Suc i" ?tab] Suc.prems Suc.hyps(2) False j
      by (simp add: up compact_step_def dj)
  qed
qed

lemma sort_compact_alt:
  "sort_compact junk [] = [junk]"
  "sort_key i_lb i_tab = c # xs \<Longrightarrow> sort_compact junk i_tab = compact c xs"
proof -
  show "sort_compact junk [] = [junk]" by (simp add: sort_compact_def intv_compact_def)
  assume s: "sort_key i_lb i_tab = c # xs"
  then have len: "length i_tab = Suc (length xs)" by (metis length_Cons length_sort)
  from compact_steps [of 0 1 "Suc (length xs)" "(c # xs) @ [junk]"] obtain tab' i' where
    "fold compact_step [1..<Suc (length xs)] ((c # xs) @ [junk], 0) = (tab', i')"
    "take (Suc i') tab' = compact c xs" by auto
  then show "sort_compact junk i_tab = compact c xs"
    by (simp add: sort_compact_def intv_compact_def s len)
qed

abbreviation iv :: "intv \<Rightarrow> u64 set" where
  "iv i \<equiv> {i_lb i..i_ub i}"

definition intv_ok :: "intv \<Rightarrow> bool" where
  "intv_ok i \<longleftrightarrow> i_lb i \<le> i_ub i \<and> unat (i_ub i) < 18446744073709551615"

lemma iv_merge:
  assumes "intv_ok c" "intv_ok x" "i_ub c + 1 = i_lb x"
  shows "iv (c\<lparr>i_ub := i_ub x\<rparr>) = iv c \<union> iv x" "intv_ok (c\<lparr>i_ub := i_ub x\<rparr>)"
proof -
  have "unat (i_ub c + 1) = unat (i_ub c) + unat (1 :: u64)"
    using assms(1) by (intro unat_plus_u64) (simp add: intv_ok_def)
  then have n: "unat (i_lb x) = Suc (unat (i_ub c))" using assms(3) by simp
  then show "iv (c\<lparr>i_ub := i_ub x\<rparr>) = iv c \<union> iv x"
    using assms(1,2) by (auto simp: intv_ok_def word_le_nat_alt)
  show "intv_ok (c\<lparr>i_ub := i_ub x\<rparr>)"
    using n assms(1,2) by (auto simp: intv_ok_def word_le_nat_alt)
qed

lemma compact_cover:
  "intv_ok c \<Longrightarrow> list_all intv_ok xs \<Longrightarrow> (\<Union>i\<in>set (compact c xs). iv i) = iv c \<union> (\<Union>i\<in>set xs. iv i)"
proof (induction xs arbitrary: c)
  case (Cons x xs)
  then show ?case using iv_merge [of c x] by (auto simp del: Un_iff)
qed simp

lemma sort_compact_cover:
  assumes "list_all intv_ok i_tab" "i_tab \<noteq> []"
  shows "(\<Union>i\<in>set (sort_compact junk i_tab). iv i) = (\<Union>i\<in>set i_tab. iv i)"
proof -
  obtain c xs where s: "sort_key i_lb i_tab = c # xs"
    using assms(2) by (cases "sort_key i_lb i_tab") (metis length_0_conv length_sort, blast)
  then have set: "set i_tab = insert c (set xs)" by (metis list.simps(15) set_sort)
  with assms(1) have "intv_ok c" "list_all intv_ok xs" by (auto simp: list_all_iff)
  then show ?thesis using s set by (simp add: sort_compact_alt(2) compact_cover)
qed

section \<open>What the linearisation relies on\<close>

text \<open>
  The contract of a space-filling curve: the indices of a cube form one interval, and flattening
  the cube yields it. Under this contract the interval table of a box covers exactly the indices
  of its points.
\<close>

locale sfc_curve =
  fixes index :: "u64 list \<Rightarrow> u64" and flat :: "bbox \<Rightarrow> intv" and cubic :: "bbox \<Rightarrow> bool"
  assumes flat_image: "cubic b \<Longrightarrow> iv (flat b) = index ` points b"
    and flat_ok: "cubic b \<Longrightarrow> intv_ok (flat b)"
begin

lemma table_cover:
  assumes "list_all cubic g" "g \<noteq> []"
  shows "(\<Union>i\<in>set (sort_compact junk (map flat g)). iv i) = index ` (\<Union>b\<in>set g. points b)"
proof -
  have "list_all intv_ok (map flat g)" using assms(1) flat_ok by (auto simp: list_all_iff)
  then have "(\<Union>i\<in>set (sort_compact junk (map flat g)). iv i) = (\<Union>b\<in>set g. iv (flat b))"
    using sort_compact_cover [of "map flat g" junk] assms(2) by simp
  also have "\<dots> = index ` (\<Union>b\<in>set g. points b)"
    using assms(1) flat_image by (force simp: list_all_iff)
  finally show ?thesis .
qed

end

text \<open>In one dimension the curve is the identity.\<close>

definition cube1 :: "bbox \<Rightarrow> bool" where
  "cube1 b \<longleftrightarrow> num_dims b = 1 \<and> (\<exists>k. cube k b)"

lemma points_1d: "num_dims b = 1 \<Longrightarrow> points b = (\<lambda>x. [x]) ` {lb b ! 0..ub b ! 0}"
  by (force simp: points_def length_Suc_conv image_iff)

lemma bbox_flat_1d:
  assumes "num_dims b = 1" "lb b ! 0 \<le> ub b ! 0" "unat (ub b ! 0) < 18446744073709551615"
  shows "bbox_flat b bits = \<lparr>i_lb = lb b ! 0, i_ub = ub b ! 0\<rparr>"
proof -
  have lt: "lb b ! 0 < NOT 0"
    using assms(2,3)
    by (simp add: word_less_nat_alt word_le_nat_alt unsigned_minus_1_eq_mask mask_eq_exp_minus_1)
  have c: "hilbert_c2i 1 bits [x] = x" for x by (simp add: hilbert_c2i_def)
  have "flat_step b bits 0 \<lparr>i_lb = NOT 0, i_ub = 0\<rparr> = \<lparr>i_lb = lb b ! 0, i_ub = 0\<rparr>"
    using lt assms(1) by (simp add: flat_step_def sfc_corner_alt c [simplified])
  moreover have "flat_step b bits 1 \<lparr>i_lb = lb b ! 0, i_ub = 0\<rparr> = \<lparr>i_lb = lb b ! 0, i_ub = ub b ! 0\<rparr>"
    using assms(1,2) by (auto simp: flat_step_def sfc_corner_alt c [simplified] Let_def bit_0 not_less)
  moreover have "[0..<2 ^ ndims b] = [0, 1]" using assms(1) by (simp add: upt_rec)
  ultimately show ?thesis by (simp add: bbox_flat_def)
qed

interpretation line: sfc_curve "hilbert_c2i 1 bits" "\<lambda>b. bbox_flat b bits" cube1 for bits
proof
  fix b assume b: "cube1 b"
  then obtain k where k: "num_dims b = 1" "cube k b" by (auto simp: cube1_def)
  have le: "lb b ! 0 \<le> ub b ! 0" using cube_box(1) [OF k(2)] k(1) by (simp add: nonempty_bbox_def)
  have lt: "unat (ub b ! 0) < 18446744073709551615" using k by (auto simp: cube_def)
  have flat: "bbox_flat b bits = \<lparr>i_lb = lb b ! 0, i_ub = ub b ! 0\<rparr>" using bbox_flat_1d [OF k(1) le lt] .
  show "intv_ok (bbox_flat b bits)" using le lt by (simp add: flat intv_ok_def)
  show "iv (bbox_flat b bits) = hilbert_c2i 1 bits ` points b"
    unfolding points_1d [OF k(1)] flat by (simp add: image_image hilbert_c2i_def)
qed

lemma cnt_pos_iff: "0 < cnt p bs \<longleftrightarrow> (\<exists>b\<in>set bs. p \<in> points b)"
  by (auto simp: cnt_def filter_empty_conv)

lemma cubes_like_Nil:
  assumes "cubes_like bb g" "\<forall>p. cnt p g = 0"
  shows "g = []"
proof (rule ccontr)
  assume "g \<noteq> []"
  then obtain b where b: "b \<in> set g" by (cases g) auto
  then obtain k where k: "cube k b" using assms(1) by (auto simp: cubes_like_def)
  have "take (ndims b) (lb b) \<in> points b"
    using k cube_box(1) [OF k] by (simp add: points_def nonempty_bbox_def cube_def)
  with b assms(2) cnt_pos_iff show False by (metis less_irrefl)
qed

text \<open>
  For a one-dimensional box that meets the virtual domain of \<open>2 ^ K\<close> elements, the table
  \<^verbatim>\<open>bbox_to_intv2\<close> returns covers exactly the elements of the box in the domain.
\<close>

theorem bbox_to_intv2_covers_line:
  assumes "wf_bbox bb" "nonempty_bbox bb" "wf_bbox junk" "K \<le> 63" "num_dims bb = 1"
    and "points bb \<inter> points (virt_box bb (2 ^ K)) \<noteq> {}"
  shows "\<exists>tab. bbox_to_intv2 ijunk junk bb (2 ^ K) bpd = Some tab \<and>
    (\<lambda>x. [x]) ` (\<Union>i\<in>set tab. iv i) = points bb \<inter> points (virt_box bb (2 ^ K))"
proof -
  let ?bits = "compute_bits (2 ^ K)"
  obtain g where g: "bbox_to_intv2 ijunk junk bb (2 ^ K) bpd =
      Some (sort_compact ijunk (map (\<lambda>b. bbox_flat b ?bits) g))" "cubes_like bb g"
    "\<forall>p. cnt p g = (if p \<in> points bb \<and> p \<in> points (virt_box bb (2 ^ K)) then 1 else 0)"
    using bbox_to_intv_both [OF assms(1-4), of ijunk bpd] by auto
  have un: "(\<Union>b\<in>set g. points b) = points bb \<inter> points (virt_box bb (2 ^ K))"
  proof (rule set_eqI)
    fix p
    show "p \<in> (\<Union>b\<in>set g. points b) \<longleftrightarrow> p \<in> points bb \<inter> points (virt_box bb (2 ^ K))"
      using g(3) cnt_pos_iff [of p g] by (auto split: if_splits)
  qed
  have ne: "g \<noteq> []" using assms(6) un by auto
  have "list_all cube1 g" using g(2) assms(5) by (auto simp: cubes_like_def list_all_iff cube1_def)
  from line.table_cover [OF this ne, of ijunk ?bits] un
  have "(\<Union>i\<in>set (sort_compact ijunk (map (\<lambda>b. bbox_flat b ?bits) g)). iv i) =
      hilbert_c2i 1 ?bits ` (points bb \<inter> points (virt_box bb (2 ^ K)))" by simp
  moreover have "(\<lambda>x. [x]) ` (hilbert_c2i 1 ?bits ` P) = P" if "\<forall>p\<in>P. length p = 1" for P
    using that by (force simp: hilbert_c2i_def length_Suc_conv image_iff)
  moreover have "\<forall>p\<in>points bb \<inter> points (virt_box bb (2 ^ K)). length p = 1"
    using assms(5) by (auto simp: points_def)
  ultimately show ?thesis using g(1) by auto
qed

theorem bbox_to_intv2_covers_line_witness:
  "\<exists>tab. bbox_to_intv2 i (mk_box [] []) (mk_box [1] [2]) (2 ^ 2) 0 = Some tab \<and>
     (\<lambda>x. [x]) ` (\<Union>i\<in>set tab. iv i) = points (mk_box [1] [2]) \<inter> points (virt_box (mk_box [1] [2]) (2 ^ 2))"
proof -
  let ?bb = "mk_box [1] [2]"
  have "wf_bbox ?bb" "nonempty_bbox ?bb" "wf_bbox (mk_box [] [])" "2 \<le> (63::nat)" "num_dims ?bb = 1"
    by (simp_all add: mk_box_simps)
  moreover have "[1] \<in> points ?bb \<inter> points (virt_box ?bb (2 ^ 2))"
    by (simp add: points_def mk_box_def virt_box_def BBOX_MAX_NDIM_def)
  then have "points ?bb \<inter> points (virt_box ?bb (2 ^ 2)) \<noteq> {}" by blast
  ultimately show ?thesis by (rule bbox_to_intv2_covers_line)
qed

text \<open>
  For a box outside the virtual domain both routines report one interval, and that interval is
  whatever the uninitialised table holds: \<^verbatim>\<open>intv_compact\<close> returns 1 for an empty table.
\<close>

theorem bbox_to_intv_outside_is_junk:
  assumes "wf_bbox bb" "nonempty_bbox bb" "wf_bbox junk" "K \<le> 63"
    and "points bb \<inter> points (virt_box bb (2 ^ K)) = {}"
  shows "bbox_to_intv ijunk bb (2 ^ K) bpd = Some [ijunk] \<and>
    bbox_to_intv2 ijunk junk bb (2 ^ K) bpd = Some [ijunk]"
proof -
  obtain g where g: "bbox_to_intv ijunk bb (2 ^ K) bpd =
      Some (sort_compact ijunk (map (\<lambda>b. bbox_flat b (compute_bits (2 ^ K))) g))"
    "bbox_to_intv2 ijunk junk bb (2 ^ K) bpd = bbox_to_intv ijunk bb (2 ^ K) bpd" "cubes_like bb g"
    "\<forall>p. cnt p g = (if p \<in> points bb \<and> p \<in> points (virt_box bb (2 ^ K)) then 1 else 0)"
    using bbox_to_intv_both [OF assms(1-4), of ijunk bpd] by auto
  have "\<forall>p. cnt p g = 0" using g(4) assms(5) by auto
  then have "g = []" using cubes_like_Nil [OF g(3)] by blast
  then show ?thesis using g(1,2) by (simp add: sort_compact_alt)
qed

theorem bbox_to_intv_outside_is_junk_witness:
  "bbox_to_intv \<lparr>i_lb = 77, i_ub = 99\<rparr> (mk_box [5] [6]) (2 ^ 2) 0 = Some [\<lparr>i_lb = 77, i_ub = 99\<rparr>]"
proof -
  let ?bb = "mk_box [5] [6]"
  have b: "wf_bbox ?bb" "nonempty_bbox ?bb" "wf_bbox (mk_box [] [])" "2 \<le> (63::nat)"
    by (simp_all add: mk_box_simps)
  have "num_dims ?bb = num_dims (virt_box ?bb (2 ^ 2))" "\<not> bbox_does_intersect ?bb (virt_box ?bb (2 ^ 2))"
    by (simp_all add: mk_box_def virt_box_def BBOX_MAX_NDIM_def bbox_defs)
  from not_intersect_points [OF this] bbox_to_intv_outside_is_junk [OF b] show ?thesis by blast
qed

end
