(* ===== verification/CurveTop.thy ===== *)
theory CurveTop
  imports CurveMap Intv
begin

text \<open>
  Levels of the Hilbert curve: the upper levels of a point determine the upper levels of its index, an index
  whose low levels are all zeros or all ones belongs to a point whose low levels repeat, and the last bit of an
  index is the parity of the coordinates.
\<close>

unbundle bit_operations_syntax

section \<open>The upper levels\<close>

lemma drop_gray: "drop_bit c (gray d w) = gray d (drop_bit c w)"
  by (simp add: gray_def add.commute)

lemma drop_xor_prefix:
  assumes "0 < d" "fits N x"
  shows "drop_bit c (xor_prefix d N x) = xor_prefix d N (drop_bit c x)"
proof -
  let ?y = "xor_prefix d N x"
  have "gray d (drop_bit c ?y) = drop_bit c x" using gray_xor_prefix [OF assms] by (simp flip: drop_gray)
  moreover have "fits N (drop_bit c ?y)" using fits_xor_prefix [OF assms(2)] by blast
  ultimately show ?thesis using xor_prefix_gray [OF assms(1)] by metis
qed

lemma lv_append: "lv n (j + k) w = lv n j (drop_bit (n * k) w) @ lv n k w"
  by (induction j) (simp_all add: distrib_left add.commute)

lemma enc_append: "\<exists>r' f'. \<forall>ys. enc n r f (xs @ ys) = enc n r f xs @ enc n r' f' ys"
proof (induction xs arbitrary: r f)
  case (Cons x xs)
  then show ?case by (simp add: Let_def)
qed auto

lemma joinl_append: "joinl n (xs @ ys) acc = joinl n ys (joinl n xs acc)"
  by (simp add: joinl_def)

lemma drop_joinl:
  assumes "0 < n" "list_all (fits n) ys"
  shows "drop_bit (n * length ys) (joinl n ys acc) = drop_bit (n * length ys) (push_bit (n * length ys) acc)"
proof (rule bit_word_eqI)
  fix i assume i: "i < LENGTH(64)"
  show "bit (drop_bit (n * length ys) (joinl n ys acc)) i = bit (drop_bit (n * length ys) (push_bit (n * length ys) acc)) i"
  proof (cases "n * length ys + i < 64")
    case True
    then show ?thesis using bit_joinl [OF assms, of "n * length ys + i" acc] by (simp add: bit_simps)
  next
    case False
    then show ?thesis by (auto simp: bit_simps dest: bit_imp_le_length)
  qed
qed

text \<open>Two words with the same upper levels have indices with the same upper levels.\<close>

lemma to_index_upper:
  assumes "0 < n" "n \<le> 32" "k \<le> m" "n * m \<le> 64" "0 < m" "drop_bit (n * k) s = drop_bit (n * k) t"
  shows "drop_bit (n * k) (to_index n m s) = drop_bit (n * k) (to_index n m t)"
proof -
  let ?x = "\<lambda>t. joinl n (enc n 0 0 (lv n m (gray n t))) 0 XOR drop_bit 1 (nth_bits n m)"
  have nm: "0 < n * m" using assms(1,5) by simp
  have f: "fits (n * m) (?x t)" for t
    using fits_joinl [OF assms(1) fits_enc [OF assms(1)], of 0 0 "lv n m (gray n t)"] fits_nth_bits [OF nm]
    by (intro fits_ops(1) fits_ops(5)) simp_all
  have m: "m = (m - k) + k" using assms(3) by simp
  define P where "P = lv n (m - k) (gray n (drop_bit (n * k) t))"
  obtain r f where a: "\<And>ys. enc n 0 0 (P @ ys) = enc n 0 0 P @ enc n r f ys" using enc_append [of n 0 0 P] by blast
  have lv: "lv n m (gray n x) = P @ lv n k (gray n x)" if "x = s \<or> x = t" for x
    using lv_append [of n "m - k" k "gray n x"] m that assms(6) by (auto simp: P_def drop_gray)
  have "drop_bit (n * k) (joinl n (enc n 0 0 (lv n m (gray n x))) 0) = drop_bit (n * k) (push_bit (n * k) (joinl n (enc n 0 0 P) 0))"
    if "x = s \<or> x = t" for x
    using drop_joinl [OF assms(1) fits_enc [OF assms(1)], of r f "lv n k (gray n x)"] by (simp add: lv [OF that] a joinl_append)
  then have "drop_bit (n * k) (?x s) = drop_bit (n * k) (?x t)" by (simp add: drop_bit_xor)
  then show ?thesis unfolding to_index_def drop_xor_prefix [OF zero_less_one f] by simp
qed

section \<open>The corners\<close>

lemma bit_nth_bits:
  assumes "0 < n" "n \<le> 32" "0 < m" "n * m \<le> 64"
  shows "bit (nth_bits n m) i \<longleftrightarrow> (\<exists>j<m. i = n * j)"
proof -
  let ?x = "2 ^ n :: int"
  have x: "1 < ?x" using assms(1) by simp
  have u: "uint (ones64 (n * m)) = ?x ^ m - 1" "uint (ucast (ones32 n) :: u64) = ?x - 1"
  proof -
    have "ones64 (n * m) = mask (n * m)" "ucast (ones32 n) = (mask n :: u64)"
      using assms by (simp_all add: ones64_mask ones32_mask ucast_mask_eq min_def)
    then have "uint (ones64 (n * m)) = mask (n * m)" "uint (ucast (ones32 n) :: u64) = mask n"
      using assms by (simp_all only: uint_mask_eq) (simp_all add: min_def)
    then show "uint (ones64 (n * m)) = ?x ^ m - 1" "uint (ucast (ones32 n) :: u64) = ?x - 1"
      by (simp_all only: mask_eq_exp_minus_1 power_mult)
  qed
  have "uint (nth_bits n m) = (\<Sum>j<m. ?x ^ j)"
    unfolding nth_bits_def uint_div u power_diff_1_eq [of ?x m] using x by simp
  then have "nth_bits n m = word_of_int (\<Sum>j<m. ?x ^ j)" using word_of_int_uint [of "nth_bits n m"] by simp
  then have "nth_bits n m = (\<Sum>j\<in>{..<m}. 2 ^ (n * j))" by (simp add: power_mult)
  moreover have "bit (\<Sum>j\<in>{..<m}. 2 ^ (n * j) :: u64) i \<longleftrightarrow> (\<exists>j\<in>{..<m}. bit (2 ^ (n * j) :: u64) i)"
    using assms(1) by (intro bit_sum) (auto simp: bit_simps)
  moreover have "n * j < 64" if "j < m" for j
  proof -
    have "n * j < n * m" using that assms(1) by simp
    then show ?thesis using assms(4) by linarith
  qed
  ultimately show ?thesis by (auto simp: bit_simps)
qed

text \<open>Rotating the top bit, and the rotation after a level that is empty or the top bit alone.\<close>

definition top_bit :: "nat \<Rightarrow> u32" where "top_bit n = push_bit (n - 1) 1"

lemma adjust_top:
  assumes "0 < n" "r < n" "b = 0 \<or> b = top_bit n"
  shows "adjust_rotation r n (drop_bit 1 (ones32 n)) b = (r + 1) mod n"
proof -
  have "b AND (- b AND drop_bit 1 (ones32 n)) = 0"
    using assms(1,3) by (intro bit_word_eqI) (auto simp: top_bit_def bit_simps ones32_mask)
  then show ?thesis using assms(2) by (auto simp: adjust_rotation_def Let_def shift_out.simps mod_if)
qed

lemma rotate_top:
  assumes "n \<le> 32" "r < n"
  shows "ucast (rotateLeft (top_bit n) ((r + 1) mod n) n) = (push_bit r 1 :: u32)"
proof (rule bit_word_eqI)
  fix i assume i: "i < LENGTH(32)"
  define q where "q = (r + 1) mod n"
  have n: "0 < n" and q: "q < n" using assms(2) by (simp_all add: q_def)
  have f: "fits n (top_bit n)" using n by (auto simp: top_bit_def fits_def bit_simps)
  have "(i + (n - q)) mod n = n - 1 \<longleftrightarrow> i = r" if "i < n"
  proof (cases "r + 1 = n")
    case True
    then have "q = 0" by (simp add: q_def)
    then show ?thesis using that True by (auto simp: mod_if)
  next
    case False
    then have "q = r + 1" using assms(2) by (simp add: q_def)
    then show ?thesis using that assms(2) False by (auto simp: mod_if)
  qed
  moreover have "bit (top_bit n) k \<longleftrightarrow> k = n - 1" if "k < n" for k using that assms(1) by (auto simp: top_bit_def bit_simps)
  ultimately show "bit (ucast (rotateLeft (top_bit n) ((r + 1) mod n) n) :: u32) i = bit (push_bit r 1 :: u32) i"
    unfolding q_def [symmetric]
    using i n assms by (cases "i < n") (auto simp: bit_simps bit_rotateLeft [OF q assms(1) f])
qed

lemma dec_top:
  "n \<le> 32 \<Longrightarrow> r < n \<Longrightarrow> dec n ((r + 1) mod n) (push_bit r 1) (replicate k (top_bit n)) = replicate k 0"
proof (induction k arbitrary: r)
  case (Suc k)
  let ?q = "(r + 1) mod n"
  have q: "0 < n" "?q < n" using Suc(3) by simp_all
  have "dec n ?q (push_bit r 1) (replicate (Suc k) (top_bit n)) =
      (ucast (rotateLeft (top_bit n) ?q n) XOR push_bit r 1) # dec n ((?q + 1) mod n) (push_bit ?q 1) (replicate k (top_bit n))"
    using adjust_top [OF q, of "top_bit n"] by simp
  also have "\<dots> = 0 # replicate k 0"
    unfolding rotate_top [OF Suc(2,3)] Suc(1) [OF Suc(2) q(2)] by simp
  finally show ?case by simp
qed simp

lemma dec_top_Cons:
  assumes "n \<le> 32" "r < n" "b = 0 \<or> b = top_bit n"
  shows "\<exists>x. dec n r f (b # replicate k (top_bit n)) = x # replicate k 0"
  using dec_top [OF assms(1,2), of k] adjust_top [OF _ assms(2,3)] assms(2) by simp

lemma dec_append:
  "r < n \<Longrightarrow> \<exists>r' f'. r' < n \<and> (\<forall>ys. dec n r f (xs @ ys) = dec n r f xs @ dec n r' f' ys)"
proof (induction xs arbitrary: r f)
  case (Cons x xs)
  then show ?case by (simp add: rot_simps)
qed auto

text \<open>
  The low levels of an index that are all zeros or all ones: then every level of the point but the topmost of
  them repeats the one above.
\<close>

lemma corner_levels:
  assumes "1 < n" "n \<le> 32" "0 < k" "k \<le> m" "n * m \<le> 64" "fits (n * m) i" and c: "\<forall>p<n * k. bit i p = c" and p: "p < n * (k - 1)"
  shows "bit (of_index n m i) p = bit (of_index n m i) (p + n)"
proof -
  have n: "0 < n" "0 < m" "0 < n * m" using assms(1,3,4) by simp_all
  define Y where "Y = gray 1 i XOR drop_bit 1 (nth_bits n m)"
  define D where "D = dec n 0 0 (lv n m Y)"
  have Y: "bit Y q \<longleftrightarrow> (\<exists>j<m. q + 1 = n * j)" if "q + 1 < n * k" for q
    using that c by (auto simp: Y_def bit_xor_iff bit_gray bit_drop_bit_eq bit_nth_bits [OF n(1) assms(2) n(2) assms(5)])
  have mult: "(\<exists>j'<m. n * j + e + 1 = n * j') \<longleftrightarrow> e = n - 1" if "e < n" "j + 1 < m" for e j
  proof
    assume "\<exists>j'<m. n * j + e + 1 = n * j'"
    then have "(n * j + (e + 1)) mod n = 0" by (metis add.assoc mod_mult_self1_is_0)
    then have "(e + 1) mod n = 0" by simp
    then show "e = n - 1" using that(1) by (auto simp: mod_if split: if_splits)
  next
    assume "e = n - 1"
    then have "n * j + e + 1 = n * (j + 1)" using n(1) by simp
    then show "\<exists>j'<m. n * j + e + 1 = n * j'" using that(2) by blast
  qed
  have topb: "bit (top_bit n) e \<longleftrightarrow> e = n - 1" for e using n(1) assms(2) by (auto simp: top_bit_def bit_simps)
  have low: "lv n (k - 1) Y = replicate (k - 1) (top_bit n)"
  proof (rule nth_equalityI)
    fix l assume l: "l < length (lv n (k - 1) Y)"
    show "lv n (k - 1) Y ! l = replicate (k - 1) (top_bit n) ! l"
    proof (rule bit_word_eqI)
      fix e assume "e < LENGTH(32)"
      let ?j = "k - 1 - 1 - l"
      have "n * ?j + e + 1 < n * k" if "e < n"
      proof -
        have "n * ?j + e + 1 \<le> n * (?j + 1)" using that by simp
        also have "\<dots> < n * k" using n(1) l by (intro mult_less_mono2) auto
        finally show ?thesis .
      qed
      moreover have "?j + 1 < m" using l assms(4) by auto
      ultimately show "bit (lv n (k - 1) Y ! l) e = bit (replicate (k - 1) (top_bit n) ! l) e"
        using l n(1) assms(2) mult [of e ?j] Y [of "n * ?j + e"] topb [of e] by (cases "e < n") (auto simp: bit_lv)
    qed
  qed simp
  define b :: u32 where "b = ucast (drop_bit (n * (k - 1)) Y AND ucast (ones32 n))"
  have bb: "bit b e \<longleftrightarrow> e < n \<and> bit Y (n * (k - 1) + e)" for e using n(1) assms(2) by (auto simp: b_def bit_simps ones32_mask)
  have "\<not> bit b e" if "e \<noteq> n - 1" for e
  proof (cases "e < n")
    case True
    have nk: "n * k = n * (k - 1) + n" using assms(3) by (cases k) simp_all
    have "bit Y (n * (k - 1) + e) \<longleftrightarrow> (\<exists>j<m. n * (k - 1) + e + 1 = n * j)" using True that nk by (intro Y) simp
    moreover have "(n * (k - 1) + (e + 1)) mod n \<noteq> 0" using True that by simp
    ultimately show ?thesis unfolding bb by (metis add.assoc mod_mult_self1_is_0)
  qed (simp add: bb)
  then have "b = 0 \<or> b = top_bit n" using topb by (metis bit_word_eqI bit_0_eq bot_apply bot_bool_def)
  note bt = dec_top_Cons [OF assms(2) _ this]
  have lv: "lv n m Y = lv n (m - k) (drop_bit (n * k) Y) @ b # replicate (k - 1) (top_bit n)"
  proof -
    have "lv n ((m - k) + k) Y = lv n (m - k) (drop_bit (n * k) Y) @ lv n k Y" by (rule lv_append)
    moreover have "lv n k Y = b # lv n (k - 1) Y" using assms(3) by (cases k) (simp_all add: b_def)
    ultimately show ?thesis using assms(4) low by simp
  qed
  obtain r f where r: "r < n" "\<And>ys. dec n 0 0 (lv n (m - k) (drop_bit (n * k) Y) @ ys) = dec n 0 0 (lv n (m - k) (drop_bit (n * k) Y)) @ dec n r f ys"
    using dec_append [OF n(1)] by blast
  obtain x where D: "D = dec n 0 0 (lv n (m - k) (drop_bit (n * k) Y)) @ x # replicate (k - 1) 0"
    using bt [OF r(1), of f "k - 1"] by (auto simp: D_def lv r(2))
  have len: "length D = m" by (simp add: D_def)
  have fD: "list_all (fits n) D" unfolding D_def by (rule fits_dec [OF n(1)]) blast
  have fJ: "fits (n * m) (joinl n D 0)" using fits_joinl [OF n(1) fD] len by simp
  have pd: "p div n < k - 1" using p by (simp add: less_mult_imp_div_less mult.commute)
  have "D ! (m - 1 - p div n) = 0"
  proof -
    let ?P = "dec n 0 0 (lv n (m - k) (drop_bit (n * k) Y))"
    have "m - 1 - p div n = length ?P + Suc (k - 1 - 1 - p div n)" using pd assms(4) by simp
    then have "D ! (m - 1 - p div n) = (x # replicate (k - 1) 0) ! Suc (k - 1 - 1 - p div n)" unfolding D by (simp only: nth_append_length_plus)
    then show ?thesis using pd by simp
  qed
  moreover have "p < n * m"
  proof -
    have "n * (k - 1) \<le> n * m" using assms(4) by (intro mult_le_mono2) simp
    then show ?thesis using p by linarith
  qed
  moreover from this have "p < 64" using assms(5) by linarith
  ultimately have "\<not> bit (joinl n D 0) p" using bit_joinl [OF n(1) fD, of p 0] len by simp
  moreover have "gray n (of_index n m i) = joinl n D 0"
    unfolding of_index_def using gray_xor_prefix [OF n(1) fJ] by (simp add: D_def Y_def)
  ultimately show ?thesis using bit_gray [of n "of_index n m i" p] by simp
qed

section \<open>Parity\<close>

text \<open>The last bit of an index is the parity of the coordinates of its point.\<close>

definition par :: "'a::len word \<Rightarrow> bool" where
  "par w = odd (card {i. bit w i})"

lemma finite_bits [simp]: "finite {i. bit w i}" for w :: "'a::len word"
  by (rule finite_subset [of _ "{..<LENGTH('a)}"]) (auto dest: bit_imp_le_length)

lemma par_xor: "par (a XOR b) = (par a \<noteq> par b)"
proof -
  let ?A = "{i. bit a i}" and ?B = "{i. bit b i}"
  have "{i. bit (a XOR b) i} = (?A - ?B) \<union> (?B - ?A)" by (auto simp: bit_xor_iff)
  then have "card {i. bit (a XOR b) i} = card (?A - ?B) + card (?B - ?A)" by (simp add: card_Un_disjoint Int_def)
  moreover have "card ?A = card (?A \<inter> ?B) + card (?A - ?B)" "card ?B = card (?A \<inter> ?B) + card (?B - ?A)"
    by (simp_all add: card_Diff_subset_Int Int_commute) (metis Int_commute Int_lower1 card_mono finite_bits le_add_diff_inverse)+
  ultimately show ?thesis unfolding par_def by presburger
qed

lemma par_inj:
  assumes "{i. bit b i} = g ` {i. bit a i}" "inj_on g {i. bit a i}"
  shows "par b = par a"
  using assms by (simp add: par_def card_image)

lemma par_0 [simp]: "par 0 = False" by (simp add: par_def)

lemma par_flip: "r < LENGTH('a) \<Longrightarrow> par (push_bit r 1 :: 'a::len word)"
proof -
  assume "r < LENGTH('a)"
  then have "{i. bit (push_bit r 1 :: 'a word) i} = {r}" by (auto simp: bit_simps)
  then show ?thesis by (simp add: par_def)
qed

lemma par_drop1: "par (drop_bit 1 w) = (par w \<noteq> bit w 0)"
proof -
  have "{i. bit w i} = Suc ` {i. bit (drop_bit 1 w) i} \<union> (if bit w 0 then {0} else {})"
    by (auto simp: bit_drop_bit_eq image_iff gr0_conv_Suc) (metis not0_implies_Suc)+
  then have "card {i. bit w i} = card {i. bit (drop_bit 1 w) i} + (if bit w 0 then 1 else 0)"
    by (auto simp: card_Un_disjoint card_image)
  then show ?thesis by (auto simp: par_def)
qed

lemma bit0_xor_prefix: "fits N x \<Longrightarrow> bit (xor_prefix 1 N x) 0 = par x"
proof -
  assume f: "fits N x"
  let ?y = "xor_prefix 1 N x"
  have "x = ?y XOR drop_bit 1 ?y" using gray_xor_prefix [OF zero_less_one f] by (simp add: gray_def)
  then have "par x = (par ?y \<noteq> par (drop_bit 1 ?y))" by (metis par_xor)
  then show ?thesis unfolding par_drop1 by blast
qed

lemma par_rotateRight:
  assumes "r < n" "n \<le> 32" "fits n a"
  shows "par (ucast (rotateRight a r n) :: u32) = par a"
proof -
  let ?g = "\<lambda>i. (i + (n - r)) mod n"
  have n: "0 < n" using assms(1) by simp
  have lt: "i < n" if "bit a i" for i using assms(3) that by (auto simp: fits_def not_le [symmetric])
  have m: "(?g i + r) mod n = i" if "i < n" for i using mod_shift [OF n that, of "n - r" r] assms(1) by simp
  have m': "((i + r) mod n + (n - r)) mod n = i" if "i < n" for i using mod_shift [OF n that, of r "n - r"] assms(1) by simp
  have b: "bit (ucast (rotateRight a r n) :: u32) i \<longleftrightarrow> i < n \<and> bit a ((i + r) mod n)" for i
    using assms(2) by (auto simp: bit_simps bit_rotateRight [OF assms])
  show ?thesis
  proof (rule par_inj)
    show "{i. bit (ucast (rotateRight a r n) :: u32) i} = ?g ` {i. bit a i}"
      unfolding b
    proof (intro set_eqI iffI)
      fix i assume "i \<in> {i. i < n \<and> bit a ((i + r) mod n)}"
      then show "i \<in> ?g ` {i. bit a i}" using m' [of i] by (intro image_eqI [of _ _ "(i + r) mod n"]) auto
    next
      fix i assume "i \<in> ?g ` {i. bit a i}"
      then show "i \<in> {i. i < n \<and> bit a ((i + r) mod n)}" using m lt n by auto
    qed
    show "inj_on ?g {i. bit a i}" using m lt by (intro inj_on_inverseI [of _ "\<lambda>i. (i + r) mod n"]) auto
  qed
qed

definition parl :: "u32 list \<Rightarrow> bool" where
  "parl bs = odd (length (filter par bs))"

lemma parl_simps [simp]: "parl [] = False" "parl (b # bs) = (par b \<noteq> parl bs)" "parl (bs @ [b]) = (parl bs \<noteq> par b)"
  by (auto simp: parl_def)

lemma par_joinl:
  assumes "0 < n"
  shows "list_all (fits n) bs \<Longrightarrow> n * length bs \<le> 64 \<Longrightarrow> par (joinl n bs 0) = parl bs"
proof (induction bs rule: rev_induct)
  case (snoc b bs)
  let ?J = "joinl n bs 0"
  have fb: "fits n b" "list_all (fits n) bs" and len: "n * length bs + n \<le> 64" using snoc(2,3) by simp_all
  have J: "i < n * length bs" if "bit ?J i" for i using fits_joinl [OF assms fb(2)] that by (auto simp: fits_def not_le [symmetric])
  have "push_bit n ?J AND ucast b = 0" using fb(1) by (intro bit_word_eqI) (auto simp: bit_simps fits_def)
  then have "par (joinl n (bs @ [b]) 0) = (par (push_bit n ?J) \<noteq> par (ucast b :: u64))"
    unfolding par_xor [symmetric] by (simp add: joinl_snoc disjunctive_xor_eq_or)
  moreover have "par (push_bit n ?J) = par ?J"
  proof (rule par_inj)
    show "{i. bit (push_bit n ?J) i} = (+) n ` {i. bit ?J i}"
    proof (intro set_eqI iffI)
      fix i assume "i \<in> {i. bit (push_bit n ?J) i}"
      then show "i \<in> (+) n ` {i. bit ?J i}" by (intro image_eqI [of _ _ "i - n"]) (auto simp: bit_simps)
    next
      fix i assume "i \<in> (+) n ` {i. bit ?J i}"
      then obtain j where "i = n + j" "bit ?J j" by auto
      moreover then have "i < 64" using J [of j] len by simp
      ultimately show "i \<in> {i. bit (push_bit n ?J) i}" by (simp add: bit_simps)
    qed
  qed simp
  moreover have "par (ucast b :: u64) = par b" by (rule par_inj [of _ id]) (auto simp: bit_simps dest: bit_imp_le_length)
  ultimately show ?case using snoc(1) [OF fb(2)] len by simp
qed simp

lemma parl_enc_flip:
  "r < n \<Longrightarrow> n \<le> 32 \<Longrightarrow> fits n f \<Longrightarrow> par f \<Longrightarrow> list_all (fits n) gs \<Longrightarrow> parl (enc n r f gs) = (parl gs \<noteq> odd (length gs))"
proof (induction gs arbitrary: r f)
  case (Cons g gs)
  have "par (ucast (rotateRight (f XOR g) r n) :: u32) = (par f \<noteq> par g)"
    using par_rotateRight [OF Cons(2,3), of "f XOR g"] Cons(4,6) by (simp add: fits_ops(1) par_xor)
  moreover have "par (push_bit r 1 :: u32)" using Cons(2,3) by (intro par_flip) simp
  ultimately show ?case using Cons by (auto simp: Let_def rot_simps)
qed simp

lemma parl_enc:
  assumes "1 < n" "n \<le> 32" "list_all (fits n) gs" "gs \<noteq> []"
  shows "parl (enc n 0 0 gs) = (parl gs \<noteq> odd (length gs - 1))"
proof -
  obtain g gs' where gs: "gs = g # gs'" using assms(4) by (cases gs) auto
  have n: "0 < n" using assms(1) by simp
  let ?b = "ucast (rotateRight g 0 n) :: u32"
  have fg: "fits n g" "list_all (fits n) gs'" using assms(3) by (simp_all add: gs)
  have "par (push_bit 0 1 :: u32)" by (intro par_flip) simp
  then have "parl (enc n (adjust_rotation 0 n (drop_bit 1 (ones32 n)) ?b) (push_bit 0 1) gs') = (parl gs' \<noteq> odd (length gs'))"
    by (intro parl_enc_flip adjust_rotation_less fits_flip n assms(2) fg)
  moreover have "par ?b = par g" by (rule par_rotateRight [OF n assms(2) fg(1)])
  ultimately show ?thesis using fg by (simp add: Let_def gs) blast
qed

lemma par_nth_bits:
  assumes "0 < n" "n \<le> 32" "0 < m" "n * m \<le> 64"
  shows "par (drop_bit 1 (nth_bits n m)) = odd (m - 1)"
proof -
  let ?g = "\<lambda>j. n * Suc j - 1"
  have "{i. bit (drop_bit 1 (nth_bits n m)) i} = ?g ` {..<m - 1}"
  proof (intro set_eqI iffI)
    fix i assume "i \<in> {i. bit (drop_bit 1 (nth_bits n m)) i}"
    then obtain j where "j < m" "Suc i = n * j" by (auto simp: bit_drop_bit_eq bit_nth_bits [OF assms])
    then show "i \<in> ?g ` {..<m - 1}" by (intro image_eqI [of _ _ "j - 1"]) (cases j; auto)+
  next
    fix i assume "i \<in> ?g ` {..<m - 1}"
    then obtain j where "j < m - 1" "Suc i = n * Suc j" using assms(1) by auto
    then show "i \<in> {i. bit (drop_bit 1 (nth_bits n m)) i}" by (auto simp: bit_drop_bit_eq bit_nth_bits [OF assms] intro!: exI [of _ "Suc j"])
  qed
  moreover have "inj_on ?g {..<m - 1}"
  proof (rule inj_onI)
    fix x y assume "n * Suc x - 1 = n * Suc y - 1"
    then have "n * Suc x = n * Suc y" using assms(1) by (metis Suc_diff_1 mult_pos_pos zero_less_Suc)
    then show "x = y" using assms(1) by simp
  qed
  ultimately show ?thesis by (simp add: par_def card_image)
qed

lemma index_even:
  assumes "1 < n" "n \<le> 32" "0 < m" "n * m \<le> 64" "fits (n * m) t" "\<forall>d<n. \<not> bit t d"
  shows "\<not> bit (to_index n m t) 0"
proof -
  have n: "0 < n" "0 < n * m" using assms(1,3) by simp_all
  let ?gs = "lv n m (gray n t)"
  have fg: "fits (n * m) (gray n t)" using assms(5) by (auto simp: gray_def)
  have "fits (n * m) (joinl n (enc n 0 0 ?gs) 0 XOR drop_bit 1 (nth_bits n m))"
    using fits_joinl [OF n(1) fits_enc [OF n(1)], of 0 0 ?gs] fits_nth_bits [OF n(2)] by (intro fits_ops(1) fits_ops(5)) simp_all
  from bit0_xor_prefix [OF this] have "bit (to_index n m t) 0 = (par (joinl n (enc n 0 0 ?gs) 0) \<noteq> par (drop_bit 1 (nth_bits n m)))"
    by (simp only: to_index_def par_xor)
  also have "par (joinl n (enc n 0 0 ?gs) 0) = parl (enc n 0 0 ?gs)" using par_joinl [OF n(1) fits_enc [OF n(1)]] assms(4) by simp
  also have "\<dots> = (parl ?gs \<noteq> odd (m - 1))"
    using parl_enc [OF assms(1,2) fits_lv [OF n(1) assms(2)], of m "gray n t"] assms(3) by (cases m) auto
  also have "parl ?gs = par (gray n t)" using par_joinl [OF n(1) fits_lv [OF n(1) assms(2)], of m "gray n t"] joinl_lv [OF n(1) assms(2) fg] assms(4) by simp
  also have "par (gray n t) = (par t \<noteq> par (drop_bit n t))" by (simp only: gray_def par_xor)
  also have "par t = par (drop_bit n t)"
  proof (rule par_inj)
    show "{i. bit t i} = (+) n ` {i. bit (drop_bit n t) i}"
      using assms(6) by (auto simp: bit_drop_bit_eq image_iff) (metis le_add_diff_inverse not_le)
  qed simp
  finally show ?thesis using par_nth_bits [OF n(1) assms(2-4)] by simp
qed

end
