(* ===== verification/CurveCubes.thy ===== *)
theory CurveCubes
  imports CurveTop
begin

text \<open>
  Cubes on the Hilbert curve. The indices of an aligned cube form one interval, its ends are the indices of
  two corners of the cube, and the end is never the corner of the lower bounds: so \<^verbatim>\<open>bbox_flat\<close> computes the
  interval, and the tables of \<^verbatim>\<open>bbox_to_intv\<close> cover exactly the indices of the points of a box.
\<close>

unbundle bit_operations_syntax

section \<open>Upper levels\<close>

text \<open>The upper levels of an index determine the upper levels of its point.\<close>

lemma of_index_upper:
  assumes "0 < n" "n \<le> 32" "k \<le> m" "n * m \<le> 64" "0 < m" "drop_bit (n * k) s = drop_bit (n * k) t"
  shows "drop_bit (n * k) (of_index n m s) = drop_bit (n * k) (of_index n m t)"
proof -
  define Y where "Y = (\<lambda>i. gray 1 i XOR drop_bit 1 (nth_bits n m))"
  let ?x = "\<lambda>i. joinl n (dec n 0 0 (lv n m (Y i))) 0"
  have f0: "fits n (0 :: u32)" by blast
  have f: "fits (n * m) (?x t)" for t
    using fits_joinl [OF assms(1) fits_dec [OF assms(1) f0], of "lv n m (Y t)"] by simp
  have m: "m = (m - k) + k" using assms(3) by simp
  define P where "P = lv n (m - k) (drop_bit (n * k) (Y t))"
  obtain r f where a: "r < n" "\<And>ys. dec n 0 0 (P @ ys) = dec n 0 0 P @ dec n r f ys" using dec_append [OF assms(1)] by blast
  have lv: "lv n m (Y x) = P @ lv n k (Y x)" if "x = s \<or> x = t" for x
    using lv_append [of n "m - k" k "Y x"] m that assms(6) by (auto simp: P_def Y_def drop_bit_xor drop_gray)
  have up: "drop_bit (n * k) (?x i) = drop_bit (n * k) (push_bit (n * k) (joinl n (dec n 0 0 P) 0))" if "i = s \<or> i = t" for i
  proof -
    have "list_all (fits n) (dec n 0 0 (lv n m (Y i)))" by (rule fits_dec [OF assms(1) f0])
    then have "list_all (fits n) (dec n r f (lv n k (Y i)))" by (simp add: lv [OF that] a(2))
    from drop_joinl [OF assms(1) this] show ?thesis by (simp add: lv [OF that] a(2) joinl_append)
  qed
  then have "drop_bit (n * k) (?x s) = drop_bit (n * k) (?x t)" by simp
  then show ?thesis unfolding of_index_def drop_xor_prefix [OF assms(1) f [unfolded Y_def]] Y_def by simp
qed

section \<open>Coordinates and words\<close>

definition plane :: "nat \<Rightarrow> u64 list \<Rightarrow> u64" where
  "plane m p = bitTranspose (length p) m (pack m p)"

lemma plane_props:
  assumes "2 \<le> length p" "length p \<le> 32" "0 < m" "length p * m \<le> 64" "list_all (fits m) p"
  shows "fits (length p * m) (plane m p)"
    and "c < m \<Longrightarrow> d < length p \<Longrightarrow> bit (plane m p) (length p * c + d) = bit (p ! d) c"
proof -
  let ?n = "length p"
  have "2 * m \<le> ?n * m" using assms(1) by (intro mult_le_mono1)
  then have m: "m \<le> 32" using assms(4) by linarith
  note up = unpack_pack [OF assms(3) m assms(5)]
  have f: "fits (?n * m) (pack m p)" using up(2) assms(4) by (simp add: mult.commute)
  then show "fits (?n * m) (plane m p)" unfolding plane_def using fits_bitTranspose [OF assms(1,3,4)] by simp
  assume cd: "c < m" "d < ?n"
  have b: "bit (pack m p) (d * m + c) = bit (p ! d) c"
  proof -
    have "p ! d = unpack ?n m (pack m p) ! d" using up(1) assms(4) by (simp add: mult.commute)
    then show ?thesis using cd m by (simp add: unpack_def bit_simps ones32_mask)
  qed
  have u: "c' = c \<and> d' = d" if "?n * c + d = ?n * c' + d'" "d' < ?n" for c' d'
  proof -
    have "(?n * c + d) div ?n = c" using cd(2) by (intro div_nat_eqI) simp_all
    moreover have "(?n * c' + d') div ?n = c'" using that(2) by (intro div_nat_eqI) simp_all
    ultimately have "c' = c" using that(1) by simp
    then show ?thesis using that(1) by simp
  qed
  show "bit (plane m p) (?n * c + d) = bit (p ! d) c"
    unfolding plane_def bit_bitTranspose [OF assms(1,3,4) f] using cd b u by blast
qed

lemma level_split:
  fixes i n m :: nat
  assumes "i < n * m" "0 < n"
  obtains c d where "i = n * c + d" "c < m" "d < n"
  using that [of "i div n" "i mod n"] assms by (simp add: less_mult_imp_div_less mult.commute)

text \<open>The coordinates from \<open>k\<close> bits up are the levels of the word from \<open>k\<close> up.\<close>

lemma plane_upper:
  assumes p: "2 \<le> n" "n \<le> 32" "0 < m" "n * m \<le> 64" "length p = n" "list_all (fits m) p"
    and q: "length q = n" "list_all (fits m) q" and k: "k \<le> m"
  shows "drop_bit (n * k) (plane m p) = drop_bit (n * k) (plane m q) \<longleftrightarrow> (\<forall>d<n. drop_bit k (p ! d) = drop_bit k (q ! d))"
proof -
  note P = plane_props [of p m, unfolded p(5), OF p(1-4,6)] and Q = plane_props [of q m, unfolded q(1), OF p(1-4) q(2)]
  have n: "0 < n" using p(1) by simp
  have fd: "fits m (p ! d)" "fits m (q ! d)" if "d < n" for d using that p(5,6) q by (auto simp: list_all_length)
  have "drop_bit (n * k) (plane m p) = drop_bit (n * k) (plane m q) \<longleftrightarrow> (\<forall>c d. k \<le> c \<and> c < m \<and> d < n \<longrightarrow> bit (p ! d) c = bit (q ! d) c)" (is "?l \<longleftrightarrow> ?r")
  proof
    assume l: ?l
    show ?r
    proof (intro allI impI)
      fix c d assume c: "k \<le> c \<and> c < m \<and> d < n"
      then obtain e where e: "c = k + e" by (metis le_iff_add)
      have "bit (drop_bit (n * k) (plane m p)) (n * e + d) = bit (drop_bit (n * k) (plane m q)) (n * e + d)" using l by simp
      then show "bit (p ! d) c = bit (q ! d) c" using P(2) [of c d] Q(2) [of c d] c by (simp add: bit_drop_bit_eq e algebra_simps)
    qed
  next
    assume r: ?r
    show ?l
    proof (rule bit_word_eqI)
      fix i
      show "bit (drop_bit (n * k) (plane m p)) i = bit (drop_bit (n * k) (plane m q)) i"
      proof (cases "n * k + i < n * m")
        case True
        then obtain c d where cd: "n * k + i = n * c + d" "c < m" "d < n" using level_split n by metis
        have "k \<le> c"
        proof (rule ccontr)
          assume "\<not> k \<le> c"
          then have "n * Suc c \<le> n * k" by (intro mult_le_mono2) simp
          then show False using cd(1,3) by simp
        qed
        then show ?thesis using r cd P(2) Q(2) by (simp add: bit_drop_bit_eq)
      next
        case False
        then show ?thesis using P(1) Q(1) by (simp add: bit_drop_bit_eq fits_def)
      qed
    qed
  qed
  also have "\<dots> \<longleftrightarrow> (\<forall>d<n. drop_bit k (p ! d) = drop_bit k (q ! d))"
  proof
    assume r: "\<forall>c d. k \<le> c \<and> c < m \<and> d < n \<longrightarrow> bit (p ! d) c = bit (q ! d) c"
    show "\<forall>d<n. drop_bit k (p ! d) = drop_bit k (q ! d)"
    proof (intro allI impI bit_word_eqI)
      fix d i assume "d < n"
      then show "bit (drop_bit k (p ! d)) i = bit (drop_bit k (q ! d)) i"
        using r fd [of d] by (cases "k + i < m") (auto simp: bit_drop_bit_eq fits_def)
    qed
  next
    assume r: "\<forall>d<n. drop_bit k (p ! d) = drop_bit k (q ! d)"
    have "bit (p ! d) c = bit (q ! d) c" if "k \<le> c" "d < n" for c d
    proof -
      have "bit (drop_bit k (p ! d)) (c - k) = bit (drop_bit k (q ! d)) (c - k)" using r that(2) by simp
      then show ?thesis using that(1) by (simp add: bit_drop_bit_eq)
    qed
    then show "\<forall>c d. k \<le> c \<and> c < m \<and> d < n \<longrightarrow> bit (p ! d) c = bit (q ! d) c" by blast
  qed
  finally show ?thesis .
qed

section \<open>The indices of a cube\<close>

lemma unat_drop: "unat (drop_bit l w) = unat w div 2 ^ l"
  unfolding unat_drop_bit_eq by (rule drop_bit_eq_div)

lemma unat_take: "unat (take_bit l w) = unat w mod 2 ^ l"
  unfolding unsigned_take_bit_eq by (rule take_bit_eq_mod)

lemma drop_eq_iff: "drop_bit l v = drop_bit l w \<longleftrightarrow> unat v div 2 ^ l = unat w div 2 ^ l"
  by (simp only: word_unat_eq_iff unat_drop)

text \<open>The coordinates of an aligned cube of side \<open>2 ^ k\<close> are those that agree with its bounds from \<open>k\<close> bits up.\<close>

lemma cube_drop:
  assumes "cube k b" "j < ndims b"
  shows "lb b ! j \<le> x \<and> x \<le> ub b ! j \<longleftrightarrow> drop_bit k x = drop_bit k (lb b ! j)"
proof -
  let ?l = "unat (lb b ! j)" and ?u = "unat (ub b ! j)"
  have c: "2 ^ k dvd ?l" "?u + 1 = ?l + 2 ^ k" using assms by (auto simp: cube_def)
  obtain h where h: "?l = 2 ^ k * h" using c(1) by blast
  have "lb b ! j \<le> x \<and> x \<le> ub b ! j \<longleftrightarrow> 2 ^ k * h \<le> unat x \<and> unat x < 2 ^ k * h + 2 ^ k"
    using c(2) h by (auto simp: word_le_nat_alt)
  also have "\<dots> \<longleftrightarrow> unat x div 2 ^ k = h"
  proof
    assume "2 ^ k * h \<le> unat x \<and> unat x < 2 ^ k * h + 2 ^ k"
    then show "unat x div 2 ^ k = h" by (intro div_nat_eqI) simp_all
  next
    assume d: "unat x div 2 ^ k = h"
    have "unat x = 2 ^ k * h + unat x mod 2 ^ k" using mult_div_mod_eq [of "2 ^ k" "unat x"] by (simp only: d)
    moreover have "unat x mod 2 ^ k < 2 ^ k" by simp
    ultimately show "2 ^ k * h \<le> unat x \<and> unat x < 2 ^ k * h + 2 ^ k" by linarith
  qed
  finally show ?thesis by (simp add: drop_eq_iff h)
qed

text \<open>The words with the same bits from \<open>l\<close> up form an interval.\<close>

lemma same_upper:
  fixes v :: u64
  assumes "l < 64"
  defines "L \<equiv> push_bit l (drop_bit l v)" and "U \<equiv> push_bit l (drop_bit l v) OR mask l"
  shows "{w. drop_bit l w = drop_bit l v} = {L..U}"
    and "bit L p \<longleftrightarrow> l \<le> p \<and> bit v p" "bit U p \<longleftrightarrow> p < l \<or> bit v p"
proof -
  show L: "bit L p \<longleftrightarrow> l \<le> p \<and> bit v p" for p by (auto simp: L_def bit_simps dest: bit_imp_le_length)
  show U: "bit U p \<longleftrightarrow> p < l \<or> bit v p" for p using assms(1) by (auto simp: U_def bit_simps dest: bit_imp_le_length)
  let ?h = "unat (drop_bit l v)"
  have uL: "unat L = 2 ^ l * ?h"
  proof -
    have "drop_bit l L = drop_bit l v" by (rule bit_word_eqI) (simp add: bit_drop_bit_eq L)
    then have "unat L div 2 ^ l = ?h" by (metis unat_drop)
    moreover have "take_bit l L = 0" by (rule bit_word_eqI) (simp add: bit_take_bit_iff L)
    then have "unat L mod 2 ^ l = 0" by (metis unat_take unat_0)
    ultimately show ?thesis by (metis mult_div_mod_eq add_0_right)
  qed
  have uU: "unat U = 2 ^ l * ?h + (2 ^ l - 1)"
  proof -
    have "drop_bit l U = drop_bit l v" by (rule bit_word_eqI) (simp add: bit_drop_bit_eq U)
    then have d: "unat U div 2 ^ l = ?h" by (metis unat_drop)
    have "take_bit l U = take_bit l (- 1)" using assms(1) by (intro bit_word_eqI) (auto simp: bit_simps U)
    then have "unat U mod 2 ^ l = take_bit l (mask 64)"
      using unsigned_take_bit_eq [of l "- 1 :: u64"] by (simp only: unat_take [symmetric] unsigned_minus_1_eq_mask) simp
    moreover have "take_bit l (mask 64 :: nat) = mask l" using assms(1) by (simp add: min_def)
    ultimately have "unat U mod 2 ^ l = 2 ^ l - 1" by (simp only: mask_eq_exp_minus_1)
    moreover have "unat U = 2 ^ l * (unat U div 2 ^ l) + unat U mod 2 ^ l" by (simp only: mult_div_mod_eq)
    ultimately show ?thesis using d by simp
  qed
  have "drop_bit l w = drop_bit l v \<longleftrightarrow> L \<le> w \<and> w \<le> U" for w
  proof -
    have "drop_bit l w = drop_bit l v \<longleftrightarrow> unat w div 2 ^ l = ?h"
      by (simp only: word_unat_eq_iff unat_drop)
    also have "\<dots> \<longleftrightarrow> 2 ^ l * ?h \<le> unat w \<and> unat w < 2 ^ l * ?h + 2 ^ l"
      using div_nat_eqI [of "2 ^ l" ?h "unat w"] mult_div_mod_eq [of "2 ^ l" "unat w"] mod_less_divisor [of "2 ^ l" "unat w"]
      by (metis add_less_cancel_left le_add1 mult_Suc_right add.commute zero_less_numeral zero_less_power)
    also have "\<dots> \<longleftrightarrow> L \<le> w \<and> w \<le> U"
    proof -
      have "(1::nat) \<le> 2 ^ l" by simp
      then show ?thesis unfolding word_le_nat_alt uL uU by safe linarith+
    qed
    finally show ?thesis .
  qed
  then show "{w. drop_bit l w = drop_bit l v} = {L..U}" by (intro set_eqI) (simp only: mem_Collect_eq atLeastAtMost_iff)
qed

lemma cube_k: "cube k b \<Longrightarrow> j < ndims b \<Longrightarrow> k < 64"
proof (rule ccontr)
  assume c: "cube k b" "j < ndims b" and "\<not> k < 64"
  then have "(2::nat) ^ 64 \<le> 2 ^ k" by (intro power_increasing) simp_all
  moreover have "2 ^ k \<le> unat (ub b ! j) + 1" "unat (ub b ! j) < 9223372036854775808" using c by (auto simp: cube_def)
  ultimately show False by simp
qed

lemma cube_k_fits: "cube k b \<Longrightarrow> j < ndims b \<Longrightarrow> fits m (ub b ! j) \<Longrightarrow> k \<le> m"
proof -
  assume c: "cube k b" "j < ndims b" "fits m (ub b ! j)"
  have "2 ^ k \<le> unat (ub b ! j) + 1" using c(1,2) by (auto simp: cube_def)
  moreover have "unat (ub b ! j) < 2 ^ m"
  proof -
    have "int (unat (ub b ! j)) < int (2 ^ m)" using c(3) by (simp add: fits_uint)
    then show ?thesis by linarith
  qed
  ultimately have "(2::nat) ^ k \<le> 2 ^ m" by linarith
  then show ?thesis by simp
qed

lemma cube_bits:
  assumes "cube k b" "j < ndims b"
  shows "bit (ub b ! j) c \<longleftrightarrow> c < k \<or> bit (lb b ! j) c" "c < k \<Longrightarrow> \<not> bit (lb b ! j) c"
proof -
  note k = cube_k [OF assms]
  note S = same_upper [OF k, of "lb b ! j"]
  have "{lb b ! j..ub b ! j} = {w. drop_bit k w = drop_bit k (lb b ! j)}"
    by (intro set_eqI) (simp only: mem_Collect_eq atLeastAtMost_iff cube_drop [OF assms])
  also note S(1)
  finally have "{lb b ! j..ub b ! j} = {push_bit k (drop_bit k (lb b ! j))..push_bit k (drop_bit k (lb b ! j)) OR mask k}" .
  moreover have "lb b ! j \<le> ub b ! j" using cube_box(1) [OF assms(1)] assms(2) by (simp add: nonempty_bbox_def)
  ultimately have e: "lb b ! j = push_bit k (drop_bit k (lb b ! j))" "ub b ! j = push_bit k (drop_bit k (lb b ! j)) OR mask k"
    by (metis Icc_eq_Icc)+
  show "bit (ub b ! j) c \<longleftrightarrow> c < k \<or> bit (lb b ! j) c" by (subst e(2)) (rule S(3))
  show "c < k \<Longrightarrow> \<not> bit (lb b ! j) c" by (subst e(1)) (simp add: S(2))
qed

text \<open>The cubes the theory covers: \<open>n\<close> dimensions of \<open>m\<close> bits, with room for the index in a word.\<close>

definition in_grid :: "nat \<Rightarrow> nat \<Rightarrow> nat \<Rightarrow> bbox \<Rightarrow> bool" where
  "in_grid n m k b \<longleftrightarrow> 2 \<le> n \<and> n \<le> 32 \<and> 0 < m \<and> n * m < 64 \<and> cube k b \<and> ndims b = n \<and> list_all (fits m) (ub b)"

lemma in_gridD:
  assumes "in_grid n m k b"
  shows "2 \<le> n" "1 < n" "0 < n" "n \<le> 32" "0 < m" "n * m < 64" "n * m \<le> 64" "cube k b" "ndims b = n" "k \<le> m"
    "length (lb b) = n" "length (ub b) = n" "n * k < 64"
proof -
  show a: "2 \<le> n" "n \<le> 32" "0 < m" "n * m < 64" "cube k b" "ndims b = n" using assms by (auto simp: in_grid_def)
  then show "1 < n" "0 < n" "n * m \<le> 64" "length (lb b) = n" "length (ub b) = n" by (simp_all add: cube_def)
  then show k: "k \<le> m" using cube_k_fits [OF a(5), of 0 m] assms a(6) by (auto simp: in_grid_def list_all_length)
  then have "n * k \<le> n * m" by (intro mult_le_mono2)
  then show "n * k < 64" using a(4) by linarith
qed

lemma grid_points:
  assumes "in_grid n m k b"
  shows "p \<in> points b \<longleftrightarrow> length p = n \<and> list_all (fits m) p \<and> (\<forall>d<n. drop_bit k (p ! d) = drop_bit k (lb b ! d))"
proof -
  note g = in_gridD [OF assms]
  have "fits m x" if "x \<le> ub b ! d" "d < n" for x d
  proof -
    have "fits m (ub b ! d)" using assms that(2) g(12) by (auto simp: in_grid_def list_all_length)
    moreover have "uint x \<le> uint (ub b ! d)" using that(1) by (simp add: word_le_def)
    ultimately show ?thesis unfolding fits_uint by linarith
  qed
  moreover have "p ! d \<le> ub b ! d \<longleftrightarrow> p ! d \<le> ub b ! d \<and> fits m (p ! d)" if "d < n" for d using calculation that by blast
  ultimately have f: "list_all (fits m) p" if "length p = n" "\<forall>d<n. p ! d \<le> ub b ! d" using that by (auto simp: list_all_length)
  have "(\<forall>d<n. lb b ! d \<le> p ! d \<and> p ! d \<le> ub b ! d) \<longleftrightarrow> (\<forall>d<n. drop_bit k (p ! d) = drop_bit k (lb b ! d))"
    using cube_drop [OF g(8)] g(9) by auto
  then show ?thesis using f g(9) by (auto simp: points_def)
qed

lemma lb_in_points: "in_grid n m k b \<Longrightarrow> lb b \<in> points b"
  using in_gridD [of n m k b] cube_box(1) [of k b] by (simp add: points_def nonempty_bbox_def)

definition low :: "nat \<Rightarrow> nat \<Rightarrow> nat \<Rightarrow> bbox \<Rightarrow> u64" where
  "low n m k b = push_bit (n * k) (drop_bit (n * k) (hilbert_c2i n m (lb b)))"

definition high :: "nat \<Rightarrow> nat \<Rightarrow> nat \<Rightarrow> bbox \<Rightarrow> u64" where
  "high n m k b = push_bit (n * k) (drop_bit (n * k) (hilbert_c2i n m (lb b))) OR mask (n * k)"

lemma grid_index:
  assumes "in_grid n m k b" "1 < m" "length p = n" "list_all (fits m) p"
  shows "hilbert_c2i n m p = to_index n m (plane m p)" "plane m p = of_index n m (hilbert_c2i n m p)" "fits (n * m) (hilbert_c2i n m p)"
proof -
  note g = in_gridD [OF assms(1)]
  have f: "fits (n * m) (plane m p)" using plane_props(1) [of p m] g assms(3,4) by simp
  show e: "hilbert_c2i n m p = to_index n m (plane m p)" using hilbert_c2i_alt [OF g(2) assms(3)] assms(2,3) by (simp add: plane_def)
  note inv = index_inverse [OF g(2,4) assms(2) g(7) f]
  show "plane m p = of_index n m (hilbert_c2i n m p)" "fits (n * m) (hilbert_c2i n m p)" using inv(1,2) e by simp_all
qed

lemma cube_image:
  assumes "in_grid n m k b" "1 < m"
  shows "hilbert_c2i n m ` points b = {low n m k b..high n m k b}"
proof -
  note g = in_gridD [OF assms(1)] and P = grid_points [OF assms(1)] and I = grid_index [OF assms]
  let ?v = "hilbert_c2i n m (lb b)"
  have l: "length (lb b) = n" "list_all (fits m) (lb b)" using lb_in_points [OF assms(1)] P by auto
  have "hilbert_c2i n m ` points b = {w. drop_bit (n * k) w = drop_bit (n * k) ?v}"
  proof (intro set_eqI iffI)
    fix w assume "w \<in> hilbert_c2i n m ` points b"
    then obtain p where p: "w = hilbert_c2i n m p" "length p = n" "list_all (fits m) p" "\<forall>d<n. drop_bit k (p ! d) = drop_bit k (lb b ! d)"
      unfolding P image_iff by (auto simp: P)
    then have "drop_bit (n * k) (plane m p) = drop_bit (n * k) (plane m (lb b))"
      using plane_upper [OF g(1,4,5,7) p(2,3) l g(10)] by blast
    from to_index_upper [OF g(3,4,10,7,5) this] show "w \<in> {w. drop_bit (n * k) w = drop_bit (n * k) ?v}"
      using p I(1) l by simp
  next
    fix w assume "w \<in> {w. drop_bit (n * k) w = drop_bit (n * k) ?v}"
    then have w: "drop_bit (n * k) w = drop_bit (n * k) ?v" by simp
    have "n * k \<le> n * m" using g(10) by (intro mult_le_mono2)
    then have nm: "n * m = (n * m - n * k) + n * k" by simp
    have "drop_bit (n * m - n * k) (drop_bit (n * k) w) = drop_bit (n * m - n * k) (drop_bit (n * k) ?v)" by (simp only: w)
    then have "drop_bit (n * m) w = drop_bit (n * m) ?v" unfolding drop_bit_drop_bit nm [symmetric] .
    then have fw: "fits (n * m) w" using I(3) [OF l] by (simp add: fits_drop)
    define p where "p = hilbert_i2c n m w"
    note H = hilbert_inverse [OF g(3,4,5,7) l fw, folded p_def]
    have p: "length p = n" "list_all (fits m) p" "hilbert_c2i n m p = w" using H by blast+
    have "drop_bit (n * k) (plane m p) = drop_bit (n * k) (plane m (lb b))"
      using of_index_upper [OF g(3,4,10,7,5) w] I(2) [OF p(1,2)] I(2) [OF l] p(3) by simp
    then have "p \<in> points b" unfolding P using plane_upper [OF g(1,4,5,7) p(1,2) l g(10)] p(1,2) by blast
    then show "w \<in> hilbert_c2i n m ` points b" using p(3) by blast
  qed
  then show ?thesis unfolding same_upper(1) [OF g(13)] low_def high_def .
qed

section \<open>The ends are corners\<close>

lemma low_high:
  assumes "in_grid n m k b"
  shows "p < n * k \<Longrightarrow> \<not> bit (low n m k b) p" "p < n * k \<Longrightarrow> bit (high n m k b) p" "low n m k b \<le> high n m k b"
proof -
  note S = same_upper [OF in_gridD(13) [OF assms], of "hilbert_c2i n m (lb b)", folded low_def high_def]
  show "p < n * k \<Longrightarrow> \<not> bit (low n m k b) p" "p < n * k \<Longrightarrow> bit (high n m k b) p" using S(2,3) [of p] by simp_all
  have "hilbert_c2i n m (lb b) \<in> {low n m k b..high n m k b}" using S(1) by blast
  then show "low n m k b \<le> high n m k b" by auto
qed

lemma corner_point:
  assumes "in_grid n m k b" "i < 2 ^ n"
  shows "sfc_corner b i \<in> points b"
  using in_gridD(9) [OF assms(1)] cube_box(1) [OF in_gridD(8) [OF assms(1)]]
  by (auto simp: points_def sfc_corner_alt nonempty_bbox_def)

text \<open>An index whose low levels are all zeros, or all ones, belongs to a corner.\<close>

lemma corner_attained:
  assumes "in_grid n m k b" "1 < m" "0 < k" "w \<in> {low n m k b..high n m k b}" and c: "\<forall>p<n * k. bit w p = c"
  shows "\<exists>i<2 ^ n. hilbert_c2i n m (sfc_corner b i) = w"
proof -
  note g = in_gridD [OF assms(1)] and P = grid_points [OF assms(1)] and I = grid_index [OF assms(1,2)]
  obtain p where p: "p \<in> points b" "hilbert_c2i n m p = w" using assms(4) unfolding cube_image [OF assms(1,2), symmetric] by blast
  have q: "length p = n" "list_all (fits m) p" "\<And>d. d < n \<Longrightarrow> drop_bit k (p ! d) = drop_bit k (lb b ! d)" using p(1) unfolding P by auto
  have pl: "plane m p = of_index n m w" "fits (n * m) w" using I(2,3) [OF q(1,2)] p(2) by simp_all
  have B: "bit (plane m p) (n * c + d) = bit (p ! d) c" if "c < m" "d < n" for c d
    using plane_props(2) [of p m c d] q(1,2) g that by simp
  have step: "bit (p ! d) c = bit (p ! d) (Suc c)" if "d < n" "Suc c < k" for c d
  proof -
    have "n * c + d < n * Suc c" using that(1) by simp
    also have "n * Suc c \<le> n * (k - 1)" using that(2) by (intro mult_le_mono2) simp
    finally have "n * c + d < n * (k - 1)" .
    from corner_levels [OF g(2,4) assms(3) g(10,7) pl(2) c this]
    have "bit (plane m p) (n * c + d) = bit (plane m p) (n * Suc c + d)" by (simp add: pl(1) algebra_simps)
    then show ?thesis using B [of c d] B [of "Suc c" d] that g(10) by simp
  qed
  have all: "bit (p ! d) c = bit (p ! d) 0" if "d < n" "c < k" for c d
    using that(2) by (induction c) (use step [OF that(1)] in auto)
  obtain i :: nat where i: "i < 2 ^ n" "\<forall>j<n. bit i j \<longleftrightarrow> bit (p ! j) 0" by (rule bits_of_halves)
  have "sfc_corner b i = p"
  proof (rule nth_equalityI)
    show "length (sfc_corner b i) = length p" using q(1) g(9) by (simp add: sfc_corner_alt)
    fix d assume "d < length (sfc_corner b i)"
    then have d: "d < n" "d < ndims b" using g(9) by (simp_all add: sfc_corner_alt)
    have "p ! d = (if bit (p ! d) 0 then ub b ! d else lb b ! d)"
    proof (rule bit_word_eqI)
      fix c
      have "bit (drop_bit k (p ! d)) (c - k) = bit (drop_bit k (lb b ! d)) (c - k)" using q(3) d by simp
      then have "bit (p ! d) c = bit (lb b ! d) c" if "k \<le> c" using that by (simp add: bit_drop_bit_eq)
      then show "bit (p ! d) c = bit (if bit (p ! d) 0 then ub b ! d else lb b ! d) c"
        using all [OF d(1), of c] cube_bits [OF g(8) d(2), of c] by (cases "c < k") auto
    qed
    then show "sfc_corner b i ! d = p ! d" using i(2) d by (auto simp: sfc_corner_alt)
  qed
  then show ?thesis using i(1) p(2) by blast
qed

text \<open>The first corner has an even index, so it is not the end.\<close>

lemma corner_zero:
  assumes "in_grid n m k b" "1 < m" "0 < k"
  shows "hilbert_c2i n m (sfc_corner b 0) \<noteq> high n m k b"
proof -
  note g = in_gridD [OF assms(1)]
  have l: "length (lb b) = n" "list_all (fits m) (lb b)" using lb_in_points [OF assms(1)] grid_points [OF assms(1)] by auto
  have "sfc_corner b 0 = lb b" using g(9,11) by (auto simp: sfc_corner_alt intro!: nth_equalityI)
  moreover have "fits (n * m) (plane m (lb b))" using plane_props(1) [of "lb b" m] g l by simp
  moreover have "\<not> bit (plane m (lb b)) d" if "d < n" for d
    using plane_props(2) [of "lb b" m 0 d] cube_bits(2) [OF g(8), of d 0] g l assms(2,3) that by simp
  ultimately have "\<not> bit (hilbert_c2i n m (sfc_corner b 0)) 0"
    using index_even [OF g(2,4,5,7)] grid_index(1) [OF assms(1,2) l] by simp
  moreover have "bit (high n m k b) 0" using low_high(2) [OF assms(1), of 0] g(3) assms(3) by simp
  ultimately show ?thesis by metis
qed

text \<open>
  The running minimum and maximum of \<^verbatim>\<open>bbox_flat\<close>: a new minimum is not compared with the maximum, so the
  result is right when the largest index is not only the first.
\<close>

lemma flat_fold:
  fixes f :: "nat \<Rightarrow> u64"
  assumes r: "\<And>i. i < N \<Longrightarrow> L \<le> f i \<and> f i \<le> U" and l: "\<exists>i<N. f i = L" and u: "\<exists>i<N. 0 < i \<and> f i = U" and U: "U < NOT 0"
  shows "fold (\<lambda>i itv. if f i < i_lb itv then itv\<lparr>i_lb := f i\<rparr> else if f i > i_ub itv then itv\<lparr>i_ub := f i\<rparr> else itv) [0..<N]
    \<lparr>i_lb = NOT 0, i_ub = 0\<rparr> = \<lparr>i_lb = L, i_ub = U\<rparr>"
proof -
  let ?s = "\<lambda>i itv. if f i < i_lb itv then itv\<lparr>i_lb := f i\<rparr> else if f i > i_ub itv then itv\<lparr>i_ub := f i\<rparr> else itv"
  have inv: "L \<le> i_lb s \<and> i_ub s \<le> U \<and> (\<forall>i<j. i_lb s \<le> f i) \<and> (\<forall>i<j. 0 < i \<longrightarrow> f i = U \<longrightarrow> i_ub s = U)"
    if "j \<le> N" "s = fold ?s [0..<j] \<lparr>i_lb = NOT 0, i_ub = 0\<rparr>" for j s
    using that
  proof (induction j arbitrary: s)
    case 0
    have "L \<le> NOT 0" using l r U by (metis less_imp_le order_trans)
    then show ?case using 0 by simp
  next
    case (Suc j)
    define t where "t = fold ?s [0..<j] \<lparr>i_lb = NOT 0, i_ub = 0\<rparr>"
    have IH: "L \<le> i_lb t" "i_ub t \<le> U" "\<And>i. i < j \<Longrightarrow> i_lb t \<le> f i" "\<And>i. i < j \<Longrightarrow> 0 < i \<Longrightarrow> f i = U \<Longrightarrow> i_ub t = U"
      using Suc.IH [OF _ t_def] Suc.prems(1) by auto
    have s: "s = ?s j t" using Suc.prems(2) by (simp add: t_def)
    have j: "L \<le> f j" "f j \<le> U" using r [of j] Suc.prems(1) by auto
    have "i_lb s \<le> f i" if "i < Suc j" for i
      using IH(3) [of i] that by (auto simp: s less_Suc_eq not_less intro: less_imp_le order_trans)
    moreover have "i_ub s = U" if "i < Suc j" "0 < i" "f i = U" for i
    proof (cases "i = j")
      case True
      have "i_lb t \<le> f 0" using IH(3) [of 0] that(2) True by simp
      also have "f 0 \<le> U" using r [of 0] Suc.prems(1) by simp
      finally have "\<not> f j < i_lb t" using that(3) True by (simp add: not_less)
      then show ?thesis using IH(2) that(3) True by (auto simp: s not_less)
    next
      case False
      then have "i < j" using that(1) by simp
      then have "i_ub t = U" using IH(4) that(2,3) by blast
      then show ?thesis using j(2) by (auto simp: s not_less)
    qed
    moreover have "L \<le> i_lb s" "i_ub s \<le> U" using IH(1,2) j by (auto simp: s)
    ultimately show ?case by blast
  qed
  define s where "s = fold ?s [0..<N] \<lparr>i_lb = NOT 0, i_ub = 0\<rparr>"
  have *: "L \<le> i_lb s" "i_ub s \<le> U" "\<And>i. i < N \<Longrightarrow> i_lb s \<le> f i" "\<And>i. i < N \<Longrightarrow> 0 < i \<Longrightarrow> f i = U \<Longrightarrow> i_ub s = U"
    using inv [OF order_refl s_def] by auto
  have "i_lb s = L" using l *(1,3) by (metis order_antisym)
  moreover have "i_ub s = U" using u *(4) by blast
  ultimately show ?thesis unfolding s_def [symmetric] by simp
qed

lemma fits_not_max:
  fixes w :: u64
  assumes "fits l w" "l < 64"
  shows "w < NOT 0" "unat w < 18446744073709551615"
proof -
  have "\<not> bit w l" using assms(1) by (simp add: fits_def)
  then have "w \<noteq> NOT 0" using assms(2) by auto
  then show "w < NOT 0" using word_order.not_eq_extremum [of w] by simp
  then show "unat w < 18446744073709551615"
    by (simp add: word_less_nat_alt unsigned_minus_1_eq_mask mask_eq_exp_minus_1)
qed

lemma bbox_flat_fold:
  assumes n: "ndims b = n"
  shows "bbox_flat b m =
    fold (\<lambda>i itv. if hilbert_c2i n m (sfc_corner b i) < i_lb itv then itv\<lparr>i_lb := hilbert_c2i n m (sfc_corner b i)\<rparr>
      else if hilbert_c2i n m (sfc_corner b i) > i_ub itv then itv\<lparr>i_ub := hilbert_c2i n m (sfc_corner b i)\<rparr> else itv)
    [0..<2 ^ n] \<lparr>i_lb = NOT 0, i_ub = 0\<rparr>"
  unfolding bbox_flat_def flat_step_def [abs_def] Let_def n ..

lemma two_corners: "2 \<le> n \<Longrightarrow> 1 < (2::nat) ^ n"
  by (rule one_less_power) simp_all

lemma bbox_flat_cube:
  assumes "in_grid n m k b" "1 < m" "0 < k"
  shows "bbox_flat b m = \<lparr>i_lb = low n m k b, i_ub = high n m k b\<rparr>" "unat (high n m k b) < 18446744073709551615"
proof -
  note g = in_gridD [OF assms(1)] and im = cube_image [OF assms(1,2)] and lh = low_high [OF assms(1)]
  have "high n m k b \<in> hilbert_c2i n m ` points b" unfolding im using lh(3) by simp
  then have "fits (n * m) (high n m k b)" using grid_index(3) [OF assms(1,2)] grid_points [OF assms(1)] by auto
  note mx = fits_not_max [OF this g(6)]
  then show "unat (high n m k b) < 18446744073709551615" by simp
  let ?f = "\<lambda>i. hilbert_c2i n m (sfc_corner b i)"
  have r: "low n m k b \<le> ?f i \<and> ?f i \<le> high n m k b" if "i < 2 ^ n" for i
  proof -
    have "?f i \<in> {low n m k b..high n m k b}" unfolding im [symmetric] using corner_point [OF assms(1) that] by blast
    then show ?thesis by simp
  qed
  have "low n m k b \<in> {low n m k b..high n m k b}" using lh(3) by simp
  from corner_attained [OF assms this, of False] lh(1) have l: "\<exists>i<2 ^ n. ?f i = low n m k b" by blast
  have "high n m k b \<in> {low n m k b..high n m k b}" using lh(3) by simp
  from corner_attained [OF assms this, of True] lh(2) obtain i where i: "i < 2 ^ n" "?f i = high n m k b" by blast
  have "0 < i" using corner_zero [OF assms] i(2) by (cases i) auto
  with i have u: "\<exists>i<2 ^ n. 0 < i \<and> ?f i = high n m k b" by blast
  show "bbox_flat b m = \<lparr>i_lb = low n m k b, i_ub = high n m k b\<rparr>"
    unfolding bbox_flat_fold [OF g(9)] by (rule flat_fold [OF r l u mx(1)])
qed

lemma bbox_flat_unit:
  assumes "in_grid n m 0 b"
  shows "bbox_flat b m = \<lparr>i_lb = hilbert_c2i n m (lb b), i_ub = hilbert_c2i n m (lb b)\<rparr>" "points b = {lb b}"
    "unat (hilbert_c2i n m (lb b)) < 18446744073709551615"
proof -
  note g = in_gridD [OF assms] and P = grid_points [OF assms]
  have l: "length (lb b) = n" "list_all (fits m) (lb b)" using lb_in_points [OF assms] P by auto
  show s: "points b = {lb b}" using P l by (auto intro: nth_equalityI)
  have "fits (n * m) (hilbert_c2i n m (lb b))" using hilbert_inverse [OF g(3,4,5,7) l, of 0] by blast
  note mx = fits_not_max [OF this g(6)]
  then show "unat (hilbert_c2i n m (lb b)) < 18446744073709551615" by simp
  let ?f = "\<lambda>i. hilbert_c2i n m (sfc_corner b i)"
  have f: "?f i = hilbert_c2i n m (lb b)" if "i < 2 ^ n" for i using corner_point [OF assms that] s by simp
  note two = two_corners [OF g(1)]
  show "bbox_flat b m = \<lparr>i_lb = hilbert_c2i n m (lb b), i_ub = hilbert_c2i n m (lb b)\<rparr>"
    unfolding bbox_flat_fold [OF g(9)]
  proof (rule flat_fold)
    show "\<exists>i<2 ^ n. ?f i = hilbert_c2i n m (lb b)" using f two by (intro exI [of _ 0]) simp
    show "\<exists>i<2 ^ n. 0 < i \<and> ?f i = hilbert_c2i n m (lb b)" using f two by (intro exI [of _ 1]) simp
    show "hilbert_c2i n m (lb b) \<le> ?f i \<and> ?f i \<le> hilbert_c2i n m (lb b)" if "i < 2 ^ n" for i using f [OF that] by simp
  qed (rule mx(1))
qed

section \<open>The curve satisfies the contract\<close>

definition hilbert_cube :: "nat \<Rightarrow> nat \<Rightarrow> bbox \<Rightarrow> bool" where
  "hilbert_cube n m b \<longleftrightarrow> cube1 b \<and> n = 1 \<or> (\<exists>k. in_grid n m k b \<and> (1 < m \<or> k = 0))"

interpretation hilbert: sfc_curve "hilbert_c2i n m" "\<lambda>b. bbox_flat b m" "hilbert_cube n m" for n m
proof
  fix b assume "hilbert_cube n m b"
  then consider "cube1 b" "n = 1" | k where "in_grid n m k b" "1 < m" "0 < k" | "in_grid n m 0 b"
    unfolding hilbert_cube_def by (metis neq0_conv)
  then have "iv (bbox_flat b m) = hilbert_c2i n m ` points b \<and> intv_ok (bbox_flat b m)"
  proof cases
    case 1
    then show ?thesis using line.flat_image line.flat_ok by simp
  next
    case (2 k)
    then show ?thesis using bbox_flat_cube [OF 2] cube_image [OF 2(1,2)] low_high(3) [OF 2(1)] by (simp add: intv_ok_def)
  next
    case 3
    then show ?thesis using bbox_flat_unit [OF 3] by (simp add: intv_ok_def)
  qed
  then show "iv (bbox_flat b m) = hilbert_c2i n m ` points b" "intv_ok (bbox_flat b m)" by blast+
qed

lemma compute_bits_pow: "K \<le> 63 \<Longrightarrow> compute_bits (2 ^ K) = Suc K"
proof (induction K)
  case 0
  show ?case by (simp add: compute_bits.simps [of 0] compute_bits.simps [of 1])
next
  case (Suc K)
  have "drop_bit 1 (2 ^ Suc K :: u64) = 2 ^ K"
    using Suc.prems by (intro bit_word_eqI) (auto simp: bit_simps simp del: power_Suc)
  moreover have "(2 ^ Suc K :: u64) \<noteq> 0" using Suc.prems bit_exp_iff [of "Suc K" "Suc K", where 'a = "64 word"] by fastforce
  ultimately show ?case using Suc by (subst compute_bits.simps) simp
qed

lemma virt_box_bound:
  assumes "wf_bbox bb" "K \<le> 62" "p \<in> points (virt_box bb (2 ^ K))"
  shows "length p = ndims bb" "list_all (fits (Suc K)) p" "j < ndims bb \<Longrightarrow> p ! j \<le> 2 ^ K - 1"
proof -
  have n: "ndims bb \<le> 10" using assms(1) by simp
  have "ub (virt_box bb (2 ^ K)) ! j = 2 ^ K - 1" if "j < ndims bb" for j
    using that n by (simp add: virt_box_def BBOX_MAX_NDIM_def fold_upd_upt nth_append)
  then show le: "p ! j \<le> 2 ^ K - 1" if "j < ndims bb" for j
    using assms(3) that by (auto simp: points_def virt_box_def)
  show l: "length p = ndims bb" using assms(3) by (simp add: points_def virt_box_def)
  have "fits (Suc K) (p ! j)" if "j < ndims bb" for j
  proof -
    have "unat (p ! j) \<le> 2 ^ K - 1" using le [OF that] unat_side [of K] assms(2) by (simp add: word_le_nat_alt)
    moreover have "(2 :: nat) ^ K - 1 < 2 ^ Suc K" by (simp add: less_imp_diff_less)
    ultimately have "unat (p ! j) < 2 ^ Suc K" by linarith
    then have "int (unat (p ! j)) < int (2 ^ Suc K)" by (simp only: of_nat_less_iff)
    then show ?thesis by (simp add: fits_uint)
  qed
  then show "list_all (fits (Suc K)) p" using l by (simp add: list_all_length)
qed

text \<open>The cubes of the decomposition: they are cubes of the curve, and every point lies in one of them at most.\<close>

lemma hilbert_cells:
  assumes "wf_bbox bb" "nonempty_bbox bb" "wf_bbox junk" "1 \<le> ndims bb" "ndims bb * Suc K < 64"
  obtains g where "bbox_to_intv2 ijunk junk bb (2 ^ K) bpd = Some (sort_compact ijunk (map (\<lambda>b. bbox_flat b (Suc K)) g))"
    "bbox_to_intv ijunk bb (2 ^ K) bpd = bbox_to_intv2 ijunk junk bb (2 ^ K) bpd"
    "list_all (hilbert_cube (ndims bb) (Suc K)) g" "\<forall>p. cnt p g \<le> 1"
    "(\<Union>b\<in>set g. points b) = points bb \<inter> points (virt_box bb (2 ^ K))"
proof -
  let ?n = "ndims bb" and ?V = "points bb \<inter> points (virt_box bb (2 ^ K))"
  have "1 * Suc K \<le> ?n * Suc K" using assms(4) by (rule mult_le_mono1)
  then have "1 * Suc K < 64" using assms(5) by (rule le_less_trans)
  then have K: "K \<le> 62" by simp
  then have K': "K \<le> 63" by simp
  have "?n \<le> 10" using assms(1) by simp
  then have n: "0 < ?n" "?n \<le> 32" "?n * Suc K \<le> 64" using assms(4,5) by simp_all
  note cb = compute_bits_pow [OF K'] and vb = virt_box_bound [OF assms(1) K]
  obtain g where g: "bbox_to_intv2 ijunk junk bb (2 ^ K) bpd = Some (sort_compact ijunk (map (\<lambda>b. bbox_flat b (Suc K)) g))"
    "bbox_to_intv ijunk bb (2 ^ K) bpd = bbox_to_intv2 ijunk junk bb (2 ^ K) bpd"
    "cubes_like bb g" "\<forall>p. cnt p g = (if p \<in> points bb \<and> p \<in> points (virt_box bb (2 ^ K)) then 1 else 0)"
    using bbox_to_intv_both [OF assms(1-3) K', of ijunk bpd] unfolding cb by auto
  have un: "(\<Union>b\<in>set g. points b) = ?V"
  proof (rule set_eqI)
    fix p
    show "p \<in> (\<Union>b\<in>set g. points b) \<longleftrightarrow> p \<in> ?V" using g(4) cnt_pos_iff [of p g] by (auto split: if_splits)
  qed
  have "hilbert_cube ?n (Suc K) b" if b: "b \<in> set g" for b
  proof -
    obtain k where k: "cube k b" "num_dims b = num_dims bb" using g(3) b by (auto simp: cubes_like_def)
    have "ub b \<in> points b" using k cube_box(1) [OF k(1)] by (simp add: points_def nonempty_bbox_def cube_def)
    then have u: "ub b \<in> points (virt_box bb (2 ^ K))" using un b by auto
    show ?thesis
    proof (cases "?n = 1")
      case True
      then show ?thesis using k by (auto simp: hilbert_cube_def cube1_def)
    next
      case False
      then have grid: "in_grid ?n (Suc K) k b" using k n assms(4,5) vb(2) [OF u] by (simp add: in_grid_def)
      have "k = 0" if "K = 0"
      proof -
        have "ub b ! 0 \<le> 2 ^ K - 1" using vb(3) [OF u n(1)] .
        then have "unat (ub b ! 0) = 0" using that by simp
        moreover have "unat (ub b ! 0) + 1 = unat (lb b ! 0) + 2 ^ k" using k n(1) by (simp add: cube_def)
        ultimately have "(2::nat) ^ k \<le> 2 ^ 0" unfolding power_0 by linarith
        then show ?thesis using power_increasing_iff [of "2::nat" k 0] by simp
      qed
      then show ?thesis using grid by (auto simp: hilbert_cube_def)
    qed
  qed
  then have "list_all (hilbert_cube ?n (Suc K)) g" by (simp add: list_all_iff)
  then show ?thesis using that g(1,2,4) un by simp
qed

lemma hilbert_back:
  assumes "wf_bbox bb" "1 \<le> ndims bb" "ndims bb * Suc K < 64" "p \<in> points (virt_box bb (2 ^ K))"
  shows "hilbert_i2c (ndims bb) (Suc K) (hilbert_c2i (ndims bb) (Suc K) p) = p"
proof -
  let ?n = "ndims bb"
  have "1 * Suc K \<le> ?n * Suc K" using assms(2) by (rule mult_le_mono1)
  then have "1 * Suc K < 64" using assms(3) by (rule le_less_trans)
  then have K: "K \<le> 62" by simp
  have "?n \<le> 10" using assms(1) by simp
  then have n: "0 < ?n" "?n \<le> 32" "0 < Suc K" "?n * Suc K \<le> 64" using assms(2,3) by simp_all
  have "fits (?n * Suc K) (0 :: u64)" by blast
  then show ?thesis using hilbert_inverse [OF n virt_box_bound(1,2) [OF assms(1) K assms(4)], of 0] by blast
qed

text \<open>
  C19: the decomposition is right in every dimension. For a box that meets the virtual domain of side
  \<open>2 ^ K\<close>, as long as the indices of the curve stay below \<open>2 ^ 63\<close>, the intervals \<^verbatim>\<open>bbox_to_intv2\<close>
  returns hold exactly the Hilbert indices of the points of the box in the domain, and mapping them back with
  \<^verbatim>\<open>hilbert_i2c\<close> gives exactly these points.
\<close>

theorem bbox_to_intv2_covers:
  assumes "wf_bbox bb" "nonempty_bbox bb" "wf_bbox junk" "1 \<le> ndims bb" "ndims bb * Suc K < 64"
    and "points bb \<inter> points (virt_box bb (2 ^ K)) \<noteq> {}"
  shows "\<exists>tab. bbox_to_intv2 ijunk junk bb (2 ^ K) bpd = Some tab \<and>
    (\<Union>i\<in>set tab. iv i) = hilbert_c2i (ndims bb) (Suc K) ` (points bb \<inter> points (virt_box bb (2 ^ K))) \<and>
    hilbert_i2c (ndims bb) (Suc K) ` (\<Union>i\<in>set tab. iv i) = points bb \<inter> points (virt_box bb (2 ^ K))"
proof -
  let ?V = "points bb \<inter> points (virt_box bb (2 ^ K))"
  obtain g where g: "bbox_to_intv2 ijunk junk bb (2 ^ K) bpd = Some (sort_compact ijunk (map (\<lambda>b. bbox_flat b (Suc K)) g))"
    "list_all (hilbert_cube (ndims bb) (Suc K)) g" "(\<Union>b\<in>set g. points b) = ?V"
    by (rule hilbert_cells [OF assms(1-5)])
  have "g \<noteq> []" using g(3) assms(6) by auto
  from hilbert.table_cover [OF g(2) this, of ijunk] g(3)
  have c: "(\<Union>i\<in>set (sort_compact ijunk (map (\<lambda>b. bbox_flat b (Suc K)) g)). iv i) = hilbert_c2i (ndims bb) (Suc K) ` ?V" by simp
  have "hilbert_i2c (ndims bb) (Suc K) ` hilbert_c2i (ndims bb) (Suc K) ` ?V = ?V"
    using hilbert_back [OF assms(1,4,5)] by (force simp: image_image)
  with g(1) c show ?thesis by simp
qed

theorem bbox_to_intv2_covers_witness:
  "\<exists>tab. bbox_to_intv2 \<lparr>i_lb = 0, i_ub = 0\<rparr> (mk_box [] []) (mk_box [1, 0] [2, 3]) (2 ^ 2) 0 = Some tab \<and>
     hilbert_i2c 2 3 ` (\<Union>i\<in>set tab. iv i) = points (mk_box [1, 0] [2, 3]) \<inter> points (virt_box (mk_box [1, 0] [2, 3]) (2 ^ 2))"
proof -
  let ?bb = "mk_box [1, 0] [2, 3]"
  have b: "wf_bbox ?bb" "nonempty_bbox ?bb" "wf_bbox (mk_box [] [])" by (simp_all add: mk_box_simps)
  have d: "ndims ?bb = 2" by (simp add: mk_box_simps)
  then have d': "1 \<le> ndims ?bb" "ndims ?bb * Suc 2 < 64" by simp_all
  have "[1, 0] \<in> points ?bb \<inter> points (virt_box ?bb (2 ^ 2))"
    by (simp add: points_def mk_box_def virt_box_def BBOX_MAX_NDIM_def less_2_cases_iff upt_rec)
  then have "points ?bb \<inter> points (virt_box ?bb (2 ^ 2)) \<noteq> {}" by blast
  from bbox_to_intv2_covers [OF b d' this, of "\<lparr>i_lb = 0, i_ub = 0\<rparr>" 0] show ?thesis by (auto simp: d numeral_3_eq_3)
qed

end
