(* ===== verification/ObjDesc.thy ===== *)
theory ObjDesc
  imports BBox
begin

text \<open>
  Object descriptors and data objects: \<^verbatim>\<open>obj_descriptor\<close>, \<^verbatim>\<open>struct obj_data\<close> and
  \<^verbatim>\<open>struct global_dimension\<close> of \<^verbatim>\<open>include/ss_data.h\<close> with the descriptor predicates, the size
  computation and the allocation functions of \<^verbatim>\<open>src/ss_data.c\<close>. A data buffer is a list of
  bytes; the contents \<^verbatim>\<open>malloc\<close> leaves in a fresh buffer are the argument \<open>junk\<close>.
\<close>

section \<open>Data\<close>

type_synonym byte = "8 word"

datatype storage_type = row_major | column_major

definition DS_CLIENT_STORAGE :: u32 where "DS_CLIENT_STORAGE = 1"
definition DS_OBJ_RESIZE :: u32 where "DS_OBJ_RESIZE = 2"

record obj_descriptor =
  od_name :: string
  od_st :: storage_type
  od_flags :: u32
  od_tag :: int
  od_type :: int
  od_owner :: string
  od_version :: u32
  od_bb :: bbox
  od_size :: u64

record global_dimension =
  gd_ndim :: int
  gd_sizes :: coord

record obj_data =
  obj_desc :: obj_descriptor
  gdim :: global_dimension
  data :: "byte list option"
  refcnt :: int
  f_free :: bool

section \<open>Descriptor predicates\<close>

definition obj_desc_equals_no_owner :: "obj_descriptor \<Rightarrow> obj_descriptor \<Rightarrow> bool" where
  "obj_desc_equals_no_owner odsc1 odsc2 \<longleftrightarrow>
     od_version odsc1 = od_version odsc2 \<and> od_name odsc1 = od_name odsc2 \<and>
     bbox_equals (od_bb odsc1) (od_bb odsc2)"

definition obj_desc_equals_intersect :: "obj_descriptor \<Rightarrow> obj_descriptor \<Rightarrow> bool" where
  "obj_desc_equals_intersect odsc1 odsc2 \<longleftrightarrow>
     od_name odsc1 = od_name odsc2 \<and> od_version odsc1 = od_version odsc2 \<and>
     bbox_does_intersect (od_bb odsc1) (od_bb odsc2)"

definition obj_desc_by_name_intersect :: "obj_descriptor \<Rightarrow> obj_descriptor \<Rightarrow> bool" where
  "obj_desc_by_name_intersect odsc1 odsc2 \<longleftrightarrow>
     od_name odsc1 = od_name odsc2 \<and> bbox_does_intersect (od_bb odsc1) (od_bb odsc2)"

definition obj_desc_match :: "obj_descriptor \<Rightarrow> obj_descriptor \<Rightarrow> bool" where
  "obj_desc_match odsc1 odsc2 \<longleftrightarrow>
     od_version odsc1 = od_version odsc2 \<and> od_name odsc1 = od_name odsc2"

section \<open>Sizes and allocation\<close>

definition obj_data_size :: "obj_descriptor \<Rightarrow> u64" where
  "obj_data_size odsc = od_size odsc * bbox_volume (od_bb odsc)"

definition obj_data_resize_step :: "u64 list \<Rightarrow> nat \<Rightarrow> bbox \<Rightarrow> bbox" where
  "obj_data_resize_step new_dims i b = b\<lparr>ub := (ub b)[i := lb b ! i + (new_dims ! i - 1)]\<rparr>"

definition obj_data_resize :: "obj_descriptor \<Rightarrow> u64 list \<Rightarrow> obj_descriptor" where
  "obj_data_resize odsc new_dims =
     odsc\<lparr>od_bb := fold (obj_data_resize_step new_dims) [0..<ndims (od_bb odsc)] (od_bb odsc),
          od_flags := od_flags odsc XOR DS_OBJ_RESIZE\<rparr>"

text \<open>
  \<^verbatim>\<open>obj_data_alloc\<close> keeps the buffer size in an \<^verbatim>\<open>int\<close>: the 64-bit product is truncated to 32 bits
  and read as a signed number. A negative size, converted to \<^verbatim>\<open>size_t\<close>, exceeds every address
  space, so that \<^verbatim>\<open>malloc\<close> fails and the function returns \<open>NULL\<close>.
\<close>

definition alloc_size :: "obj_descriptor \<Rightarrow> int" where
  "alloc_size odsc = sint (ucast (obj_data_size odsc) :: 32 word)"

definition obj_data_blank :: "obj_descriptor \<Rightarrow> byte list option \<Rightarrow> obj_data" where
  "obj_data_blank odsc d =
     \<lparr>obj_desc = odsc, gdim = \<lparr>gd_ndim = 0, gd_sizes = replicate BBOX_MAX_NDIM 0\<rparr>,
      data = d, refcnt = 0, f_free = False\<rparr>"

definition obj_data_alloc :: "(nat \<Rightarrow> byte) \<Rightarrow> obj_descriptor \<Rightarrow> obj_data option" where
  "obj_data_alloc junk odsc =
     (if alloc_size odsc < 0 then None
      else Some (obj_data_blank odsc (Some (map junk [0..<nat (alloc_size odsc)]))))"

definition obj_data_alloc_no_data :: "obj_descriptor \<Rightarrow> byte list option \<Rightarrow> obj_data" where
  "obj_data_alloc_no_data odsc d = obj_data_blank odsc d"

text \<open>
  \<^verbatim>\<open>memcpy\<close> of \<open>n\<close> bytes between two buffers; out of bounds on either side it is undefined
  behaviour, which has no result.
\<close>

definition memcpy :: "byte list \<Rightarrow> nat \<Rightarrow> byte list \<Rightarrow> nat \<Rightarrow> nat \<Rightarrow> byte list option" where
  "memcpy dst doff src soff n =
     (if doff + n \<le> length dst \<and> soff + n \<le> length src
      then Some (take doff dst @ take n (drop soff src) @ drop (doff + n) dst)
      else None)"

definition obj_data_alloc_with_data ::
  "(nat \<Rightarrow> byte) \<Rightarrow> obj_descriptor \<Rightarrow> byte list \<Rightarrow> obj_data option" where
  "obj_data_alloc_with_data junk odsc src =
     Option.bind (obj_data_alloc junk odsc) (\<lambda>od.
       Option.bind (data od) (\<lambda>dst.
         Option.bind (memcpy dst 0 src 0 (unat (obj_data_size odsc))) (\<lambda>dst'.
           Some (od\<lparr>data := Some dst'\<rparr>))))"

section \<open>Lemmas\<close>

lemma alloc_size_exact:
  assumes "unat (obj_data_size odsc) < 2147483648"
  shows "alloc_size odsc = int (unat (obj_data_size odsc))"
proof -
  define s where "s = obj_data_size odsc"
  define w where "w = (ucast s :: 32 word)"
  have "int (unat s) < int 2147483648"
    using assms unfolding s_def of_nat_less_iff .
  then have u: "uint s < 2147483648" "0 \<le> uint s" by simp_all
  have "uint w = take_bit 32 (uint s)"
    unfolding w_def by (simp add: unsigned_ucast_eq take_bit_word_eq_self)
  also have "\<dots> = uint s" using u by (simp add: take_bit_int_eq_self)
  finally have w: "uint w = uint s" .
  have "sint w = signed_take_bit 31 (uint w)" by (simp add: sint_uint)
  also have "\<dots> = uint w"
    using u unfolding w
    by (intro signed_take_bit_int_eq_self order_trans [OF _ u(2)]) simp_all
  finally show ?thesis using w unfolding alloc_size_def s_def[symmetric] w_def[symmetric] by simp
qed

lemma obj_data_alloc_Some:
  assumes "unat (obj_data_size odsc) < 2147483648"
  shows "\<exists>d. obj_data_alloc junk odsc = Some (obj_data_blank odsc (Some d)) \<and>
             length d = unat (obj_data_size odsc)"
  using assms
  by (intro exI[of _ "map junk [0..<unat (obj_data_size odsc)]"])
     (simp add: obj_data_alloc_def alloc_size_exact)

lemma length_memcpy: "memcpy dst doff src soff n = Some d \<Longrightarrow> length d = length dst"
  by (auto simp: memcpy_def split: if_splits)

end
