(* ===== verification/SSpace.thy ===== *)
theory SSpace
  imports Intv ObjDesc
begin

text \<open>
  The shared space: the domain of a variable distributed over the servers' DHT entries
  (\<^verbatim>\<open>struct sspace\<close>, \<^verbatim>\<open>struct dht\<close>, \<^verbatim>\<open>struct dht_entry\<close> of \<^verbatim>\<open>include/ss_data.h\<close> and the
  \<^verbatim>\<open>ssd_*\<close>, \<^verbatim>\<open>dht_alloc\<close>, \<^verbatim>\<open>dht_construct_hash\<close> and \<^verbatim>\<open>sh_*\<close> functions of \<^verbatim>\<open>src/ss_data.c\<close>). Hash
  version 0 keeps everything on one server, version 1 cuts a Hilbert curve into pieces of equal
  length, version 2 bisects the domain. Memory allocation succeeds; undefined behaviour and
  endless loops are the result \<open>None\<close>.
\<close>

section \<open>Data\<close>

text \<open>
  A thread that waits in \<^verbatim>\<open>dht_local_subscribe\<close>; \<open>ds_recv\<close> holds the addresses of the descriptors
  it has been sent, \<open>ds_tab\<close> the table it had collected before the wait.
\<close>

record dht_sub =
  ds_odsc :: obj_descriptor
  ds_remaining :: u64
  ds_pub_count :: int
  ds_recv :: "nat list"
  ds_tab :: "nat list"

record dht_entry =
  de_rank :: int
  de_virt :: intv
  de_itab :: "intv list"
  de_bbtab :: "bbox list"
  odsc_size :: nat
  odsc_num :: int
  odsc_hash :: "nat list list"
  odsc_mem :: "nat \<rightharpoonup> obj_descriptor"
  dht_subs :: "nat list list"
  sub_mem :: "nat \<rightharpoonup> dht_sub"

record dht =
  bb_glb_domain :: bbox
  ent_tab :: "dht_entry list"

datatype sspace_hash_version = hash_version_auto | hash_version_v0 | hash_version_v1 | hash_version_v2

record sspace =
  ss_max_dim :: u64
  ss_bpd :: nat
  ss_dht :: dht
  ss_rank :: int
  ent_self :: nat
  total_num_bbox :: nat
  hash_version :: sspace_hash_version

section \<open>Powers of two\<close>

partial_function (option) next_pow_loop :: "u64 \<Rightarrow> u64 \<Rightarrow> u64 option" where
  "next_pow_loop n i = (if i < n then next_pow_loop n (push_bit 1 i) else Some i)"

declare next_pow_loop.simps [code]

definition next_pow_2_v2 :: "u64 \<Rightarrow> u64 option" where
  "next_pow_2_v2 n = next_pow_loop n 1"

lemma drop_bit_less_one: "1 < n \<Longrightarrow> unat (drop_bit (Suc 0) n) < unat n" for n :: u64
  by (rule drop_bit_less_u64) auto

function compute_bits_v2 :: "u64 \<Rightarrow> nat" where
  "compute_bits_v2 n = (if n > 1 then compute_bits_v2 (drop_bit 1 n) + 1 else 0)"
  by auto
termination
  by (relation "measure unat") (auto simp: drop_bit_less_one)

declare compute_bits_v2.simps [simp del]

section \<open>The cache of hashed boxes\<close>

text \<open>
  A reference to a DHT entry: the space it belongs to and its index in the space's table. The
  cache is one list for the whole process.
\<close>

type_synonym de_ref = "nat \<times> nat"
type_synonym sfc_cache = "(bbox \<times> de_ref list) list"

definition sh_add :: "sfc_cache \<Rightarrow> bbox \<Rightarrow> de_ref list \<Rightarrow> sfc_cache" where
  "sh_add cache bb de_tab = cache @ [(bb, de_tab)]"

definition sh_find :: "sfc_cache \<Rightarrow> bbox \<Rightarrow> int \<times> de_ref list" where
  "sh_find cache bb =
     (case find (\<lambda>(b, _). bbox_equals bb b) cache of
        Some (_, de_tab) \<Rightarrow> (int (length de_tab), de_tab)
      | None \<Rightarrow> (-1, []))"

section \<open>Tables\<close>

definition get_bbox_max_dim_step :: "bbox \<Rightarrow> nat \<Rightarrow> u64 \<times> nat \<Rightarrow> u64 \<times> nat" where
  "get_bbox_max_dim_step bb i = (\<lambda>(max_dim, dim). if max_dim < ub bb ! i then (ub bb ! i, i) else (max_dim, dim))"

definition get_bbox_max_dim :: "bbox \<Rightarrow> nat \<Rightarrow> u64 \<times> nat" where
  "get_bbox_max_dim bb dim = fold (get_bbox_max_dim_step bb) [0..<ndims bb] (0, dim)"

definition get_bbox_max_dim_size_step :: "bbox \<Rightarrow> nat \<Rightarrow> u64 \<times> nat \<Rightarrow> u64 \<times> nat" where
  "get_bbox_max_dim_size_step bb i = (\<lambda>(max_dim_size, dim).
     let size = ub bb ! i - lb bb ! i + 1
     in if max_dim_size < size then (size, i) else (max_dim_size, dim))"

definition get_bbox_max_dim_size :: "bbox \<Rightarrow> nat \<Rightarrow> u64 \<times> nat" where
  "get_bbox_max_dim_size bb dim = fold (get_bbox_max_dim_size_step bb) [0..<ndims bb] (0, dim)"

definition dht_entry_alloc :: "nat \<Rightarrow> dht_entry" where
  "dht_entry_alloc size_hash =
     \<lparr>de_rank = 0, de_virt = \<lparr>i_lb = 0, i_ub = 0\<rparr>, de_itab = [], de_bbtab = [], odsc_size = size_hash,
      odsc_num = 0, odsc_hash = replicate size_hash [], odsc_mem = Map.empty,
      dht_subs = replicate size_hash [], sub_mem = Map.empty\<rparr>"

definition dht_alloc :: "bbox \<Rightarrow> nat \<Rightarrow> nat \<Rightarrow> dht" where
  "dht_alloc bb_domain num_nodes size_hash =
     \<lparr>bb_glb_domain = bb_domain, ent_tab = map (\<lambda>_. dht_entry_alloc size_hash) [0..<num_nodes]\<rparr>"

definition dht_intersect :: "dht_entry \<Rightarrow> intv \<Rightarrow> bool" where
  "dht_intersect de itv \<longleftrightarrow>
     (if i_lb (de_virt de) > i_ub itv \<or> i_ub (de_virt de) < i_lb itv then False
      else list_ex (\<lambda>i. intv_do_intersect i itv) (de_itab de))"

section \<open>Version 1: pieces of the curve\<close>

text \<open>
  The inner loop of \<^verbatim>\<open>dht_construct_hash\<close>: an entry takes intervals off the front of the table until
  it has \<open>len\<close> indices. Running off the table, and an entry without any interval, read outside an
  array.
\<close>

fun take_intv :: "u64 \<Rightarrow> intv list \<Rightarrow> intv list \<Rightarrow> (intv list \<times> intv list) option" where
  "take_intv len [] acc = (if len > 0 then None else Some (acc, []))"
| "take_intv len (i # tab) acc =
     (if len > 0
      then if intv_size i > len
           then Some (acc @ [\<lparr>i_lb = i_lb i, i_ub = i_lb i + len - 1\<rparr>], i\<lparr>i_lb := i_lb i + len\<rparr> # tab)
           else take_intv (len - intv_size i) tab (acc @ [i])
      else Some (acc, i # tab))"

definition piece_len :: "u64 \<Rightarrow> nat \<Rightarrow> nat \<Rightarrow> u64" where
  "piece_len volume num_entries i =
     (let sn = volume div of_nat num_entries
      in if int i < sint (ucast (volume mod of_nat num_entries) :: 32 word) then sn + 1 else sn)"

fun assign_intv :: "u64 \<Rightarrow> nat \<Rightarrow> nat \<Rightarrow> dht_entry list \<Rightarrow> intv list \<Rightarrow> dht_entry list option" where
  "assign_intv volume n i [] tab = Some []"
| "assign_intv volume n i (de # des) tab =
     Option.bind (take_intv (piece_len volume n i) tab (de_itab de)) (\<lambda>(mine, tab).
       if mine = [] then None
       else map_option ((#) (de\<lparr>de_rank := int i, de_itab := mine,
              de_virt := \<lparr>i_lb = i_lb (hd mine), i_ub = i_ub (last mine)\<rparr>\<rparr>))
              (assign_intv volume n (i + 1) des tab))"

definition dht_construct_hash :: "intv \<Rightarrow> dht \<Rightarrow> u64 \<Rightarrow> nat \<Rightarrow> dht option" where
  "dht_construct_hash ijunk d max_dim bpd =
     (if ent_tab d = [] then None
      else Option.bind (bbox_to_intv ijunk (bb_glb_domain d) max_dim bpd) (\<lambda>tab.
        map_option (\<lambda>des. d\<lparr>ent_tab := des\<rparr>)
          (assign_intv (bbox_volume (bb_glb_domain d)) (length (ent_tab d)) 0 (ent_tab d) tab)))"

definition ssd_alloc_v0 :: "bbox \<Rightarrow> nat \<Rightarrow> sspace" where
  "ssd_alloc_v0 bb_domain max_versions =
     \<lparr>ss_max_dim = 0, ss_bpd = 0, ss_dht = dht_alloc bb_domain 1 max_versions, ss_rank = 0, ent_self = 0,
      total_num_bbox = 0, hash_version = hash_version_v0\<rparr>"

definition ssd_alloc_v1 :: "intv \<Rightarrow> bbox \<Rightarrow> nat \<Rightarrow> nat \<Rightarrow> sspace option" where
  "ssd_alloc_v1 ijunk bb_domain num_nodes max_versions =
     (let max_dim = fold (\<lambda>i m. if ub bb_domain ! i > m then ub bb_domain ! i else m)
            [1..<ndims bb_domain] (ub bb_domain ! 0);
          max_dim = (if max_dim = 0 then 1 else max_dim)
      in Option.bind (next_pow_2_v2 max_dim) (\<lambda>max_dim.
           let bpd = compute_bits (max_dim + 1)
           in map_option (\<lambda>d. \<lparr>ss_max_dim = max_dim, ss_bpd = bpd, ss_dht = d, ss_rank = 0, ent_self = 0,
                total_num_bbox = 0, hash_version = hash_version_v1\<rparr>)
                (dht_construct_hash ijunk (dht_alloc bb_domain num_nodes max_versions) max_dim bpd)))"

section \<open>Version 2: bisection\<close>

text \<open>
  One round empties a queue, halving every box along its longest side into the other queue;
  \<open>dim\<close> keeps its value when a box has no element at all.
\<close>

partial_function (option) divide_round :: "bbox queue \<Rightarrow> bbox queue \<Rightarrow> nat \<Rightarrow> (bbox queue \<times> bbox queue \<times> nat) option" where
  "divide_round src_q dst_q dim =
     (if queue_is_empty src_q then Some (src_q, dst_q, dim)
      else Option.bind (queue_dequeue src_q) (\<lambda>(obj, src_q). Option.bind obj (\<lambda>bb.
             let dim = snd (get_bbox_max_dim_size bb dim);
                 (b1, b2) = bbox_divide_in2_ondim bb dim
             in Option.bind (enqueue_all dst_q [b1, b2]) (\<lambda>dst_q. divide_round src_q dst_q dim))))"

declare divide_round.simps [code]

fun divide_rounds :: "nat \<Rightarrow> bbox queue \<Rightarrow> bbox queue \<Rightarrow> nat \<Rightarrow> (bbox queue \<times> bbox queue) option" where
  "divide_rounds 0 q1 q2 dim = Some (q1, q2)"
| "divide_rounds (Suc k) q1 q2 dim =
     (if \<not> queue_is_empty q1 \<and> queue_is_empty q2
      then Option.bind (divide_round q1 q2 dim) (\<lambda>(q1, q2, dim). divide_rounds k q1 q2 dim)
      else if \<not> queue_is_empty q2 \<and> queue_is_empty q1
      then Option.bind (divide_round q2 q1 dim) (\<lambda>(q2, q1, dim). divide_rounds k q1 q2 dim)
      else None)"

text \<open>The round-robin assignment of the boxes to the entries.\<close>

fun round_robin :: "nat \<Rightarrow> bbox list \<Rightarrow> dht_entry list \<Rightarrow> dht_entry list" where
  "round_robin i [] des = des"
| "round_robin i (b # bs) des =
     (let j = i mod length des
      in round_robin (i + 1) bs (des[j := (des ! j)\<lparr>de_bbtab := de_bbtab (des ! j) @ [b]\<rparr>]))"

definition ssd_alloc_v2 :: "bbox \<Rightarrow> nat \<Rightarrow> nat \<Rightarrow> sspace option" where
  "ssd_alloc_v2 bb_domain num_nodes max_versions =
     (let (max_dim, dim) = get_bbox_max_dim bb_domain 0
      in Option.bind (next_pow_2_v2 max_dim) (\<lambda>max_dim.
         Option.bind (next_pow_2_v2 (of_nat num_nodes)) (\<lambda>nodes2.
         Option.bind (queue_enqueue queue_init bb_domain) (\<lambda>q1.
         Option.bind (divide_rounds (compute_bits_v2 nodes2) q1 queue_init dim) (\<lambda>(q1, q2).
         let q = (if \<not> queue_is_empty q1 then q1 else q2);
             d = dht_alloc bb_domain num_nodes max_versions
         in Option.bind (queue_drain q []) (\<lambda>bbs.
              if num_nodes = 0 then None
              else Some \<lparr>ss_max_dim = max_dim, ss_bpd = compute_bits_v2 max_dim,
                ss_dht = d\<lparr>ent_tab := round_robin 0 bbs
                  (map (\<lambda>i. (ent_tab d ! i)\<lparr>de_rank := int i\<rparr>) [0..<num_nodes])\<rparr>,
                ss_rank = 0, ent_self = 0, total_num_bbox = queue_size q,
                hash_version = hash_version_v2\<rparr>))))))"

section \<open>Hashing a box to entries\<close>

definition ssd_hash_v0 :: "nat \<Rightarrow> sspace \<Rightarrow> bbox \<Rightarrow> de_ref list" where
  "ssd_hash_v0 sid ss bb = [(sid, 0)]"

definition hash_scan :: "nat \<Rightarrow> (dht_entry \<Rightarrow> bool) \<Rightarrow> sspace \<Rightarrow> de_ref list" where
  "hash_scan sid P ss =
     map (\<lambda>k. (sid, k)) (filter (\<lambda>k. P (ent_tab (ss_dht ss) ! k)) [0..<length (ent_tab (ss_dht ss))])"

definition ssd_hash_v1 ::
  "intv \<Rightarrow> bbox \<Rightarrow> sfc_cache \<Rightarrow> nat \<Rightarrow> sspace \<Rightarrow> bbox \<Rightarrow> (de_ref list \<times> sfc_cache) option" where
  "ssd_hash_v1 ijunk junk cache sid ss bb =
     (let (num_nodes, de_tab) = sh_find cache bb
      in if num_nodes > 0 then Some (de_tab, cache)
         else Option.bind (bbox_to_intv2 ijunk junk bb (ss_max_dim ss) (ss_bpd ss)) (\<lambda>i_tab.
                let de_tab = hash_scan sid (\<lambda>de. list_ex (dht_intersect de) i_tab) ss
                in Some (de_tab, sh_add cache bb de_tab)))"

definition ssd_hash_v2 :: "sfc_cache \<Rightarrow> nat \<Rightarrow> sspace \<Rightarrow> bbox \<Rightarrow> de_ref list \<times> sfc_cache" where
  "ssd_hash_v2 cache sid ss bb =
     (let (num_nodes, de_tab) = sh_find cache bb
      in if num_nodes > 0 then (de_tab, cache)
         else let de_tab = hash_scan sid (\<lambda>de. list_ex (bbox_does_intersect bb) (de_bbtab de)) ss
              in (de_tab, sh_add cache bb de_tab))"

definition ssd_hash ::
  "intv \<Rightarrow> bbox \<Rightarrow> sfc_cache \<Rightarrow> nat \<Rightarrow> sspace \<Rightarrow> bbox \<Rightarrow> (de_ref list \<times> sfc_cache) option" where
  "ssd_hash ijunk junk cache sid ss bb =
     (case hash_version ss of
        hash_version_v0 \<Rightarrow> Some (ssd_hash_v0 sid ss bb, cache)
      | hash_version_v1 \<Rightarrow> ssd_hash_v1 ijunk junk cache sid ss bb
      | hash_version_v2 \<Rightarrow> Some (ssd_hash_v2 cache sid ss bb)
      | hash_version_auto \<Rightarrow> Some ([], cache))"

section \<open>Counting the elements of a box that hash here\<close>

definition ssh_hash_elem_count_v0 :: "bbox \<Rightarrow> u64" where
  "ssh_hash_elem_count_v0 bb = bbox_volume bb"

definition overlap_v1 :: "intv \<Rightarrow> intv \<Rightarrow> u64 \<Rightarrow> u64" where
  "overlap_v1 i_self i nelem =
     (if i_lb i_self \<le> i_ub i \<and> i_ub i_self \<ge> i_lb i
      then let overlap = i_ub i_self - i_lb i + 1;
               overlap = (if i_lb i < i_lb i_self then overlap - (i_lb i_self - i_lb i) else overlap);
               overlap = (if i_ub i_self > i_ub i then overlap - (i_ub i_self - i_ub i) else overlap)
           in nelem + overlap
      else nelem)"

definition ssh_hash_elem_count_v1 :: "intv \<Rightarrow> bbox \<Rightarrow> sspace \<Rightarrow> bbox \<Rightarrow> u64 option" where
  "ssh_hash_elem_count_v1 ijunk junk ss bb =
     map_option (\<lambda>i_tab. fold (overlap_v1 (de_virt (ent_tab (ss_dht ss) ! ent_self ss))) i_tab 0)
       (bbox_to_intv2 ijunk junk bb (ss_max_dim ss) (ss_bpd ss))"

fun elem_count_v2 :: "bbox \<Rightarrow> bbox \<Rightarrow> bbox list \<Rightarrow> u64 \<Rightarrow> u64" where
  "elem_count_v2 bb isect [] nelem = nelem"
| "elem_count_v2 bb isect (ent_bb # bbs) nelem =
     (if bbox_does_intersect bb ent_bb
      then let isect = bbox_intersect bb ent_bb isect
           in elem_count_v2 bb isect bbs (nelem + bbox_volume isect)
      else elem_count_v2 bb isect bbs nelem)"

definition ssh_hash_elem_count_v2 :: "bbox \<Rightarrow> sspace \<Rightarrow> bbox \<Rightarrow> u64" where
  "ssh_hash_elem_count_v2 isect ss bb =
     elem_count_v2 bb isect (de_bbtab (ent_tab (ss_dht ss) ! ent_self ss)) 0"

definition ssh_hash_elem_count :: "intv \<Rightarrow> bbox \<Rightarrow> sspace \<Rightarrow> bbox \<Rightarrow> u64 option" where
  "ssh_hash_elem_count ijunk junk ss bb =
     (case hash_version ss of
        hash_version_v0 \<Rightarrow> Some (ssh_hash_elem_count_v0 bb)
      | hash_version_v1 \<Rightarrow> ssh_hash_elem_count_v1 ijunk junk ss bb
      | hash_version_v2 \<Rightarrow> Some (ssh_hash_elem_count_v2 junk ss bb)
      | hash_version_auto \<Rightarrow> Some 0)"

section \<open>Allocation\<close>

definition ssd_choose_hash :: "bbox \<Rightarrow> sspace_hash_version" where
  "ssd_choose_hash bb_domain =
     (if num_dims bb_domain = 1 \<and> ub bb_domain ! 0 = 0 then hash_version_v0
      else if list_ex (\<lambda>i. ub bb_domain ! i AND (ub bb_domain ! i + 1) \<noteq> 0) [0..<ndims bb_domain]
      then hash_version_v2 else hash_version_v1)"

definition ssd_alloc :: "intv \<Rightarrow> bbox \<Rightarrow> nat \<Rightarrow> nat \<Rightarrow> sspace_hash_version \<Rightarrow> sspace option" where
  "ssd_alloc ijunk bb_domain num_nodes max_versions hv =
     (let hv = (if hv = hash_version_auto then ssd_choose_hash bb_domain else hv)
      in case hv of
           hash_version_v0 \<Rightarrow> Some (ssd_alloc_v0 bb_domain max_versions)
         | hash_version_v1 \<Rightarrow> ssd_alloc_v1 ijunk bb_domain num_nodes max_versions
         | hash_version_v2 \<Rightarrow> ssd_alloc_v2 bb_domain num_nodes max_versions
         | hash_version_auto \<Rightarrow> None)"

text \<open>\<^verbatim>\<open>ssd_init\<close> reads entry \<open>rank\<close> of the table, which must have that many entries.\<close>

definition ssd_init :: "sspace \<Rightarrow> nat \<Rightarrow> sspace option" where
  "ssd_init ss rank =
     (if rank < length (ent_tab (ss_dht ss)) then Some (ss\<lparr>ss_rank := int rank, ent_self := rank\<rparr>) else None)"

section \<open>Powers of two, proved\<close>

lemma next_pow_loop_steps:
  assumes "k + d \<le> 63" "\<And>j. j < d \<Longrightarrow> (2 :: u64) ^ (k + j) < n" "n \<le> 2 ^ (k + d)"
  shows "next_pow_loop n (2 ^ k) = Some (2 ^ (k + d))"
  using assms
proof (induction d arbitrary: k)
  case 0
  then have "\<not> (2 :: u64) ^ k < n" by (simp add: not_less)
  then show ?case by (subst next_pow_loop.simps) simp
next
  case (Suc d)
  have lt: "(2 :: u64) ^ k < n" using Suc.prems(2) [of 0] by simp
  have "next_pow_loop n (2 ^ Suc k) = Some (2 ^ (Suc k + d))"
  proof (rule Suc.IH)
    show "Suc k + d \<le> 63" using Suc.prems(1) by simp
    show "(2 :: u64) ^ (Suc k + j) < n" if "j < d" for j
      using Suc.prems(2) [of "Suc j"] that by simp
    show "n \<le> 2 ^ (Suc k + d)" using Suc.prems(3) by simp
  qed
  then show ?case
    using lt by (subst next_pow_loop.simps) (simp add: push_bit_eq_mult mult.commute)
qed

lemma unat_pow2: "k \<le> 63 \<Longrightarrow> unat ((2 :: u64) ^ k) = 2 ^ k"
proof -
  assume "k \<le> 63"
  then have "(2::nat) ^ k \<le> 2 ^ 63" by (intro power_increasing) simp_all
  then show ?thesis using unat_of_nat [of "2 ^ k", where 'a = 64] by simp
qed

lemma next_pow_2_v2_least:
  assumes "n \<le> (2 :: u64) ^ 63"
  obtains k where "k \<le> 63" "next_pow_2_v2 n = Some (2 ^ k)" "n \<le> 2 ^ k"
    "\<And>j. j < k \<Longrightarrow> (2 :: u64) ^ j < n"
proof -
  define k where "k = (LEAST k. n \<le> (2 :: u64) ^ k)"
  have k: "n \<le> 2 ^ k" "k \<le> 63"
    unfolding k_def by (rule LeastI, rule assms) (rule Least_le, rule assms)
  have below: "(2 :: u64) ^ j < n" if "j < k" for j
    using not_less_Least [of j "\<lambda>k. n \<le> (2 :: u64) ^ k"] that unfolding k_def by (simp add: not_le)
  have "next_pow_loop n (2 ^ 0) = Some (2 ^ (0 + k))"
    by (rule next_pow_loop_steps) (use k below in simp_all)
  then have "next_pow_2_v2 n = Some (2 ^ k)" by (simp add: next_pow_2_v2_def)
  then show ?thesis using that k below by blast
qed

lemma compute_bits_v2_pow: "k \<le> 63 \<Longrightarrow> compute_bits_v2 (2 ^ k) = k"
proof (induction k)
  case 0
  show ?case by (subst compute_bits_v2.simps) simp
next
  case (Suc k)
  have half: "drop_bit 1 ((2 :: u64) ^ Suc k) = 2 ^ k"
    using Suc.prems by (simp only: drop_bit_1_u64 word_unat_eq_iff unat_div unat_pow2) (simp add: unat_pow2)
  have "(1 :: u64) < 2 ^ Suc k"
    using Suc.prems one_less_power [of "2::nat" "Suc k"] by (simp only: word_less_nat_alt unat_pow2) simp
  then show ?case using Suc half by (subst compute_bits_v2.simps) simp
qed

section \<open>Bisection, proved\<close>

text \<open>
  The boxes of the bisection: of the dimensionality of the domain, with bounds below \<open>2 ^ 63\<close> so
  that midpoints do not wrap, possibly empty by one.
\<close>

definition cell :: "int \<Rightarrow> bbox \<Rightarrow> bool" where
  "cell d b \<longleftrightarrow> wf_bbox b \<and> num_dims b = d \<and> ordered_bbox b \<and>
     (\<forall>i<nat d. unat (ub b ! i) < 9223372036854775808)"

lemma half_bounds:
  fixes l u :: u64
  assumes "unat l \<le> Suc (unat u)" "unat u < 9223372036854775808"
  defines "m \<equiv> (l + u) div 2"
  shows "unat m \<le> unat u" "unat (m + 1) = Suc (unat m)" "unat l \<le> Suc (unat m)"
    and "unat m < 9223372036854775808"
proof -
  have m: "unat m = (unat l + unat u) div 2"
    unfolding m_def using assms(1,2) by (intro unat_mid_u64) simp
  show "unat m \<le> unat u" "unat l \<le> Suc (unat m)" "unat m < 9223372036854775808"
    using assms(1,2) by (simp_all add: m)
  then show "unat (m + 1) = Suc (unat m)"
    by (subst unat_plus_u64) simp_all
qed

lemma half_points:
  fixes l u x :: u64
  assumes "unat l \<le> Suc (unat u)" "unat u < 9223372036854775808"
  defines "m \<equiv> (l + u) div 2"
  shows "(l \<le> x \<and> x \<le> u) \<longleftrightarrow> (l \<le> x \<and> x \<le> m) \<or> (m + 1 \<le> x \<and> x \<le> u)"
    and "\<not> ((l \<le> x \<and> x \<le> m) \<and> (m + 1 \<le> x \<and> x \<le> u))"
  using half_bounds [OF assms(1,2)] assms(1)
  unfolding m_def [symmetric] word_le_nat_alt by auto

lemma cell_halves:
  assumes "cell d b" "dim < nat d"
  shows "cell d (fst (bbox_divide_in2_ondim b dim))" "cell d (snd (bbox_divide_in2_ondim b dim))"
proof -
  let ?m = "(lb b ! dim + ub b ! dim) div 2"
  have b: "wf_bbox b" "num_dims b = d" "dim < 10"
    and o: "\<And>i. i < nat d \<Longrightarrow> unat (lb b ! i) \<le> Suc (unat (ub b ! i))"
    and u: "\<And>i. i < nat d \<Longrightarrow> unat (ub b ! i) < 9223372036854775808"
    using assms wf_bboxD(3) [of b] by (auto simp: cell_def ordered_bbox_def)
  note h = half_bounds [OF o u, OF assms(2) assms(2)]
  have "wf_bbox (b\<lparr>ub := (ub b)[dim := ?m]\<rparr>)" "wf_bbox (b\<lparr>lb := (lb b)[dim := ?m + 1]\<rparr>)"
    using wf_bboxD [OF b(1)] by (auto intro!: wf_bboxI)
  then show "cell d (fst (bbox_divide_in2_ondim b dim))" "cell d (snd (bbox_divide_in2_ondim b dim))"
    using b h o u wf_bboxD [OF b(1)]
    by (auto simp: cell_def bbox_divide_in2_alt mid_def ordered_bbox_def nth_list_update)
qed

lemma split_count:
  "(I \<longleftrightarrow> I1 \<or> I2) \<Longrightarrow> \<not> (I1 \<and> I2) \<Longrightarrow>
    (if R \<and> I1 then 1 else 0) + ((if R \<and> I2 then 1 else 0) + 0) = (if R \<and> I then 1 else 0) + (0 :: nat)"
  by auto

lemma cnt_halves:
  assumes "cell d b" "dim < nat d"
  shows "cnt p [fst (bbox_divide_in2_ondim b dim), snd (bbox_divide_in2_ondim b dim)] = cnt p [b]"
proof -
  let ?m = "(lb b ! dim + ub b ! dim) div 2"
  let ?I = "\<lambda>i. lb b ! i \<le> p ! i \<and> p ! i \<le> ub b ! i"
  have b: "wf_bbox b" "num_dims b = d" "dim < 10"
    and o: "unat (lb b ! dim) \<le> Suc (unat (ub b ! dim))"
    and u: "unat (ub b ! dim) < 9223372036854775808"
    using assms wf_bboxD(3) [of b] by (auto simp: cell_def ordered_bbox_def)
  have split: "(\<forall>i<nat d. R i) \<longleftrightarrow> R dim \<and> (\<forall>i<nat d. i \<noteq> dim \<longrightarrow> R i)" for R
    using assms(2) by auto
  let ?rest = "length p = nat d \<and> (\<forall>i<nat d. i \<noteq> dim \<longrightarrow> ?I i)"
  have in_box: "p \<in> points c \<longleftrightarrow> ?rest \<and> lb c ! dim \<le> p ! dim \<and> p ! dim \<le> ub c ! dim"
    if "num_dims c = d" "\<And>i. i \<noteq> dim \<Longrightarrow> lb c ! i = lb b ! i \<and> ub c ! i = ub b ! i" for c
    unfolding points_def mem_Collect_eq that(1) split [of "\<lambda>i. lb c ! i \<le> p ! i \<and> p ! i \<le> ub c ! i"]
    using that(2) by auto
  have "p \<in> points b \<longleftrightarrow> ?rest \<and> ?I dim" by (rule in_box) (simp_all add: b)
  moreover have "p \<in> points (fst (bbox_divide_in2_ondim b dim)) \<longleftrightarrow> ?rest \<and> lb b ! dim \<le> p ! dim \<and> p ! dim \<le> ?m"
    using b wf_bboxD [OF b(1)] in_box [of "fst (bbox_divide_in2_ondim b dim)"]
    by (simp add: bbox_divide_in2_alt mid_def)
  moreover have "p \<in> points (snd (bbox_divide_in2_ondim b dim)) \<longleftrightarrow> ?rest \<and> ?m + 1 \<le> p ! dim \<and> p ! dim \<le> ub b ! dim"
    using b wf_bboxD [OF b(1)] in_box [of "snd (bbox_divide_in2_ondim b dim)"]
    by (simp add: bbox_divide_in2_alt mid_def)
  ultimately show ?thesis
    by (simp only: cnt_simps split_count [OF half_points [OF o u]])
qed

lemma max_dim_size_in_range:
  assumes "dim < ndims b"
  shows "snd (get_bbox_max_dim_size b dim) < ndims b"
proof -
  have "snd (fold (get_bbox_max_dim_size_step b) is (m, dim)) < ndims b"
    if "\<forall>i\<in>set is. i < ndims b" "dim < ndims b" for "is" m dim
    using that by (induction "is" arbitrary: m dim) (auto simp: get_bbox_max_dim_size_step_def Let_def)
  from this [of "[0..<ndims b]" dim] assms show ?thesis by (simp add: get_bbox_max_dim_size_def)
qed

lemma max_dim_in_range:
  assumes "dim < ndims b"
  shows "snd (get_bbox_max_dim b dim) < ndims b"
proof -
  have "snd (fold (get_bbox_max_dim_step b) is (m, dim)) < ndims b"
    if "\<forall>i\<in>set is. i < ndims b" "dim < ndims b" for "is" m dim
    using that by (induction "is" arbitrary: m dim) (auto simp: get_bbox_max_dim_step_def)
  from this [of "[0..<ndims b]" dim] assms show ?thesis by (simp add: get_bbox_max_dim_def)
qed

lemma max_dim_bound:
  assumes "\<forall>i<ndims b. ub b ! i \<le> B"
  shows "fst (get_bbox_max_dim b dim) \<le> B"
proof -
  have "fst (fold (get_bbox_max_dim_step b) is (m, dim)) \<le> B"
    if "\<forall>i\<in>set is. i < ndims b" "m \<le> B" for "is" m dim
    using that assms by (induction "is" arbitrary: m dim) (auto simp: get_bbox_max_dim_step_def)
  from this [of "[0..<ndims b]" 0] show ?thesis by (simp add: get_bbox_max_dim_def)
qed

text \<open>\<open>same_cells d xs zs\<close>: \<open>zs\<close> are cells with, at every point, as many boxes as \<open>xs\<close>.\<close>

definition same_cells :: "int \<Rightarrow> bbox list \<Rightarrow> bbox list \<Rightarrow> bool" where
  "same_cells d xs zs \<longleftrightarrow> list_all (cell d) zs \<and> (\<forall>p. cnt p zs = cnt p xs)"

lemma same_cells_refl: "list_all (cell d) xs \<Longrightarrow> same_cells d xs xs"
  by (simp add: same_cells_def)

lemma same_cells_trans: "same_cells d xs ys \<Longrightarrow> same_cells d ys zs \<Longrightarrow> same_cells d xs zs"
  by (simp add: same_cells_def)

lemma same_cells_halves:
  assumes "cell d b" "dim < nat d" "same_cells d xs zs"
  shows "same_cells d (b # xs)
    ([fst (bbox_divide_in2_ondim b dim), snd (bbox_divide_in2_ondim b dim)] @ zs)"
  using assms cell_halves [OF assms(1,2)] cnt_halves [OF assms(1,2)] by (simp add: same_cells_def)

lemma divide_round_ok:
  assumes "queue_holds src xs" "queue_holds dst ys" "list_all (cell d) xs" "dim < nat d"
  shows "\<exists>src' dst' dim' zs. divide_round src dst dim = Some (src', dst', dim') \<and>
    queue_holds src' [] \<and> queue_holds dst' (ys @ zs) \<and> same_cells d xs zs \<and>
    length zs = 2 * length xs \<and> dim' < nat d"
  using assms
proof (induction xs arbitrary: src dst ys dim)
  case Nil
  then have "divide_round src dst dim = Some (src, dst, dim)"
    by (subst divide_round.simps) (simp add: queue_holds_empty)
  then show ?case
    using Nil by (intro exI [of _ src] exI [of _ dst] exI [of _ dim] exI [of _ "[]"]) (simp add: same_cells_def)
next
  case (Cons x xs)
  obtain src1 where s1: "queue_dequeue src = Some (Some x, src1)" "queue_holds src1 xs"
    using queue_holds_dequeue [OF Cons.prems(1)] by blast
  have x: "cell d x" "list_all (cell d) xs" using Cons.prems(3) by simp_all
  define dim1 where "dim1 = snd (get_bbox_max_dim_size x dim)"
  have dim1: "dim1 < nat d"
    using max_dim_size_in_range [of dim x] Cons.prems(4) x(1) by (simp add: dim1_def cell_def)
  let ?b = "bbox_divide_in2_ondim x dim1"
  obtain dst1 where d1: "enqueue_all dst [fst ?b, snd ?b] = Some dst1" "queue_holds dst1 (ys @ [fst ?b, snd ?b])"
    using enqueue_all_ok [OF Cons.prems(2)] by blast
  have step: "divide_round src dst dim = divide_round src1 dst1 dim1"
    using s1(1) d1(1) queue_holds_empty [OF Cons.prems(1)]
    by (subst divide_round.simps) (simp add: dim1_def [symmetric] Let_def case_prod_beta del: enqueue_all.simps)
  obtain src' dst' dim' zs where r: "divide_round src1 dst1 dim1 = Some (src', dst', dim')"
    "queue_holds src' []" "queue_holds dst' ((ys @ [fst ?b, snd ?b]) @ zs)" "same_cells d xs zs"
    "length zs = 2 * length xs" "dim' < nat d"
    using Cons.IH [OF s1(2) d1(2) x(2) dim1] by blast
  show ?case
    using r step same_cells_halves [OF x(1) dim1 r(4)]
    by (intro exI [of _ src'] exI [of _ dst'] exI [of _ dim'] exI [of _ "[fst ?b, snd ?b] @ zs"]) simp
qed

lemma divide_rounds_ok:
  assumes "queue_holds q1 xs \<and> queue_holds q2 [] \<or> queue_holds q2 xs \<and> queue_holds q1 []"
    and "xs \<noteq> []" "list_all (cell d) xs" "dim < nat d"
  shows "\<exists>q1' q2' zs. divide_rounds k q1 q2 dim = Some (q1', q2') \<and>
    (queue_holds q1' zs \<and> queue_holds q2' [] \<or> queue_holds q2' zs \<and> queue_holds q1' []) \<and>
    same_cells d xs zs \<and> length zs = 2 ^ k * length xs"
  using assms
proof (induction k arbitrary: q1 q2 xs dim)
  case 0
  then show ?case by (auto intro!: exI [of _ xs] same_cells_refl)
next
  case (Suc k)
  from Suc.prems(1) show ?case
  proof
    assume q: "queue_holds q1 xs \<and> queue_holds q2 []"
    obtain q1' q2' dim' zs where r: "divide_round q1 q2 dim = Some (q1', q2', dim')"
      "queue_holds q1' []" "queue_holds q2' ([] @ zs)" "same_cells d xs zs" "length zs = 2 * length xs" "dim' < nat d"
      using divide_round_ok [of q1 xs q2 "[]"] q Suc.prems by blast
    have "zs \<noteq> []" using r(5) Suc.prems(2) by auto
    then obtain q3 q4 ws where w: "divide_rounds k q1' q2' dim' = Some (q3, q4)"
      "queue_holds q3 ws \<and> queue_holds q4 [] \<or> queue_holds q4 ws \<and> queue_holds q3 []"
      "same_cells d zs ws" "length ws = 2 ^ k * length zs"
      using Suc.IH [of q1' zs q2' dim'] r by (auto simp: same_cells_def)
    have "divide_rounds (Suc k) q1 q2 dim = Some (q3, q4)"
      using r(1) w(1) q Suc.prems(2)
        queue_holds_empty [of q1 xs] queue_holds_empty [of q1 "[]"] queue_holds_empty [of q2 xs]
        queue_holds_empty [of q2 "[]"] by simp
    then show ?thesis
      using w same_cells_trans [OF r(4) w(3)] r(5)
      by (intro exI [of _ q3] exI [of _ q4] exI [of _ ws]) (simp add: mult.assoc mult.left_commute)
  next
    assume q: "queue_holds q2 xs \<and> queue_holds q1 []"
    obtain q1' q2' dim' zs where r: "divide_round q2 q1 dim = Some (q2', q1', dim')"
      "queue_holds q2' []" "queue_holds q1' ([] @ zs)" "same_cells d xs zs" "length zs = 2 * length xs" "dim' < nat d"
      using divide_round_ok [of q2 xs q1 "[]"] q Suc.prems by blast
    have "zs \<noteq> []" using r(5) Suc.prems(2) by auto
    then obtain q3 q4 ws where w: "divide_rounds k q1' q2' dim' = Some (q3, q4)"
      "queue_holds q3 ws \<and> queue_holds q4 [] \<or> queue_holds q4 ws \<and> queue_holds q3 []"
      "same_cells d zs ws" "length ws = 2 ^ k * length zs"
      using Suc.IH [of q1' zs q2' dim'] r by (auto simp: same_cells_def)
    have "divide_rounds (Suc k) q1 q2 dim = Some (q3, q4)"
      using r(1) w(1) q Suc.prems(2)
        queue_holds_empty [of q1 xs] queue_holds_empty [of q1 "[]"] queue_holds_empty [of q2 xs]
        queue_holds_empty [of q2 "[]"] by simp
    then show ?thesis
      using w same_cells_trans [OF r(4) w(3)] r(5)
      by (intro exI [of _ q3] exI [of _ q4] exI [of _ ws]) (simp add: mult.assoc mult.left_commute)
  qed
qed

section \<open>Round robin, proved\<close>

text \<open>All the boxes of a table of entries.\<close>

definition held :: "dht_entry list \<Rightarrow> bbox list" where
  "held des = concat (map de_bbtab des)"

lemma cnt_held_update:
  "j < length des \<Longrightarrow>
    cnt p (held (des[j := (des ! j)\<lparr>de_bbtab := de_bbtab (des ! j) @ bs\<rparr>])) = cnt p (held des) + cnt p bs"
proof (induction des arbitrary: j)
  case (Cons de des)
  then show ?case by (cases j) (simp_all add: held_def)
qed simp

lemma set_held_update:
  "j < length des \<Longrightarrow>
    set (held (des[j := (des ! j)\<lparr>de_bbtab := de_bbtab (des ! j) @ bs\<rparr>])) = set (held des) \<union> set bs"
proof (induction des arbitrary: j)
  case (Cons de des)
  then show ?case by (cases j) (auto simp: held_def)
qed simp

lemma round_robin_ok:
  assumes "des \<noteq> []"
  shows "length (round_robin i bs des) = length des"
    and "cnt p (held (round_robin i bs des)) = cnt p (held des) + cnt p bs"
    and "set (held (round_robin i bs des)) = set (held des) \<union> set bs"
    and "map de_rank (round_robin i bs des) = map de_rank des"
    and "map odsc_size (round_robin i bs des) = map odsc_size des"
proof -
  have "length (round_robin i bs des) = length des \<and>
     cnt p (held (round_robin i bs des)) = cnt p (held des) + cnt p bs \<and>
     set (held (round_robin i bs des)) = set (held des) \<union> set bs \<and>
     map de_rank (round_robin i bs des) = map de_rank des \<and>
     map odsc_size (round_robin i bs des) = map odsc_size des"
    using assms
  proof (induction bs arbitrary: i des)
    case (Cons b bs)
    have j: "i mod length des < length des" using Cons.prems by simp
    let ?des = "des[i mod length des := (des ! (i mod length des))\<lparr>de_bbtab := de_bbtab (des ! (i mod length des)) @ [b]\<rparr>]"
    have "map de_rank ?des = map de_rank des" "map odsc_size ?des = map odsc_size des"
      using j by (simp_all add: map_update list_update_same_conv)
    then show ?case
      using Cons.IH [of ?des "i + 1"] Cons.prems cnt_held_update [OF j, of p "[b]"] set_held_update [OF j, of "[b]"]
      by (simp add: Let_def)
  qed simp
  then show "length (round_robin i bs des) = length des"
    and "cnt p (held (round_robin i bs des)) = cnt p (held des) + cnt p bs"
    and "set (held (round_robin i bs des)) = set (held des) \<union> set bs"
    and "map de_rank (round_robin i bs des) = map de_rank des"
    and "map odsc_size (round_robin i bs des) = map odsc_size des" by blast+
qed

section \<open>Allocation by bisection\<close>

text \<open>
  What a version 2 space promises: its entries hold cells of the domain, and every point of the
  domain is in exactly one cell of exactly one entry.
\<close>

definition v2_space :: "bbox \<Rightarrow> nat \<Rightarrow> sspace \<Rightarrow> bool" where
  "v2_space bb n ss \<longleftrightarrow> hash_version ss = hash_version_v2 \<and> length (ent_tab (ss_dht ss)) = n \<and>
     map de_rank (ent_tab (ss_dht ss)) = map int [0..<n] \<and>
     list_all (cell (num_dims bb)) (held (ent_tab (ss_dht ss))) \<and>
     (\<forall>p. cnt p (held (ent_tab (ss_dht ss))) = (if p \<in> points bb then 1 else 0))"

definition domain_ok :: "bbox \<Rightarrow> bool" where
  "domain_ok bb \<longleftrightarrow> wf_bbox bb \<and> nonempty_bbox bb \<and> 0 < num_dims bb \<and>
     (\<forall>i<ndims bb. unat (ub bb ! i) < 9223372036854775808)"

lemma domain_cell: "domain_ok bb \<Longrightarrow> cell (num_dims bb) bb"
  by (auto simp: domain_ok_def cell_def nonempty_ordered)

lemma ssd_alloc_v2_ok:
  assumes dom: "domain_ok bb" and n: "0 < n" "n \<le> 2147483648"
  shows "\<exists>ss. ssd_alloc_v2 bb n mv = Some ss \<and> v2_space bb n ss \<and> ss_rank ss = 0 \<and> ent_self ss = 0 \<and>
    map odsc_size (ent_tab (ss_dht ss)) = replicate n mv \<and> bb_glb_domain (ss_dht ss) = bb"
proof -
  obtain md dim where md: "get_bbox_max_dim bb 0 = (md, dim)" by (cases "get_bbox_max_dim bb 0")
  have dim: "dim < nat (num_dims bb)"
    using max_dim_in_range [of 0 bb] dom md by (simp add: domain_ok_def)
  have "ub bb ! i \<le> 2 ^ 63" if "i < ndims bb" for i
    using dom that by (simp add: domain_ok_def word_le_nat_alt less_imp_le)
  then have "md \<le> 2 ^ 63" using max_dim_bound [of bb "2 ^ 63" 0] md by simp
  then obtain k1 where k1: "next_pow_2_v2 md = Some (2 ^ k1)" by (rule next_pow_2_v2_least)
  have "(of_nat n :: u64) \<le> 2 ^ 63" using n by (simp add: word_le_nat_alt unat_of_nat)
  then obtain k where k: "k \<le> 63" "next_pow_2_v2 (of_nat n) = Some (2 ^ k)" by (rule next_pow_2_v2_least)
  obtain q0 where q0: "queue_enqueue queue_init bb = Some q0" "queue_holds q0 [bb]"
    using queue_holds_enqueue [OF queue_holds_init, of bb] by auto
  obtain q1 q2 zs where r: "divide_rounds k q0 queue_init dim = Some (q1, q2)"
    "queue_holds q1 zs \<and> queue_holds q2 [] \<or> queue_holds q2 zs \<and> queue_holds q1 []"
    "same_cells (num_dims bb) [bb] zs" "length zs = 2 ^ k * length [bb]"
    using divide_rounds_ok [of q0 "[bb]" queue_init "num_dims bb" dim k] q0(2) queue_holds_init
      domain_cell [OF dom] dim by auto
  have "zs \<noteq> []" using r(4) by auto
  define q where "q = (if \<not> queue_is_empty q1 then q1 else q2)"
  have q: "queue_holds q zs"
    using r(2) \<open>zs \<noteq> []\<close> queue_holds_empty [of q1 zs] queue_holds_empty [of q1 "[]"] by (auto simp: q_def)
  let ?des = "map (\<lambda>i. (ent_tab (dht_alloc bb n mv) ! i)\<lparr>de_rank := int i\<rparr>) [0..<n]"
  have des_eq: "?des = map (\<lambda>i. (dht_entry_alloc mv)\<lparr>de_rank := int i\<rparr>) [0..<n]"
    by (simp add: dht_alloc_def)
  have des: "?des \<noteq> []" "held ?des = []" "map de_rank ?des = map int [0..<n]" "length ?des = n"
    "map odsc_size ?des = replicate n mv"
    unfolding des_eq using n by (simp_all add: held_def dht_entry_alloc_def comp_def map_replicate_const)
  let ?ss = "\<lparr>ss_max_dim = 2 ^ k1, ss_bpd = compute_bits_v2 (2 ^ k1),
     ss_dht = (dht_alloc bb n mv)\<lparr>ent_tab := round_robin 0 zs ?des\<rparr>,
     ss_rank = 0, ent_self = 0, total_num_bbox = queue_size q, hash_version = hash_version_v2\<rparr>"
  have "ssd_alloc_v2 bb n mv = Some ?ss"
    using n queue_drain_ok [OF q, of "[]"]
    by (simp add: ssd_alloc_v2_def md k1 k(2) q0(1) r(1) compute_bits_v2_pow [OF k(1)] q_def [symmetric] Let_def)
  moreover have "v2_space bb n ?ss"
  proof -
    define rr where "rr = round_robin 0 zs ?des"
    have "length rr = n" "map de_rank rr = map int [0..<n]" "set (held rr) = set zs"
      "\<And>p. cnt p (held rr) = cnt p zs"
      using round_robin_ok [OF des(1), where i = 0 and bs = zs] des(2-4) unfolding rr_def [symmetric] by simp_all
    with r(3) show ?thesis
      unfolding rr_def [symmetric] v2_space_def same_cells_def list_all_iff by simp
  qed
  ultimately show ?thesis
    using round_robin_ok(5) [OF des(1), where i = 0 and bs = zs] des by (auto simp: dht_alloc_def)
qed

section \<open>Lookup and counting over a version 2 space\<close>

lemma cnt_concat: "cnt p (concat bss) = sum_list (map (cnt p) bss)"
  by (induction bss) simp_all

lemma owner_unique:
  assumes "v2_space bb n ss" "p \<in> points bb"
  shows "\<exists>!k. k < n \<and> (\<exists>b\<in>set (de_bbtab (ent_tab (ss_dht ss) ! k)). p \<in> points b)"
proof -
  let ?f = "\<lambda>k. cnt p (de_bbtab (ent_tab (ss_dht ss) ! k))"
  have "map (cnt p) (map de_bbtab (ent_tab (ss_dht ss))) = map ?f [0..<n]"
    using assms(1) by (simp add: v2_space_def list_eq_iff_nth_eq)
  moreover have "sum_list (map (cnt p) (map de_bbtab (ent_tab (ss_dht ss)))) = 1"
    using assms by (simp only: v2_space_def held_def cnt_concat if_True)
  ultimately have "(\<Sum>k<n. ?f k) = 1" by (simp only: sum_upt)
  then have "\<exists>!k. k < n \<and> 0 < ?f k"
  proof -
    assume s: "(\<Sum>k<n. ?f k) = 1"
    then obtain k where k: "k < n" "0 < ?f k"
      by (metis (no_types, lifting) finite_lessThan gr0I lessThan_iff sum_eq_0_iff zero_neq_one)
    have "(\<Sum>j\<in>{..<n} - {k}. ?f j) = 0"
      using sum.remove [OF finite_lessThan, of k n ?f] k(2) s lessThan_iff [THEN iffD2, OF k(1)] by linarith
    then have "?f j = 0" if "j < n" "j \<noteq> k" for j using that by simp
    with k show ?thesis by (metis less_numeral_extra(3))
  qed
  then show ?thesis by (simp add: cnt_pos_iff)
qed

lemma does_intersect_sym: "num_dims a = num_dims b \<Longrightarrow> bbox_does_intersect a b = bbox_does_intersect b a"
  by (auto simp: bbox_does_intersect_def bbox_intersect_ondim_def)

definition scan_v2 :: "nat \<Rightarrow> sspace \<Rightarrow> bbox \<Rightarrow> de_ref list" where
  "scan_v2 sid ss bb = hash_scan sid (\<lambda>de. list_ex (bbox_does_intersect bb) (de_bbtab de)) ss"

text \<open>The cached answers are the answers of this space.\<close>

definition cache_ok :: "nat \<Rightarrow> sspace \<Rightarrow> sfc_cache \<Rightarrow> bool" where
  "cache_ok sid ss cache \<longleftrightarrow> (\<forall>(b, tab)\<in>set cache. tab = scan_v2 sid ss b)"

lemma bbox_equals_intersect: "bbox_equals a b \<Longrightarrow> bbox_does_intersect a c = bbox_does_intersect b c"
  by (auto simp: bbox_equals_def bbox_does_intersect_def bbox_intersect_ondim_def split: if_splits)

lemma scan_v2_equals: "bbox_equals a b \<Longrightarrow> scan_v2 sid ss a = scan_v2 sid ss b"
  by (simp add: scan_v2_def bbox_equals_intersect [of a b] cong: list_ex_cong)

lemma ssd_hash_v2_cached:
  assumes "cache_ok sid ss cache"
  shows "fst (ssd_hash_v2 cache sid ss bb) = scan_v2 sid ss bb"
    and "cache_ok sid ss (snd (ssd_hash_v2 cache sid ss bb))"
proof -
  have hit: "b = scan_v2 sid ss bb"
    if "find (\<lambda>(b, _). bbox_equals bb b) cache = Some (a, b)" for a b
    using that assms scan_v2_equals [of bb a sid ss]
    by (auto simp: find_Some_iff cache_ok_def dest!: nth_mem)
  show "fst (ssd_hash_v2 cache sid ss bb) = scan_v2 sid ss bb"
    using hit by (auto simp: ssd_hash_v2_def sh_find_def scan_v2_def Let_def split: option.splits)
  show "cache_ok sid ss (snd (ssd_hash_v2 cache sid ss bb))"
    using assms by (auto simp: ssd_hash_v2_def sh_find_def sh_add_def scan_v2_def cache_ok_def Let_def split: option.splits)
qed

lemma scan_v2_complete:
  assumes "k < length (ent_tab (ss_dht ss))" "b \<in> set (de_bbtab (ent_tab (ss_dht ss) ! k))"
    and "p \<in> points b" "p \<in> points q" "num_dims q = num_dims b"
  shows "(sid, k) \<in> set (scan_v2 sid ss q)"
proof -
  have "bbox_does_intersect q b" using not_intersect_points [OF assms(5)] assms(3,4) by blast
  then show ?thesis using assms(1,2) by (auto simp: scan_v2_def hash_scan_def list_ex_iff)
qed

lemma v2_space_cells:
  assumes "v2_space bb n ss" "k < n" "b \<in> set (de_bbtab (ent_tab (ss_dht ss) ! k))"
  shows "cell (num_dims bb) b" "points b \<subseteq> points bb"
proof -
  have b: "b \<in> set (held (ent_tab (ss_dht ss)))"
    using assms by (auto simp: held_def v2_space_def)
  then show "cell (num_dims bb) b" using assms(1) by (auto simp: v2_space_def list_all_iff)
  show "points b \<subseteq> points bb"
  proof
    fix p assume "p \<in> points b"
    with b have "0 < cnt p (held (ent_tab (ss_dht ss)))" by (auto simp: cnt_pos_iff)
    with assms(1) show "p \<in> points bb" by (auto simp: v2_space_def split: if_splits)
  qed
qed

lemma cell_intersect_volume:
  assumes "cell (num_dims q) b" "wf_bbox q" "nonempty_bbox q" "wf_bbox isect" "bbox_does_intersect q b"
  shows "bbox_volume (bbox_intersect q b isect) = of_nat (card (points q \<inter> points b))"
proof -
  note sel = bbox_intersect_sel [OF assms(2,4), where ?b1.0 = b]
  have "unat (max (lb q ! i) (lb b ! i)) \<le> Suc (unat (min (ub q ! i) (ub b ! i)))" if i: "i < ndims q" for i
  proof -
    have "unat (lb b ! i) \<le> Suc (unat (ub b ! i))" "unat (lb q ! i) \<le> unat (ub q ! i)"
      using assms(1,3) i by (simp_all add: cell_def ordered_bbox_def nonempty_bbox_def word_le_nat_alt)
    moreover have "bbox_intersect_ondim q b i" using assms(5) i by (simp add: bbox_does_intersect_def)
    ultimately show ?thesis
      by (simp add: bbox_intersect_ondim_def word_le_nat_alt max_def min_def) linarith
  qed
  then have "ordered_bbox (bbox_intersect q b isect)" by (simp add: ordered_bbox_def sel)
  then show ?thesis
    using points_intersect [OF assms(2,4)] assms(1)
    by (simp add: bbox_volume_of_nat card_points [symmetric] cell_def)
qed

lemma elem_count_v2_sum:
  assumes "list_all (cell (num_dims q)) bbs" "wf_bbox q" "nonempty_bbox q" "wf_bbox isect"
  shows "elem_count_v2 q isect bbs e = e + of_nat (\<Sum>b\<leftarrow>bbs. card (points q \<inter> points b))"
  using assms
proof (induction bbs arbitrary: isect e)
  case (Cons b bbs)
  show ?case
  proof (cases "bbox_does_intersect q b")
    case True
    then show ?thesis
      using Cons cell_intersect_volume [of q b isect] wf_bbox_intersect [of q isect b] by (simp add: Let_def add.assoc)
  next
    case False
    have "num_dims q = num_dims b" using Cons.prems(1) by (simp add: cell_def)
    with False not_intersect_points [of q b] Cons show ?thesis by simp
  qed
qed simp

lemma card_Int_cells:
  "(\<Sum>b\<leftarrow>bbs. card (points q \<inter> points b)) = (\<Sum>p\<in>points q. cnt p bbs)"
proof (induction bbs)
  case (Cons b bbs)
  have "(\<Sum>p\<in>points q. if p \<in> points b then 1 else 0) = card (points q \<inter> points b)"
    by (simp add: sum.If_cases)
  with Cons show ?case by (simp add: sum.distrib)
qed simp

lemma elem_counts_total:
  assumes "v2_space bb n ss" "wf_bbox q" "nonempty_bbox q" "wf_bbox junk" "num_dims q = num_dims bb"
  shows "(\<Sum>k<n. ssh_hash_elem_count_v2 junk (ss\<lparr>ent_self := k\<rparr>) q) = of_nat (card (points q \<inter> points bb))"
proof -
  let ?E = "ent_tab (ss_dht ss)"
  have "list_all (cell (num_dims q)) (de_bbtab (?E ! k))" if "k < n" for k
    using v2_space_cells(1) [OF assms(1) that] assms(5) by (simp add: list_all_iff)
  then have "(\<Sum>k<n. ssh_hash_elem_count_v2 junk (ss\<lparr>ent_self := k\<rparr>) q) =
      (\<Sum>k<n. of_nat (\<Sum>b\<leftarrow>de_bbtab (?E ! k). card (points q \<inter> points b)))"
    using assms by (intro sum.cong) (simp_all add: ssh_hash_elem_count_v2_def elem_count_v2_sum)
  also have "\<dots> = of_nat (\<Sum>k<n. \<Sum>p\<in>points q. cnt p (de_bbtab (?E ! k)))"
    by (simp only: of_nat_sum card_Int_cells)
  also have "(\<Sum>k<n. \<Sum>p\<in>points q. cnt p (de_bbtab (?E ! k))) = (\<Sum>p\<in>points q. \<Sum>k<n. cnt p (de_bbtab (?E ! k)))"
    by (rule sum.swap)
  also have "\<dots> = (\<Sum>p\<in>points q. if p \<in> points bb then 1 else 0)"
  proof (rule sum.cong [OF refl])
    fix p
    have "map (cnt p) (map de_bbtab ?E) = map (\<lambda>k. cnt p (de_bbtab (?E ! k))) [0..<n]"
      using assms(1) by (simp add: v2_space_def list_eq_iff_nth_eq)
    moreover have "sum_list (map (cnt p) (map de_bbtab ?E)) = (if p \<in> points bb then 1 else 0)"
      using assms(1) by (simp only: v2_space_def held_def cnt_concat)
    ultimately show "(\<Sum>k<n. cnt p (de_bbtab (?E ! k))) = (if p \<in> points bb then 1 else 0)"
      by (simp only: sum_upt)
  qed
  also have "\<dots> = card (points q \<inter> points bb)" by (simp add: sum.If_cases)
  finally show ?thesis .
qed

section \<open>Cutting the curve, proved\<close>

definition idx :: "intv list \<Rightarrow> nat list" where
  "idx tab = concat (map (\<lambda>i. [unat (i_lb i)..<Suc (unat (i_ub i))]) tab)"

lemma idx_simps [simp]:
  "idx [] = []" "idx (i # tab) = [unat (i_lb i)..<Suc (unat (i_ub i))] @ idx tab" "idx (s @ t) = idx s @ idx t"
  by (simp_all add: idx_def)

lemma intv_size_nat: "intv_ok i \<Longrightarrow> unat (intv_size i) = Suc (unat (i_ub i)) - unat (i_lb i)"
  unfolding intv_size_def intv_ok_def
  by (subst unat_extent_u64) (auto simp: word_le_nat_alt Suc_diff_le)

lemma intv_split:
  assumes "intv_ok i" "0 < len" "len < intv_size i"
  shows "intv_ok \<lparr>i_lb = i_lb i, i_ub = i_lb i + len - 1\<rparr>" "intv_ok (i\<lparr>i_lb := i_lb i + len\<rparr>)"
    and "unat (i_lb i + len - 1) = unat (i_lb i) + unat len - 1" "unat (i_lb i + len) = unat (i_lb i) + unat len"
proof -
  have l: "unat len < Suc (unat (i_ub i)) - unat (i_lb i)" "0 < unat len" "unat (i_ub i) < 18446744073709551615"
    using assms intv_size_nat [OF assms(1)] by (simp_all add: word_less_nat_alt intv_ok_def)
  show a: "unat (i_lb i + len) = unat (i_lb i) + unat len" using l by (intro unat_plus_u64) simp
  have "(1 :: u64) \<le> i_lb i + len" using l by (simp add: word_le_nat_alt a)
  then show b: "unat (i_lb i + len - 1) = unat (i_lb i) + unat len - 1" by (simp add: unat_minus_u64 a)
  show "intv_ok \<lparr>i_lb = i_lb i, i_ub = i_lb i + len - 1\<rparr>" "intv_ok (i\<lparr>i_lb := i_lb i + len\<rparr>)"
    using l by (simp_all add: intv_ok_def word_le_nat_alt a b) linarith
qed

lemma take_intv_ok:
  assumes "list_all intv_ok tab" "unat len \<le> length (idx tab)"
  shows "\<exists>mine tab'. take_intv len tab acc = Some (acc @ mine, tab') \<and> idx mine @ idx tab' = idx tab \<and>
    length (idx mine) = unat len \<and> list_all intv_ok mine \<and> list_all intv_ok tab'"
  using assms
proof (induction len tab acc rule: take_intv.induct)
  case (1 len acc)
  then show ?case by (auto simp: unat_gt_0 unat_eq_0)
next
  case (2 len i tab acc)
  have i: "intv_ok i" and tab: "list_all intv_ok tab" using "2.prems"(1) by simp_all
  note size = intv_size_nat [OF i]
  consider "len = 0" | "0 < len" "intv_size i > len" | "0 < len" "\<not> intv_size i > len"
    by (cases "len = 0") (auto simp: word_neq_0_conv)
  then show ?case
  proof cases
    case 1
    then show ?thesis using i tab by (intro exI [of _ "[]"] exI [of _ "i # tab"]) simp
  next
    case 2
    note sp = intv_split [OF i 2]
    have "0 < unat len" "unat (i_lb i) + unat len \<le> Suc (unat (i_ub i))"
      using 2 size by (simp_all add: word_less_nat_alt)
    then have "[unat (i_lb i)..<unat (i_lb i) + unat len] @ [unat (i_lb i) + unat len..<Suc (unat (i_ub i))] =
        [unat (i_lb i)..<Suc (unat (i_ub i))]"
      by (metis le_add1 upt_add_eq_append le_add_diff_inverse)
    with 2 sp tab \<open>0 < unat len\<close> show ?thesis
      by (intro exI [of _ "[\<lparr>i_lb = i_lb i, i_ub = i_lb i + len - 1\<rparr>]"] exI [of _ "i\<lparr>i_lb := i_lb i + len\<rparr> # tab"])
        (simp del: upt_Suc)
  next
    case 3
    have le: "intv_size i \<le> len" using 3 by (simp add: not_less)
    then have u: "unat (len - intv_size i) = unat len - unat (intv_size i)" "unat (intv_size i) \<le> unat len"
      by (simp_all add: unat_minus_u64 word_le_nat_alt)
    have "unat (len - intv_size i) \<le> length (idx tab)" using "2.prems"(2) u size by (simp del: upt_Suc)
    then obtain mine tab' where m: "take_intv (len - intv_size i) tab (acc @ [i]) = Some ((acc @ [i]) @ mine, tab')"
      "idx mine @ idx tab' = idx tab" "length (idx mine) = unat (len - intv_size i)"
      "list_all intv_ok mine" "list_all intv_ok tab'"
      using "2.IH" [OF 3 tab] by blast
    then show ?thesis
      using 3 i u size by (intro exI [of _ "i # mine"] exI [of _ tab']) (simp del: upt_Suc)
  qed
qed

definition entry_idx :: "dht_entry \<Rightarrow> nat list" where
  "entry_idx de = idx (de_itab de)"

text \<open>An entry holds at least one interval, and \<open>de_virt\<close> spans them.\<close>

definition piece_ok :: "dht_entry \<Rightarrow> bool" where
  "piece_ok de \<longleftrightarrow> de_itab de \<noteq> [] \<and> list_all intv_ok (de_itab de) \<and>
     de_virt de = \<lparr>i_lb = i_lb (hd (de_itab de)), i_ub = i_ub (last (de_itab de))\<rparr>"

lemma assign_intv_ok:
  assumes "list_all intv_ok tab" "(\<Sum>j<length des. unat (piece_len volume n (i + j))) = length (idx tab)"
    and "\<forall>j<length des. 0 < piece_len volume n (i + j)" "list_all (\<lambda>de. de_itab de = []) des"
  shows "\<exists>des'. assign_intv volume n i des tab = Some des' \<and> length des' = length des \<and>
    concat (map entry_idx des') = idx tab \<and>
    (\<forall>j<length des. length (entry_idx (des' ! j)) = unat (piece_len volume n (i + j)) \<and>
       de_rank (des' ! j) = int (i + j) \<and> piece_ok (des' ! j))"
  using assms
proof (induction des arbitrary: i tab)
  case Nil
  then show ?case by simp
next
  case (Cons de des)
  let ?len = "piece_len volume n i"
  have sum: "(\<Sum>j<length (de # des). unat (piece_len volume n (i + j))) =
      unat ?len + (\<Sum>j<length des. unat (piece_len volume n (i + 1 + j)))"
    by (simp add: sum.lessThan_Suc_shift del: sum.lessThan_Suc)
  then have "unat ?len \<le> length (idx tab)" using Cons.prems(2) by simp
  from take_intv_ok [OF Cons.prems(1) this, of "[]"] obtain mine tab'
    where m: "take_intv ?len tab [] = Some (mine, tab')" "idx mine @ idx tab' = idx tab"
      "length (idx mine) = unat ?len" "list_all intv_ok mine" "list_all intv_ok tab'"
    by auto
  have "0 < ?len" using Cons.prems(3) [rule_format, of 0] by simp
  then have "mine \<noteq> []" using m(3) by (auto simp: unat_gt_0 [symmetric] word_neq_0_conv [symmetric])
  have tab': "(\<Sum>j<length des. unat (piece_len volume n (i + 1 + j))) = length (idx tab')"
    using Cons.prems(2) sum arg_cong [OF m(2), of length] m(3) by simp
  obtain des' where d: "assign_intv volume n (i + 1) des tab' = Some des'" "length des' = length des"
    "concat (map entry_idx des') = idx tab'"
    "\<forall>j<length des. length (entry_idx (des' ! j)) = unat (piece_len volume n (i + 1 + j)) \<and>
       de_rank (des' ! j) = int (i + 1 + j) \<and> piece_ok (des' ! j)"
    using Cons.IH [OF m(5) tab'] Cons.prems(3,4) by force
  show ?case
    using m d \<open>mine \<noteq> []\<close> Cons.prems(4)
    by (auto simp: entry_idx_def [abs_def] piece_ok_def nth_Cons split: nat.split)
qed

lemma piece_len_nat:
  assumes "0 < n" "n \<le> 2147483648"
  shows "unat (piece_len volume n i) = unat volume div n + (if i < unat volume mod n then 1 else 0)"
proof -
  have n: "unat (of_nat n :: u64) = n" using assms by (simp add: unat_of_nat)
  have r: "unat (volume mod of_nat n) = unat volume mod n" by (simp add: unat_mod n)
  have lt: "unat volume mod n < 2147483648" using assms by (meson less_le_trans mod_less_divisor)
  have "unat (ucast (volume mod of_nat n) :: 32 word) = unat volume mod n"
    using lt by (simp add: unsigned_ucast_eq take_bit_nat_eq_self r)
  then have "sint (ucast (volume mod of_nat n) :: 32 word) = int (unat volume mod n)"
    using lt by (simp add: sint_uint uint_nat signed_take_bit_int_eq_self del: unat_eq_nat_uint)
  moreover have "unat (volume div of_nat n + 1) = unat volume div n + 1" if "i < unat volume mod n"
  proof -
    have "unat volume div n < unat volume" using that assms by (metis One_nat_def div_by_1 div_less_dividend
          gr0I less_nat_zero_code linorder_neqE_nat mod_by_1 mod_0 less_one)
    then show ?thesis using unat_u64_bound [of volume] by (subst unat_plus_u64) (simp_all add: unat_div n)
  qed
  ultimately show ?thesis by (simp add: piece_len_def Let_def unat_div n)
qed

lemma piece_len_total:
  assumes "0 < n" "n \<le> 2147483648"
  shows "(\<Sum>j<n. unat (piece_len volume n j)) = unat volume"
proof -
  let ?r = "unat volume mod n"
  have "(\<Sum>j<n. if j < ?r then 1 else 0) = card ({..<n} \<inter> {j. j < ?r})"
    by (simp add: sum.If_cases)
  also have "{..<n} \<inter> {j. j < ?r} = {..<?r}" using mod_less_divisor [OF assms(1), of "unat volume"] by fastforce
  finally have "(\<Sum>j<n. if j < ?r then 1 else (0::nat)) = ?r" by simp
  then show ?thesis
    by (simp only: piece_len_nat [OF assms] sum.distrib sum_constant card_lessThan of_nat_id mult_div_mod_eq)
qed

section \<open>Properties\<close>

text \<open>
  C14: \<^verbatim>\<open>ssd_alloc_v2\<close> always builds a space, and its entries partition the domain: entry \<open>k\<close> has rank
  \<open>k\<close>, no cell leaves the domain, and every point of the domain belongs to exactly one entry.
\<close>

theorem ssd_alloc_v2_partitions:
  assumes "domain_ok bb" "0 < n" "n \<le> 2147483648"
  shows "\<exists>ss. ssd_alloc_v2 bb n mv = Some ss \<and> length (ent_tab (ss_dht ss)) = n \<and>
    map de_rank (ent_tab (ss_dht ss)) = map int [0..<n] \<and>
    (\<forall>k<n. \<forall>b\<in>set (de_bbtab (ent_tab (ss_dht ss) ! k)). points b \<subseteq> points bb) \<and>
    (\<forall>p\<in>points bb. \<exists>!k. k < n \<and> (\<exists>b\<in>set (de_bbtab (ent_tab (ss_dht ss) ! k)). p \<in> points b))"
proof -
  obtain ss where ss: "ssd_alloc_v2 bb n mv = Some ss" "v2_space bb n ss"
    using ssd_alloc_v2_ok [OF assms] by blast
  then show ?thesis
    using v2_space_cells(2) [OF ss(2)] owner_unique [OF ss(2)]
    by (intro exI [of _ ss] conjI) (simp_all add: v2_space_def)
qed

lemma ex_domain_ok: "domain_ok (mk_box [0, 0] [2, 9])"
  unfolding domain_ok_def by (simp add: mk_box_simps wf_mk_box mk_box_sel all_less_two)

theorem ssd_alloc_v2_partitions_witness:
  "\<exists>ss. ssd_alloc_v2 (mk_box [0, 0] [2, 9]) 3 1 = Some ss \<and>
    (\<forall>p\<in>points (mk_box [0, 0] [2, 9]).
       \<exists>!k. k < 3 \<and> (\<exists>b\<in>set (de_bbtab (ent_tab (ss_dht ss) ! k)). p \<in> points b))"
  using ssd_alloc_v2_partitions [OF ex_domain_ok, of 3 1] by force

text \<open>
  C15: in a space of version 2, \<^verbatim>\<open>ssd_hash\<close> of a box returns the owner of every point of the box inside
  the domain, each entry once, also when the answer comes from the cache of earlier answers of that
  space, and the cache stays right.
\<close>

theorem ssd_hash_v2_complete:
  assumes "domain_ok bb" "0 < n" "n \<le> 2147483648" "ssd_alloc_v2 bb n mv = Some ss"
    and "cache_ok sid ss cache" "num_dims q = num_dims bb"
  shows "\<exists>refs cache'. ssd_hash ijunk junk cache sid ss q = Some (refs, cache') \<and> cache_ok sid ss cache' \<and>
    distinct refs \<and> set refs \<subseteq> {(sid, k) | k. k < n} \<and>
    (\<forall>k<n. \<forall>b\<in>set (de_bbtab (ent_tab (ss_dht ss) ! k)). points q \<inter> points b \<noteq> {} \<longrightarrow> (sid, k) \<in> set refs)"
proof -
  have v2: "v2_space bb n ss" using ssd_alloc_v2_ok [OF assms(1-3), of mv] assms(4) by auto
  let ?r = "ssd_hash_v2 cache sid ss q"
  note c = ssd_hash_v2_cached [OF assms(5), of q]
  have "ssd_hash ijunk junk cache sid ss q = Some (fst ?r, snd ?r)"
    using v2 by (simp add: ssd_hash_def v2_space_def)
  moreover have "distinct (fst ?r)" "set (fst ?r) \<subseteq> {(sid, k) | k. k < n}"
    using v2 unfolding c(1) by (auto simp: scan_v2_def hash_scan_def distinct_map inj_on_def v2_space_def)
  moreover have "(sid, k) \<in> set (fst ?r)"
    if "k < n" "b \<in> set (de_bbtab (ent_tab (ss_dht ss) ! k))" "points q \<inter> points b \<noteq> {}" for k b
    using that v2_space_cells(1) [OF v2 that(1,2)] scan_v2_complete [of k ss b _ q sid] assms(6) v2
    unfolding c(1) by (auto simp: cell_def v2_space_def)
  ultimately show ?thesis using c(2) by blast
qed

theorem ssd_hash_v2_complete_witness:
  "\<exists>ss refs cache'. ssd_alloc_v2 (mk_box [0, 0] [2, 9]) 3 1 = Some ss \<and>
    ssd_hash \<lparr>i_lb = 0, i_ub = 0\<rparr> (mk_box [] []) [] 7 ss (mk_box [1, 1] [2, 2]) = Some (refs, cache') \<and>
    (\<forall>k<3. \<forall>b\<in>set (de_bbtab (ent_tab (ss_dht ss) ! k)).
       points (mk_box [1, 1] [2, 2]) \<inter> points b \<noteq> {} \<longrightarrow> (7, k) \<in> set refs)"
proof -
  obtain ss where ss: "ssd_alloc_v2 (mk_box [0, 0] [2, 9]) 3 1 = Some ss"
    using ssd_alloc_v2_ok [OF ex_domain_ok, of 3 1] by auto
  have "cache_ok 7 ss []" by (simp add: cache_ok_def)
  with ssd_hash_v2_complete [OF ex_domain_ok _ _ ss, of 7 "[]" "mk_box [1, 1] [2, 2]"
      "\<lparr>i_lb = 0, i_ub = 0\<rparr>" "mk_box [] []"] ss
  show ?thesis by (force simp: mk_box_sel)
qed

text \<open>
  C17: the element counts of the servers of a version 2 space add up: summed over the entries,
  \<^verbatim>\<open>ssh_hash_elem_count\<close> of a box is the number of points of the box inside the domain (modulo \<open>2 ^ 64\<close>),
  although bisection may leave empty cells behind.
\<close>

theorem ssh_hash_elem_counts_add_up:
  assumes "domain_ok bb" "0 < n" "n \<le> 2147483648" "ssd_alloc_v2 bb n mv = Some ss"
    and "wf_bbox q" "nonempty_bbox q" "wf_bbox junk" "num_dims q = num_dims bb"
  shows "(\<Sum>k<n. the (ssh_hash_elem_count ijunk junk (ss\<lparr>ent_self := k\<rparr>) q)) = of_nat (card (points q \<inter> points bb))"
proof -
  have v2: "v2_space bb n ss" using ssd_alloc_v2_ok [OF assms(1-3), of mv] assms(4) by auto
  then show ?thesis
    using elem_counts_total [OF v2 assms(5-8)] by (simp add: ssh_hash_elem_count_def v2_space_def)
qed

theorem ssh_hash_elem_counts_add_up_witness:
  "\<exists>ss. ssd_alloc_v2 (mk_box [0, 0] [2, 9]) 3 1 = Some ss \<and>
    (\<Sum>k<3. the (ssh_hash_elem_count \<lparr>i_lb = 0, i_ub = 0\<rparr> (mk_box [] []) (ss\<lparr>ent_self := k\<rparr>) (mk_box [1, 1] [2, 2]))) =
      of_nat (card (points (mk_box [1, 1] [2, 2]) \<inter> points (mk_box [0, 0] [2, 9])))"
proof -
  obtain ss where ss: "ssd_alloc_v2 (mk_box [0, 0] [2, 9]) 3 1 = Some ss"
    using ssd_alloc_v2_ok [OF ex_domain_ok, of 3 1] by auto
  with ssh_hash_elem_counts_add_up [OF ex_domain_ok _ _ ss, of "mk_box [1, 1] [2, 2]" "mk_box [] []" "\<lparr>i_lb = 0, i_ub = 0\<rparr>"]
  show ?thesis by (auto simp: mk_box_simps wf_mk_box mk_box_sel)
qed

text \<open>
  The cache is keyed by the box alone. Once a box has been hashed in one space, hashing it in a
  different space returns the entries of the first.
\<close>

theorem cache_crosses_spaces:
  assumes "fst (ssd_hash_v2 [] s1 ss1 bb) \<noteq> []"
  shows "ssd_hash_v2 (snd (ssd_hash_v2 [] s1 ss1 bb)) s2 ss2 bb = ssd_hash_v2 [] s1 ss1 bb"
  using assms by (auto simp: ssd_hash_v2_def sh_find_def sh_add_def Let_def bbox_equals_refl)

definition ex_space1 :: sspace where
  "ex_space1 = the (ssd_alloc_v2 (mk_box [0] [3]) 2 1)"

definition ex_space2 :: sspace where
  "ex_space2 = the (ssd_alloc_v2 (mk_box [0] [7]) 2 1)"

theorem cache_crosses_spaces_witness:
  "fst (ssd_hash_v2 (snd (ssd_hash_v2 [] 1 ex_space1 (mk_box [2] [3]))) 2 ex_space2 (mk_box [2] [3])) = [(1, 1)] \<and>
   fst (ssd_hash_v2 [] 2 ex_space2 (mk_box [2] [3])) = [(2, 0)]"
proof -
  have "fst (ssd_hash_v2 [] 1 ex_space1 (mk_box [2] [3])) = [(1, 1)]" by code_simp
  moreover have "fst (ssd_hash_v2 [] 2 ex_space2 (mk_box [2] [3])) = [(2, 0)]" by code_simp
  ultimately show ?thesis using cache_crosses_spaces [of 1 ex_space1 "mk_box [2] [3]" 2 ex_space2] by simp
qed

text \<open>
  \<^verbatim>\<open>dht_construct_hash\<close> cuts the curve into consecutive pieces: when the interval table of the domain
  has as many indices as the domain has elements, the entries receive all of them in order, entry
  \<open>j\<close> the same number as any other up to one.
\<close>

theorem dht_construct_hash_balanced:
  assumes "0 < n" "n \<le> 2147483648" "n \<le> unat (bbox_volume bb)"
    and "bbox_to_intv ijunk bb max_dim bpd = Some tab" "list_all intv_ok tab"
    and "length (idx tab) = unat (bbox_volume bb)"
  shows "\<exists>d. dht_construct_hash ijunk (dht_alloc bb n mv) max_dim bpd = Some d \<and> length (ent_tab d) = n \<and>
    concat (map entry_idx (ent_tab d)) = idx tab \<and>
    (\<forall>j<n. de_rank (ent_tab d ! j) = int j \<and> piece_ok (ent_tab d ! j) \<and>
       length (entry_idx (ent_tab d ! j)) =
         unat (bbox_volume bb) div n + (if j < unat (bbox_volume bb) mod n then 1 else 0))"
proof -
  let ?v = "bbox_volume bb" and ?des = "map (\<lambda>_. dht_entry_alloc mv) [0..<n]"
  have pos: "0 < piece_len ?v n j" for j
    using assms(3) piece_len_nat [OF assms(1,2), of ?v j] div_greater_zero_iff [of "unat ?v" n] assms(1)
    by (auto simp: word_less_nat_alt)
  have "list_all (\<lambda>de. de_itab de = []) ?des" by (simp add: list_all_iff dht_entry_alloc_def)
  then obtain des' where d: "assign_intv ?v n 0 ?des tab = Some des'" "length des' = n"
    "concat (map entry_idx des') = idx tab"
    "\<forall>j<n. length (entry_idx (des' ! j)) = unat (piece_len ?v n j) \<and> de_rank (des' ! j) = int j \<and> piece_ok (des' ! j)"
    using assign_intv_ok [where tab = tab and des = ?des and volume = ?v and n = n and i = 0] assms(5,6) pos piece_len_total [OF assms(1,2), of ?v] by auto
  then show ?thesis
    using assms(1,4) piece_len_nat [OF assms(1,2), of ?v] by (simp add: dht_construct_hash_def dht_alloc_def)
qed

theorem dht_construct_hash_balanced_witness:
  "\<exists>d. dht_construct_hash \<lparr>i_lb = 77, i_ub = 99\<rparr> (dht_alloc (mk_box [0] [3]) 2 1) 4 3 = Some d \<and>
    concat (map entry_idx (ent_tab d)) = [0..<4] \<and> (\<forall>j<2. length (entry_idx (ent_tab d ! j)) = 2)"
proof -
  have t: "bbox_to_intv \<lparr>i_lb = 77, i_ub = 99\<rparr> (mk_box [0] [3]) 4 3 = Some [\<lparr>i_lb = 0, i_ub = 3\<rparr>]" by code_simp
  have v: "bbox_volume (mk_box [0] [3]) = 4" by code_simp
  have x: "idx [\<lparr>i_lb = 0, i_ub = 3\<rparr>] = [0..<4]" by (simp add: upt_rec)
  show ?thesis
    using dht_construct_hash_balanced [of 2 "mk_box [0] [3]", OF _ _ _ t, of 1] by (auto simp: v x intv_ok_def simp del: idx_simps)
qed

text \<open>
  Version 1 rounds the largest upper bound, not the largest extent, up to a power of two, so a
  domain of two points per dimension has no curve that covers it: allocation reads past the interval
  table. \<^verbatim>\<open>ssd_choose_hash\<close> picks version 1 for exactly these domains.
\<close>

theorem ssd_alloc_v1_two_points:
  "ssd_alloc \<lparr>i_lb = 0, i_ub = 0\<rparr> (mk_box [0] [1]) 1 1 hash_version_auto = None \<and>
   ssd_choose_hash (mk_box [0, 0] [1, 1]) = hash_version_v1"
proof
  show "ssd_choose_hash (mk_box [0, 0] [1, 1]) = hash_version_v1" by code_simp
  show "ssd_alloc \<lparr>i_lb = 0, i_ub = 0\<rparr> (mk_box [0] [1]) 1 1 hash_version_auto = None" by code_simp
qed

end
