(* ===== verification/V1Hash.thy ===== *)
theory V1Hash
  imports CurveCubes SSpace "HOL-Library.Multiset"
begin

text \<open>
  Spaces of version 1: the servers share the pieces of the Hilbert curve the domain occupies. The
  interval table of a box lists the indices of its points in order and once, so \<^verbatim>\<open>dht_construct_hash\<close> gives every
  point one owner, and \<^verbatim>\<open>ssd_hash_v1\<close> finds exactly the owners of the points of a box.
\<close>

section \<open>Tables in order\<close>

lemma unat_iv: "unat ` {l..u :: u64} = {unat l..<Suc (unat u)}"
proof (intro set_eqI iffI)
  fix x assume "x \<in> {unat l..<Suc (unat u)}"
  then have x: "unat l \<le> x" "x \<le> unat u" by auto
  have "unat u < 2 ^ 64" using unsigned_less [of u] by simp
  then have "unat (of_nat x :: u64) = x" using x(2) by (simp add: unat_of_nat)
  then show "x \<in> unat ` {l..u}" using x by (intro image_eqI [of _ _ "of_nat x"]) (simp_all add: word_le_nat_alt)
qed (auto simp: word_le_nat_alt)

lemma unat_mem: "unat w \<in> unat ` S \<longleftrightarrow> w \<in> S" for w :: u64
  by (auto simp: word_unat_eq_iff [symmetric])

lemma set_tab_idx: "set (idx tab) = unat ` (\<Union>i\<in>set tab. iv i)"
  by (induction tab) (auto simp: image_Un unat_iv simp del: upt_Suc)

lemma compact_idx:
  "intv_ok c \<Longrightarrow> list_all intv_ok xs \<Longrightarrow> idx (compact c xs) = idx (c # xs) \<and> list_all intv_ok (compact c xs)"
proof (induction xs arbitrary: c)
  case (Cons x xs)
  show ?case
  proof (cases "i_ub c + 1 = i_lb x")
    case True
    have ok: "intv_ok c" "intv_ok x" using Cons.prems by simp_all
    have "unat (i_ub c + 1) = unat (i_ub c) + unat (1 :: u64)" using ok(1) by (intro unat_plus_u64) (simp add: intv_ok_def)
    then have l: "unat (i_lb x) = Suc (unat (i_ub c))" using True by simp
    have "unat (i_lb c) \<le> unat (i_ub c)" "unat (i_lb x) \<le> unat (i_ub x)" using ok by (simp_all add: intv_ok_def word_le_nat_alt)
    then have "[unat (i_lb c)..<Suc (unat (i_ub c))] @ [unat (i_lb x)..<Suc (unat (i_ub x))] = [unat (i_lb c)..<Suc (unat (i_ub x))]"
      using upt_add_eq_append [of "unat (i_lb c)" "Suc (unat (i_ub c))" "Suc (unat (i_ub x)) - Suc (unat (i_ub c))"] l by (simp del: upt_Suc)
    then show ?thesis using Cons.IH [OF iv_merge(2) [OF ok True]] Cons.prems(2) True by (simp del: upt_Suc)
  qed (use Cons in simp)
qed simp

lemma sort_compact_idx:
  assumes "list_all intv_ok tab" "tab \<noteq> []"
  shows "idx (sort_compact junk tab) = idx (sort_key i_lb tab)" "list_all intv_ok (sort_compact junk tab)"
proof -
  obtain c xs where s: "sort_key i_lb tab = c # xs"
    using assms(2) by (cases "sort_key i_lb tab") (metis length_0_conv length_sort, blast)
  then have "set tab = insert c (set xs)" by (metis list.simps(15) set_sort)
  with assms(1) have "intv_ok c" "list_all intv_ok xs" by (auto simp: list_all_iff)
  then show "idx (sort_compact junk tab) = idx (sort_key i_lb tab)" "list_all intv_ok (sort_compact junk tab)"
    using s compact_idx by (simp_all add: sort_compact_alt(2))
qed

lemma mset_idx: "mset xs = mset ys \<Longrightarrow> mset (idx xs) = mset (idx ys)"
proof -
  have "mset (idx xs) = (\<Sum>i\<in>#mset xs. mset [unat (i_lb i)..<Suc (unat (i_ub i))])" for xs
    by (induction xs) (simp_all del: upt_Suc)
  then show "mset xs = mset ys \<Longrightarrow> mset (idx xs) = mset (idx ys)" by simp
qed

lemma sorted_idx:
  "sorted (map i_lb xs) \<Longrightarrow> list_all intv_ok xs \<Longrightarrow> distinct (idx xs) \<Longrightarrow> sorted (idx xs)"
proof (induction xs)
  case (Cons x xs)
  have "y \<le> z" if y: "y \<in> {unat (i_lb x)..<Suc (unat (i_ub x))}" and z: "z \<in> set (idx xs)" for y z
  proof -
    obtain i where i: "i \<in> set xs" "z \<in> {unat (i_lb i)..<Suc (unat (i_ub i))}" using z by (auto simp: idx_def)
    have le: "unat (i_lb x) \<le> unat (i_lb i)" using Cons.prems(1) i(1) by (auto simp: word_le_nat_alt)
    have "unat (i_lb i) \<in> {unat (i_lb i)..<Suc (unat (i_ub i))}"
      using Cons.prems(2) i(1) by (auto simp: list_all_iff intv_ok_def word_le_nat_alt)
    then have "unat (i_lb i) \<in> set (idx xs)" using i(1) by (auto simp: idx_def simp del: upt_Suc)
    then have "unat (i_lb i) \<notin> {unat (i_lb x)..<Suc (unat (i_ub x))}" using Cons.prems(3) by (auto simp del: upt_Suc)
    then show ?thesis using le y i(2) by auto
  qed
  then show ?case using Cons by (auto simp: sorted_append simp del: upt_Suc)
qed simp

section \<open>The table of a box\<close>

context sfc_curve
begin

lemma distinct_cells:
  "list_all cubic g \<Longrightarrow> inj_on index (\<Union>b\<in>set g. points b) \<Longrightarrow> (\<And>p. cnt p g \<le> 1) \<Longrightarrow> distinct (idx (map flat g))"
proof (induction g)
  case (Cons b g)
  have c: "cnt p g \<le> 1" "p \<in> points b \<Longrightarrow> cnt p g = 0" for p using Cons.prems(3) [of p] by (auto split: if_splits)
  have "distinct (idx (map flat g))" using Cons.prems(1,2) c by (intro Cons.IH) (auto intro: inj_on_subset)
  moreover have "set (idx [flat b]) \<inter> set (idx (map flat g)) = {}"
  proof (rule ccontr)
    assume "set (idx [flat b]) \<inter> set (idx (map flat g)) \<noteq> {}"
    then obtain w w' b' where w: "w \<in> iv (flat b)" "w' \<in> iv (flat b')" "unat w = unat w'" and b': "b' \<in> set g"
      unfolding set_tab_idx by (auto simp del: atLeastAtMost_iff)
    have "w \<in> index ` points b" "w' \<in> index ` points b'"
      using flat_image [of b] flat_image [of b'] w(1,2) b' Cons.prems(1) by (auto simp: list_all_iff simp del: atLeastAtMost_iff)
    then obtain p p' where p: "p \<in> points b" "p' \<in> points b'" "index p = w" "index p' = w'" by blast
    moreover have "w = w'" using w(3) by (simp only: word_unat_eq_iff)
    ultimately have "p = p'" using Cons.prems(2) b' by (auto dest!: inj_onD)
    then have "0 < cnt p g" using p(2) b' cnt_pos_iff by blast
    then show False using c(2) [OF p(1)] by simp
  qed
  ultimately show ?case by (simp del: upt_Suc)
qed simp

lemma table_idx:
  fixes junk
  assumes "list_all cubic g" "g \<noteq> []" "inj_on index (\<Union>b\<in>set g. points b)" "\<And>p. cnt p g \<le> 1"
  defines "tab \<equiv> sort_compact junk (map flat g)"
  shows "list_all intv_ok tab" "distinct (idx tab)" "sorted (idx tab)" "set (idx tab) = unat ` index ` (\<Union>b\<in>set g. points b)"
proof -
  let ?s = "sort_key i_lb (map flat g)"
  have ok: "list_all intv_ok (map flat g)" using assms(1) flat_ok by (auto simp: list_all_iff)
  note sc = sort_compact_idx [OF ok, of junk, folded tab_def]
  show "list_all intv_ok tab" using sc assms(2) by simp
  have i: "idx tab = idx ?s" using sc assms(2) by simp
  have m: "mset (idx ?s) = mset (idx (map flat g))" by (rule mset_idx) simp
  then have "distinct (idx ?s)" using distinct_cells [OF assms(1,3,4)] by (metis mset_eq_imp_distinct_iff)
  moreover have "list_all intv_ok ?s" using ok by (simp add: list_all_iff)
  ultimately show "distinct (idx tab)" "sorted (idx tab)" using sorted_idx [of ?s] i by simp_all
  show "set (idx tab) = unat ` index ` (\<Union>b\<in>set g. points b)"
    unfolding set_tab_idx tab_def using table_cover [OF assms(1,2)] by (simp only:)
qed

end

section \<open>Entries and intervals\<close>

lemma intv_meet:
  assumes "intv_ok i" "intv_ok j"
  shows "intv_do_intersect i j \<longleftrightarrow> iv i \<inter> iv j \<noteq> {}"
proof
  assume "intv_do_intersect i j"
  then have "i_lb j \<in> iv i \<inter> iv j \<or> i_lb i \<in> iv i \<inter> iv j" using assms by (auto simp: intv_do_intersect_def intv_ok_def)
  then show "iv i \<inter> iv j \<noteq> {}" by blast
qed (auto simp: intv_do_intersect_def dest: order_trans intro: linear)

lemma sorted_bounds:
  assumes "sorted (idx tab)" "list_all intv_ok tab" "i \<in> set tab"
  shows "i_lb (hd tab) \<le> i_lb i" "i_ub i \<le> i_ub (last tab)"
proof -
  have ok: "unat (i_lb j) \<le> unat (i_ub j)" if "j \<in> set tab" for j
    using assms(2) that by (auto simp: list_all_iff intv_ok_def word_le_nat_alt)
  have mem: "unat (i_lb j) \<in> set (idx [j])" "unat (i_ub j) \<in> set (idx [j])" if "j \<in> set tab" for j using ok [OF that] by (simp_all del: upt_Suc)
  obtain xs ys where s: "tab = xs @ i # ys" using assms(3) by (meson split_list)
  have part: "idx tab = idx xs @ idx [i] @ idx ys" by (simp add: s)
  have i: "unat (i_lb i) \<in> set (idx [i])" "unat (i_ub i) \<in> set (idx [i])" using mem s by simp_all
  show "i_lb (hd tab) \<le> i_lb i"
  proof (cases xs)
    case (Cons x xs')
    then have "unat (i_lb x) \<in> set (idx xs)" using mem [of x] s by (auto simp del: upt_Suc)
    then show ?thesis using assms(1) i(1) unfolding part sorted_append by (auto simp: s Cons word_le_nat_alt simp del: idx_simps upt_Suc)
  qed (simp add: s)
  show "i_ub i \<le> i_ub (last tab)"
  proof (cases ys rule: rev_cases)
    case (snoc ys' y)
    then have "unat (i_ub y) \<in> set (idx ys)" using mem [of y] s by (auto simp del: upt_Suc)
    then show ?thesis using assms(1) i(2) unfolding part sorted_append by (auto simp: s snoc word_le_nat_alt simp del: idx_simps upt_Suc)
  qed (simp add: s)
qed

lemma dht_intersect_iff:
  assumes "piece_ok de" "sorted (entry_idx de)" "intv_ok itv"
  shows "dht_intersect de itv \<longleftrightarrow> (\<exists>w\<in>iv itv. unat w \<in> set (entry_idx de))"
proof -
  let ?t = "de_itab de"
  have t: "list_all intv_ok ?t" "de_virt de = \<lparr>i_lb = i_lb (hd ?t), i_ub = i_ub (last ?t)\<rparr>" using assms(1) by (simp_all add: piece_ok_def)
  have b: "i_lb (hd ?t) \<le> i_lb i" "i_ub i \<le> i_ub (last ?t)" if "i \<in> set ?t" for i
    using sorted_bounds [OF _ t(1) that] assms(2) by (simp_all add: entry_idx_def)
  have m: "list_ex (\<lambda>i. intv_do_intersect i itv) ?t \<longleftrightarrow> (\<exists>i\<in>set ?t. iv i \<inter> iv itv \<noteq> {})"
    using intv_meet [OF _ assms(3)] t(1) by (auto simp: list_ex_iff list_all_iff simp del: atLeastAtMost_iff)
  have r: "\<not> (i_lb (de_virt de) > i_ub itv \<or> i_ub (de_virt de) < i_lb itv)" if i: "i \<in> set ?t" "iv i \<inter> iv itv \<noteq> {}" for i
  proof -
    obtain w where "w \<in> iv i" "w \<in> iv itv" using i(2) by blast
    then have "i_lb i \<le> w" "w \<le> i_ub i" "i_lb itv \<le> w" "w \<le> i_ub itv" by simp_all
    then have "i_lb (hd ?t) \<le> i_ub itv" "i_lb itv \<le> i_ub (last ?t)" using b [OF i(1)] by (meson order_trans)+
    then show ?thesis by (simp add: t(2) not_less)
  qed
  have "dht_intersect de itv \<longleftrightarrow> (\<exists>i\<in>set ?t. iv i \<inter> iv itv \<noteq> {})" unfolding dht_intersect_def m using r by (auto simp del: atLeastAtMost_iff)
  also have "\<dots> \<longleftrightarrow> (\<exists>w\<in>iv itv. unat w \<in> set (entry_idx de))"
    unfolding entry_idx_def set_tab_idx unat_mem by blast
  finally show ?thesis .
qed

section \<open>A space of version 1\<close>

text \<open>
  The domains a virtual cube of side \<open>2 ^ K\<close> is right for: the largest upper bound lies strictly between \<open>2 ^ (K - 1)\<close>
  and \<open>2 ^ K\<close>. These include the domains \<^verbatim>\<open>ssd_choose_hash\<close> picks version 1 for, unless they have two points per
  dimension.
\<close>

definition v1_domain :: "bbox \<Rightarrow> nat \<Rightarrow> bool" where
  "v1_domain bb K \<longleftrightarrow> wf_bbox bb \<and> nonempty_bbox bb \<and> 1 \<le> ndims bb \<and> ndims bb * Suc K < 64 \<and> 0 < K \<and>
     (\<forall>j<ndims bb. unat (ub bb ! j) < 2 ^ K) \<and> (\<exists>j<ndims bb. 2 ^ (K - 1) < unat (ub bb ! j))"

lemma fold_max:
  fixes f :: "nat \<Rightarrow> u64"
  defines "r \<equiv> \<lambda>xs a. fold (\<lambda>i m. if f i > m then f i else m) xs a"
  shows "r xs a \<in> insert a (f ` set xs) \<and> (\<forall>y\<in>insert a (f ` set xs). y \<le> r xs a)"
proof (induction xs arbitrary: a)
  case (Cons x xs)
  show ?case using Cons [of "if f x > a then f x else a"] by (auto simp: r_def not_less dest: order_trans less_imp_le split: if_splits)
qed (simp add: r_def)

lemma v1_max_dim:
  assumes "v1_domain bb K"
  defines "M \<equiv> fold (\<lambda>i m. if ub bb ! i > m then ub bb ! i else m) [1..<ndims bb] (ub bb ! 0)"
  shows "M \<noteq> 0" "next_pow_2_v2 M = Some (2 ^ K)"
proof -
  let ?n = "ndims bb"
  have n: "1 \<le> ?n" "?n * Suc K < 64" using assms(1) by (auto simp: v1_domain_def)
  have "1 * Suc K \<le> ?n * Suc K" using n(1) by (rule mult_le_mono1)
  then have "1 * Suc K < 64" using n(2) by (rule le_less_trans)
  then have K: "K \<le> 63" by simp
  have ix: "{0..<?n} = insert 0 (set [1..<?n])" using n(1) by auto
  have M: "M \<in> (!) (ub bb) ` {0..<?n}" "\<And>y. y \<in> (!) (ub bb) ` {0..<?n} \<Longrightarrow> y \<le> M"
    using fold_max [where f = "(!) (ub bb)" and xs = "[1..<?n]" and a = "ub bb ! 0"] unfolding M_def [symmetric] ix image_insert by blast+
  have up: "unat M < 2 ^ K" using M(1) assms(1) by (auto simp: v1_domain_def)
  obtain j where "j < ?n" "2 ^ (K - 1) < unat (ub bb ! j)" using assms(1) by (auto simp: v1_domain_def)
  moreover from this have "ub bb ! j \<le> M" by (intro M(2)) auto
  ultimately have lo: "2 ^ (K - 1) < unat M" by (simp add: word_le_nat_alt)
  then show "M \<noteq> 0" by auto
  have "next_pow_loop M (2 ^ 0) = Some (2 ^ (0 + K))"
  proof (rule next_pow_loop_steps)
    show "0 + K \<le> 63" using K by simp
    show "M \<le> 2 ^ (0 + K)" using up unat_pow2 [OF K] by (simp add: word_le_nat_alt)
    fix j assume j: "j < K"
    then have "(2::nat) ^ j \<le> 2 ^ (K - 1)" by (intro power_increasing) simp_all
    moreover have "unat ((2::u64) ^ j) = 2 ^ j" using j K by (intro unat_pow2) simp
    ultimately have "unat ((2::u64) ^ j) < unat M" using lo by linarith
    then show "(2::u64) ^ (0 + j) < M" by (simp add: word_less_nat_alt)
  qed
  then show "next_pow_2_v2 M = Some (2 ^ K)" by (simp add: next_pow_2_v2_def)
qed

lemma v1_domain_inside:
  assumes "v1_domain bb K"
  shows "points bb \<subseteq> points (virt_box bb (2 ^ K))"
proof
  fix p assume p: "p \<in> points bb"
  have n: "1 \<le> ndims bb" "ndims bb * Suc K < 64" "ndims bb \<le> 10" using assms by (auto simp: v1_domain_def)
  have "1 * Suc K \<le> ndims bb * Suc K" using n(1) by (rule mult_le_mono1)
  then have "1 * Suc K < 64" using n(2) by (rule le_less_trans)
  then have K: "K \<le> 63" by simp
  have "p ! j \<le> 2 ^ K - 1" if "j < ndims bb" for j
  proof -
    have "unat (p ! j) \<le> unat (ub bb ! j)" using p that by (simp add: points_def word_le_nat_alt)
    moreover have "unat (ub bb ! j) < 2 ^ K" using assms that by (simp add: v1_domain_def)
    ultimately have "unat (p ! j) \<le> 2 ^ K - 1" by linarith
    then show ?thesis by (simp add: word_le_nat_alt unat_side [OF K])
  qed
  then show "p \<in> points (virt_box bb (2 ^ K))"
    using p n(3) by (auto simp: points_def virt_box_def BBOX_MAX_NDIM_def fold_upd_upt nth_append)
qed

text \<open>The table of a box in the curve of the space.\<close>

lemma v1_table:
  assumes "wf_bbox q" "nonempty_bbox q" "wf_bbox junk" "1 \<le> ndims q" "ndims q * Suc K < 64"
    and "points q \<inter> points (virt_box q (2 ^ K)) \<noteq> {}"
  obtains tab where "bbox_to_intv2 ijunk junk q (2 ^ K) bpd = Some tab" "bbox_to_intv ijunk q (2 ^ K) bpd = Some tab"
    "list_all intv_ok tab" "distinct (idx tab)" "sorted (idx tab)"
    "set (idx tab) = unat ` hilbert_c2i (ndims q) (Suc K) ` (points q \<inter> points (virt_box q (2 ^ K)))"
proof -
  obtain g where g: "bbox_to_intv2 ijunk junk q (2 ^ K) bpd = Some (sort_compact ijunk (map (\<lambda>b. bbox_flat b (Suc K)) g))"
    "bbox_to_intv ijunk q (2 ^ K) bpd = bbox_to_intv2 ijunk junk q (2 ^ K) bpd"
    "list_all (hilbert_cube (ndims q) (Suc K)) g" "\<forall>p. cnt p g \<le> 1"
    "(\<Union>b\<in>set g. points b) = points q \<inter> points (virt_box q (2 ^ K))"
    by (rule hilbert_cells [OF assms(1-5), where ijunk = ijunk and bpd = bpd]) blast
  have "inj_on (hilbert_c2i (ndims q) (Suc K)) (\<Union>b\<in>set g. points b)"
    unfolding g(5) using hilbert_back [OF assms(1,4,5)] by (intro inj_on_inverseI [of _ "hilbert_i2c (ndims q) (Suc K)"]) simp
  moreover have "g \<noteq> []" using assms(6) g(5) by auto
  ultimately have "list_all intv_ok (sort_compact ijunk (map (\<lambda>b. bbox_flat b (Suc K)) g))"
    "distinct (idx (sort_compact ijunk (map (\<lambda>b. bbox_flat b (Suc K)) g)))"
    "sorted (idx (sort_compact ijunk (map (\<lambda>b. bbox_flat b (Suc K)) g)))"
    "set (idx (sort_compact ijunk (map (\<lambda>b. bbox_flat b (Suc K)) g))) =
      unat ` hilbert_c2i (ndims q) (Suc K) ` (points q \<inter> points (virt_box q (2 ^ K)))"
    using hilbert.table_idx [OF g(3) _ _ g(4) [rule_format], of ijunk] unfolding g(5) by blast+
  then show ?thesis using that g(1,2) by simp
qed

lemma concat_parts:
  "distinct (concat xss) \<Longrightarrow> i < length xss \<Longrightarrow> j < length xss \<Longrightarrow> x \<in> set (xss ! i) \<Longrightarrow> x \<in> set (xss ! j) \<Longrightarrow> i = j"
proof (induction xss arbitrary: i j)
  case (Cons xs xss)
  then show ?case by (cases i; cases j) (auto, (metis IntI UN_I empty_iff nth_mem)+)
qed simp

lemma sorted_part: "sorted (concat xss) \<Longrightarrow> i < length xss \<Longrightarrow> sorted (xss ! i)"
  by (induction xss arbitrary: i) (auto simp: sorted_append nth_Cons split: nat.split)

lemma v1_space:
  assumes d: "v1_domain bb K" and "0 < n" "n \<le> 2147483648" "n \<le> card (points bb)"
  obtains ss where "ssd_alloc ijunk bb n mv hash_version_v1 = Some ss" "hash_version ss = hash_version_v1"
    "ss_max_dim ss = 2 ^ K" "length (ent_tab (ss_dht ss)) = n"
    "distinct (concat (map entry_idx (ent_tab (ss_dht ss))))" "sorted (concat (map entry_idx (ent_tab (ss_dht ss))))"
    "set (concat (map entry_idx (ent_tab (ss_dht ss)))) = unat ` hilbert_c2i (ndims bb) (Suc K) ` points bb"
    "\<forall>k<n. piece_ok (ent_tab (ss_dht ss) ! k)"
    "\<forall>k<n. length (entry_idx (ent_tab (ss_dht ss) ! k)) =
       card (points bb) div n + (if k < card (points bb) mod n then 1 else 0)"
proof -
  let ?c = "hilbert_c2i (ndims bb) (Suc K)" and ?bpd = "compute_bits (2 ^ K + 1)"
  have b: "wf_bbox bb" "nonempty_bbox bb" "1 \<le> ndims bb" "ndims bb * Suc K < 64" using d by (auto simp: v1_domain_def)
  have V: "points bb \<inter> points (virt_box bb (2 ^ K)) = points bb" using v1_domain_inside [OF d] by blast
  have "points bb \<noteq> {}" using assms(2,4) by auto
  then have ne: "points bb \<inter> points (virt_box bb (2 ^ K)) \<noteq> {}" unfolding V .
  obtain tab where t: "bbox_to_intv ijunk bb (2 ^ K) ?bpd = Some tab" "list_all intv_ok tab" "distinct (idx tab)" "sorted (idx tab)"
    "set (idx tab) = unat ` ?c ` points bb"
    by (rule v1_table [OF b(1,2) b(1) b(3,4) ne, where ijunk = ijunk and bpd = ?bpd]) (simp add: V)
  have "inj_on ?c (points bb)"
    using hilbert_back [OF b(1,3,4)] v1_domain_inside [OF d] by (intro inj_on_inverseI [of _ "hilbert_i2c (ndims bb) (Suc K)"]) auto
  moreover have "inj_on unat (?c ` points bb)" by (intro inj_onI) (simp add: word_unat_eq_iff)
  ultimately have len: "length (idx tab) = card (points bb)"
    using distinct_card [OF t(3)] by (simp only: t(5) card_image)
  have "set (idx tab) \<subseteq> {..<18446744073709551615}"
    unfolding set_tab_idx using t(2) by (auto simp: list_all_iff intv_ok_def word_le_nat_alt)
  then have "card (points bb) \<le> 18446744073709551615"
    using card_mono [of "{..<18446744073709551615 :: nat}" "set (idx tab)"] distinct_card [OF t(3)] len by simp
  then have vol: "unat (bbox_volume bb) = card (points bb)"
    using unat_bbox_volume [OF nonempty_ordered [OF b(2)]] by (simp add: card_points)
  obtain D where D: "dht_construct_hash ijunk (dht_alloc bb n mv) (2 ^ K) ?bpd = Some D" "length (ent_tab D) = n"
    "concat (map entry_idx (ent_tab D)) = idx tab"
    "\<forall>j<n. de_rank (ent_tab D ! j) = int j \<and> piece_ok (ent_tab D ! j) \<and>
       length (entry_idx (ent_tab D ! j)) = unat (bbox_volume bb) div n + (if j < unat (bbox_volume bb) mod n then 1 else 0)"
    using dht_construct_hash_balanced [OF assms(2,3) _ t(1,2), of mv] assms(4) vol len by auto
  let ?ss = "\<lparr>ss_max_dim = 2 ^ K, ss_bpd = ?bpd, ss_dht = D, ss_rank = 0, ent_self = 0,
    total_num_bbox = 0, hash_version = hash_version_v1\<rparr>"
  have "ssd_alloc ijunk bb n mv hash_version_v1 = Some ?ss"
    using v1_max_dim [OF d] D(1) by (simp add: ssd_alloc_def ssd_alloc_v1_def Let_def)
  then show ?thesis by (rule that) (use D t vol in auto)
qed

text \<open>
  C16: a space of version 1 divides the points of its domain among the servers, and hashing finds
  exactly the owners. For a domain whose virtual cube holds it and whose indices fit a word, allocation
  succeeds; every point of the domain belongs to one entry, the entries own equally many points up to one; and
  \<^verbatim>\<open>ssd_hash\<close> of a box that meets the domain returns the entries that own a point of the box in the domain, each
  once, and no others.
\<close>

theorem ssd_hash_v1_exact:
  assumes "v1_domain bb K" "0 < n" "n \<le> 2147483648" "n \<le> card (points bb)"
    and "wf_bbox q" "nonempty_bbox q" "wf_bbox junk" "num_dims q = num_dims bb" "points q \<inter> points bb \<noteq> {}"
  shows "\<exists>ss owner refs cache. ssd_alloc ijunk bb n mv hash_version_v1 = Some ss \<and>
    (\<forall>p\<in>points bb. owner p < n \<and> (\<forall>k<n. unat (hilbert_c2i (ndims bb) (Suc K) p) \<in> set (entry_idx (ent_tab (ss_dht ss) ! k)) \<longleftrightarrow> k = owner p)) \<and>
    (\<forall>k<n. card {p \<in> points bb. owner p = k} = card (points bb) div n + (if k < card (points bb) mod n then 1 else 0)) \<and>
    ssd_hash ijunk' junk [] sid ss q = Some (refs, cache) \<and> distinct refs \<and>
    set refs = (\<lambda>p. (sid, owner p)) ` (points q \<inter> points bb)"
proof -
  let ?n = "ndims bb" let ?c = "\<lambda>p. unat (hilbert_c2i ?n (Suc K) p)"
  obtain ss where ss: "ssd_alloc ijunk bb n mv hash_version_v1 = Some ss" "hash_version ss = hash_version_v1"
    "ss_max_dim ss = 2 ^ K" "length (ent_tab (ss_dht ss)) = n"
    "distinct (concat (map entry_idx (ent_tab (ss_dht ss))))" "sorted (concat (map entry_idx (ent_tab (ss_dht ss))))"
    "set (concat (map entry_idx (ent_tab (ss_dht ss)))) = unat ` hilbert_c2i ?n (Suc K) ` points bb"
    "\<forall>k<n. piece_ok (ent_tab (ss_dht ss) ! k)"
    "\<forall>k<n. length (entry_idx (ent_tab (ss_dht ss) ! k)) = card (points bb) div n + (if k < card (points bb) mod n then 1 else 0)"
    by (rule v1_space [OF assms(1-4), where ijunk = ijunk and mv = mv])
  define E where "E = (\<lambda>k. entry_idx (ent_tab (ss_dht ss) ! k))"
  have E: "map entry_idx (ent_tab (ss_dht ss)) ! k = E k" if "k < n" for k using that ss(4) by (simp add: E_def)
  have b: "wf_bbox bb" "1 \<le> ?n" "?n * Suc K < 64" using assms(1) by (auto simp: v1_domain_def)
  have "\<exists>k<n. ?c p \<in> set (E k)" if "p \<in> points bb" for p
  proof -
    have "?c p \<in> set (concat (map entry_idx (ent_tab (ss_dht ss))))" unfolding ss(7) using that by blast
    then obtain de where "de \<in> set (ent_tab (ss_dht ss))" "?c p \<in> set (entry_idx de)" by auto
    then show ?thesis using ss(4) unfolding E_def in_set_conv_nth [of de] by blast
  qed
  then obtain owner where o: "\<And>p. p \<in> points bb \<Longrightarrow> owner p < n \<and> ?c p \<in> set (E (owner p))" by metis
  have one: "?c p \<in> set (E k) \<longleftrightarrow> k = owner p" if "p \<in> points bb" "k < n" for p k
    using concat_parts [OF ss(5), of k "owner p" "?c p"] o [OF that(1)] that(2) E ss(4) by auto
  have inv_c: "hilbert_i2c ?n (Suc K) (hilbert_c2i ?n (Suc K) p) = p" if "p \<in> points (virt_box bb (2 ^ K))" for p
    using hilbert_back [OF b that] .
  note inside = v1_domain_inside [OF assms(1)]
  have cinj: "p = p'" if "?c p = ?c p'" "p \<in> points (virt_box bb (2 ^ K))" "p' \<in> points (virt_box bb (2 ^ K))" for p p'
    using that inv_c by (metis word_unat_eq_iff)
  have img: "set (E k) = ?c ` {p \<in> points bb. owner p = k}" if "k < n" for k
  proof (intro set_eqI iffI)
    fix x assume x: "x \<in> set (E k)"
    then have "x \<in> set (concat (map entry_idx (ent_tab (ss_dht ss))))" using that ss(4) by (auto simp: E_def)
    then obtain p where "p \<in> points bb" "x = ?c p" unfolding ss(7) by blast
    then show "x \<in> ?c ` {p \<in> points bb. owner p = k}" using x one that by blast
  qed (use one that in auto)
  have card: "card {p \<in> points bb. owner p = k} = card (points bb) div n + (if k < card (points bb) mod n then 1 else 0)" if "k < n" for k
  proof -
    have "inj_on ?c {p \<in> points bb. owner p = k}" using cinj inside by (auto intro!: inj_onI)
    then have "card {p \<in> points bb. owner p = k} = card (set (E k))" unfolding img [OF that] by (rule card_image [symmetric])
    also have "\<dots> = length (E k)" using ss(5) that ss(4) by (intro distinct_card) (auto simp: distinct_concat_iff E_def)
    finally show ?thesis using ss(9) that by (simp add: E_def)
  qed
  have vq: "points (virt_box q (2 ^ K)) = points (virt_box bb (2 ^ K))" using assms(8) by (simp add: virt_box_def)
  have q: "1 \<le> ndims q" "ndims q * Suc K < 64" "points q \<inter> points (virt_box q (2 ^ K)) \<noteq> {}"
    using b assms(8,9) inside unfolding vq by auto
  obtain tab where t: "bbox_to_intv2 ijunk' junk q (2 ^ K) (ss_bpd ss) = Some tab" "list_all intv_ok tab"
    "set (idx tab) = unat ` hilbert_c2i ?n (Suc K) ` (points q \<inter> points (virt_box bb (2 ^ K)))"
    by (rule v1_table [OF assms(5-7) q, where ijunk = ijunk' and bpd = "ss_bpd ss"]) (simp add: vq assms(8))
  let ?P = "\<lambda>k. list_ex (dht_intersect (ent_tab (ss_dht ss) ! k)) tab"
  have P: "?P k \<longleftrightarrow> (\<exists>p\<in>points q \<inter> points bb. owner p = k)" if k: "k < n" for k
  proof -
    have "sorted (E k)" using sorted_part [OF ss(6)] k ss(4) by (simp add: E_def)
    then have "?P k \<longleftrightarrow> (\<exists>i\<in>set tab. \<exists>w\<in>iv i. unat w \<in> set (E k))"
      using dht_intersect_iff [OF ss(8) [rule_format, OF k]] t(2) by (simp add: list_ex_iff list_all_iff E_def)
    also have "\<dots> \<longleftrightarrow> set (idx tab) \<inter> set (E k) \<noteq> {}" unfolding set_tab_idx by blast
    also have "\<dots> \<longleftrightarrow> (\<exists>p\<in>points q \<inter> points bb. owner p = k)"
    proof
      assume "set (idx tab) \<inter> set (E k) \<noteq> {}"
      then obtain p p' where p: "p \<in> points q" "p \<in> points (virt_box bb (2 ^ K))" "p' \<in> points bb" "owner p' = k" "?c p = ?c p'"
        unfolding t(3) img [OF k] by auto
      then have "p = p'" using cinj inside by blast
      then show "\<exists>p\<in>points q \<inter> points bb. owner p = k" using p by blast
    next
      assume "\<exists>p\<in>points q \<inter> points bb. owner p = k"
      then show "set (idx tab) \<inter> set (E k) \<noteq> {}" unfolding t(3) img [OF k] using inside by blast
    qed
    finally show ?thesis .
  qed
  define refs where "refs = hash_scan sid (\<lambda>de. list_ex (dht_intersect de) tab) ss"
  have r: "ssd_hash ijunk' junk [] sid ss q = Some (refs, sh_add [] q refs)"
    using ss(2,3) t(1) by (simp add: ssd_hash_def ssd_hash_v1_def sh_find_def refs_def Let_def)
  have dr: "distinct refs" by (simp add: refs_def hash_scan_def distinct_map inj_on_def)
  have sr: "set refs = (\<lambda>p. (sid, owner p)) ` (points q \<inter> points bb)"
  proof -
    have "set refs = {(sid, k) | k. k < n \<and> ?P k}" using ss(4) by (auto simp: refs_def hash_scan_def)
    also have "\<dots> = (\<lambda>p. (sid, owner p)) ` (points q \<inter> points bb)" using P o by auto
    finally show ?thesis .
  qed
  have "\<forall>p\<in>points bb. owner p < n \<and> (\<forall>k<n. ?c p \<in> set (entry_idx (ent_tab (ss_dht ss) ! k)) \<longleftrightarrow> k = owner p)"
    using o one unfolding E_def by blast
  with ss(1) card r dr sr show ?thesis by blast
qed

theorem ssd_hash_v1_exact_witness:
  "\<exists>ss owner refs cache. ssd_alloc \<lparr>i_lb = 0, i_ub = 0\<rparr> (mk_box [0, 0] [3, 3]) 3 1 hash_version_v1 = Some ss \<and>
    (\<forall>k<3. card {p \<in> points (mk_box [0, 0] [3, 3]). owner p = k} = 16 div 3 + (if k < 16 mod 3 then 1 else 0)) \<and>
    ssd_hash \<lparr>i_lb = 0, i_ub = 0\<rparr> (mk_box [] []) [] 7 ss (mk_box [1, 1] [2, 2]) = Some (refs, cache) \<and>
    set refs = (\<lambda>p. (7, owner p)) ` (points (mk_box [1, 1] [2, 2]) \<inter> points (mk_box [0, 0] [3, 3]))"
proof -
  let ?bb = "mk_box [0, 0] [3, 3]" and ?q = "mk_box [1, 1] [2, 2]"
  have b: "wf_bbox ?bb" "nonempty_bbox ?bb" "wf_bbox ?q" "nonempty_bbox ?q" "wf_bbox (mk_box [] [])"
    by (simp_all add: mk_box_simps)
  have d: "ndims ?bb = 2" "num_dims ?q = num_dims ?bb" by (simp_all add: mk_box_simps)
  have u: "ub ?bb ! 0 = 3" "ub ?bb ! 1 = 3" by (simp_all add: mk_box_def)
  have v: "v1_domain ?bb 2"
    unfolding v1_domain_def using b(1,2) d u by (auto simp: less_2_cases_iff intro!: exI [of _ 0])
  have c: "card (points ?bb) = 16" unfolding card_points by code_simp
  have "[1, 1] \<in> points ?q \<inter> points ?bb" by (simp add: points_def mk_box_def less_2_cases_iff)
  then have ne: "points ?q \<inter> points ?bb \<noteq> {}" by blast
  have n: "0 < (3::nat)" "(3::nat) \<le> 2147483648" "3 \<le> card (points ?bb)" by (simp_all add: c)
  show ?thesis
    using ssd_hash_v1_exact [OF v n b(3,4,5) d(2) ne, of "\<lparr>i_lb = 0, i_ub = 0\<rparr>" 1 "\<lparr>i_lb = 0, i_ub = 0\<rparr>" 7]
    unfolding c by - (elim exE conjE, intro exI conjI, assumption+)
qed

end
