(* ===== verification/Dht.thy ===== *)
theory Dht
  imports SSpace
begin

text \<open>
  One entry of the distributed hash table: the descriptors a server keeps for its part of the domain
  and the threads that wait for more of them (\<^verbatim>\<open>dht_find_match\<close> to \<^verbatim>\<open>dht_find_versions\<close> of
  \<^verbatim>\<open>src/ss_data.c\<close>). A descriptor node is an address into \<open>odsc_mem\<close>; a waiting thread is a
  number with its frame in \<open>sub_mem\<close>. \<open>ijunk\<close> and \<open>junk\<close> are uninitialised memory. The mutex of a bin
  makes every operation up to a wait atomic.
\<close>

section \<open>Operations\<close>

definition de_bin :: "dht_entry \<Rightarrow> obj_descriptor \<Rightarrow> nat" where
  "de_bin de odsc = unat (od_version odsc) mod odsc_size de"

definition node_sat :: "dht_entry \<Rightarrow> (obj_descriptor \<Rightarrow> bool) \<Rightarrow> nat \<Rightarrow> bool" where
  "node_sat de P a \<longleftrightarrow> (case odsc_mem de a of None \<Rightarrow> False | Some odsc \<Rightarrow> P odsc)"

definition dht_find_match :: "dht_entry \<Rightarrow> obj_descriptor \<Rightarrow> nat option" where
  "dht_find_match de odsc =
     (if od_version odsc = -1 then None
      else find (node_sat de (obj_desc_by_name_intersect odsc)) (odsc_hash de ! de_bin de odsc))"

definition dht_find_exact :: "dht_entry \<Rightarrow> obj_descriptor \<Rightarrow> nat option" where
  "dht_find_exact de odsc =
     find (node_sat de (obj_desc_equals_no_owner odsc)) (odsc_hash de ! de_bin de odsc)"

definition ENOENT :: int where "ENOENT = 2"

definition dht_update_owner :: "dht_entry \<Rightarrow> obj_descriptor \<Rightarrow> bool \<Rightarrow> int \<times> dht_entry" where
  "dht_update_owner de odsc clear_flag =
     (case dht_find_exact de odsc of
        None \<Rightarrow> (- ENOENT, de)
      | Some a \<Rightarrow>
          (0, de\<lparr>odsc_mem := (odsc_mem de)(a := map_option (\<lambda>old. old\<lparr>od_owner := od_owner odsc,
                od_flags := (if clear_flag then od_flags old AND NOT DS_CLIENT_STORAGE else od_flags old)\<rparr>)
              (odsc_mem de a))\<rparr>))"

text \<open>One subscription of the bin against the new descriptor stored at \<open>a\<close>.\<close>

definition sub_step ::
  "intv \<Rightarrow> bbox \<Rightarrow> sspace \<Rightarrow> obj_descriptor \<Rightarrow> nat \<Rightarrow> nat \<Rightarrow> dht_entry \<Rightarrow> dht_entry option" where
  "sub_step ijunk junk ss odsc a t de =
     Option.bind (sub_mem de t) (\<lambda>sub.
       if bbox_does_intersect (od_bb odsc) (od_bb (ds_odsc sub)) \<and> od_name odsc = od_name (ds_odsc sub) \<and>
          od_version odsc = od_version (ds_odsc sub)
       then map_option (\<lambda>n.
              let remaining = ds_remaining sub - n;
                  de = de\<lparr>sub_mem := (sub_mem de)(t \<mapsto> sub\<lparr>ds_recv := a # ds_recv sub,
                         ds_pub_count := ds_pub_count sub + 1, ds_remaining := remaining\<rparr>)\<rparr>;
                  b = de_bin de odsc
              in if remaining = 0 then de\<lparr>dht_subs := (dht_subs de)[b := remove1 t (dht_subs de ! b)]\<rparr> else de)
            (ssh_hash_elem_count ijunk junk ss (bbox_intersect (od_bb odsc) (od_bb (ds_odsc sub)) junk))
       else Some de)"

fun sub_loop ::
  "intv \<Rightarrow> bbox \<Rightarrow> sspace \<Rightarrow> obj_descriptor \<Rightarrow> nat \<Rightarrow> nat list \<Rightarrow> dht_entry \<Rightarrow> dht_entry option" where
  "sub_loop ijunk junk ss odsc a [] de = Some de"
| "sub_loop ijunk junk ss odsc a (t # ts) de =
     Option.bind (sub_step ijunk junk ss odsc a t de) (sub_loop ijunk junk ss odsc a ts)"

text \<open>\<^verbatim>\<open>dht_add_entry\<close> with \<open>fresh\<close> the address \<^verbatim>\<open>malloc\<close> returns.\<close>

definition dht_put_node :: "nat \<Rightarrow> dht_entry \<Rightarrow> obj_descriptor \<Rightarrow> nat \<times> dht_entry" where
  "dht_put_node fresh de odsc =
     (case dht_find_match de odsc of
        Some a \<Rightarrow> (a, de\<lparr>odsc_mem := (odsc_mem de)(a \<mapsto> odsc)\<rparr>)
      | None \<Rightarrow> (let n = de_bin de odsc
                 in (fresh, de\<lparr>odsc_hash := (odsc_hash de)[n := fresh # odsc_hash de ! n],
                               odsc_num := odsc_num de + 1, odsc_mem := (odsc_mem de)(fresh \<mapsto> odsc)\<rparr>)))"

definition dht_add_entry ::
  "intv \<Rightarrow> bbox \<Rightarrow> nat \<Rightarrow> sspace \<Rightarrow> dht_entry \<Rightarrow> obj_descriptor \<Rightarrow> dht_entry option" where
  "dht_add_entry ijunk junk fresh ss de odsc =
     (if odsc_size de = 0 then None
      else let (a, de) = dht_put_node fresh de odsc
           in sub_loop ijunk junk ss odsc a (dht_subs de ! de_bin de odsc) de)"

text \<open>The thread \<open>t\<close> enters the wait of \<^verbatim>\<open>dht_local_subscribe\<close>; \<open>tab\<close> is the table it has collected.\<close>

definition dht_local_subscribe :: "nat \<Rightarrow> dht_entry \<Rightarrow> obj_descriptor \<Rightarrow> nat list \<Rightarrow> u64 \<Rightarrow> dht_entry" where
  "dht_local_subscribe t de q_odsc tab remaining =
     (let n = de_bin de q_odsc
      in de\<lparr>dht_subs := (dht_subs de)[n := t # dht_subs de ! n],
            sub_mem := (sub_mem de)(t \<mapsto> \<lparr>ds_odsc = q_odsc, ds_remaining = remaining, ds_pub_count = 0,
              ds_recv = [], ds_tab = tab\<rparr>)\<rparr>)"

text \<open>
  The end of the wait: woken, the thread goes on when \<^verbatim>\<open>sub.remaining > 0\<close>, a comparison of signed
  numbers, is false.
\<close>

datatype dht_answer = Found "nat list" | Blocked

definition dht_resume :: "nat \<Rightarrow> dht_entry \<Rightarrow> dht_answer" where
  "dht_resume t de =
     (case sub_mem de t of
        None \<Rightarrow> Blocked
      | Some sub \<Rightarrow> if sint (ds_remaining sub) > 0 then Blocked else Found (ds_tab sub @ ds_recv sub))"

text \<open>The scan of a bin: the matching nodes and what is left of \<^verbatim>\<open>num_elem\<close>.\<close>

fun find_loop ::
  "intv \<Rightarrow> bbox \<Rightarrow> sspace \<Rightarrow> dht_entry \<Rightarrow> obj_descriptor \<Rightarrow> nat list \<Rightarrow> u64 \<Rightarrow> (nat list \<times> u64) option" where
  "find_loop ijunk junk ss de q_odsc [] nelem = Some ([], nelem)"
| "find_loop ijunk junk ss de q_odsc (a # as) nelem =
     Option.bind (odsc_mem de a) (\<lambda>odsc.
       if obj_desc_equals_intersect odsc q_odsc
       then Option.bind (ssh_hash_elem_count ijunk junk ss (bbox_intersect (od_bb q_odsc) (od_bb odsc) junk)) (\<lambda>n.
              map_option (\<lambda>(tab, r). (a # tab, r)) (find_loop ijunk junk ss de q_odsc as (nelem - n)))
       else find_loop ijunk junk ss de q_odsc as nelem)"

definition dht_find_entry_all ::
  "intv \<Rightarrow> bbox \<Rightarrow> nat \<Rightarrow> sspace \<Rightarrow> nat \<Rightarrow> dht_entry \<Rightarrow> obj_descriptor \<Rightarrow> int \<Rightarrow> (dht_answer \<times> dht_entry) option" where
  "dht_find_entry_all ijunk junk t ss k de q_odsc timeout =
     (if odsc_size de = 0 then None
      else let sub = (timeout = -1 \<and> k = ent_self ss) in
        Option.bind (ssh_hash_elem_count ijunk junk ss (od_bb q_odsc)) (\<lambda>nelem.
        map_option (\<lambda>(tab, nelem).
          if sint nelem > 0
          then if sub then (Blocked, dht_local_subscribe t de q_odsc tab nelem) else (Found [], de)
          else (Found tab, de))
          (find_loop ijunk junk ss de q_odsc (odsc_hash de ! de_bin de q_odsc) nelem)))"

definition dht_find_versions :: "dht_entry \<Rightarrow> obj_descriptor \<Rightarrow> int list" where
  "dht_find_versions de q_odsc =
     concat (map (\<lambda>i. case find (node_sat de (\<lambda>odsc. obj_desc_by_name_intersect odsc q_odsc)) (odsc_hash de ! i) of
         None \<Rightarrow> []
       | Some a \<Rightarrow> (case odsc_mem de a of None \<Rightarrow> [] | Some odsc \<Rightarrow> [sint (od_version odsc)]))
       [0..<odsc_size de])"

section \<open>The table invariant\<close>

definition de_inv :: "dht_entry \<Rightarrow> bool" where
  "de_inv de \<longleftrightarrow> 0 < odsc_size de \<and> length (odsc_hash de) = odsc_size de \<and> length (dht_subs de) = odsc_size de \<and>
     distinct (concat (odsc_hash de)) \<and> odsc_num de = int (length (concat (odsc_hash de))) \<and>
     (\<forall>i<odsc_size de. \<forall>a\<in>set (odsc_hash de ! i). \<exists>odsc. odsc_mem de a = Some odsc \<and> de_bin de odsc = i)"

lemma de_bin_less: "de_inv de \<Longrightarrow> de_bin de odsc < odsc_size de"
  by (simp add: de_inv_def de_bin_def)

lemma de_bin_cong: "odsc_size de' = odsc_size de \<Longrightarrow> de_bin de' = de_bin de"
  by (simp add: de_bin_def fun_eq_iff)

lemma node_mem:
  assumes "de_inv de" "a \<in> set (odsc_hash de ! i)" "i < odsc_size de"
  obtains odsc where "odsc_mem de a = Some odsc" "de_bin de odsc = i"
  using assms by (auto simp: de_inv_def)

lemma find_match_bin: "dht_find_match de odsc = Some a \<Longrightarrow> a \<in> set (odsc_hash de ! de_bin de odsc)"
  by (auto simp: dht_find_match_def find_Some_iff split: if_splits)

lemma find_exact_bin: "dht_find_exact de odsc = Some a \<Longrightarrow> a \<in> set (odsc_hash de ! de_bin de odsc)"
  by (auto simp: dht_find_exact_def find_Some_iff)

lemma de_inv_upd_mem:
  assumes inv: "de_inv de" and a: "a \<in> set (odsc_hash de ! de_bin de odsc)" "de_bin de odsc' = de_bin de odsc"
  shows "de_inv (de\<lparr>odsc_mem := (odsc_mem de)(a \<mapsto> odsc')\<rparr>)"
proof -
  have uniq: "i = de_bin de odsc" if i: "i < odsc_size de" "a \<in> set (odsc_hash de ! i)" for i
  proof -
    obtain o1 where o1: "odsc_mem de a = Some o1" "de_bin de o1 = i" by (rule node_mem [OF inv i(2,1)])
    obtain o2 where o2: "odsc_mem de a = Some o2" "de_bin de o2 = de_bin de odsc"
      by (rule node_mem [OF inv a(1) de_bin_less [OF inv]])
    from o1 o2 show ?thesis by simp
  qed
  have bin: "de_bin (de\<lparr>odsc_mem := m\<rparr>) = de_bin de" for m by (rule de_bin_cong) simp
  have "\<exists>od. ((odsc_mem de)(a \<mapsto> odsc')) x = Some od \<and> de_bin de od = i"
    if "i < odsc_size de" "x \<in> set (odsc_hash de ! i)" for i x
    using that uniq [of i] a(2) by (cases "x = a") (auto elim: node_mem [OF inv])
  then show ?thesis using inv by (simp add: de_inv_def bin)
qed

lemma concat_push_length:
  "i < length xss \<Longrightarrow> length (concat (xss[i := x # xss ! i])) = Suc (length (concat xss))"
proof (induction xss arbitrary: i)
  case (Cons ys xss)
  then show ?case by (cases i) auto
qed simp

lemma concat_push_distinct:
  "i < length xss \<Longrightarrow> x \<notin> set (concat xss) \<Longrightarrow> distinct (concat xss) \<Longrightarrow> distinct (concat (xss[i := x # xss ! i]))"
proof (induction xss arbitrary: i)
  case (Cons ys xss)
  show ?case
  proof (cases i)
    case (Suc j)
    then have "set (concat (xss[j := x # xss ! j])) = insert x (set (concat xss))"
      using Cons.prems by (intro set_concat_push) simp
    with Suc Cons show ?thesis by auto
  qed (use Cons in auto)
qed simp

lemma de_inv_put_node:
  assumes inv: "de_inv de" and fresh: "fresh \<notin> set (concat (odsc_hash de))"
  shows "de_inv (snd (dht_put_node fresh de odsc))"
proof (cases "dht_find_match de odsc")
  case (Some a)
  then show ?thesis
    using de_inv_upd_mem [OF inv find_match_bin [OF Some]] by (simp add: dht_put_node_def)
next
  case None
  let ?n = "de_bin de odsc"
  have n: "?n < length (odsc_hash de)" using de_bin_less [OF inv] inv by (simp add: de_inv_def)
  let ?de = "de\<lparr>odsc_hash := (odsc_hash de)[?n := fresh # odsc_hash de ! ?n], odsc_num := odsc_num de + 1,
    odsc_mem := (odsc_mem de)(fresh \<mapsto> odsc)\<rparr>"
  have bin: "de_bin ?de = de_bin de" by (rule de_bin_cong) simp
  have "\<exists>od. odsc_mem ?de x = Some od \<and> de_bin de od = i"
    if "i < odsc_size de" "x \<in> set (odsc_hash ?de ! i)" for i x
  proof (cases "x = fresh")
    case True
    have "fresh \<notin> set (odsc_hash de ! i)" using fresh that(1) inv by (auto simp: de_inv_def)
    then have "i = ?n" using that(2) True by (cases "i = ?n") simp_all
    then show ?thesis using True by simp
  next
    case False
    then have "x \<in> set (odsc_hash de ! i)" using that(2) n by (cases "i = ?n") simp_all
    then show ?thesis using False node_mem [OF inv _ that(1)] by auto
  qed
  then have "de_inv ?de"
    using inv concat_push_length [OF n] concat_push_distinct [OF n fresh] unfolding de_inv_def bin by simp
  then show ?thesis using None by (simp add: dht_put_node_def Let_def)
qed

section \<open>What a step does to the waiting threads\<close>

definition sub_match :: "obj_descriptor \<Rightarrow> dht_sub \<Rightarrow> bool" where
  "sub_match odsc sub \<longleftrightarrow> bbox_does_intersect (od_bb odsc) (od_bb (ds_odsc sub)) \<and>
     od_name odsc = od_name (ds_odsc sub) \<and> od_version odsc = od_version (ds_odsc sub)"

definition sub_recv :: "nat \<Rightarrow> u64 \<Rightarrow> dht_sub \<Rightarrow> dht_sub" where
  "sub_recv a n sub = sub\<lparr>ds_recv := a # ds_recv sub, ds_pub_count := ds_pub_count sub + 1,
     ds_remaining := ds_remaining sub - n\<rparr>"

text \<open>
  The effect of the loop over the threads \<open>ts\<close>, where \<open>N t\<close> is the number of elements thread \<open>t\<close>
  receives: the frames of the matching threads, and the threads still in the bin \<open>b\<close>.
\<close>

definition notified :: "obj_descriptor \<Rightarrow> nat \<Rightarrow> (nat \<Rightarrow> u64) \<Rightarrow> nat list \<Rightarrow> (nat \<rightharpoonup> dht_sub) \<Rightarrow> nat \<rightharpoonup> dht_sub" where
  "notified odsc a N ts m =
     (\<lambda>t. map_option (\<lambda>sub. if t \<in> set ts \<and> sub_match odsc sub then sub_recv a (N t) sub else sub) (m t))"

definition sub_done :: "obj_descriptor \<Rightarrow> (nat \<Rightarrow> u64) \<Rightarrow> (nat \<rightharpoonup> dht_sub) \<Rightarrow> nat \<Rightarrow> bool" where
  "sub_done odsc N m t \<longleftrightarrow> (case m t of None \<Rightarrow> False | Some sub \<Rightarrow> sub_match odsc sub \<and> ds_remaining sub = N t)"

lemma sub_loop_spec:
  assumes "distinct ts" "distinct (dht_subs de ! de_bin de odsc)"
    and "\<And>t. t \<in> set ts \<Longrightarrow> \<exists>sub. sub_mem de t = Some sub \<and> (sub_match odsc sub \<longrightarrow>
      ssh_hash_elem_count ijunk junk ss (bbox_intersect (od_bb odsc) (od_bb (ds_odsc sub)) junk) = Some (N t))"
  shows "sub_loop ijunk junk ss odsc a ts de =
    Some (de\<lparr>sub_mem := notified odsc a N ts (sub_mem de),
             dht_subs := (dht_subs de)[de_bin de odsc :=
               filter (\<lambda>t. \<not> (t \<in> set ts \<and> sub_done odsc N (sub_mem de) t)) (dht_subs de ! de_bin de odsc)]\<rparr>)"
  using assms
proof (induction ts arbitrary: de)
  case Nil
  have "notified odsc a N [] (sub_mem de) = sub_mem de"
    by (rule ext) (simp add: notified_def option.map_ident)
  then show ?case by (cases de) simp
next
  case (Cons t ts)
  let ?b = "de_bin de odsc"
  obtain sub where sub: "sub_mem de t = Some sub" "sub_match odsc sub \<longrightarrow>
      ssh_hash_elem_count ijunk junk ss (bbox_intersect (od_bb odsc) (od_bb (ds_odsc sub)) junk) = Some (N t)"
    using Cons.prems(3) [of t] by auto
  define de1 where "de1 = de\<lparr>sub_mem := notified odsc a N [t] (sub_mem de),
     dht_subs := (dht_subs de)[?b := filter (\<lambda>x. \<not> (x \<in> set [t] \<and> sub_done odsc N (sub_mem de) x)) (dht_subs de ! ?b)]\<rparr>"
  have bin: "de_bin de1 odsc = ?b" by (simp add: de1_def de_bin_def)
  have m1: "sub_mem de1 = (if sub_match odsc sub then (sub_mem de)(t \<mapsto> sub_recv a (N t) sub) else sub_mem de)"
  proof
    fix x
    show "sub_mem de1 x = (if sub_match odsc sub then (sub_mem de)(t \<mapsto> sub_recv a (N t) sub) else sub_mem de) x"
      using sub(1) by (cases "x = t") (auto simp: de1_def notified_def option.map_ident)
  qed
  have s1: "dht_subs de1 ! ?b = (if sub_match odsc sub \<and> ds_remaining sub = N t then remove1 t (dht_subs de ! ?b) else dht_subs de ! ?b)"
    if "?b < length (dht_subs de)"
    using that sub(1) Cons.prems(2)
    by (auto simp: de1_def sub_done_def distinct_remove1_removeAll removeAll_filter_not_eq intro: filter_cong)
  have "sub_step ijunk junk ss odsc a t de = Some de1"
  proof (cases "?b < length (dht_subs de)")
    case True
    then show ?thesis
      using sub m1 s1 by (auto simp: sub_step_def sub_match_def Let_def de1_def sub_recv_def de_bin_def)
  next
    case False
    then show ?thesis
      using sub m1 by (auto simp: sub_step_def sub_match_def Let_def de1_def sub_recv_def de_bin_def list_update_beyond)
  qed
  moreover have "sub_loop ijunk junk ss odsc a ts de1 =
    Some (de1\<lparr>sub_mem := notified odsc a N ts (sub_mem de1),
             dht_subs := (dht_subs de1)[de_bin de1 odsc :=
               filter (\<lambda>t. \<not> (t \<in> set ts \<and> sub_done odsc N (sub_mem de1) t)) (dht_subs de1 ! de_bin de1 odsc)]\<rparr>)"
  proof (rule Cons.IH)
    show "distinct ts" using Cons.prems(1) by simp
    show "distinct (dht_subs de1 ! de_bin de1 odsc)"
      unfolding bin using Cons.prems(2)
      by (cases "?b < length (dht_subs de)") (simp_all add: s1 de1_def list_update_beyond)
    fix x assume "x \<in> set ts"
    moreover from this have "sub_mem de1 x = sub_mem de x" using Cons.prems(1) m1 by auto
    ultimately show "\<exists>sub. sub_mem de1 x = Some sub \<and> (sub_match odsc sub \<longrightarrow>
      ssh_hash_elem_count ijunk junk ss (bbox_intersect (od_bb odsc) (od_bb (ds_odsc sub)) junk) = Some (N x))"
      using Cons.prems(3) [of x] by simp
  qed
  moreover have "notified odsc a N ts (sub_mem de1) = notified odsc a N (t # ts) (sub_mem de)"
    using Cons.prems(1) by (auto simp: de1_def notified_def fun_eq_iff option.map_comp comp_def intro!: option.map_cong)
  moreover have "(dht_subs de1)[?b := filter (\<lambda>x. \<not> (x \<in> set ts \<and> sub_done odsc N (sub_mem de1) x)) (dht_subs de1 ! ?b)] =
      (dht_subs de)[?b := filter (\<lambda>x. \<not> (x \<in> set (t # ts) \<and> sub_done odsc N (sub_mem de) x)) (dht_subs de ! ?b)]"
  proof (cases "?b < length (dht_subs de)")
    case True
    have "sub_done odsc N (sub_mem de1) x = sub_done odsc N (sub_mem de) x" if "x \<in> set ts" for x
      using that Cons.prems(1) m1 by (auto simp: sub_done_def)
    then show ?thesis using True by (auto simp: de1_def filter_filter intro!: arg_cong [where f = "list_update _ _"] filter_cong)
  next
    case False
    then show ?thesis by (simp add: de1_def list_update_beyond)
  qed
  moreover have "de1\<lparr>sub_mem := X, dht_subs := Y\<rparr> = de\<lparr>sub_mem := X, dht_subs := Y\<rparr>" for X Y
    by (simp add: de1_def)
  ultimately show ?case by (simp only: sub_loop.simps bin Option.bind.simps)
qed

section \<open>Covering a query\<close>

definition box_ok :: "int \<Rightarrow> bbox \<Rightarrow> bool" where
  "box_ok d b \<longleftrightarrow> wf_bbox b \<and> nonempty_bbox b \<and> num_dims b = d \<and> vol b < 9223372036854775808"

definition same_var :: "obj_descriptor \<Rightarrow> obj_descriptor \<Rightarrow> bool" where
  "same_var q odsc \<longleftrightarrow> od_name odsc = od_name q \<and> od_version odsc = od_version q"

text \<open>The points the node at \<open>a\<close> contributes to a query, and those a list of nodes and an entry cover.\<close>

definition piece :: "dht_entry \<Rightarrow> obj_descriptor \<Rightarrow> nat \<Rightarrow> u64 list set" where
  "piece de q a = (case odsc_mem de a of None \<Rightarrow> {} | Some odsc \<Rightarrow> if same_var q odsc then points (od_bb odsc) else {})"

definition cov :: "dht_entry \<Rightarrow> obj_descriptor \<Rightarrow> u64 list set" where
  "cov de q = (\<Union>a\<in>set (odsc_hash de ! de_bin de q). piece de q a)"

definition miss :: "u64 list set \<Rightarrow> dht_entry \<Rightarrow> obj_descriptor \<Rightarrow> nat" where
  "miss own de q = card (points (od_bb q) \<inter> own - cov de q)"

definition hits :: "dht_entry \<Rightarrow> obj_descriptor \<Rightarrow> nat list" where
  "hits de q = filter (node_sat de (\<lambda>odsc. obj_desc_equals_intersect odsc q)) (odsc_hash de ! de_bin de q)"

definition tiled :: "int \<Rightarrow> dht_entry \<Rightarrow> obj_descriptor \<Rightarrow> nat list \<Rightarrow> bool" where
  "tiled d de q as \<longleftrightarrow> (\<forall>a\<in>set as. \<exists>odsc. odsc_mem de a = Some odsc \<and> (same_var q odsc \<longrightarrow> box_ok d (od_bb odsc))) \<and>
     (\<forall>a\<in>set as. \<forall>b\<in>set as. a \<noteq> b \<longrightarrow> piece de q a \<inter> piece de q b = {})"

lemma box_ok_isect:
  assumes "box_ok d b" "box_ok d c" "wf_bbox junk" "bbox_does_intersect b c"
  shows "box_ok d (bbox_intersect b c junk)" "points (bbox_intersect b c junk) = points b \<inter> points c"
proof -
  have b: "wf_bbox b" "nonempty_bbox b" "num_dims b = d" and c: "nonempty_bbox c" "num_dims c = d"
    using assms by (simp_all add: box_ok_def)
  show p: "points (bbox_intersect b c junk) = points b \<inter> points c"
    using b c assms(3) by (intro points_intersect) simp_all
  have "points b \<inter> points c \<noteq> {}" using b c assms(4) by (intro intersect_points) simp_all
  moreover have w: "wf_bbox (bbox_intersect b c junk)" using b assms(3) by (intro wf_bbox_intersect)
  moreover have "vol (bbox_intersect b c junk) \<le> vol b"
    unfolding card_points [symmetric] p by (rule card_mono) simp_all
  ultimately show "box_ok d (bbox_intersect b c junk)"
    using assms(1) p bbox_intersect_sel(1) [OF b(1) assms(3), of c] nonempty_bbox_iff [OF w]
    by (simp add: box_ok_def)
qed

lemma card_split:
  assumes "finite Q" "A \<inter> C = {}"
  shows "card (Q \<inter> (A \<union> C)) = card (Q \<inter> A) + card (Q \<inter> C)"
  using assms by (simp add: Int_Un_distrib card_Un_disjoint Int_assoc disjoint_iff)

text \<open>
  What the entry relies on: a count of the elements of a box that belong to this server. Hash versions
  0 and 2 provide it.
\<close>

locale counted_space =
  fixes ss :: sspace and ijunk :: intv and junk :: bbox and own :: "u64 list set" and d :: int
  assumes count: "box_ok d b \<Longrightarrow> ssh_hash_elem_count ijunk junk ss b = Some (of_nat (card (points b \<inter> own)))"
    and wf_junk: "wf_bbox junk"
begin

lemma count_isect:
  assumes "box_ok d b" "box_ok d c" "bbox_does_intersect b c"
  shows "ssh_hash_elem_count ijunk junk ss (bbox_intersect b c junk) = Some (of_nat (card (points b \<inter> own \<inter> points c)))"
  using count [OF box_ok_isect(1) [OF assms(1,2) wf_junk assms(3)]] box_ok_isect(2) [OF assms(1,2) wf_junk assms(3)]
  by (simp add: Int_ac)

lemma find_loop_ok:
  assumes "box_ok d (od_bb q)" "tiled d de q as" "distinct as"
  shows "find_loop ijunk junk ss de q as nelem =
    Some (filter (node_sat de (\<lambda>odsc. obj_desc_equals_intersect odsc q)) as,
      nelem - of_nat (card (points (od_bb q) \<inter> own \<inter> (\<Union>a\<in>set as. piece de q a))))"
  using assms
proof (induction as arbitrary: nelem)
  case Nil
  then show ?case by simp
next
  case (Cons a as)
  let ?Q = "points (od_bb q) \<inter> own" and ?C = "\<Union>a\<in>set as. piece de q a"
  obtain odsc where o: "odsc_mem de a = Some odsc" "same_var q odsc \<longrightarrow> box_ok d (od_bb odsc)"
    using Cons.prems(2) by (auto simp: tiled_def)
  have ns: "node_sat de P a \<longleftrightarrow> P odsc" for P by (simp add: node_sat_def o(1))
  have dis: "piece de q a \<inter> ?C = {}"
    using Cons.prems(2,3) by (fastforce simp: tiled_def)
  have split: "card (?Q \<inter> (piece de q a \<union> ?C)) = card (?Q \<inter> piece de q a) + card (?Q \<inter> ?C)"
    using dis by (intro card_split) simp
  have IH: "find_loop ijunk junk ss de q as m = Some (filter (node_sat de (\<lambda>odsc. obj_desc_equals_intersect odsc q)) as,
      m - of_nat (card (?Q \<inter> ?C)))" for m
    using Cons by (simp add: tiled_def)
  show ?case
  proof (cases "obj_desc_equals_intersect odsc q")
    case True
    then have sv: "same_var q odsc" and int: "bbox_does_intersect (od_bb odsc) (od_bb q)"
      by (auto simp: obj_desc_equals_intersect_def same_var_def)
    with o have ok: "box_ok d (od_bb odsc)" by simp
    have "bbox_does_intersect (od_bb q) (od_bb odsc)"
      using int ok Cons.prems(1) by (subst does_intersect_sym) (simp_all add: box_ok_def)
    note c = count_isect [OF Cons.prems(1) ok this]
    have "piece de q a = points (od_bb odsc)" using o(1) sv by (simp add: piece_def)
    then show ?thesis using o(1) True c IH split by (simp add: ns)
  next
    case False
    have "?Q \<inter> piece de q a = {}"
    proof (cases "same_var q odsc")
      case True
      then have "\<not> bbox_does_intersect (od_bb odsc) (od_bb q)"
        using False by (auto simp: obj_desc_equals_intersect_def same_var_def)
      moreover have "num_dims (od_bb odsc) = num_dims (od_bb q)"
        using o(2) True Cons.prems(1) by (simp add: box_ok_def)
      ultimately have "points (od_bb odsc) \<inter> points (od_bb q) = {}" by (intro not_intersect_points)
      then show ?thesis using o(1) True by (auto simp: piece_def)
    qed (simp add: piece_def o(1))
    then show ?thesis using o(1) False IH split by (simp add: ns)
  qed
qed

lemma sint_pos: "n < 9223372036854775808 \<Longrightarrow> 0 < sint (of_nat n :: u64) \<longleftrightarrow> 0 < n"
  by (simp add: sint_uint uint_nat unat_of_nat signed_take_bit_int_eq_self del: unat_eq_nat_uint)

lemma miss_bound: "box_ok d (od_bb q) \<Longrightarrow> miss own de q < 9223372036854775808"
proof -
  assume "box_ok d (od_bb q)"
  moreover have "miss own de q \<le> card (points (od_bb q))" unfolding miss_def by (rule card_mono) auto
  ultimately show ?thesis by (simp add: box_ok_def card_points)
qed

lemma find_all:
  assumes "de_inv de" "box_ok d (od_bb q)" "tiled d de q (odsc_hash de ! de_bin de q)"
  shows "dht_find_entry_all ijunk junk t ss k de q timeout =
    Some (if miss own de q = 0 then (Found (hits de q), de)
          else if timeout = -1 \<and> k = ent_self ss
          then (Blocked, dht_local_subscribe t de q (hits de q) (of_nat (miss own de q)))
          else (Found [], de))"
proof -
  let ?bin = "odsc_hash de ! de_bin de q" and ?Q = "points (od_bb q) \<inter> own"
  have "?bin \<in> set (odsc_hash de)" using assms(1) de_bin_less [OF assms(1)] by (simp add: de_inv_def)
  then have "distinct ?bin" using assms(1) by (auto simp: de_inv_def distinct_concat_iff)
  note loop = find_loop_ok [OF assms(2,3) this, of "of_nat (card ?Q)", folded cov_def]
  have fin: "finite ?Q" by simp
  have "card (?Q \<inter> cov de q) \<le> card ?Q" by (rule card_mono [OF fin]) auto
  moreover have "miss own de q = card ?Q - card (?Q \<inter> cov de q)"
    unfolding miss_def using card_Diff_subset_Int [of ?Q "cov de q"] fin by simp
  ultimately have rest: "(of_nat (card ?Q) :: u64) - of_nat (card (?Q \<inter> cov de q)) = of_nat (miss own de q)"
    by (simp add: of_nat_diff)
  show ?thesis
    using assms(1) sint_pos [OF miss_bound [OF assms(2), of de]]
    by (simp add: dht_find_entry_all_def count [OF assms(2)] loop rest hits_def de_inv_def Let_def)
qed

end

section \<open>Descriptors without overlap\<close>

lemma find_match_None:
  assumes "dht_find_match de odsc = None" "od_version odsc \<noteq> -1" "de_inv de"
    and "a \<in> set (odsc_hash de ! de_bin de odsc)" "odsc_mem de a = Some x"
  shows "\<not> obj_desc_by_name_intersect odsc x"
  using assms by (auto simp: dht_find_match_def find_None_iff node_sat_def)

section \<open>The hash versions that count\<close>

interpretation v0: counted_space "ssd_alloc_v0 bb mv" ijunk "mk_box [] []" UNIV d
  by unfold_locales (simp_all add: ssd_alloc_v0_def ssh_hash_elem_count_def ssh_hash_elem_count_v0_def
      bbox_volume_of_nat nonempty_ordered card_points box_ok_def mk_box_simps)

definition own_cells :: "sspace \<Rightarrow> u64 list set" where
  "own_cells ss = (\<Union>b\<in>set (de_bbtab (ent_tab (ss_dht ss) ! ent_self ss)). points b)"

lemma cnt_le_one_card:
  assumes "\<And>p. cnt p bs \<le> 1"
  shows "(\<Sum>b\<leftarrow>bs. card (points q \<inter> points b)) = card (points q \<inter> (\<Union>b\<in>set bs. points b))"
proof -
  have "cnt p bs = (if p \<in> (\<Union>b\<in>set bs. points b) then 1 else 0)" for p
    using assms [of p] cnt_pos_iff [of p bs] by auto
  then show ?thesis unfolding card_Int_cells by (simp add: sum.If_cases Int_def)
qed

lemma v2_counted:
  assumes "v2_space bb n ss" "ent_self ss < n" "wf_bbox junk"
  shows "counted_space ss ijunk junk (own_cells ss) (num_dims bb)"
proof
  show "wf_bbox junk" by (rule assms(3))
  fix b assume b: "box_ok (num_dims bb) b"
  let ?E = "ent_tab (ss_dht ss)" and ?cells = "de_bbtab (ent_tab (ss_dht ss) ! ent_self ss)"
  have "cnt p ?cells \<le> 1" for p
  proof -
    have "cnt p ?cells \<in> set (map (cnt p) (map de_bbtab ?E))" using assms(1,2) by (simp add: v2_space_def)
    then have "cnt p ?cells \<le> cnt p (held ?E)"
      unfolding held_def cnt_concat by (rule member_le_sum_list) simp
    also have "\<dots> \<le> 1" using assms(1) by (simp add: v2_space_def)
    finally show ?thesis .
  qed
  moreover have "list_all (cell (num_dims b)) ?cells"
    using v2_space_cells(1) [OF assms(1,2)] b by (simp add: list_all_iff box_ok_def)
  ultimately show "ssh_hash_elem_count ijunk junk ss b = Some (of_nat (card (points b \<inter> own_cells ss)))"
    using assms b
    by (simp add: ssh_hash_elem_count_def v2_space_def ssh_hash_elem_count_v2_def elem_count_v2_sum
        cnt_le_one_card own_cells_def box_ok_def)
qed

section \<open>Names without overlap\<close>

text \<open>Descriptors of one name in a bin are disjoint: no put has overwritten another.\<close>

definition table_ok :: "int \<Rightarrow> dht_entry \<Rightarrow> bool" where
  "table_ok d de \<longleftrightarrow> (\<forall>i<odsc_size de. \<forall>a\<in>set (odsc_hash de ! i). \<forall>x. odsc_mem de a = Some x \<longrightarrow> box_ok d (od_bb x) \<and>
     (\<forall>b\<in>set (odsc_hash de ! i). \<forall>y. a \<noteq> b \<longrightarrow> odsc_mem de b = Some y \<longrightarrow> od_name x = od_name y \<longrightarrow>
        points (od_bb x) \<inter> points (od_bb y) = {}))"

lemma table_ok_tiled:
  assumes "de_inv de" "table_ok d de"
  shows "tiled d de q (odsc_hash de ! de_bin de q)"
  unfolding tiled_def
proof (intro conjI ballI impI)
  note bin = de_bin_less [OF assms(1), of q]
  fix a assume a: "a \<in> set (odsc_hash de ! de_bin de q)"
  then obtain x where x: "odsc_mem de a = Some x" using node_mem [OF assms(1) a bin] by blast
  then show "\<exists>odsc. odsc_mem de a = Some odsc \<and> (same_var q odsc \<longrightarrow> box_ok d (od_bb odsc))"
    using assms(2) a bin by (auto simp: table_ok_def)
  fix b assume b: "b \<in> set (odsc_hash de ! de_bin de q)" "a \<noteq> b"
  then obtain y where y: "odsc_mem de b = Some y" using node_mem [OF assms(1) b(1) bin] by blast
  have "od_name x = od_name y \<longrightarrow> points (od_bb x) \<inter> points (od_bb y) = {}"
    using assms(2) a b x y bin unfolding table_ok_def by blast
  then show "piece de q a \<inter> piece de q b = {}" using x y by (auto simp: piece_def same_var_def)
qed

lemma table_ok_cong:
  assumes "odsc_size de' = odsc_size de" "odsc_hash de' = odsc_hash de" "odsc_mem de' = odsc_mem de"
  shows "table_ok d de' = table_ok d de"
  using assms by (simp add: table_ok_def)

lemma sub_step_frame:
  "sub_step ijunk junk ss odsc a t de = Some de' \<Longrightarrow>
    odsc_size de' = odsc_size de \<and> odsc_hash de' = odsc_hash de \<and> odsc_mem de' = odsc_mem de"
  by (auto simp: sub_step_def Let_def bind_eq_Some_conv split: if_splits)

lemma sub_loop_frame:
  "sub_loop ijunk junk ss odsc a ts de = Some de' \<Longrightarrow>
    odsc_size de' = odsc_size de \<and> odsc_hash de' = odsc_hash de \<and> odsc_mem de' = odsc_mem de"
proof (induction ts arbitrary: de)
  case (Cons t ts)
  then show ?case using sub_step_frame by (fastforce simp: bind_eq_Some_conv)
qed simp

lemma table_ok_put_node:
  assumes inv: "de_inv de" "table_ok d de" and fresh: "fresh \<notin> set (concat (odsc_hash de))"
    and new: "dht_find_match de odsc = None" "od_version odsc \<noteq> -1" "box_ok d (od_bb odsc)"
  shows "table_ok d (snd (dht_put_node fresh de odsc))"
proof -
  let ?n = "de_bin de odsc"
  define D where "D = snd (dht_put_node fresh de odsc)"
  have D: "D = de\<lparr>odsc_hash := (odsc_hash de)[?n := fresh # odsc_hash de ! ?n],
      odsc_num := odsc_num de + 1, odsc_mem := (odsc_mem de)(fresh \<mapsto> odsc)\<rparr>"
    using new by (simp add: D_def dht_put_node_def Let_def)
  have n: "?n < length (odsc_hash de)" "length (odsc_hash de) = odsc_size de"
    using de_bin_less [OF inv(1)] inv(1) by (simp_all add: de_inv_def)
  have in_bin: "a \<in> set (odsc_hash D ! i) \<longleftrightarrow> a \<in> set (odsc_hash de ! i) \<or> i = ?n \<and> a = fresh" for a i
    using n by (cases "i = ?n") (auto simp: D)
  have mem: "odsc_mem D a = (if a = fresh then Some odsc else odsc_mem de a)" for a by (simp add: D)
  have nf: "a \<noteq> fresh" if "a \<in> set (odsc_hash de ! i)" "i < odsc_size de" for a i
    using fresh that n(2) by auto
  have old: "points (od_bb odsc) \<inter> points (od_bb x) = {} \<or> od_name odsc \<noteq> od_name x"
    if "a \<in> set (odsc_hash de ! ?n)" "odsc_mem de a = Some x" for a x
  proof -
    have ok: "box_ok d (od_bb x)" using inv(2) that n by (auto simp: table_ok_def)
    have "\<not> obj_desc_by_name_intersect odsc x" by (rule find_match_None [OF new(1,2) inv(1) that])
    then show ?thesis
      using new(3) ok not_intersect_points [of "od_bb odsc" "od_bb x"]
      by (auto simp: obj_desc_by_name_intersect_def box_ok_def)
  qed
  have "table_ok d D"
    unfolding table_ok_def
  proof (intro allI ballI impI conjI)
    fix i a x assume i: "i < odsc_size D" and a: "a \<in> set (odsc_hash D ! i)" "odsc_mem D a = Some x"
    have i': "i < odsc_size de" using i by (simp add: D)
    show "box_ok d (od_bb x)"
      using a inv(2) new(3) i' unfolding in_bin mem table_ok_def by (cases "a = fresh") auto
    fix b y assume b: "b \<in> set (odsc_hash D ! i)" "a \<noteq> b" "odsc_mem D b = Some y" "od_name x = od_name y"
    note ab = a [unfolded in_bin mem] b(1,3) [unfolded in_bin mem]
    consider "a = fresh" | "b = fresh" | "a \<noteq> fresh" "b \<noteq> fresh" by blast
    then show "points (od_bb x) \<inter> points (od_bb y) = {}"
    proof cases
      case 1
      then show ?thesis using ab b(2,4) nf [OF _ i'] old [of b y] by auto
    next
      case 2
      then show ?thesis using ab b(2,4) nf [OF _ i'] old [of a x] by auto
    next
      case 3
      then show ?thesis using ab inv(2) i' b(2,4) unfolding table_ok_def by auto
    qed
  qed
  then show ?thesis by (simp add: D_def)
qed

text \<open>An owner update changes nothing the searches look at.\<close>

definition key_of :: "obj_descriptor \<Rightarrow> string \<times> u32 \<times> bbox" where
  "key_of odsc = (od_name odsc, od_version odsc, od_bb odsc)"

definition alike :: "dht_entry \<Rightarrow> dht_entry \<Rightarrow> bool" where
  "alike de de' \<longleftrightarrow> de' = de\<lparr>odsc_mem := odsc_mem de'\<rparr> \<and>
     (\<forall>a. map_option key_of (odsc_mem de' a) = map_option key_of (odsc_mem de a))"

lemma alike_update_owner:
  assumes "dht_update_owner de odsc clear_flag = (ret, de')"
  shows "alike de de'"
  using assms by (auto simp: dht_update_owner_def alike_def key_of_def [abs_def] option.map_comp comp_def split: option.splits)

lemma alike_mem:
  assumes "alike de de'" "odsc_mem de' a = Some y"
  obtains x where "odsc_mem de a = Some x" "od_name x = od_name y" "od_version x = od_version y" "od_bb x = od_bb y"
proof -
  have "map_option key_of (odsc_mem de' a) = map_option key_of (odsc_mem de a)"
    using assms(1) unfolding alike_def by blast
  with assms(2) have "map_option key_of (odsc_mem de a) = Some (key_of y)" by simp
  then show ?thesis using that by (auto simp: key_of_def)
qed

lemma alike_sel:
  assumes "alike de de'"
  shows "odsc_size de' = odsc_size de" "odsc_hash de' = odsc_hash de" "dht_subs de' = dht_subs de"
    "sub_mem de' = sub_mem de" "odsc_num de' = odsc_num de" "de_bin de' = de_bin de"
proof -
  have e: "de' = de\<lparr>odsc_mem := odsc_mem de'\<rparr>" using assms unfolding alike_def by blast
  show "odsc_size de' = odsc_size de" "odsc_hash de' = odsc_hash de" "dht_subs de' = dht_subs de"
    "sub_mem de' = sub_mem de" "odsc_num de' = odsc_num de" by (subst e, simp)+
  then show "de_bin de' = de_bin de" by (intro de_bin_cong)
qed

lemma alike_inv:
  assumes a: "alike de de'" and inv: "de_inv de"
  shows "de_inv de'"
proof -
  have "\<exists>y. odsc_mem de' x = Some y \<and> de_bin de y = i" if "i < odsc_size de" "x \<in> set (odsc_hash de ! i)" for i x
  proof -
    from inv that obtain z where z: "odsc_mem de x = Some z" "de_bin de z = i" by (auto simp: de_inv_def)
    have "map_option key_of (odsc_mem de' x) = map_option key_of (odsc_mem de x)" using a unfolding alike_def by blast
    with z have "map_option key_of (odsc_mem de' x) = Some (key_of z)" by simp
    then show ?thesis using z(2) by (auto simp: key_of_def de_bin_def)
  qed
  then show ?thesis using inv by (simp add: de_inv_def alike_sel [OF a])
qed

lemma alloc_init_counted:
  assumes "domain_ok bb" "0 < n" "n \<le> 2147483648" "Option.bind (ssd_alloc_v2 bb n mv) (\<lambda>s. ssd_init s r) = Some ss" "wf_bbox junk"
  shows "counted_space ss ijunk junk (own_cells ss) (num_dims bb)"
proof -
  obtain s0 where s0: "ssd_alloc_v2 bb n mv = Some s0" "v2_space bb n s0"
    using ssd_alloc_v2_ok [OF assms(1-3), of mv] by blast
  with assms(4) have "ss = s0\<lparr>ss_rank := int r, ent_self := r\<rparr>" "r < n"
    by (simp_all add: ssd_init_def v2_space_def split: if_splits)
  with s0(2) assms(5) show ?thesis by (intro v2_counted) (auto simp: v2_space_def)
qed

lemma miss_0_iff: "miss own de q = 0 \<longleftrightarrow> points (od_bb q) \<inter> own \<subseteq> cov de q"
  by (simp add: miss_def)

end
