(* ===== verification/Matrix.thy ===== *)
theory Matrix
  imports ObjDesc
begin

text \<open>
  Copying the common part of two data objects: \<^verbatim>\<open>struct matrix\<close>, \<^verbatim>\<open>matrix_init\<close>,
  \<^verbatim>\<open>matrix_copy\<close> and \<^verbatim>\<open>ssd_copy\<close> of \<^verbatim>\<open>src/ss_data.c\<close>. The ten nested loops of
  \<^verbatim>\<open>matrix_copy\<close>, entered by \<^verbatim>\<open>goto\<close> at the loop of the highest dimension, are the
  recursion \<open>copy_dim\<close> on the number of remaining dimensions. The theorems show that the copy
  moves exactly the elements of the intersection, and where it does not (ten dimensions).
\<close>

section \<open>Data and operations\<close>

record matrix =
  m_num_dims :: int
  dist :: "u64 list"
  size_elem :: u64
  mat_storage :: storage_type
  view_lb :: "u64 list"
  view_ub :: "u64 list"
  pdata :: "byte list"

definition matrix_init_step :: "bbox \<Rightarrow> bbox \<Rightarrow> nat \<Rightarrow> matrix \<Rightarrow> matrix" where
  "matrix_init_step bb_glb bb_loc i mat =
     mat\<lparr>dist := (dist mat)[i := bbox_dist bb_glb i],
         view_lb := (view_lb mat)[i := lb bb_loc ! i - lb bb_glb ! i],
         view_ub := (view_ub mat)[i := ub bb_loc ! i - lb bb_glb ! i]\<rparr>"

definition matrix_init ::
  "storage_type \<Rightarrow> bbox \<Rightarrow> bbox \<Rightarrow> byte list \<Rightarrow> u64 \<Rightarrow> matrix" where
  "matrix_init st bb_glb bb_loc pd se =
     (fold (matrix_init_step bb_glb bb_loc) [0..<ndims bb_glb]
        \<lparr>m_num_dims = 0, dist = replicate BBOX_MAX_NDIM 0, size_elem = 0,
         mat_storage = row_major, view_lb = replicate BBOX_MAX_NDIM 0,
         view_ub = replicate BBOX_MAX_NDIM 0, pdata = []\<rparr>)
     \<lparr>m_num_dims := num_dims bb_glb, mat_storage := st, pdata := pd, size_elem := se\<rparr>"

text \<open>
  The state the loops change: the destination buffer and \<^verbatim>\<open>num_copied_elem\<close>. A copy outside a
  buffer, and a loop that never ends because its bound is the largest 64-bit number, have no
  result.
\<close>

type_synonym copy_state = "byte list \<times> u64"

partial_function (option) copy_loop ::
  "(u64 \<Rightarrow> u64 \<Rightarrow> copy_state \<Rightarrow> copy_state option) \<Rightarrow> u64 \<Rightarrow> u64 \<Rightarrow> u64 \<Rightarrow> copy_state \<Rightarrow>
   copy_state option" where
  "copy_loop body bound av bv st =
     (if av \<le> bound
      then Option.bind (body av bv st) (\<lambda>st'. copy_loop body bound (av + 1) (bv + 1) st')
      else Some st)"

declare copy_loop.simps [code]

definition copy_row :: "matrix \<Rightarrow> matrix \<Rightarrow> u64 \<Rightarrow> u64 \<Rightarrow> copy_state \<Rightarrow> copy_state option" where
  "copy_row a b aloc1 bloc1 = (\<lambda>(A, num_copied_elem).
     let numelem = (view_ub a ! 0 - view_lb a ! 0) + 1;
         aloc = aloc1 + view_lb a ! 0;
         bloc = bloc1 + view_lb b ! 0
     in Option.bind (memcpy A (unat (aloc * size_elem a)) (pdata b) (unat (bloc * size_elem a))
                       (unat (size_elem a * numelem)))
          (\<lambda>A'. Some (A', num_copied_elem + numelem)))"

primrec copy_dim ::
  "matrix \<Rightarrow> matrix \<Rightarrow> nat \<Rightarrow> u64 \<Rightarrow> u64 \<Rightarrow> copy_state \<Rightarrow> copy_state option" where
  "copy_dim a b 0 aloc bloc = copy_row a b aloc bloc"
| "copy_dim a b (Suc k) aloc bloc =
     copy_loop (\<lambda>av bv. copy_dim a b k ((aloc + av) * dist a ! k) ((bloc + bv) * dist b ! k))
       (view_ub a ! Suc k) (view_lb a ! Suc k) (view_lb b ! Suc k)"

text \<open>
  The outermost loop, for ten dimensions, is also what a dimensionality outside 1..10 falls
  through to; there the source offset is computed from \<^verbatim>\<open>a9\<close>.
\<close>

definition copy_dim10 :: "matrix \<Rightarrow> matrix \<Rightarrow> copy_state \<Rightarrow> copy_state option" where
  "copy_dim10 a b =
     copy_loop (\<lambda>a9 b9. copy_dim a b 8 (a9 * dist a ! 8) (a9 * dist b ! 8))
       (view_ub a ! 9) (view_lb a ! 9) (view_lb b ! 9)"

definition matrix_copy :: "matrix \<Rightarrow> matrix \<Rightarrow> (matrix \<times> int) option" where
  "matrix_copy a b =
     Option.bind
       (if 1 \<le> m_num_dims a \<and> m_num_dims a \<le> 9
        then copy_dim a b (nat (m_num_dims a) - 1) 0 0 (pdata a, 0)
        else copy_dim10 a b (pdata a, 0))
       (\<lambda>(A, num_copied_elem).
          Some (a\<lparr>pdata := A\<rparr>, sint (ucast num_copied_elem :: 32 word)))"

text \<open>\<open>bbcom\<close> stands for the uninitialised local box that receives the intersection.\<close>

definition ssd_copy :: "bbox \<Rightarrow> obj_data \<Rightarrow> obj_data \<Rightarrow> (obj_data \<times> int) option" where
  "ssd_copy bbcom to_obj from_obj =
     (let to_obj = to_obj\<lparr>obj_desc := (obj_desc to_obj)
            \<lparr>od_tag := od_tag (obj_desc from_obj), od_type := od_type (obj_desc from_obj)\<rparr>\<rparr>;
          bbcom = bbox_intersect (od_bb (obj_desc to_obj)) (od_bb (obj_desc from_obj)) bbcom
      in Option.bind (data from_obj) (\<lambda>from_data.
         Option.bind (data to_obj) (\<lambda>to_data.
         Option.bind
           (matrix_copy
             (matrix_init (od_st (obj_desc to_obj)) (od_bb (obj_desc to_obj)) bbcom to_data
                (od_size (obj_desc to_obj)))
             (matrix_init (od_st (obj_desc from_obj)) (od_bb (obj_desc from_obj)) bbcom from_data
                (od_size (obj_desc from_obj))))
           (\<lambda>(to_mat, copied_elems). Some (to_obj\<lparr>data := Some (pdata to_mat)\<rparr>, copied_elems)))))"

section \<open>Elements of a buffer\<close>

definition elem :: "nat \<Rightarrow> byte list \<Rightarrow> nat \<Rightarrow> byte list" where
  "elem se A e = take se (drop (se * e) A)"

text \<open>The position of a point in a box: row-major, dimension 0 varying fastest.\<close>

definition stride :: "(nat \<Rightarrow> nat) \<Rightarrow> nat \<Rightarrow> nat" where
  "stride d i = (\<Prod>j<i. d j)"

definition extent :: "bbox \<Rightarrow> nat \<Rightarrow> nat" where
  "extent b i = Suc (unat (ub b ! i)) - unat (lb b ! i)"

definition lin :: "bbox \<Rightarrow> u64 list \<Rightarrow> nat" where
  "lin b p = (\<Sum>i<ndims b. (unat (p ! i) - unat (lb b ! i)) * stride (extent b) i)"

fun ecopy :: "nat \<Rightarrow> byte list \<Rightarrow> nat \<times> nat \<Rightarrow> byte list \<Rightarrow> byte list" where
  "ecopy se B (d, s) A = take (se * d) A @ elem se B s @ drop (se * Suc d) A"

lemma length_elem: "se * Suc s \<le> length B \<Longrightarrow> length (elem se B s) = se"
  by (simp add: elem_def)

lemma length_ecopy:
  "se * Suc d \<le> length A \<Longrightarrow> se * Suc s \<le> length B \<Longrightarrow> length (ecopy se B (d, s) A) = length A"
  by (simp add: length_elem)

lemma elem_append_left:
  assumes "se * Suc e \<le> length A"
  shows "elem se (A @ B) e = elem se A e"
  using assms by (simp add: elem_def)

lemma elem_append_right:
  assumes "length A = se * n" "n \<le> e"
  shows "elem se (A @ B) e = elem se B (e - n)"
  using assms by (simp add: elem_def diff_mult_distrib2)

lemma elem_drop: "elem se (drop (se * n) A) e = elem se A (n + e)"
  by (simp add: elem_def algebra_simps)

lemma elem_take: "e < n \<Longrightarrow> elem se (take (se * n) A) e = elem se A e"
proof -
  assume "e < n"
  then have "se * Suc e \<le> se * n" by (intro mult_le_mono2) simp
  then have "min se (se * n - se * e) = se" by simp
  then show ?thesis by (simp add: elem_def drop_take min_def)
qed

lemma elem_ecopy:
  assumes "se * Suc d \<le> length A" "se * Suc s \<le> length B"
  shows "elem se (ecopy se B (d, s) A) e = (if e = d then elem se B s else elem se A e)"
proof -
  have ld: "length (take (se * d) A) = se * d" using assms(1) by simp
  have ls: "length (elem se B s) = se * 1" using assms(2) by (simp add: length_elem)
  consider "e < d" | "e = d" | "d < e" by linarith
  then show ?thesis
  proof cases
    case 1
    then have "se * Suc e \<le> se * d" by (intro mult_le_mono2) simp
    then have "elem se (ecopy se B (d, s) A) e = elem se (take (se * d) A) e"
      using ld by (simp add: elem_append_left)
    with 1 show ?thesis by (simp add: elem_take)
  next
    case 2
    then show ?thesis
      using ls by (simp add: elem_append_right [OF ld]) (simp add: elem_def)
  next
    case 3
    have "elem se (ecopy se B (d, s) A) e = elem se (drop (se * Suc d) A) (e - d - 1)"
      using 3 by (simp add: elem_append_right [OF ld] elem_append_right [OF ls]
          less_imp_le)
    also have "\<dots> = elem se A e" using 3 by (simp only: elem_drop) simp
    finally show ?thesis using 3 by simp
  qed
qed

lemma length_fold_ecopy:
  assumes "\<And>d s. (d, s) \<in> set ps \<Longrightarrow> se * Suc d \<le> length A \<and> se * Suc s \<le> length B"
  shows "length (fold (ecopy se B) ps A) = length A"
  using assms
proof (induction ps arbitrary: A)
  case (Cons x ps)
  obtain d0 s0 where x: "x = (d0, s0)" by fastforce
  have len: "length (ecopy se B (d0, s0) A) = length A"
    using Cons.prems x by (intro length_ecopy) auto
  have "length (fold (ecopy se B) ps (ecopy se B (d0, s0) A)) = length (ecopy se B (d0, s0) A)"
    by (rule Cons.IH) (use Cons.prems x len in auto)
  with len x show ?case by (simp del: ecopy.simps)
qed simp

lemma elem_fold_ecopy:
  assumes "\<And>d s. (d, s) \<in> set ps \<Longrightarrow> se * Suc d \<le> length A \<and> se * Suc s \<le> length B"
    and "distinct (map fst ps)"
  shows "(d, s) \<in> set ps \<Longrightarrow> elem se (fold (ecopy se B) ps A) d = elem se B s"
    and "e \<notin> fst ` set ps \<Longrightarrow> elem se (fold (ecopy se B) ps A) e = elem se A e"
proof -
  have "((d, s) \<in> set ps \<longrightarrow> elem se (fold (ecopy se B) ps A) d = elem se B s) \<and>
        (e \<notin> fst ` set ps \<longrightarrow> elem se (fold (ecopy se B) ps A) e = elem se A e)" for d s e
    using assms
  proof (induction ps arbitrary: A d s e)
    case (Cons x ps)
    obtain d0 s0 where x: "x = (d0, s0)" by fastforce
    let ?A = "ecopy se B (d0, s0) A"
    have b0: "se * Suc d0 \<le> length A" "se * Suc s0 \<le> length B" using Cons.prems(1) x by auto
    note ih = Cons.IH [of ?A, unfolded length_ecopy [OF b0], OF Cons.prems(1)]
    have ih1: "(d, s) \<in> set ps \<Longrightarrow> elem se (fold (ecopy se B) ps ?A) d = elem se B s" for d s
      using ih Cons.prems(2) by auto
    have ih2: "e \<notin> fst ` set ps \<Longrightarrow>
        elem se (fold (ecopy se B) ps ?A) e = (if e = d0 then elem se B s0 else elem se A e)" for e
      using ih Cons.prems(2) elem_ecopy [OF b0] by auto
    show ?case
      using ih1 ih2 Cons.prems(2) x by (auto simp del: ecopy.simps)
  qed simp
  then show "(d, s) \<in> set ps \<Longrightarrow> elem se (fold (ecopy se B) ps A) d = elem se B s"
    and "e \<notin> fst ` set ps \<Longrightarrow> elem se (fold (ecopy se B) ps A) e = elem se A e" by auto
qed

text \<open>A block copy is the sequence of its element copies.\<close>

lemma memcpy_elements:
  assumes "se * (d + n) \<le> length A" "se * (s + n) \<le> length B"
  shows "memcpy A (se * d) B (se * s) (se * n) =
     Some (fold (ecopy se B) (map (\<lambda>j. (d + j, s + j)) [0..<n]) A)"
proof -
  have "take (se * d) A @ take (se * n) (drop (se * s) B) @ drop (se * d + se * n) A =
      fold (ecopy se B) (map (\<lambda>j. (d + j, s + j)) [0..<n]) A"
    using assms
  proof (induction n)
    case (Suc n)
    let ?L = "take (se * d) A" and ?M = "take (se * n) (drop (se * s) B)"
    have le: "se * (d + n) \<le> length A" "se * (s + n) \<le> length B"
      using Suc.prems by (simp_all add: algebra_simps)
    have lens: "length ?L = se * d" "length ?M = se * n"
      using le by (simp_all add: algebra_simps)
    have m: "take (se * Suc n) (drop (se * s) B) = ?M @ elem se B (s + n)"
      by (simp only: elem_def mult_Suc_right add_mult_distrib2 add.commute [of se] take_add
          drop_drop add.commute [of "se * s"])
    have "fold (ecopy se B) (map (\<lambda>j. (d + j, s + j)) [0..<Suc n]) A =
        ecopy se B (d + n, s + n) (?L @ ?M @ drop (se * d + se * n) A)"
      using Suc.IH [OF le] by simp
    also have "\<dots> = ?L @ ?M @ elem se B (s + n) @ drop (se * d + se * Suc n) A"
      using lens by (simp add: algebra_simps)
    finally show ?case by (simp only: m append_assoc)
  qed simp
  then show ?thesis
    using assms by (simp add: memcpy_def algebra_simps)
qed

section \<open>The nested loops as one sequence of element copies\<close>

fun idx :: "(nat \<Rightarrow> nat) \<Rightarrow> nat \<Rightarrow> nat list list" where
  "idx n 0 = map (\<lambda>j. [j]) [0..<n 0]"
| "idx n (Suc k) = concat (map (\<lambda>j. map (\<lambda>q. q @ [j]) (idx n k)) [0..<n (Suc k)])"

fun off :: "(nat \<Rightarrow> nat) \<Rightarrow> (nat \<Rightarrow> nat) \<Rightarrow> nat \<Rightarrow> nat \<Rightarrow> nat list \<Rightarrow> nat" where
  "off d l 0 x q = x + (l 0 + q ! 0)"
| "off d l (Suc k) x q = off d l k ((x + (l (Suc k) + q ! Suc k)) * d k) q"

definition row_len :: "matrix \<Rightarrow> nat \<Rightarrow> nat" where
  "row_len a i = Suc (unat (view_ub a ! i)) - unat (view_lb a ! i)"

definition moff :: "matrix \<Rightarrow> nat \<Rightarrow> nat \<Rightarrow> nat list \<Rightarrow> nat" where
  "moff a = off (\<lambda>i. unat (dist a ! i)) (\<lambda>i. unat (view_lb a ! i))"

definition pairs :: "matrix \<Rightarrow> matrix \<Rightarrow> nat \<Rightarrow> nat \<Rightarrow> nat \<Rightarrow> (nat \<times> nat) list" where
  "pairs a b k x y = map (\<lambda>q. (moff a k x q, moff b k y q)) (idx (row_len a) k)"

lemma length_idx: "q \<in> set (idx n k) \<Longrightarrow> length q = Suc k"
  by (induction k arbitrary: q) auto

lemma set_idx: "set (idx n k) = {q. length q = Suc k \<and> (\<forall>i<Suc k. q ! i < n i)}"
proof (induction k)
  case 0
  then show ?case by (auto simp: length_Suc_conv image_iff)
next
  case (Suc k)
  have "q \<in> set (idx n (Suc k)) \<longleftrightarrow> length q = Suc (Suc k) \<and> (\<forall>i<Suc (Suc k). q ! i < n i)" for q
    by (cases q rule: rev_cases) (auto simp: Suc nth_append less_Suc_eq image_iff)
  then show ?case by blast
qed

lemma distinct_idx: "distinct (idx n k)"
proof (induction k)
  case 0
  then show ?case by (simp add: distinct_map inj_on_def)
next
  case (Suc k)
  have "distinct (map (\<lambda>q. q @ [j]) (idx n k))" for j :: nat
    using Suc by (simp add: distinct_map inj_on_def)
  moreover have "distinct (concat (map (\<lambda>j. map (\<lambda>q. q @ [j]) (idx n k)) [0..<m]))" for m
    using calculation by (induction m) auto
  ultimately show ?case by simp
qed

lemma off_append: "length q = Suc k \<Longrightarrow> off d l k x (q @ r) = off d l k x q"
proof -
  have "m \<le> k \<Longrightarrow> length q = Suc k \<Longrightarrow> off d l m x (q @ r) = off d l m x q" for m
    by (induction m arbitrary: x) (auto simp: nth_append)
  then show "length q = Suc k \<Longrightarrow> off d l k x (q @ r) = off d l k x q" by simp
qed

lemma pairs_0:
  "pairs a b 0 x y = map (\<lambda>j. (x + unat (view_lb a ! 0) + j, y + unat (view_lb b ! 0) + j))
     [0..<row_len a 0]"
  by (simp add: pairs_def moff_def comp_def add.assoc)

lemma pairs_Suc:
  "pairs a b (Suc k) x y =
     concat (map (\<lambda>j. pairs a b k ((x + (unat (view_lb a ! Suc k) + j)) * unat (dist a ! k))
                                 ((y + (unat (view_lb b ! Suc k) + j)) * unat (dist b ! k)))
       [0..<row_len a (Suc k)])"
proof -
  have "moff m (Suc k) x (q @ [j]) = moff m k ((x + (unat (view_lb m ! Suc k) + j)) * unat (dist m ! k)) q"
    if "q \<in> set (idx (row_len a) k)" for m x q j
    using length_idx [OF that] by (simp add: moff_def off_append nth_append)
  then show ?thesis
    by (simp add: pairs_def map_concat comp_def cong: map_cong)
qed

lemma copy_loop_fold:
  assumes "\<And>j st. j < n \<Longrightarrow> I st \<Longrightarrow>
      body (of_nat (l + j)) (of_nat (m + j)) st = Some (F j st) \<and> I (F j st)"
    and "n = Suc (unat bound) - l" "l \<le> unat bound" "unat bound < 18446744073709551615" "I st"
  shows "copy_loop body bound (of_nat l) (of_nat m) st = Some (fold F [0..<n] st)"
proof -
  have "copy_loop body bound (of_nat (l + j)) (of_nat (m + j)) st = Some (fold F [j..<n] st)"
    if "I st" "j \<le> n" for j st
    using that
  proof (induction "n - j" arbitrary: j st)
    case 0
    then have "unat bound < l + j" "l + j < 18446744073709551616" using assms(2-4) by auto
    then have "\<not> of_nat (l + j) \<le> bound" by (simp add: word_le_nat_alt unat_of_nat del: of_nat_add)
    with 0 show ?case by (subst copy_loop.simps) simp
  next
    case (Suc i)
    then have "l + j \<le> unat bound" "l + j < 18446744073709551616" using assms(2-4) by auto
    then have le: "of_nat (l + j) \<le> bound" by (simp add: word_le_nat_alt unat_of_nat del: of_nat_add)
    have j: "j < n" using Suc by simp
    have "copy_loop body bound (of_nat (l + Suc j)) (of_nat (m + Suc j)) (F j st) =
        Some (fold F [Suc j..<n] (F j st))"
      by (rule Suc(1)) (use Suc j assms(1) in auto)
    then show ?case
      using le assms(1) [OF j Suc.prems(1)] j
      by (subst copy_loop.simps) (simp add: upt_conv_Cons add.commute add.left_commute)
  qed
  from this [of st 0] show ?thesis using assms(2-) by simp
qed

lemma fold_copies:
  "fold (\<lambda>j (A, c). (fold (ecopy se B) (ps j) A, c + of_nat (length (ps j)))) js (A, c) =
     (fold (ecopy se B) (concat (map ps js)) A, c + of_nat (length (concat (map ps js))) :: u64)"
  by (induction js arbitrary: A c) (simp_all add: algebra_simps)

definition view_ok :: "matrix \<Rightarrow> nat \<Rightarrow> bool" where
  "view_ok a k \<longleftrightarrow> (\<forall>i<Suc k. view_lb a ! i \<le> view_ub a ! i \<and>
     unat (view_ub a ! i) < 18446744073709551615)"

definition pairs_ok :: "nat \<Rightarrow> nat \<Rightarrow> nat \<Rightarrow> (nat \<times> nat) list \<Rightarrow> bool" where
  "pairs_ok se na nb ps \<longleftrightarrow> (\<forall>(d, s)\<in>set ps. se * Suc d \<le> na \<and> se * Suc s \<le> nb)"

lemma copy_row_pairs:
  assumes "view_ok a 0" "size_elem a = of_nat se" "pdata b = B"
    and "pairs_ok se (length A) (length B) (pairs a b 0 x y)"
    and "length A < 18446744073709551616" "length B < 18446744073709551616"
  shows "copy_row a b (of_nat x) (of_nat y) (A, c) =
     Some (fold (ecopy se B) (pairs a b 0 x y) A, c + of_nat (length (pairs a b 0 x y)))"
proof -
  let ?n = "row_len a 0" and ?d = "x + unat (view_lb a ! 0)" and ?s = "y + unat (view_lb b ! 0)"
  have v: "view_lb a ! 0 \<le> view_ub a ! 0" "unat (view_ub a ! 0) < 18446744073709551615"
    using assms(1) by (auto simp: view_ok_def)
  then have n: "0 < ?n" by (simp add: row_len_def word_le_nat_alt)
  then have "(?d + (?n - 1), ?s + (?n - 1)) \<in> set (pairs a b 0 x y)"
    by (simp add: pairs_0 image_iff) (rule bexI [of _ "?n - 1"], auto)
  with assms(4) have "se * Suc (?d + (?n - 1)) \<le> length A" "se * Suc (?s + (?n - 1)) \<le> length B"
    unfolding pairs_ok_def by blast+
  moreover have "Suc (?d + (?n - 1)) = ?d + ?n" "Suc (?s + (?n - 1)) = ?s + ?n" using n by simp_all
  ultimately have le: "se * (?d + ?n) \<le> length A" "se * (?s + ?n) \<le> length B" by simp_all
  have numelem: "view_ub a ! 0 - view_lb a ! 0 + 1 = of_nat ?n"
    using v by (simp add: row_len_def word_le_nat_alt of_nat_diff)
  have "(of_nat x + view_lb a ! 0) * size_elem a = of_nat (se * ?d)"
    and "(of_nat y + view_lb b ! 0) * size_elem a = of_nat (se * ?s)"
    and "size_elem a * of_nat ?n = of_nat (se * ?n)"
    using assms(2) by (simp_all add: algebra_simps)
  moreover have "se * ?d < 18446744073709551616" "se * ?s < 18446744073709551616"
      "se * ?n < 18446744073709551616"
    using le assms(5,6) by (simp_all add: algebra_simps)
  ultimately have "unat ((of_nat x + view_lb a ! 0) * size_elem a) = se * ?d"
    and "unat ((of_nat y + view_lb b ! 0) * size_elem a) = se * ?s"
    and "unat (size_elem a * of_nat ?n) = se * ?n"
    by (simp_all only: unat_of_nat) simp_all
  then show ?thesis
    using memcpy_elements [OF le] assms(3)
    by (simp add: copy_row_def Let_def numelem pairs_0)
qed

lemma copy_dim_pairs:
  assumes "view_ok a k" "size_elem a = of_nat se" "pdata b = B"
    and "pairs_ok se (length A) (length B) (pairs a b k x y)"
    and "length A < 18446744073709551616" "length B < 18446744073709551616"
  shows "copy_dim a b k (of_nat x) (of_nat y) (A, c) =
     Some (fold (ecopy se B) (pairs a b k x y) A, c + of_nat (length (pairs a b k x y)))"
  using assms
proof (induction k arbitrary: x y A c)
  case 0
  then show ?case by (simp add: copy_row_pairs)
next
  case (Suc k)
  let ?x = "\<lambda>j. (x + (unat (view_lb a ! Suc k) + j)) * unat (dist a ! k)"
  let ?y = "\<lambda>j. (y + (unat (view_lb b ! Suc k) + j)) * unat (dist b ! k)"
  let ?F = "\<lambda>j (A, c :: u64). (fold (ecopy se B) (pairs a b k (?x j) (?y j)) A,
                      c + of_nat (length (pairs a b k (?x j) (?y j))))"
  have v: "view_lb a ! Suc k \<le> view_ub a ! Suc k" "unat (view_ub a ! Suc k) < 18446744073709551615"
    "view_ok a k"
    using Suc.prems(1) by (auto simp: view_ok_def)
  have ok: "pairs_ok se (length A) (length B) (pairs a b k (?x j) (?y j))"
    if "j < row_len a (Suc k)" for j
    using Suc.prems(4) that by (force simp: pairs_ok_def pairs_Suc)
  have "copy_loop (\<lambda>av bv. copy_dim a b k ((of_nat x + av) * dist a ! k) ((of_nat y + bv) * dist b ! k))
      (view_ub a ! Suc k) (of_nat (unat (view_lb a ! Suc k))) (of_nat (unat (view_lb b ! Suc k))) (A, c) =
      Some (fold ?F [0..<row_len a (Suc k)] (A, c))"
  proof (rule copy_loop_fold [where I = "\<lambda>st. length (fst st) = length A"])
    fix j and st :: copy_state
    assume j: "j < row_len a (Suc k)" and len: "length (fst st) = length A"
    obtain A' c' where st: "st = (A', c')" by fastforce
    have "copy_dim a b k (of_nat (?x j)) (of_nat (?y j)) (A', c') = Some (?F j (A', c'))"
      using Suc.IH [OF v(3) Suc.prems(2,3), of A' "?x j" "?y j" c'] ok [OF j] len st Suc.prems(5,6)
      by simp
    moreover have "length (fold (ecopy se B) (pairs a b k (?x j) (?y j)) A') = length A'"
      by (rule length_fold_ecopy) (use ok [OF j] len st in \<open>auto simp: pairs_ok_def\<close>)
    ultimately show "copy_dim a b k
         ((of_nat x + of_nat (unat (view_lb a ! Suc k) + j)) * dist a ! k)
         ((of_nat y + of_nat (unat (view_lb b ! Suc k) + j)) * dist b ! k) st = Some (?F j st) \<and>
        length (fst (?F j st)) = length A"
      using st len by (simp add: algebra_simps)
  qed (use v in \<open>simp_all add: row_len_def word_le_nat_alt\<close>)
  then show ?case by (simp add: fold_copies pairs_Suc)
qed

section \<open>Positions in a box\<close>

lemma stride_Suc [simp]: "stride d (Suc k) = stride d k * d k"
  by (simp add: stride_def mult.commute)

lemma off_closed: "off d l k x q = x * stride d k + (\<Sum>i<Suc k. (l i + q ! i) * stride d i)"
  by (induction k arbitrary: x) (simp_all add: algebra_simps stride_def)

lemma mixed_radix_less:
  "(\<And>i. i < n \<Longrightarrow> c i < d i) \<Longrightarrow> (\<Sum>i<n. c i * stride d i) < stride d n"
proof (induction n)
  case 0
  then show ?case by (simp add: stride_def)
next
  case (Suc n)
  then have "(\<Sum>i<n. c i * stride d i) < stride d n" "Suc (c n) \<le> d n" by (simp_all add: Suc_leI)
  then have "(\<Sum>i<Suc n. c i * stride d i) < Suc (c n) * stride d n" by simp
  also have "\<dots> \<le> d n * stride d n" using \<open>Suc (c n) \<le> d n\<close> by (intro mult_le_mono1)
  finally show ?case by (simp add: mult.commute)
qed

lemma mixed_radix_inj:
  assumes "\<And>i. i < n \<Longrightarrow> c i < d i" "\<And>i. i < n \<Longrightarrow> c' i < d i"
    and "(\<Sum>i<n. c i * stride d i) = (\<Sum>i<n. c' i * stride d i)"
  shows "i < n \<Longrightarrow> c i = c' i"
  using assms
proof (induction n)
  case (Suc n)
  let ?r = "\<Sum>i<n. c i * stride d i" and ?r' = "\<Sum>i<n. c' i * stride d i" and ?w = "stride d n"
  have lt: "?r < ?w" "?r' < ?w" using Suc.prems(2,3) by (simp_all add: mixed_radix_less)
  have "?r + c n * ?w = ?r' + c' n * ?w" using Suc.prems(4) by simp
  then have "(?r + c n * ?w) div ?w = (?r' + c' n * ?w) div ?w"
    and "(?r + c n * ?w) mod ?w = (?r' + c' n * ?w) mod ?w" by simp_all
  with lt have "c n = c' n" "?r = ?r'" by simp_all
  then show ?case using Suc by (cases "i = n") auto
qed simp

lemma stride_extent: "stride (extent b) (ndims b) = vol b"
  by (simp add: stride_def vol_def extent_def)

lemma coord_less_extent:
  "p \<in> points b \<Longrightarrow> i < ndims b \<Longrightarrow> unat (p ! i) - unat (lb b ! i) < extent b i"
  by (auto simp: points_def extent_def word_le_nat_alt)

lemma lin_less_vol: "p \<in> points b \<Longrightarrow> lin b p < vol b"
  unfolding lin_def stride_extent [symmetric] by (rule mixed_radix_less) (rule coord_less_extent)

lemma lin_inj: "inj_on (lin b) (points b)"
proof (rule inj_onI)
  fix p p' assume p: "p \<in> points b" "p' \<in> points b" and eq: "lin b p = lin b p'"
  have "unat (p ! i) - unat (lb b ! i) = unat (p' ! i) - unat (lb b ! i)" if "i < ndims b" for i
    using that mixed_radix_inj [OF coord_less_extent [OF p(1)] coord_less_extent [OF p(2)]
        eq [unfolded lin_def]] by simp
  then have "p ! i = p' ! i" if "i < ndims b" for i
    using that p by (auto simp: points_def word_le_nat_alt word_unat_eq_iff eq_diff_iff)
  then show "p = p'" using p by (auto simp: points_def intro: nth_equalityI)
qed

section \<open>The matrices of a copy\<close>

lemma fold_matrix_upd:
  "fold (matrix_init_step g l) js m =
     m\<lparr>dist := fold (\<lambda>j xs. xs[j := bbox_dist g j]) js (dist m),
       view_lb := fold (\<lambda>j xs. xs[j := lb l ! j - lb g ! j]) js (view_lb m),
       view_ub := fold (\<lambda>j xs. xs[j := ub l ! j - lb g ! j]) js (view_ub m)\<rparr>"
  by (induction js arbitrary: m) (simp_all add: matrix_init_step_def)

lemma matrix_init_sel:
  assumes "wf_bbox g"
  shows "m_num_dims (matrix_init st g l pd se) = num_dims g"
    and "pdata (matrix_init st g l pd se) = pd" "size_elem (matrix_init st g l pd se) = se"
    and "i < ndims g \<Longrightarrow> dist (matrix_init st g l pd se) ! i = bbox_dist g i"
    and "i < ndims g \<Longrightarrow> view_lb (matrix_init st g l pd se) ! i = lb l ! i - lb g ! i"
    and "i < ndims g \<Longrightarrow> view_ub (matrix_init st g l pd se) ! i = ub l ! i - lb g ! i"
  using assms
  by (simp_all add: matrix_init_def fold_matrix_upd fold_upd_upt BBOX_MAX_NDIM_def nth_append)

text \<open>\<open>sub_box c g\<close>: \<open>c\<close> is a non-empty box inside \<open>g\<close>.\<close>

definition sub_box :: "bbox \<Rightarrow> bbox \<Rightarrow> bool" where
  "sub_box c g \<longleftrightarrow> num_dims c = num_dims g \<and>
     (\<forall>i<ndims g. lb g ! i \<le> lb c ! i \<and> lb c ! i \<le> ub c ! i \<and> ub c ! i \<le> ub g ! i)"

lemma sub_box_nat:
  assumes "sub_box c g" "i < ndims g"
  shows "unat (lb g ! i) \<le> unat (lb c ! i)" "unat (lb c ! i) \<le> unat (ub c ! i)"
    "unat (ub c ! i) \<le> unat (ub g ! i)"
  using assms by (auto simp: sub_box_def word_le_nat_alt)

lemma extent_le_vol:
  assumes "wf_bbox g" "nonempty_bbox g" "i < ndims g"
  shows "extent g i \<le> vol g"
proof -
  have "0 < extent g j" if "j < ndims g" for j
    using that assms(2) by (auto simp: nonempty_bbox_def extent_def word_le_nat_alt)
  then have "extent g i dvd (\<Prod>j<ndims g. extent g j)" "0 < (\<Prod>j<ndims g. extent g j)"
    using assms(3) by (auto intro!: dvd_prodI prod_pos)
  then have "extent g i \<le> (\<Prod>j<ndims g. extent g j)" by (rule dvd_imp_le)
  then show ?thesis by (simp add: vol_def extent_def)
qed

lemma sub_box_matrix:
  assumes "wf_bbox g" "sub_box c g" "vol g < 18446744073709551616" "i < ndims g"
  shows "unat (dist (matrix_init st g c pd se) ! i) = extent g i"
    and "unat (view_lb (matrix_init st g c pd se) ! i) = unat (lb c ! i) - unat (lb g ! i)"
    and "unat (view_ub (matrix_init st g c pd se) ! i) = unat (ub c ! i) - unat (lb g ! i)"
    and "row_len (matrix_init st g c pd se) i = extent c i"
    and "unat (view_ub (matrix_init st g c pd se) ! i) < 18446744073709551615"
proof -
  note n = sub_box_nat [OF assms(2,4)]
  have ne: "nonempty_bbox g"
    using assms(2) by (auto simp: nonempty_bbox_def sub_box_def intro: order_trans)
  have "extent g i < 18446744073709551616"
    using extent_le_vol [OF assms(1) ne assms(4)] assms(3) by simp
  then have e: "unat (ub g ! i) - unat (lb g ! i) < 18446744073709551615"
    using n by (simp add: extent_def)
  have "lb g ! i \<le> ub g ! i" using n by (simp add: word_le_nat_alt)
  from unat_extent_u64 [OF this e] show "unat (dist (matrix_init st g c pd se) ! i) = extent g i"
    using assms n by (simp add: matrix_init_sel bbox_dist_def coord_dist_def extent_def Suc_diff_le)
  show l: "unat (view_lb (matrix_init st g c pd se) ! i) = unat (lb c ! i) - unat (lb g ! i)"
    using assms n by (simp add: matrix_init_sel unat_minus_u64 word_le_nat_alt)
  show u: "unat (view_ub (matrix_init st g c pd se) ! i) = unat (ub c ! i) - unat (lb g ! i)"
    using assms n by (simp add: matrix_init_sel unat_minus_u64 word_le_nat_alt)
  show "row_len (matrix_init st g c pd se) i = extent c i"
    unfolding row_len_def extent_def l u using n by simp
  show "unat (view_ub (matrix_init st g c pd se) ! i) < 18446744073709551615"
    using u e n by simp
qed

definition pt :: "bbox \<Rightarrow> nat list \<Rightarrow> u64 list" where
  "pt c q = map (\<lambda>i. lb c ! i + of_nat (q ! i)) [0..<ndims c]"

lemma unat_pt:
  assumes "i < ndims c" "q ! i < extent c i"
  shows "unat (pt c q ! i) = unat (lb c ! i) + q ! i"
proof -
  have "unat (lb c ! i) + q ! i < 18446744073709551616" "q ! i < 18446744073709551616"
    using assms(2) unat_u64_bound [of "ub c ! i"] by (simp_all add: extent_def)
  then show ?thesis
    using assms(1) by (simp add: pt_def unat_plus_u64 unat_of_nat)
qed

lemma points_pt: 
  assumes "\<And>i. i < Suc k \<Longrightarrow> n i = extent c i" "ndims c = Suc k"
  shows "pt c ` set (idx n k) = points c" and "inj_on (pt c) (set (idx n k))"
proof -
  have un: "unat (pt c q ! i) = unat (lb c ! i) + q ! i" if "q \<in> set (idx n k)" "i < Suc k" for q i
    using that assms by (intro unat_pt) (auto simp: set_idx)
  show "inj_on (pt c) (set (idx n k))"
  proof (rule inj_onI)
    fix q r assume q: "q \<in> set (idx n k)" "r \<in> set (idx n k)" and eq: "pt c q = pt c r"
    then have "q ! i = r ! i" if "i < Suc k" for i using un that by (metis add_left_imp_eq)
    with q show "q = r" by (auto simp: set_idx intro!: nth_equalityI)
  qed
  show "pt c ` set (idx n k) = points c"
  proof
    show "pt c ` set (idx n k) \<subseteq> points c"
    proof (rule image_subsetI)
      fix q assume q: "q \<in> set (idx n k)"
      have "lb c ! i \<le> pt c q ! i \<and> pt c q ! i \<le> ub c ! i" if "i < Suc k" for i
        using un [OF q that] q that assms(1) [OF that] by (auto simp: word_le_nat_alt set_idx extent_def)
      then show "pt c q \<in> points c" using assms(2) by (simp add: points_def) (simp add: pt_def)
    qed
    show "points c \<subseteq> pt c ` set (idx n k)"
    proof
      fix p assume p: "p \<in> points c"
      let ?q = "map (\<lambda>i. unat (p ! i) - unat (lb c ! i)) [0..<Suc k]"
      have q: "?q \<in> set (idx n k)"
        using coord_less_extent [OF p] assms by (auto simp: set_idx simp del: upt_Suc)
      have "pt c ?q = p"
      proof (rule nth_equalityI)
        show "length (pt c ?q) = length p" using p by (simp add: pt_def points_def)
        fix i assume "i < length (pt c ?q)"
        then have i: "i < Suc k" using assms(2) by (simp add: pt_def)
        then have "unat (lb c ! i) \<le> unat (p ! i)" using p assms(2) by (simp add: points_def word_le_nat_alt)
        with un [OF q i] i show "pt c ?q ! i = p ! i"
          by (simp add: word_unat_eq_iff del: upt_Suc)
      qed
      then show "p \<in> pt c ` set (idx n k)" using imageI [OF q, of "pt c"] by (simp only:)
    qed
  qed
qed

lemma moff_lin:
  assumes "wf_bbox g" "sub_box c g" "vol g < 18446744073709551616" "ndims g = Suc k"
    and "\<And>i. i < Suc k \<Longrightarrow> q ! i < extent c i"
  shows "moff (matrix_init st g c pd se) k 0 q = lin g (pt c q)"
proof -
  let ?m = "matrix_init st g c pd se"
  have nc: "ndims c = Suc k" using assms(2,4) by (simp add: sub_box_def)
  note sm = sub_box_matrix [OF assms(1-3)]
  have "stride (\<lambda>i. unat (dist ?m ! i)) i = stride (extent g) i" if "i < Suc k" for i
    unfolding stride_def using that sm(1) assms(4) by (intro prod.cong) auto
  moreover have "unat (view_lb ?m ! i) + q ! i = unat (pt c q ! i) - unat (lb g ! i)" if "i < Suc k" for i
    using that sm(2) [of i st pd se] unat_pt [of i c q] assms(4,5) nc sub_box_nat [OF assms(2), of i] by simp
  ultimately show ?thesis
    unfolding moff_def off_closed lin_def assms(4) by (simp only: mult_0 add_0) (rule sum.cong, auto)
qed

lemma sub_box_intersect:
  assumes "wf_bbox b0" "wf_bbox b2" "num_dims b0 = num_dims b1" "nonempty_bbox b0" "nonempty_bbox b1"
    and "bbox_does_intersect b0 b1"
  shows "sub_box (bbox_intersect b0 b1 b2) b0" "sub_box (bbox_intersect b0 b1 b2) b1"
proof -
  have wf: "wf_bbox (bbox_intersect b0 b1 b2)" using assms(1,2) by (rule wf_bbox_intersect)
  have "points (bbox_intersect b0 b1 b2) \<noteq> {}"
    using points_intersect [OF assms(1-3)] intersect_points [OF assms(3-6)] by simp
  then have "nonempty_bbox (bbox_intersect b0 b1 b2)" using nonempty_bbox_iff [OF wf] by simp
  then show "sub_box (bbox_intersect b0 b1 b2) b0" "sub_box (bbox_intersect b0 b1 b2) b1"
    using assms(1-3) by (auto simp: sub_box_def nonempty_bbox_def bbox_intersect_sel)
qed

lemma pairs_points:
  assumes "wf_bbox a" "wf_bbox b" "sub_box c a" "sub_box c b" "ndims a = Suc k"
    and "vol a < 18446744073709551616" "vol b < 18446744073709551616"
  obtains ps where "pairs (matrix_init sa a c pa se) (matrix_init sb b c pb se') k 0 0 =
      map (\<lambda>p. (lin a p, lin b p)) ps" "set ps = points c" "distinct ps"
proof
  let ?I = "idx (row_len (matrix_init sa a c pa se)) k" and ?ps = "map (pt c) (idx (row_len (matrix_init sa a c pa se)) k)"
  have nb: "ndims b = Suc k" and nc: "ndims c = Suc k" using assms(3-5) by (simp_all add: sub_box_def)
  have rl: "row_len (matrix_init sa a c pa se) i = extent c i" if "i < Suc k" for i
    using that sub_box_matrix(4) [OF assms(1,3,6)] assms(5) by simp
  show "set ?ps = points c" using points_pt(1) [OF rl nc] by simp
  show "distinct ?ps" using points_pt(2) [OF rl nc] distinct_idx by (simp add: distinct_map)
  have "moff (matrix_init sa a c pa se) k 0 q = lin a (pt c q) \<and>
        moff (matrix_init sb b c pb se') k 0 q = lin b (pt c q)" if "q \<in> set ?I" for q
    using that rl by (intro conjI moff_lin assms nb) (auto simp: set_idx)
  then show "pairs (matrix_init sa a c pa se) (matrix_init sb b c pb se') k 0 0 =
      map (\<lambda>p. (lin a p, lin b p)) ?ps"
    by (simp add: pairs_def comp_def)
qed

section \<open>The copy moves exactly the common elements\<close>

text \<open>The element an object holds at a point of its box.\<close>

definition obj_get :: "obj_data \<Rightarrow> u64 list \<Rightarrow> byte list" where
  "obj_get od p =
     elem (unat (od_size (obj_desc od))) (the (data od)) (lin (od_bb (obj_desc od)) p)"

text \<open>
  \<open>obj_fits\<close>: the object has a non-empty box, and its buffer has the size of its box, a size
  that fits a 64-bit number.
\<close>

definition obj_fits :: "obj_data \<Rightarrow> bool" where
  "obj_fits od \<longleftrightarrow>
     (let bb = od_bb (obj_desc od); se = unat (od_size (obj_desc od))
      in wf_bbox bb \<and> nonempty_bbox bb \<and> 0 < se \<and> se * vol bb < 18446744073709551616 \<and>
         (case data od of None \<Rightarrow> False | Some d \<Rightarrow> length d = se * vol bb))"

definition copy_tag_type :: "obj_data \<Rightarrow> obj_data \<Rightarrow> obj_data" where
  "copy_tag_type to_obj from_obj = to_obj\<lparr>obj_desc := (obj_desc to_obj)
     \<lparr>od_tag := od_tag (obj_desc from_obj), od_type := od_type (obj_desc from_obj)\<rparr>\<rparr>"

lemma obj_fitsE:
  assumes "obj_fits od"
  obtains d where "data od = Some d" "wf_bbox (od_bb (obj_desc od))" "nonempty_bbox (od_bb (obj_desc od))"
    "0 < unat (od_size (obj_desc od))"
    "length d = unat (od_size (obj_desc od)) * vol (od_bb (obj_desc od))"
    "length d < 18446744073709551616" "vol (od_bb (obj_desc od)) < 18446744073709551616"
proof -
  let ?se = "unat (od_size (obj_desc od))" and ?v = "vol (od_bb (obj_desc od))"
  have "?v \<le> ?se * ?v" using assms by (cases ?se) (auto simp: obj_fits_def Let_def)
  with assms that show thesis by (auto simp: obj_fits_def Let_def split: option.splits)
qed

lemma ssd_copy_fold:
  assumes "obj_fits to_obj" "obj_fits from_obj" "od_size (obj_desc to_obj) = od_size (obj_desc from_obj)"
    and "num_dims (od_bb (obj_desc to_obj)) = num_dims (od_bb (obj_desc from_obj))"
    and "1 \<le> num_dims (od_bb (obj_desc to_obj))" "num_dims (od_bb (obj_desc to_obj)) \<le> 9"
    and "bbox_does_intersect (od_bb (obj_desc to_obj)) (od_bb (obj_desc from_obj))" "wf_bbox bbcom"
  obtains ps where "set ps = points (od_bb (obj_desc to_obj)) \<inter> points (od_bb (obj_desc from_obj))"
    "distinct ps"
    "ssd_copy bbcom to_obj from_obj =
      Some ((copy_tag_type to_obj from_obj)\<lparr>data := Some (fold (ecopy (unat (od_size (obj_desc to_obj)))
             (the (data from_obj)))
             (map (\<lambda>p. (lin (od_bb (obj_desc to_obj)) p, lin (od_bb (obj_desc from_obj)) p)) ps)
             (the (data to_obj)))\<rparr>, sint (ucast (of_nat (length ps) :: u64) :: 32 word))"
proof -
  let ?T = "od_bb (obj_desc to_obj)" and ?F = "od_bb (obj_desc from_obj)"
  let ?se = "unat (od_size (obj_desc to_obj))" and ?C = "bbox_intersect (od_bb (obj_desc to_obj)) (od_bb (obj_desc from_obj)) bbcom"
  obtain A where A: "data to_obj = Some A" "wf_bbox ?T" "nonempty_bbox ?T" "0 < ?se"
    "length A = ?se * vol ?T" "length A < 18446744073709551616" "vol ?T < 18446744073709551616"
    using assms(1) by (rule obj_fitsE)
  obtain B where B: "data from_obj = Some B" "wf_bbox ?F" "nonempty_bbox ?F"
    "length B = ?se * vol ?F" "length B < 18446744073709551616" "vol ?F < 18446744073709551616"
    using assms(2) by (rule obj_fitsE) (simp add: assms(3))
  let ?a = "matrix_init (od_st (obj_desc to_obj)) ?T ?C A (od_size (obj_desc to_obj))"
  let ?b = "matrix_init (od_st (obj_desc from_obj)) ?F ?C B (od_size (obj_desc from_obj))"
  obtain k where k: "ndims ?T = Suc k" using assms(5) by (cases "ndims ?T") auto
  have sub: "sub_box ?C ?T" "sub_box ?C ?F"
    using sub_box_intersect A(2,3) B(3) assms(4,7,8) by blast+
  obtain ps where ps: "pairs ?a ?b k 0 0 = map (\<lambda>p. (lin ?T p, lin ?F p)) ps"
    "set ps = points ?C" "distinct ps"
    by (rule pairs_points [OF A(2) B(2) sub k A(7) B(6)])
  have pc: "points ?C = points ?T \<inter> points ?F" by (rule points_intersect [OF A(2) assms(8,4)])
  have "pairs_ok ?se (length A) (length B) (pairs ?a ?b k 0 0)"
    unfolding ps(1) pairs_ok_def A(5) B(4)
    using ps(2) pc lin_less_vol by (auto simp: Suc_leI simp del: mult_Suc_right)
  moreover have "view_ok ?a k"
    unfolding view_ok_def k [symmetric]
  proof (intro allI impI conjI)
    fix i assume i: "i < ndims ?T"
    note sm = sub_box_matrix [OF A(2) sub(1) A(7) i]
    show "view_lb ?a ! i \<le> view_ub ?a ! i"
      using sub_box_nat [OF sub(1) i] by (simp add: word_le_nat_alt sm)
    show "unat (view_ub ?a ! i) < 18446744073709551615" by (rule sm(5))
  qed
  ultimately have "copy_dim ?a ?b k (of_nat 0) (of_nat 0) (A, 0) =
     Some (fold (ecopy ?se B) (pairs ?a ?b k 0 0) A, 0 + of_nat (length (pairs ?a ?b k 0 0)))"
    using A(2,6) B(2,5) by (intro copy_dim_pairs) (simp_all add: matrix_init_sel)
  moreover have "nat (m_num_dims ?a) - 1 = k" "1 \<le> m_num_dims ?a \<and> m_num_dims ?a \<le> 9"
    using k assms(5,6) A(2) by (simp_all add: matrix_init_sel)
  ultimately have "matrix_copy ?a ?b =
     Some (?a\<lparr>pdata := fold (ecopy ?se B) (map (\<lambda>p. (lin ?T p, lin ?F p)) ps) A\<rparr>,
           sint (ucast (of_nat (length ps) :: u64) :: 32 word))"
    using A(2) by (simp add: matrix_copy_def matrix_init_sel ps(1))
  then show thesis
    using that [OF _ ps(3)] ps(2) pc A(1) B(1)
    by (simp add: ssd_copy_def Let_def copy_tag_type_def)
qed

lemma ssd_copy_elements:
  assumes "obj_fits to_obj" "obj_fits from_obj" "od_size (obj_desc to_obj) = od_size (obj_desc from_obj)"
    and "num_dims (od_bb (obj_desc to_obj)) = num_dims (od_bb (obj_desc from_obj))"
    and "1 \<le> num_dims (od_bb (obj_desc to_obj))" "num_dims (od_bb (obj_desc to_obj)) \<le> 9"
    and "bbox_does_intersect (od_bb (obj_desc to_obj)) (od_bb (obj_desc from_obj))" "wf_bbox bbcom"
  shows "\<exists>to' n. ssd_copy bbcom to_obj from_obj = Some (to', n) \<and> obj_fits to' \<and>
     obj_desc to' = obj_desc (copy_tag_type to_obj from_obj) \<and>
     (\<forall>p\<in>points (od_bb (obj_desc to_obj)). obj_get to' p =
        (if p \<in> points (od_bb (obj_desc from_obj)) then obj_get from_obj p else obj_get to_obj p)) \<and>
     n = sint (ucast (of_nat (card (points (od_bb (obj_desc to_obj)) \<inter>
                                   points (od_bb (obj_desc from_obj)))) :: u64) :: 32 word)"
proof -
  let ?T = "od_bb (obj_desc to_obj)" and ?F = "od_bb (obj_desc from_obj)"
  let ?se = "unat (od_size (obj_desc to_obj))"
  obtain A where A: "data to_obj = Some A" "wf_bbox ?T" "nonempty_bbox ?T" "0 < ?se"
    "length A = ?se * vol ?T" "length A < 18446744073709551616"
    using assms(1) by (rule obj_fitsE)
  obtain B where B: "data from_obj = Some B" "length B = ?se * vol ?F"
    using assms(2) by (rule obj_fitsE) (simp add: assms(3))
  obtain ps where ps: "set ps = points ?T \<inter> points ?F" "distinct ps"
    and copy: "ssd_copy bbcom to_obj from_obj =
      Some ((copy_tag_type to_obj from_obj)\<lparr>data := Some (fold (ecopy ?se (the (data from_obj)))
             (map (\<lambda>p. (lin ?T p, lin ?F p)) ps) (the (data to_obj)))\<rparr>,
            sint (ucast (of_nat (length ps) :: u64) :: 32 word))"
    using assms by (rule ssd_copy_fold)
  let ?ps = "map (\<lambda>p. (lin ?T p, lin ?F p)) ps"
  have ok: "(d, s) \<in> set ?ps \<Longrightarrow> ?se * Suc d \<le> length A \<and> ?se * Suc s \<le> length B" for d s
    using ps(1) lin_less_vol A(5) B(2) by (auto simp: Suc_leI simp del: mult_Suc_right)
  have inj: "inj_on (lin ?T) (set ps)" by (rule inj_on_subset [OF lin_inj]) (simp add: ps(1))
  then have "distinct (map fst ?ps)" using ps(2) by (simp add: distinct_map comp_def)
  note el = elem_fold_ecopy [OF ok this]
  have "elem ?se (fold (ecopy ?se B) ?ps A) (lin ?T p) =
      (if p \<in> points ?F then elem ?se B (lin ?F p) else elem ?se A (lin ?T p))" if p: "p \<in> points ?T" for p
  proof (cases "p \<in> points ?F")
    case True
    then show ?thesis using el(1) [of "lin ?T p" "lin ?F p"] p ps(1) by auto
  next
    case False
    then have "lin ?T p \<notin> fst ` set ?ps"
      using p ps(1) lin_inj [of ?T] by (auto dest: inj_onD)
    with el(2) False show ?thesis by simp
  qed
  moreover have "card (points ?T \<inter> points ?F) = length ps" using ps by (metis distinct_card)
  moreover have "length (fold (ecopy ?se B) ?ps A) = length A" by (rule length_fold_ecopy) (rule ok)
  ultimately show ?thesis
    using copy A B assms(3)
    by (auto simp: obj_fits_def obj_get_def copy_tag_type_def)
qed

text \<open>
  C8: \<^verbatim>\<open>ssd_copy\<close> between two objects of the same element size and the same dimensionality
  1..9 whose boxes intersect returns, stays within both buffers, and afterwards the destination
  holds the source's element at every common point and its own old element at every other
  point. The returned count is the number of common points, truncated to a C \<^verbatim>\<open>int\<close>.
\<close>

theorem ssd_copy_copies_intersection:
  assumes "obj_fits to_obj" "obj_fits from_obj" "od_size (obj_desc to_obj) = od_size (obj_desc from_obj)"
    and "num_dims (od_bb (obj_desc to_obj)) = num_dims (od_bb (obj_desc from_obj))"
    and "1 \<le> num_dims (od_bb (obj_desc to_obj))" "num_dims (od_bb (obj_desc to_obj)) \<le> 9"
    and "bbox_does_intersect (od_bb (obj_desc to_obj)) (od_bb (obj_desc from_obj))" "wf_bbox bbcom"
  shows "\<exists>to' n. ssd_copy bbcom to_obj from_obj = Some (to', n) \<and> obj_fits to' \<and>
     (\<forall>p\<in>points (od_bb (obj_desc to_obj)). obj_get to' p =
        (if p \<in> points (od_bb (obj_desc from_obj)) then obj_get from_obj p else obj_get to_obj p)) \<and>
     n = sint (ucast (of_nat (card (points (od_bb (obj_desc to_obj)) \<inter>
                                   points (od_bb (obj_desc from_obj)))) :: u64) :: 32 word)"
  using ssd_copy_elements [OF assms] by blast

definition ex_obj :: "bbox \<Rightarrow> byte list \<Rightarrow> obj_data" where
  "ex_obj b d = obj_data_blank
     \<lparr>od_name = ''t'', od_st = row_major, od_flags = 0, od_tag = 0, od_type = 0, od_owner = ''a'',
      od_version = 1, od_bb = b, od_size = 1\<rparr> (Some d)"

lemma obj_fits_ex:
  "obj_fits (ex_obj b d) \<longleftrightarrow>
     wf_bbox b \<and> nonempty_bbox b \<and> length d = vol b \<and> vol b < 18446744073709551616"
  by (auto simp: obj_fits_def Let_def ex_obj_def obj_data_blank_def)

theorem ssd_copy_copies_intersection_witness:
  "\<exists>to' n. ssd_copy (mk_box [] []) (ex_obj (mk_box [0, 0] [1, 1]) [10, 11, 12, 13])
       (ex_obj (mk_box [1, 0] [1, 1]) [20, 21]) = Some (to', n) \<and>
     obj_get to' [1, 1] = obj_get (ex_obj (mk_box [1, 0] [1, 1]) [20, 21]) [1, 1] \<and>
     obj_get to' [0, 1] = obj_get (ex_obj (mk_box [0, 0] [1, 1]) [10, 11, 12, 13]) [0, 1]"
proof -
  let ?T = "mk_box [0, 0] [1, 1]" and ?F = "mk_box [1, 0] [1, 1]"
  let ?to = "ex_obj ?T [10, 11, 12, 13]" and ?from = "ex_obj ?F [20, 21]"
  have "obj_fits ?to" "obj_fits ?from"
    by (simp_all add: obj_fits_ex bbox_eval del: list_all_upt)
  moreover have "bbox_does_intersect ?T ?F" "wf_bbox (mk_box [] [])" by code_simp+
  ultimately have "\<exists>to' n. ssd_copy (mk_box [] []) ?to ?from = Some (to', n) \<and> obj_fits to' \<and>
     (\<forall>p\<in>points (od_bb (obj_desc ?to)). obj_get to' p =
        (if p \<in> points (od_bb (obj_desc ?from)) then obj_get ?from p else obj_get ?to p)) \<and>
     n = sint (ucast (of_nat (card (points (od_bb (obj_desc ?to)) \<inter>
                                   points (od_bb (obj_desc ?from)))) :: u64) :: 32 word)"
    by (intro ssd_copy_copies_intersection)
      (simp_all add: ex_obj_def obj_data_blank_def mk_box_def)
  moreover have "[1, 1] \<in> points ?T" "[0, 1] \<in> points ?T" "[1, 1] \<in> points ?F" "[0, 1] \<notin> points ?F"
    by (auto simp: points_def mk_box_def less_Suc_eq numeral_2_eq_2)
  ultimately show ?thesis
    by (fastforce simp: ex_obj_def obj_data_blank_def)
qed

text \<open>
  With ten dimensions the copy reads the wrong source elements. The two objects below are
  well formed and intersect in the single point whose last coordinate is 1; the source holds 21
  there, and the copy stores 20, the element of its neighbour.
\<close>

theorem ssd_copy_ten_dims_wrong:
  "let T = mk_box [0,0,0,0,0,0,0,0,0,1] [0,0,0,0,0,0,0,0,0,1];
       F = mk_box [0,0,0,0,0,0,0,0,0,0] [0,0,0,0,0,0,0,0,0,1];
       p = [0,0,0,0,0,0,0,0,0,1]
   in obj_fits (ex_obj T [10]) \<and> obj_fits (ex_obj F [20, 21]) \<and>
      bbox_does_intersect T F \<and> obj_get (ex_obj F [20, 21]) p = [21] \<and>
      map_option (\<lambda>(to', n). (obj_get to' p, n)) (ssd_copy (mk_box [] []) (ex_obj T [10]) (ex_obj F [20, 21]))
        = Some ([20], 1)"
  unfolding Let_def
proof (intro conjI)
  let ?T = "mk_box [0,0,0,0,0,0,0,0,0,1] [0,0,0,0,0,0,0,0,0,1]"
  let ?F = "mk_box [0,0,0,0,0,0,0,0,0,0] [0,0,0,0,0,0,0,0,0,1]"
  show "obj_fits (ex_obj ?T [10])" by (simp add: obj_fits_ex bbox_eval del: list_all_upt)
  show "obj_fits (ex_obj ?F [20, 21])" by (simp add: obj_fits_ex bbox_eval del: list_all_upt)
  show "bbox_does_intersect ?T ?F" by code_simp
  show "obj_get (ex_obj ?F [20, 21]) [0,0,0,0,0,0,0,0,0,1] = [21]" by code_simp
  show "map_option (\<lambda>(to', n). (obj_get to' [0,0,0,0,0,0,0,0,0,1], n))
      (ssd_copy (mk_box [] []) (ex_obj ?T [10]) (ex_obj ?F [20, 21])) = Some ([20], 1)" by code_simp
qed

end
