(* ===== verification/StrHash.thy ===== *)
theory StrHash
  imports Prelude
begin

text \<open>
  The chained hash set of strings of \<^verbatim>\<open>include/str_hash.h\<close>, which local storage uses for the
  names of its variables and the servers use to merge name lists. A C string is a HOL
  string without a zero character; a bucket's \<^verbatim>\<open>next\<close> chain is the list of its keys. The
  locale \<open>str_set\<close> states the set the operations maintain and is interpreted on them.
\<close>

section \<open>Data and operations\<close>

definition DS_TABLE_SIZE :: nat where
  "DS_TABLE_SIZE = 100"

record ds_str_hash =
  table :: "string list list"
  num_entries :: nat

text \<open>
  The hash adds characters as \<^verbatim>\<open>int\<close>s to an \<^verbatim>\<open>unsigned long\<close>; \<^verbatim>\<open>char\<close> is signed, so a byte above
  127 is a negative number, sign-extended to 64 bits.
\<close>

definition char_int :: "char \<Rightarrow> int" where
  "char_int c = (let k = of_char c :: int in if k < 128 then k else k - 256)"

definition hash_step :: "u64 \<Rightarrow> char \<Rightarrow> u64" where
  "hash_step h c = (push_bit 5 h + h) + word_of_int (char_int c)"

definition hash :: "string \<Rightarrow> nat" where
  "hash str = unat (foldl hash_step 5381 str mod of_nat DS_TABLE_SIZE)"

definition ds_str_hash_init :: ds_str_hash where
  "ds_str_hash_init = \<lparr>table = replicate DS_TABLE_SIZE [], num_entries = 0\<rparr>"

text \<open>
  The walk along a chain: \<open>None\<close> when the key is met (the new node is freed again), otherwise
  the chain with the new node at its end.
\<close>

fun chain_insert :: "string \<Rightarrow> string list \<Rightarrow> string list option" where
  "chain_insert key [] = Some [key]"
| "chain_insert key (k # ks) = (if k = key then None else map_option ((#) k) (chain_insert key ks))"

definition ds_str_hash_add :: "ds_str_hash \<Rightarrow> string \<Rightarrow> int \<times> ds_str_hash" where
  "ds_str_hash_add s str =
     (let index = hash str
      in case chain_insert str (table s ! index) of
           None \<Rightarrow> (0, s)
         | Some ks \<Rightarrow>
             (1, s\<lparr>table := (table s)[index := ks], num_entries := num_entries s + 1\<rparr>))"

fun chain_find :: "string \<Rightarrow> string list \<Rightarrow> bool" where
  "chain_find str [] = False"
| "chain_find str (k # ks) = (if k = str then True else chain_find str ks)"

definition ds_str_hash_find :: "ds_str_hash \<Rightarrow> string \<Rightarrow> int" where
  "ds_str_hash_find s str = (if chain_find str (table s ! hash str) then 1 else 0)"

text \<open>
  \<^verbatim>\<open>ds_str_hash_get_all\<close> copies every key, bucket by bucket, and returns the entry count with
  the copies.
\<close>

definition ds_str_hash_get_all :: "ds_str_hash \<Rightarrow> nat \<times> string list" where
  "ds_str_hash_get_all s = (num_entries s, concat (map (\<lambda>i. table s ! i) [0..<DS_TABLE_SIZE]))"

section \<open>The set interface\<close>

locale str_set =
  fixes init :: 's
    and add :: "'s \<Rightarrow> string \<Rightarrow> int \<times> 's"
    and find :: "'s \<Rightarrow> string \<Rightarrow> int"
    and get_all :: "'s \<Rightarrow> nat \<times> string list"
    and elems :: "'s \<Rightarrow> string set"
    and invar :: "'s \<Rightarrow> bool"
  assumes invar_init: "invar init" and elems_init: "elems init = {}"
    and invar_add: "invar s \<Longrightarrow> invar (snd (add s x))"
    and elems_add: "invar s \<Longrightarrow> elems (snd (add s x)) = insert x (elems s)"
    and add_ret: "invar s \<Longrightarrow> fst (add s x) = (if x \<in> elems s then 0 else 1)"
    and find_iff: "invar s \<Longrightarrow> find s x = (if x \<in> elems s then 1 else 0)"
    and get_all_set: "invar s \<Longrightarrow> set (snd (get_all s)) = elems s"
    and get_all_distinct: "invar s \<Longrightarrow> distinct (snd (get_all s))"
    and get_all_count: "invar s \<Longrightarrow> fst (get_all s) = length (snd (get_all s))"
begin

abbreviation add_all :: "'s \<Rightarrow> string list \<Rightarrow> 's" where
  "add_all s xs \<equiv> fold (\<lambda>x s. snd (add s x)) xs s"

lemma add_all_ok: "invar s \<Longrightarrow> invar (add_all s xs) \<and> elems (add_all s xs) = elems s \<union> set xs"
  by (induction xs arbitrary: s) (auto simp: invar_add elems_add)

text \<open>Merging any number of name lists yields each name once.\<close>

lemma merged_names:
  "set (snd (get_all (add_all init (concat xss)))) = (\<Union>xs\<in>set xss. set xs)"
  "distinct (snd (get_all (add_all init (concat xss))))"
  "fst (get_all (add_all init (concat xss))) = card (\<Union>xs\<in>set xss. set xs)"
proof -
  let ?s = "add_all init (concat xss)"
  have s: "invar ?s" "elems ?s = (\<Union>xs\<in>set xss. set xs)"
    using add_all_ok [OF invar_init] by (auto simp: elems_init)
  then show "set (snd (get_all ?s)) = (\<Union>xs\<in>set xss. set xs)" "distinct (snd (get_all ?s))"
    by (simp_all add: get_all_set get_all_distinct)
  with s show "fst (get_all ?s) = card (\<Union>xs\<in>set xss. set xs)"
    by (simp add: get_all_count distinct_card [symmetric])
qed

end

section \<open>The hash set implements it\<close>

lemma hash_bound: "hash str < DS_TABLE_SIZE"
  by (simp add: hash_def DS_TABLE_SIZE_def unat_mod)

lemma chain_insert_None: "chain_insert x ks = None \<longleftrightarrow> x \<in> set ks"
  by (induction ks) auto

lemma chain_insert_Some: "chain_insert x ks = Some ks' \<Longrightarrow> ks' = ks @ [x] \<and> x \<notin> set ks"
  by (induction ks arbitrary: ks') (auto split: if_splits)

lemma chain_find_iff: "chain_find x ks \<longleftrightarrow> x \<in> set ks"
  by (induction ks) auto

definition str_hash_wf :: "ds_str_hash \<Rightarrow> bool" where
  "str_hash_wf s \<longleftrightarrow> length (table s) = DS_TABLE_SIZE \<and> keyed hash (table s) \<and>
     (\<forall>ks\<in>set (table s). distinct ks) \<and> num_entries s = sum_list (map length (table s))"

definition str_hash_elems :: "ds_str_hash \<Rightarrow> string set" where
  "str_hash_elems s = set (concat (table s))"

lemma str_hash_elems_iff:
  "str_hash_wf s \<Longrightarrow> x \<in> str_hash_elems s \<longleftrightarrow> x \<in> set (table s ! hash x)"
  using hash_bound [of x] keyed_in_concat [of hash "table s" x]
  by (simp add: str_hash_wf_def str_hash_elems_def)

lemma str_hash_add_cases:
  assumes "str_hash_wf s"
  shows "ds_str_hash_add s x =
     (if x \<in> str_hash_elems s then (0, s)
      else (1, s\<lparr>table := (table s)[hash x := table s ! hash x @ [x]], num_entries := num_entries s + 1\<rparr>))"
  using assms
  by (auto simp: ds_str_hash_add_def str_hash_elems_iff chain_insert_None Let_def
      split: option.splits dest: chain_insert_Some)

lemma str_hash_add_new:
  assumes wf: "str_hash_wf s" and new: "x \<notin> str_hash_elems s"
  defines "s' \<equiv> s\<lparr>table := (table s)[hash x := table s ! hash x @ [x]], num_entries := num_entries s + 1\<rparr>"
  shows "str_hash_wf s'" and "str_hash_elems s' = insert x (str_hash_elems s)"
proof -
  have h: "hash x < length (table s)" using wf hash_bound [of x] by (simp add: str_hash_wf_def)
  have new': "x \<notin> set (table s ! hash x)" using new wf by (simp add: str_hash_elems_iff)
  have same: "hash y = hash x" if "y \<in> set (table s ! hash x @ [x])" for y
    using that wf h by (auto simp: str_hash_wf_def keyed_def)
  have "keyed hash (table s)" using wf by (simp add: str_hash_wf_def)
  then have "keyed hash ((table s)[hash x := table s ! hash x @ [x]])"
    by (rule keyed_update) (rule same)
  then have k: "keyed hash (table s')" by (simp add: s'_def)
  show wf': "str_hash_wf s'"
    using wf new' h k sum_list_length_update [OF h, of "table s ! hash x @ [x]"]
    by (auto simp: str_hash_wf_def s'_def dest!: set_update_subset_insert [THEN subsetD])
  show "str_hash_elems s' = insert x (str_hash_elems s)"
  proof (rule set_eqI)
    fix y
    show "y \<in> str_hash_elems s' \<longleftrightarrow> y \<in> insert x (str_hash_elems s)"
      using h unfolding str_hash_elems_iff [OF wf'] insert_iff str_hash_elems_iff [OF wf]
      by (auto simp: s'_def nth_list_update)
  qed
qed

lemma str_hash_get_all_concat:
  "str_hash_wf s \<Longrightarrow> ds_str_hash_get_all s = (length (concat (table s)), concat (table s))"
  by (simp add: ds_str_hash_get_all_def str_hash_wf_def length_concat) (metis map_nth)

lemma str_hash_init_wf: "str_hash_wf ds_str_hash_init" "str_hash_elems ds_str_hash_init = {}"
  by (auto simp: str_hash_wf_def ds_str_hash_init_def str_hash_elems_def keyed_def DS_TABLE_SIZE_def)

lemma str_hash_add_ok:
  assumes "str_hash_wf s"
  shows "str_hash_wf (snd (ds_str_hash_add s x))"
    and "str_hash_elems (snd (ds_str_hash_add s x)) = insert x (str_hash_elems s)"
    and "fst (ds_str_hash_add s x) = (if x \<in> str_hash_elems s then 0 else 1)"
  using str_hash_add_new [OF assms, of x] assms by (auto simp: str_hash_add_cases)

lemma str_hash_get_all_ok:
  assumes "str_hash_wf s"
  shows "set (snd (ds_str_hash_get_all s)) = str_hash_elems s"
    and "distinct (snd (ds_str_hash_get_all s))"
    and "fst (ds_str_hash_get_all s) = length (snd (ds_str_hash_get_all s))"
proof -
  have "distinct (concat (table s))"
    using assms by (auto simp: str_hash_wf_def intro: keyed_distinct_concat)
  then show "distinct (snd (ds_str_hash_get_all s))"
    using assms by (simp add: str_hash_get_all_concat)
qed (simp_all only: str_hash_get_all_concat [OF assms] str_hash_elems_def snd_conv fst_conv)

lemma str_hash_find_ok:
  "str_hash_wf s \<Longrightarrow> ds_str_hash_find s x = (if x \<in> str_hash_elems s then 1 else 0)"
  by (simp add: ds_str_hash_find_def chain_find_iff str_hash_elems_iff)

interpretation sh: str_set ds_str_hash_init ds_str_hash_add ds_str_hash_find ds_str_hash_get_all
    str_hash_elems str_hash_wf
  by unfold_locales
    (fact str_hash_init_wf str_hash_add_ok str_hash_find_ok str_hash_get_all_ok)+

section \<open>Property\<close>

text \<open>The hash set is a set of strings. Adding the names of several lists to an empty set, then
  reading all entries, returns every name exactly once, and the reported count is the number of
  different names; a lookup succeeds exactly for the added names.\<close>

theorem str_hash_is_set:
  "let s = sh.add_all ds_str_hash_init (concat xss); (n, names) = ds_str_hash_get_all s
   in set names = (\<Union>xs\<in>set xss. set xs) \<and> distinct names \<and>
      n = card (\<Union>xs\<in>set xss. set xs) \<and>
      (ds_str_hash_find s x = 1 \<longleftrightarrow> x \<in> (\<Union>xs\<in>set xss. set xs))"
proof -
  let ?s = "sh.add_all ds_str_hash_init (concat xss)"
  have "str_hash_wf ?s" "str_hash_elems ?s = (\<Union>xs\<in>set xss. set xs)"
    using sh.add_all_ok [OF str_hash_init_wf(1), of "concat xss"] by (auto simp: str_hash_init_wf)
  then have "ds_str_hash_find ?s x = 1 \<longleftrightarrow> x \<in> (\<Union>xs\<in>set xss. set xs)"
    by (simp add: sh.find_iff)
  with sh.merged_names [of xss] show ?thesis by (simp add: Let_def split_beta)
qed

end
