(* ===== verification/LocalStore.thy ===== *)
theory LocalStore
  imports Matrix StrHash
begin

text \<open>
  The local object store \<^verbatim>\<open>ss_storage\<close> of \<^verbatim>\<open>include/ss_data.h\<close> and its operations
  \<^verbatim>\<open>ls_*\<close> of \<^verbatim>\<open>src/ss_data.c\<close>. Objects are shared by pointer (a reader holds one by its
  reference count while it sits in the store), so they live in a heap of addresses; a bin
  \<^verbatim>\<open>obj_hash[i]\<close> is the sequence of addresses its \<^verbatim>\<open>list_head\<close> links, which the theory of
  \<^verbatim>\<open>list.h\<close> shows to behave as a list. The metadata part of the store is in the theory of
  metadata.
\<close>

section \<open>Data\<close>

type_synonym oaddr = nat

record meta_data =
  md_name :: string
  md_version :: u32
  md_length :: int
  md_data :: "byte list"

text \<open>A \<^verbatim>\<open>meta_sub_list_entry\<close> of a waiting thread; \<^verbatim>\<open>msub.mdata\<close> is kept in \<open>msub_mdata\<close> by thread.\<close>

record meta_sub =
  ms_thread :: nat
  ms_name :: string
  ms_version :: int

record ss_storage =
  num_obj :: int
  size_hash :: nat
  var_dict :: ds_str_hash
  obj_hash :: "oaddr list list"
  od_heap :: "oaddr \<rightharpoonup> obj_data"
  meta_hash :: "meta_data list list"
  meta_subs :: "meta_sub list list"
  msub_mdata :: "nat \<rightharpoonup> meta_data"

section \<open>Operations\<close>

definition ls_alloc :: "nat \<Rightarrow> ss_storage" where
  "ls_alloc max_versions =
     \<lparr>num_obj = 0, size_hash = max_versions, var_dict = ds_str_hash_init,
      obj_hash = replicate max_versions [], od_heap = Map.empty,
      meta_hash = replicate max_versions [], meta_subs = replicate (max_versions + 1) [],
      msub_mdata = Map.empty\<rparr>"

definition ls_bin :: "ss_storage \<Rightarrow> u32 \<Rightarrow> nat" where
  "ls_bin ls version = unat version mod size_hash ls"

definition the_od :: "ss_storage \<Rightarrow> oaddr \<Rightarrow> obj_data" where
  "the_od ls a = the (od_heap ls a)"

abbreviation the_odsc :: "ss_storage \<Rightarrow> oaddr \<Rightarrow> obj_descriptor" where
  "the_odsc ls a \<equiv> obj_desc (the_od ls a)"

text \<open>\<^verbatim>\<open>list_del\<close> unlinks the entry from the bin it is in; the other bins do not hold it.\<close>

definition ls_remove :: "ss_storage \<Rightarrow> oaddr \<Rightarrow> ss_storage" where
  "ls_remove ls od = ls\<lparr>obj_hash := map (filter (\<lambda>a. a \<noteq> od)) (obj_hash ls), num_obj := num_obj ls - 1\<rparr>"

definition obj_data_free :: "ss_storage \<Rightarrow> oaddr \<Rightarrow> ss_storage" where
  "obj_data_free ls od = ls\<lparr>od_heap := (od_heap ls)(od := None)\<rparr>"

definition ls_try_remove_free :: "ss_storage \<Rightarrow> oaddr \<Rightarrow> ss_storage" where
  "ls_try_remove_free ls od =
     (if refcnt (the_od ls od) = 0 then obj_data_free (ls_remove ls od) od else ls)"

definition ls_find_no_version :: "ss_storage \<Rightarrow> obj_descriptor \<Rightarrow> oaddr option" where
  "ls_find_no_version ls odsc =
     find (\<lambda>od. obj_desc_by_name_intersect odsc (the_odsc ls od))
       (obj_hash ls ! ls_bin ls (od_version odsc))"

text \<open>
  The caller passes a freshly allocated object: its address is already in the heap. An existing
  object of the name that intersects it, of whatever version, gives way, unless it is in use.
\<close>

definition ls_evict :: "ss_storage \<Rightarrow> oaddr \<Rightarrow> ss_storage" where
  "ls_evict ls od_existing =
     (let ls = ls\<lparr>od_heap := (od_heap ls)(od_existing \<mapsto> (the_od ls od_existing)\<lparr>f_free := True\<rparr>)\<rparr>
      in if refcnt (the_od ls od_existing) = 0
         then obj_data_free (ls_remove ls od_existing) od_existing else ls)"

definition ls_add_obj :: "ss_storage \<Rightarrow> oaddr \<Rightarrow> ss_storage" where
  "ls_add_obj ls od =
     (let odsc = the_odsc ls od;
          ls = ls\<lparr>var_dict := snd (ds_str_hash_add (var_dict ls) (od_name odsc))\<rparr>;
          ls = (case ls_find_no_version ls odsc of None \<Rightarrow> ls | Some od_existing \<Rightarrow> ls_evict ls od_existing);
          index = ls_bin ls (od_version odsc)
      in ls\<lparr>obj_hash := (obj_hash ls)[index := od # obj_hash ls ! index], num_obj := num_obj ls + 1\<rparr>)"

definition ls_lookup :: "ss_storage \<Rightarrow> string \<Rightarrow> oaddr option" where
  "ls_lookup ls nm =
     find (\<lambda>od. od_name (the_odsc ls od) = nm) (concat (map (\<lambda>i. obj_hash ls ! i) [0..<size_hash ls]))"

definition ls_find :: "ss_storage \<Rightarrow> obj_descriptor \<Rightarrow> oaddr option" where
  "ls_find ls odsc =
     find (\<lambda>od. obj_desc_equals_intersect odsc (the_odsc ls od))
       (obj_hash ls ! ls_bin ls (od_version odsc))"

definition ls_find_all_no_version :: "ss_storage \<Rightarrow> string \<Rightarrow> obj_descriptor list" where
  "ls_find_all_no_version ls var_name =
     map (the_odsc ls) (filter (\<lambda>od. od_name (the_odsc ls od) = var_name)
       (concat (map (\<lambda>i. obj_hash ls ! i) [0..<size_hash ls])))"

text \<open>
  \<open>ls_find_all_loop\<close> is the walk along the bin: the table of objects found and the count of
  elements still missing, a 64-bit number. The intersection is written into the uninitialised
  local \<open>isect\<close>.
\<close>

fun ls_find_all_loop :: "ss_storage \<Rightarrow> obj_descriptor \<Rightarrow> bbox \<Rightarrow> oaddr list \<Rightarrow> oaddr list \<times> u64 \<Rightarrow>
    oaddr list \<times> u64" where
  "ls_find_all_loop ls odsc isect [] st = st"
| "ls_find_all_loop ls odsc isect (od # bin) (ods, num_elem) =
     (if obj_desc_equals_intersect odsc (the_odsc ls od)
      then let isect = bbox_intersect (od_bb odsc) (od_bb (the_odsc ls od)) isect
           in ls_find_all_loop ls odsc isect bin (ods @ [od], num_elem - bbox_volume isect)
      else ls_find_all_loop ls odsc isect bin (ods, num_elem))"

definition ls_find_all :: "bbox \<Rightarrow> ss_storage \<Rightarrow> obj_descriptor \<Rightarrow> int \<times> oaddr list" where
  "ls_find_all isect ls odsc =
     (let (ods, num_elem) = ls_find_all_loop ls odsc isect
            (obj_hash ls ! ls_bin ls (od_version odsc)) ([], bbox_volume (od_bb odsc))
      in if num_elem \<noteq> 0 then (-1, []) else (int (length ods), ods))"

definition ls_find_ods :: "ss_storage \<Rightarrow> obj_descriptor \<Rightarrow> obj_descriptor list" where
  "ls_find_ods ls odsc =
     map (the_odsc ls) (filter (\<lambda>od. obj_desc_match odsc (the_odsc ls od))
       (obj_hash ls ! ls_bin ls (od_version odsc)))"

definition ls_get_var_names :: "ss_storage \<Rightarrow> nat \<times> string list" where
  "ls_get_var_names ls = ds_str_hash_get_all (var_dict ls)"

text \<open>
  Freeing the store removes and frees the objects bin by bin; the metadata of a bin goes with
  it. \<open>ls_free\<close> gives the store just before its own memory is released, with the objects left in
  the heap, and the count the final check prints when it is not zero.
\<close>

definition ls_free_bin :: "nat \<Rightarrow> ss_storage \<Rightarrow> ss_storage" where
  "ls_free_bin i ls =
     (let ls = fold (\<lambda>od ls. obj_data_free (ls_remove ls od) od) (obj_hash ls ! i) ls
      in ls\<lparr>meta_hash := (meta_hash ls)[i := []]\<rparr>)"

definition ls_free :: "ss_storage \<Rightarrow> ss_storage" where
  "ls_free ls = fold ls_free_bin [0..<size_hash ls] ls"

section \<open>Invariant\<close>

definition stored :: "ss_storage \<Rightarrow> oaddr list" where
  "stored ls = concat (obj_hash ls)"

definition ls_inv :: "ss_storage \<Rightarrow> bool" where
  "ls_inv ls \<longleftrightarrow> 0 < size_hash ls \<and> length (obj_hash ls) = size_hash ls \<and>
     keyed (\<lambda>a. ls_bin ls (od_version (the_odsc ls a))) (obj_hash ls) \<and>
     distinct (stored ls) \<and> set (stored ls) \<subseteq> dom (od_heap ls) \<and>
     num_obj ls = int (length (stored ls)) \<and> str_hash_wf (var_dict ls) \<and>
     (\<forall>a\<in>set (stored ls). od_name (the_odsc ls a) \<in> str_hash_elems (var_dict ls))"

lemma ls_inv_alloc [wf_intros]: "0 < n \<Longrightarrow> ls_inv (ls_alloc n)"
  by (simp add: ls_inv_def ls_alloc_def stored_def keyed_def str_hash_init_wf)

lemma ls_invD:
  assumes "ls_inv ls"
  shows "0 < size_hash ls" "length (obj_hash ls) = size_hash ls"
    "keyed (\<lambda>a. ls_bin ls (od_version (the_odsc ls a))) (obj_hash ls)" "distinct (stored ls)"
    "set (stored ls) \<subseteq> dom (od_heap ls)" "num_obj ls = int (length (stored ls))"
    "str_hash_wf (var_dict ls)"
    "\<And>a. a \<in> set (stored ls) \<Longrightarrow> od_name (the_odsc ls a) \<in> str_hash_elems (var_dict ls)"
  using assms by (auto simp: ls_inv_def)

lemma ls_bin_less: "ls_inv ls \<Longrightarrow> ls_bin ls v < length (obj_hash ls)"
  by (simp add: ls_bin_def ls_invD)

lemma stored_in_bin:
  "ls_inv ls \<Longrightarrow> a \<in> set (stored ls) \<longleftrightarrow> a \<in> set (obj_hash ls ! ls_bin ls (od_version (the_odsc ls a)))"
  using keyed_in_concat [OF ls_invD(3), of ls a] ls_bin_less by (auto simp: stored_def)

lemma stored_remove: "stored (ls_remove ls a) = filter (\<lambda>x. x \<noteq> a) (stored ls)"
  by (simp add: stored_def ls_remove_def filter_concat)

lemma ls_remove_free_sel:
  "size_hash (obj_data_free (ls_remove ls a) a) = size_hash ls"
  "var_dict (obj_data_free (ls_remove ls a) a) = var_dict ls"
  "ls_bin (obj_data_free (ls_remove ls a) a) v = ls_bin ls v"
  "stored (obj_data_free (ls_remove ls a) a) = filter (\<lambda>x. x \<noteq> a) (stored ls)"
  "obj_hash (obj_data_free (ls_remove ls a) a) = map (filter (\<lambda>x. x \<noteq> a)) (obj_hash ls)"
  "x \<noteq> a \<Longrightarrow> the_od (obj_data_free (ls_remove ls a) a) x = the_od ls x"
  "od_heap (obj_data_free (ls_remove ls a) a) = (od_heap ls)(a := None)"
  "num_obj (obj_data_free (ls_remove ls a) a) = num_obj ls - 1"
  using stored_remove [of ls a]
  by (simp_all add: obj_data_free_def ls_remove_def ls_bin_def stored_def the_od_def)

lemma ls_inv_remove_free [wf_intros]:
  assumes "ls_inv ls" "a \<in> set (stored ls)"
  shows "ls_inv (obj_data_free (ls_remove ls a) a)"
proof -
  let ?ls = "obj_data_free (ls_remove ls a) a"
  note inv = ls_invD [OF assms(1)]
  have pos: "1 \<le> length (stored ls)" using assms(2) by (cases "stored ls") auto
  have "keyed (\<lambda>x. ls_bin ?ls (od_version (the_odsc ?ls x))) (obj_hash ?ls)"
    unfolding keyed_def
  proof (intro allI impI ballI)
    fix i x assume "i < length (obj_hash ?ls)" "x \<in> set (obj_hash ?ls ! i)"
    then have "i < length (obj_hash ls)" "x \<noteq> a" "x \<in> set (obj_hash ls ! i)"
      by (auto simp: ls_remove_free_sel)
    with inv(3) show "ls_bin ?ls (od_version (the_odsc ?ls x)) = i"
      by (auto simp: keyed_def ls_remove_free_sel)
  qed
  moreover have "length (stored ?ls) = length (stored ls) - 1"
    using inv(4) assms(2) by (simp add: ls_remove_free_sel length_filter_neq)
  moreover have "od_name (the_odsc ?ls x) \<in> str_hash_elems (var_dict ?ls)" if "x \<in> set (stored ?ls)" for x
    using that inv(8) [of x] by (auto simp: ls_remove_free_sel)
  ultimately show ?thesis
    using inv pos unfolding ls_inv_def
    by (auto simp: ls_remove_free_sel of_nat_diff)
qed

lemma ls_inv_same_desc:
  assumes "ls_inv ls" "od_heap ls a = Some od" "obj_desc od' = obj_desc od"
  shows "ls_inv (ls\<lparr>od_heap := (od_heap ls)(a \<mapsto> od')\<rparr>)"
proof -
  let ?ls = "ls\<lparr>od_heap := (od_heap ls)(a \<mapsto> od')\<rparr>"
  have "the_odsc ?ls x = the_odsc ls x" for x
    using assms(2,3) by (simp add: the_od_def)
  moreover have "ls_bin ?ls v = ls_bin ls v" for v by (simp add: ls_bin_def)
  ultimately show ?thesis
    using assms(1) by (auto simp: ls_inv_def stored_def)
qed

lemma ls_inv_evict [wf_intros]:
  assumes "ls_inv ls" "a \<in> set (stored ls)"
  shows "ls_inv (ls_evict ls a)"
proof -
  let ?ls = "ls\<lparr>od_heap := (od_heap ls)(a \<mapsto> (the_od ls a)\<lparr>f_free := True\<rparr>)\<rparr>"
  obtain od where "od_heap ls a = Some od" using ls_invD(5) [OF assms(1)] assms(2) by auto
  then have "ls_inv ?ls" using assms(1) by (intro ls_inv_same_desc) (auto simp: the_od_def)
  moreover from this have "ls_inv (obj_data_free (ls_remove ?ls a) a)"
    by (rule ls_inv_remove_free) (use assms(2) in \<open>simp add: stored_def\<close>)
  ultimately show ?thesis by (simp add: ls_evict_def Let_def)
qed

lemma ls_inv_name:
  "ls_inv ls \<Longrightarrow> ls_inv (ls\<lparr>var_dict := snd (ds_str_hash_add (var_dict ls) nm)\<rparr>)"
  by (auto simp: ls_inv_def stored_def ls_bin_def the_od_def str_hash_add_ok)

lemma ls_inv_insert:
  assumes "ls_inv ls" "a \<notin> set (stored ls)" "od_heap ls a = Some od"
    and "od_name (obj_desc od) \<in> str_hash_elems (var_dict ls)" "i = ls_bin ls (od_version (obj_desc od))"
  shows "ls_inv (ls\<lparr>obj_hash := (obj_hash ls)[i := a # obj_hash ls ! i], num_obj := num_obj ls + 1\<rparr>)"
proof -
  let ?bins = "(obj_hash ls)[i := a # obj_hash ls ! i]"
  note inv = ls_invD [OF assms(1)]
  have i: "i < length (obj_hash ls)" using assms(1,5) by (simp add: ls_bin_less)
  have od: "the_odsc ls a = obj_desc od" using assms(3) by (simp add: the_od_def)
  have k: "keyed (\<lambda>x. ls_bin ls (od_version (the_odsc ls x))) ?bins"
    using inv(3) i od assms(5) by (intro keyed_update) (auto simp: keyed_def)
  have sets: "set (concat ?bins) = insert a (set (stored ls))"
    using set_concat_push [OF i] by (simp add: stored_def)
  have "distinct bin" if "bin \<in> set ?bins" for bin
  proof -
    have "distinct (obj_hash ls ! i)" "\<And>b. b \<in> set (obj_hash ls) \<Longrightarrow> distinct b"
      using inv(4) i by (auto simp: stored_def distinct_concat_iff)
    moreover have "a \<notin> set (obj_hash ls ! i)" using assms(2) i by (auto simp: stored_def)
    ultimately show ?thesis using that by (auto dest!: set_update_subset_insert [THEN subsetD])
  qed
  with k have dist: "distinct (concat ?bins)" by (rule keyed_distinct_concat)
  have len: "length (concat ?bins) = Suc (length (stored ls))"
    using sum_list_length_update [OF i, of "a # obj_hash ls ! i"] by (simp add: stored_def length_concat)
  show ?thesis
    unfolding ls_inv_def using inv k sets dist len assms(3,4) od
    by (auto simp: stored_def ls_bin_def the_od_def)
qed

section \<open>Adding an object\<close>

lemma ls_find_no_versionD:
  assumes "ls_inv ls" "ls_find_no_version ls odsc = Some e"
  shows "e \<in> set (stored ls)" "obj_desc_by_name_intersect odsc (the_odsc ls e)"
    "ls_bin ls (od_version (the_odsc ls e)) = ls_bin ls (od_version odsc)"
proof -
  let ?i = "ls_bin ls (od_version odsc)"
  have i: "?i < length (obj_hash ls)" using assms(1) by (rule ls_bin_less)
  have e: "e \<in> set (obj_hash ls ! ?i)" "obj_desc_by_name_intersect odsc (the_odsc ls e)"
    using assms(2) by (auto simp: ls_find_no_version_def find_Some_iff)
  from e i show "e \<in> set (stored ls)" "obj_desc_by_name_intersect odsc (the_odsc ls e)"
    by (auto simp: stored_def)
  show "ls_bin ls (od_version (the_odsc ls e)) = ?i"
    using ls_invD(3) [OF assms(1)] i e(1) by (auto simp: keyed_def)
qed

lemma ls_evict_sel:
  "size_hash (ls_evict ls e) = size_hash ls" "ls_bin (ls_evict ls e) v = ls_bin ls v"
  "var_dict (ls_evict ls e) = var_dict ls" "meta_hash (ls_evict ls e) = meta_hash ls"
  "x \<noteq> e \<Longrightarrow> od_heap (ls_evict ls e) x = od_heap ls x"
  "stored (ls_evict ls e) = (if refcnt (the_od ls e) = 0 then filter (\<lambda>x. x \<noteq> e) (stored ls) else stored ls)"
  "refcnt (the_od ls e) = 0 \<Longrightarrow> od_heap (ls_evict ls e) e = None"
  "refcnt (the_od ls e) \<noteq> 0 \<Longrightarrow> od_heap (ls_evict ls e) e = Some ((the_od ls e)\<lparr>f_free := True\<rparr>)"
  using ls_remove_free_sel(4)
    [where ls = "ls\<lparr>od_heap := (od_heap ls)(e \<mapsto> (the_od ls e)\<lparr>f_free := True\<rparr>)\<rparr>" and a = e]
  by (auto simp: ls_evict_def Let_def the_od_def stored_def ls_bin_def ls_remove_def obj_data_free_def)

text \<open>The store after the name is entered and an existing object has given way.\<close>

definition ls_make_room :: "ss_storage \<Rightarrow> obj_descriptor \<Rightarrow> ss_storage" where
  "ls_make_room ls odsc =
     (let ls = ls\<lparr>var_dict := snd (ds_str_hash_add (var_dict ls) (od_name odsc))\<rparr>
      in case ls_find_no_version ls odsc of None \<Rightarrow> ls | Some e \<Rightarrow> ls_evict ls e)"

lemma ls_add_obj_alt:
  "ls_add_obj ls a =
     (let odsc = the_odsc ls a; ls = ls_make_room ls odsc; index = ls_bin ls (od_version odsc)
      in ls\<lparr>obj_hash := (obj_hash ls)[index := a # obj_hash ls ! index], num_obj := num_obj ls + 1\<rparr>)"
  by (simp add: ls_add_obj_def ls_make_room_def Let_def)

lemma ls_make_room_props:
  assumes inv: "ls_inv ls"
  shows "ls_inv (ls_make_room ls odsc)" "size_hash (ls_make_room ls odsc) = size_hash ls"
    and "od_name odsc \<in> str_hash_elems (var_dict (ls_make_room ls odsc))"
    and "set (stored (ls_make_room ls odsc)) \<subseteq> set (stored ls)"
    and "x \<notin> set (stored ls) \<Longrightarrow> od_heap (ls_make_room ls odsc) x = od_heap ls x"
    and "b \<in> set (stored ls) \<Longrightarrow> b \<notin> set (stored (ls_make_room ls odsc)) \<Longrightarrow>
      obj_desc_by_name_intersect odsc (the_odsc ls b) \<and> refcnt (the_od ls b) = 0 \<and>
      ls_bin ls (od_version (the_odsc ls b)) = ls_bin ls (od_version odsc) \<and>
      od_heap (ls_make_room ls odsc) b = None"
    and "b \<in> set (stored (ls_make_room ls odsc)) \<Longrightarrow>
      od_heap (ls_make_room ls odsc) b = od_heap ls b \<or>
      obj_desc_by_name_intersect odsc (the_odsc ls b) \<and> refcnt (the_od ls b) \<noteq> 0 \<and>
      od_heap (ls_make_room ls odsc) b = Some ((the_od ls b)\<lparr>f_free := True\<rparr>)"
proof -
  define l1 where "l1 = ls\<lparr>var_dict := snd (ds_str_hash_add (var_dict ls) (od_name odsc))\<rparr>"
  have i1: "ls_inv l1" unfolding l1_def using inv by (rule ls_inv_name)
  have name: "od_name odsc \<in> str_hash_elems (var_dict l1)"
    using ls_invD(7) [OF inv] by (simp add: l1_def str_hash_add_ok)
  have same: "stored l1 = stored ls" "od_heap l1 = od_heap ls" "the_od l1 = the_od ls"
    "size_hash l1 = size_hash ls" "ls_bin l1 = ls_bin ls"
    by (auto simp: l1_def stored_def the_od_def ls_bin_def fun_eq_iff)
  have mr: "ls_make_room ls odsc = (case ls_find_no_version l1 odsc of None \<Rightarrow> l1 | Some e \<Rightarrow> ls_evict l1 e)"
    by (simp only: ls_make_room_def l1_def Let_def)
  note fd = ls_find_no_versionD [OF i1]
  show "ls_inv (ls_make_room ls odsc)"
    unfolding mr by (auto split: option.splits intro: i1 ls_inv_evict fd)
  show "size_hash (ls_make_room ls odsc) = size_hash ls"
    "od_name odsc \<in> str_hash_elems (var_dict (ls_make_room ls odsc))"
    "set (stored (ls_make_room ls odsc)) \<subseteq> set (stored ls)"
    unfolding mr using name by (auto simp: ls_evict_sel same split: option.splits if_splits)
  show "x \<notin> set (stored ls) \<Longrightarrow> od_heap (ls_make_room ls odsc) x = od_heap ls x"
    unfolding mr using fd(1) by (auto simp: same split: option.splits intro!: ls_evict_sel(5) [THEN trans])
  show "b \<in> set (stored ls) \<Longrightarrow> b \<notin> set (stored (ls_make_room ls odsc)) \<Longrightarrow>
      obj_desc_by_name_intersect odsc (the_odsc ls b) \<and> refcnt (the_od ls b) = 0 \<and>
      ls_bin ls (od_version (the_odsc ls b)) = ls_bin ls (od_version odsc) \<and>
      od_heap (ls_make_room ls odsc) b = None"
    unfolding mr using fd by (auto simp: ls_evict_sel same split: option.splits if_splits)
  show "od_heap (ls_make_room ls odsc) b = od_heap ls b \<or>
      obj_desc_by_name_intersect odsc (the_odsc ls b) \<and> refcnt (the_od ls b) \<noteq> 0 \<and>
      od_heap (ls_make_room ls odsc) b = Some ((the_od ls b)\<lparr>f_free := True\<rparr>)"
    if b: "b \<in> set (stored (ls_make_room ls odsc))"
  proof (cases "ls_find_no_version l1 odsc")
    case None
    then show ?thesis by (simp add: mr same)
  next
    case (Some e)
    then have "b = e \<Longrightarrow> refcnt (the_od l1 e) \<noteq> 0"
      using b by (auto simp: mr ls_evict_sel)
    then show ?thesis
      using Some fd(2) [OF Some] ls_evict_sel(5,8) by (cases "b = e") (auto simp: mr same)
  qed
qed

lemma ls_add_obj_props:
  assumes inv: "ls_inv ls" and new: "a \<notin> set (stored ls)" and od: "od_heap ls a = Some od"
  shows "ls_inv (ls_add_obj ls a)"
    and "set (stored (ls_add_obj ls a)) = insert a (set (stored (ls_make_room ls (obj_desc od))))"
    and "od_heap (ls_add_obj ls a) = od_heap (ls_make_room ls (obj_desc od))"
    and "\<exists>bin. obj_hash (ls_add_obj ls a) ! ls_bin ls (od_version (obj_desc od)) = a # bin"
    and "size_hash (ls_add_obj ls a) = size_hash ls"
proof -
  let ?mr = "ls_make_room ls (obj_desc od)"
  let ?i = "ls_bin ?mr (od_version (obj_desc od))"
  note mr = ls_make_room_props [OF inv, where odsc = "obj_desc od"]
  have d: "the_odsc ls a = obj_desc od" using od by (simp add: the_od_def)
  have add: "ls_add_obj ls a =
      ?mr\<lparr>obj_hash := (obj_hash ?mr)[?i := a # obj_hash ?mr ! ?i], num_obj := num_obj ?mr + 1\<rparr>"
    by (simp only: ls_add_obj_alt d Let_def)
  have i: "?i < length (obj_hash ?mr)" using mr(1) by (rule ls_bin_less)
  have b: "ls_bin ls v = ls_bin ?mr v" for v using mr(2) by (simp add: ls_bin_def)
  have "a \<notin> set (stored ?mr)" "od_heap ?mr a = Some od" using mr(4,5) new od by auto
  then show "ls_inv (ls_add_obj ls a)" unfolding add using mr(1,3) by (intro ls_inv_insert) auto
  show "set (stored (ls_add_obj ls a)) = insert a (set (stored ?mr))"
    using set_concat_push [OF i] by (simp add: add stored_def)
  show "od_heap (ls_add_obj ls a) = od_heap ?mr" "size_hash (ls_add_obj ls a) = size_hash ls"
    by (simp_all add: add mr)
  show "\<exists>bin. obj_hash (ls_add_obj ls a) ! ls_bin ls (od_version (obj_desc od)) = a # bin"
    using i by (simp add: add b)
qed

section \<open>Reachable stores\<close>

text \<open>
  The steps a server or client takes on a store: allocate an object and add it, take or drop
  references, and remove an object that is no longer referenced.
\<close>

inductive ls_reach :: "nat \<Rightarrow> ss_storage \<Rightarrow> bool" for n where
  alloc: "ls_reach n (ls_alloc n)"
| add: "ls_reach n ls \<Longrightarrow> od_heap ls a = None \<Longrightarrow>
    ls_reach n (ls_add_obj (ls\<lparr>od_heap := (od_heap ls)(a \<mapsto> od)\<rparr>) a)"
| refs: "ls_reach n ls \<Longrightarrow> od_heap ls a = Some od \<Longrightarrow>
    ls_reach n (ls\<lparr>od_heap := (od_heap ls)(a \<mapsto> od\<lparr>refcnt := k\<rparr>)\<rparr>)"
| remove: "ls_reach n ls \<Longrightarrow> a \<in> set (stored ls) \<Longrightarrow> ls_reach n (ls_try_remove_free ls a)"

lemma ls_inv_new_obj:
  assumes "ls_inv ls" "od_heap ls a = None"
  shows "ls_inv (ls\<lparr>od_heap := (od_heap ls)(a \<mapsto> od)\<rparr>)" "a \<notin> set (stored ls)"
proof -
  show a: "a \<notin> set (stored ls)" using ls_invD(5) [OF assms(1)] assms(2) by auto
  let ?ls = "ls\<lparr>od_heap := (od_heap ls)(a \<mapsto> od)\<rparr>"
  have od: "the_od ?ls x = the_od ls x" if "x \<in> set (stored ls)" for x
    using that a by (auto simp: the_od_def)
  note inv = ls_invD [OF assms(1)]
  have "keyed (\<lambda>x. ls_bin ?ls (od_version (the_odsc ?ls x))) (obj_hash ?ls)"
    unfolding keyed_def
  proof (intro allI impI ballI)
    fix i x assume "i < length (obj_hash ?ls)" "x \<in> set (obj_hash ?ls ! i)"
    then have "i < length (obj_hash ls)" "x \<in> set (obj_hash ls ! i)" "x \<in> set (stored ls)"
      by (auto simp: stored_def)
    with inv(3) od show "ls_bin ?ls (od_version (the_odsc ?ls x)) = i"
      by (auto simp: keyed_def ls_bin_def)
  qed
  then show "ls_inv ?ls"
    using inv od by (auto simp: ls_inv_def stored_def)
qed

text \<open>
  C11: every store reachable from \<^verbatim>\<open>ls_alloc\<close> by adding, referencing and removing objects is
  consistent: \<^verbatim>\<open>num_obj\<close> is the number of stored objects, no object is stored twice or after it was
  freed, each is in the bin of its version, and its name is in the variable dictionary.
\<close>

theorem ls_reach_inv:
  assumes "0 < n" "ls_reach n ls"
  shows "ls_inv ls"
  using assms(2)
proof induction
  case alloc
  then show ?case using assms(1) by (rule ls_inv_alloc)
next
  case (add ls a od)
  let ?ls = "ls\<lparr>od_heap := (od_heap ls)(a \<mapsto> od)\<rparr>"
  have "ls_inv ?ls" "a \<notin> set (stored ?ls)"
    using ls_inv_new_obj add by (auto simp: stored_def)
  then show ?case by (rule ls_add_obj_props(1) [where od = od]) simp
next
  case (refs ls a od k)
  then show ?case by (intro ls_inv_same_desc) auto
next
  case (remove ls a)
  then show ?case by (simp add: ls_try_remove_free_def ls_inv_remove_free)
qed

theorem ls_reach_inv_witness:
  "ls_inv (ls_add_obj ((ls_alloc 2)\<lparr>od_heap := Map.empty(7 \<mapsto> ex_obj (mk_box [0] [1]) [10, 11])\<rparr>) 7)"
proof -
  have "ls_reach 2 (ls_add_obj ((ls_alloc 2)\<lparr>od_heap := (od_heap (ls_alloc 2))(7 \<mapsto> ex_obj (mk_box [0] [1]) [10, 11])\<rparr>) 7)"
    by (rule ls_reach.add [OF ls_reach.alloc]) (simp add: ls_alloc_def)
  from ls_reach_inv [OF _ this] show ?thesis by (simp add: ls_alloc_def)
qed

section \<open>A stored object is found\<close>

lemma ls_find_added:
  assumes "ls_inv ls" "a \<notin> set (stored ls)" "od_heap ls a = Some od"
    and "obj_desc_equals_intersect q (obj_desc od)"
  shows "ls_find (ls_add_obj ls a) q = Some a" "od_heap (ls_add_obj ls a) a = Some od"
    "ls_inv (ls_add_obj ls a)" "a \<in> set (stored (ls_add_obj ls a))"
proof -
  note add = ls_add_obj_props [OF assms(1-3)]
  note mr = ls_make_room_props [OF assms(1), where odsc = "obj_desc od"]
  show a: "od_heap (ls_add_obj ls a) a = Some od" using add(3) mr(5) assms(2,3) by simp
  have "od_version q = od_version (obj_desc od)"
    using assms(4) by (simp add: obj_desc_equals_intersect_def)
  moreover obtain bin where "obj_hash (ls_add_obj ls a) ! ls_bin ls (od_version (obj_desc od)) = a # bin"
    using add(4) by blast
  ultimately show "ls_find (ls_add_obj ls a) q = Some a"
    using a assms(4) add(5) by (simp add: ls_find_def ls_bin_def the_od_def)
  show "ls_inv (ls_add_obj ls a)" "a \<in> set (stored (ls_add_obj ls a))" using add(1,2) by simp_all
qed

text \<open>
  C9: after \<^verbatim>\<open>ls_add_obj\<close> every query of the object's name and version that intersects it finds the
  new object. Every other stored object is still stored, unless it has the same name, shares a
  bin with it, intersects it and is not referenced; such an object is freed. A referenced object is
  never freed, only marked.
\<close>

theorem ls_add_obj_finds_new:
  assumes "ls_inv ls" "a \<notin> set (stored ls)" "od_heap ls a = Some od"
    and "obj_desc_equals_intersect q (obj_desc od)"
  shows "ls_find (ls_add_obj ls a) q = Some a \<and> od_heap (ls_add_obj ls a) a = Some od \<and>
    (\<forall>b\<in>set (stored ls).
       b \<in> set (stored (ls_add_obj ls a)) \<and>
         od_heap (ls_add_obj ls a) b \<in> {od_heap ls b, Some ((the_od ls b)\<lparr>f_free := True\<rparr>)} \<or>
       b \<notin> set (stored (ls_add_obj ls a)) \<and> od_heap (ls_add_obj ls a) b = None \<and>
         refcnt (the_od ls b) = 0 \<and> obj_desc_by_name_intersect (obj_desc od) (the_odsc ls b) \<and>
         ls_bin ls (od_version (the_odsc ls b)) = ls_bin ls (od_version (obj_desc od)))"
proof (intro conjI ballI)
  show "ls_find (ls_add_obj ls a) q = Some a" "od_heap (ls_add_obj ls a) a = Some od"
    by (rule ls_find_added [OF assms])+
next
  note add = ls_add_obj_props [OF assms(1-3)]
  note mr = ls_make_room_props [OF assms(1), where odsc = "obj_desc od"]
  fix b assume b: "b \<in> set (stored ls)"
  then have ba: "b \<noteq> a" using assms(2) by blast
  show "b \<in> set (stored (ls_add_obj ls a)) \<and>
         od_heap (ls_add_obj ls a) b \<in> {od_heap ls b, Some ((the_od ls b)\<lparr>f_free := True\<rparr>)} \<or>
       b \<notin> set (stored (ls_add_obj ls a)) \<and> od_heap (ls_add_obj ls a) b = None \<and>
         refcnt (the_od ls b) = 0 \<and> obj_desc_by_name_intersect (obj_desc od) (the_odsc ls b) \<and>
         ls_bin ls (od_version (the_odsc ls b)) = ls_bin ls (od_version (obj_desc od))"
    using mr(6) [OF b] mr(7) [of b] ba unfolding add(2,3) by auto
qed

definition ex_store :: ss_storage where
  "ex_store = (ls_alloc 2)\<lparr>od_heap := Map.empty(7 \<mapsto> ex_obj (mk_box [0] [1]) [10, 11])\<rparr>"

lemma ex_store_inv: "ls_inv ex_store" "stored ex_store = []"
  by (simp_all add: ex_store_def ls_inv_def ls_alloc_def stored_def keyed_def str_hash_init_wf)

theorem ls_add_obj_finds_new_witness:
  "ls_find (ls_add_obj ex_store 7) (obj_desc (ex_obj (mk_box [1] [4]) [])) = Some 7"
proof -
  have "obj_desc_equals_intersect (obj_desc (ex_obj (mk_box [1] [4]) []))
      (obj_desc (ex_obj (mk_box [0] [1]) [10, 11]))" by code_simp
  with ls_add_obj_finds_new [of ex_store 7 "ex_obj (mk_box [0] [1]) [10, 11]"
      "obj_desc (ex_obj (mk_box [1] [4]) [])"] ex_store_inv
  show ?thesis by (simp add: ex_store_def)
qed

section \<open>Gathering the objects of a query\<close>

abbreviation matching :: "ss_storage \<Rightarrow> obj_descriptor \<Rightarrow> oaddr list" where
  "matching ls q \<equiv> filter (\<lambda>od. obj_desc_equals_intersect q (the_odsc ls od))
     (obj_hash ls ! ls_bin ls (od_version q))"

text \<open>The boxes of the objects a query can meet: well formed, not empty, of its dimensionality.\<close>

definition boxes_ok :: "ss_storage \<Rightarrow> obj_descriptor \<Rightarrow> bool" where
  "boxes_ok ls q \<longleftrightarrow> wf_bbox (od_bb q) \<and> nonempty_bbox (od_bb q) \<and>
     (\<forall>od\<in>set (matching ls q). wf_bbox (od_bb (the_odsc ls od)) \<and>
        nonempty_bbox (od_bb (the_odsc ls od)) \<and>
        num_dims (od_bb (the_odsc ls od)) = num_dims (od_bb q))"

lemma bbox_volume_intersect:
  assumes "wf_bbox b0" "wf_bbox b2" "num_dims b0 = num_dims b1" "nonempty_bbox b0" "nonempty_bbox b1"
    and "bbox_does_intersect b0 b1"
  shows "bbox_volume (bbox_intersect b0 b1 b2) = of_nat (card (points b0 \<inter> points b1))"
proof -
  have "sub_box (bbox_intersect b0 b1 b2) b0" using assms by (rule sub_box_intersect)
  then have "nonempty_bbox (bbox_intersect b0 b1 b2)" by (simp add: sub_box_def nonempty_bbox_def)
  then show ?thesis
    using points_intersect [OF assms(1-3)] card_points [of "bbox_intersect b0 b1 b2"]
    by (simp add: bbox_volume_of_nat nonempty_ordered)
qed

lemma ls_find_all_loop_alt:
  assumes "wf_bbox isect" "wf_bbox (od_bb q)" "nonempty_bbox (od_bb q)"
    and "\<And>od. od \<in> set bin \<Longrightarrow> obj_desc_equals_intersect q (the_odsc ls od) \<Longrightarrow>
       nonempty_bbox (od_bb (the_odsc ls od)) \<and> num_dims (od_bb (the_odsc ls od)) = num_dims (od_bb q)"
  shows "ls_find_all_loop ls q isect bin (ods, n) =
     (ods @ filter (\<lambda>od. obj_desc_equals_intersect q (the_odsc ls od)) bin,
      n - of_nat (\<Sum>od\<leftarrow>filter (\<lambda>od. obj_desc_equals_intersect q (the_odsc ls od)) bin.
                    card (points (od_bb q) \<inter> points (od_bb (the_odsc ls od)))))"
  using assms
proof (induction bin arbitrary: isect ods n)
  case (Cons od bin)
  show ?case
  proof (cases "obj_desc_equals_intersect q (the_odsc ls od)")
    case True
    let ?isect = "bbox_intersect (od_bb q) (od_bb (the_odsc ls od)) isect"
    have b: "nonempty_bbox (od_bb (the_odsc ls od))" "num_dims (od_bb (the_odsc ls od)) = num_dims (od_bb q)"
      using Cons.prems(4) [of od] True by auto
    have "bbox_volume ?isect = of_nat (card (points (od_bb q) \<inter> points (od_bb (the_odsc ls od))))"
      using True Cons.prems(1-3) b by (intro bbox_volume_intersect) (auto simp: obj_desc_equals_intersect_def)
    moreover have "wf_bbox ?isect" using Cons.prems(1,2) by (intro wf_bbox_intersect)
    ultimately show ?thesis
      using True Cons.IH [of ?isect "ods @ [od]"] Cons.prems by (simp add: algebra_simps)
  next
    case False
    then show ?thesis using Cons by simp
  qed
qed simp

lemma ls_find_all_cover:
  assumes "ls_inv ls" "boxes_ok ls q" "wf_bbox isect" "vol (od_bb q) < 18446744073709551616"
    and "\<forall>x\<in>set (matching ls q). \<forall>y\<in>set (matching ls q). x \<noteq> y \<longrightarrow>
           points (od_bb (the_odsc ls x)) \<inter> points (od_bb (the_odsc ls y)) = {}"
  shows "ls_find_all isect ls q =
    (if points (od_bb q) \<subseteq> (\<Union>x\<in>set (matching ls q). points (od_bb (the_odsc ls x)))
     then (int (length (matching ls q)), matching ls q) else (-1, []))"
proof -
  let ?m = "matching ls q" and ?Q = "points (od_bb q)" and ?P = "\<lambda>x. points (od_bb (the_odsc ls x))"
  have "distinct (obj_hash ls ! ls_bin ls (od_version q))"
    using ls_invD(4) [OF assms(1)] ls_bin_less [OF assms(1)] by (auto simp: stored_def distinct_concat_iff)
  then have "(\<Sum>x\<leftarrow>?m. card (?Q \<inter> ?P x)) = (\<Sum>x\<in>set ?m. card (?Q \<inter> ?P x))"
    by (simp add: sum_list_distinct_conv_sum_set)
  also have "\<dots> = card (\<Union>x\<in>set ?m. ?Q \<inter> ?P x)"
    using assms(5) by (intro card_UN_disjoint [symmetric]) (auto dest: bspec)
  finally have sum: "(\<Sum>x\<leftarrow>?m. card (?Q \<inter> ?P x)) = card (?Q \<inter> (\<Union>x\<in>set ?m. ?P x))"
    by (simp only: Int_UN_distrib)
  let ?c = "card (?Q \<inter> (\<Union>x\<in>set ?m. ?P x))"
  have loop: "ls_find_all_loop ls q isect (obj_hash ls ! ls_bin ls (od_version q)) ([], bbox_volume (od_bb q)) =
      (?m, bbox_volume (od_bb q) - of_nat ?c)"
    using assms(2,3) by (subst ls_find_all_loop_alt) (auto simp: boxes_ok_def sum)
  have le: "?c \<le> card ?Q" by (intro card_mono) auto
  have "bbox_volume (od_bb q) = of_nat (card ?Q)"
    using assms(2) by (simp add: boxes_ok_def bbox_volume_of_nat nonempty_ordered card_points)
  then have "bbox_volume (od_bb q) - of_nat ?c = of_nat (card ?Q - ?c)" using le by (simp add: of_nat_diff)
  moreover have "card ?Q - ?c < 18446744073709551616" using assms(4) by (simp add: card_points)
  ultimately have "bbox_volume (od_bb q) - of_nat ?c = 0 \<longleftrightarrow> card ?Q - ?c = 0"
    by (simp only: of_nat_u64_eq_0)
  also have "\<dots> \<longleftrightarrow> ?c = card ?Q" using le by auto
  also have "\<dots> \<longleftrightarrow> ?Q \<subseteq> (\<Union>x\<in>set ?m. ?P x)"
    by (rule card_Int_eq_iff) (rule finite_points)
  finally show ?thesis by (simp add: ls_find_all_def loop)
qed

text \<open>
  C10: \<^verbatim>\<open>ls_find_all\<close> decides whether the stored objects cover a query. When the objects of the
  query's name and version that intersect it are pairwise disjoint, it returns all of them, in
  bin order, if every point of the query lies in one of them, and -1 otherwise.
\<close>

theorem ls_find_all_decides_cover:
  assumes "ls_inv ls" "boxes_ok ls q" "wf_bbox isect" "vol (od_bb q) < 18446744073709551616"
    and "\<forall>x\<in>set (matching ls q). \<forall>y\<in>set (matching ls q). x \<noteq> y \<longrightarrow>
           points (od_bb (the_odsc ls x)) \<inter> points (od_bb (the_odsc ls y)) = {}"
  shows "ls_find_all isect ls q =
    (if points (od_bb q) \<subseteq> (\<Union>x\<in>set (matching ls q). points (od_bb (the_odsc ls x)))
     then (int (length (matching ls q)), matching ls q) else (-1, []))"
  using assms by (rule ls_find_all_cover)

text \<open>Two neighbouring objects, added one after the other.\<close>

definition ex_store2 :: ss_storage where
  "ex_store2 = ls_add_obj (ls_add_obj ((ls_alloc 2)\<lparr>od_heap := Map.empty
     (4 \<mapsto> ex_obj (mk_box [0] [1]) [10, 11], 5 \<mapsto> ex_obj (mk_box [2] [3]) [12, 13])\<rparr>) 4) 5"

lemma ex_store2_eval:
  "obj_hash ex_store2 = [[], [5, 4]]" "size_hash ex_store2 = 2"
  "od_heap ex_store2 4 = Some (ex_obj (mk_box [0] [1]) [10, 11])"
  "od_heap ex_store2 5 = Some (ex_obj (mk_box [2] [3]) [12, 13])"
  by code_simp+

lemma ex_store2_inv: "ls_inv ex_store2"
proof -
  let ?s = "(ls_alloc 2)\<lparr>od_heap := Map.empty
     (4 \<mapsto> ex_obj (mk_box [0] [1]) [10, 11], 5 \<mapsto> ex_obj (mk_box [2] [3]) [12, 13])\<rparr>"
  have s: "ls_inv ?s" "stored ?s = []"
    by (simp_all add: ls_inv_def ls_alloc_def stored_def keyed_def str_hash_init_wf)
  have h: "obj_hash (ls_add_obj ?s 4) = [[], [4]]"
    "od_heap (ls_add_obj ?s 4) 5 = Some (ex_obj (mk_box [2] [3]) [12, 13])" by code_simp+
  have i: "ls_inv (ls_add_obj ?s 4)"
    by (rule ls_add_obj_props(1) [where od = "ex_obj (mk_box [0] [1]) [10, 11]"]) (simp_all add: s)
  show ?thesis
    unfolding ex_store2_def
    by (rule ls_add_obj_props(1) [where od = "ex_obj (mk_box [2] [3]) [12, 13]"])
      (simp_all add: stored_def h i)
qed

lemma ex_obj_desc [simp]:
  "od_bb (obj_desc (ex_obj b d)) = b" "od_version (obj_desc (ex_obj b d)) = 1"
  "data (ex_obj b d) = Some d" "od_size (obj_desc (ex_obj b d)) = 1"
  by (simp_all add: ex_obj_def obj_data_blank_def)

theorem ls_find_all_decides_cover_witness:
  "ls_find_all (mk_box [] []) ex_store2 (obj_desc (ex_obj (mk_box [1] [2]) [])) = (2, [5, 4]) \<and>
   ls_find_all (mk_box [] []) ex_store2 (obj_desc (ex_obj (mk_box [1] [5]) [])) = (-1, [])"
proof -
  let ?q = "\<lambda>u. obj_desc (ex_obj (mk_box [1] [u]) [])"
  have od: "the_odsc ex_store2 4 = obj_desc (ex_obj (mk_box [0] [1]) [10, 11])"
    "the_odsc ex_store2 5 = obj_desc (ex_obj (mk_box [2] [3]) [12, 13])"
    by (simp_all add: the_od_def ex_store2_eval)
  have m: "matching ex_store2 (?q 2) = [5, 4]" "matching ex_store2 (?q 5) = [5, 4]" by code_simp+
  have disj: "points (mk_box [0] [1]) \<inter> points (mk_box [2] [3]) = {}"
    by (rule not_intersect_points) (code_simp+)
  have ok: "boxes_ok ex_store2 (?q 2)" "boxes_ok ex_store2 (?q 5)"
    unfolding boxes_ok_def m by (simp_all add: od mk_box_simps)
  have small: "vol (od_bb (?q 2)) < 18446744073709551616" "vol (od_bb (?q 5)) < 18446744073709551616"
    by (simp_all add: vol_eval mk_box_def upt_rec)
  have cover: "points (mk_box [1] [2]) \<subseteq> points (mk_box [2] [3]) \<union> points (mk_box [0] [1])"
    by (auto simp: points_def mk_box_def word_le_nat_alt)
  have "[5] \<in> points (mk_box [1] [5])" "[5] \<notin> points (mk_box [2] [3]) \<union> points (mk_box [0] [1])"
    by (simp_all add: points_def mk_box_def word_le_nat_alt)
  then have no_cover: "\<not> points (mk_box [1] [5]) \<subseteq> points (mk_box [2] [3]) \<union> points (mk_box [0] [1])" by blast
  show ?thesis
    using ls_find_all_decides_cover [OF ex_store2_inv ok(1) _ small(1), of "mk_box [] []", unfolded m]
      ls_find_all_decides_cover [OF ex_store2_inv ok(2) _ small(2), of "mk_box [] []", unfolded m]
      disj cover no_cover
    by (simp add: od wf_mk_box Int_commute)
qed

text \<open>
  \<^verbatim>\<open>ls_add_obj\<close> evicts only the first intersecting object of the bin. Adding an object that covers
  two stored objects of its version leaves one of them beside the new object, and \<^verbatim>\<open>ls_find_all\<close>,
  which subtracts every overlap from the number of missing elements, then reports the object
  missing although the new object alone answers the query.
\<close>

theorem ls_overlapping_put_hides_object:
  "let q = obj_desc (ex_obj (mk_box [0] [3]) []);
       ls = ls_add_obj (ex_store2\<lparr>od_heap := (od_heap ex_store2)
              (6 \<mapsto> ex_obj (mk_box [0] [3]) [20, 21, 22, 23])\<rparr>) 6
   in obj_hash ls = [[], [6, 4]] \<and> ls_find ls q = Some 6 \<and>
      bbox_include (od_bb (the_odsc ls 6)) (od_bb q) \<and>
      ls_find_all (mk_box [] []) ls q = (-1, [])"
  by code_simp

section \<open>Freeing the store\<close>

definition drop_objs :: "oaddr list \<Rightarrow> ss_storage \<Rightarrow> ss_storage" where
  "drop_objs as ls = ls\<lparr>obj_hash := map (filter (\<lambda>a. a \<notin> set as)) (obj_hash ls),
     num_obj := num_obj ls - int (length as), od_heap := (\<lambda>a. if a \<in> set as then None else od_heap ls a)\<rparr>"

lemma drop_objs_Nil [simp]: "drop_objs [] ls = ls"
  by (cases ls) (simp add: drop_objs_def map_idI)

lemma drop_objs_meta:
  "meta_hash (drop_objs as ls) = meta_hash ls"
  "(drop_objs as (ls\<lparr>meta_hash := mh\<rparr>))\<lparr>meta_hash := mh'\<rparr> = drop_objs as (ls\<lparr>meta_hash := mh'\<rparr>)"
  by (simp add: drop_objs_def) (cases ls, simp add: drop_objs_def cong: if_cong)

lemma fold_remove_free: "fold (\<lambda>od ls. obj_data_free (ls_remove ls od) od) as ls = drop_objs as ls"
proof (induction as arbitrary: ls)
  case (Cons a as)
  show ?case
    by (simp add: Cons) (simp add: drop_objs_def obj_data_free_def ls_remove_def fun_eq_iff comp_def)
qed simp

lemma drop_objs_append: "drop_objs bs (drop_objs as ls) = drop_objs (as @ bs) ls"
  by (auto simp: drop_objs_def fun_eq_iff conj_commute)

lemma ls_free_prefix:
  assumes "distinct (concat (obj_hash ls))" "n \<le> length (obj_hash ls)"
  shows "\<exists>mh. fold ls_free_bin [0..<n] ls = drop_objs (concat (take n (obj_hash ls))) (ls\<lparr>meta_hash := mh\<rparr>)"
  using assms(2)
proof (induction n)
  case 0
  show ?case by (intro exI [of _ "meta_hash ls"]) simp
next
  case (Suc n)
  let ?d = "concat (take n (obj_hash ls))"
  obtain mh where mh: "fold ls_free_bin [0..<n] ls = drop_objs ?d (ls\<lparr>meta_hash := mh\<rparr>)"
    using Suc by auto
  have split: "obj_hash ls = take n (obj_hash ls) @ obj_hash ls ! n # drop (Suc n) (obj_hash ls)"
    using Suc.prems by (simp add: id_take_nth_drop)
  have "set (obj_hash ls ! n) \<inter> set ?d = {}"
    using assms(1) by (subst (asm) split) auto
  then have bin: "obj_hash (drop_objs ?d (ls\<lparr>meta_hash := mh\<rparr>)) ! n = obj_hash ls ! n"
    using Suc.prems by (auto simp: drop_objs_def filter_id_conv)
  have "fold ls_free_bin [0..<Suc n] ls =
      drop_objs (?d @ obj_hash ls ! n) (ls\<lparr>meta_hash := mh[n := []]\<rparr>)"
    by (simp add: mh ls_free_bin_def fold_remove_free bin drop_objs_append drop_objs_meta)
  moreover have "?d @ obj_hash ls ! n = concat (take (Suc n) (obj_hash ls))"
    using Suc.prems by (simp add: take_Suc_conv_app_nth)
  ultimately show ?case by auto
qed

text \<open>
  \<^verbatim>\<open>ls_free\<close> frees every stored object exactly once and nothing else, and its final count
  is zero, so the error it would print for a wrong count cannot occur on a consistent store.
\<close>

theorem ls_free_releases_all:
  assumes "ls_inv ls"
  shows "num_obj (ls_free ls) = 0 \<and> stored (ls_free ls) = [] \<and>
    od_heap (ls_free ls) = (\<lambda>a. if a \<in> set (stored ls) then None else od_heap ls a)"
proof -
  note inv = ls_invD [OF assms]
  have "distinct (concat (obj_hash ls))" using inv(4) by (simp add: stored_def)
  from ls_free_prefix [OF this, of "size_hash ls"] inv(2)
  obtain mh where "ls_free ls = drop_objs (concat (obj_hash ls)) (ls\<lparr>meta_hash := mh\<rparr>)"
    by (auto simp: ls_free_def)
  moreover have "filter (\<lambda>a. \<forall>x\<in>set (obj_hash ls). a \<notin> set x) xs = []" if "xs \<in> set (obj_hash ls)" for xs
    using that by (auto simp: filter_empty_conv)
  ultimately show ?thesis
    using inv(6) by (auto simp: drop_objs_def stored_def)
qed

theorem ls_free_releases_all_witness: "num_obj (ls_free ex_store2) = 0 \<and> stored (ls_free ex_store2) = []"
  using ls_free_releases_all [OF ex_store2_inv] by simp

end
