(* ===== verification/Gdim.thy ===== *)
theory Gdim
  imports ObjDesc
begin

text \<open>
  Global dimensions of variables: the list of \<^verbatim>\<open>gdim_list_entry\<close> a client keeps and the
  functions on \<^verbatim>\<open>struct global_dimension\<close> of \<^verbatim>\<open>src/ss_data.c\<close>. The locale \<open>var_map\<close> states the map
  from variable names the list stands for; it is interpreted on the list operations.
\<close>

section \<open>Operations\<close>

text \<open>
  \<^verbatim>\<open>copy_global_dimension\<close> writes \<open>ndim\<close> sizes into an array of \<^verbatim>\<open>BBOX_MAX_NDIM\<close>; more
  dimensions than that are written past its end, which has no result.
\<close>

definition copy_global_dimension :: "int \<Rightarrow> u64 list \<Rightarrow> global_dimension option" where
  "copy_global_dimension ndim gd =
     (if nat ndim > BBOX_MAX_NDIM \<or> nat ndim > length gd then None
      else Some \<lparr>gd_ndim = ndim,
        gd_sizes = fold (\<lambda>i c. c[i := gd ! i]) [0..<nat ndim] (replicate BBOX_MAX_NDIM 0)\<rparr>)"

text \<open>\<^verbatim>\<open>get_global_dimensions\<close> copies the dimensions into the caller's array.\<close>

definition get_global_dimensions :: "global_dimension \<Rightarrow> u64 list \<Rightarrow> int \<times> u64 list" where
  "get_global_dimensions l gd =
     (gd_ndim l, fold (\<lambda>i g. g[i := gd_sizes l ! i]) [0..<nat (gd_ndim l)] gd)"

type_synonym gdim_list = "(string \<times> global_dimension) list"

definition init_gdim_list :: gdim_list where
  "init_gdim_list = []"

text \<open>\<^verbatim>\<open>free_gdim_list\<close> unlinks and frees every entry and counts them.\<close>

definition free_gdim_list :: "gdim_list \<Rightarrow> gdim_list \<times> nat" where
  "free_gdim_list l = fold (\<lambda>e (l, cnt). (remove1 e l, cnt + 1)) l (l, 0)"

definition lookup_gdim_list :: "gdim_list \<Rightarrow> string \<Rightarrow> global_dimension option" where
  "lookup_gdim_list l var_name = map_option snd (find (\<lambda>e. fst e = var_name) l)"

definition get_gdims :: "gdim_list \<Rightarrow> string \<Rightarrow> u64 list \<Rightarrow> int \<times> u64 list" where
  "get_gdims l var_name gd =
     (case lookup_gdim_list l var_name of
        None \<Rightarrow> (-1, gd)
      | Some g \<Rightarrow> (gd_ndim g, fold (\<lambda>i x. x[i := gd_sizes g ! i]) [0..<nat (gd_ndim g)] gd))"

text \<open>The entry found is overwritten in place; a new entry goes to the front of the list.\<close>

fun overwrite :: "string \<Rightarrow> global_dimension \<Rightarrow> gdim_list \<Rightarrow> gdim_list" where
  "overwrite nm g [] = []"
| "overwrite nm g (e # l) = (if fst e = nm then (fst e, g) # l else e # overwrite nm g l)"

definition put_gdim :: "gdim_list \<Rightarrow> string \<Rightarrow> global_dimension \<Rightarrow> gdim_list" where
  "put_gdim l var_name g =
     (if lookup_gdim_list l var_name = None then (var_name, g) # l else overwrite var_name g l)"

definition update_gdim_list :: "gdim_list \<Rightarrow> string \<Rightarrow> int \<Rightarrow> u64 list \<Rightarrow> gdim_list option" where
  "update_gdim_list l var_name ndim gd =
     map_option (put_gdim l var_name) (copy_global_dimension ndim gd)"

definition set_global_dimension :: "gdim_list \<Rightarrow> string \<Rightarrow> global_dimension \<Rightarrow> global_dimension" where
  "set_global_dimension l var_name default_gdim =
     (case lookup_gdim_list l var_name of Some g \<Rightarrow> g | None \<Rightarrow> default_gdim)"

definition global_dimension_equal :: "global_dimension \<Rightarrow> global_dimension \<Rightarrow> bool" where
  "global_dimension_equal gdim1 gdim2 \<longleftrightarrow>
     list_all (\<lambda>i. \<not> gd_sizes gdim1 ! i \<noteq> gd_sizes gdim2 ! i) [0..<nat (gd_ndim gdim1)]"

section \<open>The map interface\<close>

locale var_map =
  fixes empty :: 'l and lookup :: "'l \<Rightarrow> string \<Rightarrow> 'v option" and put :: "'l \<Rightarrow> string \<Rightarrow> 'v \<Rightarrow> 'l"
  assumes lookup_empty: "lookup empty x = None"
    and lookup_put: "lookup (put l x v) y = (if y = x then Some v else lookup l y)"
begin

lemma lookup_puts:
  "lookup (fold (\<lambda>(x, v) l. put l x v) xvs l) y =
     (case map_of (rev xvs) y of None \<Rightarrow> lookup l y | Some v \<Rightarrow> Some v)"
  by (induction xvs arbitrary: l) (auto simp: lookup_put map_add_def split: option.splits)

end

lemma lookup_overwrite:
  "lookup_gdim_list l x \<noteq> None \<Longrightarrow>
   lookup_gdim_list (overwrite x g l) y = (if y = x then Some g else lookup_gdim_list l y)"
  by (induction l) (auto simp: lookup_gdim_list_def)

interpretation gl: var_map init_gdim_list lookup_gdim_list put_gdim
proof
  show "lookup_gdim_list init_gdim_list x = None" for x
    by (simp add: lookup_gdim_list_def init_gdim_list_def)
  show "lookup_gdim_list (put_gdim l x v) y = (if y = x then Some v else lookup_gdim_list l y)" for l x v y
    by (auto simp: put_gdim_def lookup_overwrite) (auto simp: lookup_gdim_list_def)
qed

lemma take_map_nth: "k \<le> length xs \<Longrightarrow> map ((!) xs) [0..<k] = take k xs"
  by (rule nth_equalityI) simp_all

lemma copy_global_dimension_alt:
  "0 \<le> n \<Longrightarrow> nat n \<le> 10 \<Longrightarrow> nat n \<le> length gd \<Longrightarrow>
   copy_global_dimension n gd = Some \<lparr>gd_ndim = n, gd_sizes = take (nat n) gd @ replicate (10 - nat n) 0\<rparr>"
  by (simp add: copy_global_dimension_def BBOX_MAX_NDIM_def fold_upd_upt take_map_nth)

text \<open>
  C22: the dimensions set for a variable are the ones read back: after any sequence of updates,
  \<^verbatim>\<open>get_gdims\<close> and \<^verbatim>\<open>set_global_dimension\<close> give the latest ones of that variable, whatever
  was set for others in between.
\<close>

theorem gdim_update_read_back:
  assumes "0 \<le> n" "n \<le> 10" "nat n \<le> length gd" "nat n \<le> length out"
    and "map_of (rev later) x = None"
  shows "\<exists>l1. update_gdim_list l x n gd = Some l1 \<and>
    (let l2 = fold (\<lambda>(y, g) l. put_gdim l y g) later l1
     in get_gdims l2 x out = (n, take (nat n) gd @ drop (nat n) out) \<and>
        gd_ndim (set_global_dimension l2 x dflt) = n \<and>
        take (nat n) (gd_sizes (set_global_dimension l2 x dflt)) = take (nat n) gd)"
proof -
  let ?g = "\<lparr>gd_ndim = n, gd_sizes = take (nat n) gd @ replicate (10 - nat n) 0\<rparr>"
  have nn: "nat n \<le> 10" using assms(2) by simp
  have u: "update_gdim_list l x n gd = Some (put_gdim l x ?g)"
    using assms nn by (simp add: update_gdim_list_def copy_global_dimension_alt)
  have lk: "lookup_gdim_list (fold (\<lambda>(y, g) l. put_gdim l y g) later (put_gdim l x ?g)) x = Some ?g"
    using assms(5) by (simp add: gl.lookup_puts gl.lookup_put)
  have "map ((!) (take (nat n) gd @ replicate (10 - nat n) 0)) [0..<nat n] = take (nat n) gd"
    using assms(3) by (subst take_map_nth) simp_all
  then show ?thesis
    using assms(3,4) by (simp add: u get_gdims_def set_global_dimension_def lk fold_upd_upt)
qed

theorem gdim_update_read_back_witness:
  "\<exists>l1. update_gdim_list [(''y'', \<lparr>gd_ndim = 1, gd_sizes = [3]\<rparr>)] ''x'' 2 [8, 9] = Some l1 \<and>
    get_gdims (fold (\<lambda>(y, g) l. put_gdim l y g) [(''y'', \<lparr>gd_ndim = 0, gd_sizes = []\<rparr>)] l1) ''x'' [0, 0, 5] = (2, [8, 9, 5])"
  using gdim_update_read_back [of 2 "[8, 9]" "[0, 0, 5]" "[(''y'', \<lparr>gd_ndim = 0, gd_sizes = []\<rparr>)]" "''x''"
      "[(''y'', \<lparr>gd_ndim = 1, gd_sizes = [3]\<rparr>)]"]
  by (auto simp: Let_def)

text \<open>
  \<^verbatim>\<open>global_dimension_equal\<close> is not an equality: it compares only the dimensions of its first
  argument. It accepts a one-dimensional domain against a two-dimensional one with the same first
  size, and refuses the same pair the other way round.
\<close>

theorem global_dimension_equal_asymmetric:
  "let g1 = \<lparr>gd_ndim = 1, gd_sizes = 8 # replicate 9 0\<rparr>; g2 = \<lparr>gd_ndim = 2, gd_sizes = 8 # 4 # replicate 8 0\<rparr>
   in global_dimension_equal g1 g2 \<and> \<not> global_dimension_equal g2 g1"
  by code_simp

lemma global_dimension_equal_iff:
  assumes "gd_ndim g1 = gd_ndim g2"
  shows "global_dimension_equal g1 g2 \<longleftrightarrow> (\<forall>i<nat (gd_ndim g1). gd_sizes g1 ! i = gd_sizes g2 ! i)"
  by (auto simp: global_dimension_equal_def)

end
