(* ===== verification/Client.thy ===== *)
theory Client
  imports SSpace LocalStore Gdim
begin

text \<open>
  The state a client keeps (\<^verbatim>\<open>struct dspaces_client\<close> of \<^verbatim>\<open>src/dspaces-client.c\<close>), its choice of a
  server, its namespace and the descriptors it builds from the user's arguments. Character arrays
  are lists of characters that include the terminating zero; a write outside such an array is
  undefined behaviour and has no result. The lists of pending puts and of subscriptions are in
  theories of their own.
\<close>

section \<open>Character arrays\<close>

abbreviation NUL :: char where "NUL \<equiv> CHR 0x00"

abbreviation sep :: char where "sep \<equiv> CHR 0x5C"

definition OD_MAX_NAME_LEN :: nat where "OD_MAX_NAME_LEN = 150"

definition c_string :: "string \<Rightarrow> string" where
  "c_string buf = takeWhile (\<lambda>c. c \<noteq> NUL) buf"

text \<open>\<^verbatim>\<open>strncpy\<close> of the C library: exactly \<open>n\<close> characters are written, zeros after the end of the source.\<close>

definition strncpy :: "string \<Rightarrow> nat \<Rightarrow> string \<Rightarrow> nat \<Rightarrow> string option" where
  "strncpy dst dof src n =
     (if dof + n \<le> length dst
      then Some (take dof dst @ take n (src @ replicate n NUL) @ drop (dof + n) dst) else None)"

section \<open>State\<close>

record ss_info_hdr =
  si_num_dims :: int
  si_num_space_srv :: int
  si_ss_domain :: bbox
  si_max_versions :: int
  si_hash_version :: sspace_hash_version
  si_default_gdim :: global_dimension

record dc_gspace =
  dcg_info :: ss_info_hdr
  dcg_gdim_list :: gdim_list
  dcg_ls :: ss_storage

record dspaces_client =
  dcg :: dc_gspace
  server_address :: "string list"
  node_names :: "string list"
  my_node_name :: string
  my_server :: nat
  size_sp :: nat
  rank :: nat
  local_put_count :: int
  f_final :: bool
  listener_init :: bool
  nspace :: "string option"

abbreviation dcg_default_gdim :: "dspaces_client \<Rightarrow> global_dimension" where
  "dcg_default_gdim c \<equiv> si_default_gdim (dcg_info (dcg c))"

section \<open>Choosing a server\<close>

text \<open>
  The second loop of \<^verbatim>\<open>choose_server\<close> counts \<^verbatim>\<open>match_count\<close> down along the servers of the node;
  \<open>attach_loop\<close> walks the remaining node names from index \<open>i\<close> on.
\<close>

fun attach_loop :: "string \<Rightarrow> string list \<Rightarrow> nat \<Rightarrow> nat \<Rightarrow> nat option" where
  "attach_loop me [] match_count i = None"
| "attach_loop me (n # ns) match_count i =
     (if me = n then if match_count = 0 then Some i else attach_loop me ns (match_count - 1) (i + 1)
      else attach_loop me ns match_count (i + 1))"

text \<open>
  \<open>hostname\<close> is what \<^verbatim>\<open>gethostname\<close> gives. Without a server on the node the rank is taken modulo the
  number of servers, which must not be zero.
\<close>

definition choose_server :: "string \<Rightarrow> dspaces_client \<Rightarrow> dspaces_client option" where
  "choose_server hostname c =
     (let c = c\<lparr>my_node_name := hostname\<rparr>;
          names = take (size_sp c) (node_names c);
          match_count = length (filter (\<lambda>n. my_node_name c = n) names)
      in if match_count \<noteq> 0
         then case attach_loop (my_node_name c) names (rank c mod match_count) 0 of
                Some i \<Rightarrow> Some (c\<lparr>my_server := i\<rparr>) | None \<Rightarrow> Some c
         else if size_sp c = 0 then None else Some (c\<lparr>my_server := rank c mod size_sp c\<rparr>))"

section \<open>Set-up\<close>

definition install_ss_info :: "dspaces_client \<Rightarrow> ss_info_hdr \<Rightarrow> dspaces_client" where
  "install_ss_info c ss_data = c\<lparr>dcg := (dcg c)\<lparr>dcg_info :=
     \<lparr>si_num_dims = si_num_dims ss_data, si_num_space_srv = si_num_space_srv ss_data,
      si_ss_domain = si_ss_domain ss_data, si_max_versions = si_max_versions ss_data,
      si_hash_version = si_hash_version ss_data, si_default_gdim = si_default_gdim ss_data\<rparr>\<rparr>\<rparr>"

definition dspaces_set_namespace :: "dspaces_client \<Rightarrow> string \<Rightarrow> dspaces_client" where
  "dspaces_set_namespace c ns = c\<lparr>nspace := Some ns\<rparr>"

section \<open>Global dimensions\<close>

text \<open>
  With a namespace the qualified name is printed into a buffer of
  \<^verbatim>\<open>strlen(client->nspace + strlen(var_name) + 2)\<close> bytes: the length is that of the part of the namespace
  behind an offset, not that of the two names. An offset behind the end of the namespace, or a name
  that does not fit the buffer, has no result.
\<close>

definition fq_vname :: "dspaces_client \<Rightarrow> string \<Rightarrow> string option" where
  "fq_vname c var_name =
     (case nspace c of
        None \<Rightarrow> Some var_name
      | Some ns \<Rightarrow>
          if length var_name + 2 \<le> length ns
          then let n = length (drop (length var_name + 2) ns)
               in if length (ns @ sep # var_name) + 1 \<le> n then Some (ns @ sep # var_name) else None
          else None)"

definition dspaces_define_gdim :: "dspaces_client \<Rightarrow> string \<Rightarrow> int \<Rightarrow> u64 list \<Rightarrow> dspaces_client option" where
  "dspaces_define_gdim c var_name ndim gdims =
     Option.bind (fq_vname c var_name) (\<lambda>fq.
       if ndim > int BBOX_MAX_NDIM then Some c
       else map_option (\<lambda>l. c\<lparr>dcg := (dcg c)\<lparr>dcg_gdim_list := l\<rparr>\<rparr>)
              (update_gdim_list (dcg_gdim_list (dcg c)) fq ndim gdims))"

definition dspaces_get_gdim :: "dspaces_client \<Rightarrow> string \<Rightarrow> u64 list \<Rightarrow> (int \<times> u64 list) option" where
  "dspaces_get_gdim c var_name gdims =
     Option.bind (fq_vname c var_name) (\<lambda>fq.
       Some (get_global_dimensions
         (set_global_dimension (dcg_gdim_list (dcg c)) fq (dcg_default_gdim c)) gdims))"

section \<open>Descriptors\<close>

text \<open>\<open>buf\<close> is the name array of the descriptor before the call.\<close>

definition copy_var_name_to_odsc :: "dspaces_client \<Rightarrow> string \<Rightarrow> string \<Rightarrow> string option" where
  "copy_var_name_to_odsc c var_name buf =
     map_option (\<lambda>b. b[OD_MAX_NAME_LEN - 1 := NUL])
       (case nspace c of
          Some ns \<Rightarrow> Option.bind (strncpy buf 0 ns (OD_MAX_NAME_LEN - 1)) (\<lambda>b.
            if length ns < length b
            then strncpy (b[length ns := sep]) (length ns + 1) var_name (OD_MAX_NAME_LEN - length ns - 1)
            else None)
        | None \<Rightarrow> strncpy buf 0 var_name (OD_MAX_NAME_LEN - 1))"

text \<open>
  The bounds are cleared and then filled by \<^verbatim>\<open>memcpy\<close> of \<open>ndim\<close> numbers into an array of
  \<^verbatim>\<open>BBOX_MAX_NDIM\<close>; a negative \<open>ndim\<close> is a huge size.
\<close>

definition fill_bb :: "int \<Rightarrow> u64 list \<Rightarrow> u64 list \<Rightarrow> bbox option" where
  "fill_bb ndim l u =
     (if 0 \<le> ndim \<and> nat ndim \<le> BBOX_MAX_NDIM \<and> nat ndim \<le> length l \<and> nat ndim \<le> length u
      then Some \<lparr>num_dims = ndim,
        lb = take (nat ndim) l @ replicate (BBOX_MAX_NDIM - nat ndim) 0,
        ub = take (nat ndim) u @ replicate (BBOX_MAX_NDIM - nat ndim) 0\<rparr>
      else None)"

definition client_st :: storage_type where "client_st = column_major"

definition fill_odsc :: "dspaces_client \<Rightarrow> string \<Rightarrow> u32 \<Rightarrow> int \<Rightarrow> int \<Rightarrow> u64 list \<Rightarrow> u64 list \<Rightarrow> string \<Rightarrow>
    obj_descriptor \<Rightarrow> obj_descriptor option" where
  "fill_odsc c var_name ver elem_size ndim l u buf odsc =
     Option.bind (fill_bb ndim l u) (\<lambda>bb.
     Option.bind (copy_var_name_to_odsc c var_name buf) (\<lambda>b.
       Some (odsc\<lparr>od_version := ver, od_owner := '''', od_st := client_st, od_size := of_int elem_size,
         od_bb := bb, od_name := c_string b\<rparr>)))"

record dspaces_req =
  rq_var_name :: string
  rq_ver :: u32
  rq_elem_size :: int
  rq_ndim :: int
  rq_lb :: "u64 list"
  rq_ub :: "u64 list"
  rq_buf :: "byte list option"
  rq_tag :: int

definition odsc_from_req :: "dspaces_client \<Rightarrow> dspaces_req \<Rightarrow> string \<Rightarrow> obj_descriptor \<Rightarrow> obj_descriptor option" where
  "odsc_from_req c req buf odsc =
     fill_odsc c (rq_var_name req) (rq_ver req) (rq_elem_size req) (rq_ndim req) (rq_lb req) (rq_ub req) buf odsc"

text \<open>
  \<^verbatim>\<open>fill_req\<close> reads the name back from offset \<^verbatim>\<open>strlen(client->nspace) + 2\<close>; when that is behind the
  terminating zero of the name, \<^verbatim>\<open>strdup\<close> copies what follows it.
\<close>

definition fill_req :: "dspaces_client \<Rightarrow> obj_descriptor \<Rightarrow> byte list option \<Rightarrow> dspaces_req option" where
  "fill_req c odsc d =
     Option.bind (case nspace c of
         Some ns \<Rightarrow> if length ns + 2 \<le> length (od_name odsc)
                   then Some (drop (length ns + 2) (od_name odsc)) else None
       | None \<Rightarrow> Some (od_name odsc)) (\<lambda>nm.
     Some \<lparr>rq_var_name = nm, rq_ver = od_version odsc,
       rq_elem_size = sint (ucast (od_size odsc) :: 32 word), rq_ndim = num_dims (od_bb odsc),
       rq_lb = map (\<lambda>i. lb (od_bb odsc) ! i) [0..<ndims (od_bb odsc)],
       rq_ub = map (\<lambda>i. ub (od_bb odsc) ! i) [0..<ndims (od_bb odsc)],
       rq_buf = d, rq_tag = od_tag odsc\<rparr>)"

section \<open>The choice of a server\<close>

lemma upt_Suc_front: "[0..<Suc n] = 0 # map Suc [0..<n]"
  by (simp add: map_Suc_upt upt_conv_Cons del: upt_Suc)

lemma length_filter_nth: "length (filter (\<lambda>j. P (xs ! j)) [0..<length xs]) = length (filter P xs)"
  by (induction xs) (simp_all add: upt_Suc_front filter_map o_def del: upt_Suc)

text \<open>The indices of the servers on a node.\<close>

abbreviation on_node :: "string \<Rightarrow> string list \<Rightarrow> nat list" where
  "on_node me ns \<equiv> filter (\<lambda>j. ns ! j = me) [0..<length ns]"

lemma length_on_node: "length (on_node me ns) = length (filter (\<lambda>n. me = n) ns)"
  by (simp add: length_filter_nth [where P = "\<lambda>n. n = me"] eq_commute [of me])

lemma attach_loop_nth:
  "k < length (on_node me ns) \<Longrightarrow> attach_loop me ns k i = Some (i + on_node me ns ! k)"
proof (induction ns arbitrary: k i)
  case (Cons n ns)
  have eq: "on_node me (n # ns) = (if n = me then [0] else []) @ map Suc (on_node me ns)"
    by (simp add: upt_Suc_front filter_map o_def del: upt_Suc)
  show ?case using Cons.prems Cons.IH [of "if n = me then k - 1 else k" "Suc i"] unfolding eq
    by (cases k) (auto split: if_splits)
qed simp

text \<open>
  A client attaches to a server of its own node whenever there is one, and the clients of a
  node are spread over its servers in turn: the clients of ranks \<open>r\<close> and \<open>r'\<close> share a server exactly
  when the ranks agree modulo the number of servers of the node. Without such a server the ranks
  are taken modulo the number of all servers.
\<close>

theorem choose_server_spreads:
  assumes "0 < size_sp c" "size_sp c \<le> length (node_names c)"
  shows "let on = on_node host (take (size_sp c) (node_names c)) in \<exists>s. choose_server host c = Some (c\<lparr>my_node_name := host, my_server := s\<rparr>) \<and> s < size_sp c \<and>
    (if on = [] then s = rank c mod size_sp c
     else node_names c ! s = host \<and> s = on ! (rank c mod length on)) \<and>
    (\<forall>r. map_option my_server (choose_server host (c\<lparr>rank := r\<rparr>)) = Some s \<longleftrightarrow>
       (if on = [] then r mod size_sp c = rank c mod size_sp c
        else r mod length on = rank c mod length on))"
proof -
  let ?ns = "take (size_sp c) (node_names c)"
  define on where "on = on_node host ?ns"
  let ?s = "\<lambda>r. if on = [] then r mod size_sp c else on ! (r mod length on)"
  have n: "length (filter (\<lambda>n. host = n) ?ns) = length on"
    unfolding on_def by (rule length_on_node [symmetric])
  then have ne: "filter (\<lambda>n. host = n) ?ns = [] \<longleftrightarrow> on = []" by (metis length_0_conv)
  have at: "attach_loop host ?ns (r mod length on) 0 = Some (on ! (r mod length on))" if "on \<noteq> []" for r
    using attach_loop_nth [where k = "r mod length on" and me = host and ns = ?ns and i = 0] that
    unfolding on_def [symmetric] by (simp add: mod_less_divisor)
  have "choose_server host (c\<lparr>rank := r\<rparr>) = Some (c\<lparr>rank := r, my_node_name := host, my_server := ?s r\<rparr>)" for r
    using assms(1) at [of r] by (cases "on = []") (simp_all add: choose_server_def Let_def n ne del: filter_empty_conv)
  from this this [of "rank c"]
  have cs: "map_option my_server (choose_server host (c\<lparr>rank := r\<rparr>)) = Some (?s r)"
      "choose_server host c = Some (c\<lparr>my_node_name := host, my_server := ?s (rank c)\<rparr>)" for r
    by simp_all
  have "on ! (rank c mod length on) \<in> set on" if "on \<noteq> []"
    using that by (simp add: mod_less_divisor)
  moreover have "set on \<subseteq> {j. j < size_sp c \<and> node_names c ! j = host}"
    using assms(2) by (auto simp: on_def)
  ultimately have "on ! (rank c mod length on) < size_sp c \<and> node_names c ! (on ! (rank c mod length on)) = host"
    if "on \<noteq> []" using that by blast
  moreover have "distinct on" by (simp add: on_def)
  ultimately show ?thesis
    using assms(1) unfolding Let_def on_def [symmetric] cs
    by (auto simp: nth_eq_iff_index_eq mod_less_divisor)
qed

definition ex_client :: "string option \<Rightarrow> dspaces_client" where
  "ex_client ns =
     \<lparr>dcg = \<lparr>dcg_info = \<lparr>si_num_dims = 1, si_num_space_srv = 3, si_ss_domain = mk_box [0] [7],
               si_max_versions = 2, si_hash_version = hash_version_v2,
               si_default_gdim = \<lparr>gd_ndim = 1, gd_sizes = 8 # replicate 9 0\<rparr>\<rparr>,
             dcg_gdim_list = init_gdim_list, dcg_ls = ls_alloc 2\<rparr>,
      server_address = [''s0'', ''s1'', ''s2''], node_names = [''a'', ''b'', ''b''], my_node_name = '''',
      my_server = 0, size_sp = 3, rank = 3, local_put_count = 0, f_final = False, listener_init = False,
      nspace = ns\<rparr>"

theorem choose_server_spreads_witness:
  "map_option my_server (choose_server ''b'' (ex_client None)) = Some 2 \<and>
   map_option my_server (choose_server ''b'' ((ex_client None)\<lparr>rank := 5\<rparr>)) = Some 2"
proof -
  have on: "on_node ''b'' (take (size_sp (ex_client None)) (node_names (ex_client None))) = [1, 2]"
    by code_simp
  have c: "0 < size_sp (ex_client None)" "size_sp (ex_client None) \<le> length (node_names (ex_client None))"
      "rank (ex_client None) = 3"
    by (simp_all add: ex_client_def)
  obtain s where "choose_server ''b'' (ex_client None) = Some ((ex_client None)\<lparr>my_node_name := ''b'', my_server := s\<rparr>)"
      "s = [1, 2] ! (3 mod length [1, 2 :: nat])"
      "map_option my_server (choose_server ''b'' ((ex_client None)\<lparr>rank := 5\<rparr>)) = Some s \<longleftrightarrow>
        5 mod length [1, 2 :: nat] = 3 mod length [1, 2 :: nat]"
    using choose_server_spreads [OF c(1,2), of "''b''"] unfolding on Let_def c(3) by auto
  moreover have "[1, 2] ! (3 mod length [1, 2 :: nat]) = (2 :: nat)" "5 mod length [1, 2 :: nat] = 3 mod length [1, 2 :: nat]"
    by code_simp+
  ultimately show ?thesis by simp
qed

section \<open>Names\<close>

text \<open>The name of a variable in the client's namespace.\<close>

definition qual_name :: "string option \<Rightarrow> string \<Rightarrow> string" where
  "qual_name ns var_name = (case ns of None \<Rightarrow> var_name | Some n \<Rightarrow> n @ sep # var_name)"

lemma c_string_NUL: "c_string (x @ NUL # y) = c_string x"
  by (induction x) (simp_all add: c_string_def)

lemma c_string_pad: "NUL \<notin> set u \<Longrightarrow> c_string (u @ replicate k NUL) = u"
  by (induction u) (auto simp: c_string_def)

lemma take_pad: "take n (x @ replicate n NUL) = take n x @ replicate (n - length x) NUL"
  by simp

lemma set_last_NUL: "length b = 150 \<Longrightarrow> c_string (b[149 := NUL]) = c_string (take 149 b)"
  by (simp add: upd_conv_take_nth_drop c_string_NUL)

lemma copy_var_name:
  assumes "length buf = 150" "NUL \<notin> set var_name" "\<forall>ns. nspace c = Some ns \<longrightarrow> NUL \<notin> set ns \<and> length ns < 150"
  shows "\<exists>b. copy_var_name_to_odsc c var_name buf = Some b \<and> length b = 150 \<and>
    c_string b = take 149 (qual_name (nspace c) var_name)"
proof (cases "nspace c")
  case None
  have "NUL \<notin> set (take 149 var_name)" using assms(2) by (meson in_set_takeD)
  then have "c_string (take 149 (take 149 (var_name @ replicate 149 NUL) @ drop 149 buf)) = take 149 var_name"
    by (simp add: c_string_pad)
  with None show ?thesis
    using assms(1)
    by (simp add: copy_var_name_to_odsc_def strncpy_def OD_MAX_NAME_LEN_def qual_name_def set_last_NUL)
next
  case (Some ns)
  then have ns: "NUL \<notin> set ns" "length ns < 150" using assms(3) by auto
  let ?b = "take 149 (ns @ replicate 149 NUL) @ drop 149 buf"
  have b: "take (Suc (length ns)) (?b[length ns := sep]) = ns @ [sep]"
    using ns(2) assms(1)
    by (intro nth_equalityI) (auto simp: nth_append nth_list_update less_Suc_eq)
  let ?v = "take (149 - length ns) (var_name @ replicate (149 - length ns) NUL)"
  have len: "length ?b = 150" using assms(1) by simp
  have "copy_var_name_to_odsc c var_name buf = Some ((ns @ [sep] @ ?v)[149 := NUL])"
    using ns(2) assms(1) b
    by (simp add: copy_var_name_to_odsc_def strncpy_def OD_MAX_NAME_LEN_def Some len)
  moreover have "length (ns @ [sep] @ ?v) = 150" using ns(2) by simp
  moreover have "c_string (take 149 (ns @ [sep] @ ?v)) = take 149 (ns @ sep # var_name)"
  proof -
    let ?x = "ns @ [sep] @ take (149 - length ns) var_name"
    have "ns @ [sep] @ ?v = ?x @ replicate (149 - length ns - length var_name) NUL" unfolding take_pad by simp
    moreover have "NUL \<notin> set (take 149 ?x)" using ns(1) assms(2) by (auto dest!: in_set_takeD)
    moreover have "take 149 ?x = take 149 (ns @ sep # var_name)" using ns(2) by (auto simp: take_Cons')
    ultimately show ?thesis by (metis c_string_pad take_append take_replicate)
  qed
  ultimately show ?thesis by (simp add: Some qual_name_def set_last_NUL)
qed

lemma fill_odsc_Some:
  assumes "length buf = 150" "NUL \<notin> set var_name" "\<forall>ns. nspace c = Some ns \<longrightarrow> NUL \<notin> set ns \<and> length ns < 150"
    and "0 \<le> ndim" "ndim \<le> 10" "nat ndim \<le> length l" "nat ndim \<le> length u"
  shows "fill_odsc c var_name ver elem_size ndim l u buf odsc =
    Some (odsc\<lparr>od_version := ver, od_owner := '''', od_st := client_st, od_size := of_int elem_size,
      od_bb := \<lparr>num_dims = ndim, lb = take (nat ndim) l @ replicate (10 - nat ndim) 0,
                ub = take (nat ndim) u @ replicate (10 - nat ndim) 0\<rparr>,
      od_name := take 149 (qual_name (nspace c) var_name)\<rparr>)"
  using copy_var_name [OF assms(1-3)] assms(4-)
  by (auto simp: fill_odsc_def fill_bb_def BBOX_MAX_NDIM_def)

lemma sint_of_int_u64:
  assumes "- 2147483648 \<le> i" "i < 2147483648"
  shows "sint (ucast (of_int i :: u64) :: 32 word) = i"
proof -
  have "(ucast (of_int i :: u64) :: 32 word) = of_int i"
    by (rule bit_word_eqI) (simp add: bit_simps)
  moreover have "signed_take_bit 31 i = i" using assms by (intro signed_take_bit_int_eq_self) simp_all
  ultimately show ?thesis by (simp add: sint_uint uint_word_of_int_eq signed_take_bit_take_bit)
qed

text \<open>
  C25: \<^verbatim>\<open>fill_req\<close> undoes \<^verbatim>\<open>odsc_from_req\<close> when the client has no namespace: the request comes
  back as it was, with the buffer and the tag of the answer. With a namespace the name that comes
  back lacks its first character, because the separator is one character and two are skipped.
\<close>

theorem fill_req_odsc_from_req:
  assumes "length buf = 150" "NUL \<notin> set (rq_var_name req)" "rq_var_name req \<noteq> []"
    and "\<forall>ns. nspace c = Some ns \<longrightarrow> NUL \<notin> set ns"
    and "length (qual_name (nspace c) (rq_var_name req)) \<le> 149"
    and "0 \<le> rq_ndim req" "rq_ndim req \<le> 10"
    and "length (rq_lb req) = nat (rq_ndim req)" "length (rq_ub req) = nat (rq_ndim req)"
    and "- 2147483648 \<le> rq_elem_size req" "rq_elem_size req < 2147483648"
  shows "Option.bind (odsc_from_req c req buf odsc) (\<lambda>q. fill_req c q d) =
    Some (req\<lparr>rq_var_name := (case nspace c of None \<Rightarrow> rq_var_name req | Some _ \<Rightarrow> tl (rq_var_name req)),
      rq_buf := d, rq_tag := od_tag odsc\<rparr>)"
proof -
  have ns: "\<forall>ns. nspace c = Some ns \<longrightarrow> NUL \<notin> set ns \<and> length ns < 150"
    using assms(4,5) by (auto simp: qual_name_def)
  have bounds: "map (\<lambda>i. (x @ y) ! i) [0..<length x] = x" for x y :: "u64 list"
    by (rule nth_equalityI) (simp_all add: nth_append)
  have q: "odsc_from_req c req buf odsc =
    Some (odsc\<lparr>od_version := rq_ver req, od_owner := '''', od_st := client_st, od_size := of_int (rq_elem_size req),
      od_bb := \<lparr>num_dims = rq_ndim req, lb = rq_lb req @ replicate (10 - nat (rq_ndim req)) 0,
                ub = rq_ub req @ replicate (10 - nat (rq_ndim req)) 0\<rparr>,
      od_name := qual_name (nspace c) (rq_var_name req)\<rparr>)"
    unfolding odsc_from_req_def using assms(5-9)
    by (subst fill_odsc_Some [OF assms(1,2) ns]) simp_all
  have nm: "drop (Suc (Suc (length x))) (x @ sep # rq_var_name req) = tl (rq_var_name req)" for x
    using assms(3) by (cases "rq_var_name req") simp_all
  have len: "Suc 0 \<le> length (rq_var_name req)" using assms(3) by (cases "rq_var_name req") simp_all
  show ?thesis
    unfolding q using assms(6) bounds [of "rq_lb req"] bounds [of "rq_ub req"] nm len sint_of_int_u64 [OF assms(10,11)]
    by (auto simp: fill_req_def qual_name_def assms(8,9) simp del: drop_append split: option.splits)
qed

theorem fill_req_odsc_from_req_witness:
  "Option.bind (odsc_from_req (ex_client (Some ''ns''))
      \<lparr>rq_var_name = ''temp'', rq_ver = 3, rq_elem_size = 8, rq_ndim = 1, rq_lb = [0], rq_ub = [7], rq_buf = None, rq_tag = 0\<rparr>
      (replicate 150 NUL) (obj_desc (ex_obj (mk_box [0] [1]) []))) (\<lambda>q. fill_req (ex_client (Some ''ns'')) q (Some [5])) =
   Some \<lparr>rq_var_name = ''emp'', rq_ver = 3, rq_elem_size = 8, rq_ndim = 1, rq_lb = [0], rq_ub = [7],
     rq_buf = Some [5], rq_tag = 0\<rparr>"
  by (subst fill_req_odsc_from_req)
    (simp_all add: ex_client_def qual_name_def ex_obj_def obj_data_blank_def)

text \<open>
  Once a namespace is set, neither \<^verbatim>\<open>dspaces_define_gdim\<close> nor \<^verbatim>\<open>dspaces_get_gdim\<close> can run:
  the buffer for the qualified name is smaller than the name for every namespace and every
  variable, so the name is always printed outside it.
\<close>

theorem gdim_namespace_overflows:
  "dspaces_define_gdim (dspaces_set_namespace c ns) var_name ndim gdims = None \<and>
   dspaces_get_gdim (dspaces_set_namespace c ns) var_name gdims = None"
  by (auto simp: dspaces_define_gdim_def dspaces_get_gdim_def fq_vname_def dspaces_set_namespace_def Let_def)

end
