(* ===== verification/ClientIO.thy ===== *)
theory ClientIO
  imports Client
begin

text \<open>
  Puts and gets of a client (\<^verbatim>\<open>src/dspaces-client.c\<close>). Margo, Mercury and LZ4 are libraries: a call
  that can fail is an argument that gives its return code, a remote procedure call is an argument
  that maps the request and the world to the world after it, and LZ4 is an argument from the
  compressed bytes to the result. A buffer access outside the buffer has no result.
\<close>

section \<open>Remote procedure calls\<close>

definition HG_SUCCESS :: int where "HG_SUCCESS = 0"
definition dspaces_SUCCESS :: int where "dspaces_SUCCESS = 0"
definition dspaces_ERR_MERCURY :: int where "dspaces_ERR_MERCURY = -3"

record ('i, 'o, 'w) margo =
  m_bulk_create :: "'w \<Rightarrow> int"
  m_create :: "string \<Rightarrow> 'w \<Rightarrow> int"
  m_forward :: "string \<Rightarrow> 'i \<Rightarrow> 'w \<Rightarrow> int \<times> 'w"
  m_get_output :: "'w \<Rightarrow> int \<times> 'o"

record bulk_out_t =
  bo_ret :: int
  bo_len :: u64

text \<open>The calls \<^verbatim>\<open>margo_create\<close>, \<^verbatim>\<open>margo_forward\<close> and \<^verbatim>\<open>margo_get_output\<close> every request makes.\<close>

definition rpc_call :: "('i, 'o, 'w) margo \<Rightarrow> string \<Rightarrow> 'i \<Rightarrow> 'w \<Rightarrow> 'o option \<times> 'w" where
  "rpc_call m addr inp w =
     (if m_create m addr w \<noteq> HG_SUCCESS then (None, w)
      else let (hret, w) = m_forward m addr inp w
           in if hret \<noteq> HG_SUCCESS then (None, w)
              else let (hret, out) = m_get_output m w
                   in if hret \<noteq> HG_SUCCESS then (None, w) else (Some out, w))"

definition get_server_address :: "dspaces_client \<Rightarrow> string option" where
  "get_server_address c =
     (if my_server c < length (server_address c) then Some (server_address c ! my_server c) else None)"

definition get_meta_server_address :: "dspaces_client \<Rightarrow> string option" where
  "get_meta_server_address c = (if server_address c = [] then None else Some (server_address c ! 0))"

definition get_ss_info :: "(unit, ss_info_hdr, 'w) margo \<Rightarrow> dspaces_client \<Rightarrow> 'w \<Rightarrow>
    ((int \<times> ss_info_hdr option) \<times> 'w) option" where
  "get_ss_info m c w =
     map_option (\<lambda>addr. case rpc_call m addr () w of
         (None, w) \<Rightarrow> ((dspaces_ERR_MERCURY, None), w)
       | (Some out, w) \<Rightarrow> ((dspaces_SUCCESS, Some out), w)) (get_server_address c)"

definition init_ss_info :: "(unit, ss_info_hdr, 'w) margo \<Rightarrow> dspaces_client \<Rightarrow> 'w \<Rightarrow>
    (int \<times> dspaces_client \<times> 'w) option" where
  "init_ss_info m c w =
     map_option (\<lambda>((ret, d), w). case d of
         Some ss_data \<Rightarrow> (ret, (if ret = dspaces_SUCCESS then install_ss_info c ss_data else c), w)
       | None \<Rightarrow> (ret, c, w)) (get_ss_info m c w)"

section \<open>Puts\<close>

text \<open>\<^verbatim>\<open>bulk_gdim_t\<close>: descriptor, global dimensions and the bytes the bulk handle exposes.\<close>

record bulk_gdim_t =
  bg_odsc :: obj_descriptor
  bg_gdim :: global_dimension
  bg_data :: "byte list"

definition type_to_size_map :: "int list" where
  "type_to_size_map = [0, 4, 4, 8, 8, 1, 1, 4, 8, 1, 1, 2, 4, 8, 1, 2, 4, 8]"

definition type_to_size :: "int \<Rightarrow> int option" where
  "type_to_size type_id =
     (if type_id \<ge> 0 then Some (-1)
      else if nat (- type_id) < length type_to_size_map then Some (type_to_size_map ! nat (- type_id))
      else None)"

text \<open>The bytes of the caller's buffer that a bulk handle of the given size exposes.\<close>

definition expose :: "byte list \<Rightarrow> u64 \<Rightarrow> byte list option" where
  "expose buf n = (if unat n \<le> length buf then Some (take (unat n) buf) else None)"

text \<open>
  The descriptor of a put is initialised field by field; fields it does not name are zero. In
  \<^verbatim>\<open>dspaces_put_tag\<close> the local \<^verbatim>\<open>type\<close> is set only for a negative element size; \<open>utype\<close> is the value
  it has before. The name array starts as zeros.
\<close>

definition put_odsc :: "dspaces_client \<Rightarrow> string \<Rightarrow> u32 \<Rightarrow> int \<Rightarrow> int \<Rightarrow> int \<Rightarrow> u32 \<Rightarrow> int \<Rightarrow> u64 list \<Rightarrow> u64 list \<Rightarrow>
    obj_descriptor option" where
  "put_odsc c var_name ver elem_size tag ty flags ndim l u =
     Option.bind (fill_bb ndim l u) (\<lambda>bb.
     Option.bind (copy_var_name_to_odsc c var_name (replicate OD_MAX_NAME_LEN NUL)) (\<lambda>b.
       Some \<lparr>od_name = c_string b, od_st = client_st, od_flags = flags, od_tag = tag, od_type = ty,
         od_owner = '''', od_version = ver, od_bb = bb, od_size = of_int elem_size\<rparr>))"

definition put_request :: "dspaces_client \<Rightarrow> obj_descriptor \<Rightarrow> int \<Rightarrow> byte list \<Rightarrow> bulk_gdim_t option" where
  "put_request c odsc elem_size d =
     map_option (\<lambda>bytes. \<lparr>bg_odsc = odsc,
         bg_gdim = set_global_dimension (dcg_gdim_list (dcg c)) (od_name odsc) (dcg_default_gdim c),
         bg_data = bytes\<rparr>)
       (expose d (of_int elem_size * bbox_volume (od_bb odsc)))"

definition dspaces_put_tag :: "(bulk_gdim_t, bulk_out_t, 'w) margo \<Rightarrow> int \<Rightarrow> dspaces_client \<Rightarrow> string \<Rightarrow> u32 \<Rightarrow>
    int \<Rightarrow> int \<Rightarrow> int \<Rightarrow> u64 list \<Rightarrow> u64 list \<Rightarrow> byte list \<Rightarrow> 'w \<Rightarrow> (int \<times> 'w) option" where
  "dspaces_put_tag m utype c var_name ver elem_size tag ndim l u d w =
     Option.bind (if elem_size < 0 then map_option (\<lambda>s. (elem_size, s)) (type_to_size elem_size)
                  else Some (utype, elem_size)) (\<lambda>(ty, elem_size).
     Option.bind (put_odsc c var_name ver elem_size tag ty 0 ndim l u) (\<lambda>odsc.
     Option.bind (put_request c odsc elem_size d) (\<lambda>inp.
       if m_bulk_create m w \<noteq> HG_SUCCESS then Some (dspaces_ERR_MERCURY, w)
       else map_option (\<lambda>addr. case rpc_call m addr inp w of
                (None, w) \<Rightarrow> (dspaces_ERR_MERCURY, w) | (Some out, w) \<Rightarrow> (bo_ret out, w))
              (get_server_address c))))"

definition dspaces_put :: "(bulk_gdim_t, bulk_out_t, 'w) margo \<Rightarrow> int \<Rightarrow> dspaces_client \<Rightarrow> string \<Rightarrow> u32 \<Rightarrow>
    int \<Rightarrow> int \<Rightarrow> u64 list \<Rightarrow> u64 list \<Rightarrow> byte list \<Rightarrow> 'w \<Rightarrow> (int \<times> 'w) option" where
  "dspaces_put m utype c var_name ver elem_size ndim l u d w =
     dspaces_put_tag m utype c var_name ver elem_size 0 ndim l u d w"

record put_meta_in_t =
  pm_name :: string
  pm_length :: u32
  pm_version :: int
  pm_data :: "byte list"

definition dspaces_put_meta :: "(put_meta_in_t, bulk_out_t, 'w) margo \<Rightarrow> dspaces_client \<Rightarrow> string \<Rightarrow> int \<Rightarrow>
    byte list \<Rightarrow> u32 \<Rightarrow> 'w \<Rightarrow> (int \<times> 'w) option" where
  "dspaces_put_meta m c nm version d len w =
     Option.bind (expose d (ucast len)) (\<lambda>bytes.
       if m_bulk_create m w \<noteq> HG_SUCCESS then Some (dspaces_ERR_MERCURY, w)
       else map_option (\<lambda>addr.
              case rpc_call m addr \<lparr>pm_name = nm, pm_length = len, pm_version = version, pm_data = bytes\<rparr> w of
                (None, w) \<Rightarrow> (dspaces_ERR_MERCURY, w) | (Some out, w) \<Rightarrow> (bo_ret out, w))
              (get_meta_server_address c))"

text \<open>
  A local put keeps the data in the client's own store and tells the server. \<open>listener_ret\<close> is the
  result of starting the listener thread, \<open>self\<close> the client's address and \<open>a\<close> the address of the new
  object.
\<close>

record odsc_gdim_t =
  og_odsc :: obj_descriptor
  og_gdim :: global_dimension
  og_param :: int

definition dspaces_put_local :: "(odsc_gdim_t, bulk_out_t, 'w) margo \<Rightarrow> int \<Rightarrow> string \<Rightarrow> (nat \<Rightarrow> byte) \<Rightarrow> int \<Rightarrow>
    oaddr \<Rightarrow> dspaces_client \<Rightarrow> string \<Rightarrow> u32 \<Rightarrow> int \<Rightarrow> int \<Rightarrow> u64 list \<Rightarrow> u64 list \<Rightarrow> byte list \<Rightarrow> 'w \<Rightarrow>
    (int \<times> dspaces_client \<times> 'w) option" where
  "dspaces_put_local m listener_ret self junk param a c var_name ver elem_size ndim l u d w =
     (if \<not> listener_init c \<and> listener_ret \<noteq> dspaces_SUCCESS then Some (listener_ret, c, w)
      else
       let c = c\<lparr>listener_init := True, local_put_count := local_put_count c + 1\<rparr> in
       Option.bind (put_odsc c var_name ver elem_size 0 0 DS_CLIENT_STORAGE ndim l u) (\<lambda>odsc.
       let odsc = odsc\<lparr>od_owner := self\<rparr> in
       Option.bind (obj_data_alloc_with_data junk odsc d) (\<lambda>od.
       let od = od\<lparr>gdim := set_global_dimension (dcg_gdim_list (dcg c)) (od_name odsc) (dcg_default_gdim c)\<rparr>;
           ls = dcg_ls (dcg c);
           c = c\<lparr>dcg := (dcg c)\<lparr>dcg_ls := ls_add_obj (ls\<lparr>od_heap := (od_heap ls)(a \<mapsto> od)\<rparr>) a\<rparr>\<rparr>
       in map_option (\<lambda>addr.
            case rpc_call m addr \<lparr>og_odsc = odsc, og_gdim = gdim od, og_param = param\<rparr> w of
              (None, w) \<Rightarrow> (dspaces_ERR_MERCURY, c, w) | (Some out, w) \<Rightarrow> (bo_ret out, c, w))
            (get_server_address c))))"

section \<open>Gets\<close>

text \<open>
  What a get request brings: the response and the pieces, each with its offset, that the owner
  pushes into the bulk handle of the receiving buffer.
\<close>

type_synonym answer = "bulk_out_t \<times> (nat \<times> byte list) list"

fun apply_pushes :: "byte list \<Rightarrow> (nat \<times> byte list) list \<Rightarrow> byte list option" where
  "apply_pushes buf [] = Some buf"
| "apply_pushes buf ((k, bs) # ps) = Option.bind (memcpy buf k bs 0 (length bs)) (\<lambda>buf. apply_pushes buf ps)"

definition get_odscs :: "(odsc_gdim_t, obj_descriptor list, 'w) margo \<Rightarrow> dspaces_client \<Rightarrow> obj_descriptor \<Rightarrow> int \<Rightarrow> 'w \<Rightarrow>
    (obj_descriptor list \<times> 'w) option" where
  "get_odscs m c odsc timeout w =
     map_option (\<lambda>addr.
         case rpc_call m addr \<lparr>og_odsc = odsc,
             og_gdim = set_global_dimension (dcg_gdim_list (dcg c)) (od_name odsc) (dcg_default_gdim c),
             og_param = timeout\<rparr> w of
           (None, w) \<Rightarrow> ([], w) | (Some odscs, w) \<Rightarrow> (odscs, w)) (get_server_address c)"

text \<open>
  One round of the receiving loop of \<^verbatim>\<open>get_data\<close>. \<open>lz4\<close> gives the return value of
  \<^verbatim>\<open>LZ4_decompress_safe\<close> and the bytes it writes; a wrong return value is only reported.
\<close>

type_synonym lz4_fn = "byte list \<Rightarrow> nat \<Rightarrow> nat \<Rightarrow> int \<times> byte list"

definition rdma_size :: "obj_descriptor \<Rightarrow> obj_descriptor \<Rightarrow> nat" where
  "rdma_size req_obj odsc = unat (od_size req_obj * bbox_volume (od_bb odsc))"

definition get_data_recv :: "lz4_fn \<Rightarrow> (obj_descriptor \<Rightarrow> answer) \<Rightarrow> obj_descriptor \<Rightarrow> obj_data \<Rightarrow> byte list \<Rightarrow>
    (obj_data \<times> byte list) option" where
  "get_data_recv lz4 fetch req_obj od ucbuffer =
     (let odsc = obj_desc od; (resp, pushes) = fetch odsc; n = rdma_size req_obj odsc
      in Option.bind (data od) (\<lambda>d.
         Option.bind (apply_pushes d pushes) (\<lambda>d.
           if od_flags odsc AND DS_CLIENT_STORAGE = 0 \<and> bo_len resp \<noteq> 0
           then let (ret, bytes) = lz4 d (unat (bo_len resp)) n
                in Option.bind (memcpy ucbuffer 0 bytes 0 (length bytes)) (\<lambda>ucbuffer.
                   Option.bind (memcpy d 0 ucbuffer 0 n) (\<lambda>d. Some (od\<lparr>data := Some d\<rparr>, ucbuffer)))
           else Some (od\<lparr>data := Some d\<rparr>, ucbuffer))))"

fun get_data_loop :: "bbox \<Rightarrow> lz4_fn \<Rightarrow> (obj_descriptor \<Rightarrow> answer) \<Rightarrow> obj_descriptor \<Rightarrow> obj_data list \<Rightarrow> byte list \<Rightarrow>
    obj_data \<Rightarrow> obj_data option" where
  "get_data_loop bbcom lz4 fetch req_obj [] ucbuffer return_od = Some return_od"
| "get_data_loop bbcom lz4 fetch req_obj (od # ods) ucbuffer return_od =
     Option.bind (get_data_recv lz4 fetch req_obj od ucbuffer) (\<lambda>(od, ucbuffer).
     Option.bind (ssd_copy bbcom return_od od) (\<lambda>(return_od, n).
       get_data_loop bbcom lz4 fetch req_obj ods ucbuffer return_od))"

text \<open>
  \<^verbatim>\<open>get_data\<close> first allocates all the receiving objects and then gathers them in order. A failed
  allocation is dereferenced. The result is the caller's buffer.
\<close>

definition get_data :: "bbox \<Rightarrow> (nat \<Rightarrow> byte) \<Rightarrow> lz4_fn \<Rightarrow> (obj_descriptor \<Rightarrow> answer) \<Rightarrow> obj_descriptor \<Rightarrow>
    obj_descriptor list \<Rightarrow> byte list \<Rightarrow> byte list option" where
  "get_data bbcom junk lz4 fetch req_obj odsc_tab d =
     Option.bind (those (map (obj_data_alloc junk) odsc_tab)) (\<lambda>ods.
     let max_size = fold (\<lambda>odsc n. max n (rdma_size req_obj odsc)) odsc_tab 0
     in Option.bind (get_data_loop bbcom lz4 fetch req_obj ods (map junk [0..<max_size])
          (obj_data_alloc_no_data req_obj (Some d))) data)"

record ('w) get_env =
  ge_query :: "(odsc_gdim_t, obj_descriptor list, 'w) margo"
  ge_fetch :: "'w \<Rightarrow> obj_descriptor \<Rightarrow> answer"
  ge_lz4 :: lz4_fn
  ge_junk :: "nat \<Rightarrow> byte"
  ge_bbcom :: bbox

text \<open>\<open>odsc0\<close> and \<open>buf\<close> are the contents of the uninitialised local descriptor and its name array.\<close>

definition dspaces_get :: "'w get_env \<Rightarrow> obj_descriptor \<Rightarrow> string \<Rightarrow> dspaces_client \<Rightarrow> string \<Rightarrow> u32 \<Rightarrow> int \<Rightarrow> int \<Rightarrow>
    u64 list \<Rightarrow> u64 list \<Rightarrow> byte list \<Rightarrow> int \<Rightarrow> 'w \<Rightarrow> (int \<times> byte list \<times> 'w) option" where
  "dspaces_get e odsc0 buf c var_name ver elem_size ndim l u d timeout w =
     Option.bind (fill_odsc c var_name ver elem_size ndim l u buf odsc0) (\<lambda>odsc.
     Option.bind (get_odscs (ge_query e) c odsc timeout w) (\<lambda>(odsc_tab, w).
       if odsc_tab \<noteq> []
       then map_option (\<lambda>d. (dspaces_SUCCESS, d, w))
              (get_data (ge_bbcom e) (ge_junk e) (ge_lz4 e) (ge_fetch e w) odsc odsc_tab d)
       else Some (-1, d, w)))"

text \<open>A descriptor marked as resized replaces the box of the query.\<close>

definition crop :: "obj_descriptor list \<Rightarrow> bbox \<Rightarrow> bbox" where
  "crop odsc_tab bb = fold (\<lambda>x bb. if od_flags x AND DS_OBJ_RESIZE \<noteq> 0 then od_bb x else bb) odsc_tab bb"

text \<open>
  The size of the buffer: the count of elements is an \<^verbatim>\<open>int\<close> that a 64-bit product is stored into, and
  its product with the element size is an \<^verbatim>\<open>int\<close>; a product out of range, or a negative one, which no
  allocation satisfies, leaves nothing to copy into.
\<close>

definition int_of_u64 :: "u64 \<Rightarrow> int" where
  "int_of_u64 x = sint (ucast x :: 32 word)"

definition count_elems :: "bbox \<Rightarrow> int" where
  "count_elems bb = fold (\<lambda>i num. int_of_u64 (of_int num * (ub bb ! i - lb bb ! i + 1))) [0..<ndims bb] 1"

definition result_buf :: "(nat \<Rightarrow> byte) \<Rightarrow> int \<Rightarrow> int \<Rightarrow> byte list option" where
  "result_buf junk num elem_size =
     (if 0 \<le> num * elem_size \<and> num * elem_size < 2147483648
      then Some (map junk [0..<nat (num * elem_size)]) else None)"

definition zero_odsc :: obj_descriptor where
  "zero_odsc = \<lparr>od_name = '''', od_st = row_major, od_flags = 0, od_tag = 0, od_type = 0, od_owner = '''',
     od_version = 0, od_bb = \<lparr>num_dims = 0, lb = replicate BBOX_MAX_NDIM 0, ub = replicate BBOX_MAX_NDIM 0\<rparr>, od_size = 0\<rparr>"

text \<open>\<^verbatim>\<open>dspaces_get_req\<close>: the result is the request filled from the answer, or none without data.\<close>

definition dspaces_get_req :: "'w get_env \<Rightarrow> dspaces_client \<Rightarrow> dspaces_req \<Rightarrow> int \<Rightarrow> 'w \<Rightarrow>
    (int \<times> dspaces_req option \<times> 'w) option" where
  "dspaces_get_req e c in_req timeout w =
     Option.bind (odsc_from_req c in_req (replicate OD_MAX_NAME_LEN NUL) zero_odsc) (\<lambda>odsc.
     Option.bind (get_odscs (ge_query e) c odsc timeout w) (\<lambda>(odsc_tab, w).
     let odsc = odsc\<lparr>od_bb := crop odsc_tab (od_bb odsc)\<rparr>
     in case odsc_tab of
          [] \<Rightarrow> Some (dspaces_SUCCESS, None, w)
        | odsc0 # _ \<Rightarrow>
          let elem_size = int_of_u64 (od_size odsc0);
              odsc = odsc\<lparr>od_size := of_int elem_size, od_tag := od_tag odsc0\<rparr>
          in Option.bind (case rq_buf in_req of
                 None \<Rightarrow> result_buf (ge_junk e) (count_elems (od_bb odsc)) elem_size
               | Some b \<Rightarrow> Some b) (\<lambda>d.
             Option.bind (get_data (ge_bbcom e) (ge_junk e) (ge_lz4 e) (ge_fetch e w) odsc odsc_tab d) (\<lambda>d.
             Option.bind (fill_req c odsc (Some d)) (\<lambda>req. Some (dspaces_SUCCESS, Some req, w))))))"

text \<open>\<^verbatim>\<open>dspaces_aget\<close>: the buffer, the tag and the bounds the caller gets back.\<close>

definition dspaces_aget :: "'w get_env \<Rightarrow> dspaces_client \<Rightarrow> string \<Rightarrow> u32 \<Rightarrow> int \<Rightarrow> u64 list \<Rightarrow> u64 list \<Rightarrow> int \<Rightarrow> 'w \<Rightarrow>
    (int \<times> (byte list \<times> int) option \<times> bbox \<times> 'w) option" where
  "dspaces_aget e c var_name ver ndim l u timeout w =
     Option.bind (fill_odsc c var_name ver 0 ndim l u (replicate OD_MAX_NAME_LEN NUL) zero_odsc) (\<lambda>odsc.
     Option.bind (get_odscs (ge_query e) c odsc timeout w) (\<lambda>(odsc_tab, w).
     let odsc = odsc\<lparr>od_bb := crop odsc_tab (od_bb odsc)\<rparr>
     in case odsc_tab of
          [] \<Rightarrow> Some (dspaces_SUCCESS, None, od_bb odsc, w)
        | odsc0 # _ \<Rightarrow>
          let elem_size = int_of_u64 (od_size odsc0); odsc = odsc\<lparr>od_size := of_int elem_size\<rparr>
          in Option.bind (result_buf (ge_junk e) (count_elems ((od_bb odsc)\<lparr>num_dims := ndim\<rparr>)) elem_size) (\<lambda>d.
             Option.bind (get_data (ge_bbcom e) (ge_junk e) (ge_lz4 e) (ge_fetch e w) odsc odsc_tab d) (\<lambda>d.
               Some (dspaces_SUCCESS, Some (d, od_tag odsc0), od_bb odsc, w)))))"

section \<open>Serving data from the client's store\<close>

definition BULK_TRANSFER_MAX :: u64 where "BULK_TRANSFER_MAX = 128 * 1048576"

text \<open>
  The transfers of a large object: the offset and size of each piece of the loop on \<^verbatim>\<open>remaining\<close>,
  and the number of request slots allocated for them.
\<close>

function xfer_loop :: "u64 \<Rightarrow> u64 \<Rightarrow> (u64 \<times> u64) list" where
  "xfer_loop n remaining =
     (if remaining = 0 then []
      else let xfer_size = if remaining > BULK_TRANSFER_MAX then BULK_TRANSFER_MAX else remaining
           in (n - remaining, xfer_size) # xfer_loop n (remaining - xfer_size))"
  by auto
termination
proof (relation "measure (\<lambda>(n, r). unat r)")
  fix n r x :: u64
  assume r: "r \<noteq> 0" and x: "x = (if r > BULK_TRANSFER_MAX then BULK_TRANSFER_MAX else r)"
  then have "x \<le> r" "x \<noteq> 0" by (auto simp: BULK_TRANSFER_MAX_def)
  then have "unat (r - x) = unat r - unat x" "0 < unat x" "unat x \<le> unat r"
    by (simp_all add: unat_minus_u64 unat_gt_0 word_le_nat_alt)
  then have "unat (r - x) < unat r" by linarith
  then show "((n, r - x), n, r) \<in> measure (\<lambda>(n, r). unat r)" by simp
qed simp

declare xfer_loop.simps [simp del]

text \<open>\<^verbatim>\<open>int num_reqs\<close>: the quotient is computed in 64 bits and narrowed to 32.\<close>

definition num_reqs :: "u64 \<Rightarrow> int" where
  "num_reqs n = sint (ucast ((n + BULK_TRANSFER_MAX - 1) div BULK_TRANSFER_MAX) :: 32 word)"

definition xfer_plan :: "u64 \<Rightarrow> (u64 \<times> u64) list" where
  "xfer_plan n = (if n \<le> BULK_TRANSFER_MAX then [(0, n)] else xfer_loop n n)"

text \<open>
  \<open>xret\<close> gives the return code of the i-th transfer; the first that fails ends the loop. The pieces are
  read from the object's buffer. Each transfer of several steps takes the next slot of \<^verbatim>\<open>reqs\<close>, which has
  \<^verbatim>\<open>num_reqs\<close> of them: a store beyond them is undefined behaviour, the result \<open>None\<close>. When all have been
  started the slots are waited for, with the return codes \<open>wret\<close>.
\<close>

definition bulk_push ::
  "(nat \<Rightarrow> int) \<Rightarrow> (nat \<Rightarrow> int) \<Rightarrow> u64 \<Rightarrow> byte list \<Rightarrow> (int \<times> (nat \<times> byte list) list) option" where
  "bulk_push xret wret n buf =
     (let plan = xfer_plan n;
          failed = find (\<lambda>i. xret i \<noteq> HG_SUCCESS) [0..<length plan];
          req_id = (case failed of Some i \<Rightarrow> Suc i | None \<Rightarrow> length plan);
          pushes = map (\<lambda>(k, len). (unat k, take (unat len) (drop (unat k) buf)))
      in if n > BULK_TRANSFER_MAX \<and> int req_id > num_reqs n then None
         else Some (case failed of
             Some i \<Rightarrow> (xret i, pushes (take i plan))
           | None \<Rightarrow>
               (if n \<le> BULK_TRANSFER_MAX then HG_SUCCESS
                else case find (\<lambda>i. wret i \<noteq> HG_SUCCESS) [0..<nat (num_reqs n)] of
                       Some i \<Rightarrow> wret i | None \<Rightarrow> HG_SUCCESS, pushes plan)))"

text \<open>
  \<^verbatim>\<open>get_local_rpc\<close> warns when the object is missing and then dereferences it all the same. \<open>ulen\<close> is the
  field \<^verbatim>\<open>len\<close> of the response, which is not set.
\<close>

definition get_local_rpc :: "int \<Rightarrow> (nat \<Rightarrow> int) \<Rightarrow> (nat \<Rightarrow> int) \<Rightarrow> (nat \<Rightarrow> byte) \<Rightarrow> bbox \<Rightarrow> u64 \<Rightarrow> dspaces_client \<Rightarrow> obj_descriptor \<Rightarrow>
    answer option" where
  "get_local_rpc bulk_ret xret wret junk bbcom ulen c in_odsc =
     Option.bind (ls_find (dcg_ls (dcg c)) in_odsc) (\<lambda>from_obj.
     Option.bind (obj_data_alloc junk in_odsc) (\<lambda>od.
     Option.bind (ssd_copy bbcom od (the_od (dcg_ls (dcg c)) from_obj)) (\<lambda>(od, n).
     Option.bind (data od) (\<lambda>buffer.
       if bulk_ret \<noteq> HG_SUCCESS then Some (\<lparr>bo_ret = dspaces_ERR_MERCURY, bo_len = ulen\<rparr>, [])
       else Option.bind (bulk_push xret wret (od_size in_odsc * bbox_volume (od_bb in_odsc)) buffer) (\<lambda>(hret, pushes).
              if hret \<noteq> HG_SUCCESS then Some (\<lparr>bo_ret = dspaces_ERR_MERCURY, bo_len = ulen\<rparr>, pushes)
              else Some (\<lparr>bo_ret = dspaces_SUCCESS, bo_len = ulen\<rparr>, pushes))))))"

text \<open>
  \<^verbatim>\<open>drain_rpc\<close> hands an object over to the server and drops it. The result is the response and the
  pushed pieces, the client, and whether the thread that waits in \<^verbatim>\<open>dspaces_fini\<close> is signalled.
\<close>

definition drain_rpc :: "int \<Rightarrow> int \<Rightarrow> u64 \<Rightarrow> dspaces_client \<Rightarrow> obj_descriptor \<Rightarrow>
    (answer \<times> dspaces_client \<times> bool) option" where
  "drain_rpc bulk_ret xret ulen c in_odsc =
     (let ls = dcg_ls (dcg c); err = (\<lparr>bo_ret = dspaces_ERR_MERCURY, bo_len = ulen\<rparr>, [])
      in case ls_find ls in_odsc of
           None \<Rightarrow> Some (err, c, False)
         | Some from_obj \<Rightarrow>
             if bulk_ret \<noteq> HG_SUCCESS then Some (err, c, False)
             else Option.bind (data (the_od ls from_obj)) (\<lambda>buffer.
                  Option.bind (expose buffer (od_size in_odsc * bbox_volume (od_bb in_odsc))) (\<lambda>bytes.
                    if xret \<noteq> HG_SUCCESS then Some (err, c, False)
                    else let c = c\<lparr>dcg := (dcg c)\<lparr>dcg_ls := ls_try_remove_free ls from_obj\<rparr>,
                                   local_put_count := local_put_count c - 1\<rparr>
                         in Some ((\<lparr>bo_ret = dspaces_SUCCESS, bo_len = ulen\<rparr>, [(0, bytes)]), c,
                                  local_put_count c = 0 \<and> f_final c))))"

definition kill_client_rpc :: "dspaces_client \<Rightarrow> dspaces_client \<times> bool" where
  "kill_client_rpc c = (c\<lparr>local_put_count := 0\<rparr>, True)"

text \<open>
  One round of the waiting loop of \<^verbatim>\<open>dspaces_fini\<close>: the client is marked as finishing, and the answer
  is whether the thread goes to sleep.
\<close>

definition fini_round :: "dspaces_client \<Rightarrow> dspaces_client \<times> bool" where
  "fini_round c = (c\<lparr>f_final := True\<rparr>, local_put_count c > 0)"

section \<open>Large transfers\<close>

text \<open>The pieces follow one another from an offset on and have at most the maximal size.\<close>

fun contiguous :: "nat \<Rightarrow> (u64 \<times> u64) list \<Rightarrow> nat \<Rightarrow> bool" where
  "contiguous k [] n \<longleftrightarrow> k = n"
| "contiguous k ((s, len) # ps) n \<longleftrightarrow> unat s = k \<and> len \<le> BULK_TRANSFER_MAX \<and> contiguous (k + unat len) ps n"

lemma find_False: "find (\<lambda>_. False) xs = None"
  by (induction xs) simp_all

lemma unat_BULK: "unat BULK_TRANSFER_MAX = 134217728"
  by (simp add: BULK_TRANSFER_MAX_def)

lemma slots_Suc:
  "0 < r \<Longrightarrow> Suc ((r - min 134217728 r + 134217727) div 134217728) = (r + 134217727) div 134217728" for r :: nat
proof (cases "r \<le> 134217728")
  case True
  assume "0 < r"
  with True have "(r + 134217727) div 134217728 = 1" by (intro div_nat_eqI) simp_all
  with True show ?thesis by simp
next
  case False
  then have "r + 134217727 = (r - 134217728 + 134217727) + 134217728" by simp
  then show ?thesis using False by (simp add: min_def)
qed

lemma xfer_loop_plan:
  "remaining \<le> n \<Longrightarrow> contiguous (unat n - unat remaining) (xfer_loop n remaining) (unat n) \<and>
     length (xfer_loop n remaining) = (unat remaining + 134217727) div 134217728"
proof (induction n remaining rule: xfer_loop.induct)
  case (1 n r)
  show ?case
  proof (cases "r = 0")
    case False
    define x where "x = (if r > BULK_TRANSFER_MAX then BULK_TRANSFER_MAX else r)"
    have unf: "xfer_loop n r = (n - r, x) # xfer_loop n (r - x)"
      unfolding x_def using False by (subst xfer_loop.simps) (simp only: Let_def if_False)
    have x: "x \<le> r" "unat x = min 134217728 (unat r)" "x \<le> BULK_TRANSFER_MAX"
      by (auto simp: x_def word_less_nat_alt word_le_nat_alt unat_BULK)
    have ur: "unat (r - x) = unat r - unat x" using x(1) by (rule unat_minus_u64)
    have "r - x \<le> n" using 1(2) x(1) by (simp add: word_le_nat_alt ur)
    with 1(1) [OF False x_def] have IH: "contiguous (unat n - unat (r - x)) (xfer_loop n (r - x)) (unat n)"
      "length (xfer_loop n (r - x)) = (unat (r - x) + 134217727) div 134217728" by simp_all
    have "unat n - unat (r - x) = unat n - unat r + unat x"
      using x(1) 1(2) unfolding ur by (simp add: word_le_nat_alt)
    moreover have "unat (n - r) = unat n - unat r" using 1(2) by (rule unat_minus_u64)
    moreover have "0 < unat r" using False by (simp add: unat_gt_0)
    note slots_Suc [OF this]
    ultimately show ?thesis
      using IH x(3) unfolding unf contiguous.simps list.size ur x(2) by (simp only: One_nat_def add_Suc_right add_0_right simp_thms)
  qed (simp add: xfer_loop.simps 1)
qed

definition max_transfer :: nat where
  "max_transfer = 288230376017494016"

lemma num_reqs_fits:
  assumes "n > BULK_TRANSFER_MAX"
  shows "num_reqs n = int ((unat n + 134217727) div 134217728) \<and> unat n \<le> max_transfer \<or>
    num_reqs n < int ((unat n + 134217727) div 134217728) \<and> unat n > max_transfer"
proof (cases "unat n \<le> max_transfer")
  case True
  let ?L = "(unat n + 134217727) div 134217728"
  have eq: "n + BULK_TRANSFER_MAX - 1 = n + 134217727" by (simp add: BULK_TRANSFER_MAX_def)
  have "unat (n + BULK_TRANSFER_MAX - 1) = unat n + 134217727"
    unfolding eq using True unat_plus_u64 [of n 134217727] by (simp add: max_transfer_def)
  then have q: "unat ((n + BULK_TRANSFER_MAX - 1) div BULK_TRANSFER_MAX) = ?L" by (simp add: unat_div unat_BULK)
  have L: "?L < 2147483648" using True by (simp add: max_transfer_def div_less_iff_less_mult)
  have "uint ((n + BULK_TRANSFER_MAX - 1) div BULK_TRANSFER_MAX) = int ?L" by (simp only: q uint_nat)
  moreover have "signed_take_bit 31 (take_bit 32 (int ?L)) = int ?L"
    using L by (simp add: take_bit_int_eq_self signed_take_bit_int_eq_self)
  ultimately have "num_reqs n = int ?L"
    by (simp add: num_reqs_def sint_uint unsigned_ucast_eq)
  with True show ?thesis by blast
next
  case False
  have "num_reqs n < 2147483648" using sint_lt [where 'a = 32] by (simp add: num_reqs_def)
  moreover have "2147483648 \<le> (unat n + 134217727) div 134217728"
    using False by (simp add: max_transfer_def less_eq_div_iff_mult_less_eq)
  ultimately show ?thesis using False by linarith
qed

lemma apply_contiguous:
  assumes "contiguous k ps (length buf)" "k \<le> length buf" "length dst = length buf" "take k dst = take k buf"
  shows "apply_pushes dst (map (\<lambda>(k, len). (unat k, take (unat len) (drop (unat k) buf))) ps) = Some buf"
  using assms
proof (induction ps arbitrary: k dst)
  case (Cons p ps)
  obtain s len where p: "p = (s, len)" by (cases p)
  have c: "contiguous (k + unat len) ps (length buf)" "unat s = k" using Cons.prems(1) p by auto
  have mono: "contiguous j qs m \<Longrightarrow> j \<le> m" for j qs m
    by (induction j qs m rule: contiguous.induct) auto
  have le: "k + unat len \<le> length buf" using mono [OF c(1)] .
  let ?d = "take k dst @ take (unat len) (drop k buf) @ drop (k + unat len) dst"
  have "take (k + unat len) ?d = take (k + unat len) buf"
    using le Cons.prems(2-4) by (simp add: take_add)
  with Cons.IH [OF c(1) le, of ?d] le Cons.prems(2,3) show ?case
    by (simp add: p c(2) memcpy_def)
qed simp

text \<open>
  C26: with every call of Margo successful, a transfer of \<open>n\<close> bytes is carried out exactly for the sizes
  up to \<open>(2^31 - 1) * 128\<close> MB; beyond, \<^verbatim>\<open>int num_reqs\<close> is too small for the requests and the loop writes
  past the slots. Up to this size the buffer is cut into consecutive pieces of at most
  \<^verbatim>\<open>BULK_TRANSFER_MAX\<close> bytes that together rebuild the sender's buffer in the receiver's, and a transfer in
  several steps uses exactly the \<^verbatim>\<open>num_reqs\<close> slots allocated for it. The loop ends for every size.
\<close>

theorem bulk_push_delivers:
  assumes "\<forall>i. xret i = HG_SUCCESS" "\<forall>i. wret i = HG_SUCCESS" "length buf = unat n" "length dst = unat n"
  shows "(bulk_push xret wret n buf \<noteq> None \<longleftrightarrow> unat n \<le> max_transfer) \<and>
    (\<forall>ret pushes. bulk_push xret wret n buf = Some (ret, pushes) \<longrightarrow>
       ret = HG_SUCCESS \<and> apply_pushes dst pushes = Some buf \<and> (\<forall>(k, bs)\<in>set pushes. length bs \<le> 134217728) \<and>
       (n > BULK_TRANSFER_MAX \<longrightarrow> int (length pushes) = num_reqs n))"
proof -
  let ?cut = "map (\<lambda>(k, len). (unat k, take (unat len) (drop (unat k) buf)))"
  have plan: "contiguous 0 (xfer_plan n) (unat n)"
    using xfer_loop_plan [of n n] by (auto simp: xfer_plan_def)
  have slots: "length (xfer_plan n) = (unat n + 134217727) div 134217728" if "n > BULK_TRANSFER_MAX"
    using that xfer_loop_plan [of n n] by (simp add: xfer_plan_def not_le)
  have push: "bulk_push xret wret n buf =
      (if n > BULK_TRANSFER_MAX \<and> int (length (xfer_plan n)) > num_reqs n then None else Some (HG_SUCCESS, ?cut (xfer_plan n)))"
    using assms(1,2) by (simp add: bulk_push_def Let_def find_False)
  have ok: "n > BULK_TRANSFER_MAX \<and> int (length (xfer_plan n)) > num_reqs n \<longleftrightarrow> \<not> unat n \<le> max_transfer"
  proof (cases "n > BULK_TRANSFER_MAX")
    case True
    then show ?thesis using num_reqs_fits [OF True] slots [OF True] by auto
  next
    case False
    then have "unat n \<le> 134217728" by (simp add: not_less word_le_nat_alt unat_BULK)
    then show ?thesis using False by (simp add: max_transfer_def)
  qed
  have "contiguous k ps m \<Longrightarrow> (s, len) \<in> set ps \<Longrightarrow> unat len \<le> 134217728" for k ps m s len
    by (induction k ps m rule: contiguous.induct) (auto simp: word_le_nat_alt unat_BULK)
  with plan have small: "\<forall>(k, bs)\<in>set (?cut (xfer_plan n)). length bs \<le> 134217728"
    by (fastforce simp: min_le_iff_disj)
  have all: "apply_pushes dst (?cut (xfer_plan n)) = Some buf"
    using apply_contiguous [of 0 "xfer_plan n" buf dst] plan assms(3,4) by simp
  have "int (length (xfer_plan n)) = num_reqs n" if "n > BULK_TRANSFER_MAX" "unat n \<le> max_transfer"
    using num_reqs_fits [OF that(1)] slots [OF that(1)] that(2) by simp
  then show ?thesis using small all by (simp add: push ok)
qed

theorem bulk_push_delivers_witness:
  "\<exists>pushes. bulk_push (\<lambda>_. HG_SUCCESS) (\<lambda>_. HG_SUCCESS) 3 [1, 2, 3] = Some (HG_SUCCESS, pushes) \<and>
     apply_pushes [9, 9, 9] pushes = Some [1, 2, 3]"
proof -
  have "bulk_push (\<lambda>_. HG_SUCCESS) (\<lambda>_. HG_SUCCESS) 3 [1, 2, 3] \<noteq> None" by code_simp
  then show ?thesis
    using bulk_push_delivers [of "\<lambda>_. HG_SUCCESS" "\<lambda>_. HG_SUCCESS" "[1, 2, 3]" 3 "[9, 9, 9]"] by auto
qed

section \<open>Assembling the answer of a get\<close>

text \<open>
  \<open>delivers lz4 fetch req_obj odsc d\<close>: a request for \<open>odsc\<close> leaves the bytes \<open>d\<close> in the receiving object, whatever
  the buffers held before.
\<close>

definition delivers :: "lz4_fn \<Rightarrow> (obj_descriptor \<Rightarrow> answer) \<Rightarrow> obj_descriptor \<Rightarrow> obj_descriptor \<Rightarrow> byte list \<Rightarrow> bool" where
  "delivers lz4 fetch req_obj odsc d \<longleftrightarrow>
     (\<forall>d0 uc. length d0 = length d \<longrightarrow> rdma_size req_obj odsc \<le> length uc \<longrightarrow>
        (\<exists>uc'. length uc' = length uc \<and>
          get_data_recv lz4 fetch req_obj (obj_data_blank odsc (Some d0)) uc =
            Some (obj_data_blank odsc (Some d), uc')))"

lemma obj_data_blank_sel [simp]:
  "obj_desc (obj_data_blank odsc d) = odsc" "data (obj_data_blank odsc d) = d"
  "(obj_data_blank odsc d)\<lparr>data := d'\<rparr> = obj_data_blank odsc d'"
  by (simp_all add: obj_data_blank_def)

lemma delivers_plain:
  assumes "fetch odsc = (resp, pushes)" "od_flags odsc AND DS_CLIENT_STORAGE \<noteq> 0 \<or> bo_len resp = 0"
    and "\<And>d0. length d0 = length d \<Longrightarrow> apply_pushes d0 pushes = Some d"
  shows "delivers lz4 fetch req_obj odsc d"
  using assms by (auto simp: delivers_def get_data_recv_def)

lemma delivers_lz4:
  assumes "fetch odsc = (resp, [(0, cdata)])" "od_flags odsc AND DS_CLIENT_STORAGE = 0" "bo_len resp \<noteq> 0"
    and "unat (bo_len resp) = length cdata" "length cdata \<le> length d" "length d = rdma_size req_obj odsc"
    and "\<And>rest. \<exists>ret. lz4 (cdata @ rest) (length cdata) (length d) = (ret, d)"
  shows "delivers lz4 fetch req_obj odsc d"
  unfolding delivers_def
proof (intro allI impI)
  fix d0 uc :: "byte list" assume d0: "length d0 = length d" "rdma_size req_obj odsc \<le> length uc"
  obtain ret where "lz4 (cdata @ drop (length cdata) d0) (length cdata) (length d) = (ret, d)" using assms(7) by blast
  then show "\<exists>uc'. length uc' = length uc \<and> get_data_recv lz4 fetch req_obj (obj_data_blank odsc (Some d0)) uc =
      Some (obj_data_blank odsc (Some d), uc')"
    using assms(1-6) d0 by (auto simp: get_data_recv_def memcpy_def Let_def intro!: exI [of _ "d @ drop (length d) uc"])
qed

text \<open>The parts of an answer: boxes of the shape of the request that meet it, of a size an \<^verbatim>\<open>int\<close> holds.\<close>

definition part_ok :: "obj_descriptor \<Rightarrow> obj_descriptor \<Rightarrow> bool" where
  "part_ok req_obj odsc \<longleftrightarrow> od_size odsc = od_size req_obj \<and> num_dims (od_bb odsc) = num_dims (od_bb req_obj) \<and>
     wf_bbox (od_bb odsc) \<and> nonempty_bbox (od_bb odsc) \<and> bbox_does_intersect (od_bb req_obj) (od_bb odsc) \<and>
     unat (od_size odsc) * vol (od_bb odsc) < 2147483648"

text \<open>The element of the last part that holds a point.\<close>

definition assembled :: "(obj_descriptor \<Rightarrow> byte list) \<Rightarrow> obj_descriptor list \<Rightarrow> u64 list \<Rightarrow> byte list \<Rightarrow> byte list" where
  "assembled cont odsc_tab p v =
     fold (\<lambda>odsc v. if p \<in> points (od_bb odsc) then obj_get (obj_data_blank odsc (Some (cont odsc))) p else v) odsc_tab v"

lemma obj_data_size_eq:
  assumes "wf_bbox (od_bb odsc)" "nonempty_bbox (od_bb odsc)"
    and "unat (od_size odsc) * vol (od_bb odsc) < 18446744073709551616" "0 < unat (od_size odsc)"
  shows "unat (obj_data_size odsc) = unat (od_size odsc) * vol (od_bb odsc)"
proof -
  have "vol (od_bb odsc) \<le> unat (od_size odsc) * vol (od_bb odsc)" using assms(4) by simp
  with assms(3) have "vol (od_bb odsc) < 18446744073709551616" by linarith
  then have "unat (bbox_volume (od_bb odsc)) = vol (od_bb odsc)"
    using unat_bbox_volume assms(1,2) by (simp add: nonempty_ordered)
  with assms(3) show ?thesis by (simp add: obj_data_size_def unat_mult_u64)
qed

lemma get_data_loop_assembles:
  assumes "\<forall>odsc\<in>set tab. part_ok req_obj odsc \<and> delivers lz4 fetch req_obj odsc (cont odsc) \<and>
      length (cont odsc) = unat (obj_data_size odsc) \<and> length (d0 odsc) = length (cont odsc) \<and>
      rdma_size req_obj odsc \<le> length uc"
    and "wf_bbox bbcom" "1 \<le> num_dims (od_bb req_obj)" "num_dims (od_bb req_obj) \<le> 9"
    and "obj_fits ret" "od_bb (obj_desc ret) = od_bb req_obj" "od_size (obj_desc ret) = od_size req_obj"
  shows "\<exists>ret'. get_data_loop bbcom lz4 fetch req_obj (map (\<lambda>odsc. obj_data_blank odsc (Some (d0 odsc))) tab) uc ret = Some ret' \<and>
    obj_fits ret' \<and> od_bb (obj_desc ret') = od_bb req_obj \<and> od_size (obj_desc ret') = od_size req_obj \<and>
    (\<forall>p\<in>points (od_bb req_obj). obj_get ret' p = assembled cont tab p (obj_get ret p))"
  using assms(1,5-7)
proof (induction tab arbitrary: uc ret)
  case (Cons odsc tab)
  have ok: "part_ok req_obj odsc" "delivers lz4 fetch req_obj odsc (cont odsc)"
    "length (cont odsc) = unat (obj_data_size odsc)" "length (d0 odsc) = length (cont odsc)"
    "rdma_size req_obj odsc \<le> length uc" using Cons.prems(1) by auto
  let ?od = "obj_data_blank odsc (Some (cont odsc))"
  obtain uc' where uc': "length uc' = length uc"
    "get_data_recv lz4 fetch req_obj (obj_data_blank odsc (Some (d0 odsc))) uc = Some (?od, uc')"
    using ok(2,4,5) unfolding delivers_def by blast
  have se: "0 < unat (od_size req_obj)" using Cons.prems(2,4) by (auto simp: obj_fits_def Let_def)
  have fits: "obj_fits ?od"
    using ok(1,3) se obj_data_size_eq [of odsc] by (auto simp: obj_fits_def Let_def part_ok_def)
  obtain ret1 n where r: "ssd_copy bbcom ret ?od = Some (ret1, n)" "obj_fits ret1"
    "obj_desc ret1 = obj_desc (copy_tag_type ret ?od)"
    "\<forall>p\<in>points (od_bb req_obj). obj_get ret1 p = (if p \<in> points (od_bb odsc) then obj_get ?od p else obj_get ret p)"
    using ssd_copy_elements [OF Cons.prems(2) fits, of bbcom] ok(1) assms(2-4) Cons.prems(3,4)
    by (auto simp: part_ok_def)
  have d: "od_bb (obj_desc ret1) = od_bb req_obj" "od_size (obj_desc ret1) = od_size req_obj"
    using r(3) Cons.prems(3,4) by (simp_all add: copy_tag_type_def)
  have "\<forall>x\<in>set tab. part_ok req_obj x \<and> delivers lz4 fetch req_obj x (cont x) \<and>
      length (cont x) = unat (obj_data_size x) \<and> length (d0 x) = length (cont x) \<and>
      rdma_size req_obj x \<le> length uc'" using Cons.prems(1) uc'(1) by auto
  from Cons.IH [OF this r(2) d] show ?case
    using r(1,4) uc'(2) by (auto simp: assembled_def)
qed (auto simp: assembled_def)

lemma those_map_Some: "(\<And>x. x \<in> set xs \<Longrightarrow> f x = Some (g x)) \<Longrightarrow> those (map f xs) = Some (map g xs)"
  by (induction xs) simp_all

lemma fold_max_ge:
  fixes f :: "'a \<Rightarrow> nat"
  shows "x \<in> set xs \<Longrightarrow> f x \<le> fold (\<lambda>x n. max n (f x)) xs k"
proof -
  have ge: "k \<le> fold (\<lambda>x n. max n (f x)) xs k" for k xs
    by (induction xs arbitrary: k) (auto intro: le_trans [OF max.cobounded1])
  show "x \<in> set xs \<Longrightarrow> f x \<le> fold (\<lambda>x n. max n (f x)) xs k"
    by (induction xs arbitrary: k) (auto intro: le_trans [OF max.cobounded2 ge])
qed

text \<open>
  \<^verbatim>\<open>get_data\<close> returns, keeps the size of the caller's buffer, and fills it from the parts of the
  answer: a point of the request holds the element of the last part that contains it, and keeps
  its old contents when no part does. A part may arrive plain or compressed.
\<close>

lemma get_data_ok:
  assumes "\<forall>odsc\<in>set tab. part_ok req_obj odsc \<and> delivers lz4 fetch req_obj odsc (cont odsc) \<and>
      length (cont odsc) = unat (obj_data_size odsc)"
    and "wf_bbox bbcom" "1 \<le> num_dims (od_bb req_obj)" "num_dims (od_bb req_obj) \<le> 9"
    and "obj_fits (obj_data_blank req_obj (Some d))"
  shows "\<exists>d'. get_data bbcom junk lz4 fetch req_obj tab d = Some d' \<and> length d' = length d \<and>
    (\<forall>p\<in>points (od_bb req_obj). obj_get (obj_data_blank req_obj (Some d')) p =
       assembled cont tab p (obj_get (obj_data_blank req_obj (Some d)) p))"
proof -
  let ?max = "fold (\<lambda>odsc n. max n (rdma_size req_obj odsc)) tab 0"
  let ?d0 = "\<lambda>odsc. map junk [0..<unat (obj_data_size odsc)]"
  have se: "0 < unat (od_size req_obj)" using assms(5) by (auto simp: obj_fits_def Let_def)
  have size: "unat (obj_data_size odsc) < 2147483648" if "odsc \<in> set tab" for odsc
    using assms(1) that se obj_data_size_eq [of odsc] by (auto simp: part_ok_def)
  have "those (map (obj_data_alloc junk) tab) = Some (map (\<lambda>odsc. obj_data_blank odsc (Some (?d0 odsc))) tab)"
    by (rule those_map_Some) (simp add: obj_data_alloc_def alloc_size_exact size)
  moreover have "\<forall>odsc\<in>set tab. part_ok req_obj odsc \<and> delivers lz4 fetch req_obj odsc (cont odsc) \<and>
      length (cont odsc) = unat (obj_data_size odsc) \<and> length (?d0 odsc) = length (cont odsc) \<and>
      rdma_size req_obj odsc \<le> length (map junk [0..<?max])"
    using assms(1) fold_max_ge [of _ tab "rdma_size req_obj" 0] by auto
  note get_data_loop_assembles [OF this assms(2-5)]
  then obtain ret where ret: "get_data_loop bbcom lz4 fetch req_obj (map (\<lambda>odsc. obj_data_blank odsc (Some (?d0 odsc))) tab)
      (map junk [0..<?max]) (obj_data_blank req_obj (Some d)) = Some ret" "obj_fits ret"
    "od_bb (obj_desc ret) = od_bb req_obj" "od_size (obj_desc ret) = od_size req_obj"
    "\<forall>p\<in>points (od_bb req_obj). obj_get ret p = assembled cont tab p (obj_get (obj_data_blank req_obj (Some d)) p)"
    by auto
  obtain d' where d': "data ret = Some d'" "length d' = length d"
    using ret(2-4) assms(5) by (auto simp: obj_fits_def Let_def split: option.splits)
  have "obj_get (obj_data_blank req_obj (Some d')) p = obj_get ret p" for p
    using d'(1) ret(3,4) by (simp add: obj_get_def)
  with ret(1,5) d' calculation show ?thesis
    by (simp add: get_data_def obj_data_alloc_no_data_def)
qed

definition ex_part :: "bbox \<Rightarrow> obj_descriptor" where
  "ex_part b = obj_desc (ex_obj b [])"

lemma get_data_example:
  "\<exists>d'. get_data (mk_box [] []) (\<lambda>_. 0) (\<lambda>_ _ _. (0, []))
      (\<lambda>odsc. (\<lparr>bo_ret = 0, bo_len = 0\<rparr>, [(0, if odsc = ex_part (mk_box [0] [1]) then [10, 11] else [22, 23])]))
      (ex_part (mk_box [0] [3])) [ex_part (mk_box [0] [1]), ex_part (mk_box [2] [3])] [0, 0, 0, 0] = Some d' \<and>
    obj_get (obj_data_blank (ex_part (mk_box [0] [3])) (Some d')) [2] = [22]"
proof -
  let ?A = "ex_part (mk_box [0] [1])" and ?B = "ex_part (mk_box [2] [3])" and ?Q = "ex_part (mk_box [0] [3])"
  let ?cont = "\<lambda>odsc. if odsc = ?A then [10, 11 :: byte] else [22, 23]"
  let ?fetch = "\<lambda>odsc. (\<lparr>bo_ret = 0, bo_len = 0\<rparr>, [(0 :: nat, ?cont odsc)])"
  have del: "delivers (\<lambda>_ _ _. (0, [])) ?fetch ?Q odsc (?cont odsc)" for odsc
    by (rule delivers_plain) (auto simp: memcpy_def)
  have Q: "od_bb ?Q = mk_box [0] [3]" "od_bb ?A = mk_box [0] [1]" "od_bb ?B = mk_box [2] [3]"
      "od_size ?Q = 1" "od_size ?A = 1" "od_size ?B = 1"
    by (simp_all add: ex_part_def ex_obj_def)
  have vols: "vol (mk_box [0] [3]) = 4" "vol (mk_box [0] [1]) = 2" "vol (mk_box [2] [3]) = 2"
    by (simp_all add: bbox_eval)
  have isect: "bbox_does_intersect (mk_box [0] [3]) (mk_box [0] [1])" "bbox_does_intersect (mk_box [0] [3]) (mk_box [2] [3])"
    by code_simp+
  have parts: "part_ok ?Q ?A" "part_ok ?Q ?B"
    unfolding part_ok_def Q vols using isect by (simp_all add: mk_box_simps)
  have sizes: "unat (obj_data_size ?A) = 2" "unat (obj_data_size ?B) = 2"
    using parts obj_data_size_eq [of ?A] obj_data_size_eq [of ?B] by (simp_all add: part_ok_def Q vols)
  have fits: "obj_fits (obj_data_blank ?Q (Some [0, 0, 0, 0]))"
    by (simp add: obj_fits_def Let_def Q vols mk_box_simps)
  have "\<exists>d'. get_data (mk_box [] []) (\<lambda>_. 0) (\<lambda>_ _ _. (0, [])) ?fetch ?Q [?A, ?B] [0, 0, 0, 0] = Some d' \<and>
      length d' = length [0 :: byte, 0, 0, 0] \<and>
      (\<forall>p\<in>points (od_bb ?Q). obj_get (obj_data_blank ?Q (Some d')) p =
        assembled ?cont [?A, ?B] p (obj_get (obj_data_blank ?Q (Some [0, 0, 0, 0])) p))"
    using parts fits del sizes by (intro get_data_ok) (auto simp: mk_box_simps Q)
  moreover have "[2] \<in> points (mk_box [0] [3])" "[2] \<in> points (mk_box [2] [3])"
    by (simp_all add: points_def mk_box_def)
  moreover have "?B \<noteq> ?A" by (simp add: ex_part_def ex_obj_def mk_box_def)
  moreover have "obj_get (obj_data_blank ?B (Some [22, 23])) [2] = [22]" by code_simp
  ultimately show ?thesis by (auto simp: assembled_def Q)
qed

section \<open>Local puts\<close>

lemma alloc_with_data:
  assumes "unat (obj_data_size odsc) < 2147483648" "unat (obj_data_size odsc) \<le> length d"
  shows "obj_data_alloc_with_data junk odsc d =
    Some (obj_data_blank odsc (Some (take (unat (obj_data_size odsc)) d)))"
  using assms by (simp add: obj_data_alloc_with_data_def obj_data_alloc_def alloc_size_exact memcpy_def)

lemma put_odsc_Some:
  assumes "NUL \<notin> set var_name" "\<forall>ns. nspace c = Some ns \<longrightarrow> NUL \<notin> set ns \<and> length ns < 150"
    and "0 \<le> ndim" "ndim \<le> 10" "nat ndim \<le> length l" "nat ndim \<le> length u"
  shows "put_odsc c var_name ver elem_size tag ty flags ndim l u =
    Some \<lparr>od_name = take 149 (qual_name (nspace c) var_name), od_st = client_st, od_flags = flags, od_tag = tag,
      od_type = ty, od_owner = [], od_version = ver,
      od_bb = \<lparr>num_dims = ndim, lb = take (nat ndim) l @ replicate (10 - nat ndim) 0,
               ub = take (nat ndim) u @ replicate (10 - nat ndim) 0\<rparr>, od_size = of_int elem_size\<rparr>"
  using copy_var_name [of "replicate 150 NUL", OF _ assms(1,2)] assms(3-)
  by (auto simp: put_odsc_def fill_bb_def BBOX_MAX_NDIM_def OD_MAX_NAME_LEN_def)

lemma intersect_self: "wf_bbox b \<Longrightarrow> nonempty_bbox b \<Longrightarrow> bbox_does_intersect b b"
  using not_intersect_points [of b b] take_lb_in_points [of b] by auto

text \<open>
  C27: an object put into the client's own store is handed to the server as it was: the drain request
  for its descriptor answers with exactly the bytes that were put, removes the object from the
  store, and takes the count of pending local puts back, whether or not the message to the server got through;
  when that count becomes zero, the thread waiting in \<^verbatim>\<open>dspaces_fini\<close> is signalled.
\<close>

theorem put_local_drain_roundtrip:
  assumes "listener_init c \<or> listener_ret = dspaces_SUCCESS" "my_server c < length (server_address c)"
    and "ls_inv (dcg_ls (dcg c))" "od_heap (dcg_ls (dcg c)) a = None"
    and "put_odsc c var_name ver elem_size 0 0 DS_CLIENT_STORAGE ndim l u = Some odsc"
    and "wf_bbox (od_bb odsc)" "nonempty_bbox (od_bb odsc)"
    and "unat (obj_data_size odsc) < 2147483648" "unat (obj_data_size odsc) \<le> length d"
  shows "\<exists>ret c1 w1 c2. dspaces_put_local m listener_ret self junk param a c var_name ver elem_size ndim l u d w = Some (ret, c1, w1) \<and>
    local_put_count c1 = local_put_count c + 1 \<and>
    drain_rpc HG_SUCCESS HG_SUCCESS ulen c1 (odsc\<lparr>od_owner := self\<rparr>) =
      Some ((\<lparr>bo_ret = dspaces_SUCCESS, bo_len = ulen\<rparr>, [(0, take (unat (obj_data_size odsc)) d)]), c2,
            local_put_count c = 0 \<and> f_final c) \<and>
    local_put_count c2 = local_put_count c \<and> a \<notin> set (stored (dcg_ls (dcg c2))) \<and>
    od_heap (dcg_ls (dcg c2)) a = None \<and> ls_inv (dcg_ls (dcg c2))"
proof -
  let ?ls = "dcg_ls (dcg c)" and ?q = "odsc\<lparr>od_owner := self\<rparr>" and ?n = "unat (obj_data_size odsc)"
  let ?g = "set_global_dimension (dcg_gdim_list (dcg c)) (od_name odsc) (dcg_default_gdim c)"
  define od where "od = (obj_data_blank ?q (Some (take ?n d)))\<lparr>gdim := ?g\<rparr>"
  define ls0 where "ls0 = ?ls\<lparr>od_heap := (od_heap ?ls)(a \<mapsto> od)\<rparr>"
  define ls1 where "ls1 = ls_add_obj ls0 a"
  define c1 where "c1 = c\<lparr>listener_init := True, local_put_count := local_put_count c + 1, dcg := (dcg c)\<lparr>dcg_ls := ls1\<rparr>\<rparr>"
  have sz: "obj_data_size ?q = obj_data_size odsc" by (simp add: obj_data_size_def)
  have odsel: "obj_desc od = ?q" "data od = Some (take ?n d)" "refcnt od = 0"
    by (simp_all add: od_def obj_data_blank_def)
  have inv0: "ls_inv ls0" "a \<notin> set (stored ls0)" "od_heap ls0 a = Some od"
    using ls_inv_new_obj(1) [OF assms(3,4), of od] ls_inv_new_obj(2) [OF assms(3,4)] by (simp_all add: ls0_def stored_def)
  have "obj_desc_equals_intersect ?q (obj_desc od)"
    using intersect_self [OF assms(6,7)] by (simp add: odsel obj_desc_equals_intersect_def)
  note f = ls_find_added [OF inv0 this, folded ls1_def]
  have the: "the_od ls1 a = od" using f(2) by (simp add: the_od_def)
  have po: "put_odsc (c\<lparr>listener_init := True, local_put_count := k\<rparr>) var_name ver elem_size 0 0 DS_CLIENT_STORAGE ndim l u =
      Some odsc" for k
    using assms(5) by (simp add: put_odsc_def copy_var_name_to_odsc_def)
  have al: "obj_data_alloc_with_data junk ?q d = Some (obj_data_blank ?q (Some (take ?n d)))"
    using alloc_with_data [of ?q d junk] assms(8,9) by (simp add: sz)
  have ne: "\<not> (\<not> listener_init c \<and> listener_ret \<noteq> dspaces_SUCCESS)" using assms(1) by blast
  let ?put = "dspaces_put_local m listener_ret self junk param a c var_name ver elem_size ndim l u d w"
  let ?r = "rpc_call m (server_address c ! my_server c) \<lparr>og_odsc = ?q, og_gdim = ?g, og_param = param\<rparr> w"
  have "?put = Some (case ?r of (None, w) \<Rightarrow> (dspaces_ERR_MERCURY, c1, w) | (Some out, w) \<Rightarrow> (bo_ret out, c1, w))"
    unfolding dspaces_put_local_def if_not_P [OF ne] Let_def po Option.bind.bind_lunit al
    using assms(2) by (simp add: get_server_address_def ls1_def ls0_def od_def c1_def split: prod.split option.split)
  then obtain ret w1 where put: "?put = Some (ret, c1, w1)"
    by (cases ?r; cases "fst ?r") auto
  let ?ls2 = "obj_data_free (ls_remove ls1 a) a"
  have "ls_inv ?ls2" using f(3,4) by (rule ls_inv_remove_free)
  moreover have "a \<notin> set (stored ?ls2)" "od_heap ?ls2 a = None" by (simp_all add: ls_remove_free_sel)
  moreover have "drain_rpc HG_SUCCESS HG_SUCCESS ulen c1 ?q =
      Some ((\<lparr>bo_ret = dspaces_SUCCESS, bo_len = ulen\<rparr>, [(0, take ?n d)]),
        c1\<lparr>dcg := (dcg c1)\<lparr>dcg_ls := ?ls2\<rparr>, local_put_count := local_put_count c\<rparr>, local_put_count c = 0 \<and> f_final c)"
    using f(1) assms(9)
    by (simp add: drain_rpc_def c1_def the odsel ls_try_remove_free_def expose_def obj_data_size_def HG_SUCCESS_def)
  moreover have "local_put_count c1 = local_put_count c + 1" by (simp add: c1_def)
  ultimately show ?thesis using put by (intro exI conjI) (assumption | simp)+
qed

definition ex_margo :: "('i, bulk_out_t, unit) margo" where
  "ex_margo = \<lparr>m_bulk_create = \<lambda>_. HG_SUCCESS, m_create = \<lambda>_ _. HG_SUCCESS, m_forward = \<lambda>_ _ w. (HG_SUCCESS, w),
     m_get_output = \<lambda>_. (HG_SUCCESS, \<lparr>bo_ret = dspaces_SUCCESS, bo_len = 0\<rparr>)\<rparr>"

theorem put_local_drain_roundtrip_witness:
  "\<exists>ret c1 w1 c2. dspaces_put_local ex_margo 0 ''me'' (\<lambda>_. 0) 0 7 (ex_client None) ''v'' 1 1 1 [0] [1] [5, 6, 7] () = Some (ret, c1, w1) \<and>
    drain_rpc HG_SUCCESS HG_SUCCESS 0 c1
      (\<lparr>od_name = ''v'', od_st = column_major, od_flags = DS_CLIENT_STORAGE, od_tag = 0, od_type = 0, od_owner = ''me'',
        od_version = 1, od_bb = mk_box [0] [1], od_size = 1\<rparr>) =
      Some ((\<lparr>bo_ret = dspaces_SUCCESS, bo_len = 0\<rparr>, [(0, [5, 6])]), c2, False) \<and> local_put_count c2 = 0"
proof -
  let ?c = "ex_client None"
  let ?o = "\<lparr>od_name = ''v'', od_st = column_major, od_flags = DS_CLIENT_STORAGE, od_tag = 0, od_type = 0, od_owner = '''',
        od_version = 1, od_bb = mk_box [0] [1], od_size = 1\<rparr>"
  have o: "put_odsc ?c ''v'' 1 1 0 0 DS_CLIENT_STORAGE 1 [0] [1] = Some ?o"
    by (subst put_odsc_Some) (simp_all add: ex_client_def qual_name_def client_st_def mk_box_def)
  have "vol (mk_box [0] [1]) = 2" by (simp add: bbox_eval)
  then have sz: "unat (obj_data_size ?o) = 2"
    using obj_data_size_eq [of ?o] by (simp add: mk_box_simps)
  have "wf_bbox (od_bb ?o)" "nonempty_bbox (od_bb ?o)" by (simp_all add: mk_box_simps)
  note this [unfolded obj_descriptor.simps]
  with put_local_drain_roundtrip [of ?c 0 7 "''v''" 1 1 1 "[0]" "[1]" ?o "[5, 6, 7]" ex_margo "''me''" "\<lambda>_. 0" 0 "()" 0] o sz
  show ?thesis
    by (force simp: ex_client_def dspaces_SUCCESS_def ls_inv_alloc ls_alloc_def [of 2, THEN arg_cong, of od_heap])
qed

end
