(* ===== verification/Meta.thy ===== *)
theory Meta
  imports LocalStore "HOL-Library.Signed_Division"
begin

text \<open>
  The metadata part of the local store: \<^verbatim>\<open>ls_find_meta\<close>, \<^verbatim>\<open>ls_add_meta\<close>, the
  subscriptions and \<^verbatim>\<open>meta_find_entry\<close>, \<^verbatim>\<open>meta_find_next_entry\<close> of \<^verbatim>\<open>src/ss_data.c\<close>,
  and the three query modes of \<^verbatim>\<open>query_meta_rpc\<close> in \<^verbatim>\<open>src/dspaces-server.c\<close>. A handler
  that blocks on a condition variable leaves its subscription in the store and the result
  \<open>Waiting\<close>; \<^verbatim>\<open>msub.mdata\<close> of a waiting thread is its cell of \<open>msub_mdata\<close>. A negative bin
  index or a signed overflow is undefined behaviour, the result \<open>None\<close>.
\<close>

section \<open>Operations\<close>

text \<open>\<^verbatim>\<open>version % ls->size_hash\<close> on C \<^verbatim>\<open>int\<close>s, as an index.\<close>

definition meta_bin :: "ss_storage \<Rightarrow> int \<Rightarrow> nat option" where
  "meta_bin ls version =
     (let index = version smod int (size_hash ls)
      in if size_hash ls = 0 \<or> index < 0 then None else Some (nat index))"

definition md_int :: "meta_data \<Rightarrow> int" where
  "md_int m = sint (md_version m)"

definition ls_find_meta :: "ss_storage \<Rightarrow> string \<Rightarrow> int \<Rightarrow> meta_data option option" where
  "ls_find_meta ls nm version =
     map_option (\<lambda>index. find (\<lambda>m. nm = md_name m \<and> md_int m = version) (meta_hash ls ! index))
       (meta_bin ls version)"

text \<open>One pass over a subscription list: the matching threads get the metadata and leave the list.\<close>

definition deliver :: "(meta_sub \<Rightarrow> bool) \<Rightarrow> meta_data \<Rightarrow> nat \<Rightarrow> ss_storage \<Rightarrow> ss_storage" where
  "deliver P mdata index ls =
     ls\<lparr>meta_subs := (meta_subs ls)[index := filter (\<lambda>s. \<not> P s) (meta_subs ls ! index)],
        msub_mdata := fold (\<lambda>s cells. cells(ms_thread s \<mapsto> mdata)) (filter P (meta_subs ls ! index)) (msub_mdata ls)\<rparr>"

definition ls_add_meta :: "ss_storage \<Rightarrow> meta_data \<Rightarrow> ss_storage option" where
  "ls_add_meta ls mdata =
     Option.bind (ls_find_meta ls (md_name mdata) (md_int mdata)) (\<lambda>found.
       if found \<noteq> None then Some ls
       else let index = unat (md_version mdata) mod size_hash ls;
                ls = ls\<lparr>meta_hash := (meta_hash ls)[index := mdata # meta_hash ls ! index]\<rparr>;
                ls = deliver (\<lambda>s. ms_name s = md_name mdata \<and> ms_version s = md_int mdata) mdata index ls
            in Some (deliver (\<lambda>s. ms_name s = md_name mdata) mdata (size_hash ls) ls))"

datatype meta_answer = Answer "meta_data option" | Waiting

text \<open>The subscription up to the first wait; \<open>thread\<close> owns the stack frame of \<^verbatim>\<open>msub\<close>.\<close>

definition subscribe :: "nat \<Rightarrow> string \<Rightarrow> int \<Rightarrow> nat \<Rightarrow> ss_storage \<Rightarrow> ss_storage" where
  "subscribe thread nm version index ls =
     ls\<lparr>meta_subs := (meta_subs ls)[index :=
          \<lparr>ms_thread = thread, ms_name = nm, ms_version = version\<rparr> # meta_subs ls ! index],
        msub_mdata := (msub_mdata ls)(thread := None)\<rparr>"

definition ls_subscribe_meta :: "nat \<Rightarrow> ss_storage \<Rightarrow> string \<Rightarrow> int \<Rightarrow> ss_storage option" where
  "ls_subscribe_meta thread ls nm version =
     map_option (\<lambda>index. subscribe thread nm version index ls) (meta_bin ls version)"

definition ls_subscribe_meta_no_version :: "nat \<Rightarrow> ss_storage \<Rightarrow> string \<Rightarrow> ss_storage" where
  "ls_subscribe_meta_no_version thread ls nm = subscribe thread nm (-1) (size_hash ls) ls"

text \<open>The end of the wait loop: a thread goes on when its cell is set.\<close>

definition ls_resume_meta :: "nat \<Rightarrow> ss_storage \<Rightarrow> meta_answer" where
  "ls_resume_meta thread ls = (case msub_mdata ls thread of None \<Rightarrow> Waiting | Some m \<Rightarrow> Answer (Some m))"

definition meta_find_entry ::
  "nat \<Rightarrow> ss_storage \<Rightarrow> string \<Rightarrow> int \<Rightarrow> bool \<Rightarrow> (meta_answer \<times> ss_storage) option" where
  "meta_find_entry thread ls nm version wait =
     Option.bind (ls_find_meta ls nm version) (\<lambda>mdata.
       if mdata \<noteq> None \<or> \<not> wait then Some (Answer mdata, ls)
       else map_option (\<lambda>ls. (Waiting, ls)) (ls_subscribe_meta thread ls nm version))"

text \<open>\<open>next_in_bin\<close> is the inner loop of \<^verbatim>\<open>meta_find_next_entry\<close> with its \<^verbatim>\<open>break\<close>.\<close>

fun next_in_bin :: "string \<Rightarrow> int \<Rightarrow> nat \<Rightarrow> meta_data list \<Rightarrow> meta_data option \<Rightarrow> meta_data option" where
  "next_in_bin nm cur sz [] mdres = mdres"
| "next_in_bin nm cur sz (mdata # list) mdres =
     (if md_name mdata = nm \<and> md_int mdata > cur \<and>
         (case mdres of None \<Rightarrow> True | Some r \<Rightarrow> md_version mdata < md_version r)
      then (if md_int mdata < cur + int sz then Some mdata
            else next_in_bin nm cur sz list (Some mdata))
      else next_in_bin nm cur sz list mdres)"

fun next_loop :: "ss_storage \<Rightarrow> string \<Rightarrow> int \<Rightarrow> nat list \<Rightarrow> meta_data option \<Rightarrow> meta_data option option" where
  "next_loop ls nm cur [] mdres = Some mdres"
| "next_loop ls nm cur (i # is) mdres =
     Option.bind (meta_bin ls (cur + int i + 1)) (\<lambda>index.
       next_loop ls nm cur is (next_in_bin nm cur (size_hash ls) (meta_hash ls ! index) mdres))"

definition meta_find_next_entry ::
  "nat \<Rightarrow> ss_storage \<Rightarrow> string \<Rightarrow> int \<Rightarrow> bool \<Rightarrow> (meta_answer \<times> ss_storage) option" where
  "meta_find_next_entry thread ls nm cur wait =
     (if cur + int (size_hash ls) > 2147483647 then None
      else Option.bind (next_loop ls nm cur [0..<size_hash ls] None) (\<lambda>mdres.
        if mdres \<noteq> None \<or> \<not> wait then Some (Answer mdres, ls)
        else Some (Waiting, ls_subscribe_meta_no_version thread ls nm)))"

section \<open>Queries\<close>

text \<open>The \<^verbatim>\<open>do ... while(mdlatest)\<close> loop of the mode \<^verbatim>\<open>META_MODE_LAST\<close>, on an unchanging store.\<close>

partial_function (option) find_last :: "nat \<Rightarrow> ss_storage \<Rightarrow> string \<Rightarrow> meta_data \<Rightarrow> meta_data option" where
  "find_last thread ls nm mdata =
     Option.bind (meta_find_next_entry thread ls nm (md_int mdata) False) (\<lambda>(r, ls').
       case r of Answer (Some mdlatest) \<Rightarrow> find_last thread ls' nm mdlatest | _ \<Rightarrow> Some mdata)"

declare find_last.simps [code]

definition META_MODE_SPEC :: int where "META_MODE_SPEC = 1"
definition META_MODE_NEXT :: int where "META_MODE_NEXT = 2"
definition META_MODE_LAST :: int where "META_MODE_LAST = 3"

text \<open>
  The part of \<^verbatim>\<open>query_meta_rpc\<close> that answers from the local store. An unknown mode leaves
  \<^verbatim>\<open>mdata\<close> uninitialised, which is undefined behaviour.
\<close>

definition query_meta_local ::
  "nat \<Rightarrow> ss_storage \<Rightarrow> string \<Rightarrow> int \<Rightarrow> int \<Rightarrow> (meta_answer \<times> ss_storage) option" where
  "query_meta_local thread ls nm version mode =
     (if mode = META_MODE_SPEC then meta_find_entry thread ls nm version False
      else if mode = META_MODE_NEXT then meta_find_next_entry thread ls nm version True
      else if mode = META_MODE_LAST then
        Option.bind (meta_find_next_entry thread ls nm version True) (\<lambda>(r, ls').
          case r of
            Answer (Some mdata) \<Rightarrow> map_option (\<lambda>m. (Answer (Some m), ls')) (find_last thread ls' nm mdata)
          | _ \<Rightarrow> Some (r, ls'))
      else None)"

definition peek_meta_local :: "ss_storage \<Rightarrow> string \<Rightarrow> int option" where
  "peek_meta_local ls nm =
     map_option (\<lambda>(r, _). case r of Answer (Some _) \<Rightarrow> 1 | _ \<Rightarrow> 0) (meta_find_next_entry 0 ls nm (-1) False)"

section \<open>Invariant\<close>

definition metas :: "ss_storage \<Rightarrow> meta_data set" where
  "metas ls = set (concat (meta_hash ls))"

definition md_nat :: "meta_data \<Rightarrow> nat" where
  "md_nat m = unat (md_version m)"

definition md_small :: "meta_data \<Rightarrow> bool" where
  "md_small m \<longleftrightarrow> md_nat m < 2147483648"

text \<open>
  Every entry is in the bin of its version, versions are not negative as C \<^verbatim>\<open>int\<close>s, there is a
  subscription list per bin and one more, and no thread waits in a bin for an entry that is
  stored.
\<close>

definition meta_inv :: "ss_storage \<Rightarrow> bool" where
  "meta_inv ls \<longleftrightarrow> 0 < size_hash ls \<and> length (meta_hash ls) = size_hash ls \<and>
     length (meta_subs ls) = Suc (size_hash ls) \<and>
     keyed (\<lambda>m. md_nat m mod size_hash ls) (meta_hash ls) \<and>
     (\<forall>m\<in>metas ls. md_small m) \<and>
     (\<forall>i < size_hash ls. \<forall>s\<in>set (meta_subs ls ! i). 0 \<le> ms_version s \<and>
        nat (ms_version s) mod size_hash ls = i \<and>
        (\<forall>m\<in>metas ls. \<not> (md_name m = ms_name s \<and> md_int m = ms_version s)))"

lemma md_int_small: "md_small m \<Longrightarrow> md_int m = int (md_nat m)"
proof -
  assume "md_small m"
  then have "int (unat (md_version m)) < int 2147483648" unfolding md_small_def md_nat_def of_nat_less_iff .
  then have u: "uint (md_version m) < 2147483648" "0 \<le> uint (md_version m)" by simp_all
  have "sint (md_version m) = signed_take_bit 31 (uint (md_version m))" by (simp add: sint_uint)
  also have "\<dots> = uint (md_version m)"
    using u by (intro signed_take_bit_int_eq_self order_trans [OF _ u(2)]) simp_all
  finally show ?thesis by (simp add: md_int_def md_nat_def)
qed

lemma md_version_le: "md_version m \<le> md_version x \<longleftrightarrow> md_nat m \<le> md_nat x"
  "md_version m < md_version x \<longleftrightarrow> md_nat m < md_nat x"
  by (simp_all add: md_nat_def word_le_nat_alt word_less_nat_alt)

lemma meta_bin_nonneg: "0 < size_hash ls \<Longrightarrow> 0 \<le> v \<Longrightarrow> meta_bin ls v = Some (nat v mod size_hash ls)"
  by (auto simp: meta_bin_def Let_def smod_int_alt_def sgn_if nat_mod_distrib not_less)

lemma meta_inv_alloc [wf_intros]: "0 < n \<Longrightarrow> meta_inv (ls_alloc n)"
  by (simp add: meta_inv_def ls_alloc_def metas_def keyed_def nth_replicate del: replicate.simps)

lemma meta_invD:
  assumes "meta_inv ls"
  shows "0 < size_hash ls" "length (meta_hash ls) = size_hash ls"
    "length (meta_subs ls) = Suc (size_hash ls)"
    "keyed (\<lambda>m. md_nat m mod size_hash ls) (meta_hash ls)"
    "\<And>m. m \<in> metas ls \<Longrightarrow> md_small m"
  using assms by (auto simp: meta_inv_def)

lemma meta_inv_sub:
  assumes "meta_inv ls" "i < size_hash ls" "s \<in> set (meta_subs ls ! i)"
  shows "0 \<le> ms_version s" "nat (ms_version s) mod size_hash ls = i"
    "m \<in> metas ls \<Longrightarrow> \<not> (md_name m = ms_name s \<and> md_int m = ms_version s)"
  using assms unfolding meta_inv_def by blast+

lemma metas_nth: "i < length (meta_hash ls) \<Longrightarrow> m \<in> set (meta_hash ls ! i) \<Longrightarrow> m \<in> metas ls"
  using nth_mem [of i "meta_hash ls"] by (auto simp: metas_def)

lemma metas_bin:
  assumes "meta_inv ls"
  shows "m \<in> metas ls \<longleftrightarrow> m \<in> set (meta_hash ls ! (md_nat m mod size_hash ls))"
  using keyed_in_concat [OF meta_invD(4) [OF assms], of m] meta_invD(1,2) [OF assms] by (simp add: metas_def)

lemma ls_find_meta_props:
  assumes "meta_inv ls" "0 \<le> v"
  shows "\<exists>r. ls_find_meta ls nm v = Some r \<and>
    (case r of None \<Rightarrow> \<forall>m\<in>metas ls. \<not> (md_name m = nm \<and> md_int m = v)
     | Some m \<Rightarrow> m \<in> metas ls \<and> md_name m = nm \<and> md_int m = v)"
proof -
  let ?i = "nat v mod size_hash ls"
  note inv = meta_invD [OF assms(1)]
  have i: "?i < length (meta_hash ls)" using inv(1,2) by simp
  have f: "ls_find_meta ls nm v = Some (find (\<lambda>m. nm = md_name m \<and> md_int m = v) (meta_hash ls ! ?i))"
    using inv(1) assms(2) by (simp add: ls_find_meta_def meta_bin_nonneg)
  have bin: "m \<in> set (meta_hash ls ! ?i)" if "m \<in> metas ls" "md_int m = v" for m
    using that metas_bin [OF assms(1), of m] md_int_small [OF inv(5) [OF that(1)]] by auto
  note sub = metas_nth [OF i]
  show ?thesis
    unfolding f using bin sub
    by (auto simp: find_None_iff find_Some_iff split: option.splits)
qed

section \<open>The next version\<close>

text \<open>The entries of a name newer than \<open>cur\<close>, and the oldest of a set of entries.\<close>

definition newer :: "string \<Rightarrow> int \<Rightarrow> meta_data set \<Rightarrow> meta_data set" where
  "newer nm cur M = {m \<in> M. md_name m = nm \<and> cur < md_int m}"

definition oldest :: "meta_data set \<Rightarrow> meta_data option \<Rightarrow> bool" where
  "oldest M r \<longleftrightarrow> (case r of None \<Rightarrow> M = {}
     | Some m \<Rightarrow> m \<in> M \<and> (\<forall>x\<in>M. md_version m \<le> md_version x))"

lemma oldest_smaller:
  assumes "oldest M r" "\<forall>x\<in>N. md_version m \<le> md_version x" "m \<in> N"
    "case r of None \<Rightarrow> True | Some r' \<Rightarrow> md_version m < md_version r'"
  shows "oldest (M \<union> N) (Some m)"
  using assms unfolding oldest_def md_version_le
  by (cases r) (auto dest: bspec intro: order_trans less_imp_le)

lemma same_bin_le:
  assumes "md_small m" "md_small x" "cur < md_int x" "md_int m < cur + int sz"
    and "md_nat m mod sz = md_nat x mod sz"
  shows "md_version m \<le> md_version x"
proof (rule ccontr)
  assume "\<not> md_version m \<le> md_version x"
  then have lt: "md_nat x < md_nat m" by (simp add: md_version_le)
  have "sz dvd md_nat m - md_nat x"
    using assms(5) lt by (simp add: mod_eq_dvd_iff_nat)
  then have "sz \<le> md_nat m - md_nat x" using lt by (intro dvd_imp_le) simp_all
  then show False using assms(1-4) lt by (simp add: md_int_small)
qed

lemma next_in_bin_oldest:
  assumes "\<And>m. m \<in> set ms \<Longrightarrow> md_small m \<and> md_nat m mod sz = i" "oldest M r"
  shows "oldest (M \<union> newer nm cur (set ms)) (next_in_bin nm cur sz ms r)"
  using assms
proof (induction ms arbitrary: M r)
  case Nil
  then show ?case by (simp add: newer_def)
next
  case (Cons m ms)
  let ?cand = "md_name m = nm \<and> cur < md_int m"
  let ?less = "case r of None \<Rightarrow> True | Some r' \<Rightarrow> md_version m < md_version r'"
  have split: "newer nm cur (set (m # ms)) = (if ?cand then {m} else {}) \<union> newer nm cur (set ms)"
    by (auto simp: newer_def)
  consider "?cand" "?less" "md_int m < cur + int sz" | "?cand" "?less" "\<not> md_int m < cur + int sz"
    | "?cand" "\<not> ?less" | "\<not> ?cand" by blast
  then show ?case
  proof cases
    case 1
    have "\<forall>x\<in>{m} \<union> newer nm cur (set ms). md_version m \<le> md_version x"
      using Cons.prems(1) 1 by (auto simp: newer_def intro!: same_bin_le)
    then have "oldest (M \<union> ({m} \<union> newer nm cur (set ms))) (Some m)"
      using Cons.prems(2) 1(2) by (intro oldest_smaller) auto
    moreover have "next_in_bin nm cur sz (m # ms) r = Some m" using 1 by simp
    ultimately show ?thesis using 1(1) unfolding split by simp
  next
    case 2
    have "oldest (M \<union> {m}) (Some m)" using Cons.prems(2) 2(2) by (intro oldest_smaller) auto
    moreover have "next_in_bin nm cur sz (m # ms) r = next_in_bin nm cur sz ms (Some m)" using 2 by simp
    ultimately show ?thesis using Cons.IH [of "M \<union> {m}" "Some m"] Cons.prems(1) 2(1) unfolding split by simp
  next
    case 3
    have "oldest (M \<union> {m}) r"
      using Cons.prems(2) 3(2) by (auto simp: oldest_def not_less split: option.splits)
    moreover have "next_in_bin nm cur sz (m # ms) r = next_in_bin nm cur sz ms r" using 3 by auto
    ultimately show ?thesis using Cons.IH [of "M \<union> {m}" r] Cons.prems(1) 3(1) unfolding split by simp
  next
    case 4
    then have "next_in_bin nm cur sz (m # ms) r = next_in_bin nm cur sz ms r" by auto
    then show ?thesis using Cons.IH [OF _ Cons.prems(2)] Cons.prems(1) 4 unfolding split by auto
  qed
qed

lemma next_loop_oldest:
  assumes "meta_inv ls" "-1 \<le> cur" "oldest M r"
  shows "\<exists>r'. next_loop ls nm cur is r = Some r' \<and>
    oldest (M \<union> (\<Union>i\<in>set is. newer nm cur (set (meta_hash ls ! (nat (cur + int i + 1) mod size_hash ls))))) r'"
  using assms(3)
proof (induction "is" arbitrary: M r)
  case Nil
  then show ?case by simp
next
  case (Cons i "is")
  let ?j = "nat (cur + int i + 1) mod size_hash ls"
  note inv = meta_invD [OF assms(1)]
  have j: "?j < length (meta_hash ls)" using inv(1,2) by simp
  then have "md_small m \<and> md_nat m mod size_hash ls = ?j" if "m \<in> set (meta_hash ls ! ?j)" for m
    using that inv(4) inv(5) [OF metas_nth [OF j that]] by (auto simp: keyed_def)
  from next_in_bin_oldest [OF this Cons.prems, of "meta_hash ls ! ?j" nm cur]
  have o: "oldest (M \<union> newer nm cur (set (meta_hash ls ! ?j)))
      (next_in_bin nm cur (size_hash ls) (meta_hash ls ! ?j) r)" .
  have "meta_bin ls (cur + int i + 1) = Some ?j"
    using assms(2) inv(1) by (intro meta_bin_nonneg) auto
  with Cons.IH [OF o] show ?case by (simp add: Un_assoc)
qed

lemma window_covers_bins:
  assumes "0 < n" "k < n" "-1 \<le> cur"
  shows "\<exists>i<n. nat (cur + int i + 1) mod n = k"
proof -
  let ?c = "nat (cur + 1) mod n"
  have c: "?c < n" using assms(1) by simp
  let ?i = "(k + n - ?c) mod n"
  have "nat (cur + int ?i + 1) = nat (cur + 1) + ?i" using assms(3) by (simp add: nat_add_distrib)
  then have "nat (cur + int ?i + 1) mod n = (?c + (k + n - ?c)) mod n"
    by (simp add: mod_add_eq mod_add_left_eq mod_add_right_eq)
  also have "?c + (k + n - ?c) = k + n" using c by linarith
  also have "(k + n) mod n = k" using assms(2) by simp
  finally show ?thesis using assms(1) by (intro exI [of _ ?i]) simp
qed

lemma next_loop_all:
  assumes "meta_inv ls" "-1 \<le> cur"
  obtains r where "next_loop ls nm cur [0..<size_hash ls] None = Some r" "oldest (newer nm cur (metas ls)) r"
proof -
  note inv = meta_invD [OF assms(1)]
  have "oldest {} None" by (simp add: oldest_def)
  from next_loop_oldest [OF assms this, of nm "[0..<size_hash ls]"] obtain r where
    r: "next_loop ls nm cur [0..<size_hash ls] None = Some r"
    "oldest (\<Union>i\<in>{0..<size_hash ls}. newer nm cur (set (meta_hash ls ! (nat (cur + int i + 1) mod size_hash ls)))) r"
    by auto
  have "(\<Union>i\<in>{0..<size_hash ls}. newer nm cur (set (meta_hash ls ! (nat (cur + int i + 1) mod size_hash ls)))) =
      newer nm cur (metas ls)" (is "?U = _")
  proof
    show "?U \<subseteq> newer nm cur (metas ls)" using inv(1,2) by (auto simp: newer_def metas_def)
    show "newer nm cur (metas ls) \<subseteq> ?U"
    proof
      fix m assume m: "m \<in> newer nm cur (metas ls)"
      let ?k = "md_nat m mod size_hash ls"
      obtain i where "i < size_hash ls" "nat (cur + int i + 1) mod size_hash ls = ?k"
        using window_covers_bins [OF inv(1) _ assms(2), of ?k] inv(1) by auto
      moreover have "m \<in> set (meta_hash ls ! ?k)"
        using m metas_bin [OF assms(1), of m] by (simp add: newer_def)
      ultimately show "m \<in> ?U" using m by (intro UN_I [of i]) (auto simp: newer_def)
    qed
  qed
  with r that show thesis by simp
qed

lemma meta_find_next_entry_alt:
  assumes "meta_inv ls" "-1 \<le> cur" "cur + int (size_hash ls) \<le> 2147483647"
  obtains r where "oldest (newer nm cur (metas ls)) r"
    "meta_find_next_entry t ls nm cur wait =
      Some (if r \<noteq> None \<or> \<not> wait then (Answer r, ls) else (Waiting, ls_subscribe_meta_no_version t ls nm))"
proof -
  obtain r where "next_loop ls nm cur [0..<size_hash ls] None = Some r" "oldest (newer nm cur (metas ls)) r"
    using next_loop_all [OF assms(1,2)] .
  with assms(3) that show thesis by (simp add: meta_find_next_entry_def)
qed

text \<open>
  \<^verbatim>\<open>meta_find_next_entry\<close> returns the entry of the name with the lowest version above the given
  one; the \<^verbatim>\<open>break\<close> out of a bin never skips it. When there is none it returns NULL, or the
  thread waits if asked to.
\<close>

theorem meta_find_next_entry_lowest:
  assumes "meta_inv ls" "-1 \<le> cur" "cur + int (size_hash ls) \<le> 2147483647"
  shows "\<exists>r ls'. meta_find_next_entry t ls nm cur wait = Some (r, ls') \<and>
    (case r of
       Answer (Some m) \<Rightarrow> m \<in> metas ls \<and> md_name m = nm \<and> cur < md_int m \<and>
         (\<forall>x\<in>metas ls. md_name x = nm \<and> cur < md_int x \<longrightarrow> md_int m \<le> md_int x) \<and> ls' = ls
     | Answer None \<Rightarrow> \<not> wait \<and> (\<forall>x\<in>metas ls. \<not> (md_name x = nm \<and> cur < md_int x)) \<and> ls' = ls
     | Waiting \<Rightarrow> wait \<and> (\<forall>x\<in>metas ls. \<not> (md_name x = nm \<and> cur < md_int x)))"
proof -
  obtain r where r: "oldest (newer nm cur (metas ls)) r"
    "meta_find_next_entry t ls nm cur wait =
      Some (if r \<noteq> None \<or> \<not> wait then (Answer r, ls) else (Waiting, ls_subscribe_meta_no_version t ls nm))"
    using meta_find_next_entry_alt [OF assms] .
  have "md_int m \<le> md_int x" if "m \<in> metas ls" "x \<in> metas ls" "md_version m \<le> md_version x" for m x
    using that meta_invD(5) [OF assms(1)] by (simp add: md_int_small md_version_le)
  with r show ?thesis
    by (cases r) (auto simp: oldest_def newer_def)
qed

definition ex_meta :: "u32 \<Rightarrow> meta_data" where
  "ex_meta v = \<lparr>md_name = ''m'', md_version = v, md_length = 0, md_data = []\<rparr>"

definition ex_meta_store :: ss_storage where
  "ex_meta_store = (ls_alloc 2)\<lparr>meta_hash := [[ex_meta 6, ex_meta 4], [ex_meta 5]]\<rparr>"

lemma ex_meta_store_inv: "meta_inv ex_meta_store" "size_hash ex_meta_store = 2"
  "metas ex_meta_store = {ex_meta 6, ex_meta 4, ex_meta 5}"
proof -
  show m: "metas ex_meta_store = {ex_meta 6, ex_meta 4, ex_meta 5}"
    by (simp add: metas_def ex_meta_store_def insert_commute)
  show "meta_inv ex_meta_store"
    unfolding meta_inv_def m
    by (simp add: ex_meta_store_def ls_alloc_def keyed_def md_small_def md_nat_def ex_meta_def
        all_less_two All_less_Suc)
qed (simp add: ex_meta_store_def ls_alloc_def)

theorem meta_find_next_entry_lowest_witness:
  "\<exists>ls'. meta_find_next_entry 0 ex_meta_store ''m'' 4 True = Some (Answer (Some (ex_meta 5)), ls') \<and>
     (\<forall>x\<in>metas ex_meta_store. md_name x = ''m'' \<and> 4 < md_int x \<longrightarrow> md_int (ex_meta 5) \<le> md_int x)"
proof -
  have "map_option fst (meta_find_next_entry 0 ex_meta_store ''m'' 4 True) = Some (Answer (Some (ex_meta 5)))"
    by code_simp
  then obtain ls' where e: "meta_find_next_entry 0 ex_meta_store ''m'' 4 True = Some (Answer (Some (ex_meta 5)), ls')"
    by auto
  have "\<forall>x\<in>metas ex_meta_store. md_name x = ''m'' \<and> 4 < md_int x \<longrightarrow> md_int (ex_meta 5) \<le> md_int x"
    using meta_find_next_entry_lowest [OF ex_meta_store_inv(1), of 4 0 "''m''" True]
    unfolding e by (simp add: ex_meta_store_inv(2))
  with e show ?thesis by blast
qed

section \<open>The last version\<close>

lemma newer_psubset:
  assumes "m \<in> newer nm cur M"
  shows "newer nm (md_int m) M \<subset> newer nm cur M"
  using assms by (auto simp: newer_def)

text \<open>
  The loop of a \<^verbatim>\<open>META_MODE_LAST\<close> query ends, and the query returns the highest stored version of
  the name, provided one above the given version is stored.
\<close>

theorem find_last_highest:
  assumes "meta_inv ls" "m \<in> metas ls" "md_name m = nm"
    and "\<forall>x\<in>metas ls. md_int x + int (size_hash ls) \<le> 2147483647"
  shows "\<exists>m'. find_last t ls nm m = Some m' \<and> m' \<in> metas ls \<and> md_name m' = nm \<and>
    (\<forall>x\<in>metas ls. md_name x = nm \<longrightarrow> md_int x \<le> md_int m')"
  using assms(2,3)
proof (induction "card (newer nm (md_int m) (metas ls))" arbitrary: m rule: less_induct)
  case less
  have nn: "-1 \<le> md_int m" using meta_invD(5) [OF assms(1) less.prems(1)] by (simp add: md_int_small)
  have bound: "md_int m + int (size_hash ls) \<le> 2147483647" using assms(4) less.prems(1) by blast
  obtain r where r: "oldest (newer nm (md_int m) (metas ls)) r"
    "meta_find_next_entry t ls nm (md_int m) False = Some (Answer r, ls)"
    using meta_find_next_entry_alt [OF assms(1) nn bound, of nm t False] by auto
  show ?case
  proof (cases r)
    case None
    then have "newer nm (md_int m) (metas ls) = {}" using r(1) by (simp add: oldest_def)
    then have "\<forall>x\<in>metas ls. md_name x = nm \<longrightarrow> md_int x \<le> md_int m" by (auto simp: newer_def not_less)
    with None r(2) less.prems show ?thesis by (subst find_last.simps) simp
  next
    case (Some m2)
    then have m2: "m2 \<in> newer nm (md_int m) (metas ls)" using r(1) by (simp add: oldest_def)
    have "finite (newer nm (md_int m) (metas ls))" by (simp add: newer_def metas_def)
    from psubset_card_mono [OF this newer_psubset [OF m2]] less.hyps [of m2] m2
    have "\<exists>m'. find_last t ls nm m2 = Some m' \<and> m' \<in> metas ls \<and> md_name m' = nm \<and>
      (\<forall>x\<in>metas ls. md_name x = nm \<longrightarrow> md_int x \<le> md_int m')" by (simp add: newer_def)
    with Some r(2) show ?thesis by (subst find_last.simps) simp
  qed
qed

theorem find_last_highest_witness:
  "find_last 0 ex_meta_store ''m'' (ex_meta 4) = Some (ex_meta 6) \<and>
   (\<exists>m'. find_last 0 ex_meta_store ''m'' (ex_meta 4) = Some m' \<and> m' \<in> metas ex_meta_store \<and>
     (\<forall>x\<in>metas ex_meta_store. md_name x = ''m'' \<longrightarrow> md_int x \<le> md_int m'))"
proof
  show "find_last 0 ex_meta_store ''m'' (ex_meta 4) = Some (ex_meta 6)" by code_simp
  have "\<forall>x\<in>metas ex_meta_store. md_int x + int (size_hash ex_meta_store) \<le> 2147483647"
    unfolding ex_meta_store_inv(2,3) by code_simp
  with find_last_highest [OF ex_meta_store_inv(1), of "ex_meta 4" "''m''" 0]
  show "\<exists>m'. find_last 0 ex_meta_store ''m'' (ex_meta 4) = Some m' \<and> m' \<in> metas ex_meta_store \<and>
     (\<forall>x\<in>metas ex_meta_store. md_name x = ''m'' \<longrightarrow> md_int x \<le> md_int m')"
    by (auto simp: ex_meta_store_inv(3) ex_meta_def)
qed

section \<open>Publishing and waiting\<close>

lemma deliver_cells:
  "msub_mdata (deliver P m i ls) t =
     (if t \<in> ms_thread ` set (filter P (meta_subs ls ! i)) then Some m else msub_mdata ls t)"
proof -
  have "fold (\<lambda>s cells. cells(ms_thread s \<mapsto> m)) ss c t =
      (if t \<in> ms_thread ` set ss then Some m else c t)"
    for ss :: "meta_sub list" and c :: "nat \<rightharpoonup> meta_data"
    by (induction ss arbitrary: c) auto
  then show ?thesis by (simp add: deliver_def)
qed

lemma deliver_sel:
  "size_hash (deliver P m i ls) = size_hash ls" "meta_hash (deliver P m i ls) = meta_hash ls"
  "metas (deliver P m i ls) = metas ls"
  "length (meta_subs (deliver P m i ls)) = length (meta_subs ls)"
  "i < length (meta_subs ls) \<Longrightarrow> meta_subs (deliver P m i ls) ! j =
     (if j = i then filter (\<lambda>s. \<not> P s) (meta_subs ls ! i) else meta_subs ls ! j)"
  by (simp_all add: deliver_def metas_def)

text \<open>The store after a new entry is published.\<close>

definition publish :: "meta_data \<Rightarrow> ss_storage \<Rightarrow> ss_storage" where
  "publish m ls =
     (let ls = ls\<lparr>meta_hash := (meta_hash ls)[md_nat m mod size_hash ls := m # meta_hash ls ! (md_nat m mod size_hash ls)]\<rparr>
      in deliver (\<lambda>s. ms_name s = md_name m) m (size_hash ls)
           (deliver (\<lambda>s. ms_name s = md_name m \<and> ms_version s = md_int m) m (md_nat m mod size_hash ls) ls))"

lemma ls_add_meta_alt:
  assumes "meta_inv ls" "md_small m"
  shows "ls_add_meta ls m =
    Some (if \<exists>x\<in>metas ls. md_name x = md_name m \<and> md_int x = md_int m then ls else publish m ls)"
proof -
  have "0 \<le> md_int m" using assms(2) by (simp add: md_int_small)
  from ls_find_meta_props [OF assms(1) this, of "md_name m"] obtain r where
    r: "ls_find_meta ls (md_name m) (md_int m) = Some r"
    "case r of None \<Rightarrow> \<forall>x\<in>metas ls. \<not> (md_name x = md_name m \<and> md_int x = md_int m)
     | Some x \<Rightarrow> x \<in> metas ls \<and> md_name x = md_name m \<and> md_int x = md_int m" by blast
  show ?thesis
  proof (cases r)
    case None
    then show ?thesis using r
      by (auto simp: ls_add_meta_def publish_def Let_def md_nat_def deliver_sel)
  next
    case (Some x)
    then show ?thesis using r by (auto simp: ls_add_meta_def)
  qed
qed

lemma publish_props:
  assumes inv: "meta_inv ls" and m: "md_small m"
  shows "metas (publish m ls) = insert m (metas ls)" "size_hash (publish m ls) = size_hash ls"
    "meta_hash (publish m ls) = (meta_hash ls)[md_nat m mod size_hash ls := m # meta_hash ls ! (md_nat m mod size_hash ls)]"
    "length (meta_subs (publish m ls)) = length (meta_subs ls)"
    "i < size_hash ls \<Longrightarrow> meta_subs (publish m ls) ! i =
       (if i = md_nat m mod size_hash ls
        then filter (\<lambda>s. \<not> (ms_name s = md_name m \<and> ms_version s = md_int m)) (meta_subs ls ! i)
        else meta_subs ls ! i)"
    "meta_subs (publish m ls) ! size_hash ls = filter (\<lambda>s. ms_name s \<noteq> md_name m) (meta_subs ls ! size_hash ls)"
    "s \<in> set (meta_subs ls ! (md_nat m mod size_hash ls)) \<Longrightarrow> ms_name s = md_name m \<Longrightarrow> ms_version s = md_int m \<Longrightarrow>
       msub_mdata (publish m ls) (ms_thread s) = Some m"
    "s \<in> set (meta_subs ls ! size_hash ls) \<Longrightarrow> ms_name s = md_name m \<Longrightarrow>
       msub_mdata (publish m ls) (ms_thread s) = Some m"
proof -
  let ?k = "md_nat m mod size_hash ls"
  have k: "?k < size_hash ls" "?k < length (meta_hash ls)" "size_hash ls < length (meta_subs ls)"
    "?k < length (meta_subs ls)"
    using meta_invD [OF inv] by (simp_all add: less_SucI)
  show "metas (publish m ls) = insert m (metas ls)"
    using set_concat_push [OF k(2), of m] by (simp add: publish_def Let_def deliver_def metas_def)
  show "size_hash (publish m ls) = size_hash ls"
    "meta_hash (publish m ls) = (meta_hash ls)[?k := m # meta_hash ls ! ?k]"
    "length (meta_subs (publish m ls)) = length (meta_subs ls)"
    by (simp_all add: publish_def Let_def deliver_sel)
  show "i < size_hash ls \<Longrightarrow> meta_subs (publish m ls) ! i =
       (if i = ?k then filter (\<lambda>s. \<not> (ms_name s = md_name m \<and> ms_version s = md_int m)) (meta_subs ls ! i)
        else meta_subs ls ! i)"
    "meta_subs (publish m ls) ! size_hash ls = filter (\<lambda>s. ms_name s \<noteq> md_name m) (meta_subs ls ! size_hash ls)"
    using k by (auto simp: publish_def Let_def deliver_sel)
  show "msub_mdata (publish m ls) (ms_thread s) = Some m"
    if "s \<in> set (meta_subs ls ! ?k)" "ms_name s = md_name m" "ms_version s = md_int m"
    using that k by (auto simp: publish_def Let_def deliver_cells deliver_sel)
  show "msub_mdata (publish m ls) (ms_thread s) = Some m"
    if "s \<in> set (meta_subs ls ! size_hash ls)" "ms_name s = md_name m"
    using that k by (auto simp: publish_def Let_def deliver_cells deliver_sel)
qed

lemma meta_inv_publish [wf_intros]:
  assumes inv: "meta_inv ls" and m: "md_small m"
  shows "meta_inv (publish m ls)"
proof -
  let ?k = "md_nat m mod size_hash ls"
  note p = publish_props [OF inv m] and i = meta_invD [OF inv]
  have k: "?k < length (meta_hash ls)" using i by simp
  have "keyed (\<lambda>m. md_nat m mod size_hash ls) (meta_hash (publish m ls))"
    unfolding p(3) using i(4) k by (intro keyed_update) (auto simp: keyed_def)
  moreover have "0 \<le> ms_version s \<and> nat (ms_version s) mod size_hash ls = j \<and>
      (\<forall>x\<in>metas (publish m ls). \<not> (md_name x = ms_name s \<and> md_int x = ms_version s))"
    if "j < size_hash ls" "s \<in> set (meta_subs (publish m ls) ! j)" for j s
  proof -
    have s: "s \<in> set (meta_subs ls ! j)" using that by (auto simp: p(5) split: if_splits)
    then have old: "0 \<le> ms_version s" "nat (ms_version s) mod size_hash ls = j"
      "\<forall>x\<in>metas ls. \<not> (md_name x = ms_name s \<and> md_int x = ms_version s)"
      using inv that(1) by (auto simp: meta_inv_def)
    moreover have "\<not> (md_name m = ms_name s \<and> md_int m = ms_version s)"
    proof
      assume eq: "md_name m = ms_name s \<and> md_int m = ms_version s"
      then have "nat (ms_version s) = md_nat m" using md_int_small [OF m] by (metis nat_int)
      with old(2) have "j = ?k" by simp
      with that eq show False by (simp add: p(5))
    qed
    ultimately show ?thesis by (simp add: p(1))
  qed
  ultimately show ?thesis
    using i m p(1,2,4) by (auto simp: meta_inv_def p(3))
qed

lemma meta_inv_subscribe:
  assumes inv: "meta_inv ls" and "0 \<le> v" "i = nat v mod size_hash ls"
    and "\<forall>m\<in>metas ls. \<not> (md_name m = nm \<and> md_int m = v)"
  shows "meta_inv (subscribe t nm v i ls)"
proof -
  let ?s = "\<lparr>ms_thread = t, ms_name = nm, ms_version = v\<rparr>" and ?ls = "subscribe t nm v i ls"
  have i: "i < length (meta_subs ls)" using meta_invD(1,3) [OF inv] assms(3) by (simp add: less_SucI)
  have same: "metas ?ls = metas ls" "size_hash ?ls = size_hash ls" "meta_hash ?ls = meta_hash ls"
    by (simp_all add: subscribe_def metas_def)
  have "s = ?s \<and> j = i \<or> s \<in> set (meta_subs ls ! j)" if "s \<in> set (meta_subs ?ls ! j)" for s j
    using that i by (cases "j = i") (auto simp: subscribe_def)
  then have "0 \<le> ms_version s \<and> nat (ms_version s) mod size_hash ls = j \<and>
      (\<forall>m\<in>metas ls. \<not> (md_name m = ms_name s \<and> md_int m = ms_version s))"
    if "j < size_hash ls" "s \<in> set (meta_subs ?ls ! j)" for s j
    using that assms(2-4) meta_inv_sub [OF inv, of j s] by fastforce
  then show ?thesis
    using meta_invD [OF inv] unfolding meta_inv_def same by (simp add: subscribe_def)
qed

lemma meta_inv_subscribe_no_version:
  assumes inv: "meta_inv ls"
  shows "meta_inv (ls_subscribe_meta_no_version t ls nm)"
  using assms by (auto simp: meta_inv_def ls_subscribe_meta_no_version_def subscribe_def metas_def nth_list_update)

text \<open>
  Publishing metadata reaches the readers. Unless an entry of its name and version is stored
  already (then nothing changes), the entry can be found afterwards, every thread that waits for
  its name and version, or for any version of its name, gets it, and leaves the waiting lists.
\<close>

theorem ls_add_meta_delivers:
  assumes "meta_inv ls" "md_small m" "\<forall>x\<in>metas ls. \<not> (md_name x = md_name m \<and> md_int x = md_int m)"
  shows "\<exists>ls'. ls_add_meta ls m = Some ls' \<and> ls_find_meta ls' (md_name m) (md_int m) = Some (Some m) \<and>
    (\<forall>i \<le> size_hash ls. \<forall>s\<in>set (meta_subs ls ! i).
       ms_name s = md_name m \<and> (i = size_hash ls \<or> ms_version s = md_int m) \<longrightarrow>
       ls_resume_meta (ms_thread s) ls' = Answer (Some m) \<and> s \<notin> set (meta_subs ls' ! i))"
proof (intro exI conjI)
  note p = publish_props [OF assms(1,2)]
  have inv': "meta_inv (publish m ls)" using assms(1,2) by (rule meta_inv_publish)
  show "ls_add_meta ls m = Some (publish m ls)"
    using assms by (auto simp: ls_add_meta_alt)
  have "0 \<le> md_int m" using assms(2) by (simp add: md_int_small)
  with ls_find_meta_props [OF inv', of "md_int m" "md_name m"] assms(3)
  show "ls_find_meta (publish m ls) (md_name m) (md_int m) = Some (Some m)"
    by (auto simp: p(1) split: option.splits)
  show "\<forall>i \<le> size_hash ls. \<forall>s\<in>set (meta_subs ls ! i).
       ms_name s = md_name m \<and> (i = size_hash ls \<or> ms_version s = md_int m) \<longrightarrow>
       ls_resume_meta (ms_thread s) (publish m ls) = Answer (Some m) \<and> s \<notin> set (meta_subs (publish m ls) ! i)"
  proof (intro allI impI ballI, elim conjE)
    fix i s assume i: "i \<le> size_hash ls" and s: "s \<in> set (meta_subs ls ! i)" and n: "ms_name s = md_name m"
      and v: "i = size_hash ls \<or> ms_version s = md_int m"
    show "ls_resume_meta (ms_thread s) (publish m ls) = Answer (Some m) \<and> s \<notin> set (meta_subs (publish m ls) ! i)"
    proof (cases "i = size_hash ls")
      case True
      then show ?thesis using s n p(6,8) by (simp add: ls_resume_meta_def)
    next
      case False
      then have lt: "i < size_hash ls" and vs: "ms_version s = md_int m" using i v by auto
      then have "nat (ms_version s) mod size_hash ls = i" using s by (intro meta_inv_sub(2) [OF assms(1)])
      then have "i = md_nat m mod size_hash ls" using vs md_int_small [OF assms(2)] by (metis nat_int)
      then show ?thesis using s n vs lt p(5,7) by (simp add: ls_resume_meta_def)
    qed
  qed
qed

theorem ls_add_meta_delivers_witness:
  "\<exists>ls'. ls_add_meta (subscribe 9 ''m'' 7 1 ex_meta_store) (ex_meta 7) = Some ls' \<and>
     ls_find_meta ls' ''m'' 7 = Some (Some (ex_meta 7)) \<and> ls_resume_meta 9 ls' = Answer (Some (ex_meta 7))"
proof -
  let ?ls = "subscribe 9 ''m'' 7 1 ex_meta_store"
  have ints: "md_int (ex_meta 7) = 7" "md_int (ex_meta 6) = 6" "md_int (ex_meta 5) = 5" "md_int (ex_meta 4) = 4"
    "md_name (ex_meta v) = ''m''" for v by code_simp+
  have m: "metas ?ls = {ex_meta 6, ex_meta 4, ex_meta 5}" "size_hash ?ls = 2"
    using ex_meta_store_inv by (simp_all add: subscribe_def metas_def)
  have "meta_inv ?ls"
    using ex_meta_store_inv by (intro meta_inv_subscribe) (auto simp: ints)
  moreover have "md_small (ex_meta 7)" by (simp add: md_small_def md_nat_def ex_meta_def)
  moreover have "\<forall>x\<in>metas ?ls. \<not> (md_name x = md_name (ex_meta 7) \<and> md_int x = md_int (ex_meta 7))"
    unfolding m by (simp add: ints)
  ultimately obtain ls' where ls': "ls_add_meta ?ls (ex_meta 7) = Some ls'"
    "ls_find_meta ls' (md_name (ex_meta 7)) (md_int (ex_meta 7)) = Some (Some (ex_meta 7))"
    "\<forall>i \<le> size_hash ?ls. \<forall>s\<in>set (meta_subs ?ls ! i).
       ms_name s = md_name (ex_meta 7) \<and> (i = size_hash ?ls \<or> ms_version s = md_int (ex_meta 7)) \<longrightarrow>
       ls_resume_meta (ms_thread s) ls' = Answer (Some (ex_meta 7)) \<and> s \<notin> set (meta_subs ls' ! i)"
    using ls_add_meta_delivers [of ?ls "ex_meta 7"] by blast
  let ?s = "\<lparr>ms_thread = 9, ms_name = ''m'', ms_version = 7\<rparr>"
  have "?s \<in> set (meta_subs ?ls ! 1)" by code_simp
  with ls'(3) [unfolded m(2), rule_format, of 1 ?s] have "ls_resume_meta 9 ls' = Answer (Some (ex_meta 7))"
    by (simp add: m ints)
  with ls'(1,2) show ?thesis by (auto simp: ints)
qed

text \<open>
  The runs of the handlers on the metadata of a store, with the threads that are blocked and what
  each of them asked for. A thread asks again only when it is not blocked.
\<close>

datatype meta_wait = Exactly string int | Newer string int

inductive meta_run :: "nat \<Rightarrow> (nat \<rightharpoonup> meta_wait) \<Rightarrow> ss_storage \<Rightarrow> bool" for n where
  alloc: "meta_run n Map.empty (ls_alloc n)"
| add: "meta_run n W ls \<Longrightarrow> md_small m \<Longrightarrow> ls_add_meta ls m = Some ls' \<Longrightarrow> meta_run n W ls'"
| find: "meta_run n W ls \<Longrightarrow> 0 \<le> version \<Longrightarrow>
    meta_find_entry t ls nm version wait = Some (Answer r, ls') \<Longrightarrow> meta_run n W ls'"
| find_wait: "meta_run n W ls \<Longrightarrow> 0 \<le> version \<Longrightarrow> W t = None \<Longrightarrow>
    meta_find_entry t ls nm version wait = Some (Waiting, ls') \<Longrightarrow> meta_run n (W(t \<mapsto> Exactly nm version)) ls'"
| find_next: "meta_run n W ls \<Longrightarrow> -1 \<le> cur \<Longrightarrow>
    meta_find_next_entry t ls nm cur wait = Some (Answer r, ls') \<Longrightarrow> meta_run n W ls'"
| next_wait: "meta_run n W ls \<Longrightarrow> -1 \<le> cur \<Longrightarrow> W t = None \<Longrightarrow>
    meta_find_next_entry t ls nm cur wait = Some (Waiting, ls') \<Longrightarrow> meta_run n (W(t \<mapsto> Newer nm cur)) ls'"
| resume: "meta_run n W ls \<Longrightarrow> ls_resume_meta t ls = Answer r \<Longrightarrow> meta_run n (W(t := None)) ls"

text \<open>The subscriptions of a thread, with the lists they are in.\<close>

definition subs_of :: "nat \<Rightarrow> ss_storage \<Rightarrow> (nat \<times> meta_sub) set" where
  "subs_of t ls = {(i, s). i \<le> size_hash ls \<and> s \<in> set (meta_subs ls ! i) \<and> ms_thread s = t}"

text \<open>The subscription of a wait, and the entries that end it.\<close>

fun wait_sub :: "nat \<Rightarrow> nat \<Rightarrow> meta_wait \<Rightarrow> nat \<times> meta_sub" where
  "wait_sub n t (Exactly nm v) = (nat v mod n, \<lparr>ms_thread = t, ms_name = nm, ms_version = v\<rparr>)"
| "wait_sub n t (Newer nm cur) = (n, \<lparr>ms_thread = t, ms_name = nm, ms_version = -1\<rparr>)"

fun asks_for :: "meta_wait \<Rightarrow> meta_data \<Rightarrow> bool" where
  "asks_for (Exactly nm v) m \<longleftrightarrow> md_name m = nm \<and> md_int m = v"
| "asks_for (Newer nm cur) m \<longleftrightarrow> md_name m = nm \<and> cur < md_int m"

fun ends_wait :: "meta_wait \<Rightarrow> meta_data \<Rightarrow> bool" where
  "ends_wait (Exactly nm v) m \<longleftrightarrow> md_name m = nm \<and> md_int m = v"
| "ends_wait (Newer nm cur) m \<longleftrightarrow> md_name m = nm"

fun wait_ok :: "nat \<Rightarrow> meta_wait \<Rightarrow> bool" where
  "wait_ok n (Exactly nm v) \<longleftrightarrow> 0 \<le> v"
| "wait_ok n (Newer nm cur) \<longleftrightarrow> -1 \<le> cur \<and> cur + int n \<le> 2147483647"

definition wait_fine :: "ss_storage \<Rightarrow> nat \<Rightarrow> meta_wait option \<Rightarrow> bool" where
  "wait_fine ls t w = (case w of
     None \<Rightarrow> subs_of t ls = {}
   | Some w \<Rightarrow> wait_ok (size_hash ls) w \<and> (case msub_mdata ls t of
       None \<Rightarrow> subs_of t ls = {wait_sub (size_hash ls) t w} \<and> (\<forall>m\<in>metas ls. \<not> asks_for w m)
     | Some m \<Rightarrow> subs_of t ls = {} \<and> m \<in> metas ls \<and> ends_wait w m))"

definition wait_inv :: "(nat \<rightharpoonup> meta_wait) \<Rightarrow> ss_storage \<Rightarrow> bool" where
  "wait_inv W ls \<longleftrightarrow> meta_inv ls \<and> inj_on (\<lambda>m. (md_name m, md_int m)) (metas ls) \<and> (\<forall>t. wait_fine ls t (W t))"

lemma subs_of_alloc: "subs_of t (ls_alloc n) = {}"
  by (auto simp: subs_of_def ls_alloc_def nth_replicate simp del: replicate.simps)

lemma subs_of_subscribe:
  assumes "meta_inv ls" "i \<le> size_hash ls"
  shows "subs_of t (subscribe t' nm v i ls) =
    (if t = t' then insert (i, \<lparr>ms_thread = t, ms_name = nm, ms_version = v\<rparr>) (subs_of t ls) else subs_of t ls)"
  using assms(2) meta_invD(3) [OF assms(1)]
  by (auto simp: subs_of_def subscribe_def nth_list_update split: if_splits)

lemma subscribe_sel: "size_hash (subscribe t nm v i ls) = size_hash ls" "metas (subscribe t nm v i ls) = metas ls"
  "msub_mdata (subscribe t nm v i ls) = (msub_mdata ls)(t := None)"
  by (simp_all add: subscribe_def metas_def)

text \<open>Which subscriptions a new entry ends, and what it leaves of the waiting thread's.\<close>

definition hit :: "nat \<Rightarrow> meta_data \<Rightarrow> nat \<times> meta_sub \<Rightarrow> bool" where
  "hit n m = (\<lambda>(i, s). ms_name s = md_name m \<and> (i = n \<or> i = md_nat m mod n \<and> ms_version s = md_int m))"

lemma publish_subs_of:
  assumes "meta_inv ls" "md_small m"
  shows "subs_of t (publish m ls) = {p \<in> subs_of t ls. \<not> hit (size_hash ls) m p}"
  using publish_props(2,5,6) [OF assms] meta_invD(1) [OF assms(1)]
  by (auto simp: subs_of_def hit_def le_less split: if_splits)

lemma publish_cell:
  assumes "meta_inv ls" "md_small m"
  shows "msub_mdata (publish m ls) t = (if \<exists>p\<in>subs_of t ls. hit (size_hash ls) m p then Some m else msub_mdata ls t)"
proof -
  let ?n = "size_hash ls"
  let ?k = "md_nat m mod ?n"
  have k: "?k < ?n" "?k < length (meta_subs ls)" "?n < length (meta_subs ls)"
    using meta_invD [OF assms(1)] by (simp_all add: less_SucI)
  have "msub_mdata (publish m ls) t =
    (if (\<exists>s\<in>set (meta_subs ls ! ?n). ms_name s = md_name m \<and> ms_thread s = t) \<or>
        (\<exists>s\<in>set (meta_subs ls ! ?k). ms_name s = md_name m \<and> ms_version s = md_int m \<and> ms_thread s = t)
     then Some m else msub_mdata ls t)"
    using k by (auto simp: publish_def Let_def deliver_cells deliver_sel image_iff)
  moreover have "(\<exists>p\<in>subs_of t ls. hit ?n m p) \<longleftrightarrow>
      (\<exists>s\<in>set (meta_subs ls ! ?n). ms_name s = md_name m \<and> ms_thread s = t) \<or>
      (\<exists>s\<in>set (meta_subs ls ! ?k). ms_name s = md_name m \<and> ms_version s = md_int m \<and> ms_thread s = t)"
    using k(1) by (fastforce simp: subs_of_def hit_def)
  ultimately show ?thesis by simp
qed

lemma wait_fine_publish:
  assumes inv: "meta_inv ls" "md_small m" and new: "\<forall>x\<in>metas ls. \<not> (md_name x = md_name m \<and> md_int x = md_int m)"
    and fine: "wait_fine ls t w"
  shows "wait_fine (publish m ls) t w"
proof (cases w)
  case None
  then show ?thesis using fine by (simp add: wait_fine_def publish_subs_of [OF inv])
next
  case (Some w')
  note pub = publish_props(1,2) [OF inv]
  show ?thesis
  proof (cases "msub_mdata ls t")
    case None
    then have f: "wait_ok (size_hash ls) w'" "subs_of t ls = {wait_sub (size_hash ls) t w'}"
      "\<forall>m\<in>metas ls. \<not> asks_for w' m" using fine Some by (simp_all add: wait_fine_def)
    let ?hit = "hit (size_hash ls) m (wait_sub (size_hash ls) t w')"
    have "?hit \<longleftrightarrow> ends_wait w' m" if "wait_ok (size_hash ls) w'"
      using that mod_less_divisor [OF meta_invD(1) [OF inv(1)]] md_int_small [OF inv(2)]
      by (cases w') (auto simp: hit_def less_imp_neq)
    then have "?hit \<longleftrightarrow> ends_wait w' m" using f(1) by simp
    moreover have "asks_for w' m \<Longrightarrow> ends_wait w' m" by (cases w') auto
    ultimately show ?thesis using Some None f
      by (cases ?hit) (auto simp: wait_fine_def publish_subs_of [OF inv] publish_cell [OF inv] pub)
  next
    case (Some m')
    then show ?thesis using fine \<open>w = Some w'\<close>
      by (simp add: wait_fine_def publish_subs_of [OF inv] publish_cell [OF inv] pub)
  qed
qed

lemma wait_inv_subscribe:
  assumes "wait_inv W ls" "W t = None" "wait_ok (size_hash ls) w" "wait_sub (size_hash ls) t w = (i, s)"
    "i \<le> size_hash ls" "\<forall>m\<in>metas ls. \<not> asks_for w m"
    "meta_inv (subscribe t (ms_name s) (ms_version s) i ls)"
  shows "wait_inv (W(t \<mapsto> w)) (subscribe t (ms_name s) (ms_version s) i ls)"
proof -
  have inv: "meta_inv ls" using assms(1) by (simp add: wait_inv_def)
  have s: "s = \<lparr>ms_thread = t, ms_name = ms_name s, ms_version = ms_version s\<rparr>"
    using assms(4) by (cases w) auto
  have fine: "wait_fine ls u (W u)" for u using assms(1) by (simp add: wait_inv_def)
  have "wait_fine (subscribe t (ms_name s) (ms_version s) i ls) u ((W(t \<mapsto> w)) u)" for u
  proof (cases "u = t")
    case True
    then show ?thesis using fine [of t] assms(2-6) s [symmetric]
      by (simp add: wait_fine_def subs_of_subscribe [OF inv assms(5)] subscribe_sel)
  next
    case False
    then show ?thesis using fine [of u]
      by (auto simp: wait_fine_def subs_of_subscribe [OF inv assms(5)] subscribe_sel split: option.splits)
  qed
  with assms(1,7) show ?thesis by (simp add: wait_inv_def subscribe_sel)
qed

lemma wait_inv_same: "wait_inv W ls \<Longrightarrow> wait_fine ls t w \<Longrightarrow> wait_inv (W(t := w)) ls"
  by (simp add: wait_inv_def)

lemma meta_find_entry_cases:
  assumes "meta_inv ls" "0 \<le> v" "meta_find_entry t ls nm v wait = Some (r, ls')"
  shows "case r of Answer _ \<Rightarrow> ls' = ls
    | Waiting \<Rightarrow> (\<forall>m\<in>metas ls. \<not> asks_for (Exactly nm v) m) \<and> ls' = subscribe t nm v (nat v mod size_hash ls) ls"
proof -
  obtain f where f: "ls_find_meta ls nm v = Some f"
    "case f of None \<Rightarrow> \<forall>m\<in>metas ls. \<not> (md_name m = nm \<and> md_int m = v)
     | Some m \<Rightarrow> m \<in> metas ls \<and> md_name m = nm \<and> md_int m = v"
    using ls_find_meta_props [OF assms(1,2)] by blast
  have "meta_bin ls v = Some (nat v mod size_hash ls)"
    using meta_bin_nonneg [OF meta_invD(1) [OF assms(1)] assms(2)] .
  then show ?thesis
    using assms(3) f by (auto simp: meta_find_entry_def ls_subscribe_meta_def split: if_splits)
qed

lemma meta_find_next_entry_cases:
  assumes "meta_inv ls" "-1 \<le> cur" "meta_find_next_entry t ls nm cur wait = Some (r, ls')"
  shows "cur + int (size_hash ls) \<le> 2147483647 \<and> (case r of Answer _ \<Rightarrow> ls' = ls
    | Waiting \<Rightarrow> (\<forall>m\<in>metas ls. \<not> asks_for (Newer nm cur) m) \<and> ls' = subscribe t nm (-1) (size_hash ls) ls)"
proof -
  have le: "cur + int (size_hash ls) \<le> 2147483647"
    using assms(3) by (simp add: meta_find_next_entry_def split: if_splits)
  obtain f where "oldest (newer nm cur (metas ls)) f"
    "meta_find_next_entry t ls nm cur wait =
      Some (if f \<noteq> None \<or> \<not> wait then (Answer f, ls) else (Waiting, ls_subscribe_meta_no_version t ls nm))"
    using meta_find_next_entry_alt [OF assms(1,2) le] .
  then show ?thesis using le assms(3)
    by (auto simp: ls_subscribe_meta_no_version_def oldest_def newer_def split: if_splits)
qed

lemma wait_inv_add:
  assumes w: "wait_inv W ls" and m: "md_small m" "ls_add_meta ls m = Some ls'"
  shows "wait_inv W ls'"
proof (cases "\<exists>x\<in>metas ls. md_name x = md_name m \<and> md_int x = md_int m")
  case True
  then show ?thesis using w m ls_add_meta_alt [of ls m] by (simp add: wait_inv_def)
next
  case False
  have inv: "meta_inv ls" using w by (simp add: wait_inv_def)
  have ls': "ls' = publish m ls" using m(2) False unfolding ls_add_meta_alt [OF inv m(1)] by simp
  have "inj_on (\<lambda>m. (md_name m, md_int m)) (metas ls')"
    using w False by (auto simp: ls' publish_props(1) [OF inv m(1)] wait_inv_def)
  moreover have "wait_fine ls' t (W t)" for t
    using w False unfolding ls' by (intro wait_fine_publish [OF inv m(1)]) (auto simp: wait_inv_def)
  ultimately show ?thesis using meta_inv_publish [OF inv m(1)] by (simp add: wait_inv_def ls')
qed

lemma wait_inv_run:
  assumes "0 < n" "meta_run n W ls"
  shows "wait_inv W ls"
  using assms(2)
proof induction
  case alloc
  show ?case using meta_inv_alloc [OF assms(1)]
    by (simp add: wait_inv_def wait_fine_def subs_of_alloc) (simp add: metas_def ls_alloc_def)
next
  case (add W ls m ls')
  then show ?case using wait_inv_add by blast
next
  case (find W ls v t nm wait r ls')
  then show ?case using meta_find_entry_cases [of ls v t nm wait "Answer r" ls'] by (simp add: wait_inv_def)
next
  case (find_wait W ls v t nm wait ls')
  then have inv: "meta_inv ls" by (simp add: wait_inv_def)
  let ?k = "nat v mod size_hash ls"
  have c: "\<forall>m\<in>metas ls. \<not> asks_for (Exactly nm v) m" "ls' = subscribe t nm v ?k ls"
    using meta_find_entry_cases [OF inv find_wait.hyps(2,4)] by simp_all
  have "?k \<le> size_hash ls" using meta_invD(1) [OF inv] by (simp add: less_imp_le)
  moreover have "meta_inv (subscribe t nm v ?k ls)"
    using c(1) by (intro meta_inv_subscribe [OF inv find_wait.hyps(2)]) simp_all
  ultimately show ?case
    using wait_inv_subscribe [OF find_wait.IH find_wait.hyps(3), of "Exactly nm v" ?k
        "\<lparr>ms_thread = t, ms_name = nm, ms_version = v\<rparr>"] c find_wait.hyps(2) by (simp add: fun_upd_def)
next
  case (find_next W ls cur t nm wait r ls')
  then show ?case using meta_find_next_entry_cases [of ls cur t nm wait "Answer r" ls'] by (simp add: wait_inv_def)
next
  case (next_wait W ls cur t nm wait ls')
  then have inv: "meta_inv ls" by (simp add: wait_inv_def)
  have c: "cur + int (size_hash ls) \<le> 2147483647" "\<forall>m\<in>metas ls. \<not> asks_for (Newer nm cur) m"
    "ls' = subscribe t nm (-1) (size_hash ls) ls"
    using meta_find_next_entry_cases [OF inv next_wait.hyps(2,4)] by simp_all
  have "meta_inv (subscribe t nm (-1) (size_hash ls) ls)"
    using meta_inv_subscribe_no_version [OF inv, of t nm] by (simp add: ls_subscribe_meta_no_version_def)
  then show ?case
    using wait_inv_subscribe [OF next_wait.IH next_wait.hyps(3), of "Newer nm cur" "size_hash ls"
        "\<lparr>ms_thread = t, ms_name = nm, ms_version = -1\<rparr>"] c next_wait.hyps(2) by (simp add: fun_upd_def)
next
  case (resume W ls t r)
  then show ?case
    by (intro wait_inv_same) (auto simp: wait_inv_def wait_fine_def ls_resume_meta_def split: option.splits dest!: spec [of _ t])
qed

text \<open>
  C21: no wakeup is lost. In every state that publishing, querying, waiting and waking reach, a
  thread that is blocked until the given version of a name is published goes on with exactly that
  entry as soon as it is stored: as long as its cell \<^verbatim>\<open>msub.mdata\<close> is unset no such entry is
  stored. A thread that is blocked until a version above \<open>cur\<close> is published is only blocked while
  no such version is stored, and goes on with a stored entry of its name. A thread whose wait is
  over has left every subscription list, so no list points to a frame it has left. The locks of
  the bins make a query together with its subscription, and a publication, single steps.
\<close>

theorem meta_no_lost_wakeup:
  assumes "0 < n" "meta_run n W ls"
  shows "case W t of
      None \<Rightarrow> subs_of t ls = {}
    | Some (Exactly nm v) \<Rightarrow>
        ls_resume_meta t ls = Waiting \<and> ls_find_meta ls nm v = Some None \<or>
        (\<exists>m. ls_resume_meta t ls = Answer (Some m) \<and> ls_find_meta ls nm v = Some (Some m) \<and> subs_of t ls = {})
    | Some (Newer nm cur) \<Rightarrow>
        ls_resume_meta t ls = Waiting \<and> meta_find_next_entry t ls nm cur False = Some (Answer None, ls) \<or>
        (\<exists>m. ls_resume_meta t ls = Answer (Some m) \<and> ls_find_meta ls nm (md_int m) = Some (Some m) \<and> subs_of t ls = {})"
proof -
  have w: "wait_inv W ls" using assms by (rule wait_inv_run)
  then have inv: "meta_inv ls" and inj: "inj_on (\<lambda>m. (md_name m, md_int m)) (metas ls)"
    and fine: "wait_fine ls t (W t)" by (simp_all add: wait_inv_def)
  have stored: "ls_find_meta ls (md_name m) (md_int m) = Some (Some m)" if "m \<in> metas ls" for m
  proof -
    have "0 \<le> md_int m" using meta_invD(5) [OF inv that] by (simp add: md_int_small)
    from ls_find_meta_props [OF inv this, of "md_name m"] that inj show ?thesis
      by (auto split: option.splits dest: inj_onD)
  qed
  show ?thesis
  proof (cases "W t")
    case None
    then show ?thesis using fine by (simp add: wait_fine_def)
  next
    case (Some w)
    show ?thesis
    proof (cases w)
      case (Exactly nm v)
      then have v: "0 \<le> v" using fine Some by (simp add: wait_fine_def)
      from ls_find_meta_props [OF inv v, of nm] stored show ?thesis using fine Some Exactly
        by (cases "msub_mdata ls t") (auto simp: wait_fine_def ls_resume_meta_def split: option.splits)
    next
      case (Newer nm cur)
      then have "-1 \<le> cur" "cur + int (size_hash ls) \<le> 2147483647" using fine Some by (simp_all add: wait_fine_def)
      from meta_find_next_entry_alt [OF inv this, of nm t False] obtain r where
        "oldest (newer nm cur (metas ls)) r" "meta_find_next_entry t ls nm cur False = Some (Answer r, ls)"
        by auto
      with stored show ?thesis using fine Some Newer
        by (cases "msub_mdata ls t") (auto simp: wait_fine_def ls_resume_meta_def oldest_def newer_def split: option.splits)
    qed
  qed
qed

text \<open>Two threads wait, one for version 5 and one for any version above 3; the publication of version 5 wakes both.\<close>

definition ex_waiting_store :: ss_storage where
  "ex_waiting_store = ls_subscribe_meta_no_version 4 (subscribe 3 ''m'' 5 1 (ls_alloc 2)) ''m''"

theorem meta_no_lost_wakeup_witness:
  "\<exists>ls. ls_add_meta ex_waiting_store (ex_meta 5) = Some ls \<and>
     ls_resume_meta 3 ex_waiting_store = Waiting \<and> ls_resume_meta 4 ex_waiting_store = Waiting \<and>
     ls_resume_meta 3 ls = Answer (Some (ex_meta 5)) \<and> ls_find_meta ls ''m'' 5 = Some (Some (ex_meta 5)) \<and>
     (\<exists>m. ls_resume_meta 4 ls = Answer (Some m) \<and> subs_of 4 ls = {})"
proof -
  let ?ls = "subscribe 3 ''m'' 5 1 (ls_alloc 2)" and ?W = "Map.empty(3 \<mapsto> Exactly ''m'' 5, 4 \<mapsto> Newer ''m'' 3)"
  have "meta_find_entry 3 (ls_alloc 2) ''m'' 5 True = Some (Waiting, ?ls)"
    by (simp add: meta_find_entry_def ls_find_meta_def ls_subscribe_meta_def meta_bin_nonneg ls_alloc_def)
  then have "meta_run 2 (Map.empty(3 \<mapsto> Exactly ''m'' 5)) ?ls"
    by (intro meta_run.find_wait [OF meta_run.alloc]) simp_all
  moreover have "map_option fst (meta_find_next_entry 4 ?ls ''m'' 3 True) = Some Waiting" by code_simp
  then have "meta_find_next_entry 4 ?ls ''m'' 3 True = Some (Waiting, ex_waiting_store)"
    by (auto simp: meta_find_next_entry_def ex_waiting_store_def bind_eq_Some_conv split: if_splits)
  ultimately have r: "meta_run 2 ?W ex_waiting_store"
    by (intro meta_run.next_wait [of 2 "Map.empty(3 \<mapsto> Exactly ''m'' 5)" ?ls 3 4 "''m''" True]) simp_all
  have "map_option (\<lambda>_. ()) (ls_add_meta ex_waiting_store (ex_meta 5)) = Some ()" by code_simp
  then obtain ls where ls: "ls_add_meta ex_waiting_store (ex_meta 5) = Some ls" by auto
  have "md_small (ex_meta 5)" by (simp add: md_small_def md_nat_def ex_meta_def)
  then have r': "meta_run 2 ?W ls" by (rule meta_run.add [OF r _ ls])
  have vals: "map_option (ls_resume_meta 3) (ls_add_meta ex_waiting_store (ex_meta 5)) = Some (Answer (Some (ex_meta 5)))"
    "map_option (ls_resume_meta 4) (ls_add_meta ex_waiting_store (ex_meta 5)) = Some (Answer (Some (ex_meta 5)))"
    "ls_resume_meta 3 ex_waiting_store = Waiting" "ls_resume_meta 4 ex_waiting_store = Waiting" by code_simp+
  from meta_no_lost_wakeup [OF _ r', of 3] meta_no_lost_wakeup [OF _ r', of 4] vals ls show ?thesis by auto
qed

text \<open>
  A thread that waits for a version above the one it knows is woken by any version of the
  name: here the thread asked for a version above 5, and the late arrival of version 3 answers it.
\<close>

theorem meta_next_wakes_on_old_version:
  "map_option (\<lambda>(r, ls). (r, map_option (ls_resume_meta 3) (ls_add_meta ls (ex_meta 3))))
     (meta_find_next_entry 3 (ls_alloc 2) ''m'' 5 True) =
   Some (Waiting, Some (Answer (Some (ex_meta 3)))) \<and> md_int (ex_meta 3) = 3"
  by code_simp

end
