(* ===== verification/Server.thy ===== *)
theory Server
  imports Dht ClientIO Meta
begin

text \<open>
  The server (\<^verbatim>\<open>src/dspaces-server.c\<close>): its state \<^verbatim>\<open>struct dspaces_provider\<close> with the \<^verbatim>\<open>struct ds_gspace\<close> of
  \<^verbatim>\<open>include/gspace.h\<close>, and the handlers of puts, queries, gets, drains and metadata. A handler gets the
  state and the decoded request and gives its answer, the new state and the requests it sends to
  other servers; \<open>None\<close> is undefined behaviour. Margo, LZ4 and the Python modules are parameters:
  return values of Margo calls are arguments, the rest is the record \<open>sv_env\<close>. A handler that has to wait
  answers \<open>Pending\<close> with what it needs to go on; the continuation is an operation of its own.
\<close>

section \<open>Data\<close>

record ds_conf =
  cf_ndim :: int
  cf_dims :: coord
  cf_max_versions :: nat
  cf_hash_version :: sspace_hash_version
  cf_num_apps :: int

text \<open>
  The shared spaces are numbered: 0 is the default space, \<open>sv_slist\<close> is \<^verbatim>\<open>sspace_list\<close>, newest first.
  \<open>sv_remotes\<close> is the number of remotes, \<open>None\<close> for a null pointer. \<open>sv_brk\<close> is the next address
  \<^verbatim>\<open>malloc\<close> gives out.
\<close>

record server =
  sv_conf :: ds_conf
  sv_rank :: nat
  sv_size :: nat
  sv_default_gdim :: global_dimension
  sv_spaces :: "nat \<rightharpoonup> sspace"
  sv_slist :: "(nat \<times> global_dimension) list"
  sv_cache :: sfc_cache
  sv_ls :: ss_storage
  sv_ps :: ss_storage
  sv_remotes :: "nat option"
  sv_drain :: "obj_descriptor list"
  sv_addr :: string
  sv_ips :: "(string \<times> string) option"
  sv_brk :: nat

text \<open>The array a Python module returns for a query, or its error.\<close>

record mod_ret =
  mr_elem_size :: u64
  mr_ndim :: int
  mr_dim :: "u64 list"
  mr_len :: u64
  mr_tag :: int
  mr_data :: "byte list"

datatype mod_res = Mod_None | Mod_Err int | Mod_Ret mod_ret

text \<open>
  Uninitialised memory, the module that handles a descriptor, \<^verbatim>\<open>LZ4_compress_default\<close> (the bytes written,
  none when they do not fit) and a get from a remote.
\<close>

record sv_env =
  en_ijunk :: intv
  en_junk :: bbox
  en_mem :: "nat \<Rightarrow> byte"
  en_query :: "obj_descriptor \<Rightarrow> mod_res"
  en_lz4c :: "byte list \<Rightarrow> nat \<Rightarrow> byte list"
  en_remote :: "nat \<Rightarrow> obj_descriptor \<Rightarrow> global_dimension \<Rightarrow> byte list option"

type_synonym msgs = "(nat \<times> odsc_gdim_t) list"

section \<open>Starting up\<close>

text \<open>The domain of the sizes of a global dimension: the box is zeroed first.\<close>

definition gdim_domain :: "int \<Rightarrow> coord \<Rightarrow> bbox" where
  "gdim_domain ndim sizes = \<lparr>num_dims = ndim, lb = replicate BBOX_MAX_NDIM 0,
     ub = map (\<lambda>i. if i < nat ndim then sizes ! i - 1 else 0) [0..<BBOX_MAX_NDIM]\<rparr>"

definition init_sspace :: "intv \<Rightarrow> server \<Rightarrow> bbox \<Rightarrow> server option" where
  "init_sspace ijunk sv default_domain =
     Option.bind (ssd_alloc ijunk default_domain (sv_size sv) (cf_max_versions (sv_conf sv)) (cf_hash_version (sv_conf sv))) (\<lambda>ssd.
     map_option (\<lambda>ssd. sv\<lparr>sv_spaces := (sv_spaces sv)(0 \<mapsto> ssd),
         sv_default_gdim := \<lparr>gd_ndim = cf_ndim (sv_conf sv),
           gd_sizes = take (nat (cf_ndim (sv_conf sv))) (cf_dims (sv_conf sv)) @
             drop (nat (cf_ndim (sv_conf sv))) (gd_sizes (sv_default_gdim sv))\<rparr>,
         sv_slist := []\<rparr>)
       (ssd_init ssd (sv_rank sv)))"

text \<open>
  \<^verbatim>\<open>dsg_alloc\<close> once the configuration is parsed: an error number, or the server. \<open>gd0\<close> is the memory the
  default global dimension is written into.
\<close>

definition EINVAL :: int where "EINVAL = 22"

definition dsg_alloc :: "intv \<Rightarrow> coord \<Rightarrow> ds_conf \<Rightarrow> nat \<Rightarrow> nat \<Rightarrow> string \<Rightarrow> (string \<times> string) option \<Rightarrow> nat option \<Rightarrow>
    (int + server) option" where
  "dsg_alloc ijunk gd0 conf rk n addr ips remotes =
     (if cf_ndim conf > int BBOX_MAX_NDIM then Some (Inl (- EINVAL))
      else let conf = (if cf_ndim conf = 0 then conf\<lparr>cf_ndim := 1, cf_dims := (cf_dims conf)[0 := 1]\<rparr> else conf);
               sv = \<lparr>sv_conf = conf, sv_rank = rk, sv_size = n,
                 sv_default_gdim = \<lparr>gd_ndim = 0, gd_sizes = gd0\<rparr>, sv_spaces = Map.empty, sv_slist = [], sv_cache = [],
                 sv_ls = ls_alloc (cf_max_versions conf), sv_ps = ls_alloc (cf_max_versions conf),
                 sv_remotes = remotes, sv_drain = [], sv_addr = addr, sv_ips = ips, sv_brk = 0\<rparr>
           in map_option Inr (init_sspace ijunk sv (gdim_domain (cf_ndim conf) (cf_dims conf))))"

text \<open>\<^verbatim>\<open>ss_rpc\<close>: what a client learns about the space; \<open>hdr0\<close> is the uninitialised header.\<close>

definition ss_rpc :: "server \<Rightarrow> ss_info_hdr \<Rightarrow> ss_info_hdr" where
  "ss_rpc sv hdr0 =
     (let n = nat (cf_ndim (sv_conf sv)); dims = cf_dims (sv_conf sv);
          dom = si_ss_domain hdr0; gd = si_default_gdim hdr0
      in \<lparr>si_num_dims = cf_ndim (sv_conf sv), si_num_space_srv = int (sv_size sv),
          si_ss_domain = dom\<lparr>lb := replicate n 0 @ drop n (lb dom),
            ub := map (\<lambda>x. x - 1) (take n dims) @ drop n (ub dom)\<rparr>,
          si_max_versions = int (cf_max_versions (sv_conf sv)), si_hash_version = cf_hash_version (sv_conf sv),
          si_default_gdim = \<lparr>gd_ndim = cf_ndim (sv_conf sv), gd_sizes = take n dims @ drop n (gd_sizes gd)\<rparr>\<rparr>)"

section \<open>Shared spaces and the DHT\<close>

text \<open>Memory allocation succeeds, so the fallbacks to the default space after a failed allocation do not occur.\<close>

definition lookup_sspace :: "sv_env \<Rightarrow> server \<Rightarrow> global_dimension \<Rightarrow> (nat \<times> server) option" where
  "lookup_sspace env sv gd =
     (if global_dimension_equal gd (sv_default_gdim sv) then Some (0, sv)
      else case find (\<lambda>(sid, g). gd_ndim gd = gd_ndim g \<and> global_dimension_equal gd g) (sv_slist sv) of
        Some (sid, g) \<Rightarrow> Some (sid, sv)
      | None \<Rightarrow>
          if gd_ndim gd > int BBOX_MAX_NDIM then None
          else let sid = Suc (length (sv_slist sv))
          in Option.bind (ssd_alloc (en_ijunk env) (gdim_domain (gd_ndim gd) (gd_sizes gd)) (sv_size sv)
               (cf_max_versions (sv_conf sv)) (cf_hash_version (sv_conf sv))) (\<lambda>ssd.
             map_option (\<lambda>ssd. (sid, sv\<lparr>sv_spaces := (sv_spaces sv)(sid \<mapsto> ssd), sv_slist := (sid, gd) # sv_slist sv\<rparr>))
               (ssd_init ssd (sv_rank sv))))"

definition self_entry :: "sspace \<Rightarrow> dht_entry" where
  "self_entry ss = ent_tab (ss_dht ss) ! ent_self ss"

definition set_self :: "sspace \<Rightarrow> dht_entry \<Rightarrow> sspace" where
  "set_self ss de = ss\<lparr>ss_dht := (ss_dht ss)\<lparr>ent_tab := (ent_tab (ss_dht ss))[ent_self ss := de]\<rparr>\<rparr>"

definition DS_OBJ_NEW :: int where "DS_OBJ_NEW = 0"
definition DS_OBJ_OWNER :: int where "DS_OBJ_OWNER = 1"

text \<open>An unknown update type is only reported.\<close>

definition obj_update_local_dht :: "sv_env \<Rightarrow> server \<Rightarrow> nat \<Rightarrow> obj_descriptor \<Rightarrow> int \<Rightarrow> server option" where
  "obj_update_local_dht env sv sid odsc ty =
     Option.bind (sv_spaces sv sid) (\<lambda>ssd.
       if ty = DS_OBJ_NEW
       then map_option (\<lambda>de. sv\<lparr>sv_spaces := (sv_spaces sv)(sid \<mapsto> set_self ssd de), sv_brk := sv_brk sv + 1\<rparr>)
              (dht_add_entry (en_ijunk env) (en_junk env) (sv_brk sv) ssd (self_entry ssd) odsc)
       else if ty = DS_OBJ_OWNER
       then Some (sv\<lparr>sv_spaces := (sv_spaces sv)(sid \<mapsto> set_self ssd (snd (dht_update_owner (self_entry ssd) odsc True)))\<rparr>)
       else Some sv)"

text \<open>The rank of a DHT entry the hash gives; a cached entry may belong to another space.\<close>

definition ref_rank :: "server \<Rightarrow> de_ref \<Rightarrow> nat option" where
  "ref_rank sv r = map_option (\<lambda>ss. nat (de_rank (ent_tab (ss_dht ss) ! snd r))) (sv_spaces sv (fst r))"

definition hash_ranks :: "sv_env \<Rightarrow> server \<Rightarrow> nat \<Rightarrow> bbox \<Rightarrow> (nat list \<times> server) option" where
  "hash_ranks env sv sid bb =
     Option.bind (sv_spaces sv sid) (\<lambda>ssd.
     Option.bind (ssd_hash (en_ijunk env) (en_junk env) (sv_cache sv) sid ssd bb) (\<lambda>(refs, cache).
     map_option (\<lambda>ranks. (ranks, sv\<lparr>sv_cache := cache\<rparr>)) (those (map (ref_rank sv) refs))))"

text \<open>The loop of \<^verbatim>\<open>obj_update_dht\<close>; \<open>hret i\<close> is what \<^verbatim>\<open>margo_destroy\<close> returns for the \<open>i\<close>-th entry.\<close>

fun update_loop :: "sv_env \<Rightarrow> (nat \<Rightarrow> int) \<Rightarrow> nat \<Rightarrow> odsc_gdim_t \<Rightarrow> nat \<Rightarrow> nat list \<Rightarrow> server \<Rightarrow> msgs \<Rightarrow>
    (int \<times> server \<times> msgs) option" where
  "update_loop env hret sid og i [] sv out = Some (dspaces_SUCCESS, sv, out)"
| "update_loop env hret sid og i (r # rs) sv out =
     (if r = sv_rank sv
      then Option.bind (obj_update_local_dht env sv sid (og_odsc og) (og_param og))
             (\<lambda>sv. update_loop env hret sid og (i + 1) rs sv out)
      else if hret i \<noteq> HG_SUCCESS then Some (dspaces_ERR_MERCURY, sv, out @ [(r, og)])
      else update_loop env hret sid og (i + 1) rs sv (out @ [(r, og)]))"

definition obj_update_dht :: "sv_env \<Rightarrow> (nat \<Rightarrow> int) \<Rightarrow> server \<Rightarrow> obj_data \<Rightarrow> int \<Rightarrow> (int \<times> server \<times> msgs) option" where
  "obj_update_dht env hret sv od ty =
     Option.bind (lookup_sspace env sv (gdim od)) (\<lambda>(sid, sv).
     Option.bind (hash_ranks env sv sid (od_bb (obj_desc od))) (\<lambda>(ranks, sv).
     Option.bind (if ranks = [] then obj_update_local_dht env sv sid (obj_desc od) ty else Some sv) (\<lambda>sv.
       update_loop env hret sid \<lparr>og_odsc = obj_desc od, og_gdim = gdim od, og_param = ty\<rparr> 0 ranks sv [])))"

definition obj_update_rpc :: "sv_env \<Rightarrow> server \<Rightarrow> odsc_gdim_t \<Rightarrow> server option" where
  "obj_update_rpc env sv og =
     Option.bind (lookup_sspace env sv (og_gdim og)) (\<lambda>(sid, sv).
       obj_update_local_dht env sv sid (og_odsc og) (og_param og))"

section \<open>Puts\<close>

text \<open>
  \<^verbatim>\<open>address_translate\<close> replaces the first occurrence of the private address by the public one, in place;
  the owner array has 128 bytes.
\<close>

definition OD_MAX_OWNER_LEN :: nat where "OD_MAX_OWNER_LEN = 128"

fun strstr :: "string \<Rightarrow> string \<Rightarrow> (string \<times> string) option" where
  "strstr [] needle = (if needle = [] then Some ([], []) else None)"
| "strstr (c # cs) needle =
     (if take (length needle) (c # cs) = needle then Some ([], drop (length needle) (c # cs))
      else map_option (\<lambda>(pre, post). (c # pre, post)) (strstr cs needle))"

definition address_translate :: "string \<Rightarrow> string \<Rightarrow> string \<Rightarrow> string option" where
  "address_translate pub_ip priv_ip addr_str =
     (case strstr addr_str priv_ip of
        None \<Rightarrow> Some addr_str
      | Some (pre, addr_tail) \<Rightarrow>
          (let s = pre @ pub_ip @ addr_tail in if length s < OD_MAX_OWNER_LEN then Some s else None))"

definition odsc_take_ownership :: "server \<Rightarrow> obj_descriptor \<Rightarrow> obj_descriptor option" where
  "odsc_take_ownership sv odsc =
     map_option (\<lambda>a. odsc\<lparr>od_owner := a\<rparr>)
       (case sv_ips sv of None \<Rightarrow> Some (sv_addr sv) | Some (pub_ip, priv_ip) \<Rightarrow> address_translate pub_ip priv_ip (sv_addr sv))"

text \<open>A new object is put at a fresh address and added to the store.\<close>

definition sv_store :: "server \<Rightarrow> obj_data \<Rightarrow> server" where
  "sv_store sv od =
     (let ls = sv_ls sv
      in sv\<lparr>sv_ls := ls_add_obj (ls\<lparr>od_heap := (od_heap ls)(sv_brk sv \<mapsto> od)\<rparr>) (sv_brk sv), sv_brk := sv_brk sv + 1\<rparr>)"

definition put_rpc :: "sv_env \<Rightarrow> int \<Rightarrow> int \<Rightarrow> (nat \<Rightarrow> int) \<Rightarrow> server \<Rightarrow> bulk_gdim_t \<Rightarrow> (int \<times> server \<times> msgs) option" where
  "put_rpc env bulk_ret xret hret sv bg =
     Option.bind (odsc_take_ownership sv (bg_odsc bg)) (\<lambda>odsc.
     Option.bind (obj_data_alloc (en_mem env) odsc) (\<lambda>od.
       let od = od\<lparr>gdim := bg_gdim bg\<rparr>; size = obj_data_size odsc
       in if bulk_ret \<noteq> HG_SUCCESS \<or> xret \<noteq> HG_SUCCESS then Some (dspaces_ERR_MERCURY, sv, [])
          else Option.bind (data od) (\<lambda>d.
               Option.bind (memcpy d 0 (bg_data bg) 0 (unat size)) (\<lambda>d.
                 let od = od\<lparr>data := Some d\<rparr>
                 in map_option (\<lambda>(_, sv, out). (dspaces_SUCCESS, sv, out))
                      (obj_update_dht env hret (sv_store sv od) od DS_OBJ_NEW)))))"

definition put_local_rpc :: "sv_env \<Rightarrow> (nat \<Rightarrow> int) \<Rightarrow> server \<Rightarrow> odsc_gdim_t \<Rightarrow> (int \<times> server \<times> msgs) option" where
  "put_local_rpc env hret sv og =
     (let od = (obj_data_alloc_no_data (og_odsc og) None)\<lparr>gdim := og_gdim og\<rparr>
      in map_option (\<lambda>(_, sv, out). (dspaces_SUCCESS, sv\<lparr>sv_drain := sv_drain sv @ [obj_desc od]\<rparr>, out))
           (obj_update_dht env hret sv od DS_OBJ_NEW))"

text \<open>A negative length makes the server register a null buffer.\<close>

definition put_meta_rpc :: "int \<Rightarrow> int \<Rightarrow> server \<Rightarrow> put_meta_in_t \<Rightarrow> (int \<times> server) option" where
  "put_meta_rpc bulk_ret xret sv pm =
     (let len = nat (sint (pm_length pm));
          mdata = \<lparr>md_name = pm_name pm, md_version = of_int (pm_version pm), md_length = int len, md_data = take len (pm_data pm)\<rparr>
      in if sint (pm_length pm) < 0 then None
         else if len > 0 \<and> (bulk_ret \<noteq> HG_SUCCESS \<or> xret \<noteq> HG_SUCCESS) then Some (dspaces_ERR_MERCURY, sv)
         else if length (pm_data pm) < len then None
         else map_option (\<lambda>ls. (dspaces_SUCCESS, sv\<lparr>sv_ls := ls\<rparr>)) (ls_add_meta (sv_ls sv) mdata))"

section \<open>Draining\<close>

text \<open>
  \<open>ans\<close> is the client's answer to the drain request. The object that is filled has the dimensions
  \<^verbatim>\<open>obj_data_alloc\<close> gives it, none.
\<close>

definition get_client_data :: "sv_env \<Rightarrow> answer \<Rightarrow> (nat \<Rightarrow> int) \<Rightarrow> server \<Rightarrow> obj_descriptor \<Rightarrow> (int \<times> server \<times> msgs) option" where
  "get_client_data env ans hret sv odsc =
     Option.bind (obj_data_alloc (en_mem env) odsc) (\<lambda>od.
     Option.bind (data od) (\<lambda>d.
     Option.bind (apply_pushes d (snd ans)) (\<lambda>d.
       let od = od\<lparr>data := Some d, obj_desc := odsc\<lparr>od_owner := sv_addr sv\<rparr>\<rparr>;
           sv = (if bo_ret (fst ans) = dspaces_SUCCESS then sv_store sv od else sv)
       in map_option (\<lambda>(_, sv, out). (bo_ret (fst ans), sv, out)) (obj_update_dht env hret sv od DS_OBJ_OWNER))))"

text \<open>One round of \<^verbatim>\<open>drain_thread\<close>; nothing happens with an empty list.\<close>

definition drain_round :: "sv_env \<Rightarrow> (obj_descriptor \<Rightarrow> answer) \<Rightarrow> (nat \<Rightarrow> int) \<Rightarrow> server \<Rightarrow> (server \<times> msgs) option" where
  "drain_round env drain hret sv =
     (case sv_drain sv of
        [] \<Rightarrow> Some (sv, [])
      | odsc # rest \<Rightarrow>
          map_option (\<lambda>(ret, sv, out).
              (if ret \<noteq> dspaces_SUCCESS then sv\<lparr>sv_drain := sv_drain sv @ [odsc]\<rparr> else sv, out))
            (get_client_data env (drain odsc) hret (sv\<lparr>sv_drain := rest\<rparr>) odsc))"

text \<open>The clients \<^verbatim>\<open>kill_local_clients\<close> signals, each once, the last found first.\<close>

definition kill_local_clients :: "server \<Rightarrow> string list" where
  "kill_local_clients sv =
     fold (\<lambda>odsc client_list. if od_owner odsc \<in> set client_list then client_list else od_owner odsc # client_list)
       (sv_drain sv) []"

section \<open>Queries\<close>

text \<open>
  The module for a descriptor may produce the data; the descriptor of the query takes over its shape. An
  element size other than the requested one is only reported.
\<close>

definition routed :: "obj_descriptor \<Rightarrow> mod_ret \<Rightarrow> obj_descriptor" where
  "routed odsc r =
     (let odsc = odsc\<lparr>od_size := mr_elem_size r\<rparr>
      in if num_dims (od_bb odsc) \<noteq> mr_ndim r
         then obj_data_resize (odsc\<lparr>od_bb := (od_bb odsc)\<lparr>num_dims := mr_ndim r\<rparr>\<rparr>) (mr_dim r)
         else if od_size odsc * mr_len r \<noteq> obj_data_size odsc then obj_data_resize odsc (mr_dim r)
         else odsc)"

definition route_request :: "sv_env \<Rightarrow> (nat \<Rightarrow> int) \<Rightarrow> server \<Rightarrow> obj_descriptor \<Rightarrow> global_dimension \<Rightarrow>
    (int \<times> obj_descriptor \<times> server \<times> msgs) option" where
  "route_request env hret sv odsc gd =
     (case en_query env odsc of
        Mod_None \<Rightarrow> Some (0, odsc, sv, [])
      | Mod_Err err \<Rightarrow> Some (err, odsc, sv, [])
      | Mod_Ret r \<Rightarrow>
          if od_size odsc \<noteq> 0 \<and> od_size odsc \<noteq> mr_elem_size r then Some (0, odsc, sv, [])
          else let odsc = routed odsc r
               in Option.bind (odsc_take_ownership sv odsc) (\<lambda>od_odsc.
                  let od = (obj_data_alloc_no_data (od_odsc\<lparr>od_tag := mr_tag r\<rparr>) (Some (mr_data r)))\<lparr>gdim := gd\<rparr>;
                      odsc = (if od_tag odsc = 0 then odsc\<lparr>od_tag := mr_tag r\<rparr> else odsc)
                  in map_option (\<lambda>(_, sv, out). (0, odsc, sv, out))
                       (obj_update_dht env hret (sv_store sv od) od DS_OBJ_NEW)))"

definition local_responsibility :: "server \<Rightarrow> obj_descriptor \<Rightarrow> bool" where
  "local_responsibility sv odsc \<longleftrightarrow> sv_remotes sv = None \<or> ls_lookup (sv_ls sv) (od_name odsc) \<noteq> None"

text \<open>
  The first remote that has the data; the object made of it is zeroed and gets no name.
\<close>

definition query_remotes :: "sv_env \<Rightarrow> server \<Rightarrow> obj_descriptor \<Rightarrow> global_dimension \<Rightarrow> obj_descriptor list \<times> server" where
  "query_remotes env sv q_odsc q_gdim =
     (case List.map_filter (\<lambda>i. en_remote env i q_odsc q_gdim) [0..<(case sv_remotes sv of None \<Rightarrow> 0 | Some n \<Rightarrow> n)] of
        [] \<Rightarrow> ([], sv)
      | buffer # _ \<Rightarrow>
          (let odsc = zero_odsc\<lparr>od_version := od_version q_odsc, od_owner := sv_addr sv, od_st := od_st q_odsc,
                        od_size := od_size q_odsc, od_bb := od_bb q_odsc\<rparr>;
               od = obj_data_alloc_no_data odsc (Some buffer); ps = sv_ps sv
           in ([odsc], sv\<lparr>sv_ps := ls_add_obj (ps\<lparr>od_heap := (od_heap ps)(sv_brk sv \<mapsto> od)\<rparr>) (sv_brk sv),
                          sv_brk := sv_brk sv + 1\<rparr>)))"

text \<open>
  What a server reports of its own entry: the descriptors cut to the query, in place. Each
  coordinate is read before it is overwritten.
\<close>

definition crop_odsc :: "obj_descriptor \<Rightarrow> obj_descriptor \<Rightarrow> obj_descriptor" where
  "crop_odsc q odsc = odsc\<lparr>od_st := od_st q, od_bb := bbox_intersect (od_bb q) (od_bb odsc) (od_bb odsc)\<rparr>"

definition node_odscs :: "dht_entry \<Rightarrow> obj_descriptor \<Rightarrow> nat list \<Rightarrow> obj_descriptor list option" where
  "node_odscs de q addrs = those (map (\<lambda>a. map_option (crop_odsc q) (odsc_mem de a)) addrs)"

datatype query_ans = Done "obj_descriptor list" | Pending nat obj_descriptor "nat list"

definition local_find :: "sv_env \<Rightarrow> nat \<Rightarrow> server \<Rightarrow> nat \<Rightarrow> obj_descriptor \<Rightarrow> int \<Rightarrow>
    (obj_descriptor list option \<times> server) option" where
  "local_find env t sv sid q timeout =
     Option.bind (sv_spaces sv sid) (\<lambda>ssd.
     Option.bind (dht_find_entry_all (en_ijunk env) (en_junk env) t ssd (ent_self ssd) (self_entry ssd) q timeout) (\<lambda>(ans, de).
       let sv = sv\<lparr>sv_spaces := (sv_spaces sv)(sid \<mapsto> set_self ssd de)\<rparr>
       in case ans of
            Blocked \<Rightarrow> Some (None, sv)
          | Found addrs \<Rightarrow> map_option (\<lambda>tab. (Some tab, sv)) (node_odscs de q addrs)))"

text \<open>The tables of the peers in order, without the descriptors that are already in the result.\<close>

definition dedup_add :: "obj_descriptor \<Rightarrow> obj_descriptor list \<Rightarrow> obj_descriptor list" where
  "dedup_add odsc results =
     (if list_ex (\<lambda>r. obj_desc_equals_no_owner r odsc) results then results else results @ [odsc])"

definition merge_tabs :: "obj_descriptor list list \<Rightarrow> obj_descriptor list" where
  "merge_tabs odsc_tabs = fold dedup_add (concat odsc_tabs) []"

text \<open>
  \<^verbatim>\<open>get_query_odscs\<close>: \<open>ask r og\<close> is what the server of rank \<open>r\<close> answers. The peers get the query before it is
  routed. Two entries of the server's own rank would make it wait for a request it has not sent.
\<close>

definition get_query_odscs :: "sv_env \<Rightarrow> nat \<Rightarrow> (nat \<Rightarrow> odsc_gdim_t \<Rightarrow> obj_descriptor list) \<Rightarrow> (nat \<Rightarrow> int) \<Rightarrow> server \<Rightarrow>
    odsc_gdim_t \<Rightarrow> int \<Rightarrow> (query_ans \<times> server \<times> msgs) option" where
  "get_query_odscs env t ask hret sv og timeout =
     (let q = og_odsc og in
      if \<not> local_responsibility sv q
      then (let (odscs, sv) = query_remotes env sv q (og_gdim og) in Some (Done odscs, sv, []))
      else
        Option.bind (lookup_sspace env sv (og_gdim og)) (\<lambda>(sid, sv).
        Option.bind (hash_ranks env sv sid (od_bb q)) (\<lambda>(ranks, sv).
          let self_num = length (filter (\<lambda>r. r = sv_rank sv) ranks)
          in if self_num > 1 then None
             else if ranks \<noteq> [] \<and> self_num = 0 then Some (Done (merge_tabs (map (\<lambda>r. ask r og) ranks)), sv, [])
             else Option.bind (route_request env hret sv q (og_gdim og)) (\<lambda>(_, q, sv, out).
                  map_option (\<lambda>(tab, sv).
                    case tab of
                      None \<Rightarrow> (Pending sid q ranks, sv, out)
                    | Some tab \<Rightarrow> (Done (merge_tabs (if ranks = [] then [tab]
                          else map (\<lambda>r. if r = sv_rank sv then tab else ask r og) ranks)), sv, out))
                    (local_find env t sv sid q timeout)))))"

definition query_resume :: "nat \<Rightarrow> (nat \<Rightarrow> odsc_gdim_t \<Rightarrow> obj_descriptor list) \<Rightarrow> server \<Rightarrow> odsc_gdim_t \<Rightarrow> nat \<Rightarrow> obj_descriptor \<Rightarrow>
    nat list \<Rightarrow> query_ans option" where
  "query_resume t ask sv og sid q ranks =
     Option.bind (sv_spaces sv sid) (\<lambda>ssd.
       case dht_resume t (self_entry ssd) of
         Blocked \<Rightarrow> Some (Pending sid q ranks)
       | Found addrs \<Rightarrow> map_option (\<lambda>tab. Done (merge_tabs (if ranks = [] then [tab]
             else map (\<lambda>r. if r = sv_rank sv then tab else ask r og) ranks))) (node_odscs (self_entry ssd) q addrs))"

definition query_rpc :: "sv_env \<Rightarrow> nat \<Rightarrow> (nat \<Rightarrow> odsc_gdim_t \<Rightarrow> obj_descriptor list) \<Rightarrow> (nat \<Rightarrow> int) \<Rightarrow> server \<Rightarrow>
    odsc_gdim_t \<Rightarrow> (query_ans \<times> server \<times> msgs) option" where
  "query_rpc env t ask hret sv og = get_query_odscs env t ask hret sv og (og_param og)"

text \<open>The notification of a subscription: the client's address, the descriptors (or the wait) and the identifier.\<close>

definition sub_rpc :: "sv_env \<Rightarrow> nat \<Rightarrow> (nat \<Rightarrow> odsc_gdim_t \<Rightarrow> obj_descriptor list) \<Rightarrow> (nat \<Rightarrow> int) \<Rightarrow> server \<Rightarrow>
    odsc_gdim_t \<Rightarrow> ((string \<times> query_ans \<times> int) \<times> server \<times> msgs) option" where
  "sub_rpc env t ask hret sv og =
     map_option (\<lambda>(ans, sv, out). ((od_owner (og_odsc og), ans, og_param og), sv, out))
       (get_query_odscs env t ask hret sv (og\<lparr>og_param := -1\<rparr>) (-1))"

definition odsc_internal_rpc :: "sv_env \<Rightarrow> nat \<Rightarrow> (nat \<Rightarrow> int) \<Rightarrow> server \<Rightarrow> odsc_gdim_t \<Rightarrow> (query_ans \<times> server \<times> msgs) option" where
  "odsc_internal_rpc env t hret sv og =
     Option.bind (lookup_sspace env sv (og_gdim og)) (\<lambda>(sid, sv).
     Option.bind (route_request env hret sv (og_odsc og) (og_gdim og)) (\<lambda>(_, q, sv, out).
     map_option (\<lambda>(tab, sv). (case tab of None \<Rightarrow> Pending sid q [] | Some tab \<Rightarrow> Done tab, sv, out))
       (local_find env t sv sid q (og_param og))))"

section \<open>Gets\<close>

definition DS_NO_COMPRESS :: u32 where "DS_NO_COMPRESS = 4"

text \<open>The store a get reads: the proxy store if it knows the name.\<close>

definition serving_store :: "server \<Rightarrow> obj_descriptor \<Rightarrow> ss_storage" where
  "serving_store sv odsc =
     (if sv_remotes sv \<noteq> None \<and> ls_lookup (sv_ps sv) (od_name odsc) \<noteq> None then sv_ps sv else sv_ls sv)"

text \<open>
  \<^verbatim>\<open>get_rpc\<close>: the requested part is copied out of the stored object, compressed if that makes it smaller,
  and pushed to the client. A missing object is dereferenced. \<open>ulen\<close> is the uninitialised \<^verbatim>\<open>out.len\<close>.
\<close>

definition get_rpc :: "sv_env \<Rightarrow> int \<Rightarrow> int \<Rightarrow> u64 \<Rightarrow> server \<Rightarrow> u32 \<Rightarrow> obj_descriptor \<Rightarrow> answer option" where
  "get_rpc env bulk_ret xret ulen sv flags in_odsc =
     (let ls = serving_store sv in_odsc;
          err = (\<lparr>bo_ret = dspaces_ERR_MERCURY, bo_len = ulen\<rparr>, [])
      in Option.bind (ls_find ls in_odsc) (\<lambda>from_obj.
         Option.bind (obj_data_alloc (en_mem env) in_odsc) (\<lambda>od.
         Option.bind (ssd_copy (en_junk env) od (the_od ls from_obj)) (\<lambda>(od, _).
         Option.bind (data od) (\<lambda>d.
           let size = unat (obj_data_size in_odsc)
           in if bulk_ret \<noteq> HG_SUCCESS then Some err
              else let cbytes = (if flags AND DS_NO_COMPRESS = 0 then en_lz4c env d size else [])
                   in if cbytes = [] \<and> length d < size then None
                      else if xret \<noteq> HG_SUCCESS then Some err
                      else Some (\<lparr>bo_ret = dspaces_SUCCESS, bo_len = of_nat (length cbytes)\<rparr>,
                                 [(0, if cbytes = [] then take size d else cbytes)]))))))"

section \<open>Metadata\<close>

text \<open>
  \<^verbatim>\<open>peek_meta_remotes\<close>: \<open>order\<close> is the order in which the remotes answer. The result is the number of the
  answer, not of the remote.
\<close>

definition peek_meta_remotes :: "nat list \<Rightarrow> (nat \<Rightarrow> int) \<Rightarrow> int" where
  "peek_meta_remotes order res =
     fold (\<lambda>(i, index) ret. if res index = 1 then int i else ret) (enumerate 0 order) (-1)"

definition peek_meta_rpc :: "nat list \<Rightarrow> (nat \<Rightarrow> int) \<Rightarrow> server \<Rightarrow> string \<Rightarrow> int option" where
  "peek_meta_rpc order res sv nm =
     map_option (\<lambda>found.
       if found = 1 then 1
       else if sv_remotes sv \<noteq> None \<and> order \<noteq> [] \<and> peek_meta_remotes order res > -1 then 1 else 0)
       (peek_meta_local (sv_ls sv) nm)"

record query_meta_out =
  qm_version :: int
  qm_data :: "byte list"

text \<open>
  \<open>fwd i\<close> is the outcome of the query at remote \<open>i\<close>, \<open>None\<close> if a Margo call fails. \<open>Inr\<close> is an answer, \<open>Inl\<close> a wait.
\<close>

definition meta_reply :: "meta_data option \<Rightarrow> query_meta_out" where
  "meta_reply r =
     (case r of
        Some mdata \<Rightarrow> \<lparr>qm_version = sint (md_version mdata), qm_data = take (nat (md_length mdata)) (md_data mdata)\<rparr>
      | None \<Rightarrow> \<lparr>qm_version = -1, qm_data = []\<rparr>)"

definition query_meta_rpc :: "nat list \<Rightarrow> (nat \<Rightarrow> int) \<Rightarrow> (nat \<Rightarrow> query_meta_out option) \<Rightarrow> nat \<Rightarrow> server \<Rightarrow> string \<Rightarrow> int \<Rightarrow> int \<Rightarrow>
    ((unit + query_meta_out) \<times> server) option" where
  "query_meta_rpc order res fwd t sv nm version mode =
     (let remote = (if order \<noteq> [] then peek_meta_remotes order res else -1);
          rem_out = (if remote > -1 then fwd (nat remote) else None)
      in case rem_out of
           Some out \<Rightarrow> Some (Inr out, sv)
         | None \<Rightarrow>
             map_option (\<lambda>(r, ls). (case r of Answer m \<Rightarrow> Inr (meta_reply m) | _ \<Rightarrow> Inl (), sv\<lparr>sv_ls := ls\<rparr>))
               (query_meta_local t (sv_ls sv) nm version mode))"

section \<open>The server's own access to its store\<close>

record dspaces_data_obj =
  do_var_name :: string
  do_version :: u32
  do_size :: u64
  do_lb :: "u64 list"
  do_ub :: "u64 list"

definition dspaces_server_find_objs :: "server \<Rightarrow> obj_descriptor \<Rightarrow> string \<Rightarrow> u32 \<Rightarrow> dspaces_data_obj list" where
  "dspaces_server_find_objs sv odsc0 var_name version =
     map (\<lambda>odsc. \<lparr>do_var_name = var_name, do_version = version, do_size = od_size odsc,
         do_lb = take (ndims (od_bb odsc)) (lb (od_bb odsc)), do_ub = take (ndims (od_bb odsc)) (ub (od_bb odsc))\<rparr>)
       (ls_find_ods (sv_ls sv) (odsc0\<lparr>od_name := var_name, od_version := version\<rparr>))"

text \<open>
  The object must have exactly the requested bounds. The flag says whether the mutex of the store is
  still held on return: both errors return without releasing it.
\<close>

definition data_obj_odsc :: "obj_descriptor \<Rightarrow> dspaces_data_obj \<Rightarrow> obj_descriptor" where
  "data_obj_odsc odsc0 obj =
     (let n = length (do_lb obj); bb = od_bb odsc0
      in odsc0\<lparr>od_name := do_var_name obj, od_version := do_version obj,
           od_bb := \<lparr>num_dims = int n, lb = do_lb obj @ drop n (lb bb), ub = do_ub obj @ drop n (ub bb)\<rparr>\<rparr>)"

definition dspaces_server_get_objdata :: "server \<Rightarrow> obj_descriptor \<Rightarrow> dspaces_data_obj \<Rightarrow> byte list \<Rightarrow>
    (int \<times> byte list \<times> bool) option" where
  "dspaces_server_get_objdata sv odsc0 obj buffer =
     (let odsc = data_obj_odsc odsc0 obj; n = length (do_lb obj)
      in case ls_find (sv_ls sv) odsc of
           None \<Rightarrow> Some (-1, buffer, True)
         | Some od \<Rightarrow>
             (let bb = od_bb (the_odsc (sv_ls sv) od)
              in if \<not> list_all (\<lambda>i. lb bb ! i = do_lb obj ! i \<and> ub bb ! i = do_ub obj ! i) [0..<n]
                 then Some (-2, buffer, True)
                 else Option.bind (data (the_od (sv_ls sv) od)) (\<lambda>d.
                      map_option (\<lambda>b. (0, b, False))
                        (memcpy buffer 0 d 0 (unat (do_size obj * bbox_volume (od_bb odsc)))))))"

section \<open>Handler numbers\<close>

definition init_rmap :: "nat \<Rightarrow> int list" where
  "init_rmap num_handlers = replicate num_handlers (-1)"

text \<open>The slot of an execution stream, taken on first use; -1 when there are more streams than slots.\<close>

fun handler_loop :: "int \<Rightarrow> nat \<Rightarrow> int list \<Rightarrow> int \<times> int list" where
  "handler_loop es_rank i [] = (-1, [])"
| "handler_loop es_rank i (r # rmap) =
     (let r = (if r = -1 then es_rank else r)
      in if r = es_rank then (int i, r # rmap)
         else let (ret, rmap) = handler_loop es_rank (i + 1) rmap in (ret, r # rmap))"

definition get_handler_id :: "int \<Rightarrow> int list \<Rightarrow> int \<times> int list" where
  "get_handler_id es_rank rmap = handler_loop es_rank 0 rmap"

section \<open>Frame lemmas\<close>

lemma self_set_self [simp]:
  "ent_self ss < length (ent_tab (ss_dht ss)) \<Longrightarrow> self_entry (set_self ss de) = de"
  "ent_self (set_self ss de) = ent_self ss" "hash_version (set_self ss de) = hash_version ss"
  by (simp_all add: self_entry_def set_self_def)

lemma gdim_equal_none: "gd_ndim gd = 0 \<Longrightarrow> global_dimension_equal gd g"
  by (simp add: global_dimension_equal_def)

lemma update_local_other:
  "obj_update_local_dht env sv sid odsc ty = Some sv' \<Longrightarrow> sid' \<noteq> sid \<Longrightarrow> sv_spaces sv' sid' = sv_spaces sv sid'"
  by (auto simp: obj_update_local_dht_def bind_eq_Some_conv split: if_splits)

lemma update_loop_other:
  "update_loop env hret sid og i rs sv out = Some (ret, sv', out') \<Longrightarrow> sid' \<noteq> sid \<Longrightarrow> sv_spaces sv' sid' = sv_spaces sv sid'"
proof (induction rs arbitrary: i sv out)
  case (Cons r rs)
  then show ?case by (auto simp: bind_eq_Some_conv update_local_other split: if_splits)
qed simp

lemma update_loop_out:
  "update_loop env hret sid og i rs sv out = Some (ret, sv', out') \<Longrightarrow> \<exists>rs'. out' = out @ map (\<lambda>r. (r, og)) rs' \<and> set rs' \<subseteq> set rs"
proof (induction rs arbitrary: i sv out)
  case (Cons r rs)
  show ?case
  proof (cases "r \<noteq> sv_rank sv \<and> hret i \<noteq> HG_SUCCESS")
    case True
    then show ?thesis using Cons.prems by (auto intro!: exI [of _ "[r]"])
  next
    case False
    then obtain i' sv1 where "update_loop env hret sid og i' rs sv1 (out @ (if r = sv_rank sv then [] else [(r, og)])) = Some (ret, sv', out')"
      using Cons.prems by (auto simp: bind_eq_Some_conv split: if_splits)
    from Cons.IH [OF this] obtain rs' where "out' = out @ (if r = sv_rank sv then [] else [(r, og)]) @ map (\<lambda>r. (r, og)) rs'" "set rs' \<subseteq> set rs" by auto
    then show ?thesis by (intro exI [of _ "(if r = sv_rank sv then [] else [r]) @ rs'"]) auto
  qed
qed simp

lemma hash_ranks_spaces: "hash_ranks env sv sid bb = Some (ranks, sv') \<Longrightarrow> sv_spaces sv' = sv_spaces sv"
  by (auto simp: hash_ranks_def bind_eq_Some_conv)

lemma sv_store_spaces [simp]: "sv_spaces (sv_store sv od) = sv_spaces sv" "sv_default_gdim (sv_store sv od) = sv_default_gdim sv"
  "sv_slist (sv_store sv od) = sv_slist sv"
  by (simp_all add: sv_store_def Let_def)

section \<open>Drained objects\<close>

lemma update_dht_no_gdim:
  assumes "obj_update_dht env hret sv od ty = Some (ret, sv', out)" "gd_ndim (gdim od) = 0" "sid \<noteq> 0"
  shows "sv_spaces sv' sid = sv_spaces sv sid" "\<forall>(r, og)\<in>set out. gd_ndim (og_gdim og) = 0"
proof -
  from assms(1,2) obtain ranks sv1 sv2 where
    h: "hash_ranks env sv 0 (od_bb (obj_desc od)) = Some (ranks, sv1)"
    and l: "(if ranks = [] then obj_update_local_dht env sv1 0 (obj_desc od) ty else Some sv1) = Some sv2"
    and u: "update_loop env hret 0 \<lparr>og_odsc = obj_desc od, og_gdim = gdim od, og_param = ty\<rparr> 0 ranks sv2 [] = Some (ret, sv', out)"
    by (auto simp: obj_update_dht_def lookup_sspace_def gdim_equal_none bind_eq_Some_conv)
  have "sv_spaces sv2 sid = sv_spaces sv1 sid" using l assms(3) update_local_other by (auto split: if_splits)
  then show "sv_spaces sv' sid = sv_spaces sv sid"
    using update_loop_other [OF u assms(3)] hash_ranks_spaces [OF h] by simp
  show "\<forall>(r, og)\<in>set out. gd_ndim (og_gdim og) = 0" using update_loop_out [OF u] assms(2) by auto
qed

lemma update_rpc_no_gdim:
  assumes "obj_update_rpc env sv og = Some sv'" "gd_ndim (og_gdim og) = 0" "sid \<noteq> 0"
  shows "sv_spaces sv' sid = sv_spaces sv sid"
  using assms update_local_other
  by (auto simp: obj_update_rpc_def lookup_sspace_def gdim_equal_none bind_eq_Some_conv)

section \<open>Gets\<close>

text \<open>
  What the code relies on of LZ4: compressed data is not larger than the limit it was given, and
  decompressing it restores the data, whatever follows it in the buffer.
\<close>

definition lz4_ok :: "lz4_fn \<Rightarrow> (byte list \<Rightarrow> nat \<Rightarrow> byte list) \<Rightarrow> bool" where
  "lz4_ok lz4 lz4c \<longleftrightarrow> (\<forall>d rest. lz4c d (length d) \<noteq> [] \<longrightarrow> length (lz4c d (length d)) \<le> length d \<and>
     (\<exists>ret. lz4 (lz4c d (length d) @ rest) (length (lz4c d (length d))) (length d) = (ret, d)))"

lemma get_rpc_ok:
  assumes find: "ls_find (serving_store sv odsc) odsc = Some a" and src: "the_od (serving_store sv odsc) a = od"
    and fits: "obj_fits od" "od_size odsc = od_size (obj_desc od)" "num_dims (od_bb odsc) = num_dims (od_bb (obj_desc od))"
    and dims: "1 \<le> num_dims (od_bb odsc)" "num_dims (od_bb odsc) \<le> 9"
    and box: "wf_bbox (od_bb odsc)" "nonempty_bbox (od_bb odsc)" "unat (od_size odsc) * vol (od_bb odsc) < 2147483648"
    and lz: "lz4_ok lz4 (en_lz4c env)" "od_flags odsc AND DS_CLIENT_STORAGE = 0" and junk: "wf_bbox (en_junk env)"
    and fetch: "fetch odsc = the (get_rpc env HG_SUCCESS HG_SUCCESS ulen sv flags odsc)" and req: "od_size req = od_size odsc"
  shows "\<exists>d. delivers lz4 fetch req odsc d \<and> length d = unat (obj_data_size odsc) \<and>
    bo_ret (fst (fetch odsc)) = dspaces_SUCCESS \<and>
    (\<forall>p\<in>points (od_bb odsc) \<inter> points (od_bb (obj_desc od)). obj_get (obj_data_blank odsc (Some d)) p = obj_get od p)"
proof -
  let ?n = "unat (obj_data_size odsc)"
  have se: "0 < unat (od_size odsc)" using fits by (auto simp: obj_fits_def Let_def)
  have n: "?n = unat (od_size odsc) * vol (od_bb odsc)" using box se by (intro obj_data_size_eq) simp_all
  then have "?n < 2147483648" using box by simp
  then obtain d0 where d0: "obj_data_alloc (en_mem env) odsc = Some (obj_data_blank odsc (Some d0))" "length d0 = ?n"
    using obj_data_alloc_Some by blast
  have isect: "bbox_does_intersect (od_bb odsc) (od_bb (obj_desc od))"
    using find src by (auto simp: ls_find_def find_Some_iff obj_desc_equals_intersect_def)
  have "obj_fits (obj_data_blank odsc (Some d0))" using box d0(2) n se by (simp add: obj_fits_def Let_def)
  then obtain to' m where c: "ssd_copy (en_junk env) (obj_data_blank odsc (Some d0)) od = Some (to', m)" "obj_fits to'"
    "obj_desc to' = obj_desc (copy_tag_type (obj_data_blank odsc (Some d0)) od)"
    "\<forall>p\<in>points (od_bb odsc). obj_get to' p =
        (if p \<in> points (od_bb (obj_desc od)) then obj_get od p else obj_get (obj_data_blank odsc (Some d0)) p)"
    using ssd_copy_elements [of "obj_data_blank odsc (Some d0)" od "en_junk env"] fits dims isect junk by auto
  have sel: "od_bb (obj_desc to') = od_bb odsc" "od_size (obj_desc to') = od_size odsc"
    using c(3) by (simp_all add: copy_tag_type_def)
  obtain d where d: "data to' = Some d" "length d = ?n"
    using c(2) n by (auto simp: obj_fits_def Let_def sel split: option.splits)
  define cb where "cb = (if flags AND DS_NO_COMPRESS = 0 then en_lz4c env d ?n else [])"
  have f: "fetch odsc = (\<lparr>bo_ret = dspaces_SUCCESS, bo_len = of_nat (length cb)\<rparr>, [(0, if cb = [] then take ?n d else cb)])"
    using fetch find src d0(1) c(1) d
    by (simp add: get_rpc_def Let_def cb_def)
  have get: "obj_get (obj_data_blank odsc (Some d)) p = obj_get to' p" for p
    using d(1) by (simp add: obj_get_def sel)
  have rd: "rdma_size req odsc = ?n" using req by (simp add: rdma_size_def obj_data_size_def)
  have "delivers lz4 fetch req odsc d"
  proof (cases "cb = []")
    case True
    with f d(2) show ?thesis by (intro delivers_plain [where fetch = fetch and odsc = odsc, OF f]) (simp_all add: memcpy_def)
  next
    case False
    then have cb: "cb = en_lz4c env d (length d)" "cb \<noteq> []" using d(2) by (auto simp: cb_def split: if_splits)
    then have le: "length cb \<le> length d" "\<And>rest. \<exists>ret. lz4 (cb @ rest) (length cb) (length d) = (ret, d)"
      using lz(1) unfolding lz4_ok_def by blast+
    have u: "unat (of_nat (length cb) :: u64) = length cb"
      using le(1) d(2) \<open>?n < 2147483648\<close> by (simp add: unat_of_nat)
    then have "(of_nat (length cb) :: u64) \<noteq> 0" using cb(2) by (metis length_0_conv unat_0)
    with f False le u d(2) rd lz(2) show ?thesis by (intro delivers_lz4 [where cdata = cb and resp = "\<lparr>bo_ret = dspaces_SUCCESS, bo_len = of_nat (length cb)\<rparr>"]) simp_all
  qed
  then show ?thesis using c(4) d(2) get f by (intro exI [of _ d]) simp
qed

section \<open>Small operations\<close>

lemma kill_list_fold:
  "distinct acc \<Longrightarrow> distinct (fold (\<lambda>odsc cl. if od_owner odsc \<in> set cl then cl else od_owner odsc # cl) ods acc) \<and>
    set (fold (\<lambda>odsc cl. if od_owner odsc \<in> set cl then cl else od_owner odsc # cl) ods acc) = set acc \<union> od_owner ` set ods"
  by (induction ods arbitrary: acc) auto

lemma kill_local_clients_once:
  "distinct (kill_local_clients sv) \<and> set (kill_local_clients sv) = od_owner ` set (sv_drain sv)"
  using kill_list_fold [of "[]" "sv_drain sv"] by (simp add: kill_local_clients_def)

text \<open>
  The slots are given out in the order of the first calls: a stream that has one gets it again, a new
  one gets the next free slot, and -1 when there is none left.
\<close>

lemma handler_loop_ok:
  assumes "es_rank \<noteq> -1" "distinct es" "-1 \<notin> set es"
  shows "handler_loop es_rank i (es @ replicate k (-1)) =
    (if es_rank \<in> set es then (int i + int (length (takeWhile (\<lambda>x. x \<noteq> es_rank) es)), es @ replicate k (-1))
     else if k = 0 then (-1, es)
     else (int (i + length es), (es @ [es_rank]) @ replicate (k - 1) (-1)))"
  using assms(2,3)
proof (induction es arbitrary: i)
  case Nil
  then show ?case using assms(1) by (cases k) simp_all
next
  case (Cons e es)
  then show ?case using assms(1) by auto
qed


lemma get_handler_id_spec:
  assumes "es_rank \<noteq> -1" "distinct es" "-1 \<notin> set es"
  shows "get_handler_id es_rank (es @ replicate k (-1)) =
    (if es_rank \<in> set es then (int (length (takeWhile (\<lambda>x. x \<noteq> es_rank) es)), es @ replicate k (-1))
     else if k = 0 then (-1, es)
     else (int (length es), (es @ [es_rank]) @ replicate (k - 1) (-1)))"
  using handler_loop_ok [OF assms, of 0 k] by (simp add: get_handler_id_def)

section \<open>Global dimensions\<close>

lemma gdim_equal_take:
  "n = nat (gd_ndim g1) \<Longrightarrow> n \<le> length (gd_sizes g1) \<Longrightarrow> n \<le> length (gd_sizes g2) \<Longrightarrow>
    global_dimension_equal g1 g2 \<longleftrightarrow> take n (gd_sizes g1) = take n (gd_sizes g2)"
  by (auto simp: global_dimension_equal_def list_all_iff list_eq_iff_nth_eq)

text \<open>
  A client that has not defined dimensions of its own for a variable sends the ones the server told it, and
  the server uses the default space for them.
\<close>

lemma default_gdim_default_space:
  assumes "dsg_alloc ijunk gd0 conf rk n addr ips remotes = Some (Inr sv)" "length gd0 = BBOX_MAX_NDIM"
    "length (cf_dims conf) = BBOX_MAX_NDIM" "length (gd_sizes (si_default_gdim hdr0)) = BBOX_MAX_NDIM"
  shows "lookup_sspace env sv (dcg_default_gdim (install_ss_info c (ss_rpc sv hdr0))) = Some (0, sv)"
proof -
  define m where "m = nat (cf_ndim (sv_conf sv))"
  have m: "m \<le> BBOX_MAX_NDIM" "length (cf_dims (sv_conf sv)) = BBOX_MAX_NDIM" "length (gd_sizes (sv_default_gdim sv)) = BBOX_MAX_NDIM"
    "take m (gd_sizes (sv_default_gdim sv)) = take m (cf_dims (sv_conf sv))"
    using assms by (auto simp: dsg_alloc_def init_sspace_def bind_eq_Some_conv Let_def m_def BBOX_MAX_NDIM_def split: if_splits)
  have "global_dimension_equal (dcg_default_gdim (install_ss_info c (ss_rpc sv hdr0))) (sv_default_gdim sv)"
    using m assms(4) by (subst gdim_equal_take [of m]) (simp_all add: ss_rpc_def install_ss_info_def Let_def m_def)
  then show ?thesis by (simp add: lookup_sspace_def)
qed

text \<open>Looking a space up again gives the same space and changes nothing.\<close>

lemma lookup_sspace_again:
  assumes "lookup_sspace env sv gd = Some (sid, sv')"
  shows "lookup_sspace env sv' gd = Some (sid, sv')"
proof -
  have r: "global_dimension_equal gd gd" by (simp add: global_dimension_equal_def list_all_iff)
  show ?thesis
    using assms r by (auto simp: lookup_sspace_def Let_def bind_eq_Some_conv split: if_splits option.splits prod.splits)
qed

section \<open>Properties\<close>

definition ex_sv_env :: sv_env where
  "ex_sv_env = \<lparr>en_ijunk = \<lparr>i_lb = 0, i_ub = 0\<rparr>, en_junk = mk_box [] [], en_mem = (\<lambda>_. 0), en_query = (\<lambda>_. Mod_None),
     en_lz4c = (\<lambda>_ _. []), en_remote = (\<lambda>_ odsc _. Some (if od_name odsc = ''a'' then [1, 1] else [2, 2]))\<rparr>"

definition ex_conf :: ds_conf where
  "ex_conf = \<lparr>cf_ndim = 1, cf_dims = 4 # replicate 9 0, cf_max_versions = 2, cf_hash_version = hash_version_v2, cf_num_apps = 1\<rparr>"

definition ex_sv :: "nat option \<Rightarrow> server" where
  "ex_sv remotes = (case dsg_alloc \<lparr>i_lb = 0, i_ub = 0\<rparr> (replicate 10 0) ex_conf 0 1 ''srv'' None remotes of
     Some (Inr sv) \<Rightarrow> sv)"

definition ex_desc :: "string \<Rightarrow> u64 \<Rightarrow> u64 \<Rightarrow> obj_descriptor" where
  "ex_desc nm l u = zero_odsc\<lparr>od_name := nm, od_owner := ''cli'', od_version := 1, od_bb := mk_box [l] [u], od_size := 1,
     od_flags := DS_CLIENT_STORAGE\<rparr>"

definition ex_og :: "string \<Rightarrow> u64 \<Rightarrow> odsc_gdim_t" where
  "ex_og nm n = \<lparr>og_odsc = ex_desc nm 1 2, og_gdim = \<lparr>gd_ndim = 1, gd_sizes = n # replicate 9 0\<rparr>, og_param = 0\<rparr>"

lemma line_box: "l \<le> u \<Longrightarrow> wf_bbox (mk_box [l] [u])" "l \<le> u \<Longrightarrow> nonempty_bbox (mk_box [l] [u])"
  "num_dims (mk_box [l] [u]) = 1" "points (mk_box [l] [u]) = (\<lambda>x. [x]) ` {l..u}"
proof -
  show "points (mk_box [l] [u]) = (\<lambda>x. [x]) ` {l..u}"
    by (auto simp: points_def mk_box_def length_Suc_conv image_iff)
qed (simp_all add: mk_box_simps)

text \<open>A local put, one round of the drain thread with the client's answer \<open>ans\<close>, and a query.\<close>

definition ex_drained :: "answer \<Rightarrow> u64 \<Rightarrow> server option" where
  "ex_drained ans n =
     Option.bind (put_local_rpc ex_sv_env (\<lambda>_. 0) (ex_sv None) (ex_og ''v'' n)) (\<lambda>(_, sv, _).
       map_option fst (drain_round ex_sv_env (\<lambda>_. ans) (\<lambda>_. 0) sv))"

definition ex_ask :: "server \<Rightarrow> u64 \<Rightarrow> (string \<times> u32) list option" where
  "ex_ask sv n =
     Option.bind (query_rpc ex_sv_env 0 (\<lambda>_ _. []) (\<lambda>_. 0) sv (ex_og ''v'' n)) (\<lambda>(ans, _).
       case ans of Done odscs \<Rightarrow> Some (map (\<lambda>odsc. (od_owner odsc, od_flags odsc)) odscs) | _ \<Rightarrow> None)"

text \<open>
  Draining records the new owner of an object only in the default space. The object the server fills
  carries no global dimensions, these always match the default space, and so do the updates sent to
  the other servers: whatever space the object was put in, its entry there still names the client.
\<close>

theorem drain_updates_default_only:
  assumes "get_client_data env ans hret sv odsc = Some (ret, sv', out)" "sid \<noteq> 0"
  shows "sv_spaces sv' sid = sv_spaces sv sid \<and>
    (\<forall>(r, og)\<in>set out. \<forall>peer peer'. obj_update_rpc env peer og = Some peer' \<longrightarrow> sv_spaces peer' sid = sv_spaces peer sid)"
proof -
  obtain sv1 od ret1 where "obj_update_dht env hret sv1 od DS_OBJ_OWNER = Some (ret1, sv', out)"
    "gd_ndim (gdim od) = 0" "sv_spaces sv1 = sv_spaces sv"
    using assms(1) by (auto simp: get_client_data_def obj_data_alloc_def bind_eq_Some_conv Let_def obj_data_blank_def split: if_splits)
  with update_dht_no_gdim [OF this(1,2) assms(2)] show ?thesis using update_rpc_no_gdim [OF _ _ assms(2)] by auto
qed

definition ex_put :: server where
  "ex_put = (case put_local_rpc ex_sv_env (\<lambda>_. 0) (ex_sv None) (ex_og ''v'' 6) of Some (_, sv, _) \<Rightarrow> sv)"

theorem drain_updates_default_only_witness:
  "\<exists>sv' out. get_client_data ex_sv_env (\<lparr>bo_ret = 0, bo_len = 0\<rparr>, [(0, [7, 8])]) (\<lambda>_. 0) ex_put (ex_desc ''v'' 1 2) = Some (0, sv', out) \<and>
    sv_spaces ex_put 1 \<noteq> None \<and> sv_spaces sv' 1 = sv_spaces ex_put 1"
proof -
  have "map_option fst (get_client_data ex_sv_env (\<lparr>bo_ret = 0, bo_len = 0\<rparr>, [(0, [7, 8])]) (\<lambda>_. 0) ex_put (ex_desc ''v'' 1 2)) = Some 0"
    "map_option (\<lambda>_. ()) (sv_spaces ex_put 1) = Some ()" by code_simp+
  then obtain sv' out where
    "get_client_data ex_sv_env (\<lparr>bo_ret = 0, bo_len = 0\<rparr>, [(0, [7, 8])]) (\<lambda>_. 0) ex_put (ex_desc ''v'' 1 2) = Some (0, sv', out)"
    "sv_spaces ex_put 1 \<noteq> None" by auto
  with drain_updates_default_only [OF this(1), of 1] show ?thesis by auto
qed

text \<open>In the default space the drained object has its new owner; in another one it keeps the old one.\<close>

lemma drained_owner_stays:
  "Option.bind (ex_drained (\<lparr>bo_ret = 0, bo_len = 0\<rparr>, [(0, [7, 8])]) 6) (\<lambda>sv. ex_ask sv 6) = Some [(''cli'', DS_CLIENT_STORAGE)]"
  "Option.bind (ex_drained (\<lparr>bo_ret = 0, bo_len = 0\<rparr>, [(0, [7, 8])]) 4) (\<lambda>sv. ex_ask sv 4) = Some [(''srv'', 0)]"
  by code_simp+

text \<open>
  A failed drain puts the object back into the queue, but the server has already made itself the owner; the
  get that follows reads an object the server does not have.
\<close>

lemma failed_drain_takes_ownership:
  "Option.bind (ex_drained (\<lparr>bo_ret = -3, bo_len = 0\<rparr>, []) 4) (\<lambda>sv.
     map_option (\<lambda>x. (x, length (sv_drain sv), get_rpc ex_sv_env 0 0 0 sv 0 (ex_desc ''v'' 1 2) = None)) (ex_ask sv 4)) = Some ([(''srv'', 0)], 1, True)"
  by code_simp

text \<open>
  Two variables of remotes with the same version share the empty name: the descriptors of the answers are the same, and
  a get for the first returns the data of the second.
\<close>

lemma remote_variables_confused:
  "(let (a, sv) = query_remotes ex_sv_env (ex_sv (Some 1)) (ex_desc ''a'' 1 2) (og_gdim (ex_og ''a'' 4));
        (b, sv) = query_remotes ex_sv_env sv (ex_desc ''b'' 1 2) (og_gdim (ex_og ''b'' 4))
    in a = b \<and> map_option snd (get_rpc ex_sv_env 0 0 0 sv 0 (hd a)) = Some [(0, [2, 2])])"
  by code_simp

text \<open>The second remote answers first and has the metadata; the first one is asked for it.\<close>

lemma peek_meta_wrong_remote: "peek_meta_remotes [1, 0] (\<lambda>r. if r = 1 then 1 else 0) = 0"
  by code_simp

text \<open>A one-dimensional variable of four elements is put into the default space of two dimensions.\<close>

lemma lookup_ignores_default_ndim:
  "(case dsg_alloc \<lparr>i_lb = 0, i_ub = 0\<rparr> (replicate 10 0) (ex_conf\<lparr>cf_ndim := 2, cf_dims := [4, 5] @ replicate 8 0\<rparr>) 0 1 ''srv'' None None of
      Some (Inr sv) \<Rightarrow> map_option fst (lookup_sspace ex_sv_env sv (og_gdim (ex_og ''v'' 4)))) = Some 0"
  by code_simp

end
