(* ===== verification/Wire.thy ===== *)
theory Wire
  imports Server
begin

text \<open>
  The wire procedures of \<^verbatim>\<open>ss_data.h\<close>: descriptor headers, buffers, lists of names and the parameters of a
  module query. A procedure hands a stream of primitives to Mercury, which gives them back in order.
  \<open>Inl\<close> is an error return of a procedure, \<open>None\<close> a read outside the memory it is given.
\<close>

datatype prim = PSize u64 | P8 "8 word" | PRaw "byte list" | PStr string

datatype hg_err = HG_INVALID_PARAM | HG_PROTOCOL_ERROR

text \<open>Taking a primitive off the stream; anything else than what is expected is an error of Mercury.\<close>

fun get_size :: "prim list \<Rightarrow> hg_err + u64 \<times> prim list" where
  "get_size (PSize n # ps) = Inr (n, ps)" | "get_size _ = Inl HG_PROTOCOL_ERROR"

fun get_raw :: "u64 \<Rightarrow> prim list \<Rightarrow> hg_err + byte list \<times> prim list" where
  "get_raw n (PRaw bs # ps) = (if length bs = unat n then Inr (bs, ps) else Inl HG_PROTOCOL_ERROR)"
| "get_raw _ _ = Inl HG_PROTOCOL_ERROR"

fun get_str :: "prim list \<Rightarrow> hg_err + string \<times> prim list" where
  "get_str (PStr s # ps) = Inr (s, ps)" | "get_str _ = Inl HG_PROTOCOL_ERROR"

fun get_i8 :: "prim list \<Rightarrow> hg_err + int \<times> prim list" where
  "get_i8 (P8 b # ps) = Inr (sint b, ps)" | "get_i8 _ = Inl HG_PROTOCOL_ERROR"

definition then_do :: "hg_err + 'a \<Rightarrow> ('a \<Rightarrow> hg_err + 'b) \<Rightarrow> hg_err + 'b" where
  "then_do r k = (case r of Inl e \<Rightarrow> Inl e | Inr x \<Rightarrow> k x)"

lemma then_do_simps [simp]: "then_do (Inr x) k = k x" "then_do (Inl e) k = Inl e"
  by (simp_all add: then_do_def)

definition put_raw :: "byte list \<Rightarrow> u64 \<Rightarrow> prim list option" where
  "put_raw mem n = (if unat n \<le> length mem then Some [PRaw (take (unat n) mem)] else None)"

section \<open>Descriptor headers and buffers\<close>

record odsc_hdr =
  oh_size :: u64
  oh_raw :: "byte list"

definition encode_odsc_hdr :: "odsc_hdr \<Rightarrow> prim list option" where
  "encode_odsc_hdr h =
     (if oh_size h \<noteq> 0 then map_option ((#) (PSize (oh_size h))) (put_raw (oh_raw h) (oh_size h)) else Some [PSize 0])"

text \<open>\<open>junk\<close> is the uninitialised pointer of an empty header.\<close>

definition decode_odsc_hdr :: "byte list \<Rightarrow> prim list \<Rightarrow> hg_err + odsc_hdr \<times> prim list" where
  "decode_odsc_hdr junk ps =
     then_do (get_size ps) (\<lambda>(n, ps).
       if n \<noteq> 0 then then_do (get_raw n ps) (\<lambda>(raw, ps). Inr (\<lparr>oh_size = n, oh_raw = raw\<rparr>, ps))
       else Inr (\<lparr>oh_size = n, oh_raw = junk\<rparr>, ps))"

record odsc_hdr_with_gdim = odsc_hdr +
  oh_gdim_size :: u64
  oh_raw_gdim :: "byte list"

text \<open>The return value of the first \<^verbatim>\<open>hg_proc_hg_size_t\<close> is overwritten. Without a descriptor the dimensions are not sent.\<close>

definition encode_odsc_hdr_with_gdim :: "odsc_hdr_with_gdim \<Rightarrow> prim list option" where
  "encode_odsc_hdr_with_gdim h =
     (if oh_size h \<noteq> 0
      then Option.bind (put_raw (oh_raw h) (oh_size h)) (\<lambda>r. map_option (\<lambda>g. PSize (oh_size h) # PSize (oh_gdim_size h) # r @ g)
             (put_raw (oh_raw_gdim h) (oh_gdim_size h)))
      else Some [PSize 0, PSize (oh_gdim_size h)])"

definition decode_odsc_hdr_with_gdim :: "byte list \<Rightarrow> prim list \<Rightarrow> hg_err + odsc_hdr_with_gdim \<times> prim list" where
  "decode_odsc_hdr_with_gdim junk ps =
     then_do (get_size ps) (\<lambda>(n, ps). then_do (get_size ps) (\<lambda>(gn, ps).
       if n \<noteq> 0
       then then_do (get_raw n ps) (\<lambda>(raw, ps). then_do (get_raw gn ps) (\<lambda>(gd, ps).
              Inr (\<lparr>oh_size = n, oh_raw = raw, oh_gdim_size = gn, oh_raw_gdim = gd\<rparr>, ps)))
       else Inr (\<lparr>oh_size = n, oh_raw = junk, oh_gdim_size = gn, oh_raw_gdim = junk\<rparr>, ps)))"

record dsp_buf =
  db_len :: u64
  db_buf :: "byte list"

definition encode_dsp_buf :: "dsp_buf \<Rightarrow> prim list option" where
  "encode_dsp_buf b = map_option ((#) (PSize (db_len b))) (put_raw (db_buf b) (db_len b))"

definition decode_dsp_buf :: "prim list \<Rightarrow> hg_err + dsp_buf \<times> prim list" where
  "decode_dsp_buf ps =
     then_do (get_size ps) (\<lambda>(n, ps). then_do (get_raw n ps) (\<lambda>(bs, ps). Inr (\<lparr>db_len = n, db_buf = bs\<rparr>, ps)))"

section \<open>Lists\<close>

text \<open>\<open>repeat_dec dec n\<close> is the loop of \<open>n\<close> decodings; the first error ends it.\<close>

fun repeat_dec :: "(prim list \<Rightarrow> hg_err + 'a \<times> prim list) \<Rightarrow> nat \<Rightarrow> prim list \<Rightarrow> hg_err + 'a list \<times> prim list" where
  "repeat_dec dec 0 ps = Inr ([], ps)"
| "repeat_dec dec (Suc n) ps =
     then_do (dec ps) (\<lambda>(x, ps). then_do (repeat_dec dec n ps) (\<lambda>(xs, ps). Inr (x # xs, ps)))"

definition encode_name_list :: "string list \<Rightarrow> prim list" where
  "encode_name_list names = PSize (of_nat (length names)) # map PStr names"

definition decode_name_list :: "prim list \<Rightarrow> hg_err + string list \<times> prim list" where
  "decode_name_list ps = then_do (get_size ps) (\<lambda>(n, ps). repeat_dec get_str (unat n) ps)"

section \<open>Parameters of a module query\<close>

definition DSP_FLOAT :: int where "DSP_FLOAT = -1"
definition DSP_INT :: int where "DSP_INT = -2"
definition DSP_LONG :: int where "DSP_LONG = -3"
definition DSP_DOUBLE :: int where "DSP_DOUBLE = -4"
definition DSP_BOOL :: int where "DSP_BOOL = -5"
definition DSP_CHAR :: int where "DSP_CHAR = -6"
definition DSP_UINT :: int where "DSP_UINT = -7"
definition DSP_ULONG :: int where "DSP_ULONG = -8"
definition DSP_BYTE :: int where "DSP_BYTE = -9"
definition DSP_UINT8 :: int where "DSP_UINT8 = -10"
definition DSP_UINT16 :: int where "DSP_UINT16 = -11"
definition DSP_UINT32 :: int where "DSP_UINT32 = -12"
definition DSP_UINT64 :: int where "DSP_UINT64 = -13"
definition DSP_INT8 :: int where "DSP_INT8 = -14"
definition DSP_INT16 :: int where "DSP_INT16 = -15"
definition DSP_INT32 :: int where "DSP_INT32 = -16"
definition DSP_INT64 :: int where "DSP_INT64 = -17"
definition DSP_STR :: int where "DSP_STR = -18"
definition DSP_JSON :: int where "DSP_JSON = -19"

lemmas dsp_codes = DSP_FLOAT_def DSP_INT_def DSP_LONG_def DSP_DOUBLE_def DSP_BOOL_def DSP_CHAR_def DSP_UINT_def DSP_ULONG_def
  DSP_BYTE_def DSP_UINT8_def DSP_UINT16_def DSP_UINT32_def DSP_UINT64_def DSP_INT8_def DSP_INT16_def DSP_INT32_def
  DSP_INT64_def DSP_STR_def DSP_JSON_def

text \<open>The class of a type code: the bytes of its values, a string, or unknown.\<close>

datatype val_class = Bytes nat | Text | Unknown

definition val_class :: "int \<Rightarrow> val_class" where
  "val_class ty =
     (if ty \<in> set [DSP_BOOL, DSP_CHAR, DSP_BYTE, DSP_UINT8, DSP_INT8] then Bytes 1
      else if ty \<in> set [DSP_UINT16, DSP_INT16] then Bytes 2
      else if ty \<in> set [DSP_FLOAT, DSP_INT, DSP_UINT, DSP_UINT32, DSP_INT32] then Bytes 4
      else if ty \<in> set [DSP_LONG, DSP_DOUBLE, DSP_ULONG, DSP_UINT64, DSP_INT64] then Bytes 8
      else if ty = DSP_STR \<or> ty = DSP_JSON then Text else Unknown)"

text \<open>What the pointer of a value points to.\<close>

datatype dict_val = DMem "byte list" | DStr string

record dict_entry =
  de_type :: int
  de_key :: string
  de_val :: dict_val

definition dict_encode_val :: "int \<Rightarrow> dict_val \<Rightarrow> (hg_err + prim list) option" where
  "dict_encode_val ty v =
     (case val_class ty of
        Bytes n \<Rightarrow> (case v of DMem bs \<Rightarrow> map_option Inr (put_raw bs (of_nat n)) | DStr _ \<Rightarrow> None)
      | Text \<Rightarrow> (case v of DStr s \<Rightarrow> Some (Inr [PStr s]) | DMem _ \<Rightarrow> None)
      | Unknown \<Rightarrow> Some (Inl HG_INVALID_PARAM))"

definition dict_decode_val :: "int \<Rightarrow> prim list \<Rightarrow> hg_err + dict_val \<times> prim list" where
  "dict_decode_val ty ps =
     (case val_class ty of
        Bytes n \<Rightarrow> then_do (get_raw (of_nat n) ps) (\<lambda>(bs, ps). Inr (DMem bs, ps))
      | Text \<Rightarrow> then_do (get_str ps) (\<lambda>(s, ps). Inr (DStr s, ps))
      | Unknown \<Rightarrow> Inl HG_INVALID_PARAM)"

text \<open>
  The loops over the entries count with an \<^verbatim>\<open>int\<close> against the 64-bit \<^verbatim>\<open>len\<close>; the model has no such limit, so
  it describes dictionaries of fewer than 2147483648 entries.
\<close>

fun encode_entries :: "dict_entry list \<Rightarrow> (hg_err + prim list) option" where
  "encode_entries [] = Some (Inr [])"
| "encode_entries (e # es) =
     Option.bind (dict_encode_val (de_type e) (de_val e)) (\<lambda>r.
       case r of
         Inl err \<Rightarrow> Some (Inl err)
       | Inr v \<Rightarrow> map_option (\<lambda>r. then_do r (\<lambda>ps. Inr (P8 (of_int (de_type e)) # PStr (de_key e) # v @ ps))) (encode_entries es))"

definition encode_dsp_dict :: "dict_entry list \<Rightarrow> (hg_err + prim list) option" where
  "encode_dsp_dict es = map_option (\<lambda>r. then_do r (\<lambda>ps. Inr (PSize (of_nat (length es)) # ps))) (encode_entries es)"

definition decode_entry :: "prim list \<Rightarrow> hg_err + dict_entry \<times> prim list" where
  "decode_entry ps =
     then_do (get_i8 ps) (\<lambda>(ty, ps). then_do (get_str ps) (\<lambda>(key, ps). then_do (dict_decode_val ty ps) (\<lambda>(v, ps).
       Inr (\<lparr>de_type = ty, de_key = key, de_val = v\<rparr>, ps))))"

definition decode_dsp_dict :: "prim list \<Rightarrow> hg_err + dict_entry list \<times> prim list" where
  "decode_dsp_dict ps = then_do (get_size ps) (\<lambda>(n, ps). repeat_dec decode_entry (unat n) ps)"

section \<open>Round trips\<close>

text \<open>
  A wire format: an encoder into primitives and a decoder that gives back what was encoded, up to \<open>keep\<close>, and
  leaves the rest of the stream. Sequences of a format are again a format.
\<close>

locale wire_format =
  fixes enc :: "'a \<Rightarrow> prim list" and dec :: "prim list \<Rightarrow> hg_err + 'a \<times> prim list" and ok :: "'a \<Rightarrow> bool" and keep :: "'a \<Rightarrow> 'a"
  assumes trip: "ok x \<Longrightarrow> dec (enc x @ rest) = Inr (keep x, rest)"
begin

lemma repeat_trip: "list_all ok xs \<Longrightarrow> repeat_dec dec (length xs) (concat (map enc xs) @ rest) = Inr (map keep xs, rest)"
  by (induction xs) (simp_all add: trip)

lemma counted_trip:
  assumes "list_all ok xs" "length xs < 18446744073709551616"
  shows "then_do (get_size (PSize (of_nat (length xs)) # concat (map enc xs) @ rest)) (\<lambda>(n, ps). repeat_dec dec (unat n) ps) =
    Inr (map keep xs, rest)"
  using repeat_trip [OF assms(1)] assms(2) by (simp add: unat_of_nat)

end

interpretation str_format: wire_format "\<lambda>s. [PStr s]" get_str "\<lambda>_. True" "\<lambda>s. s"
  by unfold_locales simp

text \<open>An entry whose memory has the bytes of its type. The type is one of the known codes.\<close>

definition entry_ok :: "dict_entry \<Rightarrow> bool" where
  "entry_ok e \<longleftrightarrow> (case val_class (de_type e) of
     Bytes n \<Rightarrow> (case de_val e of DMem bs \<Rightarrow> n \<le> length bs | DStr _ \<Rightarrow> False)
   | Text \<Rightarrow> (case de_val e of DStr _ \<Rightarrow> True | DMem _ \<Rightarrow> False) | Unknown \<Rightarrow> False)"

definition entry_keep :: "dict_entry \<Rightarrow> dict_entry" where
  "entry_keep e = e\<lparr>de_val := (case (val_class (de_type e), de_val e) of (Bytes n, DMem bs) \<Rightarrow> DMem (take n bs) | (_, v) \<Rightarrow> v)\<rparr>"

definition entry_enc :: "dict_entry \<Rightarrow> prim list" where
  "entry_enc e = P8 (of_int (de_type e)) # PStr (de_key e) #
     (case (val_class (de_type e), de_val e) of (Bytes n, DMem bs) \<Rightarrow> [PRaw (take n bs)] | (_, DStr s) \<Rightarrow> [PStr s] | _ \<Rightarrow> [])"

lemma val_class_cases:
  "val_class ty = Bytes n \<Longrightarrow> n \<in> {1, 2, 4, 8}" "val_class ty \<noteq> Unknown \<Longrightarrow> -19 \<le> ty \<and> ty < 0"
  by (auto simp: val_class_def dsp_codes split: if_splits)

lemma code_trip: "val_class ty \<noteq> Unknown \<Longrightarrow> sint (of_int ty :: 8 word) = ty"
  using val_class_cases(2) [of ty] by (simp add: sint_sbintrunc' signed_take_bit_int_eq_self)

lemma small_unat: "n \<in> {1, 2, 4, 8} \<Longrightarrow> unat (of_nat n :: u64) = n"
  by auto

interpretation entry_format: wire_format entry_enc decode_entry entry_ok entry_keep
proof
  fix e rest assume ok: "entry_ok e"
  then have "val_class (de_type e) \<noteq> Unknown" by (auto simp: entry_ok_def)
  note code = code_trip [OF this]
  show "decode_entry (entry_enc e @ rest) = Inr (entry_keep e, rest)"
    using ok code small_unat [OF val_class_cases(1) [of "de_type e"]]
    by (cases "val_class (de_type e)"; cases "de_val e")
      (auto simp: entry_ok_def decode_entry_def entry_enc_def dict_decode_val_def entry_keep_def)
qed

lemma encode_entries_ok: "list_all entry_ok es \<Longrightarrow> encode_entries es = Some (Inr (concat (map entry_enc es)))"
proof (induction es)
  case (Cons e es)
  then show ?case using small_unat [OF val_class_cases(1) [of "de_type e"]]
    by (cases "val_class (de_type e)"; cases "de_val e") (auto simp: entry_ok_def dict_encode_val_def put_raw_def entry_enc_def)
qed simp

text \<open>
  C36: the parameters of a module query survive the wire. If every value has a known type and memory of its
  size, encoding succeeds, and decoding the stream, whatever follows it, gives the same types, keys and
  values, each value cut to the bytes of its type, and leaves the rest.
\<close>

theorem dsp_dict_roundtrip:
  assumes "list_all entry_ok es" "length es < 18446744073709551616"
  shows "\<exists>ps. encode_dsp_dict es = Some (Inr ps) \<and> decode_dsp_dict (ps @ rest) = Inr (map entry_keep es, rest)"
  using entry_format.counted_trip [OF assms] encode_entries_ok [OF assms(1)]
  by (simp add: encode_dsp_dict_def decode_dsp_dict_def)

theorem dsp_dict_roundtrip_witness:
  "\<exists>ps. encode_dsp_dict [\<lparr>de_type = DSP_INT, de_key = ''k'', de_val = DMem [1, 2, 3, 4, 9, 9, 9, 9]\<rparr>,
      \<lparr>de_type = DSP_STR, de_key = ''n'', de_val = DStr ''x''\<rparr>] = Some (Inr ps) \<and>
    decode_dsp_dict (ps @ [P8 0]) = Inr ([\<lparr>de_type = DSP_INT, de_key = ''k'', de_val = DMem [1, 2, 3, 4]\<rparr>,
      \<lparr>de_type = DSP_STR, de_key = ''n'', de_val = DStr ''x''\<rparr>], [P8 0])"
proof -
  let ?es = "[\<lparr>de_type = DSP_INT, de_key = ''k'', de_val = DMem [1, 2, 3, 4, 9, 9, 9, 9]\<rparr>,
      \<lparr>de_type = DSP_STR, de_key = ''n'', de_val = DStr ''x''\<rparr>]"
  have "list_all entry_ok ?es" by code_simp
  moreover have "map entry_keep ?es = [\<lparr>de_type = DSP_INT, de_key = ''k'', de_val = DMem [1, 2, 3, 4]\<rparr>,
      \<lparr>de_type = DSP_STR, de_key = ''n'', de_val = DStr ''x''\<rparr>]" by code_simp
  ultimately show ?thesis using dsp_dict_roundtrip [of ?es "[P8 0]"] by simp
qed

text \<open>The other formats. A header without a descriptor loses the dimensions.\<close>

lemma name_list_trip:
  "length names < 18446744073709551616 \<Longrightarrow> decode_name_list (encode_name_list names @ rest) = Inr (names, rest)"
  using str_format.counted_trip [of names rest] by (simp add: encode_name_list_def decode_name_list_def list_all_iff)

lemma odsc_hdr_trip:
  assumes "encode_odsc_hdr h = Some ps" "oh_size h \<noteq> 0"
  shows "decode_odsc_hdr junk (ps @ rest) = Inr (h\<lparr>oh_raw := take (unat (oh_size h)) (oh_raw h)\<rparr>, rest)"
  using assms by (auto simp: encode_odsc_hdr_def decode_odsc_hdr_def put_raw_def split: if_splits)

lemma odsc_hdr_with_gdim_trip:
  assumes "encode_odsc_hdr_with_gdim h = Some ps" "oh_size h \<noteq> 0"
  shows "decode_odsc_hdr_with_gdim junk (ps @ rest) =
    Inr (h\<lparr>oh_raw := take (unat (oh_size h)) (oh_raw h), oh_raw_gdim := take (unat (oh_gdim_size h)) (oh_raw_gdim h)\<rparr>, rest)"
  using assms by (auto simp: encode_odsc_hdr_with_gdim_def decode_odsc_hdr_with_gdim_def put_raw_def split: if_splits bind_splits)

lemma dsp_buf_trip:
  assumes "encode_dsp_buf b = Some ps"
  shows "decode_dsp_buf (ps @ rest) = Inr (b\<lparr>db_buf := take (unat (db_len b)) (db_buf b)\<rparr>, rest)"
  using assms by (auto simp: encode_dsp_buf_def decode_dsp_buf_def put_raw_def split: if_splits)

end
