(* ===== verification/Ops.thy ===== *)
theory Ops
  imports Server
begin

text \<open>
  Expressions over stored variables (\<^verbatim>\<open>dspaces-ops.c\<close>, \<^verbatim>\<open>dspaces-ops.h\<close>): building them on the client,
  their wire format, the evaluation on the server in \<^verbatim>\<open>do_ops_rpc\<close> and the client call
  \<^verbatim>\<open>dspaces_op_calc\<close>. \<open>None\<close> stands for undefined behaviour: a read outside an object or of an
  uninitialised variable, signed overflow, a division by zero, a conversion out of range.
\<close>

section \<open>Expressions\<close>

text \<open>
  A \<^verbatim>\<open>double\<close> is its object representation, eight bytes. The operations on doubles and the object
  representation of an \<^verbatim>\<open>int\<close> belong to the machine and are parameters; \<open>fp_to_long\<close> is undefined out of
  the range of \<^verbatim>\<open>long\<close>.
\<close>

type_synonym double = "byte list"

record fpu =
  fp_add :: "double \<Rightarrow> double \<Rightarrow> double"
  fp_sub :: "double \<Rightarrow> double \<Rightarrow> double"
  fp_mult :: "double \<Rightarrow> double \<Rightarrow> double"
  fp_div :: "double \<Rightarrow> double \<Rightarrow> double"
  fp_pow :: "double \<Rightarrow> double \<Rightarrow> double"
  fp_atan :: "double \<Rightarrow> double"
  fp_of_long :: "int \<Rightarrow> double"
  fp_to_long :: "double \<Rightarrow> int option"
  fp_int :: "u32 \<Rightarrow> byte list"

text \<open>\<open>DS_OP_OTHER\<close> is any other value that the enumeration type holds.\<close>

datatype ds_operator = DS_OP_OBJ | DS_OP_ICONST | DS_OP_RCONST | DS_OP_ADD | DS_OP_SUB | DS_OP_MULT | DS_OP_DIV
  | DS_OP_POW | DS_OP_ARCTAN | DS_OP_OTHER int

definition DS_VAL_INT :: int where "DS_VAL_INT = 0"
definition DS_VAL_REAL :: int where "DS_VAL_REAL = 1"

text \<open>
  \<^verbatim>\<open>struct ds_data_expr\<close>, with the member of the union that its operator uses. \<open>Node\<close> is an expression whose
  union has not been set.
\<close>

datatype ds_data_expr =
    Obj obj_data (ex_type: int) (ex_size: u64)
  | IConst int (ex_type: int) (ex_size: u64)
  | RConst double (ex_type: int) (ex_size: u64)
  | Node ds_operator "ds_data_expr list" (ex_type: int) (ex_size: u64)

definition binary :: "ds_operator \<Rightarrow> bool" where
  "binary op \<longleftrightarrow> op \<in> {DS_OP_ADD, DS_OP_SUB, DS_OP_MULT, DS_OP_DIV, DS_OP_POW}"

section \<open>Building expressions\<close>

text \<open>
  A constructor returns \<open>Some None\<close> for a null pointer. \<open>od0\<close> and \<open>gd0\<close> are the uninitialised object and
  sizes.
\<close>

definition dspaces_op_new_obj :: "obj_data \<Rightarrow> dspaces_client \<Rightarrow> string \<Rightarrow> u32 \<Rightarrow> int \<Rightarrow> int \<Rightarrow> u64 list \<Rightarrow> u64 list \<Rightarrow>
    ds_data_expr option option" where
  "dspaces_op_new_obj od0 c var_name ver type ndim l u =
     (if type \<noteq> DS_VAL_INT \<and> type \<noteq> DS_VAL_REAL then Some None
      else
        Option.bind (fill_bb ndim l u) (\<lambda>bb.
        Option.bind (dspaces_get_gdim c var_name (gd_sizes (gdim od0))) (\<lambda>(gndim, sizes).
          let odsc = (obj_desc od0)\<lparr>od_version := ver, od_size := (if type = DS_VAL_INT then 4 else 8), od_bb := bb,
                od_name := take (OD_MAX_NAME_LEN - 1) var_name\<rparr>;
              od = od0\<lparr>obj_desc := odsc, gdim := \<lparr>gd_ndim = gndim, gd_sizes = sizes\<rparr>\<rparr>
          in if gndim \<noteq> ndim then Some None
             else Some (Some (Obj od type (od_size odsc * bbox_volume bb))))))"

definition dspaces_op_new_iconst :: "int \<Rightarrow> ds_data_expr option" where
  "dspaces_op_new_iconst val = Some (IConst val DS_VAL_INT 4)"

text \<open>\<^verbatim>\<open>dspaces_op_new_rconst\<close> fills in an expression and returns a null pointer.\<close>

definition dspaces_op_new_rconst :: "double \<Rightarrow> ds_data_expr option" where
  "dspaces_op_new_rconst val = (let expr = RConst val DS_VAL_REAL 8 in None)"

definition dspaces_op_new_1arg :: "ds_operator \<Rightarrow> ds_data_expr option \<Rightarrow> ds_data_expr option option" where
  "dspaces_op_new_1arg op expr1 =
     map_option (\<lambda>expr1.
       Some (Node op [expr1] (if op = DS_OP_ARCTAN \<or> op = DS_OP_DIV then DS_VAL_REAL else ex_type expr1) (ex_size expr1))) expr1"

definition dspaces_op_new_2arg :: "ds_operator \<Rightarrow> ds_data_expr option \<Rightarrow> ds_data_expr option \<Rightarrow> ds_data_expr option option" where
  "dspaces_op_new_2arg op expr1 expr2 =
     (if \<not> binary op then Some None
      else Option.bind expr1 (\<lambda>expr1. Option.bind expr2 (\<lambda>expr2.
        Some (Some (Node op [expr1, expr2]
          (if ex_type expr1 = DS_VAL_REAL \<or> ex_type expr2 = DS_VAL_REAL then DS_VAL_REAL else DS_VAL_INT)
          (if ex_size expr1 > ex_size expr2 then ex_size expr1 else ex_size expr2))))))"

definition dspaces_op_new_add :: "ds_data_expr option \<Rightarrow> ds_data_expr option \<Rightarrow> ds_data_expr option option" where
  "dspaces_op_new_add = dspaces_op_new_2arg DS_OP_ADD"
definition dspaces_op_new_sub :: "ds_data_expr option \<Rightarrow> ds_data_expr option \<Rightarrow> ds_data_expr option option" where
  "dspaces_op_new_sub = dspaces_op_new_2arg DS_OP_SUB"
definition dspaces_op_new_mult :: "ds_data_expr option \<Rightarrow> ds_data_expr option \<Rightarrow> ds_data_expr option option" where
  "dspaces_op_new_mult = dspaces_op_new_2arg DS_OP_MULT"
definition dspaces_op_new_div :: "ds_data_expr option \<Rightarrow> ds_data_expr option \<Rightarrow> ds_data_expr option option" where
  "dspaces_op_new_div = dspaces_op_new_2arg DS_OP_DIV"
definition dspaces_op_new_pow :: "ds_data_expr option \<Rightarrow> ds_data_expr option \<Rightarrow> ds_data_expr option option" where
  "dspaces_op_new_pow = dspaces_op_new_2arg DS_OP_POW"
definition dspaces_op_new_arctan :: "ds_data_expr option \<Rightarrow> ds_data_expr option option" where
  "dspaces_op_new_arctan = dspaces_op_new_1arg DS_OP_ARCTAN"

definition dspaces_op_get_result_type :: "ds_data_expr \<Rightarrow> int" where
  "dspaces_op_get_result_type expr = ex_type expr"

text \<open>The number of dimensions and their sizes; a constant has none.\<close>

fun dspaces_op_get_result_size :: "ds_data_expr \<Rightarrow> (int \<times> u64 list) option" where
  "dspaces_op_get_result_size (Obj od _ _) =
     (let bb = od_bb (obj_desc od) in Some (num_dims bb, map (\<lambda>i. ub bb ! i - lb bb ! i + 1) [0..<ndims bb]))"
| "dspaces_op_get_result_size (IConst _ _ _) = Some (0, [])"
| "dspaces_op_get_result_size (RConst _ _ _) = Some (0, [])"
| "dspaces_op_get_result_size (Node op subs _ _) =
     (if binary op then
        (case subs of
           l # r # _ \<Rightarrow> Option.bind (dspaces_op_get_result_size l) (\<lambda>(lndim, ldims).
             map_option (\<lambda>(rndim, rdims). if lndim > rndim then (lndim, ldims) else (rndim, rdims))
               (dspaces_op_get_result_size r))
         | _ \<Rightarrow> None)
      else if op = DS_OP_ARCTAN then (case subs of l # _ \<Rightarrow> dspaces_op_get_result_size l | _ \<Rightarrow> None)
      else if op = DS_OP_ICONST \<or> op = DS_OP_RCONST then Some (0, [])
      else None)"

section \<open>The wire format\<close>

text \<open>
  The stream of primitives that \<^verbatim>\<open>hg_proc_ds_expr_t\<close> hands to Mercury, which decodes them in the order in
  which they were encoded. The return values of the nested calls are not looked at.
\<close>

datatype tok = T8 "8 word" | T32 u32 | T64 u64 | TReal double | TRaw obj_data

datatype proc_ret = PROC_SUCCESS | PROC_INVALID_PARAM | PROC_PROTOCOL_ERROR

fun op_code :: "ds_operator \<Rightarrow> int" where
  "op_code DS_OP_OBJ = 0" | "op_code DS_OP_ICONST = 1" | "op_code DS_OP_RCONST = 2" | "op_code DS_OP_ADD = 3"
| "op_code DS_OP_SUB = 4" | "op_code DS_OP_MULT = 5" | "op_code DS_OP_DIV = 6" | "op_code DS_OP_POW = 7"
| "op_code DS_OP_ARCTAN = 8" | "op_code (DS_OP_OTHER k) = k"

definition op_of_code :: "int \<Rightarrow> ds_operator" where
  "op_of_code k =
     (if 0 \<le> k \<and> k < 9
      then [DS_OP_OBJ, DS_OP_ICONST, DS_OP_RCONST, DS_OP_ADD, DS_OP_SUB, DS_OP_MULT, DS_OP_DIV, DS_OP_POW, DS_OP_ARCTAN] ! nat k
      else DS_OP_OTHER k)"

definition proc_head :: "ds_operator \<Rightarrow> int \<Rightarrow> u64 \<Rightarrow> tok list" where
  "proc_head op ty sz = [T8 (of_int (op_code op)), T8 (of_int ty), T64 sz]"

fun encode :: "ds_data_expr \<Rightarrow> (proc_ret \<times> tok list) option" where
  "encode (Obj od ty sz) = Some (PROC_SUCCESS, proc_head DS_OP_OBJ ty sz @ [TRaw od])"
| "encode (IConst ival ty sz) = Some (PROC_SUCCESS, proc_head DS_OP_ICONST ty sz @ [T32 (of_int ival)])"
| "encode (RConst rval ty sz) = Some (PROC_SUCCESS, proc_head DS_OP_RCONST ty sz @ [TReal rval])"
| "encode (Node op subs ty sz) =
     (if binary op then
        (case subs of
           l # r # _ \<Rightarrow> Option.bind (encode l) (\<lambda>(_, t1). map_option (\<lambda>(_, t2).
             (PROC_SUCCESS, proc_head op ty sz @ [T8 2] @ t1 @ t2)) (encode r))
         | _ \<Rightarrow> None)
      else if op = DS_OP_ARCTAN then
        (case subs of l # _ \<Rightarrow> map_option (\<lambda>(_, t1). (PROC_SUCCESS, proc_head op ty sz @ [T8 1] @ t1)) (encode l) | _ \<Rightarrow> None)
      else (case op of DS_OP_OTHER _ \<Rightarrow> Some (PROC_INVALID_PARAM, proc_head op ty sz) | _ \<Rightarrow> None))"

fun decode_subs :: "(tok list \<Rightarrow> (proc_ret \<times> ds_data_expr \<times> tok list) option) \<Rightarrow> nat \<Rightarrow> tok list \<Rightarrow>
    (ds_data_expr list \<times> tok list) option" where
  "decode_subs dec 0 ts = Some ([], ts)"
| "decode_subs dec (Suc k) ts =
     Option.bind (dec ts) (\<lambda>(_, e, ts). map_option (\<lambda>(es, ts). (e # es, ts)) (decode_subs dec k ts))"

text \<open>Every level of the recursion takes a primitive off the stream, so its length is enough fuel.\<close>

fun decode_fuel :: "nat \<Rightarrow> tok list \<Rightarrow> (proc_ret \<times> ds_data_expr \<times> tok list) option" where
  "decode_fuel (Suc n) (T8 b # T8 ty # T64 sz # ts) =
     (let op = op_of_code (sint b); ty = sint ty in
      case op of
        DS_OP_OBJ \<Rightarrow> (case ts of TRaw od # ts \<Rightarrow> Some (PROC_SUCCESS, Obj od ty sz, ts) | _ \<Rightarrow> None)
      | DS_OP_ICONST \<Rightarrow> (case ts of T32 w # ts \<Rightarrow> Some (PROC_SUCCESS, IConst (sint w) ty sz, ts) | _ \<Rightarrow> None)
      | DS_OP_RCONST \<Rightarrow> (case ts of TReal r # ts \<Rightarrow> Some (PROC_SUCCESS, RConst r ty sz, ts) | _ \<Rightarrow> None)
      | DS_OP_OTHER _ \<Rightarrow> Some (PROC_PROTOCOL_ERROR, Node op [] ty sz, ts)
      | _ \<Rightarrow> (case ts of
             T8 k # ts \<Rightarrow> map_option (\<lambda>(subs, ts). (PROC_SUCCESS, Node op subs ty sz, ts))
                           (decode_subs (decode_fuel n) (nat (sint k)) ts)
           | _ \<Rightarrow> None))"
| "decode_fuel _ _ = None"

definition decode :: "tok list \<Rightarrow> (proc_ret \<times> ds_data_expr \<times> tok list) option" where
  "decode ts = decode_fuel (length ts) ts"

section \<open>Evaluation\<close>

definition real_at :: "obj_data \<Rightarrow> nat \<Rightarrow> double option" where
  "real_at od pos =
     Option.bind (data od) (\<lambda>d. if 8 * pos + 8 \<le> length d then Some (take 8 (drop (8 * pos) d)) else None)"

definition as_long :: "int \<Rightarrow> int option" where
  "as_long v = (if - (2 ^ 63) \<le> v \<and> v < 2 ^ 63 then Some v else None)"

text \<open>C division of \<^verbatim>\<open>long\<close>, which truncates towards zero.\<close>

definition c_div :: "int \<Rightarrow> int \<Rightarrow> int" where
  "c_div a b = sgn a * sgn b * (\<bar>a\<bar> div \<bar>b\<bar>)"

fun real_op :: "fpu \<Rightarrow> ds_operator \<Rightarrow> double \<Rightarrow> double \<Rightarrow> double" where
  "real_op F DS_OP_ADD = fp_add F" | "real_op F DS_OP_SUB = fp_sub F" | "real_op F DS_OP_MULT = fp_mult F"
| "real_op F DS_OP_DIV = fp_div F" | "real_op F _ = fp_pow F"

fun long_op :: "fpu \<Rightarrow> ds_operator \<Rightarrow> int \<Rightarrow> int \<Rightarrow> int option" where
  "long_op F DS_OP_ADD a b = as_long (a + b)" | "long_op F DS_OP_SUB a b = as_long (a - b)"
| "long_op F DS_OP_MULT a b = as_long (a * b)"
| "long_op F DS_OP_DIV a b = (if b = 0 then None else as_long (c_div a b))"
| "long_op F _ a b = fp_to_long F (fp_pow F (fp_of_long F a) (fp_of_long F b))"

text \<open>
  The value of a subexpression of type \<open>ty\<close> as a double or a \<^verbatim>\<open>long\<close>, from the results of the two
  routines; with neither type the variable stays uninitialised.
\<close>

definition sub_real :: "fpu \<Rightarrow> int \<Rightarrow> (int \<times> double) option \<Rightarrow> (int \<times> int) option \<Rightarrow> (int \<times> double) option" where
  "sub_real F ty r i =
     (if ty = DS_VAL_REAL then r else if ty = DS_VAL_INT then map_option (\<lambda>(err, v). (err, fp_of_long F v)) i else None)"

definition sub_long :: "fpu \<Rightarrow> int \<Rightarrow> (int \<times> double) option \<Rightarrow> (int \<times> int) option \<Rightarrow> (int \<times> int) option" where
  "sub_long F ty r i =
     (if ty = DS_VAL_REAL then Option.bind r (\<lambda>(err, v). map_option (Pair err) (fp_to_long F v))
      else if ty = DS_VAL_INT then i else None)"

text \<open>The value \<open>k\<close> continues with unless the error code is negative, when zero is returned.\<close>

definition on_ok :: "'b \<Rightarrow> (int \<times> 'a) option \<Rightarrow> ('a \<Rightarrow> (int \<times> 'b) option) \<Rightarrow> (int \<times> 'b) option" where
  "on_ok zero r k = Option.bind r (\<lambda>(err, v). if err < 0 then Some (err, zero) else k v)"

text \<open>\<^verbatim>\<open>ds_op_calc_rval\<close> and \<^verbatim>\<open>ds_op_calc_ival\<close>: the error code and the value.\<close>

fun ds_op_calc_rval :: "fpu \<Rightarrow> ds_data_expr \<Rightarrow> nat \<Rightarrow> (int \<times> double) option"
  and ds_op_calc_ival :: "fpu \<Rightarrow> ds_data_expr \<Rightarrow> nat \<Rightarrow> (int \<times> int) option" where
  "ds_op_calc_rval F expr pos =
     (let zero = fp_of_long F 0; err = Some (-1, zero) in
      if ex_type expr \<noteq> DS_VAL_REAL then err
      else case expr of
        Obj od _ _ \<Rightarrow> map_option (Pair 0) (real_at od pos)
      | IConst _ _ _ \<Rightarrow> err
      | RConst rval _ _ \<Rightarrow> Some (0, rval)
      | Node op subs _ _ \<Rightarrow>
          if binary op then
            (case subs of
               l # r # _ \<Rightarrow>
                 on_ok zero (sub_real F (ex_type l) (ds_op_calc_rval F l pos) (ds_op_calc_ival F l pos)) (\<lambda>v1.
                 on_ok zero (sub_real F (ex_type r) (ds_op_calc_rval F r pos) (ds_op_calc_ival F r pos)) (\<lambda>v2.
                   Some (0, real_op F op v1 v2)))
             | _ \<Rightarrow> None)
          else if op = DS_OP_ARCTAN then
            (case subs of
               l # _ \<Rightarrow> on_ok zero (sub_real F (ex_type l) (ds_op_calc_rval F l pos) (ds_op_calc_ival F l pos)) (\<lambda>v1.
                          Some (0, fp_atan F v1))
             | _ \<Rightarrow> None)
          else if op = DS_OP_OBJ \<or> op = DS_OP_RCONST then None
          else err)"
| "ds_op_calc_ival F expr pos =
     (let err = Some (-1, 0) in
      if ex_type expr \<noteq> DS_VAL_INT then err
      else case expr of
        Obj od _ _ \<Rightarrow> Option.bind (real_at od pos) (\<lambda>v. map_option (Pair 0) (fp_to_long F v))
      | RConst _ _ _ \<Rightarrow> err
      | IConst ival _ _ \<Rightarrow> Some (0, ival)
      | Node op subs _ _ \<Rightarrow>
          if binary op then
            (case subs of
               l # r # _ \<Rightarrow>
                 on_ok 0 (sub_long F (ex_type l) (ds_op_calc_rval F l pos) (ds_op_calc_ival F l pos)) (\<lambda>v1.
                 on_ok 0 (sub_long F (ex_type r) (ds_op_calc_rval F r pos) (ds_op_calc_ival F r pos)) (\<lambda>v2.
                   map_option (Pair 0) (long_op F op v1 v2)))
             | _ \<Rightarrow> None)
          else if op = DS_OP_OBJ \<or> op = DS_OP_ICONST then None
          else err)"

section \<open>The objects of an expression\<close>

text \<open>\<^verbatim>\<open>gather_op_ods\<close> puts an object at the front of the list, unless one of its name is there.\<close>

fun gather_op_ods :: "ds_data_expr \<Rightarrow> obj_data list \<Rightarrow> obj_data list option" where
  "gather_op_ods (Obj expr_od _ _) odl =
     (if list_ex (\<lambda>od. od_name (obj_desc od) = od_name (obj_desc expr_od)) odl then Some odl else Some (expr_od # odl))"
| "gather_op_ods (IConst _ _ _) odl = Some odl"
| "gather_op_ods (RConst _ _ _) odl = Some odl"
| "gather_op_ods (Node op subs _ _) odl =
     (if binary op then (case subs of l # r # _ \<Rightarrow> Option.bind (gather_op_ods l odl) (gather_op_ods r) | _ \<Rightarrow> None)
      else if op = DS_OP_ARCTAN then (case subs of l # _ \<Rightarrow> gather_op_ods l odl | _ \<Rightarrow> None)
      else if op = DS_OP_OBJ then None else Some odl)"

text \<open>\<^verbatim>\<open>update_expr_objs\<close> puts \<open>od\<close> in the place of every object of its name.\<close>

fun update_expr_objs :: "obj_data \<Rightarrow> ds_data_expr \<Rightarrow> ds_data_expr option" where
  "update_expr_objs od (Obj expr_od ty sz) =
     Some (Obj (if od_name (obj_desc od) = od_name (obj_desc expr_od) then od else expr_od) ty sz)"
| "update_expr_objs od (IConst v ty sz) = Some (IConst v ty sz)"
| "update_expr_objs od (RConst v ty sz) = Some (RConst v ty sz)"
| "update_expr_objs od (Node op subs ty sz) =
     (if binary op then
        (case subs of
           l # r # es \<Rightarrow> Option.bind (update_expr_objs od l) (\<lambda>l. map_option (\<lambda>r. Node op (l # r # es) ty sz) (update_expr_objs od r))
         | _ \<Rightarrow> None)
      else if op = DS_OP_ARCTAN then
        (case subs of l # es \<Rightarrow> map_option (\<lambda>l. Node op (l # es) ty sz) (update_expr_objs od l) | _ \<Rightarrow> None)
      else if op = DS_OP_OBJ then None else Some (Node op subs ty sz))"

section \<open>The server\<close>

text \<open>
  The data of one object: a copy out of the local store, or out of the cache of remote objects after a
  query. A query may leave the handler waiting; a missing object is dereferenced.
\<close>

datatype 'a staged = Waits | Staged 'a

definition stage_od :: "sv_env \<Rightarrow> nat \<Rightarrow> (nat \<Rightarrow> odsc_gdim_t \<Rightarrow> obj_descriptor list) \<Rightarrow> (nat \<Rightarrow> int) \<Rightarrow> int \<Rightarrow> server \<Rightarrow> obj_data \<Rightarrow>
    (obj_data staged \<times> server \<times> msgs) option" where
  "stage_od env t ask hret param sv od =
     (let odsc = obj_desc od in
      case ls_find (sv_ls sv) odsc of
        Some a \<Rightarrow> Some (Staged (the_od (sv_ls sv) a), sv, [])
      | None \<Rightarrow>
          Option.bind (get_query_odscs env t ask hret sv \<lparr>og_odsc = odsc, og_gdim = gdim od, og_param = param\<rparr> (-1)) (\<lambda>(ans, sv, out).
            case ans of
              Pending _ _ _ \<Rightarrow> Some (Waits, sv, out)
            | Done _ \<Rightarrow> map_option (\<lambda>a. (Staged (the_od (sv_ps sv) a), sv, out)) (ls_find (sv_ps sv) odsc)))"

fun stage_all :: "sv_env \<Rightarrow> nat \<Rightarrow> (nat \<Rightarrow> odsc_gdim_t \<Rightarrow> obj_descriptor list) \<Rightarrow> (nat \<Rightarrow> int) \<Rightarrow> int \<Rightarrow> server \<Rightarrow> obj_data list \<Rightarrow>
    ds_data_expr \<Rightarrow> (ds_data_expr staged \<times> server \<times> msgs) option" where
  "stage_all env t ask hret param sv [] expr = Some (Staged expr, sv, [])"
| "stage_all env t ask hret param sv (od # odl) expr =
     Option.bind (obj_data_alloc (en_mem env) (obj_desc od)) (\<lambda>res_od.
     Option.bind (stage_od env t ask hret param sv od) (\<lambda>(st, sv, out).
       case st of
         Waits \<Rightarrow> Some (Waits, sv, out)
       | Staged stage \<Rightarrow>
           Option.bind (ssd_copy (en_junk env) res_od stage) (\<lambda>(res_od, _).
           Option.bind (update_expr_objs res_od expr) (\<lambda>expr.
             map_option (\<lambda>(st, sv, out'). (st, sv, out @ out')) (stage_all env t ask hret param sv odl expr)))))"

text \<open>
  The result buffer. Error codes are not looked at; the bytes behind the last whole element keep the
  contents of the allocated memory.
\<close>

definition calc_elems :: "nat \<Rightarrow> (nat \<Rightarrow> byte) \<Rightarrow> nat \<Rightarrow> (nat \<Rightarrow> byte list option) \<Rightarrow> byte list option" where
  "calc_elems se mem n f =
     map_option (\<lambda>es. concat es @ map mem [n div se * se..<n]) (those (map f [0..<n div se]))"

definition calc_buffer :: "fpu \<Rightarrow> (nat \<Rightarrow> byte) \<Rightarrow> ds_data_expr \<Rightarrow> byte list option" where
  "calc_buffer F mem expr =
     (if ex_type expr = DS_VAL_INT
      then calc_elems 4 mem (unat (ex_size expr)) (\<lambda>i. map_option (\<lambda>(_, v). fp_int F (of_int v)) (ds_op_calc_ival F expr i))
      else calc_elems 8 mem (unat (ex_size expr)) (\<lambda>i. map_option snd (ds_op_calc_rval F expr i)))"

text \<open>
  \<^verbatim>\<open>do_ops_rpc\<close>. An expression of neither type is never answered. After a failed \<^verbatim>\<open>margo_bulk_create\<close> the
  handler answers and goes on with a handle that was never set.
\<close>

datatype ops_ans = Ops_Waits | Ops_Silent | Ops_Answer answer

definition do_ops_rpc :: "fpu \<Rightarrow> sv_env \<Rightarrow> nat \<Rightarrow> (nat \<Rightarrow> odsc_gdim_t \<Rightarrow> obj_descriptor list) \<Rightarrow> (nat \<Rightarrow> int) \<Rightarrow> int \<Rightarrow> int \<Rightarrow> int \<Rightarrow> u64 \<Rightarrow>
    server \<Rightarrow> ds_data_expr \<Rightarrow> (ops_ans \<times> server \<times> msgs) option" where
  "do_ops_rpc F env t ask hret param bulk_ret xret ulen sv expr =
     Option.bind (gather_op_ods expr []) (\<lambda>odl.
     Option.bind (stage_all env t ask hret param sv odl expr) (\<lambda>(st, sv, out).
       case st of
         Waits \<Rightarrow> Some (Ops_Waits, sv, out)
       | Staged expr \<Rightarrow>
           if ex_type expr \<noteq> DS_VAL_INT \<and> ex_type expr \<noteq> DS_VAL_REAL then Some (Ops_Silent, sv, out)
           else
             Option.bind (calc_buffer F (en_mem env) expr) (\<lambda>buffer.
               if bulk_ret \<noteq> HG_SUCCESS then None
               else
                 let cbytes = en_lz4c env buffer (length buffer)
                 in if xret \<noteq> HG_SUCCESS then Some (Ops_Answer (\<lparr>bo_ret = dspaces_ERR_MERCURY, bo_len = ulen\<rparr>, []), sv, out)
                    else Some (Ops_Answer (\<lparr>bo_ret = dspaces_SUCCESS, bo_len = of_nat (length cbytes)\<rparr>,
                                 [(0, if cbytes = [] then buffer else cbytes)]), sv, out))))"

section \<open>The client\<close>

text \<open>
  \<^verbatim>\<open>dspaces_op_calc\<close>: \<open>call\<close> sends the encoded expression and gives the answer of the server, \<open>None\<close> when
  Margo fails, as it does when the encoding fails. The return value the server sends is not looked at.
\<close>

definition dspaces_op_calc :: "lz4_fn \<Rightarrow> (nat \<Rightarrow> byte) \<Rightarrow> (tok list \<Rightarrow> answer option) \<Rightarrow> ds_data_expr \<Rightarrow> (int \<times> byte list option) option" where
  "dspaces_op_calc lz4 junk call expr =
     (let n = unat (ex_size expr); cbuf = map junk [0..<n] in
      Option.bind (encode expr) (\<lambda>(ret, toks).
        case if ret = PROC_SUCCESS then call toks else None of
          None \<Rightarrow> Some (dspaces_ERR_MERCURY, None)
        | Some (out, pushes) \<Rightarrow>
            Option.bind (apply_pushes cbuf pushes) (\<lambda>cbuf.
              if bo_len out \<noteq> 0
              then let (ret, bytes) = lz4 cbuf (unat (bo_len out)) n
                   in map_option (\<lambda>buf. (dspaces_SUCCESS, Some buf)) (memcpy (map junk [0..<n]) 0 bytes 0 (length bytes))
              else Some (dspaces_SUCCESS, Some cbuf))))"

section \<open>Expressions the constructors build\<close>

inductive built :: "ds_data_expr \<Rightarrow> bool" where
  obj: "dspaces_op_new_obj od0 c var_name ver type ndim l u = Some (Some e) \<Longrightarrow> built e"
| iconst: "dspaces_op_new_iconst val = Some e \<Longrightarrow> as_long val = Some val \<Longrightarrow> built e"
| rconst: "dspaces_op_new_rconst val = Some e \<Longrightarrow> built e"
| arctan: "built l \<Longrightarrow> dspaces_op_new_arctan (Some l) = Some (Some e) \<Longrightarrow> built e"
| binop: "built l \<Longrightarrow> built r \<Longrightarrow> dspaces_op_new_2arg op (Some l) (Some r) = Some (Some e) \<Longrightarrow> built e"

text \<open>The types of the nodes, and their sizes.\<close>

fun wf_expr :: "ds_data_expr \<Rightarrow> bool" where
  "wf_expr (Obj od ty sz) \<longleftrightarrow> ty = DS_VAL_INT \<or> ty = DS_VAL_REAL"
| "wf_expr (IConst _ ty _) \<longleftrightarrow> ty = DS_VAL_INT"
| "wf_expr (RConst _ ty _) \<longleftrightarrow> ty = DS_VAL_REAL"
| "wf_expr (Node op subs ty sz) \<longleftrightarrow> list_all wf_expr subs \<and>
     (binary op \<and> length subs = 2 \<and> ty = (if \<exists>e\<in>set subs. ex_type e = DS_VAL_REAL then DS_VAL_REAL else DS_VAL_INT) \<or>
      op = DS_OP_ARCTAN \<and> length subs = 1 \<and> ty = DS_VAL_REAL)"

fun sizes_ok :: "ds_data_expr \<Rightarrow> bool" where
  "sizes_ok (Obj od ty sz) \<longleftrightarrow> od_size (obj_desc od) = (if ty = DS_VAL_INT then 4 else 8) \<and>
     sz = od_size (obj_desc od) * bbox_volume (od_bb (obj_desc od))"
| "sizes_ok (IConst _ _ sz) \<longleftrightarrow> sz = 4"
| "sizes_ok (RConst v _ sz) \<longleftrightarrow> sz = 8 \<and> length v = 8"
| "sizes_ok (Node op subs ty sz) \<longleftrightarrow> list_all sizes_ok subs \<and> subs \<noteq> [] \<and> sz = Max (set (map ex_size subs))"

lemma type_simps [simp]: "DS_VAL_INT \<noteq> DS_VAL_REAL" "DS_VAL_REAL \<noteq> DS_VAL_INT"
  by (simp_all add: DS_VAL_INT_def DS_VAL_REAL_def)

lemma not_binary [simp]: "\<not> binary DS_OP_ARCTAN" "\<not> binary DS_OP_OBJ" "\<not> binary (DS_OP_OTHER k)" "\<not> binary DS_OP_ICONST" "\<not> binary DS_OP_RCONST"
  by (simp_all add: binary_def)

lemma wf_type: "wf_expr e \<Longrightarrow> ex_type e = DS_VAL_INT \<or> ex_type e = DS_VAL_REAL"
  by (cases e) (auto split: if_splits)

lemma built_ok: "built e \<Longrightarrow> wf_expr e \<and> sizes_ok e"
proof (induction rule: built.induct)
  case obj
  then show ?case by (auto simp: dspaces_op_new_obj_def Let_def split: if_splits bind_splits)
next
  case iconst
  then show ?case by (auto simp: dspaces_op_new_iconst_def)
next
  case arctan
  then show ?case by (auto simp: dspaces_op_new_arctan_def dspaces_op_new_1arg_def)
next
  case binop
  then show ?case by (auto simp: dspaces_op_new_2arg_def max_def split: if_splits)
qed (simp add: dspaces_op_new_rconst_def)

lemma wf_induct [consumes 1, case_names obj iconst rconst arctan binop]:
  assumes "wf_expr e"
    and "\<And>od ty sz. ty = DS_VAL_INT \<or> ty = DS_VAL_REAL \<Longrightarrow> P (Obj od ty sz)"
    and "\<And>v sz. P (IConst v DS_VAL_INT sz)" "\<And>v sz. P (RConst v DS_VAL_REAL sz)"
    and "\<And>l sz. wf_expr l \<Longrightarrow> P l \<Longrightarrow> P (Node DS_OP_ARCTAN [l] DS_VAL_REAL sz)"
    and "\<And>op l r sz. binary op \<Longrightarrow> wf_expr l \<Longrightarrow> wf_expr r \<Longrightarrow> P l \<Longrightarrow> P r \<Longrightarrow>
        P (Node op [l, r] (if ex_type l = DS_VAL_REAL \<or> ex_type r = DS_VAL_REAL then DS_VAL_REAL else DS_VAL_INT) sz)"
  shows "P e"
  using assms(1)
proof (induction e)
  case (Node op subs ty sz)
  then consider (b) l r where "binary op" "subs = [l, r]" | (a) l where "op = DS_OP_ARCTAN" "subs = [l]"
    by (auto simp: length_Suc_conv numeral_2_eq_2)
  then show ?case
  proof cases
    case b
    with Node assms(6) [of op l r sz] show ?thesis by auto
  next
    case a
    with Node assms(5) [of l sz] show ?thesis by auto
  qed
qed (use assms in auto)

section \<open>The reference semantics\<close>

text \<open>
  Integers and reals with the conversions of C: an operation is on \<^verbatim>\<open>long\<close> if both operands are. The types
  and sizes stored in the expression play no part. \<open>\<sigma>\<close> gives the value of an object.
\<close>

datatype num_val = NI int | NR double

fun to_real :: "fpu \<Rightarrow> num_val \<Rightarrow> double" where
  "to_real F (NI v) = fp_of_long F v" | "to_real F (NR v) = v"

fun num_op :: "fpu \<Rightarrow> ds_operator \<Rightarrow> num_val \<Rightarrow> num_val \<Rightarrow> num_val option" where
  "num_op F op (NI a) (NI b) = map_option NI (long_op F op a b)"
| "num_op F op a b = Some (NR (real_op F op (to_real F a) (to_real F b)))"

fun eval :: "fpu \<Rightarrow> (obj_data \<Rightarrow> double option) \<Rightarrow> ds_data_expr \<Rightarrow> num_val option" where
  "eval F \<sigma> (Obj od _ _) = map_option NR (\<sigma> od)"
| "eval F \<sigma> (IConst v _ _) = Some (NI v)"
| "eval F \<sigma> (RConst v _ _) = Some (NR v)"
| "eval F \<sigma> (Node op subs _ _) =
     (case subs of
        [l] \<Rightarrow> map_option (\<lambda>a. NR (fp_atan F (to_real F a))) (eval F \<sigma> l)
      | [l, r] \<Rightarrow> Option.bind (eval F \<sigma> l) (\<lambda>a. Option.bind (eval F \<sigma> r) (num_op F op a))
      | _ \<Rightarrow> None)"

fun objs :: "ds_data_expr \<Rightarrow> (obj_data \<times> int) list" where
  "objs (Obj od ty _) = [(od, ty)]"
| "objs (Node _ subs _ _) = concat (map objs subs)"
| "objs _ = []"

definition real_objs :: "ds_data_expr \<Rightarrow> bool" where
  "real_objs e \<longleftrightarrow> (\<forall>(od, ty)\<in>set (objs e). ty = DS_VAL_REAL)"

declare ds_op_calc_rval.simps [simp del] ds_op_calc_ival.simps [simp del]

lemma calc_rval_node [simp]:
  "ds_op_calc_rval F (Obj od ty sz) pos = (if ty = DS_VAL_REAL then map_option (Pair 0) (real_at od pos) else Some (-1, fp_of_long F 0))"
  "ds_op_calc_rval F (IConst v ty sz) pos = Some (-1, fp_of_long F 0)"
  "ds_op_calc_rval F (RConst rv ty sz) pos = (if ty = DS_VAL_REAL then Some (0, rv) else Some (-1, fp_of_long F 0))"
  "ds_op_calc_rval F (Node DS_OP_ARCTAN [l] DS_VAL_REAL sz) pos =
     on_ok (fp_of_long F 0) (sub_real F (ex_type l) (ds_op_calc_rval F l pos) (ds_op_calc_ival F l pos)) (\<lambda>v1. Some (0, fp_atan F v1))"
  "binary op \<Longrightarrow> ds_op_calc_rval F (Node op [l, r] DS_VAL_REAL sz) pos =
     on_ok (fp_of_long F 0) (sub_real F (ex_type l) (ds_op_calc_rval F l pos) (ds_op_calc_ival F l pos)) (\<lambda>v1.
     on_ok (fp_of_long F 0) (sub_real F (ex_type r) (ds_op_calc_rval F r pos) (ds_op_calc_ival F r pos)) (\<lambda>v2. Some (0, real_op F op v1 v2)))"
  by (simp_all add: Let_def ds_op_calc_rval.simps [of F "Obj od ty sz"] ds_op_calc_rval.simps [of F "IConst v ty sz"] ds_op_calc_rval.simps [of F "RConst rv ty sz"]
      ds_op_calc_rval.simps [of F "Node DS_OP_ARCTAN [l] DS_VAL_REAL sz"] ds_op_calc_rval.simps [of F "Node op [l, r] DS_VAL_REAL sz"])

lemma calc_ival_node [simp]:
  "ds_op_calc_ival F (Obj od ty sz) pos =
     (if ty = DS_VAL_INT then Option.bind (real_at od pos) (\<lambda>v. map_option (Pair 0) (fp_to_long F v)) else Some (-1, 0))"
  "ds_op_calc_ival F (IConst v ty sz) pos = (if ty = DS_VAL_INT then Some (0, v) else Some (-1, 0))"
  "ds_op_calc_ival F (RConst rv ty sz) pos = Some (-1, 0)"
  "binary op \<Longrightarrow> ds_op_calc_ival F (Node op [l, r] DS_VAL_INT sz) pos =
     on_ok 0 (sub_long F (ex_type l) (ds_op_calc_rval F l pos) (ds_op_calc_ival F l pos)) (\<lambda>v1.
     on_ok 0 (sub_long F (ex_type r) (ds_op_calc_rval F r pos) (ds_op_calc_ival F r pos)) (\<lambda>v2. map_option (Pair 0) (long_op F op v1 v2)))"
  by (simp_all add: Let_def ds_op_calc_ival.simps [of F "Obj od ty sz"] ds_op_calc_ival.simps [of F "IConst v ty sz"] ds_op_calc_ival.simps [of F "RConst rv ty sz"]
      ds_op_calc_ival.simps [of F "Node op [l, r] DS_VAL_INT sz"])

text \<open>Both routines agree with the reference on well-typed expressions without integer objects.\<close>

definition agrees :: "fpu \<Rightarrow> ds_data_expr \<Rightarrow> nat \<Rightarrow> bool" where
  "agrees F e pos \<longleftrightarrow>
     (if ex_type e = DS_VAL_REAL
      then (\<exists>r. eval F (\<lambda>od. real_at od pos) e = map_option NR r \<and> ds_op_calc_rval F e pos = map_option (Pair 0) r)
      else (\<exists>r. eval F (\<lambda>od. real_at od pos) e = map_option NI r \<and> ds_op_calc_ival F e pos = map_option (Pair 0) r))"

lemma agrees_sub:
  assumes "agrees F e pos" "wf_expr e"
  shows "sub_real F (ex_type e) (ds_op_calc_rval F e pos) (ds_op_calc_ival F e pos) =
      map_option (\<lambda>v. (0, to_real F v)) (eval F (\<lambda>od. real_at od pos) e)"
    and "ex_type e \<noteq> DS_VAL_REAL \<Longrightarrow>
      \<exists>r. eval F (\<lambda>od. real_at od pos) e = map_option NI r \<and>
        sub_long F (ex_type e) (ds_op_calc_rval F e pos) (ds_op_calc_ival F e pos) = map_option (Pair 0) r"
  using assms wf_type [OF assms(2)]
  by (auto simp: agrees_def sub_real_def sub_long_def option.map_comp comp_def split: if_splits)

lemma calc_agrees:
  assumes "wf_expr e" "real_objs e"
  shows "agrees F e pos"
  using assms
proof (induction e rule: wf_induct)
  case (arctan l sz)
  then have "agrees F l pos" by (simp add: real_objs_def)
  from agrees_sub(1) [OF this arctan(1)] show ?case
    by (cases "eval F (\<lambda>od. real_at od pos) l")
      (auto simp: agrees_def on_ok_def intro: exI [of _ None] exI [where x = "Some v" for v])
next
  case (binop op l r sz)
  have "agrees F l pos" "agrees F r pos" using binop by (auto simp: real_objs_def)
  note sub = agrees_sub [OF this(1) binop(2)] agrees_sub [OF this(2) binop(3)]
  show ?case
  proof (cases "ex_type l = DS_VAL_REAL \<or> ex_type r = DS_VAL_REAL")
    case True
    have "num_op F op a b = Some (NR (real_op F op (to_real F a) (to_real F b)))"
      if "eval F (\<lambda>od. real_at od pos) l = Some a" "eval F (\<lambda>od. real_at od pos) r = Some b" for a b
      using that True \<open>agrees F l pos\<close> \<open>agrees F r pos\<close>
      by (cases a; cases b) (auto simp: agrees_def eq_commute [of "Some x" for x])
    then show ?thesis using True sub(1,3) binop(1)
      by (cases "eval F (\<lambda>od. real_at od pos) l"; cases "eval F (\<lambda>od. real_at od pos) r")
        (auto simp: agrees_def on_ok_def intro: exI [of _ None] exI [where x = "Some v" for v])
  next
    case False
    then obtain a b where ab: "eval F (\<lambda>od. real_at od pos) l = map_option NI a" "eval F (\<lambda>od. real_at od pos) r = map_option NI b"
      "sub_long F (ex_type l) (ds_op_calc_rval F l pos) (ds_op_calc_ival F l pos) = map_option (Pair 0) a"
      "sub_long F (ex_type r) (ds_op_calc_rval F r pos) (ds_op_calc_ival F r pos) = map_option (Pair 0) b"
      using sub(2,4) by blast
    then show ?thesis using False binop(1)
      by (cases a; cases b) (auto simp: agrees_def on_ok_def intro: exI [of _ None] exI [where x = "Some v" for v])
  qed
qed (auto simp: agrees_def real_objs_def intro: exI [of _ None] exI [where x = "Some v" for v])

text \<open>No routine reports an error on a well-typed expression.\<close>

definition no_err :: "(int \<times> 'a) option \<Rightarrow> bool" where
  "no_err r \<longleftrightarrow> (case r of None \<Rightarrow> True | Some (err, v) \<Rightarrow> err = 0)"

definition calc_ok :: "fpu \<Rightarrow> ds_data_expr \<Rightarrow> nat \<Rightarrow> bool" where
  "calc_ok F e pos \<longleftrightarrow> (if ex_type e = DS_VAL_REAL then no_err (ds_op_calc_rval F e pos) else no_err (ds_op_calc_ival F e pos))"

lemma no_err_simps: "no_err (map_option (Pair 0) w)" "no_err (Some (0, x))"
  "no_err r \<Longrightarrow> (\<And>v. no_err (k v)) \<Longrightarrow> no_err (on_ok z r k)"
  by (auto simp: no_err_def on_ok_def split: bind_splits option.splits)

lemma no_err_sub:
  assumes "calc_ok F e pos" "wf_expr e"
  shows "no_err (sub_real F (ex_type e) (ds_op_calc_rval F e pos) (ds_op_calc_ival F e pos))"
    "no_err (sub_long F (ex_type e) (ds_op_calc_rval F e pos) (ds_op_calc_ival F e pos))"
  using assms wf_type [OF assms(2)]
  by (auto simp: calc_ok_def no_err_def sub_real_def sub_long_def split: if_splits bind_splits option.splits)

lemma wf_calc_ok: "wf_expr e \<Longrightarrow> calc_ok F e pos"
proof (induction e rule: wf_induct)
  case (obj od ty sz)
  then show ?case by (auto simp: calc_ok_def no_err_def split: bind_splits option.splits)
next
  case (arctan l sz)
  then show ?case using no_err_sub [OF arctan(2,1)] by (simp add: calc_ok_def no_err_simps)
next
  case (binop op l r sz)
  then show ?case using no_err_sub [OF binop(4,2)] no_err_sub [OF binop(5,3)] by (auto simp: calc_ok_def intro!: no_err_simps)
qed (simp_all add: calc_ok_def no_err_simps)

section \<open>The round trip over the wire\<close>

text \<open>What arrives: a constant is sent with 32 bits.\<close>

fun cut_consts :: "ds_data_expr \<Rightarrow> ds_data_expr" where
  "cut_consts (IConst v ty sz) = IConst (sint (of_int v :: u32)) ty sz"
| "cut_consts (Node op subs ty sz) = Node op (map cut_consts subs) ty sz"
| "cut_consts e = e"

lemma op_code_trip:
  "binary op \<or> op \<in> {DS_OP_OBJ, DS_OP_ICONST, DS_OP_RCONST, DS_OP_ARCTAN} \<Longrightarrow> op_of_code (sint (of_int (op_code op) :: 8 word)) = op"
  by (auto simp: binary_def op_of_code_def)

lemma type_trip: "ty = DS_VAL_INT \<or> ty = DS_VAL_REAL \<Longrightarrow> sint (of_int ty :: 8 word) = ty"
  by (auto simp: DS_VAL_INT_def DS_VAL_REAL_def)

lemma wf_ops_type: "wf_expr (Node op subs ty sz) \<Longrightarrow> sint (of_int ty :: 8 word) = ty"
  by (rule type_trip) (auto split: if_splits)

lemma encode_decode_fuel:
  "wf_expr e \<Longrightarrow> \<exists>toks. encode e = Some (PROC_SUCCESS, toks) \<and>
     (\<forall>n rest. length toks \<le> n \<longrightarrow> decode_fuel n (toks @ rest) = Some (PROC_SUCCESS, cut_consts e, rest))"
proof (induction e rule: wf_induct)
  case (obj od ty sz)
  have "decode_fuel n (proc_head DS_OP_OBJ ty sz @ TRaw od # rest) = Some (PROC_SUCCESS, Obj od ty sz, rest)" if "4 \<le> n" for n rest
    using that type_trip [OF obj] by (cases n) (auto simp: proc_head_def op_of_code_def)
  then show ?case by (simp add: proc_head_def)
next
  case (iconst v sz)
  have "decode_fuel n (proc_head DS_OP_ICONST DS_VAL_INT sz @ T32 (of_int v) # rest) =
      Some (PROC_SUCCESS, IConst (sint (of_int v :: u32)) DS_VAL_INT sz, rest)" if "4 \<le> n" for n rest
    using that type_trip [of DS_VAL_INT] by (cases n) (auto simp: proc_head_def op_of_code_def)
  then show ?case by (simp add: proc_head_def)
next
  case (rconst v sz)
  have "decode_fuel n (proc_head DS_OP_RCONST DS_VAL_REAL sz @ TReal v # rest) = Some (PROC_SUCCESS, RConst v DS_VAL_REAL sz, rest)"
    if "4 \<le> n" for n rest
    using that type_trip [of DS_VAL_REAL] by (cases n) (auto simp: proc_head_def op_of_code_def)
  then show ?case by (simp add: proc_head_def)
next
  case (arctan l sz)
  then obtain t where t: "encode l = Some (PROC_SUCCESS, t)" "\<And>n rest. length t \<le> n \<Longrightarrow> decode_fuel n (t @ rest) = Some (PROC_SUCCESS, cut_consts l, rest)"
    by blast
  have "decode_fuel n (proc_head DS_OP_ARCTAN DS_VAL_REAL sz @ T8 1 # t @ rest) =
      Some (PROC_SUCCESS, Node DS_OP_ARCTAN [cut_consts l] DS_VAL_REAL sz, rest)" if "4 + length t \<le> n" for n rest
    using that t(2) type_trip [of DS_VAL_REAL] by (cases n) (auto simp: proc_head_def op_of_code_def)
  with t(1) show ?case by (simp add: proc_head_def)
next
  case (binop op l r sz)
  let ?ty = "if ex_type l = DS_VAL_REAL \<or> ex_type r = DS_VAL_REAL then DS_VAL_REAL else DS_VAL_INT"
  from binop obtain t where t: "encode l = Some (PROC_SUCCESS, t)" "\<And>n rest. length t \<le> n \<Longrightarrow> decode_fuel n (t @ rest) = Some (PROC_SUCCESS, cut_consts l, rest)"
    by blast
  from binop obtain t' where t': "encode r = Some (PROC_SUCCESS, t')" "\<And>n rest. length t' \<le> n \<Longrightarrow> decode_fuel n (t' @ rest) = Some (PROC_SUCCESS, cut_consts r, rest)"
    by blast
  have ty: "sint (of_int ?ty :: 8 word) = ?ty" by (rule type_trip) simp
  have op: "op_of_code (sint (of_int (op_code op) :: 8 word)) = op" using binop(1) by (intro op_code_trip) simp
  have "decode_fuel n (proc_head op ?ty sz @ T8 2 # t @ t' @ rest) =
      Some (PROC_SUCCESS, Node op [cut_consts l, cut_consts r] ?ty sz, rest)" if n: "4 + length t + length t' \<le> n" for n rest
  proof -
    obtain m where m: "n = Suc m" "length t \<le> m" "length t' \<le> m" using n by (cases n) auto
    have "decode_subs (decode_fuel m) (nat (sint (2 :: 8 word))) (t @ t' @ rest) = Some ([cut_consts l, cut_consts r], rest)"
      using t(2) [OF m(2)] t'(2) [OF m(3)] by (simp add: numeral_2_eq_2)
    then show ?thesis unfolding proc_head_def m(1) using binop(1) ty op by (auto simp: binary_def Let_def)
  qed
  with t(1) t'(1) binop(1) show ?case by (simp add: proc_head_def)
qed

section \<open>Gathering and staging\<close>

fun subst :: "(obj_data \<Rightarrow> obj_data) \<Rightarrow> ds_data_expr \<Rightarrow> ds_data_expr" where
  "subst f (Obj od ty sz) = Obj (f od) ty sz"
| "subst f (Node op subs ty sz) = Node op (map (subst f) subs) ty sz"
| "subst f e = e"

abbreviation nm :: "obj_data \<Rightarrow> string" where
  "nm od \<equiv> od_name (obj_desc od)"

definition replace :: "obj_data \<Rightarrow> obj_data \<Rightarrow> obj_data" where
  "replace od x = (if nm od = nm x then od else x)"

lemma subst_sel [simp]: "ex_type (subst f e) = ex_type e" "ex_size (subst f e) = ex_size e"
  by (cases e; simp)+

lemma objs_subst: "objs (subst f e) = map (map_prod f id) (objs e)"
  by (induction e) (auto simp: map_concat intro!: arg_cong [of _ _ concat])

lemma wf_subst: "wf_expr e \<Longrightarrow> wf_expr (subst f e)"
  by (induction e) (auto simp: list_all_iff)

lemma real_objs_subst: "real_objs (subst f e) = real_objs e"
  by (auto simp: real_objs_def objs_subst)

lemma subst_subst: "subst f (subst g e) = subst (f \<circ> g) e"
  by (induction e) simp_all

lemma eval_cong:
  "(\<And>od ty. (od, ty) \<in> set (objs e) \<Longrightarrow> \<sigma> od = \<tau> (f od)) \<Longrightarrow> eval F \<tau> (subst f e) = eval F \<sigma> e"
proof (induction e)
  case (Node op subs ty sz)
  then have "\<forall>e\<in>set subs. eval F \<tau> (subst f e) = eval F \<sigma> e" by (auto intro!: Node.IH)
  then show ?case by (auto split: list.splits)
qed simp_all

lemma update_subst: "wf_expr e \<Longrightarrow> update_expr_objs od e = Some (subst (replace od) e)"
  by (induction e rule: wf_induct) (simp_all add: replace_def)

text \<open>One object of every name is gathered.\<close>

definition gathered :: "obj_data set \<Rightarrow> obj_data list \<Rightarrow> bool" where
  "gathered A odl \<longleftrightarrow> distinct (map nm odl) \<and> set odl \<subseteq> A \<and> nm ` A = nm ` set odl"

lemma gather_ok:
  "wf_expr e \<Longrightarrow> gathered A odl \<Longrightarrow> \<exists>odl'. gather_op_ods e odl = Some odl' \<and> gathered (A \<union> fst ` set (objs e)) odl'"
proof (induction e arbitrary: A odl rule: wf_induct)
  case (obj od ty sz)
  then show ?case by (auto simp: gathered_def list_ex_iff image_iff) (metis (no_types, lifting) image_eqI)+
next
  case (arctan l sz)
  then show ?case by simp
next
  case (binop op l r sz)
  from binop(4) [OF binop(6)] obtain odl1 where 1: "gather_op_ods l odl = Some odl1" "gathered (A \<union> fst ` set (objs l)) odl1" by blast
  from binop(5) [OF 1(2)] show ?case using 1(1) binop(1) by (auto simp: image_Un Un_assoc)
qed simp_all

text \<open>\<open>stages env sv R od\<close>: the data of \<open>od\<close> is in the local store, and its copy is \<open>R od\<close>.\<close>

definition stages :: "sv_env \<Rightarrow> server \<Rightarrow> (obj_data \<Rightarrow> obj_data) \<Rightarrow> obj_data \<Rightarrow> bool" where
  "stages env sv R od \<longleftrightarrow> nm (R od) = nm od \<and> (\<exists>res a n. obj_data_alloc (en_mem env) (obj_desc od) = Some res \<and>
     ls_find (sv_ls sv) (obj_desc od) = Some a \<and> ssd_copy (en_junk env) res (the_od (sv_ls sv) a) = Some (R od, n))"

lemma stage_all_ok:
  "wf_expr e \<Longrightarrow> list_all (stages env sv R) odl \<Longrightarrow>
   stage_all env t ask hret param sv odl e = Some (Staged (fold (\<lambda>od. subst (replace (R od))) odl e), sv, [])"
proof (induction odl arbitrary: e)
  case (Cons od odl)
  from Cons.prems(2) obtain res a n where "obj_data_alloc (en_mem env) (obj_desc od) = Some res"
    "ls_find (sv_ls sv) (obj_desc od) = Some a" "ssd_copy (en_junk env) res (the_od (sv_ls sv) a) = Some (R od, n)"
    by (auto simp: stages_def)
  then show ?case using Cons by (simp add: stage_od_def Let_def update_subst wf_subst)
qed simp

lemma fold_replace:
  assumes "list_all (stages env sv R) odl" "distinct (map nm odl)"
  shows "\<exists>f. fold (\<lambda>od. subst (replace (R od))) odl e = subst f e \<and>
    (\<forall>x. nm (f x) = nm x) \<and> (\<forall>od\<in>set odl. \<forall>x. nm x = nm od \<longrightarrow> f x = R od) \<and> (\<forall>x. nm x \<notin> nm ` set odl \<longrightarrow> f x = x)"
  using assms
proof (induction odl arbitrary: e rule: rev_induct)
  case Nil
  have "subst (\<lambda>x. x) e = e" by (induction e) (simp_all add: map_idI)
  then show ?case by (intro exI [of _ "\<lambda>x. x"]) simp
next
  case (snoc od odl)
  have "list_all (stages env sv R) odl" "distinct (map nm odl)" using snoc.prems by auto
  from snoc.IH [OF this, of e] obtain f where f: "fold (\<lambda>od. subst (replace (R od))) odl e = subst f e" "\<forall>x. nm (f x) = nm x"
    "\<forall>od\<in>set odl. \<forall>x. nm x = nm od \<longrightarrow> f x = R od" "\<forall>x. nm x \<notin> nm ` set odl \<longrightarrow> f x = x" by blast
  have R: "nm (R od) = nm od" using snoc.prems by (simp add: stages_def)
  have new: "nm od \<notin> nm ` set odl" using snoc.prems(2) by auto
  show ?case
  proof (intro exI [of _ "replace (R od) \<circ> f"] conjI ballI allI impI)
    show "fold (\<lambda>od. subst (replace (R od))) (odl @ [od]) e = subst (replace (R od) \<circ> f) e" using f(1) by (simp add: subst_subst)
  next
    fix y x assume "y \<in> set (odl @ [od])" "nm x = nm y"
    then have y: "y \<in> set odl \<or> y = od" "nm (f x) = nm y" using f(2) by auto
    show "(replace (R od) \<circ> f) x = R y"
    proof (cases "y = od")
      case True
      with y(2) R show ?thesis by (simp add: replace_def)
    next
      case False
      then have "y \<in> set odl" using y(1) by blast
      then have "nm y \<noteq> nm od" "f x = R y" using new f(3) \<open>nm x = nm y\<close> by (metis imageI, blast)
      then have "nm (f x) \<noteq> nm od" using y(2) by simp
      note this \<open>f x = R y\<close>
      with R show ?thesis by (auto simp: replace_def)
    qed
  qed (use f R in \<open>auto simp: replace_def\<close>)
qed

section \<open>The result\<close>

text \<open>The results of the operations on doubles are doubles.\<close>

definition fpu_ok :: "fpu \<Rightarrow> bool" where
  "fpu_ok F \<longleftrightarrow> (\<forall>op a b. length (real_op F op a b) = 8) \<and> (\<forall>a. length (fp_atan F a) = 8) \<and> (\<forall>v. length (fp_of_long F v) = 8)"

lemma those_map: "(\<And>x. x \<in> set xs \<Longrightarrow> f x = Some (g x)) \<Longrightarrow> those (map f xs) = Some (map g xs)"
  by (induction xs) auto

lemma elem_concat:
  assumes "\<And>i. i < n \<Longrightarrow> length (v i) = se" "i < n"
  shows "elem se (concat (map v [0..<n]) @ rest) i = v i"
proof -
  have len: "length (concat (map v [0..<k])) = se * k" if "k \<le> n" for k
    using that assms(1) by (induction k) simp_all
  have "[0..<n] = [0..<i] @ i # [Suc i..<n]" using assms(2) upt_add_eq_append [of 0 i "n - i"] by (simp add: upt_conv_Cons [of i n] del: upt_Suc)
  then show ?thesis using len [of i] assms by (simp add: elem_def)
qed

lemma calc_elems_ok:
  assumes "\<And>i. i < n \<Longrightarrow> f i = Some (v i)" "\<And>i. i < n \<Longrightarrow> length (v i) = se" "0 < se"
  shows "\<exists>buf. calc_elems se mem (se * n) f = Some buf \<and> length buf = se * n \<and> (\<forall>i<n. elem se buf i = v i)"
proof -
  have "those (map f [0..<n]) = Some (map v [0..<n])" using assms(1) by (intro those_map) simp
  moreover have "length (concat (map v [0..<k])) = se * k" if "k \<le> n" for k
    using that assms(2) by (induction k) simp_all
  ultimately show ?thesis using assms(3) elem_concat [of n v se _ "[]"] assms(2) by (simp add: calc_elems_def)
qed

lemma real_at_elem: "data od = Some d \<Longrightarrow> 8 * pos + 8 \<le> length d \<Longrightarrow> real_at od pos = Some (elem 8 d pos)"
  by (simp add: real_at_def elem_def)

text \<open>All objects have the box \<open>B\<close>.\<close>

definition over :: "bbox \<Rightarrow> ds_data_expr \<Rightarrow> bool" where
  "over B e \<longleftrightarrow> (\<forall>(od, ty)\<in>set (objs e). od_bb (obj_desc od) = B)"

lemma over_size:
  assumes "wf_expr e" "sizes_ok e" "real_objs e" "over B e" "unat (bbox_volume B) = n" "1 \<le> n" "8 * n < 18446744073709551616"
  shows "unat (ex_size e) \<le> 8 * n \<and> (objs e \<noteq> [] \<longrightarrow> unat (ex_size e) = 8 * n)"
  using assms(1-4)
proof (induction e rule: wf_induct)
  case (obj od ty sz)
  then have "sz = 8 * bbox_volume B" by (auto simp: over_def real_objs_def)
  then show ?case using assms(5-7) by (simp add: unat_mult_u64)
next
  case (arctan l sz)
  then show ?case by (simp add: over_def real_objs_def)
next
  case (binop op l r sz)
  have "unat (ex_size l) \<le> 8 * n \<and> (objs l \<noteq> [] \<longrightarrow> unat (ex_size l) = 8 * n)"
    "unat (ex_size r) \<le> 8 * n \<and> (objs r \<noteq> [] \<longrightarrow> unat (ex_size r) = 8 * n)"
    using binop by (auto simp: over_def real_objs_def)
  then show ?case using binop.prems by (auto simp: max_def word_le_nat_alt)
qed (use assms(6) in \<open>simp_all\<close>)

lemma eval_length:
  assumes "wf_expr e" "sizes_ok e" "fpu_ok F" "\<And>od ty v. (od, ty) \<in> set (objs e) \<Longrightarrow> \<sigma> od = Some v \<Longrightarrow> length v = 8"
    and "eval F \<sigma> e = Some v"
  shows "length (to_real F v) = 8"
proof -
  have "\<forall>v. eval F \<sigma> e = Some v \<longrightarrow> length (to_real F v) = 8" using assms(1,2,4)
  proof (induction e rule: wf_induct)
    case (binop op l r sz)
    have "length (to_real F c) = 8" if "num_op F op a b = Some c" for a b c
      using that assms(3) by (cases a; cases b) (auto simp: fpu_ok_def)
    then show ?case by (auto split: bind_splits)
  qed (use assms(3) in \<open>auto simp: fpu_ok_def\<close>)
  with assms(5) show ?thesis by blast
qed

lemma lin_onto:
  assumes "i < vol B"
  obtains p where "p \<in> points B" "lin B p = i"
proof -
  have "lin B ` points B = {..<vol B}"
    by (rule card_subset_eq) (auto simp: lin_less_vol card_image [OF lin_inj] card_points)
  with assms that show thesis by (metis imageE lessThan_iff)
qed

lemma real_type: "wf_expr e \<Longrightarrow> real_objs e \<Longrightarrow> objs e \<noteq> [] \<Longrightarrow> ex_type e = DS_VAL_REAL"
  by (induction e rule: wf_induct) (auto simp: real_objs_def)

text \<open>The store holds the data of \<open>od\<close> in an object \<open>src\<close> whose box includes that of \<open>od\<close>.\<close>

definition stored_in :: "server \<Rightarrow> obj_data \<Rightarrow> obj_data \<Rightarrow> bool" where
  "stored_in sv od src \<longleftrightarrow>
     map_option (the_od (sv_ls sv)) (ls_find (sv_ls sv) (obj_desc od)) = Some src \<and> obj_fits src \<and>
     od_size (obj_desc src) = od_size (obj_desc od) \<and> num_dims (od_bb (obj_desc src)) = num_dims (od_bb (obj_desc od)) \<and>
     points (od_bb (obj_desc od)) \<subseteq> points (od_bb (obj_desc src))"

definition small_box :: "bbox \<Rightarrow> bool" where
  "small_box B \<longleftrightarrow> wf_bbox B \<and> nonempty_bbox B \<and> 1 \<le> num_dims B \<and> num_dims B \<le> 9 \<and> 8 * vol B < 2147483648"

lemma stage_one:
  assumes st: "stored_in sv od src" and B: "od_bb (obj_desc od) = B" "small_box B" and se: "od_size (obj_desc od) = 8"
    and junk: "wf_bbox (en_junk env)"
  shows "\<exists>res. stages env sv (\<lambda>_. res) od \<and> (\<forall>p\<in>points B. real_at res (lin B p) = Some (obj_get src p))"
proof -
  note sb = B(2) [unfolded small_box_def]
  obtain a where a: "ls_find (sv_ls sv) (obj_desc od) = Some a" "the_od (sv_ls sv) a = src" using st by (auto simp: stored_in_def)
  have size: "unat (obj_data_size (obj_desc od)) = 8 * vol B" using obj_data_size_eq [of "obj_desc od"] sb B(1) se by simp
  then obtain d0 where d0: "obj_data_alloc (en_mem env) (obj_desc od) = Some (obj_data_blank (obj_desc od) (Some d0))" "length d0 = 8 * vol B"
    using obj_data_alloc_Some [of "obj_desc od"] sb by fastforce
  let ?res = "obj_data_blank (obj_desc od) (Some d0)"
  have fits: "obj_fits ?res" using sb d0(2) B(1) se by (simp add: obj_fits_def Let_def)
  obtain x where x: "x \<in> points B" using sb take_lb_in_points [of B] by blast
  have isect: "bbox_does_intersect (od_bb (obj_desc od)) (od_bb (obj_desc src))"
    using a by (auto simp: ls_find_def find_Some_iff obj_desc_equals_intersect_def)
  obtain res n where r: "ssd_copy (en_junk env) ?res src = Some (res, n)" "obj_fits res" "obj_desc res = obj_desc (copy_tag_type ?res src)"
    "\<forall>p\<in>points B. obj_get res p = (if p \<in> points (od_bb (obj_desc src)) then obj_get src p else obj_get ?res p)"
    using ssd_copy_elements [of ?res src "en_junk env"] fits st isect junk sb B(1) unfolding stored_in_def by auto
  have sel: "od_bb (obj_desc res) = B" "od_size (obj_desc res) = 8" "nm res = nm od" using r(3) B(1) se by (simp_all add: copy_tag_type_def)
  obtain d where d: "data res = Some d" "length d = 8 * vol B" using r(2) by (auto simp: obj_fits_def Let_def sel split: option.splits)
  have "real_at res (lin B p) = Some (obj_get src p)" if p: "p \<in> points B" for p
  proof -
    have "p \<in> points (od_bb (obj_desc src))" using st p B(1) by (auto simp: stored_in_def)
    with r(4) p have "obj_get res p = obj_get src p" by simp
    moreover have "obj_get res p = elem 8 d (lin B p)" using d(1) by (simp add: obj_get_def sel)
    moreover have "8 * lin B p + 8 \<le> length d" using lin_less_vol [OF p] d(2) by simp
    ultimately show ?thesis using real_at_elem [OF d(1)] by simp
  qed
  with a d0(1) r(1) sel(3) show ?thesis by (intro exI [of _ res]) (auto simp: stages_def)
qed

lemma stored_get_length:
  assumes "stored_in sv od src" "od_size (obj_desc od) = 8" "p \<in> points (od_bb (obj_desc od))"
  shows "length (obj_get src p) = 8"
proof -
  have "p \<in> points (od_bb (obj_desc src))" "od_size (obj_desc src) = 8" "obj_fits src" using assms by (auto simp: stored_in_def)
  with lin_less_vol [of p "od_bb (obj_desc src)"] show ?thesis
    by (auto simp: obj_fits_def Let_def obj_get_def elem_def split: option.splits)
qed

text \<open>The hypotheses on an expression: its real objects share a box and are stored, one for every name.\<close>

definition computable :: "sv_env \<Rightarrow> server \<Rightarrow> bbox \<Rightarrow> (string \<Rightarrow> obj_data) \<Rightarrow> ds_data_expr \<Rightarrow> bool" where
  "computable env sv B src e \<longleftrightarrow> real_objs e \<and> objs e \<noteq> [] \<and> over B e \<and> small_box B \<and> wf_bbox (en_junk env) \<and>
     (\<forall>x\<in>set (objs e). stored_in sv (fst x) (src (nm (fst x))))"

lemma sizes_objs: "sizes_ok e \<Longrightarrow> real_objs e \<Longrightarrow> x \<in> set (objs e) \<Longrightarrow> od_size (obj_desc (fst x)) = 8"
  by (induction e) (auto simp: real_objs_def list_all_iff split: if_splits)

lemma staged_expr:
  assumes wf: "wf_expr e" "sizes_ok e" and c: "computable env sv B src e"
  shows "\<exists>odl f. gather_op_ods e [] = Some odl \<and> stage_all env t ask hret param sv odl e = Some (Staged (subst f e), sv, []) \<and>
    (\<forall>p\<in>points B. eval F (\<lambda>od. real_at od (lin B p)) (subst f e) = eval F (\<lambda>od. Some (obj_get (src (nm od)) p)) e)"
proof -
  note c' = c [unfolded computable_def]
  obtain odl where odl: "gather_op_ods e [] = Some odl" "gathered (fst ` set (objs e)) odl"
    using gather_ok [OF wf(1), of "{}" "[]"] by (auto simp: gathered_def)
  have "\<exists>res. stages env sv (\<lambda>_. res) od \<and> (\<forall>p\<in>points B. real_at res (lin B p) = Some (obj_get (src (nm od)) p))" if od: "od \<in> set odl" for od
  proof -
    obtain ty where "(od, ty) \<in> set (objs e)" using od odl(2) by (auto simp: gathered_def)
    then show ?thesis using c' sizes_objs [OF wf(2), of "(od, ty)"] by (intro stage_one) (auto simp: over_def)
  qed
  then obtain R where R: "\<And>od. od \<in> set odl \<Longrightarrow> stages env sv (\<lambda>_. R od) od"
    "\<And>od p. od \<in> set odl \<Longrightarrow> p \<in> points B \<Longrightarrow> real_at (R od) (lin B p) = Some (obj_get (src (nm od)) p)" by metis
  have all: "list_all (stages env sv R) odl" using R(1) by (auto simp: list_all_iff stages_def)
  have "distinct (map nm odl)" using odl(2) by (simp add: gathered_def)
  from fold_replace [OF all this, of e]
  obtain f where f: "fold (\<lambda>od. subst (replace (R od))) odl e = subst f e" "\<forall>od\<in>set odl. \<forall>x. nm x = nm od \<longrightarrow> f x = R od"
    by (elim exE conjE)
  have "eval F (\<lambda>od. real_at od (lin B p)) (subst f e) = eval F (\<lambda>od. Some (obj_get (src (nm od)) p)) e" if p: "p \<in> points B" for p
  proof (rule eval_cong)
    fix x ty assume "(x, ty) \<in> set (objs e)"
    then have "nm x \<in> nm ` fst ` set (objs e)" by (intro imageI) (rule image_eqI [of _ _ "(x, ty)"], simp_all)
    then have "nm x \<in> nm ` set odl" using odl(2) by (simp add: gathered_def)
    then obtain od where od: "od \<in> set odl" "nm x = nm od" by auto
    then show "Some (obj_get (src (nm x)) p) = real_at (f x) (lin B p)" using f(2) R(2) [OF od(1) p] by auto
  qed
  with odl(1) f(1) stage_all_ok [OF wf(1) all] show ?thesis by auto
qed

lemma do_ops_ok:
  assumes wf: "wf_expr e" "sizes_ok e" and c: "computable env sv B src e" and F: "fpu_ok F"
    and val: "\<And>p. p \<in> points B \<Longrightarrow> eval F (\<lambda>od. Some (obj_get (src (nm od)) p)) e = Some (val p)"
  shows "\<exists>buf. do_ops_rpc F env t ask hret param HG_SUCCESS HG_SUCCESS ulen sv e =
      Some (Ops_Answer (\<lparr>bo_ret = dspaces_SUCCESS, bo_len = of_nat (length (en_lz4c env buf (length buf)))\<rparr>,
        [(0, if en_lz4c env buf (length buf) = [] then buf else en_lz4c env buf (length buf))]), sv, []) \<and>
    length buf = 8 * vol B \<and> unat (ex_size e) = 8 * vol B \<and> (\<forall>p\<in>points B. elem 8 buf (lin B p) = to_real F (val p))"
proof -
  note c' = c [unfolded computable_def small_box_def]
  obtain odl f where f: "gather_op_ods e [] = Some odl" "stage_all env t ask hret param sv odl e = Some (Staged (subst f e), sv, [])"
    "\<And>p. p \<in> points B \<Longrightarrow> eval F (\<lambda>od. real_at od (lin B p)) (subst f e) = Some (val p)"
    using staged_expr [OF wf c, of t ask hret param F] val by auto
  have ty: "ex_type (subst f e) = DS_VAL_REAL" using real_type [OF wf(1)] c' by simp
  have "unat (bbox_volume B) = vol B" using c' by (intro unat_bbox_volume) (auto simp: nonempty_ordered)
  then have size: "unat (ex_size e) = 8 * vol B" using over_size [OF wf, of B "vol B"] c' by (simp add: vol_pos_iff Suc_le_eq)
  have len: "length (to_real F (val p)) = 8" if p: "p \<in> points B" for p
  proof (rule eval_length [OF wf F _ val [OF p]])
    fix od ty v assume x: "(od, ty) \<in> set (objs e)" and v: "Some (obj_get (src (nm od)) p) = Some v"
    have "length (obj_get (src (nm od)) p) = 8"
      using stored_get_length [of sv od "src (nm od)" p] sizes_objs [OF wf(2) _ x] c' x p by (fastforce simp: over_def)
    with v show "length v = 8" by simp
  qed
  define v where "v i = to_real F (val (SOME p. p \<in> points B \<and> lin B p = i))" for i
  have v: "v (lin B p) = to_real F (val p)" if p: "p \<in> points B" for p
  proof -
    have "(SOME q. q \<in> points B \<and> lin B q = lin B p) = p" using p lin_inj [of B] by (intro some_equality) (auto simp: inj_on_def)
    then show ?thesis by (simp add: v_def)
  qed
  have calc: "map_option snd (ds_op_calc_rval F (subst f e) i) = Some (v i)" "length (v i) = 8" if i: "i < vol B" for i
  proof -
    obtain p where p: "p \<in> points B" "lin B p = i" using lin_onto [OF i] .
    have "agrees F (subst f e) i" using c' by (intro calc_agrees wf_subst wf) (simp add: real_objs_subst)
    then obtain r where r: "Some (val p) = map_option NR r" "ds_op_calc_rval F (subst f e) i = map_option (Pair 0) r"
      using f(3) [OF p(1)] p(2) ty by (auto simp: agrees_def)
    then obtain w where "r = Some w" "val p = NR w" by (cases r) auto
    with r(2) v [OF p(1)] len [OF p(1)] p(2)
    show "map_option snd (ds_op_calc_rval F (subst f e) i) = Some (v i)" "length (v i) = 8" by auto
  qed
  obtain buf where buf: "calc_buffer F (en_mem env) (subst f e) = Some buf" "length buf = 8 * vol B" "\<forall>i<vol B. elem 8 buf i = v i"
    using calc_elems_ok [of "vol B" "\<lambda>i. map_option snd (ds_op_calc_rval F (subst f e) i)" v 8 "en_mem env"] calc ty size
    by (auto simp: calc_buffer_def)
  have "\<forall>p\<in>points B. elem 8 buf (lin B p) = to_real F (val p)" using buf(3) v lin_less_vol by fastforce
  with buf f(1,2) ty size show ?thesis by (intro exI [of _ buf]) (simp add: do_ops_rpc_def Let_def)
qed

text \<open>A server that decodes and answers the request.\<close>

definition ops_server :: "fpu \<Rightarrow> sv_env \<Rightarrow> nat \<Rightarrow> (nat \<Rightarrow> odsc_gdim_t \<Rightarrow> obj_descriptor list) \<Rightarrow> (nat \<Rightarrow> int) \<Rightarrow> int \<Rightarrow> u64 \<Rightarrow> server \<Rightarrow>
    tok list \<Rightarrow> answer option" where
  "ops_server F env t ask hret param ulen sv toks =
     (case decode toks of
        Some (PROC_SUCCESS, e, _) \<Rightarrow>
          (case do_ops_rpc F env t ask hret param HG_SUCCESS HG_SUCCESS ulen sv e of
             Some (Ops_Answer ans, _) \<Rightarrow> Some ans | _ \<Rightarrow> None)
      | _ \<Rightarrow> None)"

lemma client_unpacks:
  assumes "encode e = Some (PROC_SUCCESS, toks)" "unat (ex_size e) = length buf" "length buf < 2147483648" "lz4_ok lz4 lz4c"
    and "call toks = Some (\<lparr>bo_ret = dspaces_SUCCESS, bo_len = of_nat (length (lz4c buf (length buf)))\<rparr>,
        [(0, if lz4c buf (length buf) = [] then buf else lz4c buf (length buf))])"
  shows "dspaces_op_calc lz4 junk call e = Some (dspaces_SUCCESS, Some buf)"
proof (cases "lz4c buf (length buf) = []")
  case True
  with assms show ?thesis by (simp add: dspaces_op_calc_def Let_def memcpy_def)
next
  case False
  let ?c = "lz4c buf (length buf)"
  have c: "length ?c \<le> length buf" "\<And>rest. \<exists>ret. lz4 (?c @ rest) (length ?c) (length buf) = (ret, buf)"
    using assms(4) False unfolding lz4_ok_def by blast+
  have len: "unat (of_nat (length ?c) :: u64) = length ?c" using c(1) assms(3) by (simp add: unat_of_nat)
  then have "(of_nat (length ?c) :: u64) \<noteq> 0" using False by (metis length_0_conv unat_0)
  moreover obtain ret where "lz4 (?c @ map junk [length ?c..<length buf]) (length ?c) (length buf) = (ret, buf)" using c(2) by blast
  ultimately show ?thesis using assms False c(1) len by (simp add: dspaces_op_calc_def Let_def memcpy_def drop_map)
qed

section \<open>Properties\<close>

text \<open>
  C4: expressions are computed correctly end to end. For an expression the constructors built, whose real
  objects share a box and are in the server's store and whose constants fit 32 bits, the client call
  succeeds and its buffer holds at every point of the box the value of the expression there: the reference
  semantics applied to the stored elements, whichever way the answer was compressed.
\<close>

theorem op_calc_computes:
  assumes "built e" "cut_consts e = e" "computable env sv B src e" "fpu_ok F" "lz4_ok lz4 (en_lz4c env)"
    and "\<forall>p\<in>points B. eval F (\<lambda>od. Some (obj_get (src (nm od)) p)) e = Some (val p)"
  shows "\<exists>buf. dspaces_op_calc lz4 junk (ops_server F env t ask hret param ulen sv) e = Some (dspaces_SUCCESS, Some buf) \<and>
    length buf = 8 * vol B \<and> (\<forall>p\<in>points B. elem 8 buf (lin B p) = to_real F (val p))"
proof -
  have wf: "wf_expr e" "sizes_ok e" using built_ok [OF assms(1)] by blast+
  obtain toks where toks: "encode e = Some (PROC_SUCCESS, toks)" "decode toks = Some (PROC_SUCCESS, e, [])"
    using encode_decode_fuel [OF wf(1)] assms(2) unfolding decode_def by (metis append_Nil2 order_refl)
  obtain buf where buf: "do_ops_rpc F env t ask hret param HG_SUCCESS HG_SUCCESS ulen sv e =
      Some (Ops_Answer (\<lparr>bo_ret = dspaces_SUCCESS, bo_len = of_nat (length (en_lz4c env buf (length buf)))\<rparr>,
        [(0, if en_lz4c env buf (length buf) = [] then buf else en_lz4c env buf (length buf))]), sv, [])"
    "length buf = 8 * vol B" "unat (ex_size e) = 8 * vol B" "\<forall>p\<in>points B. elem 8 buf (lin B p) = to_real F (val p)"
    using do_ops_ok [OF wf assms(3,4), of val t ask hret param ulen] assms(6) by auto
  have "length buf < 2147483648" using assms(3) buf(2) by (simp add: computable_def small_box_def)
  from client_unpacks [OF toks(1) _ this assms(5), of "ops_server F env t ask hret param ulen sv" junk] buf toks(2)
  show ?thesis by (simp add: ops_server_def)
qed

text \<open>
  C5: type soundness. An expression the constructors built has one of the two types, and the routine of its
  type never reports a type error or an unknown operator, whatever the data: each error return of the two
  routines is unreachable.
\<close>

theorem op_types_sound:
  assumes "built e"
  shows "(ex_type e = DS_VAL_REAL \<and> fst ` set_option (ds_op_calc_rval F e pos) \<subseteq> {0}) \<or>
    (ex_type e = DS_VAL_INT \<and> fst ` set_option (ds_op_calc_ival F e pos) \<subseteq> {0})"
  using built_ok [OF assms] wf_type [of e] wf_calc_ok [of e F pos]
  by (auto simp: calc_ok_def no_err_def split: option.splits if_splits)

text \<open>
  C6: the wire format. What the constructors build is encoded without error, and decoding the stream, with
  whatever follows it, gives the expression back and leaves the rest, except that integer constants are
  cut to 32 bits.
\<close>

theorem op_wire_roundtrip:
  assumes "built e"
  shows "\<exists>toks. encode e = Some (PROC_SUCCESS, toks) \<and> decode (toks @ rest) = Some (PROC_SUCCESS, cut_consts e, rest)"
  using encode_decode_fuel [of e] built_ok [OF assms] by (auto simp: decode_def)

text \<open>
  Integer objects are read as doubles. An integer expression with an object, whose objects have at most
  the bytes of the result, cannot be computed: the loop reads past the end of the data.
\<close>

theorem int_objects_overread:
  assumes "built e" "ex_type e = DS_VAL_INT" "objs e \<noteq> []" "4 \<le> unat (ex_size e)"
    and "\<forall>x\<in>set (objs e). \<exists>d. data (fst x) = Some d \<and> length d \<le> unat (ex_size e)"
  shows "calc_buffer F mem e = None"
proof -
  let ?n = "unat (ex_size e) div 4"
  have wf: "wf_expr e" using built_ok [OF assms(1)] by blast
  have "x < 8 * (x div 4)" if "4 \<le> x" for x :: nat using that by presburger
  then have n: "0 < ?n" "unat (ex_size e) < 8 * ?n" using assms(4) by (auto simp: div_greater_zero_iff)
  have "ds_op_calc_ival F e' (?n - 1) = None"
    if "wf_expr e'" "ex_type e' = DS_VAL_INT" "objs e' \<noteq> []" "\<forall>x\<in>set (objs e'). \<exists>d. data (fst x) = Some d \<and> length d \<le> unat (ex_size e)" for e'
    using that
  proof (induction e' rule: wf_induct)
    case (obj od ty sz)
    then show ?case using n by (auto simp: real_at_def)
  next
    case (binop op l r sz)
    then have ty: "ex_type l = DS_VAL_INT" "ex_type r = DS_VAL_INT" using wf_type by (auto split: if_splits)
    have "no_err (ds_op_calc_ival F l (?n - 1))" using wf_calc_ok [OF binop(2), of F "?n - 1"] ty by (simp add: calc_ok_def)
    with binop ty show ?case by (cases "objs l = []") (auto simp: on_ok_def sub_long_def no_err_def split: bind_splits)
  qed simp_all
  from this [OF wf assms(2,3,5)] have "None \<in> set (map (\<lambda>i. map_option (\<lambda>(_, v). fp_int F (of_int v)) (ds_op_calc_ival F e i)) [0..<?n])"
    using n(1) by (auto intro!: image_eqI [of _ _ "?n - 1"])
  moreover have "None \<in> set xs \<Longrightarrow> those xs = None" for xs :: "byte list option list" by (induction xs) (auto split: option.splits)
  ultimately show ?thesis using assms(2) by (simp add: calc_buffer_def calc_elems_def)
qed

text \<open>
  C7: an expression cannot use two versions of a variable. The objects of an expression are gathered and
  replaced by name alone, so \<open>v@1 - v@2\<close> is computed as \<open>v@1 - v@1\<close>: the handler does the same whatever
  the version and the box of the second object.
\<close>

theorem ops_confuse_versions:
  assumes "binary op" "od_name (obj_desc a) = od_name (obj_desc b)"
  shows "do_ops_rpc F env t ask hret param bulk_ret xret ulen sv (Node op [Obj a ty sz, Obj b ty' sz'] tn sn) =
    do_ops_rpc F env t ask hret param bulk_ret xret ulen sv (Node op [Obj a ty sz, Obj a ty' sz'] tn sn)"
proof -
  have same: "update_expr_objs res (Node op [Obj a ty sz, Obj b ty' sz'] tn sn) = update_expr_objs res (Node op [Obj a ty sz, Obj a ty' sz'] tn sn)"
    if "od_name (obj_desc res) = od_name (obj_desc a)" for res using that assms by simp
  have name: "od_name (obj_desc res') = od_name (obj_desc a)"
    if "obj_data_alloc (en_mem env) (obj_desc a) = Some res" "ssd_copy (en_junk env) res st = Some (res', n)" for res res' st n
    using that by (auto simp: obj_data_alloc_def ssd_copy_def Let_def split: if_splits bind_splits)
  have "stage_all env t ask hret param sv [a] (Node op [Obj a ty sz, Obj b ty' sz'] tn sn) =
      stage_all env t ask hret param sv [a] (Node op [Obj a ty sz, Obj a ty' sz'] tn sn)"
    unfolding stage_all.simps
    by (intro Option.bind_cong refl) (auto simp del: update_expr_objs.simps simp: same [OF name] split: staged.splits intro!: Option.bind_cong)
  then show ?thesis using assms by (simp add: do_ops_rpc_def)
qed

text \<open>A real constant cannot be built, and using the result crashes. The arctangent of an integer constant has no element.\<close>

lemma rconst_is_null: "dspaces_op_new_rconst v = None" "dspaces_op_new_add (Some e) (dspaces_op_new_rconst v) = None"
  by (simp_all add: dspaces_op_new_rconst_def dspaces_op_new_add_def dspaces_op_new_2arg_def binary_def)

lemma arctan_of_iconst_empty:
  "\<exists>e. dspaces_op_new_arctan (dspaces_op_new_iconst v) = Some (Some e) \<and> ex_type e = DS_VAL_REAL \<and> calc_buffer F mem e = Some (map mem [0..<4])"
  by (simp add: dspaces_op_new_arctan_def dspaces_op_new_1arg_def dspaces_op_new_iconst_def calc_buffer_def calc_elems_def)

section \<open>An example\<close>

definition ex_fpu :: fpu where
  "ex_fpu = (let pad = (\<lambda>x. take 8 (x @ replicate 8 0)); add = (\<lambda>a b. pad (map2 (+) a b)) in
     \<lparr>fp_add = add, fp_sub = (\<lambda>a b. pad (map2 (-) a b)), fp_mult = add, fp_div = add, fp_pow = add, fp_atan = pad,
      fp_of_long = (\<lambda>v. pad [of_int v]), fp_to_long = (\<lambda>d. Some (uint (hd (d @ [0])))), fp_int = (\<lambda>w. [ucast w, 0, 0, 0])\<rparr>)"

definition ex_obj_expr :: "int \<Rightarrow> ds_data_expr option" where
  "ex_obj_expr ty = the (dspaces_op_new_obj (obj_data_blank zero_odsc None) (ex_client None) ''v'' 1 ty 1 [0] [1])"

definition ex_sum :: ds_data_expr where
  "ex_sum = the (the (dspaces_op_new_add (ex_obj_expr DS_VAL_REAL) (dspaces_op_new_iconst 1)))"

definition ex_stored :: obj_data where
  "ex_stored = obj_data_blank (obj_desc (fst (hd (objs ex_sum)))) (Some [1, 2, 3, 4, 5, 6, 7, 8, 9, 10, 11, 12, 13, 14, 15, 16])"

definition ex_ops_sv :: server where
  "ex_ops_sv = sv_store (ex_sv None) ex_stored"

lemma ex_fpu_ok: "fpu_ok ex_fpu"
proof -
  have "length (real_op ex_fpu op a b) = 8" for op a b by (cases op) (simp_all add: ex_fpu_def Let_def)
  then show ?thesis unfolding fpu_ok_def by (simp add: ex_fpu_def Let_def min_def)
qed

lemma ex_built: "built (the (ex_obj_expr ty))" if "ty = DS_VAL_INT \<or> ty = DS_VAL_REAL"
proof (rule built.obj)
  show "dspaces_op_new_obj (obj_data_blank zero_odsc None) (ex_client None) ''v'' 1 ty 1 [0] [1] = Some (Some (the (ex_obj_expr ty)))"
    using that by (elim disjE) (simp only:, code_simp)+
qed

lemma ex_sum_built: "built ex_sum"
proof (rule built.binop)
  show "built (the (ex_obj_expr DS_VAL_REAL))" by (rule ex_built) simp
  show "built (the (dspaces_op_new_iconst 1))" by (rule built.iconst [of 1]) (simp_all add: dspaces_op_new_iconst_def as_long_def)
  show "dspaces_op_new_2arg DS_OP_ADD (Some (the (ex_obj_expr DS_VAL_REAL))) (Some (the (dspaces_op_new_iconst 1))) = Some (Some ex_sum)"
    by code_simp
qed

lemma ex_sum_objs: "objs ex_sum = [(fst (hd (objs ex_sum)), DS_VAL_REAL)]" "od_bb (obj_desc (fst (hd (objs ex_sum)))) = mk_box [0] [1]"
  by code_simp+

lemma ex_computable: "computable ex_sv_env ex_ops_sv (mk_box [0] [1]) (\<lambda>_. ex_stored) ex_sum"
proof -
  have "vol (mk_box [0] [1]) = 2" by (simp add: bbox_eval)
  moreover have "map_option (the_od (sv_ls ex_ops_sv)) (ls_find (sv_ls ex_ops_sv) (obj_desc (fst (hd (objs ex_sum))))) = Some ex_stored"
    by code_simp
  moreover have "od_size (obj_desc (fst (hd (objs ex_sum)))) = 8" by code_simp
  moreover have "wf_bbox (en_junk ex_sv_env)" by (simp add: ex_sv_env_def mk_box_simps)
  ultimately show ?thesis
    unfolding computable_def real_objs_def over_def small_box_def stored_in_def
    by (subst (1 2 3 4) ex_sum_objs(1)) (simp add: ex_sum_objs(2) line_box ex_stored_def obj_fits_def Let_def)
qed

theorem op_calc_computes_witness:
  "\<exists>buf. dspaces_op_calc (\<lambda>_ _ _. (0, [])) (\<lambda>_. 0) (ops_server ex_fpu ex_sv_env 0 (\<lambda>_ _. []) (\<lambda>_. 0) 0 0 ex_ops_sv) ex_sum =
      Some (dspaces_SUCCESS, Some buf) \<and> elem 8 buf 1 = [10, 10, 11, 12, 13, 14, 15, 16]"
proof -
  let ?val = "\<lambda>p. NR (fp_add ex_fpu (obj_get ex_stored p) (fp_of_long ex_fpu 1))"
  have cut: "cut_consts ex_sum = ex_sum" by code_simp
  have lz: "lz4_ok (\<lambda>_ _ _. (0, [])) (en_lz4c ex_sv_env)" by (simp add: lz4_ok_def ex_sv_env_def)
  have "ex_sum = Node DS_OP_ADD [Obj (fst (hd (objs ex_sum))) DS_VAL_REAL 16, IConst 1 DS_VAL_INT 4] DS_VAL_REAL 16" by code_simp
  then obtain od where e: "ex_sum = Node DS_OP_ADD [Obj od DS_VAL_REAL 16, IConst 1 DS_VAL_INT 4] DS_VAL_REAL 16" by blast
  have ev: "eval ex_fpu (\<lambda>od. Some (obj_get ex_stored p)) ex_sum = Some (?val p)" for p unfolding e by simp
  have "[1] \<in> points (mk_box [0] [1])" "lin (mk_box [0] [1]) [1] = 1"
    by (simp add: line_box) code_simp
  moreover have "to_real ex_fpu (?val [1]) = [10, 10, 11, 12, 13, 14, 15, 16]" by code_simp
  ultimately show ?thesis
    using op_calc_computes [OF ex_sum_built cut ex_computable ex_fpu_ok lz, of ?val "\<lambda>_. 0" 0 "\<lambda>_ _. []" "\<lambda>_. 0" 0 0] ev by metis
qed

theorem op_types_sound_witness:
  "ex_type ex_sum = DS_VAL_REAL \<and> fst ` set_option (ds_op_calc_rval ex_fpu ex_sum 0) \<subseteq> {0}"
proof -
  have "ex_type ex_sum = DS_VAL_REAL" by code_simp
  then show ?thesis using op_types_sound [OF ex_sum_built, of ex_fpu 0] by simp
qed

theorem op_wire_roundtrip_witness:
  "\<exists>e toks. dspaces_op_new_iconst 4294967297 = Some e \<and> encode e = Some (PROC_SUCCESS, toks) \<and>
     decode (toks @ [T8 7]) = Some (PROC_SUCCESS, IConst 1 DS_VAL_INT 4, [T8 7])"
proof -
  have b: "built (IConst 4294967297 DS_VAL_INT 4)" by (rule built.iconst [of 4294967297]) (simp_all add: dspaces_op_new_iconst_def as_long_def)
  have c: "cut_consts (IConst 4294967297 DS_VAL_INT 4) = IConst 1 DS_VAL_INT 4" by code_simp
  from op_wire_roundtrip [OF b, of "[T8 7]"] show ?thesis unfolding c dspaces_op_new_iconst_def by blast
qed

definition ex_int_expr :: ds_data_expr where
  "ex_int_expr = subst (\<lambda>od. od\<lparr>data := Some [1, 0, 0, 0, 2, 0, 0, 0]\<rparr>) (the (ex_obj_expr DS_VAL_INT))"

theorem int_objects_overread_witness:
  "calc_buffer ex_fpu (\<lambda>_. 0) ex_int_expr = None"
proof (rule int_objects_overread)
  show "built ex_int_expr"
    by (rule built.obj [of "(obj_data_blank zero_odsc (Some [1, 0, 0, 0, 2, 0, 0, 0]))" "ex_client None" "''v''" 1 DS_VAL_INT 1 "[0]" "[1]"]) code_simp
  show "ex_type ex_int_expr = DS_VAL_INT" "objs ex_int_expr \<noteq> []" "4 \<le> unat (ex_size ex_int_expr)" by code_simp+
  have "map (data \<circ> fst) (objs ex_int_expr) = [Some [1, 0, 0, 0, 2, 0, 0, 0]]" "unat (ex_size ex_int_expr) = 8" by code_simp+
  then show "\<forall>x\<in>set (objs ex_int_expr). \<exists>d. data (fst x) = Some d \<and> length d \<le> unat (ex_size ex_int_expr)" by auto
qed

theorem ops_confuse_versions_witness:
  "(let a = fst (hd (objs ex_sum)); b = a\<lparr>obj_desc := (obj_desc a)\<lparr>od_version := 2\<rparr>\<rparr> in
    do_ops_rpc ex_fpu ex_sv_env 0 (\<lambda>_ _. []) (\<lambda>_. 0) 0 0 0 0 ex_ops_sv (Node DS_OP_SUB [Obj a 1 16, Obj b 1 16] 1 16) =
    do_ops_rpc ex_fpu ex_sv_env 0 (\<lambda>_ _. []) (\<lambda>_. 0) 0 0 0 0 ex_ops_sv (Node DS_OP_SUB [Obj a 1 16, Obj a 1 16] 1 16))"
  unfolding Let_def by (rule ops_confuse_versions) (simp_all add: binary_def)

end
