(* ===== verification/Bcast.thy ===== *)
theory Bcast
  imports LocalStore "HOL-Library.Multiset"
begin

text \<open>
  Broadcasts among the servers (\<^verbatim>\<open>ibcast_rpc_start\<close>, \<^verbatim>\<open>ibcast_get_output\<close> of \<^verbatim>\<open>src/dspaces-server.c\<close>) and the
  handlers built on them: \<^verbatim>\<open>kill_rpc\<close>, \<^verbatim>\<open>get_vars_rpc\<close>, \<^verbatim>\<open>get_var_objs_rpc\<close> and \<^verbatim>\<open>reg_rpc\<close>. The servers
  form a binary tree by rank; a handler that gets a request from \<open>src\<close> (-1: from a client) forwards it to
  its other neighbours. Ranks are natural numbers below \<open>n\<close>, the \<^verbatim>\<open>size_sp\<close> of the code.
\<close>

section \<open>Operations\<close>

text \<open>
  The three slots of \<^verbatim>\<open>struct ibcast_state\<close>: the rank each request was sent to, if it was. \<open>None\<close> is the
  NULL the code returns when there is nobody to send to. The division rounds towards zero, so the
  parent of rank 0 is 0.
\<close>

definition ibcast_rpc_start :: "nat \<Rightarrow> nat \<Rightarrow> int \<Rightarrow> nat option list option" where
  "ibcast_rpc_start size_sp rank src =
     (let parent = (rank - 1) div 2; child1 = rank * 2 + 1; child2 = child1 + 1
      in if size_sp = 1 \<or> src = int parent \<and> child1 \<ge> size_sp then None
         else Some [if (src = -1 \<or> src > int rank) \<and> rank > 0 then Some parent else None,
                    if int child1 \<noteq> src \<and> child1 < size_sp then Some child1 else None,
                    if int child2 \<noteq> src \<and> child2 < size_sp then Some child2 else None])"

text \<open>The answer of a slot; \<open>None\<close> when \<^verbatim>\<open>present\<close> is set to 0.\<close>

definition ibcast_get_output :: "nat option list \<Rightarrow> (nat \<Rightarrow> 'a) \<Rightarrow> nat \<Rightarrow> 'a option" where
  "ibcast_get_output bcast answer slot = (if slot > 2 then None else map_option answer (bcast ! slot))"

definition ibcast_targets :: "nat \<Rightarrow> nat \<Rightarrow> int \<Rightarrow> nat list" where
  "ibcast_targets n rank src =
     (case ibcast_rpc_start n rank src of None \<Rightarrow> [] | Some bcast \<Rightarrow> List.map_filter (\<lambda>x. x) bcast)"

text \<open>The answers a handler collects from its slots, in order.\<close>

definition collect :: "nat \<Rightarrow> nat \<Rightarrow> int \<Rightarrow> (nat \<Rightarrow> 'a) \<Rightarrow> 'a list" where
  "collect n rank src answer =
     (case ibcast_rpc_start n rank src of
        None \<Rightarrow> []
      | Some bcast \<Rightarrow> List.map_filter (ibcast_get_output bcast answer) [0..<3])"

lemma targets_eq:
  "ibcast_targets n rank src =
     (if n = 1 \<or> src = int ((rank - 1) div 2) \<and> rank * 2 + 1 \<ge> n then []
      else (if (src = -1 \<or> src > int rank) \<and> rank > 0 then [(rank - 1) div 2] else []) @
           filter (\<lambda>c. int c \<noteq> src \<and> c < n) [rank * 2 + 1, rank * 2 + 2])"
  by (simp add: ibcast_targets_def ibcast_rpc_start_def Let_def map_filter_simps)

lemma collect_eq: "collect n rank src answer = map answer (ibcast_targets n rank src)"
proof -
  have r: "[0..<3] = [0, 1, 2::nat]" by (simp add: upt_rec)
  show ?thesis
    by (simp add: collect_def ibcast_targets_def ibcast_rpc_start_def ibcast_get_output_def Let_def r map_filter_simps)
qed

text \<open>
  A request that runs through the tree: every handler works on its own data and on the answers of the
  servers it forwarded the request to. \<open>ibcast\<close> is the nesting of these remote calls.
\<close>

lemma target_order:
  assumes "t \<in> set (ibcast_targets n rank src)"
  shows "(t < rank \<and> (src = -1 \<or> src > int rank)) \<or> (rank < t \<and> t < n)"
  using assms by (auto simp: targets_eq split: if_splits)

function ibcast :: "(nat \<Rightarrow> int \<Rightarrow> 'a list \<Rightarrow> 'a) \<Rightarrow> nat \<Rightarrow> nat \<Rightarrow> int \<Rightarrow> 'a" where
  "ibcast f n rank src = f rank src (map (\<lambda>t. ibcast f n t (int rank)) (ibcast_targets n rank src))"
  by auto
termination
proof (relation "measures [\<lambda>(f, n, rank, src). if src = -1 \<or> src > int rank then Suc rank else 0, \<lambda>(f, n, rank, src). n - rank]")
  fix f :: "nat \<Rightarrow> int \<Rightarrow> 'a list \<Rightarrow> 'a" and n rank src t
  assume "t \<in> set (ibcast_targets n rank src)"
  from target_order [OF this]
  show "((f, n, t, int rank), f, n, rank, src) \<in>
      measures [\<lambda>(f, n, rank, src). if src = -1 \<or> src > int rank then Suc rank else 0, \<lambda>(f, n, rank, src). n - rank]"
    by auto
qed simp

declare ibcast.simps [simp del]

section \<open>The handlers\<close>

text \<open>\<^verbatim>\<open>get_vars_rpc\<close>: \<open>names rank\<close> are the variables of the local store, the answers those of the others.\<close>

definition get_vars_handler :: "(nat \<Rightarrow> ss_storage) \<Rightarrow> nat \<Rightarrow> int \<Rightarrow> string list list \<Rightarrow> string list" where
  "get_vars_handler stores rank src answers =
     (let add = fold (\<lambda>name results. snd (ds_str_hash_add results name));
          results = add (snd (ls_get_var_names (stores rank))) ds_str_hash_init
      in snd (ds_str_hash_get_all (add (concat answers) results)))"

definition get_vars_rpc :: "(nat \<Rightarrow> ss_storage) \<Rightarrow> nat \<Rightarrow> nat \<Rightarrow> int \<Rightarrow> string list" where
  "get_vars_rpc stores = ibcast (get_vars_handler stores)"

text \<open>\<^verbatim>\<open>get_var_objs_rpc\<close>: the local descriptors followed by those of the answers.\<close>

definition get_var_objs_handler :: "(nat \<Rightarrow> ss_storage) \<Rightarrow> string \<Rightarrow> nat \<Rightarrow> int \<Rightarrow> obj_descriptor list list \<Rightarrow>
    obj_descriptor list" where
  "get_var_objs_handler stores var_name rank src answers =
     foldl (@) (ls_find_all_no_version (stores rank) var_name) answers"

definition get_var_objs_rpc :: "(nat \<Rightarrow> ss_storage) \<Rightarrow> string \<Rightarrow> nat \<Rightarrow> nat \<Rightarrow> int \<Rightarrow> obj_descriptor list" where
  "get_var_objs_rpc stores var_name = ibcast (get_var_objs_handler stores var_name)"

text \<open>
  \<^verbatim>\<open>kill_rpc\<close>: the tokens left, the ranks the signal is forwarded to, and whether \<^verbatim>\<open>server_destroy\<close> is
  called. \<^verbatim>\<open>f_kill\<close> starts as the number of applications.
\<close>

definition kill_rpc :: "nat \<Rightarrow> nat \<Rightarrow> int \<Rightarrow> int \<Rightarrow> int \<times> nat list \<times> bool" where
  "kill_rpc n rank f_kill src =
     (if f_kill = 0 then (f_kill, [], False)
      else let f_kill = f_kill - 1
           in (f_kill, ibcast_targets n rank src, f_kill = 0))"

text \<open>
  The servers during shutdown: the tokens of each, the kill signals in flight with their target and
  source, and the servers that have called \<^verbatim>\<open>server_destroy\<close>. A signal is handled in any order.
\<close>

record kill_net =
  kn_tokens :: "int list"
  kn_msgs :: "(nat \<times> int) multiset"
  kn_down :: "nat list"

definition kill_deliver :: "nat \<Rightarrow> nat \<Rightarrow> int \<Rightarrow> kill_net \<Rightarrow> kill_net" where
  "kill_deliver n t src s =
     (let (f_kill, ts, do_kill) = kill_rpc n t (kn_tokens s ! t) src
      in \<lparr>kn_tokens = (kn_tokens s)[t := f_kill],
          kn_msgs = kn_msgs s - {#(t, src)#} + mset (map (\<lambda>u. (u, int t)) ts),
          kn_down = (if do_kill then t # kn_down s else kn_down s)\<rparr>)"

inductive kill_step :: "nat \<Rightarrow> kill_net \<Rightarrow> kill_net \<Rightarrow> bool" for n where
  kill: "(t, src) \<in># kn_msgs s \<Longrightarrow> kill_step n s (kill_deliver n t src s)"

inductive_cases kill_stepE: "kill_step n s s'"

text \<open>The start: every server has \<open>num_apps\<close> tokens, the clients have sent signals to the servers \<open>cs\<close> (\<^verbatim>\<open>dspaces_kill\<close>).\<close>

definition kill_init :: "nat \<Rightarrow> int \<Rightarrow> nat list \<Rightarrow> kill_net" where
  "kill_init n num_apps cs =
     \<lparr>kn_tokens = replicate n num_apps, kn_msgs = mset (map (\<lambda>c. (c, -1)) cs), kn_down = []\<rparr>"

text \<open>
  \<^verbatim>\<open>reg_rpc\<close> of a request with identifier and source: \<open>ids\<close> are the counters \<^verbatim>\<open>local_reg_id\<close> of the
  servers, \<open>route\<close> stands for \<^verbatim>\<open>route_registration\<close> (an error, or the identifier the module chose). The
  request is forwarded as it is. The handler answers only when every server it forwarded to has
  answered; \<open>None\<close> means that it never does.
\<close>

record reg_in =
  rg_src :: int
  rg_id :: u64

fun reg_rpc ::
  "nat \<Rightarrow> nat \<Rightarrow> (nat \<Rightarrow> reg_in \<Rightarrow> int + u64) \<Rightarrow> (nat \<Rightarrow> u64) \<Rightarrow> nat \<Rightarrow> reg_in \<Rightarrow> (u64 \<times> (nat \<Rightarrow> u64)) option" where
  "reg_rpc 0 n route ids rank rin = None"
| "reg_rpc (Suc fuel) n route ids rank rin =
     (let (rin, ids) = (if rg_src rin = -1
              then (rin\<lparr>rg_id := ids rank + push_bit 40 (of_nat rank)\<rparr>, ids(rank := ids rank + 1))
              else (rin, ids));
          bcast = (case ibcast_rpc_start n rank (rg_src rin) of None \<Rightarrow> [None, None, None] | Some b \<Rightarrow> b);
          forward = (\<lambda>t ids. case t of None \<Rightarrow> Some ids
                                | Some t \<Rightarrow> map_option snd (reg_rpc fuel n route ids t rin))
      in Option.bind (forward (bcast ! 0) ids) (\<lambda>ids.
         Option.bind (forward (bcast ! 1) ids) (\<lambda>ids.
         Option.bind (forward (bcast ! 2) ids) (\<lambda>ids.
           Some (case route rank rin of Inl err \<Rightarrow> of_int err | Inr rid \<Rightarrow> rid, ids)))))"

section \<open>Every server is reached once\<close>

text \<open>The servers below \<open>r\<close> in the tree.\<close>

fun below :: "nat \<Rightarrow> nat \<Rightarrow> bool" where
  "below r x = (if x \<le> r then x = r else below r ((x - 1) div 2))"

declare below.simps [simp del]

lemma below_le: "below r x \<Longrightarrow> r \<le> x"
  by (induction r x rule: below.induct) (subst (asm) below.simps, auto split: if_splits)

lemma below_root: "below 0 x"
proof (induction x rule: less_induct)
  case (less x)
  then show ?case by (subst below.simps) auto
qed

lemma below_split: "below r x \<longleftrightarrow> x = r \<or> below (2 * r + 1) x \<or> below (2 * r + 2) x"
proof (induction x rule: less_induct)
  case (less x)
  consider "x \<le> r" | "r < x" "x \<le> 2 * r + 2" | "2 * r + 2 < x" by linarith
  then show ?case
  proof cases
    case 1
    then show ?thesis using below_le [of "2 * r + 1" x] below_le [of "2 * r + 2" x] by (auto simp: below.simps [of r x])
  next
    case 2
    then have "below r ((x - 1) div 2) \<longleftrightarrow> (x - 1) div 2 = r"
      by (subst below.simps) auto
    then show ?thesis using 2 by (auto simp: below.simps [of _ x])
  next
    case 3
    then have "(x - 1) div 2 \<noteq> r" "(x - 1) div 2 < x" by linarith+
    with 3 show ?thesis
      using less.IH [of "(x - 1) div 2"] by (simp add: below.simps [of _ x])
  qed
qed

lemma below_disjoint: "below (2 * r + 1) x \<Longrightarrow> \<not> below (2 * r + 2) x"
proof (induction x rule: less_induct)
  case (less x)
  show ?case
  proof
    assume b: "below (2 * r + 2) x"
    from below_le [OF b] have x: "2 * r + 2 \<le> x" .
    have "below (2 * r + 1) ((x - 1) div 2)" using less.prems x by (subst (asm) below.simps) (auto split: if_splits)
    moreover from this have "2 * r + 2 < x" using below_le by fastforce
    then have "below (2 * r + 2) ((x - 1) div 2)" using b by (subst (asm) below.simps) (auto split: if_splits)
    moreover have "(x - 1) div 2 < x" using x by linarith
    ultimately show False using less.IH [of "(x - 1) div 2"] by blast
  qed
qed

lemma not_below_child: "\<not> below (2 * r + 1) r" "\<not> below (2 * r + 2) r"
  using below_le by fastforce+

definition flood :: "nat \<Rightarrow> nat \<Rightarrow> int \<Rightarrow> nat list" where
  "flood = ibcast (\<lambda>rank src answers. rank # concat answers)"

lemma flood_eq: "flood n r src = r # concat (map (\<lambda>t. flood n t (int r)) (ibcast_targets n r src))"
  unfolding flood_def by (subst ibcast.simps) simp

lemma count_list_append [simp]: "count_list (xs @ ys) x = count_list xs x + count_list ys x"
  by (induction xs) simp_all

lemma count_flood:
  "count_list (flood n r src) x =
     of_bool (r = x) + count_list (concat (map (\<lambda>t. flood n t (int r)) (ibcast_targets n r src))) x"
  by (subst flood_eq) simp

lemma child_of_parent: "0 < r \<Longrightarrow> r = 2 * ((r - 1) div 2) + 1 \<or> r = 2 * ((r - 1) div 2) + 2"
  for r :: nat by linarith

text \<open>The part of the tree a server covers when the request comes from its parent, or from a child.\<close>

abbreviation ind :: "bool \<Rightarrow> nat" where "ind \<equiv> of_bool"

lemma flood_down:
  assumes "0 \<le> src" "src < int r" "r < n"
  shows "count_list (flood n r src) x = ind (x < n \<and> below r x)"
  using assms
proof (induction "n - r" arbitrary: r src rule: less_induct)
  case less
  have t: "ibcast_targets n r src = filter (\<lambda>c. c < n) [2 * r + 1, 2 * r + 2]"
    using less.prems by (auto simp: targets_eq)
  have c: "count_list (flood n c (int r)) x = ind (x < n \<and> below c x)" if "r < c" "c < n" for c
    using less.hyps [of c "int r"] that less.prems by simp
  have "\<not> (x < n \<and> below c x)" if "\<not> c < n" for c using below_le [of c x] that by auto
  then have "count_list (concat (map (\<lambda>c. flood n c (int r)) (filter (\<lambda>c. c < n) [2 * r + 1, 2 * r + 2]))) x =
      ind (x < n \<and> below (2 * r + 1) x) + ind (x < n \<and> below (2 * r + 2) x)"
    using c [of "2 * r + 1"] c [of "2 * r + 2"] by simp
  then show ?case
    unfolding flood_eq [of n r src] t
    using below_split [of r x] below_disjoint [of r x] not_below_child [of r] less.prems by auto
qed

lemma flood_up:
  assumes "c = 2 * r + 1 \<or> c = 2 * r + 2" "c < n"
  shows "count_list (flood n r (int c)) x = ind (x < n \<and> \<not> below c x)"
  using assms
proof (induction r arbitrary: c rule: less_induct)
  case (less r)
  define p where "p = (r - 1) div 2"
  define d where "d = (if c = 2 * r + 1 then 2 * r + 2 else 2 * r + 1)"
  have t: "ibcast_targets n r (int c) = (if r > 0 then [p] else []) @ (if d < n then [d] else [])"
    using less.prems by (auto simp: targets_eq p_def d_def)
  have "count_list (flood n p (int r)) x = ind (x < n \<and> \<not> below r x)" if "r > 0"
    using less.IH [of p r] child_of_parent [OF that] that less.prems by (auto simp: p_def)
  moreover have "count_list (flood n d (int r)) x = ind (x < n \<and> below d x)" if "d < n"
    using that by (intro flood_down) (auto simp: d_def)
  moreover have "\<not> (x < n \<and> below d x)" if "\<not> d < n" using below_le [of d x] that by auto
  ultimately have "count_list (concat (map (\<lambda>c. flood n c (int r)) ((if r > 0 then [p] else []) @ (if d < n then [d] else [])))) x =
      ind (x < n \<and> \<not> below r x) + ind (x < n \<and> below d x)"
    using below_root [of x] by (cases "r > 0"; cases "d < n") simp_all
  then have "count_list (flood n r (int c)) x = ind (r = x) + (ind (x < n \<and> \<not> below r x) + ind (x < n \<and> below d x))"
    by (simp only: count_flood [of n r "int c"] t)
  also have "\<dots> = ind (x < n \<and> \<not> below c x)"
  proof -
    have "r < n" using less.prems by auto
    then show ?thesis
      using below_split [of r x] below_disjoint [of r x] not_below_child [of r] less.prems(1)
      by (cases "x = r"; cases "c = 2 * r + 1") (auto simp: d_def)
  qed
  finally show ?case .
qed

lemma flood_all:
  assumes "r < n"
  shows "count_list (flood n r (-1)) x = ind (x < n)"
proof -
  define p where "p = (r - 1) div 2"
  have t: "ibcast_targets n r (-1) = (if r > 0 then [p] else []) @ filter (\<lambda>c. c < n) [2 * r + 1, 2 * r + 2]"
    using assms by (auto simp: targets_eq p_def)
  have p: "count_list (flood n p (int r)) x = ind (x < n \<and> \<not> below r x)" if "r > 0"
    using flood_up [of r p n] child_of_parent [OF that] assms by (simp add: p_def)
  have c: "count_list (flood n c (int r)) x = ind (x < n \<and> below c x)" if "r < c" "c < n" for c
    using flood_down [of "int r" c n] that by simp
  have "\<not> (x < n \<and> below c x)" if "\<not> c < n" for c using below_le [of c x] that by auto
  then have "count_list (concat (map (\<lambda>c. flood n c (int r)) ((if r > 0 then [p] else []) @ filter (\<lambda>c. c < n) [2 * r + 1, 2 * r + 2]))) x =
      ind (x < n \<and> \<not> below r x) + (ind (x < n \<and> below (2 * r + 1) x) + ind (x < n \<and> below (2 * r + 2) x))"
    using p c [of "2 * r + 1"] c [of "2 * r + 2"] below_root [of x] by (cases "r > 0") simp_all
  then have "count_list (flood n r (-1)) x =
      ind (r = x) + (ind (x < n \<and> \<not> below r x) + (ind (x < n \<and> below (2 * r + 1) x) + ind (x < n \<and> below (2 * r + 2) x)))"
    by (simp only: count_flood [of n r "-1"] t)
  then show ?thesis
    using below_split [of r x] below_disjoint [of r x] not_below_child [of r] assms by (cases "x = r") auto
qed

lemma mset_flood: "r < n \<Longrightarrow> mset (flood n r (-1)) = mset_set {0..<n}"
  by (rule multiset_eqI) (simp add: count_mset flood_all count_mset_set')

section \<open>Collecting answers\<close>

lemma get_vars_handler_ok:
  "distinct (get_vars_handler stores r src as)"
  "set (get_vars_handler stores r src as) = set (snd (ls_get_var_names (stores r))) \<union> (\<Union>xs\<in>set as. set xs)"
  using sh.merged_names [of "snd (ls_get_var_names (stores r)) # as"]
  by (simp_all add: get_vars_handler_def Let_def)

lemma ibcast_set:
  assumes "\<And>r src as. set (f r src as) = L r \<union> (\<Union>xs\<in>set as. set xs)"
  shows "set (ibcast f n r src) = (\<Union>x\<in>set (flood n r src). L x)"
  using assms
proof (induction f n r src rule: ibcast.induct)
  case (1 f n rank src)
  show ?case
    unfolding ibcast.simps [of f n rank src] flood_eq [of n rank src] "1.prems" by (simp add: "1.IH" [OF _ "1.prems"])
qed

lemma ibcast_mset:
  assumes "\<And>r src as. mset (f r src as) = mset (L r) + sum_list (map mset as)"
  shows "mset (ibcast f n r src) = sum_list (map (\<lambda>x. mset (L x)) (flood n r src))"
  using assms
proof (induction f n r src rule: ibcast.induct)
  case (1 f n rank src)
  have c: "sum_list (map g (concat xss)) = sum_list (map (\<lambda>xs. sum_list (map g xs)) xss)" for g :: "nat \<Rightarrow> 'a multiset" and xss
    by (induction xss) simp_all
  show ?case
    unfolding ibcast.simps [of f n rank src] flood_eq [of n rank src] "1.prems"
    by (simp add: c comp_def "1.IH" [OF _ "1.prems"] cong: map_cong)
qed

lemma mset_foldl_append: "mset (foldl (@) xs xss) = mset xs + sum_list (map mset xss)"
  by (induction xss arbitrary: xs) simp_all

lemma set_flood: "r < n \<Longrightarrow> set (flood n r (-1)) = {0..<n}"
  using arg_cong [OF mset_flood, of r n set_mset] by simp

lemma sum_list_flood:
  fixes g :: "nat \<Rightarrow> 'a :: comm_monoid_add"
  assumes "r < n"
  shows "sum_list (map g (flood n r (-1))) = (\<Sum>x\<in>{0..<n}. g x)"
proof -
  have "sum_list (map g (flood n r (-1))) = sum_mset (image_mset g (mset (flood n r (-1))))" by (simp flip: sum_mset_sum_list)
  also have "\<dots> = (\<Sum>x\<in>{0..<n}. g x)" unfolding mset_flood [OF assms] by (simp add: sum_unfold_sum_mset)
  finally show ?thesis .
qed

section \<open>Shutting down\<close>

text \<open>The signals a server still has to handle because of one in flight.\<close>

definition due :: "nat \<Rightarrow> kill_net \<Rightarrow> nat \<Rightarrow> nat" where
  "due n s x = (\<Sum>m\<in>#kn_msgs s. count_list (flood n (fst m) (snd m)) x)"

definition kill_inv :: "nat \<Rightarrow> nat \<Rightarrow> nat \<Rightarrow> kill_net \<Rightarrow> bool" where
  "kill_inv n k m s \<longleftrightarrow> length (kn_tokens s) = n \<and> (\<forall>x<n. kn_tokens s ! x = int (due n s x)) \<and>
     (\<forall>x\<in>#kn_msgs s. fst x < n) \<and> (\<Sum>x<n. due n s x) + m = k * n \<and>
     distinct (kn_down s) \<and> set (kn_down s) = {x. x < n \<and> kn_tokens s ! x = 0}"

lemma due_init: "(\<forall>c\<in>set cs. c < n) \<Longrightarrow> x < n \<Longrightarrow> due n (kill_init n a cs) x = length cs"
  by (induction cs) (simp_all add: due_def kill_init_def flood_all)

lemma target_less: "t \<in> set (ibcast_targets n r src) \<Longrightarrow> r < n \<Longrightarrow> t < n"
  using target_order [of t n r src] by auto

lemma due_target: "(t, src) \<in># kn_msgs s \<Longrightarrow> 0 < due n s t"
proof -
  assume "(t, src) \<in># kn_msgs s"
  then obtain M where "kn_msgs s = add_mset (t, src) M" by (metis insert_DiffM)
  then show ?thesis by (simp add: due_def count_flood)
qed

lemma due_deliver:
  assumes m: "(t, src) \<in># kn_msgs s" and tok: "kn_tokens s ! t \<noteq> 0"
  shows "due n (kill_deliver n t src s) x + of_bool (t = x) = due n s x"
proof -
  obtain M where M: "kn_msgs s = add_mset (t, src) M" using m by (metis insert_DiffM)
  have c: "count_list (concat (map f ts)) x = sum_list (map (\<lambda>u. count_list (f u) x) ts)" for f :: "nat \<Rightarrow> nat list" and ts :: "nat list"
    by (induction ts) simp_all
  show ?thesis
    using tok by (simp add: due_def kill_deliver_def kill_rpc_def Let_def M count_flood [of n t src] c
        image_mset.compositionality comp_def flip: sum_mset_sum_list)
qed

lemma kill_inv_step:
  assumes inv: "kill_inv n k m s" and m: "(t, src) \<in># kn_msgs s"
  shows "kill_inv n k (Suc m) (kill_deliver n t src s)"
proof -
  let ?s = "kill_deliver n t src s"
  have t: "t < n" using inv m by (auto simp: kill_inv_def)
  have tok: "kn_tokens s ! t = int (due n s t)" "kn_tokens s ! t \<noteq> 0"
    using inv t due_target [OF m, of n] by (simp_all add: kill_inv_def)
  note d = due_deliver [OF m tok(2), of n]
  have tok': "kn_tokens ?s = (kn_tokens s)[t := kn_tokens s ! t - 1]"
    and down': "kn_down ?s = (if kn_tokens s ! t = 1 then t # kn_down s else kn_down s)"
    and msgs': "kn_msgs ?s = kn_msgs s - {#(t, src)#} + mset (map (\<lambda>u. (u, int t)) (ibcast_targets n t src))"
    using tok(2) by (simp_all add: kill_deliver_def kill_rpc_def Let_def)
  have "(\<Sum>x<n. due n s x) = (\<Sum>x<n. due n ?s x + of_bool (t = x))" using d by simp
  also have "\<dots> = (\<Sum>x<n. due n ?s x) + 1" using t by (simp add: sum.distrib)
  finally have "(\<Sum>x<n. due n ?s x) + Suc m = k * n" using inv by (simp add: kill_inv_def)
  moreover have "kn_tokens ?s ! x = int (due n ?s x)" if "x < n" for x
    using inv that d [of x] by (cases "x = t") (auto simp: tok' kill_inv_def)
  moreover have "\<forall>x\<in>#kn_msgs ?s. fst x < n"
    using inv target_less [OF _ t] by (auto simp: msgs' kill_inv_def dest: in_diffD)
  moreover have "distinct (kn_down ?s) \<and> set (kn_down ?s) = {x. x < n \<and> kn_tokens ?s ! x = 0}"
    using inv t tok(2) by (auto simp: kill_inv_def down' tok' nth_list_update split: if_splits)
  ultimately show ?thesis using inv by (simp add: kill_inv_def tok')
qed

lemma kill_inv_run:
  assumes "0 < n" "0 < length cs" "\<forall>c\<in>set cs. c < n" "(kill_step n ^^ m) (kill_init n (int (length cs)) cs) s"
  shows "kill_inv n (length cs) m s"
  using assms(4)
proof (induction m arbitrary: s)
  case 0
  have s: "s = kill_init n (int (length cs)) cs" using 0 by simp
  have d: "due n s x = length cs" if "x < n" for x using due_init [OF assms(3) that] s by simp
  then have "(\<Sum>x<n. due n s x) = length cs * n" by simp
  then show ?case
    using d assms(1-3) by (auto simp: kill_inv_def s) (auto simp: kill_init_def)
next
  case (Suc m)
  then obtain u where u: "(kill_step n ^^ m) (kill_init n (int (length cs)) cs) u" "kill_step n u s" by auto
  from Suc.IH [OF u(1)] u(2) show ?case by (auto elim!: kill_stepE intro: kill_inv_step)
qed

lemma kill_inv_end: "kill_inv n k m s \<Longrightarrow> kn_msgs s = {#} \<longleftrightarrow> m = k * n"
proof -
  assume inv: "kill_inv n k m s"
  have "kn_msgs s = {#}" if "(\<Sum>x<n. due n s x) = 0"
  proof (rule ccontr)
    assume "kn_msgs s \<noteq> {#}"
    then obtain t src where m: "(t, src) \<in># kn_msgs s" by (metis multiset_nonemptyE surj_pair)
    then have "t < n" using inv by (auto simp: kill_inv_def)
    with that have "due n s t = 0" by auto
    with due_target [OF m, of n] show False by simp
  qed
  then show ?thesis using inv by (auto simp: kill_inv_def due_def)
qed

lemma kill_inv_down: "kill_inv n k m s \<Longrightarrow> (t, src) \<in># kn_msgs s \<Longrightarrow> t \<notin> set (kn_down s)"
  using due_target [of t src s n] by (auto simp: kill_inv_def)

section \<open>Properties\<close>

text \<open>
  C33: with one kill signal per expected application, sent to any servers and handled in any order, the
  shutdown always ends, after exactly one handled signal per server and application. Until then some
  signal is in flight, and none is ever on its way to a server that has shut down; at the end every
  server has called \<^verbatim>\<open>server_destroy\<close> exactly once.
\<close>

theorem kill_shuts_all_down:
  assumes "0 < n" "0 < length cs" "\<forall>c\<in>set cs. c < n" "(kill_step n ^^ m) (kill_init n (int (length cs)) cs) s"
  shows "m \<le> length cs * n \<and> (kn_msgs s = {#} \<longleftrightarrow> m = length cs * n) \<and>
    (\<forall>(t, src)\<in>#kn_msgs s. t \<notin> set (kn_down s)) \<and> distinct (kn_down s) \<and>
    (m = length cs * n \<longrightarrow> set (kn_down s) = {0..<n}) \<and> (m < length cs * n \<longrightarrow> (\<exists>s'. kill_step n s s'))"
proof -
  have inv: "kill_inv n (length cs) m s" by (rule kill_inv_run [OF assms])
  have m: "m \<le> length cs * n" using inv by (auto simp: kill_inv_def)
  have "kn_tokens s ! x = 0" if "m = length cs * n" "x < n" for x
    using inv that kill_inv_end [OF inv] by (simp add: kill_inv_def due_def)
  then have "set (kn_down s) = {0..<n}" if "m = length cs * n" using inv that by (auto simp: kill_inv_def)
  moreover have "\<exists>s'. kill_step n s s'" if lt: "m < length cs * n"
  proof -
    obtain t src where "(t, src) \<in># kn_msgs s"
      using kill_inv_end [OF inv] lt by (metis less_irrefl multiset_nonemptyE surj_pair)
    then show ?thesis by (blast intro: kill)
  qed
  ultimately show ?thesis
    using inv m kill_inv_end [OF inv] kill_inv_down [OF inv] by (auto simp: kill_inv_def)
qed

theorem kill_shuts_all_down_witness:
  "\<exists>s. (kill_step 3 ^^ 3) (kill_init 3 1 [1]) s \<and> kn_msgs s = {#} \<and> set (kn_down s) = {0..<3}"
proof -
  define f where "f = (\<lambda>t src s. kill_deliver 3 t src s)"
  let ?a = "kill_init 3 1 [1]"
  let ?b = "f 1 (-1) ?a" let ?c = "f 0 1 ?b" let ?d = "f 2 0 ?c"
  have "(1, -1) \<in># kn_msgs ?a" "(0, 1) \<in># kn_msgs ?b" "(2, 0) \<in># kn_msgs ?c"
    by (simp_all add: f_def kill_init_def kill_deliver_def kill_rpc_def targets_eq numeral_3_eq_3)
  then have "(kill_step 3 ^^ 3) ?a ?d"
    unfolding f_def numeral_3_eq_3 by (auto intro!: relpowp_Suc_I relpowp_0_I kill)
  with kill_shuts_all_down [of 3 "[1]" 3 ?d] show ?thesis by auto
qed

text \<open>
  C34: whichever server a client asks, the broadcast visits every server exactly once: the variable names
  it gets are those of all servers, each once, and the object descriptors of a variable are all those
  stored on any server, none lost and none twice.
\<close>

theorem broadcast_collects_all:
  assumes "r < n"
  shows "distinct (get_vars_rpc stores n r (-1)) \<and>
    set (get_vars_rpc stores n r (-1)) = (\<Union>x<n. set (snd (ls_get_var_names (stores x)))) \<and>
    mset (get_var_objs_rpc stores v n r (-1)) = (\<Sum>x\<in>{0..<n}. mset (ls_find_all_no_version (stores x) v))"
proof -
  have "distinct (get_vars_rpc stores n r (-1))"
    unfolding get_vars_rpc_def by (subst ibcast.simps) (rule get_vars_handler_ok)
  moreover have "set (get_vars_rpc stores n r (-1)) = (\<Union>x<n. set (snd (ls_get_var_names (stores x))))"
    unfolding get_vars_rpc_def
    using ibcast_set [where f = "get_vars_handler stores" and n = n and r = r and src = "-1", OF get_vars_handler_ok(2)] set_flood [OF assms] by (simp add: atLeast0LessThan)
  moreover have "mset (get_var_objs_rpc stores v n r (-1)) = (\<Sum>x\<in>{0..<n}. mset (ls_find_all_no_version (stores x) v))"
    unfolding get_var_objs_rpc_def sum_list_flood [OF assms, symmetric]
    by (rule ibcast_mset) (simp add: get_var_objs_handler_def mset_foldl_append)
  ultimately show ?thesis by blast
qed

theorem broadcast_collects_all_witness:
  "set (get_vars_rpc (\<lambda>x. (ls_alloc 2)\<lparr>var_dict := snd (ds_str_hash_add ds_str_hash_init [CHR ''a'' , char_of x])\<rparr>) 2 1 (-1)) =
     (\<Union>x<2. {[CHR ''a'', char_of (x::nat)]})"
proof -
  have "set (snd (ls_get_var_names ((ls_alloc 2)\<lparr>var_dict := snd (ds_str_hash_add ds_str_hash_init nm)\<rparr>))) = {nm}" for nm
    using sh.merged_names(1) [of "[[nm]]"] by (simp add: ls_get_var_names_def)
  with broadcast_collects_all [of 1 2 "\<lambda>x. (ls_alloc 2)\<lparr>var_dict := snd (ds_str_hash_add ds_str_hash_init [CHR ''a'' , char_of x])\<rparr>" "[]"]
  show ?thesis by simp
qed

text \<open>
  C35: a registration sent by a client to one of several servers is never answered: the request is
  forwarded with its source still -1, so every server takes it for a client's, gives it a new
  identifier and forwards it to all its neighbours again, the sender included. A single server
  answers.
\<close>

theorem reg_rpc_never_answers:
  "r < n \<Longrightarrow> 2 \<le> n \<Longrightarrow> rg_src rin = -1 \<Longrightarrow> reg_rpc fuel n route ids r rin = None"
proof (induction fuel arbitrary: ids r rin)
  case (Suc fuel)
  let ?rin = "rin\<lparr>rg_id := ids r + push_bit 40 (of_nat r)\<rparr>"
  have none: "reg_rpc fuel n route i t ?rin = None" if "t < n" for i t using Suc.IH [of t ?rin i] that Suc.prems by simp
  show ?case
  proof (cases "r = 0")
    case True
    then have "ibcast_rpc_start n r (-1) = Some [None, Some 1, if 2 < n then Some 2 else None]"
      using Suc.prems by (simp add: ibcast_rpc_start_def Let_def)
    then show ?thesis using none [of 1] Suc.prems by simp
  next
    case False
    then have "\<exists>x y. ibcast_rpc_start n r (-1) = Some [Some ((r - 1) div 2), x, y]"
      using Suc.prems by (simp add: ibcast_rpc_start_def Let_def)
    then show ?thesis using none [of "(r - 1) div 2"] Suc.prems by auto
  qed
qed simp

theorem reg_rpc_never_answers_witness:
  "reg_rpc 5 2 (\<lambda>r rin. Inr (rg_id rin)) (\<lambda>_. 0) 0 \<lparr>rg_src = -1, rg_id = 0\<rparr> = None"
  by (rule reg_rpc_never_answers) simp_all

lemma reg_rpc_single:
  "reg_rpc (Suc fuel) 1 (\<lambda>r rin. Inr (rg_id rin)) ids 0 \<lparr>rg_src = -1, rg_id = 0\<rparr> = Some (ids 0, ids(0 := ids 0 + 1))"
  by (simp add: ibcast_rpc_start_def)

end
