(* ===== verification/Modules.thy ===== *)
theory Modules
  imports Wire Ops Bcast
begin

text \<open>
  Modules (\<^verbatim>\<open>dspaces-modules.c\<close>) and the handlers that run them: the list of modules, the arguments of a
  call, the conversion of what a Python function returns, the name and version a query is filed under, and
  \<^verbatim>\<open>get_mod_rpc\<close>. Python itself is a parameter. \<open>None\<close> stands for undefined behaviour.
\<close>

section \<open>The modules\<close>

record dspaces_module =
  dm_name :: string
  dm_namespace :: "string option"
  dm_file :: "string option"
  dm_type :: int
  dm_loaded :: bool

definition DSPACES_MOD_PY :: int where "DSPACES_MOD_PY = 0"

definition dspaces_init_py_mod :: "(string \<Rightarrow> bool) \<Rightarrow> dspaces_module \<Rightarrow> int \<times> dspaces_module" where
  "dspaces_init_py_mod py_import m =
     (case dm_file m of
        None \<Rightarrow> (-1, m)
      | Some f \<Rightarrow> if py_import f then (0, m\<lparr>dm_loaded := True\<rparr>) else (-1, m\<lparr>dm_loaded := False\<rparr>))"

definition add_builtin_mods :: "dspaces_module list \<Rightarrow> dspaces_module list" where
  "add_builtin_mods mods =
     \<lparr>dm_name = ''ds_reg'', dm_namespace = Some ''ds_reg'', dm_file = Some ''ds_reg'', dm_type = DSPACES_MOD_PY, dm_loaded = False\<rparr> # mods"

definition dspaces_init_mods :: "(string \<Rightarrow> bool) \<Rightarrow> dspaces_module list \<Rightarrow> dspaces_module list" where
  "dspaces_init_mods py_import mods =
     map (\<lambda>m. if dm_type m = DSPACES_MOD_PY then snd (dspaces_init_py_mod py_import m) else m) (add_builtin_mods mods)"

text \<open>\<^verbatim>\<open>strstr\<close>: the place of the first occurrence.\<close>

fun strstr :: "string \<Rightarrow> string \<Rightarrow> nat option" where
  "strstr [] n = (if n = [] then Some 0 else None)"
| "strstr (c # h) n = (if take (length n) (c # h) = n then Some 0 else map_option Suc (strstr h n))"

definition dspaces_mod_by_od :: "dspaces_module list \<Rightarrow> obj_descriptor \<Rightarrow> dspaces_module option" where
  "dspaces_mod_by_od mods odsc =
     find (\<lambda>m. case dm_namespace m of Some ns \<Rightarrow> strstr (od_name odsc) ns = Some 0 | None \<Rightarrow> False) mods"

definition dspaces_mod_by_name :: "dspaces_module list \<Rightarrow> string \<Rightarrow> dspaces_module option" where
  "dspaces_mod_by_name mods name = find (\<lambda>m. dm_name m = name) mods"

definition dspaces_module_names :: "dspaces_module list \<Rightarrow> string list" where
  "dspaces_module_names mods = map dm_name mods"

section \<open>Arguments\<close>

datatype arg_type = DSPACES_ARG_REAL | DSPACES_ARG_INT | DSPACES_ARG_BOOL | DSPACES_ARG_STR | DSPACES_ARG_JSON | DSPACES_ARG_NONE

text \<open>The union of an argument. \<open>len\<close> is uninitialised for some arguments without a value: \<open>None\<close>.\<close>

datatype arg_val = U_Real double | U_Int int | U_Ints "int list" | U_Str string | U_Unset

record dspaces_module_args =
  ma_name :: string
  ma_type :: arg_type
  ma_len :: "int option"
  ma_val :: arg_val

definition scalar_arg :: "string \<Rightarrow> arg_type \<Rightarrow> arg_val \<Rightarrow> dspaces_module_args" where
  "scalar_arg nme ty v = \<lparr>ma_name = nme, ma_type = ty, ma_len = Some (-1), ma_val = v\<rparr>"

definition str_arg :: "string \<Rightarrow> arg_type \<Rightarrow> string \<Rightarrow> dspaces_module_args" where
  "str_arg nme ty s = \<lparr>ma_name = nme, ma_type = ty, ma_len = Some (int (length s) + 1), ma_val = U_Str s\<rparr>"

definition build_module_arg_from_rank :: "int \<Rightarrow> dspaces_module_args" where
  "build_module_arg_from_rank rk = scalar_arg ''rank'' DSPACES_ARG_INT (U_Int rk)"

definition build_module_args_from_reg :: "string \<Rightarrow> string \<Rightarrow> string \<Rightarrow> reg_in \<Rightarrow> dspaces_module_args list" where
  "build_module_args_from_reg type nme reg_data reg =
     [str_arg ''type'' DSPACES_ARG_STR type, str_arg ''name'' DSPACES_ARG_STR nme, str_arg ''data'' DSPACES_ARG_STR reg_data,
      scalar_arg ''id'' DSPACES_ARG_INT (U_Int (sint (rg_id reg)))]"

text \<open>
  The machine's reading of memory: an integer from its bytes, least significant first, a \<^verbatim>\<open>float\<close> as a
  double, the conversion of a double to \<^verbatim>\<open>long\<close>.
\<close>

definition le_val :: "byte list \<Rightarrow> int" where
  "le_val bs = foldr (\<lambda>b v. uint b + 256 * v) bs 0"

definition mem_uint :: "nat \<Rightarrow> dict_val \<Rightarrow> int option" where
  "mem_uint n v = (case v of DMem bs \<Rightarrow> if n \<le> length bs then Some (le_val (take n bs)) else None | DStr _ \<Rightarrow> None)"

definition mem_int :: "nat \<Rightarrow> dict_val \<Rightarrow> int option" where
  "mem_int n v = map_option (\<lambda>u. if u < 2 ^ (8 * n - 1) then u else u - 2 ^ (8 * n)) (mem_uint n v)"

text \<open>\<^verbatim>\<open>DSP_DOUBLE\<close> stores the value converted to \<^verbatim>\<open>long\<close> in the union, with the type of a real.\<close>

definition arg_from_entry :: "fpu \<Rightarrow> (byte list \<Rightarrow> double) \<Rightarrow> dict_entry \<Rightarrow> dspaces_module_args option" where
  "arg_from_entry F of_float e =
     (let ty = de_type e; v = de_val e; arg = scalar_arg (de_key e) in
      if ty = DSP_FLOAT then (case v of DMem bs \<Rightarrow> if 4 \<le> length bs then Some (arg DSPACES_ARG_REAL (U_Real (of_float (take 4 bs)))) else None | _ \<Rightarrow> None)
      else if ty = DSP_INT then map_option (\<lambda>i. arg DSPACES_ARG_INT (U_Int i)) (mem_int 4 v)
      else if ty = DSP_LONG then map_option (\<lambda>i. arg DSPACES_ARG_INT (U_Int i)) (mem_int 8 v)
      else if ty = DSP_DOUBLE then
        (case v of DMem bs \<Rightarrow> if 8 \<le> length bs then map_option (\<lambda>i. arg DSPACES_ARG_REAL (U_Int i)) (fp_to_long F (take 8 bs)) else None | _ \<Rightarrow> None)
      else if ty = DSP_BOOL then map_option (\<lambda>i. arg DSPACES_ARG_BOOL (U_Int i)) (mem_uint 1 v)
      else if ty = DSP_STR then (case v of DStr s \<Rightarrow> Some (str_arg (de_key e) DSPACES_ARG_STR s) | _ \<Rightarrow> None)
      else if ty = DSP_JSON then (case v of DStr s \<Rightarrow> Some (str_arg (de_key e) DSPACES_ARG_JSON s) | _ \<Rightarrow> None)
      else Some (arg DSPACES_ARG_NONE U_Unset))"

definition build_module_args_from_dict :: "fpu \<Rightarrow> (byte list \<Rightarrow> double) \<Rightarrow> dict_entry list \<Rightarrow> dspaces_module_args list option" where
  "build_module_args_from_dict F of_float es = those (map (arg_from_entry F of_float) es)"

definition coord_arg :: "string \<Rightarrow> storage_type \<Rightarrow> nat \<Rightarrow> coord \<Rightarrow> dspaces_module_args" where
  "coord_arg nme st n c =
     (if 0 < n
      then \<lparr>ma_name = nme, ma_type = DSPACES_ARG_INT, ma_len = Some (int n),
            ma_val = U_Ints (fold (\<lambda>i a. if st = row_major then a[i := sint (c ! i)] else a[n - i - 1 := sint (c ! i)]) [0..<n] (replicate n 0))\<rparr>
      else \<lparr>ma_name = nme, ma_type = DSPACES_ARG_NONE, ma_len = None, ma_val = U_Unset\<rparr>)"

definition build_module_args_from_odsc :: "obj_descriptor \<Rightarrow> dspaces_module_args list" where
  "build_module_args_from_odsc odsc =
     [str_arg ''name'' DSPACES_ARG_STR (od_name odsc), scalar_arg ''version'' DSPACES_ARG_INT (U_Int (uint (od_version odsc))),
      coord_arg ''lb'' (od_st odsc) (ndims (od_bb odsc)) (lb (od_bb odsc)), coord_arg ''ub'' (od_st odsc) (ndims (od_bb odsc)) (ub (od_bb odsc))]"

section \<open>Calling Python\<close>

record nd_array =
  na_c_contiguous :: bool
  na_f_contiguous :: bool
  na_dims :: "nat list"
  na_type :: int
  na_itemsize :: int
  na_data :: "byte list"

datatype py_obj = Py_Float double | Py_Long int | Py_Bool bool | Py_Unicode string | Py_Json string | Py_None | Py_Tuple "py_obj list"
  | Py_Array nd_array | Py_Null

text \<open>
  \<open>long_rep\<close> is the object representation of a \<^verbatim>\<open>long\<close>, which is what a real argument holds after \<^verbatim>\<open>ival\<close> has been
  stored in the union; \<open>json\<close> is \<^verbatim>\<open>json.loads\<close>, \<open>Py_Null\<close> its failure.
\<close>

definition py_obj_from_arg :: "(int \<Rightarrow> double) \<Rightarrow> (string \<Rightarrow> py_obj) \<Rightarrow> dspaces_module_args \<Rightarrow> py_obj option" where
  "py_obj_from_arg long_rep json arg =
     (case ma_type arg of
        DSPACES_ARG_REAL \<Rightarrow>
          if ma_len arg = Some (-1)
          then (case ma_val arg of U_Real d \<Rightarrow> Some (Py_Float d) | U_Int i \<Rightarrow> Some (Py_Float (long_rep i)) | _ \<Rightarrow> None) else None
      | DSPACES_ARG_INT \<Rightarrow>
          (case ma_val arg of
             U_Int i \<Rightarrow> if ma_len arg = Some (-1) then Some (Py_Long i) else None
           | U_Ints is \<Rightarrow> if ma_len arg = Some (int (length is)) then Some (Py_Tuple (map Py_Long is)) else None
           | _ \<Rightarrow> None)
      | DSPACES_ARG_BOOL \<Rightarrow>
          (case ma_val arg of U_Int i \<Rightarrow> if ma_len arg = Some (-1) then Some (Py_Bool (i \<noteq> 0)) else None | _ \<Rightarrow> None)
      | DSPACES_ARG_STR \<Rightarrow> (case ma_val arg of U_Str s \<Rightarrow> Some (Py_Unicode s) | _ \<Rightarrow> None)
      | DSPACES_ARG_JSON \<Rightarrow> (case ma_val arg of U_Str s \<Rightarrow> Some (json s) | _ \<Rightarrow> None)
      | DSPACES_ARG_NONE \<Rightarrow> Some Py_None)"

text \<open>
  A module returns nothing, an array, an integer or an error; the caller says which kind it expects.
\<close>

datatype ret_type = DSPACES_MOD_RET_ARRAY | DSPACES_MOD_RET_INT | DSPACES_MOD_RET_NONE | DSPACES_MOD_RET_ERR

datatype module_ret = Ret_Null | Ret_Err int | Ret_Array mod_ret | Ret_Int int

text \<open>
  \<^verbatim>\<open>py_res_buf\<close>. \<^verbatim>\<open>malloc(sizeof(*ret->dim * ret->ndim))\<close> allocates one element: the sizes of an array of two or
  more dimensions are written past its end. The number of elements is cut to an \<^verbatim>\<open>int\<close>, and the number of
  bytes is computed as one.
\<close>

definition py_res_buf :: "nd_array \<Rightarrow> module_ret option" where
  "py_res_buf a =
     (if \<not> na_c_contiguous a \<and> \<not> na_f_contiguous a then Some Ret_Null
      else let n = length (na_dims a); len = sint (of_nat (prod_list (na_dims a)) :: u32); data_len = len * na_itemsize a
           in if 1 < n \<or> data_len < 0 \<or> 2147483648 \<le> data_len \<or> int (length (na_data a)) < data_len then None
              else Some (Ret_Array \<lparr>mr_elem_size = of_int (na_itemsize a), mr_ndim = int n, mr_dim = map of_nat (na_dims a),
                     mr_len = of_int len, mr_tag = na_type a, mr_data = take (nat data_len) (na_data a)\<rparr>))"

text \<open>The result of a call of a Python function: an exception or an object.\<close>

datatype py_res = Raised | Returned py_obj

definition DS_MOD_EFAULT :: int where "DS_MOD_EFAULT = -1"
definition DS_MOD_ENODEF :: int where "DS_MOD_ENODEF = -2"
definition DS_MOD_ENOMOD :: int where "DS_MOD_ENOMOD = -3"
definition DS_MOD_ENOSYS :: int where "DS_MOD_ENOSYS = -4"
definition DS_MOD_ECLIENT :: int where "DS_MOD_ECLIENT = -6"

record py_env =
  pe_has :: "string \<Rightarrow> string \<Rightarrow> bool"
  pe_call :: "string \<Rightarrow> string \<Rightarrow> (string \<times> py_obj) list \<Rightarrow> py_res"
  pe_json :: "string \<Rightarrow> py_obj"
  pe_as_long :: "py_obj \<Rightarrow> int"
  pe_long_rep :: "int \<Rightarrow> double"
  pe_float :: "byte list \<Rightarrow> double"
  pe_fpu :: fpu

definition py_res_to_ret :: "py_env \<Rightarrow> py_obj \<Rightarrow> ret_type \<Rightarrow> module_ret option" where
  "py_res_to_ret P res ty =
     (case res of
        Py_None \<Rightarrow> Some Ret_Null
      | _ \<Rightarrow> (case ty of
           DSPACES_MOD_RET_ARRAY \<Rightarrow> (case res of Py_Array a \<Rightarrow> py_res_buf a | _ \<Rightarrow> None)
         | DSPACES_MOD_RET_INT \<Rightarrow> Some (Ret_Int (pe_as_long P res))
         | _ \<Rightarrow> Some Ret_Null))"

text \<open>
  A call of a function of a module: the result, and whether the lock of the interpreter is released. The
  two early returns keep it. A null argument is dereferenced.
\<close>

definition dspaces_module_py_exec :: "py_env \<Rightarrow> dspaces_module \<Rightarrow> string \<Rightarrow> dspaces_module_args list \<Rightarrow> ret_type \<Rightarrow>
    (module_ret \<times> bool) option" where
  "dspaces_module_py_exec P m operation args ty =
     (if \<not> dm_loaded m then Some (Ret_Err DS_MOD_ENOMOD, False)
      else if \<not> pe_has P (dm_name m) operation then Some (Ret_Err DS_MOD_ENODEF, False)
      else
        Option.bind (those (map (\<lambda>a. map_option (Pair (ma_name a)) (py_obj_from_arg (pe_long_rep P) (pe_json P) a)) args)) (\<lambda>kwargs.
          if list_ex (\<lambda>(_, v). case v of Py_Null \<Rightarrow> True | _ \<Rightarrow> False) kwargs then None
          else case pe_call P (dm_name m) operation kwargs of
            Raised \<Rightarrow> Some (Ret_Err DS_MOD_EFAULT, True)
          | Returned res \<Rightarrow> map_option (\<lambda>r. (r, True)) (py_res_to_ret P res ty)))"

definition dspaces_module_exec :: "py_env \<Rightarrow> dspaces_module \<Rightarrow> string \<Rightarrow> dspaces_module_args list \<Rightarrow> ret_type \<Rightarrow>
    (module_ret \<times> bool) option" where
  "dspaces_module_exec P m operation args ty =
     (if dm_type m = DSPACES_MOD_PY then dspaces_module_py_exec P m operation args ty
      else Some (Ret_Err DS_MOD_ENOSYS, True))"

definition odsc_from_ret :: "mod_ret \<Rightarrow> string \<Rightarrow> u32 \<Rightarrow> obj_descriptor" where
  "odsc_from_ret r nme ver =
     (let odsc = zero_odsc\<lparr>od_size := mr_elem_size r, od_bb := (od_bb zero_odsc)\<lparr>num_dims := mr_ndim r\<rparr>\<rparr>
      in (obj_data_resize odsc (mr_dim r))\<lparr>od_tag := mr_tag r, od_name := nme, od_version := ver\<rparr>)"

text \<open>The module part of \<^verbatim>\<open>route_request\<close>: what a query of a descriptor gives.\<close>

definition mod_query :: "py_env \<Rightarrow> dspaces_module list \<Rightarrow> obj_descriptor \<Rightarrow> mod_res option" where
  "mod_query P mods odsc =
     (case dspaces_mod_by_od mods odsc of
        None \<Rightarrow> Some Mod_None
      | Some m \<Rightarrow> Option.bind (dspaces_module_exec P m ''query'' (build_module_args_from_odsc odsc) DSPACES_MOD_RET_ARRAY)
          (\<lambda>(res, _). case res of Ret_Null \<Rightarrow> Some Mod_None | Ret_Err e \<Rightarrow> Some (Mod_Err e) | Ret_Array r \<Rightarrow> Some (Mod_Ret r) | Ret_Int _ \<Rightarrow> None))"

section \<open>The registry\<close>

text \<open>
  \<^verbatim>\<open>dspaces_init_registry\<close> (an error, or the first registration number) and \<^verbatim>\<open>route_registration\<close> (an error, or
  the number the registry module chose). A module without a file has no name to copy.
\<close>

definition dspaces_init_registry :: "py_env \<Rightarrow> dspaces_module list \<Rightarrow> int \<Rightarrow> (int + int) option" where
  "dspaces_init_registry P mods rk =
     (case dspaces_mod_by_name mods ''ds_reg'' of
        None \<Rightarrow> Some (Inl (-1))
      | Some m \<Rightarrow> map_option (\<lambda>(res, _). case res of Ret_Err e \<Rightarrow> Inl e | Ret_Int i \<Rightarrow> Inr i | _ \<Rightarrow> Inr 0)
          (dspaces_module_exec P m ''bootstrap_id'' [build_module_arg_from_rank rk] DSPACES_MOD_RET_INT))"

definition route_registration :: "py_env \<Rightarrow> dspaces_module list \<Rightarrow> string \<Rightarrow> string \<Rightarrow> string \<Rightarrow> reg_in \<Rightarrow> (int + u64) option" where
  "route_registration P mods type nme reg_data reg =
     (case dspaces_mod_by_name mods type of
        None \<Rightarrow> Some (Inl DS_MOD_ENOMOD)
      | Some m \<Rightarrow> Option.bind (dm_file m) (\<lambda>type.
          case dspaces_mod_by_name mods ''ds_reg'' of
            None \<Rightarrow> Some (Inl DS_MOD_EFAULT)
          | Some reg_mod \<Rightarrow>
              map_option (\<lambda>(res, _). case res of
                  Ret_Null \<Rightarrow> Inl DS_MOD_EFAULT
                | Ret_Err e \<Rightarrow> Inl e
                | Ret_Int i \<Rightarrow> Inr (if i \<noteq> sint (rg_id reg) then of_int i else rg_id reg)
                | Ret_Array _ \<Rightarrow> Inr (rg_id reg))
                (dspaces_module_exec P reg_mod ''register'' (build_module_args_from_reg type nme reg_data reg) DSPACES_MOD_RET_INT)))"

definition get_mods_rpc :: "dspaces_module list \<Rightarrow> prim list" where
  "get_mods_rpc mods = encode_name_list (dspaces_module_names mods)"

section \<open>Name and version of a module query\<close>

definition HASH_MOD :: int where "HASH_MOD = 1000000007"

definition c_mod :: "int \<Rightarrow> int \<Rightarrow> int" where
  "c_mod a b = a - b * c_div a b"

definition as_int :: "int \<Rightarrow> int option" where
  "as_int v = (if - 2147483648 \<le> v \<and> v < 2147483648 then Some v else None)"

definition char_val :: "char \<Rightarrow> int" where
  "char_val c = (let v = int (of_char c :: nat) in if v < 128 then v else v - 256)"

text \<open>The product of the characters is computed in an \<^verbatim>\<open>int\<close>.\<close>

fun str_hash :: "int \<Rightarrow> string \<Rightarrow> int option" where
  "str_hash hval [] = Some hval"
| "str_hash hval (c # cs) = Option.bind (as_int (hval * char_val c)) (\<lambda>v. str_hash (c_mod v HASH_MOD) cs)"

definition param_hash :: "int \<Rightarrow> dict_val \<Rightarrow> int option" where
  "param_hash ty v =
     (case val_class ty of
        Bytes n \<Rightarrow>
          if n = 8 then map_option (\<lambda>u. u mod HASH_MOD) (mem_uint 8 v)
          else if n = 4 then mem_int 4 v else mem_uint n v
      | Text \<Rightarrow> (case v of DStr s \<Rightarrow> str_hash 1 s | DMem _ \<Rightarrow> None)
      | Unknown \<Rightarrow> None)"

definition params_hash :: "dict_entry list \<Rightarrow> u32 option" where
  "params_hash es =
     map_option of_int (fold (\<lambda>e h. Option.bind h (\<lambda>hval. map_option (\<lambda>p. c_mod (hval * p) HASH_MOD) (param_hash (de_type e) (de_val e)))) es (Some 1))"

function hex_digits :: "nat \<Rightarrow> string" where
  "hex_digits n = (if n < 16 then [''0123456789abcdef'' ! n] else hex_digits (n div 16) @ [''0123456789abcdef'' ! (n mod 16)])"
  by auto
termination by (relation "measure id") auto

declare hex_digits.simps [simp del]

text \<open>The format \<^verbatim>\<open>%x.4\<close> prints the digits, a point and a 4.\<close>

definition write_at :: "nat \<Rightarrow> string \<Rightarrow> string \<Rightarrow> string" where
  "write_at k s buf = take k buf @ s @ [NUL] @ drop (k + length s + 1) buf"

fun param_name_loop :: "dict_entry list \<Rightarrow> nat \<Rightarrow> string \<Rightarrow> string option" where
  "param_name_loop [] start buf = Some buf"
| "param_name_loop (e # es) start buf =
     Option.bind (param_hash (de_type e) (de_val e)) (\<lambda>hval.
       let buf = write_at start (hex_digits (unat (of_int hval :: u32)) @ ''.4'') buf; start = start + 8
       in param_name_loop es (if 136 \<le> start then 0 else start) buf)"

definition write_param_name :: "dict_entry list \<Rightarrow> string \<Rightarrow> string option" where
  "write_param_name es buf = param_name_loop es 0 buf"

text \<open>The name is copied with 149 bytes, however long the string is.\<close>

fun version_name_loop :: "dict_entry list \<Rightarrow> u32 option \<Rightarrow> string option \<Rightarrow> (u32 option \<times> string option) option" where
  "version_name_loop [] ver nme = Some (ver, nme)"
| "version_name_loop (e # es) ver nme =
     Option.bind (if de_type e = DSP_STR \<and> de_key e = ''name''
                  then (case de_val e of
                          DStr s \<Rightarrow> if 149 \<le> length s + 1 then Some (Some (take 149 (s @ [NUL]))) else None
                        | DMem _ \<Rightarrow> None)
                  else Some nme) (\<lambda>nme.
     Option.bind (if de_type e = DSP_UINT \<and> de_key e = ''version'' then map_option (Some \<circ> of_int) (mem_uint 4 (de_val e))
                  else Some ver) (\<lambda>ver.
       version_name_loop es ver nme))"

definition get_version_name :: "dict_entry list \<Rightarrow> (u32 \<times> string) option" where
  "get_version_name es =
     Option.bind (version_name_loop es None None) (\<lambda>(ver, nme).
     Option.bind (case ver of Some v \<Rightarrow> Some v | None \<Rightarrow> params_hash es) (\<lambda>version.
     Option.bind (case nme of Some n \<Rightarrow> Some (n @ [NUL]) | None \<Rightarrow> write_param_name es (replicate OD_MAX_NAME_LEN NUL)) (\<lambda>buf.
       Some (version, c_string buf))))"

section \<open>The handler\<close>

text \<open>\<^verbatim>\<open>get_mod_rpc\<close>: the answer is a return code and the descriptor of the stored result. A module that returns nothing is dereferenced.\<close>

definition get_mod_rpc :: "py_env \<Rightarrow> sv_env \<Rightarrow> (nat \<Rightarrow> int) \<Rightarrow> dspaces_module list \<Rightarrow> server \<Rightarrow> string \<Rightarrow> dict_entry list \<Rightarrow>
    (int \<times> obj_descriptor option \<times> server \<times> msgs) option" where
  "get_mod_rpc P env hret mods sv nme params =
     (case dspaces_mod_by_name mods nme of
        None \<Rightarrow> Some (DS_MOD_ENOMOD, None, sv, [])
      | Some m \<Rightarrow>
          Option.bind (build_module_args_from_dict (pe_fpu P) (pe_float P) params) (\<lambda>args.
          Option.bind (dspaces_module_exec P m ''pquery'' args DSPACES_MOD_RET_ARRAY) (\<lambda>(res, _).
            case res of
              Ret_Err _ \<Rightarrow> Some (DS_MOD_EFAULT, None, sv, [])
            | Ret_Null \<Rightarrow> None
            | Ret_Int _ \<Rightarrow> None
            | Ret_Array r \<Rightarrow>
                Option.bind (get_version_name params) (\<lambda>(version, name).
                Option.bind (odsc_take_ownership sv (odsc_from_ret r name version)) (\<lambda>odsc.
                  let od = obj_data_alloc_no_data odsc (Some (mr_data r))
                  in map_option (\<lambda>(_, sv, out). (0, Some odsc, sv, out)) (obj_update_dht env hret (sv_store sv od) od DS_OBJ_NEW))))))"

section \<open>Finding a module\<close>

lemma strstr_prefix: "strstr h n = Some 0 \<longleftrightarrow> take (length n) h = n"
  by (cases h) auto

text \<open>The first module whose namespace is a prefix of the name; no separator is required behind it.\<close>

definition in_namespace :: "obj_descriptor \<Rightarrow> dspaces_module \<Rightarrow> bool" where
  "in_namespace odsc m \<longleftrightarrow> (\<exists>ns. dm_namespace m = Some ns \<and> take (length ns) (od_name odsc) = ns)"

lemma mod_by_od_prefix:
  "dspaces_mod_by_od mods odsc = Some m \<longleftrightarrow>
     (\<exists>i<length mods. in_namespace odsc (mods ! i) \<and> m = mods ! i \<and> (\<forall>j<i. \<not> in_namespace odsc (mods ! j)))"
proof -
  have "(\<lambda>m. case dm_namespace m of Some ns \<Rightarrow> strstr (od_name odsc) ns = Some 0 | None \<Rightarrow> False) = in_namespace odsc"
    by (rule ext) (simp add: in_namespace_def strstr_prefix split: option.splits)
  then show ?thesis by (simp add: dspaces_mod_by_od_def find_Some_iff)
qed

text \<open>The bounds are passed in the order of the descriptor, or reversed for column-major ones.\<close>

lemma coord_arg_order:
  assumes "0 < n" "n \<le> length c"
  shows "ma_val (coord_arg nme st n c) = U_Ints (let xs = map sint (take n c) in if st = row_major then xs else rev xs)"
proof -
  have row: "fold (\<lambda>i a. a[i := sint (c ! i)]) [0..<k] (replicate n (0 :: int)) = map sint (take k c) @ replicate (n - k) 0" if "k \<le> n" for k
    using that
  proof (induction k)
    case (Suc k)
    then have "k < length c" using assms(2) by simp
    with Suc show ?case by (simp add: take_Suc_conv_app_nth list_update_append Suc_diff_Suc [symmetric])
  qed simp
  have col: "fold (\<lambda>i a. a[n - i - 1 := sint (c ! i)]) [0..<k] (replicate n (0 :: int)) = replicate (n - k) 0 @ rev (map sint (take k c))" if "k \<le> n" for k
    using that
  proof (induction k)
    case (Suc k)
    then have k: "k < length c" "k < n" using assms(2) by simp_all
    have "(replicate (n - k) (0 :: int) @ xs)[n - k - 1 := v] = replicate (n - Suc k) 0 @ v # xs" for xs v
    proof -
      have last: "(replicate (Suc m) (0 :: int))[m := v] = replicate m 0 @ [v]" for m by (induction m) auto
      obtain m where "n - k = Suc m" "n - Suc k = m" using k by (metis Suc_diff_Suc)
      then show ?thesis using last [of m] by (simp add: list_update_append del: replicate.simps)
    qed
    with Suc k show ?case by (simp add: take_Suc_conv_app_nth)
  qed simp
  show ?thesis using assms row [of n] col [of n] by (simp add: coord_arg_def Let_def)
qed

section \<open>Filing of results\<close>

lemma write_at_head: "8 \<le> k \<Longrightarrow> 8 \<le> length buf \<Longrightarrow> take 8 (write_at k s buf) = take 8 buf"
  by (simp add: write_at_def min_def)

lemma name_loop_head:
  assumes "list_all (\<lambda>e. param_hash (de_type e) (de_val e) \<noteq> None) es" "8 \<le> start" "start + 8 * length es \<le> 136" "8 \<le> length buf"
  shows "\<exists>buf'. param_name_loop es start buf = Some buf' \<and> take 8 buf' = take 8 buf"
  using assms
proof (induction es arbitrary: start buf)
  case (Cons e es)
  then obtain hval where h: "param_hash (de_type e) (de_val e) = Some hval" by auto
  let ?buf = "write_at start (hex_digits (unat (of_int hval :: u32)) @ ''.4'') buf"
  have "8 \<le> length ?buf" using Cons.prems by (simp add: write_at_def)
  moreover have "take 8 ?buf = take 8 buf" using Cons.prems by (intro write_at_head) simp_all
  moreover have "es = [] \<or> \<not> 136 \<le> start + 8" using Cons.prems by (cases es) simp_all
  moreover have "list_all (\<lambda>e. param_hash (de_type e) (de_val e) \<noteq> None) es" using Cons.prems(1) by simp
  ultimately show ?case using Cons.IH [of "start + 8" ?buf] Cons.prems h by (cases "es = []") (auto simp: Let_def simp del: not_None_eq)
qed simp

lemma hash_zero:
  "list_all (\<lambda>e. param_hash (de_type e) (de_val e) \<noteq> None) es \<Longrightarrow>
   fold (\<lambda>e h. Option.bind h (\<lambda>hval. map_option (\<lambda>p. c_mod (hval * p) HASH_MOD) (param_hash (de_type e) (de_val e)))) es (Some 0) = Some 0"
  by (induction es) (auto simp: c_mod_def c_div_def)

definition plain_param :: "dict_entry \<Rightarrow> bool" where
  "plain_param e \<longleftrightarrow> \<not> (de_type e = DSP_STR \<and> de_key e = ''name'') \<and> \<not> (de_type e = DSP_UINT \<and> de_key e = ''version'') \<and>
     param_hash (de_type e) (de_val e) \<noteq> None"

lemma plain_loop: "list_all plain_param es \<Longrightarrow> version_name_loop es ver nme = Some (ver, nme)"
  by (induction es) (auto simp: plain_param_def)

text \<open>
  C37: results of different module queries are filed under the same name and version. Whenever the first
  parameter hashes to zero - the number 0, \<open>False\<close> - the version is 0 and the name is \<open>0.4\<close>, whatever the
  other parameters (up to sixteen more) are, so that one result replaces the other in the store.
\<close>

theorem mod_results_collide:
  assumes "plain_param e" "param_hash (de_type e) (de_val e) = Some 0" "list_all plain_param es" "length es \<le> 16"
  shows "get_version_name (e # es) = Some (0, ''0.4'')"
proof -
  have hashes: "list_all (\<lambda>e. param_hash (de_type e) (de_val e) \<noteq> None) es" using assms(3) by (auto simp: list_all_iff plain_param_def)
  have ver: "params_hash (e # es) = Some 0" using hash_zero [OF hashes] assms(2) by (simp add: params_hash_def c_mod_def c_div_def)
  obtain buf where buf: "write_param_name (e # es) (replicate OD_MAX_NAME_LEN NUL) = Some buf"
    "take 8 buf = take 8 (write_at 0 ''0.4'' (replicate OD_MAX_NAME_LEN NUL))"
  proof -
    have "hex_digits 0 = ''0''" by (simp add: hex_digits.simps)
    then show ?thesis
      using name_loop_head [OF hashes, of 8 "write_at 0 ''0.4'' (replicate OD_MAX_NAME_LEN NUL)"] assms(2,4) that
      by (auto simp: write_param_name_def Let_def OD_MAX_NAME_LEN_def write_at_def)
  qed
  have "take 8 buf = ''0.4'' @ [NUL, NUL, NUL, NUL, NUL]" unfolding buf(2) by code_simp
  then have "buf = ''0.4'' @ [NUL, NUL, NUL, NUL, NUL] @ drop 8 buf" by (metis append_assoc append_take_drop_id)
  moreover have "c_string (''0.4'' @ [NUL, NUL, NUL, NUL, NUL] @ r) = ''0.4''" for r by (simp add: c_string_def)
  ultimately have "c_string buf = ''0.4''" by metis
  moreover have "version_name_loop (e # es) None None = Some (None, None)" using assms(1,3) by (intro plain_loop) simp
  ultimately show ?thesis using buf(1) ver by (simp add: get_version_name_def)
qed


theorem mod_results_collide_witness:
  "get_version_name [\<lparr>de_type = DSP_INT, de_key = ''day'', de_val = DMem [0, 0, 0, 0]\<rparr>, \<lparr>de_type = DSP_INT, de_key = ''year'', de_val = DMem [228, 7, 0, 0]\<rparr>] =
     Some (0, ''0.4'') \<and>
   get_version_name [\<lparr>de_type = DSP_INT, de_key = ''day'', de_val = DMem [0, 0, 0, 0]\<rparr>, \<lparr>de_type = DSP_INT, de_key = ''year'', de_val = DMem [229, 7, 0, 0]\<rparr>] =
     Some (0, ''0.4'')"
proof -
  have plain: "plain_param \<lparr>de_type = DSP_INT, de_key = k, de_val = DMem [b, c, 0, 0]\<rparr>" for k b c
    by (simp add: plain_param_def param_hash_def val_class_def mem_int_def mem_uint_def dsp_codes)
  have zero: "param_hash DSP_INT (DMem [0, 0, 0, 0]) = Some 0"
    by (simp add: param_hash_def val_class_def mem_int_def mem_uint_def le_val_def dsp_codes)
  show ?thesis
    by (intro conjI mod_results_collide) (simp_all add: plain zero)
qed

text \<open>A parameter \<^verbatim>\<open>name\<close> shorter than 148 characters is read past its end, and the hash of a string of five characters overflows.\<close>

lemma name_param_overreads:
  assumes "length s < 148" "list_all plain_param es"
  shows "get_version_name (es @ [\<lparr>de_type = DSP_STR, de_key = ''name'', de_val = DStr s\<rparr>]) = None"
proof -
  have "version_name_loop (es @ [\<lparr>de_type = DSP_STR, de_key = ''name'', de_val = DStr s\<rparr>]) ver nme = None" for ver nme
    using assms(2)
  proof (induction es arbitrary: ver nme)
    case Nil
    then show ?case using assms(1) by (simp add: dsp_codes)
  qed (auto simp: plain_param_def)
  then show ?thesis by (simp add: get_version_name_def)
qed

lemma str_hash_overflows: "param_hash DSP_STR (DStr ''zzzzz'') = None"
  by code_simp

lemma double_arg_converted:
  assumes "fp_to_long F d = Some i" "length d = 8"
  shows "map_option ma_val (arg_from_entry F of_float \<lparr>de_type = DSP_DOUBLE, de_key = k, de_val = DMem d\<rparr>) = Some (U_Int i)"
  using assms by (simp add: arg_from_entry_def Let_def dsp_codes scalar_arg_def)

lemma res_buf_overflows: "na_c_contiguous a \<Longrightarrow> 1 < length (na_dims a) \<Longrightarrow> py_res_buf a = None"
  by (simp add: py_res_buf_def Let_def)

lemma failed_module_keeps_lock:
  "dm_type m = DSPACES_MOD_PY \<Longrightarrow> \<not> dm_loaded m \<Longrightarrow> dspaces_module_exec P m operation args ty = Some (Ret_Err DS_MOD_ENOMOD, False)"
  by (simp add: dspaces_module_exec_def dspaces_module_py_exec_def)

section \<open>Results can be fetched\<close>

lemma update_local_ls:
  "obj_update_local_dht env sv sid odsc ty = Some sv' \<Longrightarrow> sv_ls sv' = sv_ls sv \<and> sv_remotes sv' = sv_remotes sv"
  by (auto simp: obj_update_local_dht_def split: if_splits bind_splits)

lemma update_loop_ls:
  "update_loop env hret sid og i rs sv out = Some (r, sv', out') \<Longrightarrow> sv_ls sv' = sv_ls sv \<and> sv_remotes sv' = sv_remotes sv"
  by (induction env hret sid og i rs sv out rule: update_loop.induct) (auto split: if_splits bind_splits dest!: update_local_ls)

lemma update_dht_ls:
  "obj_update_dht env hret sv od ty = Some (r, sv', out) \<Longrightarrow> sv_ls sv' = sv_ls sv \<and> sv_remotes sv' = sv_remotes sv"
  by (auto simp: obj_update_dht_def lookup_sspace_def hash_ranks_def Let_def split: if_splits bind_splits option.splits dest!: update_loop_ls update_local_ls)

text \<open>
  If \<^verbatim>\<open>get_mod_rpc\<close> answers with a descriptor, the local store finds an object under that descriptor whose data is
  exactly what the module returned and whose descriptor is the one that was answered, and the store is still
  consistent.
\<close>

lemma get_mod_stores:
  assumes "get_mod_rpc P env hret mods sv nme params = Some (0, Some odsc, sv', out)"
    and "ls_inv (sv_ls sv)" "od_heap (sv_ls sv) (sv_brk sv) = None" "nonempty_bbox (od_bb odsc)" "wf_bbox (od_bb odsc)"
  shows "\<exists>a. ls_find (sv_ls sv') odsc = Some a \<and> ls_inv (sv_ls sv') \<and> obj_desc (the_od (sv_ls sv') a) = odsc \<and> sv_remotes sv' = sv_remotes sv \<and>
    (\<exists>m args r b ver name owner. dspaces_mod_by_name mods nme = Some m \<and> build_module_args_from_dict (pe_fpu P) (pe_float P) params = Some args \<and>
       dspaces_module_exec P m ''pquery'' args DSPACES_MOD_RET_ARRAY = Some (Ret_Array r, b) \<and> data (the_od (sv_ls sv') a) = Some (mr_data r) \<and>
       odsc = (odsc_from_ret r name ver)\<lparr>od_owner := owner\<rparr>)"
proof -
  obtain m args r b ver name out' ret where g: "dspaces_mod_by_name mods nme = Some m"
    "build_module_args_from_dict (pe_fpu P) (pe_float P) params = Some args"
    "dspaces_module_exec P m ''pquery'' args DSPACES_MOD_RET_ARRAY = Some (Ret_Array r, b)"
    "odsc_take_ownership sv (odsc_from_ret r name ver) = Some odsc"
    "obj_update_dht env hret (sv_store sv (obj_data_alloc_no_data odsc (Some (mr_data r)))) (obj_data_alloc_no_data odsc (Some (mr_data r))) DS_OBJ_NEW = Some (ret, sv', out')"
    using assms(1) by (auto simp: get_mod_rpc_def Let_def split: option.splits bind_splits module_ret.splits prod.splits)
  let ?od = "obj_data_alloc_no_data odsc (Some (mr_data r))" and ?ls = "(sv_ls sv)\<lparr>od_heap := (od_heap (sv_ls sv))(sv_brk sv \<mapsto> obj_data_alloc_no_data odsc (Some (mr_data r)))\<rparr>"
  have desc: "obj_desc ?od = odsc" "data ?od = Some (mr_data r)" by (simp_all add: obj_data_alloc_no_data_def)
  have "obj_desc_equals_intersect odsc (obj_desc ?od)"
    using intersect_self [OF assms(5,4)] by (simp add: obj_desc_equals_intersect_def desc)
  moreover have "ls_inv ?ls" "sv_brk sv \<notin> set (stored ?ls)" using ls_inv_new_obj [OF assms(2,3)] by (auto simp: stored_def)
  ultimately have "ls_find (ls_add_obj ?ls (sv_brk sv)) odsc = Some (sv_brk sv)" "od_heap (ls_add_obj ?ls (sv_brk sv)) (sv_brk sv) = Some ?od"
    "ls_inv (ls_add_obj ?ls (sv_brk sv))"
    using ls_find_added [of ?ls "sv_brk sv" ?od odsc] by auto
  moreover have "sv_ls sv' = ls_add_obj ?ls (sv_brk sv)" using update_dht_ls [OF g(5)] by (simp add: sv_store_def Let_def)
  moreover have "sv_remotes sv' = sv_remotes sv" using update_dht_ls [OF g(5)] by (simp add: sv_store_def Let_def)
  moreover obtain owner where "odsc = (odsc_from_ret r name ver)\<lparr>od_owner := owner\<rparr>"
    using g(4) by (auto simp: odsc_take_ownership_def split: option.splits)
  ultimately show ?thesis using g(1-3) desc by (intro exI [of _ "sv_brk sv"]) (auto simp: the_od_def)
qed

end
