(* ===== verification/ClientMod.thy ===== *)
theory ClientMod
  imports Modules "HOL-Library.List_Lexorder" "HOL-Library.Char_ord"
begin

text \<open>
  The rest of the calls of a client (\<^verbatim>\<open>src/dspaces-client.c\<close>): queries of modules, metadata, registration, and the
  lists of variables, objects and modules. The module query and the metadata calls are proved end to end, against
  the handlers of the server.
\<close>

section \<open>Module queries\<close>

record dspaces_mod_param =
  mp_type :: int
  mp_key :: string
  mp_val :: dict_val

definition compare_params :: "dspaces_mod_param \<Rightarrow> dspaces_mod_param \<Rightarrow> int" where
  "compare_params p1 p2 = (if mp_key p1 < mp_key p2 then -1 else if mp_key p1 = mp_key p2 then 0 else 1)"

text \<open>\<^verbatim>\<open>qsort\<close> by key; parameters with the same key keep their order here, which the C library leaves open.\<close>

definition sort_params :: "dspaces_mod_param list \<Rightarrow> dspaces_mod_param list" where
  "sort_params ps = sort_key mp_key ps"

definition mod_dict :: "dspaces_mod_param list \<Rightarrow> dict_entry list" where
  "mod_dict ps = map (\<lambda>p. \<lparr>de_type = sint (of_int (mp_type p) :: 8 word), de_key = mp_key p, de_val = mp_val p\<rparr>) ps"

type_synonym get_mod_in = "string \<times> dict_entry list"
type_synonym get_mod_out = "obj_descriptor list \<times> int"

text \<open>
  The request is zeroed first; without a result it stays so (\<open>None\<close>). The number \<^verbatim>\<open>out.ret\<close> of the answer is not
  looked at.
\<close>

definition dspaces_get_module :: "(get_mod_in, get_mod_out, 'w) margo \<Rightarrow> 'w get_env \<Rightarrow> dspaces_client \<Rightarrow> string \<Rightarrow>
    dspaces_mod_param list \<Rightarrow> 'w \<Rightarrow> (int \<times> dspaces_req option \<times> 'w) option" where
  "dspaces_get_module m e c module ps w =
     Option.bind (get_server_address c) (\<lambda>addr.
       case rpc_call m addr (module, mod_dict (sort_params ps)) w of
         (None, w) \<Rightarrow> Some (DS_MOD_ECLIENT, None, w)
       | (Some ([], _), w) \<Rightarrow> Some (DS_MOD_EFAULT, None, w)
       | (Some (odsc0 # tab, _), w) \<Rightarrow>
           let elem_size = int_of_u64 (od_size odsc0); odsc = odsc0\<lparr>od_size := of_int elem_size\<rparr>
           in Option.bind (result_buf (ge_junk e) (count_elems (od_bb odsc)) elem_size) (\<lambda>d.
              Option.bind (get_data (ge_bbcom e) (ge_junk e) (ge_lz4 e) (ge_fetch e w) odsc (odsc0 # tab) d) (\<lambda>d.
              map_option (\<lambda>req. (0, Some req, w)) (fill_req c odsc (Some d)))))"

section \<open>Metadata\<close>

record query_meta_in_t =
  qi_name :: string
  qi_version :: int
  qi_mode :: "8 word"

text \<open>The version, the data and its length; an empty answer sets the data to null.\<close>

definition dspaces_get_meta :: "(query_meta_in_t, query_meta_out, 'w) margo \<Rightarrow> dspaces_client \<Rightarrow> string \<Rightarrow> int \<Rightarrow> int \<Rightarrow> 'w \<Rightarrow>
    (int \<times> (int \<times> byte list option \<times> u32) option \<times> 'w) option" where
  "dspaces_get_meta m c nme mode current w =
     map_option (\<lambda>addr.
       case rpc_call m addr \<lparr>qi_name = nme, qi_version = current, qi_mode = of_int mode\<rparr> w of
         (None, w) \<Rightarrow> (dspaces_ERR_MERCURY, None, w)
       | (Some out, w) \<Rightarrow>
           (dspaces_SUCCESS, Some (qm_version out, if qm_data out \<noteq> [] then Some (qm_data out) else None, of_nat (length (qm_data out))), w))
       (get_meta_server_address c)"

section \<open>Registration and lists\<close>

record reg_req =
  rr_type :: string
  rr_name :: string
  rr_data :: string
  rr_src :: int

text \<open>The handle, and the namespace if the caller asks for it.\<close>

definition dspaces_register_simple :: "(reg_req, u64, 'w) margo \<Rightarrow> dspaces_client \<Rightarrow> string \<Rightarrow> string \<Rightarrow> string \<Rightarrow> bool \<Rightarrow> 'w \<Rightarrow>
    (int \<times> string option \<times> 'w) option" where
  "dspaces_register_simple m c type nme reg_data want_ns w =
     map_option (\<lambda>addr.
       case rpc_call m addr \<lparr>rr_type = type, rr_name = nme, rr_data = reg_data, rr_src = -1\<rparr> w of
         (None, w) \<Rightarrow> (DS_MOD_ECLIENT, None, w)
       | (Some out, w) \<Rightarrow> (sint out, if want_ns \<and> \<not> sint out < 0 then Some ''ds_reg'' else None, w))
       (get_server_address c)"

definition dspaces_get_var_names :: "(int, string list, 'w) margo \<Rightarrow> dspaces_client \<Rightarrow> 'w \<Rightarrow> (int \<times> string list option \<times> 'w) option" where
  "dspaces_get_var_names m c w =
     map_option (\<lambda>addr. case rpc_call m addr (-1) w of
         (None, w) \<Rightarrow> (-1, None, w)
       | (Some names, w) \<Rightarrow> (int_of_u64 (of_nat (length names)), Some names, w)) (get_server_address c)"

record dspaces_obj =
  ob_name :: string
  ob_version :: int
  ob_ndim :: int
  ob_lb :: "u64 list"
  ob_ub :: "u64 list"

definition obj_of_odsc :: "string \<Rightarrow> obj_descriptor \<Rightarrow> dspaces_obj" where
  "obj_of_odsc nme odsc =
     (let ndim = ndims (od_bb odsc)
      in \<lparr>ob_name = nme, ob_version = sint (od_version odsc), ob_ndim = num_dims (od_bb odsc),
          ob_lb = map (\<lambda>j. lb (od_bb odsc) ! j) [0..<ndim], ob_ub = map (\<lambda>j. ub (od_bb odsc) ! j) [0..<ndim]\<rparr>)"

text \<open>The result of \<^verbatim>\<open>margo_forward\<close> is not looked at: \<^verbatim>\<open>ret\<close> is assigned and \<^verbatim>\<open>hret\<close> tested.\<close>

definition dspaces_get_var_objs :: "(string \<times> int, obj_descriptor list, 'w) margo \<Rightarrow> dspaces_client \<Rightarrow> string \<Rightarrow> 'w \<Rightarrow>
    (int \<times> dspaces_obj list option \<times> 'w) option" where
  "dspaces_get_var_objs m c nme w =
     map_option (\<lambda>addr.
       if m_create m addr w \<noteq> HG_SUCCESS then (-1, None, w)
       else let (_, w) = m_forward m addr (nme, -1) w; (hret, odscs) = m_get_output m w
            in if hret \<noteq> HG_SUCCESS then (-1, None, w)
               else (int (length odscs), Some (map (obj_of_odsc nme) odscs), w))
       (get_server_address c)"

definition dspaces_get_modules :: "(unit, string list, 'w) margo \<Rightarrow> dspaces_client \<Rightarrow> 'w \<Rightarrow> (int \<times> string list option \<times> 'w) option" where
  "dspaces_get_modules m c w =
     map_option (\<lambda>addr. case rpc_call m addr () w of
         (None, w) \<Rightarrow> (-1, None, w)
       | (Some names, w) \<Rightarrow> (int_of_u64 (of_nat (length names)), Some names, w)) (get_server_address c)"

section \<open>The order of the parameters\<close>

text \<open>The request does not depend on the order in which parameters with distinct keys are given.\<close>

lemma compare_params_sorted:
  "sorted_wrt (\<lambda>p q. compare_params p q \<le> 0) (sort_params ps)"
  using sorted_sort_key [of mp_key ps] unfolding sort_params_def sorted_map
  by (rule sorted_wrt_mono_rel [rotated]) (auto simp: compare_params_def)

lemma sort_params_perm:
  assumes "mset ps = mset qs" "distinct (map mp_key ps)"
  shows "sort_params ps = sort_params qs"
proof -
  have "inj_on mp_key (set ps)" using assms(2) by (simp add: distinct_map)
  then show ?thesis unfolding sort_params_def
    using sort_key_inj_key_eq [of ps "sort_key mp_key qs" mp_key] assms(1) by simp
qed

section \<open>Module queries end to end\<close>

text \<open>
  The server as the client sees it: the parameters go over the wire and \<^verbatim>\<open>get_mod_rpc\<close> answers. A call of a
  server that crashes fails.
\<close>

definition mod_service :: "py_env \<Rightarrow> sv_env \<Rightarrow> (nat \<Rightarrow> int) \<Rightarrow> dspaces_module list \<Rightarrow> (get_mod_in, get_mod_out, server \<times> get_mod_out) margo" where
  "mod_service P env hret mods =
     \<lparr>m_bulk_create = (\<lambda>_. HG_SUCCESS), m_create = (\<lambda>_ _. HG_SUCCESS),
      m_forward = (\<lambda>_ (nme, dict) (sv, out).
        case encode_dsp_dict dict of
          Some (Inr prims) \<Rightarrow>
            (case decode_dsp_dict prims of
               Inr (es, _) \<Rightarrow>
                 (case get_mod_rpc P env hret mods sv nme es of
                    Some (ret, od, sv', _) \<Rightarrow> (HG_SUCCESS, sv', (case od of None \<Rightarrow> [] | Some odsc \<Rightarrow> [odsc]), ret)
                  | None \<Rightarrow> (1, sv, out))
             | Inl _ \<Rightarrow> (1, sv, out))
        | _ \<Rightarrow> (1, sv, out)),
      m_get_output = (\<lambda>(sv, out). (HG_SUCCESS, out))\<rparr>"

text \<open>A vector of \<open>k\<close> elements of \<open>s\<close> bytes, as \<^verbatim>\<open>py_res_buf\<close> makes it of a contiguous array.\<close>

definition vector_ret :: "nat \<Rightarrow> nat \<Rightarrow> mod_ret \<Rightarrow> bool" where
  "vector_ret s k r \<longleftrightarrow> 0 < s \<and> 0 < k \<and> s * k < 2147483648 \<and> mr_elem_size r = of_nat s \<and> mr_ndim r = 1 \<and> mr_dim r = [of_nat k] \<and>
     length (mr_data r) = s * k"

lemma py_res_buf_vector:
  assumes "na_c_contiguous a \<or> na_f_contiguous a" "na_dims a = [k]" "na_itemsize a = int s" "0 < s" "0 < k" "s * k < 2147483648"
    and "length (na_data a) = s * k"
  shows "\<exists>r. py_res_buf a = Some (Ret_Array r) \<and> vector_ret s k r \<and> mr_data r = na_data a \<and> mr_tag r = na_type a"
proof -
  have "k < 2147483648" using assms(4,6) by (metis le_less_trans mult.commute mult_le_mono2 nat_mult_1_right Suc_leI One_nat_def)
  then have "sint (of_nat k :: u32) = int k" by (simp add: sint_uint uint_nat unat_of_nat signed_take_bit_int_eq_self)
  then have "sint (of_nat k :: u32) * int s = int (s * k)" by simp
  then show ?thesis using assms by (auto simp: py_res_buf_def Let_def vector_ret_def simp del: of_nat_mult)
qed

text \<open>The descriptor of such a result, and its box.\<close>

lemma vector_odsc:
  assumes "vector_ret s k r" "odsc = (odsc_from_ret r nme ver)\<lparr>od_owner := ow\<rparr>"
  shows "od_bb odsc = mk_box [0] [of_nat (k - 1)]" "od_size odsc = of_nat s" "od_flags odsc AND DS_CLIENT_STORAGE = 0" "od_tag odsc = mr_tag r"
proof -
  have box: "od_bb odsc = (od_bb zero_odsc)\<lparr>num_dims := 1, ub := (ub (od_bb zero_odsc))[0 := of_nat k - 1]\<rparr>"
    "od_size odsc = of_nat s" "od_tag odsc = mr_tag r"
    using assms by (simp_all add: vector_ret_def odsc_from_ret_def Let_def obj_data_resize_def obj_data_resize_step_def zero_odsc_def BBOX_MAX_NDIM_def)
  have k: "of_nat (k - 1) = (of_nat k - 1 :: u64)" using assms(1) by (simp add: vector_ret_def of_nat_diff Suc_leI)
  have "replicate 10 (0 :: u64) = 0 # replicate 9 0" by (simp flip: replicate_Suc)
  then show "od_bb odsc = mk_box [0] [of_nat (k - 1)]" unfolding k by (simp add: box(1) zero_odsc_def mk_box_def BBOX_MAX_NDIM_def)
  show "od_size odsc = of_nat s" "od_tag odsc = mr_tag r" by (fact box)+
  show "od_flags odsc AND DS_CLIENT_STORAGE = 0"
    using assms by (simp add: odsc_from_ret_def Let_def obj_data_resize_def zero_odsc_def DS_OBJ_RESIZE_def DS_CLIENT_STORAGE_def)
qed

lemma line_vol:
  assumes "0 < k" "k < 2147483648"
  shows "vol (mk_box [0] [of_nat (k - 1)]) = k" "unat (of_nat (k - 1) :: u64) = k - 1"
    "count_elems (mk_box [0] [of_nat (k - 1)]) = int k"
proof -
  show u: "unat (of_nat (k - 1) :: u64) = k - 1" using assms by (simp add: unat_of_nat take_bit_nat_eq_self del: of_nat_diff)
  then show "vol (mk_box [0] [of_nat (k - 1)]) = k" using assms(1) by (simp add: bbox_eval)
  have "of_nat (k - 1) + 1 = (of_int (int k) :: u64)" using assms(1) by (simp add: of_nat_diff Suc_leI)
  then show "count_elems (mk_box [0] [of_nat (k - 1)]) = int k"
    using assms sint_of_int_u64 [of "int k"] by (simp add: count_elems_def mk_box_def int_of_u64_def)
qed

lemma line_get:
  assumes "od_bb (obj_desc od) = mk_box [0] [u]" "data od = Some d"
  shows "obj_get od [x] = elem (unat (od_size (obj_desc od))) d (unat x)"
  using assms by (simp add: obj_get_def lin_def mk_box_def stride_def)

lemma elems_eq:
  assumes "length d = s * k" "length d' = s * k" "\<And>i. i < k \<Longrightarrow> elem s d i = elem s d' i"
  shows "d = d'"
proof (rule nth_equalityI)
  fix j assume j: "j < length d"
  then have s: "0 < s" using assms(1) by (cases s) auto
  have i: "j div s < k" using j s assms(1) by (simp add: less_mult_imp_div_less mult.commute)
  have "elem s x (j div s) ! (j mod s) = x ! j" if "length x = s * k" for x :: "byte list"
  proof -
    have "s * (j div s) \<le> length x" using that j assms(1) times_div_less_eq_dividend [of s j] by linarith
    from nth_drop [OF this, of "j mod s"] s show ?thesis by (simp add: elem_def)
  qed
  from this [OF assms(1)] this [OF assms(2)] assms(3) [OF i] show "d ! j = d' ! j" by simp
qed (simp add: assms)

lemma wire_dict:
  assumes "list_all entry_ok es" "length es < 18446744073709551616"
  shows "\<exists>prims. encode_dsp_dict es = Some (Inr prims) \<and> decode_dsp_dict prims = Inr (map entry_keep es, [])"
  using entry_format.counted_trip [OF assms, of "[]"] encode_entries_ok [OF assms(1)]
  by (simp add: encode_dsp_dict_def decode_dsp_dict_def)

text \<open>
  C38: a module query returns what the module computed. The client's parameters go over the wire, the server
  calls the module, stores its vector and answers with a descriptor, and the client fetches the data: the
  request the caller gets holds the bytes of the vector, its tag and its bounds.
\<close>

theorem get_module_returns_array:
  assumes "get_server_address c = Some addr" "nspace c = None"
    and "list_all entry_ok (mod_dict (sort_params ps))" "length ps < 18446744073709551616"
    and mods: "dspaces_mod_by_name mods module = Some m"
      "build_module_args_from_dict (pe_fpu P) (pe_float P) (map entry_keep (mod_dict (sort_params ps))) = Some args"
      "dspaces_module_exec P m ''pquery'' args DSPACES_MOD_RET_ARRAY = Some (Ret_Array r, b)" "vector_ret s k r"
    and get: "get_mod_rpc P env hret mods sv module (map entry_keep (mod_dict (sort_params ps))) = Some (0, Some odsc, sv', out)"
    and inv: "ls_inv (sv_ls sv)" "od_heap (sv_ls sv) (sv_brk sv) = None" "sv_remotes sv = None"
    and lz: "lz4_ok (ge_lz4 e) (en_lz4c env)" and junk: "wf_bbox (en_junk env)" "wf_bbox (ge_bbcom e)"
    and fetch: "ge_fetch e (sv', [odsc], 0) odsc = the (get_rpc env HG_SUCCESS HG_SUCCESS ulen sv' flags odsc)"
  shows "\<exists>req. dspaces_get_module (mod_service P env hret mods) e c module ps (sv, w) = Some (0, Some req, sv', [odsc], 0) \<and>
    rq_buf req = Some (mr_data r) \<and> rq_tag req = mr_tag r \<and> rq_lb req = [0] \<and> rq_ub req = [of_nat (k - 1)]"
proof -
  let ?f = "ge_fetch e (sv', [odsc], 0)"
  have len: "length (mod_dict (sort_params ps)) < 18446744073709551616" using assms(4) by (simp add: mod_dict_def sort_params_def)
  from wire_dict [OF assms(3) this] get have call: "rpc_call (mod_service P env hret mods) addr (module, mod_dict (sort_params ps)) (sv, w) =
      (Some ([odsc], 0), sv', [odsc], 0)"
    by (auto simp: rpc_call_def mod_service_def)
  have sk: "0 < s" "0 < k" "s * k < 2147483648" "length (mr_data r) = s * k" using mods(4) by (auto simp: vector_ret_def)
  have "k \<le> s * k" "s \<le> s * k" using sk(1,2) by simp_all
  then have k: "k < 2147483648" "s < 2147483648" using sk(3) by linarith+
  define u :: u64 where "u = of_nat (k - 1)"
  have box: "nonempty_bbox (mk_box [0] [u])" "wf_bbox (mk_box [0] [u])" using line_box(1,2) [of 0 u] by simp_all
  obtain nme ver ow where o: "odsc = (odsc_from_ret r nme ver)\<lparr>od_owner := ow\<rparr>"
    using get mods(1-3) by (auto simp: get_mod_rpc_def odsc_take_ownership_def Let_def split: bind_splits option.splits prod.splits)
  note v = vector_odsc [OF mods(4) o, folded u_def]
  obtain a r' where a: "ls_find (sv_ls sv') odsc = Some a" "obj_desc (the_od (sv_ls sv') a) = odsc" "sv_remotes sv' = sv_remotes sv"
      "data (the_od (sv_ls sv') a) = Some (mr_data r)"
    using get_mod_stores [OF get inv(1,2)] mods(1-3) box v(1) by auto
  have us: "unat (of_nat s :: u64) = s" using k(2) by (simp add: unat_of_nat take_bit_nat_eq_self)
  have es: "int_of_u64 (of_nat s) = int s" using sint_of_int_u64 [of "int s"] k(2) by (simp add: int_of_u64_def)
  note lv = line_vol [OF sk(2) k(1), folded u_def]
  have fits: "obj_fits (the_od (sv_ls sv') a)" using box sk a(2,4) v(1,2) by (simp add: obj_fits_def Let_def us lv)
  have find: "ls_find (serving_store sv' odsc) odsc = Some a" using a(1,3) inv(3) by (simp add: serving_store_def)
  have od: "the_od (serving_store sv' odsc) a = the_od (sv_ls sv') a" using a(3) inv(3) by (simp add: serving_store_def)
  obtain d where d: "delivers (ge_lz4 e) ?f odsc odsc d" "length d = unat (obj_data_size odsc)"
    "\<forall>p\<in>points (od_bb odsc). obj_get (obj_data_blank odsc (Some d)) p = obj_get (the_od (sv_ls sv') a) p"
    using get_rpc_ok [where fetch = ?f and req = odsc, OF find od fits _ _ _ _ _ _ _ lz v(3) junk(1) fetch refl] box sk(3) a(2) by (auto simp: v(1,2) us lv mk_box_simps)
  let ?d0 = "map (ge_junk e) [0..<s * k]"
  have part: "part_ok odsc odsc" using box sk(3) intersect_self [OF box(2,1)] by (simp add: part_ok_def v(1,2) us lv)
  have blank: "obj_fits (obj_data_blank odsc (Some ?d0))" using box sk by (simp add: obj_fits_def Let_def v(1,2) us lv)
  obtain d' where d': "get_data (ge_bbcom e) (ge_junk e) (ge_lz4 e) ?f odsc [odsc] ?d0 = Some d'" "length d' = length ?d0"
    "\<forall>p\<in>points (od_bb odsc). obj_get (obj_data_blank odsc (Some d')) p = assembled (\<lambda>_. d) [odsc] p (obj_get (obj_data_blank odsc (Some ?d0)) p)"
    using get_data_ok [of "[odsc]" odsc "ge_lz4 e" ?f "\<lambda>_. d", OF _ junk(2) _ _ blank] part d(1,2) by (auto simp: v(1) mk_box_simps)
  have "d' = mr_data r"
  proof (rule elems_eq)
    fix i assume i: "i < k"
    then have ui: "unat (of_nat i :: u64) = i" using k(1) by (simp add: unat_of_nat take_bit_nat_eq_self)
    have "[of_nat i] \<in> points (od_bb odsc)" using i by (auto simp: v(1) line_box word_le_nat_alt ui lv)
    with d'(3) d(3) have "obj_get (obj_data_blank odsc (Some d')) [of_nat i] = obj_get (the_od (sv_ls sv') a) [of_nat i]" by (simp add: assembled_def)
    with a(2,4) show "elem s d' i = elem s (mr_data r) i" by (simp add: line_get v(1,2) us ui)
  qed (use d'(2) sk(4) in simp_all)
  moreover have "result_buf (ge_junk e) (int k) (int s) = Some ?d0"
    using sk(3) by (simp add: result_buf_def mult.commute nat_mult_distrib flip: of_nat_mult)
  moreover have upd: "odsc\<lparr>od_size := of_nat s\<rparr> = odsc" using v(2) by simp
  ultimately show ?thesis unfolding u_def [symmetric]
    using assms(1,2) call d'(1) es lv(3) v(1,4)
    by (simp add: dspaces_get_module_def v(2) upd fill_req_def mk_box_def)
qed

definition ex_py :: py_env where
  "ex_py = \<lparr>pe_has = (\<lambda>_ _. True),
     pe_call = (\<lambda>_ _ _. Returned (Py_Array \<lparr>na_c_contiguous = True, na_f_contiguous = False, na_dims = [3], na_type = 1, na_itemsize = 1, na_data = [1, 2, 3]\<rparr>)),
     pe_json = (\<lambda>_. Py_None), pe_as_long = (\<lambda>_. 0), pe_long_rep = (\<lambda>_. replicate 8 0), pe_float = (\<lambda>_. replicate 8 0), pe_fpu = ex_fpu\<rparr>"

definition ex_mods :: "dspaces_module list" where
  "ex_mods = dspaces_init_mods (\<lambda>_. True) [\<lparr>dm_name = ''m'', dm_namespace = Some ''ns'', dm_file = Some ''m'', dm_type = DSPACES_MOD_PY, dm_loaded = False\<rparr>]"

definition ex_params :: "dspaces_mod_param list" where
  "ex_params = [\<lparr>mp_type = DSP_INT, mp_key = ''day'', mp_val = DMem [1, 0, 0, 0, 9, 9, 9, 9]\<rparr>]"

definition ex_entries :: "dict_entry list" where
  "ex_entries = [\<lparr>de_type = DSP_INT, de_key = ''day'', de_val = DMem [1, 0, 0, 0]\<rparr>]"

definition ex_genv :: "(server \<times> get_mod_out) get_env" where
  "ex_genv = \<lparr>ge_query = \<lparr>m_bulk_create = (\<lambda>_. 0), m_create = (\<lambda>_ _. 0), m_forward = (\<lambda>_ _ w. (0, w)), m_get_output = (\<lambda>_. (0, []))\<rparr>,
     ge_fetch = (\<lambda>(sv, _) odsc. the (get_rpc ex_sv_env HG_SUCCESS HG_SUCCESS 0 sv 0 odsc)), ge_lz4 = (\<lambda>_ _ _. (0, [])), ge_junk = (\<lambda>_. 0), ge_bbcom = mk_box [] []\<rparr>"

lemma ex_sv_ls: "sv_ls (ex_sv None) = ls_alloc 2" "sv_remotes (ex_sv None) = None"
proof -
  have "(case dsg_alloc \<lparr>i_lb = 0, i_ub = 0\<rparr> (replicate 10 0) ex_conf 0 1 ''srv'' None None of Some (Inr _) \<Rightarrow> True | _ \<Rightarrow> False)"
    by code_simp
  then have "sv_ls (ex_sv None) = ls_alloc 2 \<and> sv_remotes (ex_sv None) = None"
    by (auto simp: ex_sv_def ex_conf_def dsg_alloc_def init_sspace_def bind_eq_Some_conv Let_def split: if_splits option.splits)
  then show "sv_ls (ex_sv None) = ls_alloc 2" "sv_remotes (ex_sv None) = None" by simp_all
qed

lemma ex_sv_empty: "ls_inv (sv_ls (ex_sv None))" "od_heap (sv_ls (ex_sv None)) (sv_brk (ex_sv None)) = None"
  using ls_inv_alloc [of 2] by (simp_all add: ex_sv_ls(1)) (simp_all add: ls_alloc_def)

theorem get_module_returns_array_witness:
  "\<exists>req w. dspaces_get_module (mod_service ex_py ex_sv_env (\<lambda>_. 0) ex_mods) ex_genv (ex_client None) ''m'' ex_params (ex_sv None, [], 0) =
      Some (0, Some req, w) \<and> rq_buf req = Some [1, 2, 3] \<and> rq_ub req = [2]"
proof -
  let ?m = "\<lparr>dm_name = ''m'', dm_namespace = Some ''ns'', dm_file = Some ''m'', dm_type = DSPACES_MOD_PY, dm_loaded = True\<rparr>"
  let ?r = "\<lparr>mr_elem_size = 1, mr_ndim = 1, mr_dim = [3], mr_len = 3, mr_tag = 1, mr_data = [1, 2, 3]\<rparr>"
  have dict: "list_all entry_ok (mod_dict (sort_params ex_params))" "map entry_keep (mod_dict (sort_params ex_params)) = ex_entries" "length ex_params < 18446744073709551616"
    by (code_simp, code_simp, simp add: ex_params_def)
  have m: "dspaces_mod_by_name ex_mods ''m'' = Some ?m" by code_simp
  let ?args = "[scalar_arg ''day'' DSPACES_ARG_INT (U_Int 1)]"
  have args: "build_module_args_from_dict (pe_fpu ex_py) (pe_float ex_py) ex_entries = Some ?args"
    "dspaces_module_exec ex_py ?m ''pquery'' ?args DSPACES_MOD_RET_ARRAY = Some (Ret_Array ?r, True)"
    by (code_simp, code_simp)
  have "map_option (\<lambda>(r, od, _). (r, od \<noteq> None)) (get_mod_rpc ex_py ex_sv_env (\<lambda>_. 0) ex_mods (ex_sv None) ''m'' ex_entries) = Some (0, True)" by code_simp
  then obtain odsc sv' out where g: "get_mod_rpc ex_py ex_sv_env (\<lambda>_. 0) ex_mods (ex_sv None) ''m'' ex_entries = Some (0, Some odsc, sv', out)" by auto
  have "vector_ret 1 3 ?r" by (simp add: vector_ret_def)
  moreover have "lz4_ok (ge_lz4 ex_genv) (en_lz4c ex_sv_env)" "wf_bbox (en_junk ex_sv_env)" "wf_bbox (ge_bbcom ex_genv)"
    by (simp_all add: lz4_ok_def ex_genv_def ex_sv_env_def mk_box_simps)
  moreover have "get_server_address (ex_client None) = Some (hd (server_address (ex_client None)))" "nspace (ex_client None) = None" by code_simp+
  ultimately show ?thesis
    using get_module_returns_array [of "ex_client None" _ ex_params ex_mods "''m''" ?m ex_py ?args ?r True 1 3 ex_sv_env "\<lambda>_. 0" "ex_sv None" odsc sv' out ex_genv 0 0 "([], 0)"]
      dict m args g ex_sv_empty ex_sv_ls(2) by (auto simp: ex_genv_def)
qed

section \<open>Metadata end to end\<close>

text \<open>
  A metadata server without remotes. A query that waits has no answer yet, and a crash answers nothing: both
  are a failed call here.
\<close>

definition put_meta_service :: "(put_meta_in_t, bulk_out_t, server \<times> bulk_out_t) margo" where
  "put_meta_service =
     \<lparr>m_bulk_create = (\<lambda>_. HG_SUCCESS), m_create = (\<lambda>_ _. HG_SUCCESS),
      m_forward = (\<lambda>_ pm (sv, out). case put_meta_rpc HG_SUCCESS HG_SUCCESS sv pm of
          Some (ret, sv') \<Rightarrow> (HG_SUCCESS, sv', \<lparr>bo_ret = ret, bo_len = 0\<rparr>)
        | None \<Rightarrow> (1, sv, out)),
      m_get_output = (\<lambda>(sv, out). (HG_SUCCESS, out))\<rparr>"

definition query_meta_service :: "nat \<Rightarrow> (query_meta_in_t, query_meta_out, server \<times> query_meta_out) margo" where
  "query_meta_service t =
     \<lparr>m_bulk_create = (\<lambda>_. HG_SUCCESS), m_create = (\<lambda>_ _. HG_SUCCESS),
      m_forward = (\<lambda>_ q (sv, out). case query_meta_rpc [] (\<lambda>_. 0) (\<lambda>_. None) t sv (qi_name q) (qi_version q) (uint (qi_mode q)) of
          Some (Inr out, sv') \<Rightarrow> (HG_SUCCESS, sv', out)
        | _ \<Rightarrow> (1, sv, out)),
      m_get_output = (\<lambda>(sv, out). (HG_SUCCESS, out))\<rparr>"

text \<open>
  C39: metadata reads back as it was put: after \<^verbatim>\<open>dspaces_put_meta\<close> of a new version, \<^verbatim>\<open>dspaces_get_meta\<close> for that
  version returns the version, the bytes and their number, from any client.
\<close>

theorem metadata_reads_back:
  assumes "get_meta_server_address c = Some addr" "get_meta_server_address c' = Some addr'"
    and "meta_inv (sv_ls sv)" "0 \<le> v" "v < 2147483648" "0 < unat len" "unat len < 2147483648" "unat len \<le> length d"
    and "\<forall>x\<in>metas (sv_ls sv). \<not> (md_name x = nme \<and> md_int x = v)"
  shows "\<exists>sv' out. dspaces_put_meta put_meta_service c nme v d len (sv, o0) = Some (dspaces_SUCCESS, sv', out) \<and>
    dspaces_get_meta (query_meta_service t) c' nme META_MODE_SPEC v (sv', q0) =
      Some (dspaces_SUCCESS, Some (v, Some (take (unat len) d), len), sv', \<lparr>qm_version = v, qm_data = take (unat len) d\<rparr>)"
proof -
  define m where "m = \<lparr>md_name = nme, md_version = of_int v, md_length = int (unat len), md_data = take (unat len) d\<rparr>"
  have v: "sint (of_int v :: u32) = v" using assms(4,5) by (simp add: sint_sbintrunc' signed_take_bit_int_eq_self)
  have "uint (of_int v :: u32) = v" using assms(4,5) by (simp add: uint_word_of_int_eq take_bit_int_eq_self)
  then have "unat (of_int v :: u32) = nat v" by (simp only: unat_eq_nat_uint)
  then have small: "md_small m" using assms(4,5) by (simp add: md_small_def md_nat_def m_def)
  obtain ls' where ls': "ls_add_meta (sv_ls sv) m = Some ls'" "ls_find_meta ls' nme v = Some (Some m)"
    using ls_add_meta_delivers [OF assms(3) small] assms(9) by (auto simp: m_def md_int_def v)
  have len: "sint len = int (unat len)"
  proof -
    have "int (unat len) < int 2147483648" using assms(7) unfolding of_nat_less_iff .
    then have u: "uint len < 2147483648" "0 \<le> uint len" by simp_all
    then have "signed_take_bit 31 (uint len) = uint len" by (intro signed_take_bit_int_eq_self order_trans [OF _ u(2)]) simp_all
    then show ?thesis by (simp add: sint_uint)
  qed
  have ul: "unat (ucast len :: u64) = unat len" by (simp add: unsigned_ucast_eq take_bit_nat_eq_self [OF order_less_le_trans [OF unsigned_less]])
  have "put_meta_rpc HG_SUCCESS HG_SUCCESS sv \<lparr>pm_name = nme, pm_length = len, pm_version = v, pm_data = take (unat len) d\<rparr> =
      Some (dspaces_SUCCESS, sv\<lparr>sv_ls := ls'\<rparr>)"
    using assms(8) ls'(1) by (simp add: put_meta_rpc_def Let_def len m_def min_def)
  then have put: "dspaces_put_meta put_meta_service c nme v d len (sv, o0) = Some (dspaces_SUCCESS, sv\<lparr>sv_ls := ls'\<rparr>, \<lparr>bo_ret = dspaces_SUCCESS, bo_len = 0\<rparr>)"
    using assms(1,8) by (simp add: dspaces_put_meta_def expose_def ul put_meta_service_def rpc_call_def)
  have "dspaces_get_meta (query_meta_service t) c' nme META_MODE_SPEC v (sv\<lparr>sv_ls := ls'\<rparr>, q0) =
      Some (dspaces_SUCCESS, Some (v, Some (take (unat len) d), len), sv\<lparr>sv_ls := ls'\<rparr>, \<lparr>qm_version = v, qm_data = take (unat len) d\<rparr>)"
    using assms(2,6,8) ls'(2)
    by (auto simp: dspaces_get_meta_def query_meta_service_def rpc_call_def query_meta_rpc_def query_meta_local_def META_MODE_SPEC_def
        meta_find_entry_def meta_reply_def m_def v min_def)
  with put show ?thesis by blast
qed

theorem metadata_reads_back_witness:
  "\<exists>sv' out. dspaces_put_meta put_meta_service (ex_client None) ''m'' 7 [1, 2, 3] 3 (ex_sv None, \<lparr>bo_ret = 0, bo_len = 0\<rparr>) = Some (dspaces_SUCCESS, sv', out) \<and>
    dspaces_get_meta (query_meta_service 0) (ex_client None) ''m'' META_MODE_SPEC 7 (sv', \<lparr>qm_version = 0, qm_data = []\<rparr>) =
      Some (dspaces_SUCCESS, Some (7, Some [1, 2, 3], 3), sv', \<lparr>qm_version = 7, qm_data = [1, 2, 3]\<rparr>)"
proof -
  have "get_meta_server_address (ex_client None) = Some ''s0''" by code_simp
  moreover have "meta_inv (sv_ls (ex_sv None))" "metas (sv_ls (ex_sv None)) = {}"
    using meta_inv_alloc [of 2] by (simp_all add: ex_sv_ls ls_alloc_def metas_def)
  ultimately show ?thesis using metadata_reads_back [of "ex_client None" "''s0''" "ex_client None" "''s0''" "ex_sv None" 7 3 "[1, 2, 3]" "''m''"] by simp
qed

end
