(* ===== verification/Util.thy ===== *)
theory Util
  imports ObjDesc
begin

text \<open>
  The string helpers of \<^verbatim>\<open>util.c\<close>: appending, and the parser of lists of \<^verbatim>\<open>name = value\<close> pairs. A C string is
  the list of its characters before the terminating zero; allocations succeed.
\<close>

section \<open>Appending\<close>

definition str_len :: "string option \<Rightarrow> nat" where
  "str_len str = (case str of Some s \<Rightarrow> length s | None \<Rightarrow> 0)"

definition str_append_const :: "string option \<Rightarrow> string \<Rightarrow> string" where
  "str_append_const str msg = (case str of Some s \<Rightarrow> s @ msg | None \<Rightarrow> msg)"

definition str_append :: "string option \<Rightarrow> string \<Rightarrow> string" where
  "str_append str msg = str_append_const str msg"

section \<open>Name and value pairs\<close>

definition blank :: "char \<Rightarrow> bool" where
  "blank c \<longleftrightarrow> c = CHR '' '' \<or> c = CHR 0x09 \<or> c = CHR 0x0A"

text \<open>\<open>remove_whitespace\<close> on the characters from \<^verbatim>\<open>start\<close> to \<^verbatim>\<open>end\<close>; \<open>None\<close> is the null pointer.\<close>

definition remove_whitespace :: "string \<Rightarrow> string option" where
  "remove_whitespace xs =
     (let s = dropWhile blank xs
      in if s \<noteq> [] then let e = rev (dropWhile blank (rev s)) in if e \<noteq> [] then Some e else None else None)"

definition splitnamevalue :: "string \<Rightarrow> string option \<times> string option" where
  "splitnamevalue line =
     (case dropWhile (\<lambda>c. c \<noteq> CHR ''='') line of
        [] \<Rightarrow> (remove_whitespace line, None)
      | _ # rest \<Rightarrow>
          let before = takeWhile (\<lambda>c. c \<noteq> CHR ''='') line
          in if before \<noteq> [] then (remove_whitespace before, remove_whitespace rest) else (None, None))"

text \<open>The line buffer has 256 bytes; a longer item is written past its end.\<close>

function text_loop :: "string \<Rightarrow> (string \<times> string option) list option" where
  "text_loop item =
     (let line = takeWhile (\<lambda>c. c \<noteq> CHR '';'') item; rest = dropWhile (\<lambda>c. c \<noteq> CHR '';'') item
      in if length line < 256
         then let (name, value) = splitnamevalue line;
                  here = (case name of Some n \<Rightarrow> [(n, value)] | None \<Rightarrow> [])
              in (case rest of [] \<Rightarrow> Some here | _ # next \<Rightarrow> map_option (\<lambda>ps. here @ ps) (text_loop next))
         else None)"
  by auto
termination
proof (relation "measure length")
  fix item line rest nxt :: string and d :: char and p nm vl hr
  assume "rest = dropWhile (\<lambda>c. c \<noteq> CHR '';'') item" "rest = d # nxt"
  then have "length nxt < length (dropWhile (\<lambda>c. c \<noteq> CHR '';'') item)" by (metis length_Cons lessI)
  also have "\<dots> \<le> length item" by (rule length_dropWhile_le)
  finally show "(nxt, item) \<in> measure length" by simp
qed simp

definition text_to_nv_pairs :: "string option \<Rightarrow> (string \<times> string option) list option" where
  "text_to_nv_pairs text = (case text of None \<Rightarrow> Some [] | Some t \<Rightarrow> text_loop t)"

declare text_loop.simps [simp del]

section \<open>The round trip\<close>

definition trimmed :: "string \<Rightarrow> bool" where
  "trimmed s \<longleftrightarrow> s \<noteq> [] \<and> \<not> blank (hd s) \<and> \<not> blank (last s)"

text \<open>A pair with any white space around its parts, as it may be written.\<close>

record nv_item =
  it_name :: string
  it_value :: "string option"
  it_pad :: "string list"

definition item_ok :: "nv_item \<Rightarrow> bool" where
  "item_ok i \<longleftrightarrow> trimmed (it_name i) \<and> (case it_value i of Some v \<Rightarrow> trimmed v | None \<Rightarrow> True) \<and>
     length (it_pad i) = 4 \<and> list_all (list_all blank) (it_pad i) \<and>
     list_all (\<lambda>c. c \<noteq> CHR '';'' \<and> c \<noteq> CHR ''='') (it_name i) \<and>
     list_all (\<lambda>c. c \<noteq> CHR '';'') (case it_value i of Some v \<Rightarrow> v | None \<Rightarrow> [])"

definition item_text :: "nv_item \<Rightarrow> string" where
  "item_text i = it_pad i ! 0 @ it_name i @ it_pad i ! 1 @
     (case it_value i of Some v \<Rightarrow> CHR ''='' # it_pad i ! 2 @ v @ it_pad i ! 3 | None \<Rightarrow> [])"

fun items_text :: "nv_item list \<Rightarrow> string" where
  "items_text [] = []"
| "items_text [i] = item_text i"
| "items_text (i # is) = item_text i @ CHR '';'' # items_text is"

lemma drop_blank: "list_all blank p \<Longrightarrow> \<not> blank c \<Longrightarrow> dropWhile blank (p @ c # t) = c # t"
  by (induction p) simp_all

lemma trimmed_pad:
  assumes "trimmed s" "list_all blank p" "list_all blank p'"
  shows "remove_whitespace (p @ s @ p') = Some s"
proof -
  obtain c t where s: "s = c # t" "\<not> blank c" using assms(1) by (cases s) (auto simp: trimmed_def)
  obtain t' c' where r: "s = t' @ [c']" "\<not> blank c'" using assms(1) by (cases s rule: rev_cases) (auto simp: trimmed_def)
  have "list_all blank (rev p')" using assms(3) by simp
  then have "dropWhile blank (rev (s @ p')) = rev s" using drop_blank [of "rev p'" c' "rev t'"] r by simp
  moreover have "dropWhile blank (p @ s @ p') = s @ p'" using drop_blank [OF assms(2) s(2)] s(1) by simp
  moreover have "s \<noteq> []" using s(1) by simp
  ultimately show ?thesis by (simp add: remove_whitespace_def Let_def del: rev_append)
qed

lemma blank_sep: "list_all blank p \<Longrightarrow> list_all (\<lambda>c. c \<noteq> CHR '';'' \<and> c \<noteq> CHR ''='') p"
proof (induction p)
  case (Cons c p)
  then have "c \<noteq> CHR '';''" "c \<noteq> CHR ''=''" by (auto simp: blank_def)
  with Cons show ?case by simp
qed simp

lemma break_at:
  assumes "list_all (\<lambda>c. c \<noteq> x) l"
  shows "takeWhile (\<lambda>c. c \<noteq> x) l = l" "dropWhile (\<lambda>c. c \<noteq> x) l = []"
    "takeWhile (\<lambda>c. c \<noteq> x) (l @ x # r) = l" "dropWhile (\<lambda>c. c \<noteq> x) (l @ x # r) = x # r"
  using assms by (induction l) simp_all

definition here_pairs :: "string \<Rightarrow> (string \<times> string option) list" where
  "here_pairs l = (case splitnamevalue l of (Some n, v) \<Rightarrow> [(n, v)] | (None, v) \<Rightarrow> [])"

lemma text_loop_break:
  assumes "list_all (\<lambda>c. c \<noteq> CHR '';'') l"
  shows "text_loop l = (if length l < 256 then Some (here_pairs l) else None)"
    "text_loop (l @ CHR '';'' # r) = (if length l < 256 then map_option (\<lambda>ps. here_pairs l @ ps) (text_loop r) else None)"
  by (subst text_loop.simps, simp add: break_at [OF assms] here_pairs_def Let_def split: prod.split option.split)+

lemma item_splits:
  assumes "item_ok i"
  shows "splitnamevalue (item_text i) = (Some (it_name i), it_value i)" "list_all (\<lambda>c. c \<noteq> CHR '';'') (item_text i)"
proof -
  obtain a b c d where pad: "it_pad i = [a, b, c, d]" "list_all blank a" "list_all blank b" "list_all blank c" "list_all blank d"
  proof -
    have "length (it_pad i) = Suc (Suc (Suc (Suc 0)))" "list_all (list_all blank) (it_pad i)" using assms by (simp_all add: item_ok_def)
    then show ?thesis by (auto simp: length_Suc_conv intro: that)
  qed
  let ?n = "a @ it_name i @ b"
  have n: "list_all (\<lambda>c. c \<noteq> CHR '';'' \<and> c \<noteq> CHR ''='') ?n"
    using assms blank_sep [OF pad(2)] blank_sep [OF pad(3)] by (simp add: item_ok_def)
  have name: "remove_whitespace ?n = Some (it_name i)" using assms pad by (intro trimmed_pad) (simp_all add: item_ok_def)
  have ne: "?n \<noteq> []" using assms by (auto simp: item_ok_def trimmed_def)
  from n have "list_all (\<lambda>c. c \<noteq> CHR ''='') ?n" by (rule list.pred_mono_strong) simp
  note t = break_at [OF this]
  show "splitnamevalue (item_text i) = (Some (it_name i), it_value i)"
  proof (cases "it_value i")
    case None
    have "splitnamevalue ?n = (remove_whitespace ?n, None)" unfolding splitnamevalue_def t by simp
    then show ?thesis using name pad(1) None by (simp add: item_text_def)
  next
    case (Some v)
    have "splitnamevalue (?n @ CHR ''='' # r) = (remove_whitespace ?n, remove_whitespace r)" for r
      unfolding splitnamevalue_def t using ne by (simp add: Let_def)
    moreover have "remove_whitespace (c @ v @ d) = Some v" using assms Some pad by (intro trimmed_pad) (simp_all add: item_ok_def)
    ultimately show ?thesis using name pad(1) Some by (simp add: item_text_def)
  qed
  have semi: "list_all (\<lambda>c. c \<noteq> CHR '';'') l" if "list_all (\<lambda>c. c \<noteq> CHR '';'' \<and> c \<noteq> CHR ''='') l" for l
    using that by (rule list.pred_mono_strong) simp
  have "CHR ''='' \<noteq> CHR '';''" by simp
  then show "list_all (\<lambda>c. c \<noteq> CHR '';'') (item_text i)"
    using semi [OF n] semi [OF blank_sep [OF pad(4)]] semi [OF blank_sep [OF pad(5)]] assms pad(1)
    by (cases "it_value i") (simp_all add: item_text_def item_ok_def)
qed

text \<open>
  The parser of name and value pairs inverts writing them: a list of items, separated by semicolons,
  with any white space around names and values, some without a value, gives the names and values in
  order, as long as every item has less than 256 characters.
\<close>

theorem nv_pairs_roundtrip:
  assumes "list_all item_ok is" "is \<noteq> []" "list_all (\<lambda>i. length (item_text i) < 256) is"
  shows "text_to_nv_pairs (Some (items_text is)) = Some (map (\<lambda>i. (it_name i, it_value i)) is)"
proof -
  have "text_loop (items_text is) = Some (map (\<lambda>i. (it_name i, it_value i)) is)" using assms
  proof (induction "is" rule: items_text.induct)
    case (2 i)
    then show ?case using text_loop_break(1) item_splits [of i] by (simp add: here_pairs_def)
  next
    case (3 i j js)
    then show ?case using text_loop_break(2) item_splits [of i] by (simp add: here_pairs_def)
  qed simp
  then show ?thesis by (simp add: text_to_nv_pairs_def)
qed

text \<open>An item of 256 characters or more is written past the end of the line buffer.\<close>

lemma long_item_overflows:
  "256 \<le> length s \<Longrightarrow> list_all (\<lambda>c. c \<noteq> CHR '';'') s \<Longrightarrow> text_to_nv_pairs (Some s) = None"
  by (simp add: text_to_nv_pairs_def text_loop_break(1))

theorem nv_pairs_roundtrip_witness:
  "text_to_nv_pairs (Some ('' X = 1;Y ; Z= a b'')) = Some [(''X'', Some ''1''), (''Y'', None), (''Z'', Some ''a b'')]"
proof -
  let ?is = "[\<lparr>it_name = ''X'', it_value = Some ''1'', it_pad = ['' '', '' '', '' '', [] ]\<rparr>,
    \<lparr>it_name = ''Y'', it_value = None, it_pad = [[], '' '', [], [] ]\<rparr>,
    \<lparr>it_name = ''Z'', it_value = Some ''a b'', it_pad = ['' '', [], '' '', [] ]\<rparr>]"
  have "list_all item_ok ?is" "list_all (\<lambda>i. length (item_text i) < 256) ?is" by code_simp+
  moreover have "items_text ?is = '' X = 1;Y ; Z= a b''" by code_simp
  ultimately show ?thesis using nv_pairs_roundtrip [of ?is] by simp
qed

end
