(* ===== verification/Cluster.thy ===== *)
theory Cluster
  imports Server "HOL-Library.Multiset"
begin

text \<open>
  A cluster of servers, end to end: the servers of one communicator, the DHT updates on their way between
  them, and the puts, queries and gets of clients. Runs of the cluster interleave puts with the delivery
  of the updates in any order. The invariant ties the objects and descriptors every server holds to the
  log of the puts; from it follow that queries find exactly the puts that meet them, that the deliveries
  end, and that a get returns the bytes that were put.
\<close>


section \<open>Copies of a space\<close>

text \<open>
  Every server allocates the space for itself; the copies agree on the ranks and cells of the entries, and
  each server fills its own entry only.
\<close>

definition twin :: "sspace \<Rightarrow> nat \<Rightarrow> sspace \<Rightarrow> bool" where
  "twin S0 k ss \<longleftrightarrow> ent_self ss = k \<and> hash_version ss = hash_version S0 \<and>
     map de_rank (ent_tab (ss_dht ss)) = map de_rank (ent_tab (ss_dht S0)) \<and>
     map de_bbtab (ent_tab (ss_dht ss)) = map de_bbtab (ent_tab (ss_dht S0))"

lemma twin_length: "twin S0 k ss \<Longrightarrow> length (ent_tab (ss_dht ss)) = length (ent_tab (ss_dht S0))"
  unfolding twin_def by (metis length_map)

lemma twin_space: "twin S0 k ss \<Longrightarrow> v2_space D n S0 \<Longrightarrow> v2_space D n ss"
  using twin_length [of S0 k ss] by (simp add: twin_def v2_space_def held_def)

lemma twin_nth:
  assumes "twin S0 k ss" "i < length (ent_tab (ss_dht S0))"
  shows "de_bbtab (ent_tab (ss_dht ss) ! i) = de_bbtab (ent_tab (ss_dht S0) ! i)"
    "de_rank (ent_tab (ss_dht ss) ! i) = de_rank (ent_tab (ss_dht S0) ! i)"
  using assms twin_length [OF assms(1)] unfolding twin_def by (metis nth_map)+

lemma twin_scan:
  assumes "twin S0 k ss"
  shows "scan_v2 sid ss b = scan_v2 sid S0 b"
  using twin_nth [OF assms] by (auto simp: scan_v2_def hash_scan_def twin_length [OF assms] intro!: arg_cong [of _ _ "map (Pair sid)"] filter_cong)

lemma twin_cache: "twin S0 k ss \<Longrightarrow> cache_ok sid ss c = cache_ok sid S0 c"
  by (simp add: cache_ok_def twin_scan)

lemma twin_set_self:
  assumes "twin S0 k ss" "k < length (ent_tab (ss_dht S0))" "de_rank de = de_rank (self_entry ss)" "de_bbtab de = de_bbtab (self_entry ss)"
  shows "twin S0 k (set_self ss de)"
  using assms twin_length [OF assms(1)] twin_nth [OF assms(1,2)]
  by (auto simp: twin_def set_self_def map_update self_entry_def list_update_same_conv)

definition targets :: "sspace \<Rightarrow> bbox \<Rightarrow> nat list" where
  "targets S0 b = map snd (scan_v2 0 S0 b)"

lemma targets_iff:
  "k \<in> set (targets S0 b) \<longleftrightarrow> k < length (ent_tab (ss_dht S0)) \<and> list_ex (bbox_does_intersect b) (de_bbtab (ent_tab (ss_dht S0) ! k))"
  by (auto simp: targets_def scan_v2_def hash_scan_def)

lemma targets_distinct: "distinct (targets S0 b)"
  by (simp add: targets_def scan_v2_def hash_scan_def comp_def)

lemma hash_ranks_ok:
  assumes "sv_spaces sv 0 = Some ss" "twin S0 k ss" "v2_space D n S0" "cache_ok 0 S0 (sv_cache sv)"
  obtains c where "hash_ranks env sv 0 b = Some (targets S0 b, sv\<lparr>sv_cache := c\<rparr>)" "cache_ok 0 S0 c"
proof -
  have v: "hash_version ss = hash_version_v2" using assms(2,3) by (simp add: twin_def v2_space_def)
  have rank: "ref_rank sv (0, j) = Some j" if "j < n" for j
    using assms that twin_nth(2) [OF assms(2), of j] nth_map [of j "ent_tab (ss_dht S0)" de_rank] unfolding v2_space_def
    by (auto simp: ref_rank_def)
  have refs: "map (ref_rank sv) (scan_v2 0 S0 b) = map Some (targets S0 b)"
    using rank assms(3) by (auto simp: targets_def scan_v2_def hash_scan_def v2_space_def comp_def)
  have those: "those (map Some xs) = Some xs" for xs :: "nat list" by (induction xs) simp_all
  note h = ssd_hash_v2_cached [OF iffD2 [OF twin_cache [OF assms(2)] assms(4)], of b]
  show ?thesis
  proof (rule that)
    show "hash_ranks env sv 0 b = Some (targets S0 b, sv\<lparr>sv_cache := snd (ssd_hash_v2 (sv_cache sv) 0 ss b)\<rparr>)"
      using h(1) assms(1) v by (simp add: hash_ranks_def ssd_hash_def twin_scan [OF assms(2)] refs those split: prod.splits)
        (metis option.inject prod.collapse refs snd_conv fst_conv those)
    show "cache_ok 0 S0 (snd (ssd_hash_v2 (sv_cache sv) 0 ss b))" using h(2) twin_cache [OF assms(2)] by simp
  qed
qed

section \<open>The entry of a server\<close>

definition dht_objs :: "dht_entry \<Rightarrow> obj_descriptor set" where
  "dht_objs de = {odsc. \<exists>a\<in>set (concat (odsc_hash de)). odsc_mem de a = Some odsc}"

definition same_bin :: "nat \<Rightarrow> obj_descriptor \<Rightarrow> obj_descriptor \<Rightarrow> bool" where
  "same_bin mv o1 o2 \<longleftrightarrow> od_name o1 = od_name o2 \<and> unat (od_version o1) mod mv = unat (od_version o2) mod mv"

definition entry_inv :: "int \<Rightarrow> nat \<Rightarrow> nat \<Rightarrow> obj_descriptor set \<Rightarrow> dht_entry \<Rightarrow> bool" where
  "entry_inv d mv m A de \<longleftrightarrow> de_inv de \<and> table_ok d de \<and> odsc_size de = mv \<and> (\<forall>i<mv. dht_subs de ! i = []) \<and>
     (\<forall>a\<in>set (concat (odsc_hash de)). a < m) \<and> dht_objs de = A"

lemma in_concat_bin: "x \<in> set (concat xss) \<longleftrightarrow> (\<exists>i<length xss. x \<in> set (xss ! i))"
  unfolding set_concat by (metis (no_types, lifting) UN_iff in_set_conv_nth)

lemma entry_add:
  assumes inv: "entry_inv d mv m A de"
    and o: "od_version odsc \<noteq> -1" "box_ok d (od_bb odsc)"
    and new: "\<And>x. x \<in> A \<Longrightarrow> same_bin mv odsc x \<Longrightarrow> \<not> bbox_does_intersect (od_bb odsc) (od_bb x)"
  obtains de' where "dht_add_entry ij j m ss de odsc = Some de'" "entry_inv d mv (m + 1) (insert odsc A) de'"
    "de_rank de' = de_rank de" "de_bbtab de' = de_bbtab de"
proof -
  let ?n = "de_bin de odsc"
  have d: "de_inv de" "table_ok d de" "odsc_size de = mv" "\<forall>a\<in>set (concat (odsc_hash de)). a < m" "dht_objs de = A"
    using inv by (simp_all add: entry_inv_def)
  have n: "?n < mv" "length (odsc_hash de) = mv" using de_bin_less [OF d(1)] d(1,3) by (simp_all add: de_inv_def)
  have fresh: "m \<notin> set (concat (odsc_hash de))" using d(4) by blast
  have "\<not> node_sat de (obj_desc_by_name_intersect odsc) a" if a: "a \<in> set (odsc_hash de ! ?n)" for a
  proof -
    obtain x where x: "odsc_mem de a = Some x" "de_bin de x = ?n" 
      using node_mem [OF d(1) a de_bin_less [OF d(1)]] by blast
    have "a \<in> set (concat (odsc_hash de))" using a n unfolding in_concat_bin by auto
    then have "x \<in> A" using x(1) unfolding d(5) [symmetric] dht_objs_def by blast
    with new [of x] x show ?thesis by (auto simp: node_sat_def obj_desc_by_name_intersect_def same_bin_def de_bin_def d(3))
  qed
  then have none: "dht_find_match de odsc = None" by (auto simp: dht_find_match_def find_None_iff)
  define D where "D = snd (dht_put_node m de odsc)"
  have D: "D = de\<lparr>odsc_hash := (odsc_hash de)[?n := m # odsc_hash de ! ?n], odsc_num := odsc_num de + 1,
      odsc_mem := (odsc_mem de)(m \<mapsto> odsc)\<rparr>" "fst (dht_put_node m de odsc) = m"
    using none by (simp_all add: D_def dht_put_node_def Let_def)
  have add: "dht_add_entry ij j m ss de odsc = Some D"
  proof -
    have "dht_subs D ! de_bin D odsc = []" using inv n de_bin_cong [of D de] by (simp add: D entry_inv_def)
    moreover have "dht_put_node m de odsc = (m, D)" using D(2) D_def by (metis prod.collapse)
    ultimately show ?thesis using n d(3) by (simp add: dht_add_entry_def)
  qed
  have hash: "set (concat (odsc_hash D)) = insert m (set (concat (odsc_hash de)))"
    using set_concat_push [of ?n "odsc_hash de"] n by (simp add: D)
  have "dht_objs D = insert odsc A"
    using fresh d(5) unfolding dht_objs_def hash by (auto simp: D simp del: set_concat)
  moreover have "de_inv D" "table_ok d D"
    using de_inv_put_node [OF d(1) fresh] table_ok_put_node [OF d(1,2) fresh none o] by (simp_all add: D_def)
  ultimately have "entry_inv d mv (m + 1) (insert odsc A) D"
    using inv d(4) unfolding entry_inv_def hash by (auto simp: D simp del: set_concat)
  then show ?thesis by (rule that [OF add]) (simp_all add: D)
qed

lemma entry_brk: "entry_inv d mv m A de \<Longrightarrow> m \<le> m' \<Longrightarrow> entry_inv d mv m' A de"
  by (auto simp: entry_inv_def simp del: set_concat)

section \<open>The store of a server\<close>

definition ls_objs :: "ss_storage \<Rightarrow> obj_data set" where
  "ls_objs ls = the_od ls ` set (stored ls)"

definition store_inv :: "nat \<Rightarrow> nat \<Rightarrow> obj_data set \<Rightarrow> ss_storage \<Rightarrow> bool" where
  "store_inv mv m Os ls \<longleftrightarrow> ls_inv ls \<and> size_hash ls = mv \<and> (\<forall>a\<in>dom (od_heap ls). a < m) \<and> ls_objs ls = Os"

lemma store_brk: "store_inv mv m Os ls \<Longrightarrow> m \<le> m' \<Longrightarrow> store_inv mv m' Os ls"
  by (auto simp: store_inv_def dest!: bspec)

lemma store_add:
  assumes inv: "store_inv mv m Os ls"
    and new: "\<And>x. x \<in> Os \<Longrightarrow> same_bin mv (obj_desc od) (obj_desc x) \<Longrightarrow> \<not> bbox_does_intersect (od_bb (obj_desc od)) (od_bb (obj_desc x))"
  shows "store_inv mv (m + 1) (insert od Os) (ls_add_obj (ls\<lparr>od_heap := (od_heap ls)(m \<mapsto> od)\<rparr>) m)"
proof -
  let ?ls = "ls\<lparr>od_heap := (od_heap ls)(m \<mapsto> od)\<rparr>"
  have none: "od_heap ls m = None" using inv by (auto simp: store_inv_def)
  have ls: "ls_inv ls" "size_hash ls = mv" "ls_objs ls = Os" using inv by (simp_all add: store_inv_def)
  have n: "ls_inv ?ls" "m \<notin> set (stored ls)" using ls_inv_new_obj [OF ls(1) none] by blast+
  have st: "stored ?ls = stored ls" by (simp add: stored_def)
  have same: "the_od ?ls x = the_od ls x" if "x \<in> set (stored ls)" for x using that n(2) by (auto simp: the_od_def)
  define ls1 where "ls1 = ?ls\<lparr>var_dict := snd (ds_str_hash_add (var_dict ?ls) (od_name (obj_desc od)))\<rparr>"
  have "ls_find_no_version ls1 (obj_desc od) = None"
  proof (rule ccontr)
    assume "ls_find_no_version ls1 (obj_desc od) \<noteq> None"
    then obtain e where "ls_find_no_version ?ls (obj_desc od) = Some e"
      by (auto simp: ls1_def ls_find_no_version_def the_od_def ls_bin_def)
    from ls_find_no_versionD [OF n(1) this] same [of e] new [of "the_od ls e"] ls(2,3) show False
      unfolding st by (auto simp: ls_objs_def obj_desc_by_name_intersect_def same_bin_def ls_bin_def)
  qed
  then have mr: "ls_make_room ?ls (obj_desc od) = ls1" by (simp add: ls_make_room_def ls1_def Let_def)
  note a = ls_add_obj_props [OF n(1), of m od, unfolded st mr, OF n(2)]
  have heap: "od_heap (ls_add_obj ?ls m) = (od_heap ls)(m \<mapsto> od)" using a(3) by (simp add: ls1_def)
  have set: "set (stored (ls_add_obj ?ls m)) = insert m (set (stored ls))" using a(2) by (simp add: ls1_def stored_def)
  have "the_od (ls_add_obj ?ls m) x = (if x = m then od else the_od ls x)" for x using heap by (simp add: the_od_def)
  then have "ls_objs (ls_add_obj ?ls m) = insert od Os" using n(2) ls(3) unfolding ls_objs_def set by auto
  then show ?thesis using a(1,5) ls(2) inv heap by (auto simp: store_inv_def less_Suc_eq)
qed

text \<open>In a store without overlapping objects a query within an object finds that object.\<close>

lemma store_find:
  assumes inv: "store_inv mv m Os ls" and od: "od \<in> Os" "obj_desc_equals_intersect q (obj_desc od)"
    and one: "\<And>x. x \<in> Os \<Longrightarrow> obj_desc_equals_intersect q (obj_desc x) \<Longrightarrow> x = od"
  obtains a where "ls_find ls q = Some a" "the_od ls a = od"
proof -
  let ?i = "ls_bin ls (od_version q)"
  have ls: "ls_inv ls" "ls_objs ls = Os" using inv by (simp_all add: store_inv_def)
  obtain b where b: "b \<in> set (stored ls)" "the_od ls b = od" using od(1) ls(2) by (auto simp: ls_objs_def)
  have "od_version q = od_version (obj_desc od)" using od(2) by (simp add: obj_desc_equals_intersect_def)
  then have "b \<in> set (obj_hash ls ! ?i)" using stored_in_bin [OF ls(1), of b] b by simp
  then obtain a where a: "ls_find ls q = Some a"
    using od(2) b(2) by (cases "ls_find ls q") (auto simp: ls_find_def find_None_iff)
  then have "a \<in> set (obj_hash ls ! ?i)" "obj_desc_equals_intersect q (the_odsc ls a)"
    by (auto simp: ls_find_def find_Some_iff)
  moreover from this(1) have "a \<in> set (stored ls)" using ls_bin_less [OF ls(1)] by (auto simp: stored_def)
  ultimately have "the_od ls a = od" using one ls(2) by (auto simp: ls_objs_def)
  with a show ?thesis by (rule that)
qed

section \<open>A cluster\<close>

text \<open>
  What the servers of a cluster have in common: the parameters of the code, the configuration, their
  number, their addresses, and the memory the default dimensions are written into.
\<close>

record cluster_conf =
  cc_env :: sv_env
  cc_conf :: ds_conf
  cc_n :: nat
  cc_addr :: "nat \<Rightarrow> string"
  cc_gd0 :: coord

abbreviation cc_mv :: "cluster_conf \<Rightarrow> nat" where "cc_mv W \<equiv> cf_max_versions (cc_conf W)"
abbreviation cc_d :: "cluster_conf \<Rightarrow> int" where "cc_d W \<equiv> cf_ndim (cc_conf W)"

definition cc_domain :: "cluster_conf \<Rightarrow> bbox" where
  "cc_domain W = gdim_domain (cc_d W) (cf_dims (cc_conf W))"

definition cc_gdim :: "cluster_conf \<Rightarrow> global_dimension" where
  "cc_gdim W = \<lparr>gd_ndim = cc_d W, gd_sizes = take (nat (cc_d W)) (cf_dims (cc_conf W)) @ drop (nat (cc_d W)) (cc_gd0 W)\<rparr>"

definition base :: "cluster_conf \<Rightarrow> sspace" where
  "base W = the (ssd_alloc_v2 (cc_domain W) (cc_n W) (cc_mv W))"

text \<open>Hash version 2, one to nine dimensions of positive size, no Python module for the variables.\<close>

definition conf_ok :: "cluster_conf \<Rightarrow> bool" where
  "conf_ok W \<longleftrightarrow> cf_hash_version (cc_conf W) = hash_version_v2 \<and> 1 \<le> cc_d W \<and> cc_d W \<le> 9 \<and>
     length (cf_dims (cc_conf W)) = BBOX_MAX_NDIM \<and>
     (\<forall>i<nat (cc_d W). 0 < cf_dims (cc_conf W) ! i \<and> unat (cf_dims (cc_conf W) ! i) \<le> 9223372036854775808) \<and>
     0 < cc_mv W \<and> 0 < cc_n W \<and> cc_n W \<le> 2147483648 \<and> inj_on (cc_addr W) {..<cc_n W} \<and>
     wf_bbox (en_junk (cc_env W)) \<and> (\<forall>odsc. en_query (cc_env W) odsc = Mod_None)"

definition start_server :: "cluster_conf \<Rightarrow> nat \<Rightarrow> server" where
  "start_server W k =
     (case dsg_alloc (en_ijunk (cc_env W)) (cc_gd0 W) (cc_conf W) k (cc_n W) (cc_addr W k) None None of
        Some (Inr sv) \<Rightarrow> sv)"

definition srv_inv :: "cluster_conf \<Rightarrow> nat \<Rightarrow> obj_descriptor set \<Rightarrow> obj_data set \<Rightarrow> server \<Rightarrow> bool" where
  "srv_inv W k A Os sv \<longleftrightarrow> sv_rank sv = k \<and> k < cc_n W \<and> sv_remotes sv = None \<and> sv_ips sv = None \<and> sv_addr sv = cc_addr W k \<and>
     sv_default_gdim sv = cc_gdim W \<and> cache_ok 0 (base W) (sv_cache sv) \<and>
     (\<exists>ss. sv_spaces sv 0 = Some ss \<and> twin (base W) k ss \<and> entry_inv (cc_d W) (cc_mv W) (sv_brk sv) A (self_entry ss)) \<and>
     store_inv (cc_mv W) (sv_brk sv) Os (sv_ls sv)"

lemma domain_ok_cc:
  assumes "conf_ok W"
  shows "domain_ok (cc_domain W)" "num_dims (cc_domain W) = cc_d W"
proof -
  let ?D = "cc_domain W"
  have n: "nat (cc_d W) \<le> 9" "0 < cc_d W" using assms unfolding conf_ok_def by linarith+
  have dims: "0 < cf_dims (cc_conf W) ! i" "unat (cf_dims (cc_conf W) ! i) \<le> 9223372036854775808" if "i < nat (cc_d W)" for i
    using assms that unfolding conf_ok_def by blast+
  have sel: "num_dims ?D = cc_d W" "lb ?D = replicate BBOX_MAX_NDIM 0"
    "i < nat (cc_d W) \<Longrightarrow> ub ?D ! i = cf_dims (cc_conf W) ! i - 1" for i
    using n by (auto simp: cc_domain_def gdim_domain_def BBOX_MAX_NDIM_def)
  have "unat (x - 1) < 9223372036854775808" if "0 < x" "unat x \<le> 9223372036854775808" for x :: u64
    using that by (simp add: unat_minus_one word_gt_0)
  moreover have "wf_bbox ?D" using n by (simp add: wf_bbox_def cc_domain_def gdim_domain_def BBOX_MAX_NDIM_def)
  moreover have "nonempty_bbox ?D" using n sel by (simp add: nonempty_bbox_def BBOX_MAX_NDIM_def)
  ultimately show "domain_ok ?D" using n dims sel unfolding domain_ok_def by simp
  show "num_dims ?D = cc_d W" by (rule sel)
qed

lemma base_ok:
  assumes "conf_ok W"
  shows "ssd_alloc_v2 (cc_domain W) (cc_n W) (cc_mv W) = Some (base W)" "v2_space (cc_domain W) (cc_n W) (base W)"
  using ssd_alloc_v2_ok [OF domain_ok_cc(1) [OF assms], of "cc_n W" "cc_mv W"] assms by (auto simp: base_def conf_ok_def)

lemma round_robin_entries:
  assumes "\<forall>e\<in>set des. P e" "\<And>e b. P e \<Longrightarrow> P (e\<lparr>de_bbtab := b\<rparr>)" "des \<noteq> []"
  shows "\<forall>e\<in>set (round_robin i bs des). P e"
  using assms(1,3)
proof (induction bs arbitrary: i des)
  case (Cons b bs)
  let ?j = "i mod length des"
  have j: "?j < length des" using Cons.prems(2) by simp
  have "\<forall>e\<in>set (des[?j := (des ! ?j)\<lparr>de_bbtab := de_bbtab (des ! ?j) @ [b]\<rparr>]). P e"
    using Cons.prems(1) j assms(2) by (auto dest!: set_update_subset_insert [THEN subsetD])
  then show ?case using Cons.IH [of "des[?j := (des ! ?j)\<lparr>de_bbtab := de_bbtab (des ! ?j) @ [b]\<rparr>]"] Cons.prems(2) by (simp add: Let_def)
qed simp

definition fresh_entry :: "nat \<Rightarrow> dht_entry \<Rightarrow> bool" where
  "fresh_entry mv e \<longleftrightarrow> odsc_size e = mv \<and> odsc_hash e = replicate mv [] \<and> dht_subs e = replicate mv [] \<and> odsc_num e = 0"

lemma alloc_fresh:
  assumes "ssd_alloc_v2 bb n mv = Some ss"
  shows "\<forall>e\<in>set (ent_tab (ss_dht ss)). fresh_entry mv e"
proof -
  obtain bbs where n: "0 < n" and e: "ent_tab (ss_dht ss) = round_robin 0 bbs
      (map (\<lambda>i. (ent_tab (dht_alloc bb n mv) ! i)\<lparr>de_rank := int i\<rparr>) [0..<n])"
    using assms by (auto simp: ssd_alloc_v2_def bind_eq_Some_conv Let_def split: prod.splits if_splits)
  show ?thesis
    unfolding e using n by (intro round_robin_entries) (auto simp: fresh_entry_def dht_alloc_def dht_entry_alloc_def)
qed

lemma fresh_entry_inv: "fresh_entry mv e \<Longrightarrow> 0 < mv \<Longrightarrow> entry_inv d mv m {} e"
  by (auto simp: fresh_entry_def entry_inv_def de_inv_def table_ok_def dht_objs_def)

lemma start_inv:
  assumes "conf_ok W" "k < cc_n W"
  shows "srv_inv W k {} {} (start_server W k)"
proof -
  have len: "length (ent_tab (ss_dht (base W))) = cc_n W" using base_ok(2) [OF assms(1)] by (simp add: v2_space_def)
  let ?ss = "(base W)\<lparr>ss_rank := int k, ent_self := k\<rparr>"
  have c: "cf_hash_version (cc_conf W) = hash_version_v2" "cc_d W \<noteq> 0" "\<not> cc_d W > int BBOX_MAX_NDIM" "0 < cc_mv W"
    using assms(1) by (auto simp: conf_ok_def BBOX_MAX_NDIM_def)
  have "fresh_entry (cc_mv W) (self_entry ?ss)"
    using alloc_fresh [OF base_ok(1) [OF assms(1)]] assms(2) len by (simp add: self_entry_def)
  then have e: "entry_inv (cc_d W) (cc_mv W) 0 {} (self_entry ?ss)" using c(4) by (rule fresh_entry_inv)
  have "start_server W k = \<lparr>sv_conf = cc_conf W, sv_rank = k, sv_size = cc_n W, sv_default_gdim = cc_gdim W,
      sv_spaces = [0 \<mapsto> ?ss], sv_slist = [], sv_cache = [], sv_ls = ls_alloc (cc_mv W), sv_ps = ls_alloc (cc_mv W),
      sv_remotes = None, sv_drain = [], sv_addr = cc_addr W k, sv_ips = None, sv_brk = 0\<rparr>"
    using c(1-3) assms(2) len base_ok(1) [OF assms(1)]
    by (simp add: start_server_def dsg_alloc_def init_sspace_def ssd_alloc_def ssd_init_def cc_domain_def [symmetric] cc_gdim_def Let_def)
  then show ?thesis
    using e c(4) assms(2) ls_inv_alloc [OF c(4)]
    by (simp add: srv_inv_def cache_ok_def twin_def store_inv_def ls_objs_def) (simp add: ls_alloc_def stored_def)
qed

section \<open>Operations of a server\<close>

lemma srv_lookup:
  "srv_inv W k A Os sv \<Longrightarrow> global_dimension_equal gd (cc_gdim W) \<Longrightarrow> lookup_sspace env sv gd = Some (0, sv)"
  by (simp add: srv_inv_def lookup_sspace_def)

lemma srv_local_new:
  assumes ok: "conf_ok W" and inv: "srv_inv W k A Os sv"
    and o: "od_version odsc \<noteq> -1" "box_ok (cc_d W) (od_bb odsc)"
    and new: "\<And>x. x \<in> A \<Longrightarrow> same_bin (cc_mv W) odsc x \<Longrightarrow> \<not> bbox_does_intersect (od_bb odsc) (od_bb x)"
  obtains sv' where "obj_update_local_dht env sv 0 odsc DS_OBJ_NEW = Some sv'" "srv_inv W k (insert odsc A) Os sv'"
proof -
  obtain ss where ss: "sv_spaces sv 0 = Some ss" "twin (base W) k ss"
    "entry_inv (cc_d W) (cc_mv W) (sv_brk sv) A (self_entry ss)" using inv by (auto simp: srv_inv_def)
  have k: "k < length (ent_tab (ss_dht (base W)))" using inv base_ok(2) [OF ok] by (simp add: srv_inv_def v2_space_def)
  obtain de where de: "dht_add_entry (en_ijunk env) (en_junk env) (sv_brk sv) ss (self_entry ss) odsc = Some de"
    "entry_inv (cc_d W) (cc_mv W) (sv_brk sv + 1) (insert odsc A) de" "de_rank de = de_rank (self_entry ss)" "de_bbtab de = de_bbtab (self_entry ss)"
    by (rule entry_add [OF ss(3) o new])
  have "self_entry (set_self ss de) = de" using k twin_length [OF ss(2)] ss(2) by (simp add: twin_def)
  then have "srv_inv W k (insert odsc A) Os (sv\<lparr>sv_spaces := (sv_spaces sv)(0 \<mapsto> set_self ss de), sv_brk := sv_brk sv + 1\<rparr>)"
    using inv de(2) twin_set_self [OF ss(2) k de(3,4)] store_brk by (auto simp: srv_inv_def)
  with ss(1) de(1) show ?thesis by (intro that) (simp_all add: obj_update_local_dht_def DS_OBJ_NEW_def)
qed

lemma update_loop_ok:
  assumes "distinct rs" "k \<in> set rs \<Longrightarrow> obj_update_local_dht env sv sid (og_odsc og) (og_param og) = Some sv1"
    and "k \<notin> set rs \<Longrightarrow> sv1 = sv" "sv_rank sv = k" "sv_rank sv1 = k"
  shows "update_loop env (\<lambda>_. HG_SUCCESS) sid og i rs sv out = Some (dspaces_SUCCESS, sv1, out @ map (\<lambda>r. (r, og)) (filter (\<lambda>r. r \<noteq> k) rs))"
  using assms
proof (induction rs arbitrary: i sv out)
  case (Cons r rs)
  show ?case
  proof (cases "r = k")
    case True
    then have "obj_update_local_dht env sv sid (og_odsc og) (og_param og) = Some sv1" "k \<notin> set rs" using Cons.prems by auto
    moreover have "update_loop env (\<lambda>_. HG_SUCCESS) sid og (i + 1) rs sv1 out =
        Some (dspaces_SUCCESS, sv1, out @ map (\<lambda>r. (r, og)) (filter (\<lambda>r. r \<noteq> k) rs))"
      using Cons.IH [of sv1] Cons.prems \<open>k \<notin> set rs\<close> by auto
    ultimately show ?thesis using True Cons.prems(4) by simp
  next
    case False
    then show ?thesis using Cons.IH [of sv] Cons.prems by simp
  qed
qed simp

lemma targets_nonempty:
  assumes "conf_ok W" "box_ok (cc_d W) b" "points b \<subseteq> points (cc_domain W)"
  shows "targets (base W) b \<noteq> []"
proof -
  have b: "wf_bbox b" "nonempty_bbox b" "num_dims b = cc_d W" using assms(2) by (simp_all add: box_ok_def)
  obtain p where p: "p \<in> points b" using intersect_points [of b b] b by (auto simp: bbox_does_intersect_def bbox_intersect_ondim_def nonempty_bbox_def)
  then have "p \<in> points (cc_domain W)" using assms(3) by blast
  from owner_unique [OF base_ok(2) [OF assms(1)] this] obtain k c where
    k: "k < cc_n W" "c \<in> set (de_bbtab (ent_tab (ss_dht (base W)) ! k))" "p \<in> points c" by blast
  have "num_dims c = cc_d W" using v2_space_cells(1) [OF base_ok(2) [OF assms(1)] k(1,2)] domain_ok_cc(2) [OF assms(1)] by (simp add: cell_def)
  then have "(0, k) \<in> set (scan_v2 0 (base W) b)"
    using scan_v2_complete [of k "base W" c p b 0] k p b base_ok(2) [OF assms(1)] by (simp add: v2_space_def)
  then show ?thesis by (auto simp: targets_def)
qed

definition arrived :: "cluster_conf \<Rightarrow> nat \<Rightarrow> obj_descriptor \<Rightarrow> obj_descriptor set \<Rightarrow> obj_descriptor set" where
  "arrived W k odsc A = (if k \<in> set (targets (base W) (od_bb odsc)) then insert odsc A else A)"

lemma srv_update_dht:
  assumes ok: "conf_ok W" and inv: "srv_inv W k A Os sv"
    and o: "od_version odsc \<noteq> -1" "box_ok (cc_d W) (od_bb odsc)" "points (od_bb odsc) \<subseteq> points (cc_domain W)"
    and new: "\<And>x. x \<in> A \<Longrightarrow> same_bin (cc_mv W) odsc x \<Longrightarrow> \<not> bbox_does_intersect (od_bb odsc) (od_bb x)"
    and od: "obj_desc od = odsc" "global_dimension_equal (gdim od) (cc_gdim W)"
  obtains sv' where "obj_update_dht env (\<lambda>_. HG_SUCCESS) sv od DS_OBJ_NEW = Some (dspaces_SUCCESS, sv',
      map (\<lambda>r. (r, \<lparr>og_odsc = odsc, og_gdim = gdim od, og_param = DS_OBJ_NEW\<rparr>)) (filter (\<lambda>r. r \<noteq> k) (targets (base W) (od_bb odsc))))"
    "srv_inv W k (arrived W k odsc A) Os sv'"
proof -
  let ?rs = "targets (base W) (od_bb odsc)" and ?og = "\<lparr>og_odsc = odsc, og_gdim = gdim od, og_param = DS_OBJ_NEW\<rparr>"
  obtain ss where ss: "sv_spaces sv 0 = Some ss" "twin (base W) k ss" "cache_ok 0 (base W) (sv_cache sv)"
    using inv by (auto simp: srv_inv_def)
  obtain c where c: "hash_ranks env sv 0 (od_bb odsc) = Some (?rs, sv\<lparr>sv_cache := c\<rparr>)" "cache_ok 0 (base W) c"
    by (rule hash_ranks_ok [OF ss(1,2) base_ok(2) [OF ok] ss(3)])
  let ?sv = "sv\<lparr>sv_cache := c\<rparr>"
  have inv': "srv_inv W k A Os ?sv" using inv c(2) by (simp add: srv_inv_def)
  obtain sv1 where sv1: "obj_update_local_dht env ?sv 0 odsc DS_OBJ_NEW = Some sv1" "srv_inv W k (insert odsc A) Os sv1"
    by (rule srv_local_new [OF ok inv' o(1,2) new])
  define sv2 where "sv2 = (if k \<in> set ?rs then sv1 else ?sv)"
  have "update_loop env (\<lambda>_. HG_SUCCESS) 0 ?og 0 ?rs ?sv [] = Some (dspaces_SUCCESS, sv2, [] @ map (\<lambda>r. (r, ?og)) (filter (\<lambda>r. r \<noteq> k) ?rs))"
    using sv1 inv' by (intro update_loop_ok [OF targets_distinct]) (auto simp: sv2_def srv_inv_def)
  then have "obj_update_dht env (\<lambda>_. HG_SUCCESS) sv od DS_OBJ_NEW = Some (dspaces_SUCCESS, sv2, map (\<lambda>r. (r, ?og)) (filter (\<lambda>r. r \<noteq> k) ?rs))"
    using srv_lookup [OF inv od(2)] c(1) od(1) targets_nonempty [OF ok o(2,3)] by (simp add: obj_update_dht_def)
  moreover have "srv_inv W k (arrived W k odsc A) Os sv2" using sv1(2) inv' by (simp add: sv2_def arrived_def)
  ultimately show ?thesis by (rule that)
qed

text \<open>What a put of \<open>bg\<close> at server \<open>k\<close> stores, and the puts the statements below are about.\<close>

definition held_odsc :: "cluster_conf \<Rightarrow> nat \<times> bulk_gdim_t \<Rightarrow> obj_descriptor" where
  "held_odsc W p = (bg_odsc (snd p))\<lparr>od_owner := cc_addr W (fst p)\<rparr>"

definition held_od :: "cluster_conf \<Rightarrow> nat \<times> bulk_gdim_t \<Rightarrow> obj_data" where
  "held_od W p = (obj_data_blank (held_odsc W p) (Some (bg_data (snd p))))\<lparr>gdim := bg_gdim (snd p)\<rparr>"

definition put_ok :: "cluster_conf \<Rightarrow> bulk_gdim_t \<Rightarrow> bool" where
  "put_ok W bg \<longleftrightarrow> (let odsc = bg_odsc bg; se = unat (od_size odsc) in
     box_ok (cc_d W) (od_bb odsc) \<and> points (od_bb odsc) \<subseteq> points (cc_domain W) \<and> od_version odsc \<noteq> -1 \<and> 0 < se \<and>
     se * vol (od_bb odsc) < 2147483648 \<and> length (bg_data bg) = se * vol (od_bb odsc) \<and>
     od_flags odsc AND DS_CLIENT_STORAGE = 0 \<and> global_dimension_equal (bg_gdim bg) (cc_gdim W))"

lemma held_sel [simp]:
  "od_bb (held_odsc W p) = od_bb (bg_odsc (snd p))" "od_name (held_odsc W p) = od_name (bg_odsc (snd p))"
  "od_version (held_odsc W p) = od_version (bg_odsc (snd p))" "od_size (held_odsc W p) = od_size (bg_odsc (snd p))"
  "od_flags (held_odsc W p) = od_flags (bg_odsc (snd p))" "od_owner (held_odsc W p) = cc_addr W (fst p)"
  "obj_desc (held_od W p) = held_odsc W p" "data (held_od W p) = Some (bg_data (snd p))" "gdim (held_od W p) = bg_gdim (snd p)"
  by (simp_all add: held_odsc_def held_od_def)

definition put_msgs :: "cluster_conf \<Rightarrow> nat \<times> bulk_gdim_t \<Rightarrow> msgs" where
  "put_msgs W p = map (\<lambda>r. (r, \<lparr>og_odsc = held_odsc W p, og_gdim = bg_gdim (snd p), og_param = DS_OBJ_NEW\<rparr>))
     (filter (\<lambda>r. r \<noteq> fst p) (targets (base W) (od_bb (bg_odsc (snd p)))))"

lemma srv_put:
  assumes ok: "conf_ok W" and inv: "srv_inv W k A Os sv" and put: "put_ok W bg"
    and new: "\<And>x. x \<in> A \<union> obj_desc ` Os \<Longrightarrow> same_bin (cc_mv W) (bg_odsc bg) x \<Longrightarrow> \<not> bbox_does_intersect (od_bb (bg_odsc bg)) (od_bb x)"
  obtains sv' where "put_rpc env HG_SUCCESS HG_SUCCESS (\<lambda>_. HG_SUCCESS) sv bg = Some (dspaces_SUCCESS, sv', put_msgs W (k, bg))"
    "srv_inv W k (arrived W k (held_odsc W (k, bg)) A) (insert (held_od W (k, bg)) Os) sv'"
proof -
  let ?odsc = "held_odsc W (k, bg)" and ?od = "held_od W (k, bg)"
  have p: "box_ok (cc_d W) (od_bb ?odsc)" "points (od_bb ?odsc) \<subseteq> points (cc_domain W)" "od_version ?odsc \<noteq> -1"
    "global_dimension_equal (bg_gdim bg) (cc_gdim W)" "wf_bbox (od_bb ?odsc)" "nonempty_bbox (od_bb ?odsc)"
    "unat (od_size ?odsc) * vol (od_bb ?odsc) < 2147483648" "0 < unat (od_size ?odsc)"
    "length (bg_data bg) = unat (od_size ?odsc) * vol (od_bb ?odsc)"
    using put by (simp_all add: put_ok_def Let_def box_ok_def)
  have size: "unat (obj_data_size ?odsc) = length (bg_data bg)" using obj_data_size_eq [OF p(5,6)] p(7-9) by simp
  then have small: "unat (obj_data_size ?odsc) < 2147483648" using p(7,9) by simp
  obtain d where d: "obj_data_alloc (en_mem env) ?odsc = Some (obj_data_blank ?odsc (Some d))" "length d = length (bg_data bg)"
    using obj_data_alloc_Some [OF small] size by auto
  have own: "odsc_take_ownership sv (bg_odsc bg) = Some ?odsc" using inv by (simp add: odsc_take_ownership_def srv_inv_def held_odsc_def)
  have od: "(obj_data_blank ?odsc (Some d))\<lparr>gdim := bg_gdim bg, data := Some (bg_data bg)\<rparr> = ?od"
    by (simp add: held_od_def obj_data_blank_def)
  have "store_inv (cc_mv W) (sv_brk sv) Os (sv_ls sv)" using inv by (simp add: srv_inv_def)
  then have "store_inv (cc_mv W) (sv_brk sv + 1) (insert ?od Os) (sv_ls (sv_store sv ?od))"
    using new store_add [of "cc_mv W" "sv_brk sv" Os "sv_ls sv" ?od] by (auto simp: sv_store_def Let_def same_bin_def)
  then have st: "srv_inv W k A (insert ?od Os) (sv_store sv ?od)"
    using inv entry_brk by (auto simp: srv_inv_def sv_store_def Let_def)
  obtain sv' where sv': "obj_update_dht env (\<lambda>_. HG_SUCCESS) (sv_store sv ?od) ?od DS_OBJ_NEW = Some (dspaces_SUCCESS, sv', put_msgs W (k, bg))"
    "srv_inv W k (arrived W k ?odsc A) (insert ?od Os) sv'"
    using srv_update_dht [OF ok st p(3,1,2), of ?od env] new p(4) unfolding put_msgs_def by (auto simp: same_bin_def)
  have "put_rpc env HG_SUCCESS HG_SUCCESS (\<lambda>_. HG_SUCCESS) sv bg = Some (dspaces_SUCCESS, sv', put_msgs W (k, bg))"
    using own d size sv'(1) by (simp add: put_rpc_def Let_def memcpy_def od)
  then show ?thesis using sv'(2) by (rule that)
qed

lemma srv_deliver:
  assumes ok: "conf_ok W" and inv: "srv_inv W k A Os sv"
    and o: "od_version odsc \<noteq> -1" "box_ok (cc_d W) (od_bb odsc)" "global_dimension_equal gd (cc_gdim W)"
    and new: "\<And>x. x \<in> A \<Longrightarrow> same_bin (cc_mv W) odsc x \<Longrightarrow> \<not> bbox_does_intersect (od_bb odsc) (od_bb x)"
  obtains sv' where "obj_update_rpc env sv \<lparr>og_odsc = odsc, og_gdim = gd, og_param = DS_OBJ_NEW\<rparr> = Some sv'" "srv_inv W k (insert odsc A) Os sv'"
proof -
  obtain sv' where "obj_update_local_dht env sv 0 odsc DS_OBJ_NEW = Some sv'" "srv_inv W k (insert odsc A) Os sv'"
    by (rule srv_local_new [OF ok inv o(1,2) new])
  with srv_lookup [OF inv o(3)] show ?thesis by (intro that) (simp_all add: obj_update_rpc_def)
qed

section \<open>Queries at one server\<close>

lemma entry_bin:
  assumes "entry_inv d mv m A de"
  shows "(\<exists>a\<in>set (odsc_hash de ! de_bin de q). odsc_mem de a = Some x) \<longleftrightarrow> x \<in> A \<and> de_bin de x = de_bin de q"
proof -
  have d: "de_inv de" "length (odsc_hash de) = odsc_size de" "dht_objs de = A" using assms by (simp_all add: entry_inv_def de_inv_def)
  note less = de_bin_less [OF d(1)]
  show ?thesis
  proof
    assume "\<exists>a\<in>set (odsc_hash de ! de_bin de q). odsc_mem de a = Some x"
    then obtain a where a: "a \<in> set (odsc_hash de ! de_bin de q)" "odsc_mem de a = Some x" by blast
    have "a \<in> set (concat (odsc_hash de))" using a(1) less [of q] d(2) unfolding in_concat_bin by auto
    then have "x \<in> A" using a(2) unfolding d(3) [symmetric] dht_objs_def by blast
    with a node_mem [OF d(1) a(1) less] show "x \<in> A \<and> de_bin de x = de_bin de q" by (metis option.inject)
  next
    assume x: "x \<in> A \<and> de_bin de x = de_bin de q"
    then obtain a where a: "a \<in> set (concat (odsc_hash de))" "odsc_mem de a = Some x" using d(3) unfolding dht_objs_def by blast
    then obtain i where i: "i < odsc_size de" "a \<in> set (odsc_hash de ! i)" using d(2) unfolding in_concat_bin by auto
    have "de_bin de x = i" by (rule node_mem [OF d(1) i(2,1)]) (use a(2) in auto)
    with x i a show "\<exists>a\<in>set (odsc_hash de ! de_bin de q). odsc_mem de a = Some x" by auto
  qed
qed

lemma entry_cov:
  assumes "entry_inv d mv m A de"
  shows "cov de q = (\<Union>x\<in>{x \<in> A. same_var q x}. points (od_bb x))"
proof -
  have "de_bin de x = de_bin de q" if "same_var q x" for x using that by (simp add: same_var_def de_bin_def)
  moreover have "cov de q = (\<Union>x\<in>{x. (\<exists>a\<in>set (odsc_hash de ! de_bin de q). odsc_mem de a = Some x) \<and> same_var q x}. points (od_bb x))"
    unfolding cov_def piece_def by (auto split: option.splits if_splits) blast
  ultimately show ?thesis unfolding entry_bin [OF assms] by auto
qed

lemma entry_hits:
  assumes "entry_inv d mv m A de"
  obtains tab where "node_odscs de q (hits de q) = Some tab" "set tab = crop_odsc q ` {x \<in> A. obj_desc_equals_intersect x q}"
proof -
  let ?f = "\<lambda>a. crop_odsc q (the (odsc_mem de a))"
  have mem: "\<exists>x. odsc_mem de a = Some x" if "a \<in> set (hits de q)" for a
    using that by (auto simp: hits_def node_sat_def split: option.splits)
  have "de_bin de x = de_bin de q" if "obj_desc_equals_intersect x q" for x using that by (simp add: obj_desc_equals_intersect_def de_bin_def)
  then have A: "{x \<in> A. obj_desc_equals_intersect x q} =
      {x. (\<exists>a\<in>set (odsc_hash de ! de_bin de q). odsc_mem de a = Some x) \<and> obj_desc_equals_intersect x q}"
    using entry_bin [OF assms, of q] by auto
  have "those (map (\<lambda>a. map_option (crop_odsc q) (odsc_mem de a)) (hits de q)) = Some (map ?f (hits de q))"
    by (rule those_map_Some) (use mem in force)
  moreover have "set (map ?f (hits de q)) = crop_odsc q ` {x \<in> A. obj_desc_equals_intersect x q}"
    unfolding A by (force simp: hits_def node_sat_def split: option.splits)
  ultimately show ?thesis unfolding node_odscs_def [symmetric] by (rule that)
qed

definition cells_of :: "sspace \<Rightarrow> nat \<Rightarrow> u64 list set" where
  "cells_of S0 k = (\<Union>b\<in>set (de_bbtab (ent_tab (ss_dht S0) ! k)). points b)"

lemma srv_find:
  assumes ok: "conf_ok W" and inv: "srv_inv W k A Os sv" and q: "box_ok (cc_d W) (od_bb q)"
    and cover: "points (od_bb q) \<inter> cells_of (base W) k \<subseteq> (\<Union>x\<in>{x \<in> A. same_var q x}. points (od_bb x))"
  obtains tab where "local_find (cc_env W) t sv 0 q timeout = Some (Some tab, sv)"
    "set tab = crop_odsc q ` {x \<in> A. obj_desc_equals_intersect x q}"
proof -
  obtain ss where ss: "sv_spaces sv 0 = Some ss" "twin (base W) k ss"
    "entry_inv (cc_d W) (cc_mv W) (sv_brk sv) A (self_entry ss)" using inv by (auto simp: srv_inv_def)
  have k: "k < cc_n W" "k < length (ent_tab (ss_dht (base W)))" using inv base_ok(2) [OF ok] by (simp_all add: srv_inv_def v2_space_def)
  have sp: "v2_space (cc_domain W) (cc_n W) ss" "ent_self ss = k" using twin_space [OF ss(2) base_ok(2) [OF ok]] ss(2) by (simp_all add: twin_def)
  have junk: "wf_bbox (en_junk (cc_env W))" using ok by (simp add: conf_ok_def)
  have c: "counted_space ss (en_ijunk (cc_env W)) (en_junk (cc_env W)) (own_cells ss) (cc_d W)"
    using v2_counted [OF sp(1) _ junk, of "en_ijunk (cc_env W)"] sp(2) k(1) domain_ok_cc(2) [OF ok] by simp
  have own: "own_cells ss = cells_of (base W) k" using twin_nth(1) [OF ss(2) k(2)] sp(2) by (simp add: own_cells_def cells_of_def)
  let ?de = "self_entry ss"
  have de: "de_inv ?de" "table_ok (cc_d W) ?de" using ss(3) by (simp_all add: entry_inv_def)
  have "miss (own_cells ss) ?de q = 0" using cover by (simp add: miss_0_iff own entry_cov [OF ss(3)])
  then have f: "dht_find_entry_all (en_ijunk (cc_env W)) (en_junk (cc_env W)) t ss (ent_self ss) ?de q timeout = Some (Found (hits ?de q), ?de)"
    using counted_space.find_all [OF c de(1) q table_ok_tiled [OF de]] by simp
  obtain tab where tab: "node_odscs ?de q (hits ?de q) = Some tab" "set tab = crop_odsc q ` {x \<in> A. obj_desc_equals_intersect x q}"
    by (rule entry_hits [OF ss(3)])
  have "set_self ss ?de = ss" by (simp add: set_self_def self_entry_def)
  then have "sv\<lparr>sv_spaces := (sv_spaces sv)(0 \<mapsto> set_self ss ?de)\<rparr> = sv" using ss(1) by (simp add: fun_upd_idem)
  then have "local_find (cc_env W) t sv 0 q timeout = Some (Some tab, sv)"
    using ss(1) f tab(1) by (simp add: local_find_def)
  then show ?thesis using tab(2) by (rule that)
qed

lemma srv_route: "conf_ok W \<Longrightarrow> route_request (cc_env W) hret sv q gd = Some (0, q, sv, [])"
  by (simp add: route_request_def conf_ok_def)

lemma srv_internal:
  assumes "conf_ok W" "srv_inv W k A Os sv" "box_ok (cc_d W) (od_bb (og_odsc og))"
    and "points (od_bb (og_odsc og)) \<inter> cells_of (base W) k \<subseteq> (\<Union>x\<in>{x \<in> A. same_var (og_odsc og) x}. points (od_bb x))"
    and "global_dimension_equal (og_gdim og) (cc_gdim W)"
  obtains tab where "odsc_internal_rpc (cc_env W) t hret sv og = Some (Done tab, sv, [])"
    "set tab = crop_odsc (og_odsc og) ` {x \<in> A. obj_desc_equals_intersect x (og_odsc og)}"
proof -
  obtain tab where "local_find (cc_env W) t sv 0 (og_odsc og) (og_param og) = Some (Some tab, sv)"
    "set tab = crop_odsc (og_odsc og) ` {x \<in> A. obj_desc_equals_intersect x (og_odsc og)}"
    by (rule srv_find [OF assms(1-4)])
  with srv_lookup [OF assms(2,5)] srv_route [OF assms(1)] show ?thesis by (intro that) (simp_all add: odsc_internal_rpc_def)
qed

section \<open>Runs of the cluster\<close>

text \<open>
  The servers and the DHT updates on their way. A put is handled by one server; the updates it sends are
  delivered in any order, between and after other puts. The log records the puts. Puts of one name whose
  versions share a bin have disjoint boxes.
\<close>

record cluster =
  cl_servers :: "server list"
  cl_msgs :: "(nat \<times> odsc_gdim_t) multiset"

definition clash :: "cluster_conf \<Rightarrow> bulk_gdim_t \<Rightarrow> bulk_gdim_t \<Rightarrow> bool" where
  "clash W b1 b2 \<longleftrightarrow> same_bin (cc_mv W) (bg_odsc b1) (bg_odsc b2) \<and> bbox_does_intersect (od_bb (bg_odsc b1)) (od_bb (bg_odsc b2))"

inductive cl_deliver :: "cluster_conf \<Rightarrow> cluster \<Rightarrow> cluster \<Rightarrow> bool" for W where
  "(k, og) \<in># cl_msgs s \<Longrightarrow> obj_update_rpc (cc_env W) (cl_servers s ! k) og = Some sv' \<Longrightarrow>
    cl_deliver W s (s\<lparr>cl_servers := (cl_servers s)[k := sv'], cl_msgs := cl_msgs s - {#(k, og)#}\<rparr>)"

inductive cl_reach :: "cluster_conf \<Rightarrow> (nat \<times> bulk_gdim_t) list \<Rightarrow> cluster \<Rightarrow> bool" for W where
  start: "cl_reach W [] \<lparr>cl_servers = map (start_server W) [0..<cc_n W], cl_msgs = {#}\<rparr>"
| put: "cl_reach W log s \<Longrightarrow> k < cc_n W \<Longrightarrow> put_ok W bg \<Longrightarrow> (\<forall>p\<in>set log. \<not> clash W bg (snd p)) \<Longrightarrow>
    put_rpc (cc_env W) HG_SUCCESS HG_SUCCESS (\<lambda>_. HG_SUCCESS) (cl_servers s ! k) bg = Some (ret, sv', out) \<Longrightarrow>
    cl_reach W (log @ [(k, bg)]) (s\<lparr>cl_servers := (cl_servers s)[k := sv'], cl_msgs := cl_msgs s + mset out\<rparr>)"
| deliver: "cl_reach W log s \<Longrightarrow> cl_deliver W s s' \<Longrightarrow> cl_reach W log s'"

inductive_cases cl_deliverE: "cl_deliver W s s'"

definition log_ok :: "cluster_conf \<Rightarrow> (nat \<times> bulk_gdim_t) list \<Rightarrow> bool" where
  "log_ok W log \<longleftrightarrow> (\<forall>p\<in>set log. fst p < cc_n W \<and> put_ok W (snd p)) \<and>
     (\<forall>p\<in>set log. \<forall>p'\<in>set log. clash W (snd p) (snd p') \<longrightarrow> p = p')"

definition og_of :: "cluster_conf \<Rightarrow> nat \<times> bulk_gdim_t \<Rightarrow> odsc_gdim_t" where
  "og_of W p = \<lparr>og_odsc = held_odsc W p, og_gdim = bg_gdim (snd p), og_param = DS_OBJ_NEW\<rparr>"

abbreviation goes_to :: "cluster_conf \<Rightarrow> nat \<times> bulk_gdim_t \<Rightarrow> nat set" where
  "goes_to W p \<equiv> set (targets (base W) (od_bb (bg_odsc (snd p))))"

definition there :: "cluster_conf \<Rightarrow> (nat \<times> bulk_gdim_t) list \<Rightarrow> (nat \<times> odsc_gdim_t) multiset \<Rightarrow> nat \<Rightarrow> obj_descriptor set" where
  "there W log M k = held_odsc W ` {p \<in> set log. k \<in> goes_to W p \<and> (k, og_of W p) \<notin># M}"

definition kept :: "cluster_conf \<Rightarrow> (nat \<times> bulk_gdim_t) list \<Rightarrow> nat \<Rightarrow> obj_data set" where
  "kept W log k = held_od W ` {p \<in> set log. fst p = k}"

definition cl_inv :: "cluster_conf \<Rightarrow> (nat \<times> bulk_gdim_t) list \<Rightarrow> cluster \<Rightarrow> bool" where
  "cl_inv W log s \<longleftrightarrow> log_ok W log \<and> length (cl_servers s) = cc_n W \<and>
     (\<forall>m. count (cl_msgs s) m \<le> 1) \<and> (\<forall>m\<in>#cl_msgs s. \<exists>p\<in>set log. m \<in> set (put_msgs W p)) \<and>
     (\<forall>k<cc_n W. srv_inv W k (there W log (cl_msgs s) k) (kept W log k) (cl_servers s ! k))"

lemma clash_self: "put_ok W bg \<Longrightarrow> clash W bg bg"
  by (auto simp: clash_def same_bin_def put_ok_def Let_def box_ok_def bbox_does_intersect_def bbox_intersect_ondim_def nonempty_bbox_def)

lemma clash_sym: "put_ok W b1 \<Longrightarrow> put_ok W b2 \<Longrightarrow> clash W b1 b2 = clash W b2 b1"
  using does_intersect_sym by (auto simp: clash_def same_bin_def put_ok_def Let_def box_ok_def)

lemma log_snoc:
  assumes "log_ok W log" "k < cc_n W" "put_ok W bg" "\<forall>p\<in>set log. \<not> clash W bg (snd p)"
  shows "log_ok W (log @ [(k, bg)])" "(k, bg) \<notin> set log"
proof -
  have "\<not> clash W (snd p) bg" if "p \<in> set log" for p using assms that clash_sym [of W bg "snd p"] by (simp add: log_ok_def)
  with assms show "log_ok W (log @ [(k, bg)])" unfolding log_ok_def by auto
  show "(k, bg) \<notin> set log" using assms(4) clash_self [OF assms(3)] by (metis snd_conv)
qed

lemma held_inj:
  assumes "log_ok W log" "p \<in> set log" "p' \<in> set log" "held_odsc W p = held_odsc W p'"
  shows "p = p'"
proof -
  have "same_bin (cc_mv W) (bg_odsc (snd p)) (bg_odsc (snd p'))" "od_bb (bg_odsc (snd p)) = od_bb (bg_odsc (snd p'))"
    using assms(4) unfolding same_bin_def by (metis held_sel(1-3))+
  moreover have "clash W (snd p) (snd p)" using assms(1,2) by (intro clash_self) (auto simp: log_ok_def)
  ultimately have "clash W (snd p) (snd p')" by (simp add: clash_def)
  with assms(1-3) show ?thesis by (auto simp: log_ok_def)
qed

lemma og_of_inj:
  "log_ok W log \<Longrightarrow> p \<in> set log \<Longrightarrow> p' \<in> set log \<Longrightarrow> og_of W p = og_of W p' \<Longrightarrow> p = p'"
  unfolding og_of_def by (rule held_inj) (assumption | blast | metis odsc_gdim_t.ext_inject)+

lemma mem_put_msgs: "(j, og) \<in> set (put_msgs W p) \<longleftrightarrow> og = og_of W p \<and> j \<in> goes_to W p \<and> j \<noteq> fst p"
  by (auto simp: put_msgs_def og_of_def)

lemma distinct_put_msgs: "distinct (put_msgs W p)"
  by (auto simp: put_msgs_def distinct_map inj_on_def targets_distinct)

lemma no_clash_there:
  assumes "log_ok W log" "p \<in> set log" "x \<in> there W log M k" "held_odsc W p \<noteq> x"
    and "same_bin (cc_mv W) (held_odsc W p) x"
  shows "\<not> bbox_does_intersect (od_bb (held_odsc W p)) (od_bb x)"
proof
  assume i: "bbox_does_intersect (od_bb (held_odsc W p)) (od_bb x)"
  obtain p' where "p' \<in> set log" "x = held_odsc W p'" using assms(3) by (auto simp: there_def)
  with i assms show False by (auto simp: log_ok_def clash_def same_bin_def)
qed

lemma there_put:
  assumes "log_ok W (log @ [p])" "p \<notin> set log" "\<forall>m\<in>#M. \<exists>p\<in>set log. m \<in> set (put_msgs W p)"
  shows "there W (log @ [p]) (M + mset (put_msgs W p)) k =
    (if k = fst p then arrived W k (held_odsc W p) (there W log M k) else there W log M k)"
proof -
  have old: "(k, og_of W p') \<notin> set (put_msgs W p)" if "p' \<in> set log" for p'
    using og_of_inj [OF assms(1), of p' p] that assms(2) by (auto simp: mem_put_msgs)
  have new: "(k, og_of W p) \<notin># M"
  proof
    assume "(k, og_of W p) \<in># M"
    then obtain p' where "p' \<in> set log" "(k, og_of W p) \<in> set (put_msgs W p')" using assms(3) by blast
    then show False using og_of_inj [OF assms(1), of p p'] assms(2) by (auto simp: mem_put_msgs)
  qed
  show ?thesis
    using old new by (auto simp: there_def arrived_def mem_put_msgs)
qed

lemma cl_inv_put:
  assumes ok: "conf_ok W" and inv: "cl_inv W log s" and k: "k < cc_n W" and put: "put_ok W bg" "\<forall>p\<in>set log. \<not> clash W bg (snd p)"
  obtains sv' where "put_rpc (cc_env W) HG_SUCCESS HG_SUCCESS (\<lambda>_. HG_SUCCESS) (cl_servers s ! k) bg =
      Some (dspaces_SUCCESS, sv', put_msgs W (k, bg))"
    "cl_inv W (log @ [(k, bg)]) (s\<lparr>cl_servers := (cl_servers s)[k := sv'], cl_msgs := cl_msgs s + mset (put_msgs W (k, bg))\<rparr>)"
proof -
  let ?p = "(k, bg)" and ?M = "cl_msgs s"
  have i: "log_ok W log" "length (cl_servers s) = cc_n W" "\<forall>m. count ?M m \<le> 1" "\<forall>m\<in>#?M. \<exists>p\<in>set log. m \<in> set (put_msgs W p)"
    "\<And>j. j < cc_n W \<Longrightarrow> srv_inv W j (there W log ?M j) (kept W log j) (cl_servers s ! j)"
    using inv by (auto simp: cl_inv_def)
  note snoc = log_snoc [OF i(1) k put]
  have "\<not> bbox_does_intersect (od_bb (bg_odsc bg)) (od_bb x)"
    if "x \<in> there W log ?M k \<union> obj_desc ` kept W log k" "same_bin (cc_mv W) (bg_odsc bg) x" for x
    using that put(2) by (auto simp: there_def kept_def clash_def same_bin_def)
  then obtain sv' where sv': "put_rpc (cc_env W) HG_SUCCESS HG_SUCCESS (\<lambda>_. HG_SUCCESS) (cl_servers s ! k) bg =
      Some (dspaces_SUCCESS, sv', put_msgs W ?p)"
    "srv_inv W k (arrived W k (held_odsc W ?p) (there W log ?M k)) (insert (held_od W ?p) (kept W log k)) sv'"
    using srv_put [OF ok i(5) [OF k] put(1)] by blast
  note th = there_put [OF snoc i(4)]
  have kp: "kept W (log @ [?p]) j = (if j = k then insert (held_od W ?p) (kept W log j) else kept W log j)" for j
    by (auto simp: kept_def)
  have cnt: "count (?M + mset (put_msgs W ?p)) m \<le> 1" for m
  proof (cases "m \<in> set (put_msgs W ?p)")
    case True
    have "m \<notin># ?M"
    proof
      assume "m \<in># ?M"
      then obtain p' where "p' \<in> set log" "m \<in> set (put_msgs W p')" using i(4) by blast
      with True have "og_of W ?p = og_of W p'" unfolding mem_put_msgs [where j = "fst m" and og = "snd m", simplified] by simp
      with \<open>p' \<in> set log\<close> show False using og_of_inj [OF snoc(1), of ?p p'] snoc(2) by auto
    qed
    then show ?thesis using True distinct_put_msgs [of W ?p] 
      unfolding distinct_count_atmost_1 by (metis add_0 count_union le_refl not_in_iff)
  next
    case False
    then show ?thesis using spec [OF i(3), of m] by (simp add: count_eq_zero_iff [THEN iffD2])
  qed
  have "srv_inv W j (there W (log @ [?p]) (?M + mset (put_msgs W ?p)) j) (kept W (log @ [?p]) j) ((cl_servers s)[k := sv'] ! j)"
    if "j < cc_n W" for j using sv'(2) i(2,5) that k unfolding th kp by (cases "j = k") simp_all
  moreover have "\<forall>m\<in>#?M + mset (put_msgs W ?p). \<exists>p\<in>set (log @ [?p]). m \<in> set (put_msgs W p)" using i(4) by auto
  ultimately have "cl_inv W (log @ [?p]) (s\<lparr>cl_servers := (cl_servers s)[k := sv'], cl_msgs := ?M + mset (put_msgs W ?p)\<rparr>)"
    using snoc(1) i(2) cnt unfolding cl_inv_def by simp
  with sv'(1) show ?thesis by (rule that)
qed

lemma cl_inv_deliver:
  assumes ok: "conf_ok W" and inv: "cl_inv W log s" and m: "(k, og) \<in># cl_msgs s"
  obtains sv' where "obj_update_rpc (cc_env W) (cl_servers s ! k) og = Some sv'"
    "cl_inv W log (s\<lparr>cl_servers := (cl_servers s)[k := sv'], cl_msgs := cl_msgs s - {#(k, og)#}\<rparr>)"
proof -
  let ?M = "cl_msgs s"
  have i: "log_ok W log" "length (cl_servers s) = cc_n W" "\<forall>m. count ?M m \<le> 1" "\<forall>m\<in>#?M. \<exists>p\<in>set log. m \<in> set (put_msgs W p)"
    "\<And>j. j < cc_n W \<Longrightarrow> srv_inv W j (there W log ?M j) (kept W log j) (cl_servers s ! j)"
    using inv by (auto simp: cl_inv_def)
  obtain p where p: "p \<in> set log" "og = og_of W p" "k \<in> goes_to W p" using i(4) m by (auto simp: mem_put_msgs)
  have k: "k < cc_n W" using p(3) base_ok(2) [OF ok] by (simp add: targets_iff v2_space_def)
  have put: "put_ok W (snd p)" using p(1) i(1) by (auto simp: log_ok_def)
  have notin: "held_odsc W p \<notin> there W log ?M k"
    using held_inj [OF i(1) p(1)] m p(2) by (auto simp: there_def)
  obtain sv' where sv': "obj_update_rpc (cc_env W) (cl_servers s ! k) og = Some sv'"
    "srv_inv W k (insert (held_odsc W p) (there W log ?M k)) (kept W log k) sv'"
  proof -
    have "\<not> bbox_does_intersect (od_bb (held_odsc W p)) (od_bb x)" if "x \<in> there W log ?M k" "same_bin (cc_mv W) (held_odsc W p) x" for x
      using no_clash_there [OF i(1) p(1) that(1) _ that(2)] notin that(1) by blast
    from srv_deliver [OF ok i(5) [OF k] _ _ _ this, of "bg_gdim (snd p)" "cc_env W"] put that
    show ?thesis by (auto simp: put_ok_def Let_def p(2) og_of_def)
  qed
  have gone: "(j, og') \<in># ?M - {#(k, og)#} \<longleftrightarrow> (j, og') \<in># ?M \<and> (j, og') \<noteq> (k, og)" for j og'
    using i(3) [rule_format, of "(k, og)"] m by (cases "(j, og') = (k, og)") (auto simp: in_diff_count count_eq_zero_iff [symmetric] in_diff_count)
  have th: "there W log (?M - {#(k, og)#}) j = (if j = k then insert (held_odsc W p) (there W log ?M j) else there W log ?M j)" for j
    unfolding there_def gone using og_of_inj [OF i(1) p(1)] p by (cases "j = k") fastforce+
  have "srv_inv W j (there W log (?M - {#(k, og)#}) j) (kept W log j) ((cl_servers s)[k := sv'] ! j)" if "j < cc_n W" for j
    using sv'(2) i(2,5) that k unfolding th by (cases "j = k") simp_all
  moreover have "\<forall>m. count (?M - {#(k, og)#}) m \<le> 1" using i(3) by (auto intro: order_trans [OF diff_le_self])
  moreover have "\<forall>m\<in>#?M - {#(k, og)#}. \<exists>p\<in>set log. m \<in> set (put_msgs W p)" using i(4) by (auto dest: in_diffD)
  ultimately have "cl_inv W log (s\<lparr>cl_servers := (cl_servers s)[k := sv'], cl_msgs := ?M - {#(k, og)#}\<rparr>)"
    using i(1,2) unfolding cl_inv_def by simp
  with sv'(1) show ?thesis by (rule that)
qed

lemma cl_reach_inv:
  assumes ok: "conf_ok W"
  shows "cl_reach W log s \<Longrightarrow> cl_inv W log s"
proof (induction rule: cl_reach.induct)
  case start
  then show ?case using start_inv [OF ok] by (simp add: cl_inv_def log_ok_def there_def kept_def)
next
  case (put log s k bg ret sv' out)
  from cl_inv_put [OF ok put.IH put.hyps(2-4)] put.hyps(5) show ?case by (metis option.inject prod.inject)
next
  case (deliver log s s')
  from deliver.hyps(2) show ?case
  proof (rule cl_deliverE)
    fix k og sv'
    assume "s' = s\<lparr>cl_servers := (cl_servers s)[k := sv'], cl_msgs := cl_msgs s - {#(k, og)#}\<rparr>"
      "(k, og) \<in># cl_msgs s" "obj_update_rpc (cc_env W) (cl_servers s ! k) og = Some sv'"
    then show ?thesis using cl_inv_deliver [OF ok deliver.IH, of k og] by (metis option.inject)
  qed
qed

text \<open>Nothing gets stuck: a put that does not clash is accepted, and every update on its way can be delivered.\<close>

lemma cl_accepts:
  assumes "conf_ok W" "cl_reach W log s" "k < cc_n W" "put_ok W bg" "\<forall>p\<in>set log. \<not> clash W bg (snd p)"
  shows "\<exists>s'. cl_reach W (log @ [(k, bg)]) s'"
  using cl_inv_put [OF assms(1) cl_reach_inv [OF assms(1,2)] assms(3-5)] cl_reach.put [OF assms(2-5)] by metis

lemma cl_deliver_size: "cl_deliver W s s' \<Longrightarrow> size (cl_msgs s') < size (cl_msgs s)"
  by (erule cl_deliverE) (auto dest!: multi_member_split)

lemma cl_can_deliver:
  assumes ok: "conf_ok W" and reach: "cl_reach W log s" and "cl_msgs s \<noteq> {#}"
  shows "\<exists>s'. cl_deliver W s s'"
proof -
  obtain k og where m: "(k, og) \<in># cl_msgs s" using assms(3) by (metis multiset_nonemptyE surj_pair)
  with cl_inv_deliver [OF ok cl_reach_inv [OF ok reach] m] cl_deliver.intros [OF m] show ?thesis by metis
qed

lemma cl_drains:
  assumes ok: "conf_ok W" and "cl_reach W log s"
  shows "\<exists>s'. cl_reach W log s' \<and> cl_msgs s' = {#}"
  using assms(2)
proof (induction "size (cl_msgs s)" arbitrary: s rule: less_induct)
  case less
  show ?case
  proof (cases "cl_msgs s = {#}")
    case False
    then obtain s' where "cl_deliver W s s'" using cl_can_deliver [OF ok less.prems] by blast
    with less show ?thesis by (metis cl_deliver_size cl_reach.deliver)
  qed (use less.prems in blast)
qed

section \<open>Queries to the cluster\<close>

text \<open>
  A query at server \<open>r\<close>; the other servers answer it with \<^verbatim>\<open>odsc_internal_rpc\<close>. A peer whose handler
  waits or has no result counts as an empty answer here, and what a query changes in a peer (the cache of
  its hash) is dropped; the theorems are about covered queries, which every peer answers at once.
\<close>

definition ask_peer :: "cluster_conf \<Rightarrow> cluster \<Rightarrow> nat \<Rightarrow> nat \<Rightarrow> odsc_gdim_t \<Rightarrow> obj_descriptor list" where
  "ask_peer W s t k og =
     (case odsc_internal_rpc (cc_env W) t (\<lambda>_. HG_SUCCESS) (cl_servers s ! k) og of
        Some (Done tab, _) \<Rightarrow> tab | _ \<Rightarrow> [])"

definition cluster_query :: "cluster_conf \<Rightarrow> cluster \<Rightarrow> nat \<Rightarrow> nat \<Rightarrow> odsc_gdim_t \<Rightarrow> query_ans option" where
  "cluster_query W s t r og =
     map_option fst (query_rpc (cc_env W) t (ask_peer W s t) (\<lambda>_. HG_SUCCESS) (cl_servers s ! r) og)"

lemma merge_tabs_ok:
  assumes "\<And>x y. x \<in> set (concat tabs) \<Longrightarrow> y \<in> set (concat tabs) \<Longrightarrow> obj_desc_equals_no_owner x y \<longleftrightarrow> x = y"
  shows "set (merge_tabs tabs) = set (concat tabs) \<and> distinct (merge_tabs tabs)"
proof -
  have "set (fold dedup_add xs acc) = set acc \<union> set xs \<and> distinct (fold dedup_add xs acc)"
    if "distinct acc" "\<And>x y. x \<in> set (acc @ xs) \<Longrightarrow> y \<in> set (acc @ xs) \<Longrightarrow> obj_desc_equals_no_owner x y \<longleftrightarrow> x = y" for xs acc
    using that
  proof (induction xs arbitrary: acc)
    case (Cons x xs)
    have "list_ex (\<lambda>r. obj_desc_equals_no_owner r x) acc \<longleftrightarrow> x \<in> set acc" using Cons.prems(2) by (auto simp: list_ex_iff)
    then have "dedup_add x acc = (if x \<in> set acc then acc else acc @ [x])" by (simp add: dedup_add_def)
    then show ?case using Cons.IH [of "dedup_add x acc"] Cons.prems by auto
  qed simp
  from this [of "[]" "concat tabs"] assms show ?thesis by (simp add: merge_tabs_def)
qed

text \<open>The puts that meet a query, and that they cover it.\<close>

definition meets :: "cluster_conf \<Rightarrow> (nat \<times> bulk_gdim_t) list \<Rightarrow> obj_descriptor \<Rightarrow> (nat \<times> bulk_gdim_t) set" where
  "meets W log q = {p \<in> set log. obj_desc_equals_intersect (held_odsc W p) q}"

definition covered :: "cluster_conf \<Rightarrow> (nat \<times> bulk_gdim_t) list \<Rightarrow> obj_descriptor \<Rightarrow> bool" where
  "covered W log q \<longleftrightarrow> points (od_bb q) \<subseteq> (\<Union>p\<in>meets W log q. points (od_bb (bg_odsc (snd p))))"

lemma log_box:
  assumes "log_ok W log" "p \<in> set log"
  shows "box_ok (cc_d W) (od_bb (bg_odsc (snd p)))" "points (od_bb (bg_odsc (snd p))) \<subseteq> points (cc_domain W)"
  using assms by (auto simp: log_ok_def put_ok_def Let_def)

text \<open>The server that owns a point is a target of every box with that point.\<close>

lemma owner_target:
  assumes "conf_ok W" "x \<in> cells_of (base W) k" "k < cc_n W" "x \<in> points b" "num_dims b = cc_d W"
  shows "k \<in> set (targets (base W) b)"
proof -
  obtain c where c: "c \<in> set (de_bbtab (ent_tab (ss_dht (base W)) ! k))" "x \<in> points c" using assms(2) by (auto simp: cells_of_def)
  have "num_dims c = cc_d W"
    using v2_space_cells(1) [OF base_ok(2) [OF assms(1)] assms(3) c(1)] domain_ok_cc(2) [OF assms(1)] by (simp add: cell_def)
  then have "(0, k) \<in> set (scan_v2 0 (base W) b)"
    using scan_v2_complete [of k "base W" c x b 0] c assms base_ok(2) [OF assms(1)] by (simp add: v2_space_def)
  then show ?thesis by (force simp: targets_def)
qed

lemma point_owner:
  assumes "conf_ok W" "x \<in> points (cc_domain W)"
  obtains k where "k < cc_n W" "x \<in> cells_of (base W) k"
  using owner_unique [OF base_ok(2) [OF assms(1)] assms(2)] by (auto simp: cells_of_def)

lemma crop_sel:
  assumes "box_ok d (od_bb q)" "box_ok d (od_bb x)" "bbox_does_intersect (od_bb x) (od_bb q)"
  shows "box_ok d (od_bb (crop_odsc q x))" "points (od_bb (crop_odsc q x)) = points (od_bb q) \<inter> points (od_bb x)"
    "points (od_bb (crop_odsc q x)) \<noteq> {}"
proof -
  have w: "wf_bbox (od_bb x)" "num_dims (od_bb x) = num_dims (od_bb q)" using assms by (simp_all add: box_ok_def)
  have i: "bbox_does_intersect (od_bb q) (od_bb x)" using assms(3) does_intersect_sym [OF w(2)] by simp
  show "box_ok d (od_bb (crop_odsc q x))" "points (od_bb (crop_odsc q x)) = points (od_bb q) \<inter> points (od_bb x)"
    using box_ok_isect [OF assms(1,2) w(1) i] by (simp_all add: crop_odsc_def)
  then show "points (od_bb (crop_odsc q x)) \<noteq> {}"
    using intersect_points [OF w(2) _ _ assms(3)] assms(1,2) by (auto simp: box_ok_def)
qed

lemma meets_disjoint:
  assumes log: "log_ok W log" and p: "p \<in> meets W log q" "p' \<in> meets W log q"
    and x: "x \<in> points (od_bb (bg_odsc (snd p)))" "x \<in> points (od_bb (bg_odsc (snd p')))"
  shows "p = p'"
proof -
  have m: "p \<in> set log" "p' \<in> set log" using p by (auto simp: meets_def)
  have v: "same_bin (cc_mv W) (bg_odsc (snd p)) (bg_odsc (snd p'))"
    using p by (auto simp: meets_def obj_desc_equals_intersect_def same_bin_def)
  have "bbox_does_intersect (od_bb (bg_odsc (snd p))) (od_bb (bg_odsc (snd p')))"
    using not_intersect_points [of "od_bb (bg_odsc (snd p))" "od_bb (bg_odsc (snd p'))"] x
      log_box(1) [OF log m(1)] log_box(1) [OF log m(2)] by (auto simp: box_ok_def)
  with v log m show ?thesis by (auto simp: log_ok_def clash_def)
qed

lemma meets_crop:
  assumes "log_ok W log" "box_ok (cc_d W) (od_bb q)" "p \<in> meets W log q"
  shows "points (od_bb (crop_odsc q (held_odsc W p))) = points (od_bb q) \<inter> points (od_bb (bg_odsc (snd p)))"
    "points (od_bb (crop_odsc q (held_odsc W p))) \<noteq> {}"
  using crop_sel [OF assms(2), of "held_odsc W p"] log_box(1) [OF assms(1), of p] assms(3)
  by (simp_all add: meets_def obj_desc_equals_intersect_def)

lemma crop_inj:
  assumes log: "log_ok W log" and q: "box_ok (cc_d W) (od_bb q)" and p: "p \<in> meets W log q" "p' \<in> meets W log q"
    and e: "obj_desc_equals_no_owner (crop_odsc q (held_odsc W p)) (crop_odsc q (held_odsc W p'))"
  shows "p = p'"
proof -
  have "points (od_bb (crop_odsc q (held_odsc W p))) = points (od_bb (crop_odsc q (held_odsc W p')))"
    using e bbox_equals_points by (simp add: obj_desc_equals_no_owner_def)
  then obtain x where "x \<in> points (od_bb (bg_odsc (snd p)))" "x \<in> points (od_bb (bg_odsc (snd p')))"
    using meets_crop [OF log q p(1)] meets_crop [OF log q p(2)] by blast
  then show ?thesis by (rule meets_disjoint [OF log p])
qed

lemma quiet_there: "there W log {#} k = held_odsc W ` {p \<in> set log. k \<in> goes_to W p}"
  by (simp add: there_def)

lemma quiet_cover:
  assumes ok: "conf_ok W" and log: "log_ok W log" and c: "covered W log q" and k: "k < cc_n W"
  shows "points (od_bb q) \<inter> cells_of (base W) k \<subseteq> (\<Union>x\<in>{x \<in> there W log {#} k. same_var q x}. points (od_bb x))"
proof
  fix x assume x: "x \<in> points (od_bb q) \<inter> cells_of (base W) k"
  then obtain p where p: "p \<in> meets W log q" "x \<in> points (od_bb (bg_odsc (snd p)))" using c by (auto simp: covered_def)
  then have m: "p \<in> set log" "same_var q (held_odsc W p)" by (auto simp: meets_def obj_desc_equals_intersect_def same_var_def)
  have "k \<in> goes_to W p" using owner_target [OF ok _ k p(2)] x log_box(1) [OF log m(1)] by (simp add: box_ok_def)
  with m p(2) show "x \<in> (\<Union>x\<in>{x \<in> there W log {#} k. same_var q x}. points (od_bb x))"
    unfolding quiet_there by (intro UN_I [of "held_odsc W p"]) auto
qed

text \<open>Together the servers a query is sent to know all the puts that meet it.\<close>

lemma targets_know:
  assumes ok: "conf_ok W" and log: "log_ok W log" and q: "box_ok (cc_d W) (od_bb q)"
  shows "(\<Union>k\<in>set (targets (base W) (od_bb q)). {x \<in> there W log {#} k. obj_desc_equals_intersect x q}) = held_odsc W ` meets W log q"
proof (intro equalityI subsetI)
  fix x assume "x \<in> held_odsc W ` meets W log q"
  then obtain p where p: "p \<in> set log" "obj_desc_equals_intersect (held_odsc W p) q" "x = held_odsc W p" by (auto simp: meets_def)
  note b = log_box [OF log p(1)]
  obtain y where y: "y \<in> points (od_bb (bg_odsc (snd p)))" "y \<in> points (od_bb q)"
    using intersect_points [of "od_bb (bg_odsc (snd p))" "od_bb q"] b(1) q p(2) by (auto simp: box_ok_def obj_desc_equals_intersect_def)
  obtain k where k: "k < cc_n W" "y \<in> cells_of (base W) k" using point_owner [OF ok, of y] b(2) y(1) by blast
  have "k \<in> set (targets (base W) (od_bb q))" "k \<in> goes_to W p"
    using owner_target [OF ok k(2,1)] y b(1) q by (simp_all add: box_ok_def)
  with p show "x \<in> (\<Union>k\<in>set (targets (base W) (od_bb q)). {x \<in> there W log {#} k. obj_desc_equals_intersect x q})"
    by (auto simp: quiet_there)
qed (auto simp: quiet_there meets_def)

lemma cluster_query_ok:
  assumes ok: "conf_ok W" and reach: "cl_reach W log s" "cl_msgs s = {#}" and r: "r < cc_n W"
    and q: "box_ok (cc_d W) (od_bb (og_odsc og))" "global_dimension_equal (og_gdim og) (cc_gdim W)" "covered W log (og_odsc og)"
  obtains tab where "cluster_query W s t r og = Some (Done tab)" "distinct tab"
    "set tab = (\<lambda>p. crop_odsc (og_odsc og) (held_odsc W p)) ` meets W log (og_odsc og)"
proof -
  let ?q = "og_odsc og" and ?T = "targets (base W) (od_bb (og_odsc og))"
  have "cl_inv W log s" by (rule cl_reach_inv [OF ok reach(1)])
  then have log: "log_ok W log" and inv: "\<And>k. k < cc_n W \<Longrightarrow> srv_inv W k (there W log {#} k) (kept W log k) (cl_servers s ! k)"
    using reach(2) by (simp_all add: cl_inv_def)
  have T: "k < cc_n W" if "k \<in> set ?T" for k using that base_ok(2) [OF ok] by (simp add: targets_iff v2_space_def)
  have ans: "set (ask_peer W s t k og) = crop_odsc ?q ` {x \<in> there W log {#} k. obj_desc_equals_intersect x ?q}" if k: "k < cc_n W" for k
  proof -
    obtain tab where "odsc_internal_rpc (cc_env W) t (\<lambda>_. HG_SUCCESS) (cl_servers s ! k) og = Some (Done tab, cl_servers s ! k, [])"
      "set tab = crop_odsc ?q ` {x \<in> there W log {#} k. obj_desc_equals_intersect x ?q}"
      by (rule srv_internal [OF ok inv [OF k] q(1) quiet_cover [OF ok log q(3) k] q(2)])
    then show ?thesis by (simp add: ask_peer_def)
  qed
  obtain ss where ss: "sv_spaces (cl_servers s ! r) 0 = Some ss" "twin (base W) r ss" "cache_ok 0 (base W) (sv_cache (cl_servers s ! r))"
    using inv [OF r] by (auto simp: srv_inv_def)
  obtain c where c: "hash_ranks (cc_env W) (cl_servers s ! r) 0 (od_bb ?q) = Some (?T, (cl_servers s ! r)\<lparr>sv_cache := c\<rparr>)" "cache_ok 0 (base W) c"
    by (rule hash_ranks_ok [OF ss(1,2) base_ok(2) [OF ok] ss(3)])
  let ?sv = "(cl_servers s ! r)\<lparr>sv_cache := c\<rparr>"
  have inv': "srv_inv W r (there W log {#} r) (kept W log r) ?sv" using inv [OF r] c(2) by (simp add: srv_inv_def)
  obtain tab where tab: "local_find (cc_env W) t ?sv 0 ?q (og_param og) = Some (Some tab, ?sv)"
    "set tab = crop_odsc ?q ` {x \<in> there W log {#} r. obj_desc_equals_intersect x ?q}"
    by (rule srv_find [OF ok inv' q(1) quiet_cover [OF ok log q(3) r]])
  define tabs where "tabs = map (\<lambda>k. if k = r then tab else ask_peer W s t k og) ?T"
  have dom: "points (od_bb ?q) \<subseteq> points (cc_domain W)" using q(3) log_box(2) [OF log] unfolding covered_def meets_def by blast
  have self: "length (filter (\<lambda>k. k = r) ?T) \<le> 1" "length (filter (\<lambda>k. k = r) ?T) = 0 \<longleftrightarrow> r \<notin> set ?T"
    using targets_distinct [of "base W" "od_bb ?q"] by (simp_all add: distinct_length_filter card_le_Suc0_iff_eq filter_empty_conv)
  have "get_query_odscs (cc_env W) t (ask_peer W s t) (\<lambda>_. HG_SUCCESS) (cl_servers s ! r) og (og_param og) = Some (Done (merge_tabs tabs), ?sv, [])"
  proof -
    have rem: "local_responsibility (cl_servers s ! r) ?q" "sv_rank (cl_servers s ! r) = r"
      using inv [OF r] by (simp_all add: srv_inv_def local_responsibility_def)
    have "map (\<lambda>k. ask_peer W s t k og) ?T = tabs" if "r \<notin> set ?T" using that by (auto simp: tabs_def)
    then show ?thesis
      using rem srv_lookup [OF inv [OF r] q(2)] c(1) self targets_nonempty [OF ok q(1) dom] srv_route [OF ok] tab(1)
      by (simp add: get_query_odscs_def Let_def tabs_def [symmetric])
  qed
  then have query: "cluster_query W s t r og = Some (Done (merge_tabs tabs))" by (simp add: cluster_query_def query_rpc_def)
  have "set (concat tabs) = (\<Union>k\<in>set ?T. set (if k = r then tab else ask_peer W s t k og))" unfolding tabs_def set_concat set_map image_image ..
  also have "\<dots> = (\<Union>k\<in>set ?T. crop_odsc ?q ` {x \<in> there W log {#} k. obj_desc_equals_intersect x ?q})"
    using ans T tab(2) by (intro SUP_cong) auto
  finally have "set (concat tabs) = crop_odsc ?q ` (\<Union>k\<in>set ?T. {x \<in> there W log {#} k. obj_desc_equals_intersect x ?q})"
    by (simp only: image_UN)
  then have all: "set (concat tabs) = (\<lambda>p. crop_odsc ?q (held_odsc W p)) ` meets W log ?q"
    unfolding targets_know [OF ok log q(1)] by (simp add: image_image)
  have "obj_desc_equals_no_owner x y \<longleftrightarrow> x = y" if xy: "x \<in> set (concat tabs)" "y \<in> set (concat tabs)" for x y
    using crop_inj [OF log q(1)] xy unfolding all by (auto simp: obj_desc_equals_no_owner_def bbox_equals_refl)
  from merge_tabs_ok [OF this] all query show ?thesis by (intro that) auto
qed

section \<open>Gets from the cluster\<close>

text \<open>
  \<open>locate\<close> is the server with a given address. \<open>cluster_get\<close> is the get of a client: it asks its server \<open>r\<close> for the
  descriptors and collects the parts from their owners into the buffer \<open>d\<close>.
\<close>

text \<open>
  The descriptors of \<^verbatim>\<open>put_rpc\<close> have no \<^verbatim>\<open>DS_CLIENT_STORAGE\<close> flag, so the parts are always fetched from a
  server, by \<^verbatim>\<open>get_rpc\<close>.
\<close>

definition locate :: "cluster_conf \<Rightarrow> string \<Rightarrow> nat option" where
  "locate W a = find (\<lambda>k. cc_addr W k = a) [0..<cc_n W]"

definition fetch_part :: "cluster_conf \<Rightarrow> cluster \<Rightarrow> u32 \<Rightarrow> obj_descriptor \<Rightarrow> answer" where
  "fetch_part W s flags odsc =
     the (get_rpc (cc_env W) HG_SUCCESS HG_SUCCESS 0 (cl_servers s ! the (locate W (od_owner odsc))) flags odsc)"

definition cluster_get :: "cluster_conf \<Rightarrow> lz4_fn \<Rightarrow> cluster \<Rightarrow> nat \<Rightarrow> nat \<Rightarrow> odsc_gdim_t \<Rightarrow> u32 \<Rightarrow> byte list \<Rightarrow> (int \<times> byte list) option" where
  "cluster_get W lz4 s t r og flags d =
     (case cluster_query W s t r og of
        Some (Done tab) \<Rightarrow>
          if tab \<noteq> []
          then map_option (Pair dspaces_SUCCESS)
                 (get_data (en_junk (cc_env W)) (en_mem (cc_env W)) lz4 (fetch_part W s flags) (og_odsc og) tab d)
          else Some (-1, d)
      | _ \<Rightarrow> None)"

lemma locate_addr: "conf_ok W \<Longrightarrow> k < cc_n W \<Longrightarrow> locate W (cc_addr W k) = Some k"
proof -
  assume k: "conf_ok W" "k < cc_n W"
  then have "inj_on (cc_addr W) {..<cc_n W}" by (simp add: conf_ok_def)
  then have "cc_addr W j \<noteq> cc_addr W k" if "j < k" for j using k that inj_onD [of "cc_addr W" "{..<cc_n W}" j k] by auto
  then show ?thesis using k(2) by (auto simp: locate_def find_Some_iff intro!: exI [of _ k])
qed

lemma fetch_ok:
  assumes ok: "conf_ok W" and reach: "cl_reach W log s" and q: "box_ok (cc_d W) (od_bb q)" and p: "p \<in> meets W log q"
    and size: "od_size (bg_odsc (snd p)) = od_size q" and lz: "lz4_ok lz4 (en_lz4c (cc_env W))"
  obtains d where "delivers lz4 (fetch_part W s flags) q (crop_odsc q (held_odsc W p)) d"
    "part_ok q (crop_odsc q (held_odsc W p))" "length d = unat (obj_data_size (crop_odsc q (held_odsc W p)))"
    "\<And>x. x \<in> points (od_bb (crop_odsc q (held_odsc W p))) \<Longrightarrow> obj_get (obj_data_blank (crop_odsc q (held_odsc W p)) (Some d)) x = obj_get (held_od W p) x"
proof -
  let ?o = "crop_odsc q (held_odsc W p)" and ?k = "fst p"
  let ?b = "od_bb (bg_odsc (snd p))"
  have "cl_inv W log s" by (rule cl_reach_inv [OF ok reach])
  then have log: "log_ok W log" and inv: "\<And>k. k < cc_n W \<Longrightarrow> srv_inv W k (there W log (cl_msgs s) k) (kept W log k) (cl_servers s ! k)"
    by (simp_all add: cl_inv_def)
  have m: "p \<in> set log" "obj_desc_equals_intersect (held_odsc W p) q" using p by (simp_all add: meets_def)
  have put: "put_ok W (snd p)" "?k < cc_n W" using log m(1) by (auto simp: log_ok_def)
  note b = log_box [OF log m(1)]
  have i: "bbox_does_intersect ?b (od_bb q)" using m(2) by (simp add: obj_desc_equals_intersect_def)
  note c = crop_sel [OF q, of "held_odsc W p", simplified, OF b(1) i]
  have sel: "od_owner ?o = cc_addr W ?k" "od_name ?o = od_name (bg_odsc (snd p))" "od_version ?o = od_version (bg_odsc (snd p))"
    "od_size ?o = od_size q" "od_flags ?o = od_flags (bg_odsc (snd p))" using size by (simp_all add: crop_odsc_def)
  let ?sv = "cl_servers s ! ?k"
  have sv: "sv_remotes ?sv = None" "store_inv (cc_mv W) (sv_brk ?sv) (kept W log ?k) (sv_ls ?sv)" using inv [OF put(2)] by (simp_all add: srv_inv_def)
  have store: "serving_store ?sv ?o = sv_ls ?sv" using sv(1) by (simp add: serving_store_def)
  have dims: "num_dims (od_bb ?o) = num_dims ?b" using c(1) b(1) by (simp add: box_ok_def)
  have hit: "obj_desc_equals_intersect ?o (held_odsc W p)"
    using c(2,3) not_intersect_points [OF dims] by (auto simp: obj_desc_equals_intersect_def sel)
  have one: "x = held_od W p" if x: "x \<in> kept W log ?k" "obj_desc_equals_intersect ?o (obj_desc x)" for x
  proof -
    obtain p' where p': "p' \<in> set log" "x = held_od W p'" using x(1) by (auto simp: kept_def)
    note b' = log_box [OF log p'(1)]
    have "points (od_bb ?o) \<inter> points (od_bb (bg_odsc (snd p'))) \<noteq> {}"
      using intersect_points [of "od_bb ?o" "od_bb (bg_odsc (snd p'))"] x(2) c(1) b'(1) p'(2) by (auto simp: box_ok_def obj_desc_equals_intersect_def)
    then have "bbox_does_intersect ?b (od_bb (bg_odsc (snd p')))" 
      using c(2) not_intersect_points [of ?b "od_bb (bg_odsc (snd p'))"] b(1) b'(1) by (auto simp: box_ok_def)
    then have "clash W (snd p) (snd p')" using x(2) p'(2) sel by (simp add: clash_def same_bin_def obj_desc_equals_intersect_def)
    with log m(1) p' show ?thesis by (auto simp: log_ok_def)
  qed
  have "held_od W p \<in> kept W log ?k" using m(1) by (auto simp: kept_def)
  then obtain a where a: "ls_find (serving_store ?sv ?o) ?o = Some a" "the_od (serving_store ?sv ?o) a = held_od W p"
    using store_find [OF sv(2) _ _ one] hit unfolding store by (metis held_sel(7))
  have se: "0 < unat (od_size q)" "unat (od_size q) * vol ?b < 2147483648" "length (bg_data (snd p)) = unat (od_size q) * vol ?b"
    "od_flags ?o AND DS_CLIENT_STORAGE = 0" using put(1) size sel by (simp_all add: put_ok_def Let_def)
  have fits: "obj_fits (held_od W p)" using b(1) se size by (simp add: obj_fits_def Let_def box_ok_def)
  have vol: "vol (od_bb ?o) \<le> vol ?b"
  proof -
    have "card (points (od_bb ?o)) \<le> card (points ?b)" by (rule card_mono) (simp_all add: c(2))
    then show ?thesis using c(1) b(1) by (simp add: box_ok_def card_points nonempty_ordered del: Int_iff)
  qed
  have small: "unat (od_size ?o) * vol (od_bb ?o) < 2147483648"
    unfolding sel(4) by (rule le_less_trans [OF mult_le_mono2 [OF vol] se(2)])
  have dd: "1 \<le> cc_d W" "cc_d W \<le> 9" "wf_bbox (en_junk (cc_env W))" using ok unfolding conf_ok_def by blast+
  have "fetch_part W s flags ?o = the (get_rpc (cc_env W) HG_SUCCESS HG_SUCCESS 0 ?sv flags ?o)"
    using sel(1) locate_addr [OF ok put(2)] by (simp add: fetch_part_def)
  note get = get_rpc_ok [where fetch = "fetch_part W s flags" and req = q, OF a fits _ _ _ _ _ _ small lz se(4) dd(3) this]
  have prems: "od_size ?o = od_size (obj_desc (held_od W p))" "num_dims (od_bb ?o) = num_dims (od_bb (obj_desc (held_od W p)))"
    "1 \<le> num_dims (od_bb ?o)" "num_dims (od_bb ?o) \<le> 9" "wf_bbox (od_bb ?o)" "nonempty_bbox (od_bb ?o)"
    using sel(4) size dims c(1) dd by (simp_all add: box_ok_def)
  obtain d where "delivers lz4 (fetch_part W s flags) q ?o d" "length d = unat (obj_data_size ?o)"
    "\<forall>x\<in>points (od_bb ?o) \<inter> points (od_bb (obj_desc (held_od W p))). obj_get (obj_data_blank ?o (Some d)) x = obj_get (held_od W p) x"
    using get [OF prems sel(4) [symmetric]] by blast
  moreover have "part_ok q ?o"
    using c q sel(4) small not_intersect_points [of "od_bb q" "od_bb ?o"] by (auto simp: part_ok_def box_ok_def)
  ultimately show ?thesis using c(2) by (intro that [of d]) auto
qed

lemma assembled_unique:
  assumes "odsc \<in> set tab" "x \<in> points (od_bb odsc)" "\<And>o'. o' \<in> set tab \<Longrightarrow> x \<in> points (od_bb o') \<Longrightarrow> o' = odsc"
  shows "assembled cont tab x v = obj_get (obj_data_blank odsc (Some (cont odsc))) x"
  using assms
proof (induction tab arbitrary: v)
  case (Cons a tab)
  show ?case
  proof (cases "odsc \<in> set tab")
    case True
    then have "assembled cont tab x w = obj_get (obj_data_blank odsc (Some (cont odsc))) x" for w
      using Cons.prems by (intro Cons.IH) auto
    then show ?thesis by (simp add: assembled_def)
  next
    case False
    with Cons.prems have "a = odsc" "\<forall>o'\<in>set tab. x \<notin> points (od_bb o')" by auto
    moreover have "fold (\<lambda>odsc v. if x \<in> points (od_bb odsc) then obj_get (obj_data_blank odsc (Some (cont odsc))) x else v) t w = w"
      if "\<forall>o'\<in>set t. x \<notin> points (od_bb o')" for t w using that by (induction t) auto
    ultimately show ?thesis using Cons.prems(2) by (simp add: assembled_def)
  qed
qed simp

section \<open>At rest\<close>

text \<open>What a server knows and holds: its DHT entry of the default space and its object store.\<close>

definition knows :: "cluster \<Rightarrow> nat \<Rightarrow> obj_descriptor set" where
  "knows s k = (case sv_spaces (cl_servers s ! k) 0 of None \<Rightarrow> {} | Some ss \<Rightarrow> dht_objs (self_entry ss))"

definition holds :: "cluster \<Rightarrow> nat \<Rightarrow> obj_data set" where
  "holds s k = ls_objs (sv_ls (cl_servers s ! k))"

lemma cl_reach_star: "(cl_deliver W)\<^sup>*\<^sup>* s s' \<Longrightarrow> cl_reach W log s \<Longrightarrow> cl_reach W log s'"
  by (induction rule: rtranclp_induct) (auto intro: cl_reach.deliver)

lemma cl_drains_star:
  assumes ok: "conf_ok W" and "cl_reach W log s"
  shows "\<exists>s'. (cl_deliver W)\<^sup>*\<^sup>* s s' \<and> cl_msgs s' = {#}"
  using assms(2)
proof (induction "size (cl_msgs s)" arbitrary: s rule: less_induct)
  case less
  show ?case
  proof (cases "cl_msgs s = {#}")
    case False
    then obtain s' where s': "cl_deliver W s s'" using cl_can_deliver [OF ok less.prems] by blast
    with less obtain s'' where "(cl_deliver W)\<^sup>*\<^sup>* s' s''" "cl_msgs s'' = {#}" by (metis cl_deliver_size cl_reach.deliver)
    with s' show ?thesis by (meson converse_rtranclp_into_rtranclp)
  qed (use less.prems in blast)
qed

lemma cl_knows:
  assumes "cl_inv W log s" "k < cc_n W"
  shows "knows s k = there W log (cl_msgs s) k" "holds s k = kept W log k"
proof -
  have "srv_inv W k (there W log (cl_msgs s) k) (kept W log k) (cl_servers s ! k)" using assms by (simp add: cl_inv_def)
  then show "knows s k = there W log (cl_msgs s) k" "holds s k = kept W log k"
    by (auto simp: srv_inv_def entry_inv_def store_inv_def knows_def holds_def)
qed

section \<open>Properties\<close>

text \<open>
  C2: whatever puts were made on whichever servers, as long as no two of them that share a name and a
  version bin overlap, and in whatever order the DHT updates arrived, once
  none is on its way a query at any server for a box the puts cover is answered at once: with every put
  of that name and version that meets the box, each exactly once, cut to the box.
\<close>

theorem cluster_query_finds_puts:
  assumes "conf_ok W" "cl_reach W log s" "cl_msgs s = {#}" "r < cc_n W"
    and "box_ok (cc_d W) (od_bb (og_odsc og))" "global_dimension_equal (og_gdim og) (cc_gdim W)" "covered W log (og_odsc og)"
  shows "\<exists>tab. cluster_query W s t r og = Some (Done tab) \<and> distinct tab \<and>
    set tab = (\<lambda>p. crop_odsc (og_odsc og) (held_odsc W p)) ` meets W log (og_odsc og)"
  using cluster_query_ok [OF assms] by metis

text \<open>
  C3: the cluster comes to rest, and at rest every put has arrived. From every reachable state the
  deliveries of the DHT updates on their way can be carried through, and in whatever order they are
  made, a state where none can be made has no update on its way: there the DHT entry of every
  server knows exactly the puts whose box meets its cells, each with its owner, and its store
  holds exactly the objects put at it. (Puts that share a name and a version bin do not overlap.)
\<close>

theorem cluster_settles:
  assumes "conf_ok W" "cl_reach W log s"
  shows "(\<exists>s'. (cl_deliver W)\<^sup>*\<^sup>* s s' \<and> \<not> (\<exists>s''. cl_deliver W s' s'')) \<and>
    (\<forall>s'. (cl_deliver W)\<^sup>*\<^sup>* s s' \<and> \<not> (\<exists>s''. cl_deliver W s' s'') \<longrightarrow> cl_msgs s' = {#} \<and>
       (\<forall>k<cc_n W. knows s' k = held_odsc W ` {p \<in> set log. k \<in> goes_to W p} \<and>
          holds s' k = held_od W ` {p \<in> set log. fst p = k}))"
proof (intro conjI allI impI)
  have "\<not> (\<exists>s''. cl_deliver W s' s'')" if "cl_msgs s' = {#}" for s' using that by (auto elim: cl_deliverE)
  with cl_drains_star [OF assms] show "\<exists>s'. (cl_deliver W)\<^sup>*\<^sup>* s s' \<and> \<not> (\<exists>s''. cl_deliver W s' s'')" by blast
next
  fix s' k assume s': "(cl_deliver W)\<^sup>*\<^sup>* s s' \<and> \<not> (\<exists>s''. cl_deliver W s' s'')"
  then have r: "cl_reach W log s'" using assms(2) cl_reach_star by blast
  then show q: "cl_msgs s' = {#}" using cl_can_deliver [OF assms(1) r] s' by blast
  assume k: "k < cc_n W"
  note c = cl_knows [OF cl_reach_inv [OF assms(1) r] k]
  show "knows s' k = held_odsc W ` {p \<in> set log. k \<in> goes_to W p}" "holds s' k = held_od W ` {p \<in> set log. fst p = k}"
    using c q by (simp_all add: quiet_there kept_def)
qed

text \<open>
  C1: end to end, a get returns what was put. Once no update is on its way, a client of any server that
  asks for a box the puts cover gets its whole buffer filled: every point holds the element of the put
  that contains it, compressed or not, whatever the buffer held before. The servers run hash version 2
  with the configured global dimensions and no remotes, the calls of Margo succeed, and no two puts that
  share a name and a version bin overlap.
\<close>

theorem cluster_get_returns_puts:
  assumes ok: "conf_ok W" and reach: "cl_reach W log s" "cl_msgs s = {#}" "r < cc_n W"
    and q: "box_ok (cc_d W) (od_bb (og_odsc og))" "global_dimension_equal (og_gdim og) (cc_gdim W)" "covered W log (og_odsc og)"
    and size: "\<forall>p\<in>meets W log (og_odsc og). od_size (bg_odsc (snd p)) = od_size (og_odsc og)"
    and lz: "lz4_ok lz4 (en_lz4c (cc_env W))" and buf: "obj_fits (obj_data_blank (og_odsc og) (Some d))"
  shows "\<exists>d'. cluster_get W lz4 s t r og flags d = Some (dspaces_SUCCESS, d') \<and> length d' = length d \<and>
    (\<forall>p\<in>meets W log (og_odsc og). \<forall>x\<in>points (od_bb (og_odsc og)) \<inter> points (od_bb (bg_odsc (snd p))).
       obj_get (obj_data_blank (og_odsc og) (Some d')) x = obj_get (held_od W p) x)"
proof -
  let ?q = "og_odsc og" and ?c = "\<lambda>p. crop_odsc (og_odsc og) (held_odsc W p)"
  have log: "log_ok W log" using cl_reach_inv [OF ok reach(1)] by (simp add: cl_inv_def)
  obtain tab where tab: "cluster_query W s t r og = Some (Done tab)" "set tab = ?c ` meets W log ?q"
    by (rule cluster_query_ok [OF ok reach q])
  define good where "good = (\<lambda>o' c. part_ok ?q o' \<and> delivers lz4 (fetch_part W s flags) ?q o' c \<and>
      length c = unat (obj_data_size o') \<and>
      (\<forall>p\<in>meets W log ?q. o' = ?c p \<longrightarrow> (\<forall>x\<in>points (od_bb o'). obj_get (obj_data_blank o' (Some c)) x = obj_get (held_od W p) x)))"
  have "\<exists>c. good o' c" if "o' \<in> set tab" for o'
  proof -
    obtain p where p: "p \<in> meets W log ?q" "o' = ?c p" using \<open>o' \<in> set tab\<close> tab(2) by blast
    have "p' = p" if "p' \<in> meets W log ?q" "?c p = ?c p'" for p'
      using crop_inj [OF log q(1) that(1) p(1)] that(2) by (simp add: obj_desc_equals_no_owner_def bbox_equals_refl)
    then show ?thesis
      using fetch_ok [OF ok reach(1) q(1) p(1) _ lz, where flags = flags] size p unfolding good_def by metis
  qed
  then obtain cont where cont: "\<forall>o'\<in>set tab. good o' (cont o')" by metis
  have "1 \<le> num_dims (od_bb ?q)" "num_dims (od_bb ?q) \<le> 9" "wf_bbox (en_junk (cc_env W))"
    using ok q(1) unfolding conf_ok_def box_ok_def by linarith+
  then obtain d' where d': "get_data (en_junk (cc_env W)) (en_mem (cc_env W)) lz4 (fetch_part W s flags) ?q tab d = Some d'" "length d' = length d"
    "\<forall>x\<in>points (od_bb ?q). obj_get (obj_data_blank ?q (Some d')) x = assembled cont tab x (obj_get (obj_data_blank ?q (Some d)) x)"
    using get_data_ok [of tab ?q lz4 "fetch_part W s flags" cont, OF _ _ _ _ buf] cont unfolding good_def by metis
  have "obj_get (obj_data_blank ?q (Some d')) x = obj_get (held_od W p) x"
    if p: "p \<in> meets W log ?q" and x: "x \<in> points (od_bb ?q)" "x \<in> points (od_bb (bg_odsc (snd p)))" for p x
  proof -
    have "o' = ?c p" if "o' \<in> set tab" "x \<in> points (od_bb o')" for o'
      using that meets_disjoint [OF log _ p _ x(2)] meets_crop(1) [OF log q(1)] unfolding tab(2) by blast
    with assembled_unique [of "?c p" tab x cont] p x have "assembled cont tab x v = obj_get (obj_data_blank (?c p) (Some (cont (?c p)))) x" for v
      using meets_crop(1) [OF log q(1) p] tab(2) by blast
    with d'(3) x(1) cont p show ?thesis using meets_crop(1) [OF log q(1) p] x tab(2) by (auto simp: good_def)
  qed
  moreover have "tab \<noteq> []"
    using q(1,3) tab(2) take_lb_in_points [of "od_bb ?q"] by (auto simp: box_ok_def covered_def)
  ultimately show ?thesis using d'(1,2) tab(1) by (simp add: cluster_get_def)
qed

section \<open>An example cluster\<close>

text \<open>Two servers share a domain of four points; each takes a put, and a client reads across both.\<close>

definition ex_W :: cluster_conf where
  "ex_W = \<lparr>cc_env = ex_sv_env, cc_conf = ex_conf, cc_n = 2, cc_addr = (\<lambda>k. replicate (Suc k) CHR ''s''), cc_gd0 = replicate 10 0\<rparr>"

definition ex_bulk :: "u64 \<Rightarrow> u64 \<Rightarrow> byte list \<Rightarrow> bulk_gdim_t" where
  "ex_bulk l u d = \<lparr>bg_odsc = (ex_desc ''v'' l u)\<lparr>od_flags := 0\<rparr>, bg_gdim = cc_gdim ex_W, bg_data = d\<rparr>"

definition ex_log :: "(nat \<times> bulk_gdim_t) list" where
  "ex_log = [(0, ex_bulk 1 2 [7, 8]), (1, ex_bulk 3 3 [9])]"

definition ex_q :: odsc_gdim_t where
  "ex_q = \<lparr>og_odsc = (ex_desc ''v'' 2 3)\<lparr>od_flags := 0\<rparr>, og_gdim = cc_gdim ex_W, og_param = 0\<rparr>"

lemma ex_conf_ok: "conf_ok ex_W"
  by (auto simp: conf_ok_def ex_W_def ex_sv_env_def ex_conf_def BBOX_MAX_NDIM_def inj_on_def less_2_cases_iff mk_box_simps)

lemma ex_domain: "cc_domain ex_W = mk_box [0] [3]" by code_simp

lemma ex_cluster_puts: "put_ok ex_W (ex_bulk 1 2 [7, 8])" "put_ok ex_W (ex_bulk 3 3 [9])" "\<not> clash ex_W (ex_bulk 3 3 [9]) (ex_bulk 1 2 [7, 8])"
proof -
  have vols: "vol (mk_box [1] [2]) = 2" "vol (mk_box [3] [3]) = 1" by (simp_all add: bbox_eval)
  have eq: "global_dimension_equal (cc_gdim ex_W) (cc_gdim ex_W)" by code_simp
  have d: "cc_d ex_W = 1" by code_simp
  have "{1..2} \<subseteq> {0..3 :: u64}" "{3..3} \<subseteq> {0..3 :: u64}" by (auto simp: word_le_nat_alt)
  then have sub: "points (mk_box [1] [2]) \<subseteq> points (mk_box [0] [3])" "points (mk_box [3] [3]) \<subseteq> points (mk_box [0] [3])"
    unfolding line_box by (simp_all only: image_mono)
  show "put_ok ex_W (ex_bulk 1 2 [7, 8])" "put_ok ex_W (ex_bulk 3 3 [9])"
    using eq sub by (simp_all add: put_ok_def Let_def ex_bulk_def ex_desc_def box_ok_def line_box(1-3) ex_domain vols d)
  show "\<not> clash ex_W (ex_bulk 3 3 [9]) (ex_bulk 1 2 [7, 8])" by code_simp
qed

lemma ex_n: "cc_n ex_W = 2" by (simp add: ex_W_def)

lemma ex_reach: "\<exists>s. cl_reach ex_W ex_log s \<and> cl_msgs s = {#}"
proof -
  obtain s1 where "cl_reach ex_W ([] @ [(0, ex_bulk 1 2 [7, 8])]) s1"
    using cl_accepts [OF ex_conf_ok cl_reach.start, of 0] ex_cluster_puts(1) ex_n by auto
  then have s1: "cl_reach ex_W [(0, ex_bulk 1 2 [7, 8])] s1" by simp
  obtain s2 where "cl_reach ex_W ([(0, ex_bulk 1 2 [7, 8])] @ [(1, ex_bulk 3 3 [9])]) s2"
    using cl_accepts [OF ex_conf_ok s1, of 1] ex_cluster_puts(2,3) ex_n by auto
  then have "cl_reach ex_W ex_log s2" by (simp add: ex_log_def)
  then show ?thesis by (rule cl_drains [OF ex_conf_ok])
qed

lemma ex_meets: "meets ex_W ex_log (og_odsc ex_q) = set ex_log"
proof -
  have "list_all (\<lambda>p. obj_desc_equals_intersect (held_odsc ex_W p) (og_odsc ex_q)) ex_log" by code_simp
  then show ?thesis by (auto simp: meets_def list_all_iff)
qed

lemma ex_query: "box_ok (cc_d ex_W) (od_bb (og_odsc ex_q))" "global_dimension_equal (og_gdim ex_q) (cc_gdim ex_W)"
  "covered ex_W ex_log (og_odsc ex_q)"
proof -
  have "vol (mk_box [2] [3]) = 2" by (simp add: bbox_eval)
  moreover have d: "cc_d ex_W = 1" by code_simp
  ultimately show "box_ok (cc_d ex_W) (od_bb (og_odsc ex_q))" by (simp add: box_ok_def ex_q_def ex_desc_def line_box)
  show "global_dimension_equal (og_gdim ex_q) (cc_gdim ex_W)" by code_simp
  have "{2..3} \<subseteq> {1..2} \<union> {3..3 :: u64}" by unat_arith
  then show "covered ex_W ex_log (og_odsc ex_q)"
    unfolding covered_def ex_meets by (auto simp: ex_log_def ex_q_def ex_bulk_def ex_desc_def line_box)
qed

theorem cluster_query_finds_puts_witness:
  "\<exists>s tab. cl_reach ex_W ex_log s \<and> cluster_query ex_W s 0 1 ex_q = Some (Done tab) \<and> distinct tab \<and>
     (\<lambda>odsc. (od_owner odsc, od_bb odsc)) ` set tab = {(''s'', mk_box [2] [2]), (''ss'', mk_box [3] [3])}"
proof -
  obtain s where s: "cl_reach ex_W ex_log s" "cl_msgs s = {#}" using ex_reach by blast
  have "map (\<lambda>odsc. (od_owner odsc, od_bb odsc)) (map (\<lambda>p. crop_odsc (og_odsc ex_q) (held_odsc ex_W p)) ex_log) =
      [(''s'', mk_box [2] [2]), (''ss'', mk_box [3] [3])]" by code_simp
  from arg_cong [OF this, of set] cluster_query_finds_puts [OF ex_conf_ok s _ ex_query, of 1 0] s(1) show ?thesis
    unfolding ex_meets by (auto simp: ex_n image_image)
qed

theorem cluster_settles_witness:
  "\<exists>s. cl_reach ex_W ex_log s \<and> cl_msgs s = {#} \<and>
     (\<lambda>odsc. (od_owner odsc, od_bb odsc)) ` knows s 1 = {(''s'', mk_box [1] [2]), (''ss'', mk_box [3] [3])} \<and>
     data ` holds s 1 = {Some [9]}"
proof -
  obtain s where s: "cl_reach ex_W ex_log s" "cl_msgs s = {#}" using ex_reach by blast
  then have stuck: "\<not> (\<exists>s''. cl_deliver ex_W s s'')" by (auto elim: cl_deliverE)
  have "(cl_deliver ex_W)\<^sup>*\<^sup>* s s \<and> \<not> (\<exists>s''. cl_deliver ex_W s s'')" using stuck by simp
  from mp [OF spec [OF conjunct2 [OF cluster_settles [OF ex_conf_ok s(1)]], of s] this]
  have "knows s 1 = held_odsc ex_W ` {p \<in> set ex_log. 1 \<in> goes_to ex_W p} \<and> holds s 1 = held_od ex_W ` {p \<in> set ex_log. fst p = 1}"
    by (simp add: ex_n)
  moreover have "map (\<lambda>odsc. (od_owner odsc, od_bb odsc)) (map (held_odsc ex_W) (filter (\<lambda>p. 1 \<in> set (targets (base ex_W) (od_bb (bg_odsc (snd p))))) ex_log)) =
      [(''s'', mk_box [1] [2]), (''ss'', mk_box [3] [3])]" "map data (map (held_od ex_W) (filter (\<lambda>p. fst p = 1) ex_log)) = [Some [9]]" by code_simp+
  from this [THEN arg_cong, of set] have "(\<lambda>odsc. (od_owner odsc, od_bb odsc)) ` held_odsc ex_W ` {p \<in> set ex_log. 1 \<in> goes_to ex_W p} =
      {(''s'', mk_box [1] [2]), (''ss'', mk_box [3] [3])}" "data ` held_od ex_W ` {p \<in> set ex_log. fst p = 1} = {Some [9]}"
    by (simp_all add: image_image)
  ultimately show ?thesis using s by (intro exI [of _ s]) simp
qed

theorem cluster_get_returns_puts_witness:
  "\<exists>s d'. cl_reach ex_W ex_log s \<and> cluster_get ex_W (\<lambda>_ _ _. (0, [])) s 0 1 ex_q 0 [0, 0] = Some (dspaces_SUCCESS, d') \<and>
     obj_get (obj_data_blank (og_odsc ex_q) (Some d')) [2] = [8] \<and> obj_get (obj_data_blank (og_odsc ex_q) (Some d')) [3] = [9]"
proof -
  obtain s where s: "cl_reach ex_W ex_log s" "cl_msgs s = {#}" using ex_reach by blast
  have size: "list_all (\<lambda>p. od_size (bg_odsc (snd p)) = od_size (og_odsc ex_q)) ex_log" by code_simp
  have lz: "lz4_ok (\<lambda>_ _ _. (0, [])) (en_lz4c (cc_env ex_W))" by (simp add: lz4_ok_def ex_W_def ex_sv_env_def)
  have "vol (mk_box [2] [3]) = 2" by (simp add: bbox_eval)
  then have fits: "obj_fits (obj_data_blank (og_odsc ex_q) (Some [0, 0]))"
    by (simp add: obj_fits_def Let_def ex_q_def ex_desc_def line_box)
  have val: "obj_get (held_od ex_W (0, ex_bulk 1 2 [7, 8])) [2] = [8]" "obj_get (held_od ex_W (1, ex_bulk 3 3 [9])) [3] = [9]"
    by code_simp+
  have pts: "[2] \<in> points (od_bb (og_odsc ex_q)) \<inter> points (od_bb (bg_odsc (ex_bulk 1 2 [7, 8])))"
    "[3] \<in> points (od_bb (og_odsc ex_q)) \<inter> points (od_bb (bg_odsc (ex_bulk 3 3 [9])))"
    by (simp_all add: ex_q_def ex_bulk_def ex_desc_def line_box image_iff)
  obtain d' where d': "cluster_get ex_W (\<lambda>_ _ _. (0, [])) s 0 1 ex_q 0 [0, 0] = Some (dspaces_SUCCESS, d')"
    "\<forall>p\<in>set ex_log. \<forall>x\<in>points (od_bb (og_odsc ex_q)) \<inter> points (od_bb (bg_odsc (snd p))).
       obj_get (obj_data_blank (og_odsc ex_q) (Some d')) x = obj_get (held_od ex_W p) x"
    using cluster_get_returns_puts [OF ex_conf_ok s _ ex_query _ lz fits, of 1 0 0] size unfolding ex_meets by (auto simp: ex_n list_all_iff)
  then have "obj_get (obj_data_blank (og_odsc ex_q) (Some d')) [2] = [8]" "obj_get (obj_data_blank (og_odsc ex_q) (Some d')) [3] = [9]"
    using pts val unfolding ex_log_def by (metis list.set_intros snd_conv)+
  with d'(1) s(1) show ?thesis by blast
qed

end
