(* ===== verification/CList.thy ===== *)
theory CList
  imports Prelude
begin

text \<open>
  The intrusive doubly linked list of \<^verbatim>\<open>include/list.h\<close>: a circular chain of
  \<^verbatim>\<open>struct list_head\<close> cells through a sentinel cell. Memory is a pair of link fields for
  every address; a dereference of \<open>NULL\<close> has no result (\<open>None\<close>). The abstraction
  \<open>dlist h head xs\<close> relates the cells reachable from the sentinel \<open>head\<close> to the HOL list
  \<open>xs\<close> of their addresses; the lemmas show that every operation of the header is the
  corresponding list operation. The other components model their intrusive lists by HOL
  lists on the strength of these refinements.
\<close>

section \<open>Memory of list cells\<close>

type_synonym addr = nat

definition NULL :: addr where
  "NULL = 0"

record list_mem =
  lprev :: "addr \<Rightarrow> addr"
  lnext :: "addr \<Rightarrow> addr"

abbreviation set_prev :: "addr \<Rightarrow> addr \<Rightarrow> list_mem \<Rightarrow> list_mem" where
  "set_prev a v h \<equiv> h\<lparr>lprev := (lprev h)(a := v)\<rparr>"

abbreviation set_next :: "addr \<Rightarrow> addr \<Rightarrow> list_mem \<Rightarrow> list_mem" where
  "set_next a v h \<equiv> h\<lparr>lnext := (lnext h)(a := v)\<rparr>"

section \<open>Operations\<close>

definition INIT_LIST_HEAD :: "addr \<Rightarrow> list_mem \<Rightarrow> list_mem" where
  "INIT_LIST_HEAD l h = set_prev l l (set_next l l h)"

text \<open>\<^verbatim>\<open>__list_add\<close>: link the cell \<open>np\<close> between \<open>pr\<close> and \<open>nx\<close>, in the order of the four stores.\<close>

definition list_add_link :: "addr \<Rightarrow> addr \<Rightarrow> addr \<Rightarrow> list_mem \<Rightarrow> list_mem option" where
  "list_add_link np pr nx h =
     (if np = NULL \<or> pr = NULL \<or> nx = NULL then None
      else Some (set_prev nx np (set_next pr np (set_prev np pr (set_next np nx h)))))"

definition list_add :: "addr \<Rightarrow> addr \<Rightarrow> list_mem \<Rightarrow> list_mem option" where
  "list_add np head h = (if head = NULL then None else list_add_link np head (lnext h head) h)"

definition list_add_tail :: "addr \<Rightarrow> addr \<Rightarrow> list_mem \<Rightarrow> list_mem option" where
  "list_add_tail np head h = (if head = NULL then None else list_add_link np (lprev h head) head h)"

definition list_add_before_pos :: "addr \<Rightarrow> addr \<Rightarrow> list_mem \<Rightarrow> list_mem option" where
  "list_add_before_pos np nx h = (if nx = NULL then None else list_add_link np (lprev h nx) nx h)"

definition list_del :: "addr \<Rightarrow> list_mem \<Rightarrow> list_mem option" where
  "list_del old h =
     (if old = NULL \<or> lprev h old = NULL then None
      else let h1 = set_next (lprev h old) (lnext h old) h
           in if lnext h1 old = NULL then None
              else let h2 = set_prev (lnext h1 old) (lprev h1 old) h1
                   in Some (set_prev old NULL (set_next old NULL h2)))"

definition list_empty :: "addr \<Rightarrow> list_mem \<Rightarrow> bool" where
  "list_empty head h \<longleftrightarrow> lnext h head = head"

partial_function (option) list_len_from :: "list_mem \<Rightarrow> addr \<Rightarrow> addr \<Rightarrow> nat \<Rightarrow> nat option" where
  "list_len_from h head pos len =
     (if pos = head then Some len else list_len_from h head (lnext h pos) (Suc len))"

definition list_len :: "addr \<Rightarrow> list_mem \<Rightarrow> nat option" where
  "list_len head h = list_len_from h head (lnext h head) 0"

text \<open>
  The cells that the \<^verbatim>\<open>list_for_each\<close> macros visit, in order. \<open>list_for_each_safe\<close> reads the
  successor before the body runs, so a body that deletes the current cell does not
  disturb the iteration: \<open>body\<close> maps the memory at each visited cell.
\<close>

partial_function (option) list_for_each_from :: "list_mem \<Rightarrow> addr \<Rightarrow> addr \<Rightarrow> addr list option" where
  "list_for_each_from h head pos =
     (if pos = head then Some []
      else Option.bind (list_for_each_from h head (lnext h pos)) (\<lambda>xs. Some (pos # xs)))"

definition list_for_each :: "addr \<Rightarrow> list_mem \<Rightarrow> addr list option" where
  "list_for_each head h = list_for_each_from h head (lnext h head)"

partial_function (option) list_for_each_safe_from ::
  "(addr \<Rightarrow> list_mem \<Rightarrow> list_mem option) \<Rightarrow> addr \<Rightarrow> addr \<Rightarrow> addr \<Rightarrow> list_mem \<Rightarrow> list_mem option" where
  "list_for_each_safe_from body head pos n h =
     (if pos = head then Some h
      else (case body pos h of
              None \<Rightarrow> None
            | Some h' \<Rightarrow> list_for_each_safe_from body head n (lnext h' n) h'))"

definition list_for_each_safe ::
  "(addr \<Rightarrow> list_mem \<Rightarrow> list_mem option) \<Rightarrow> addr \<Rightarrow> list_mem \<Rightarrow> list_mem option" where
  "list_for_each_safe body head h =
     list_for_each_safe_from body head (lnext h head) (lnext h (lnext h head)) h"

section \<open>Abstraction to HOL lists\<close>

fun linked :: "list_mem \<Rightarrow> addr \<Rightarrow> addr list \<Rightarrow> addr \<Rightarrow> bool" where
  "linked h a [] b \<longleftrightarrow> lnext h a = b \<and> lprev h b = a"
| "linked h a (x # xs) b \<longleftrightarrow> lnext h a = x \<and> lprev h x = a \<and> linked h x xs b"

definition dlist :: "list_mem \<Rightarrow> addr \<Rightarrow> addr list \<Rightarrow> bool" where
  "dlist h head xs \<longleftrightarrow> linked h head xs head \<and> distinct (head # xs) \<and> NULL \<notin> set (head # xs)"

lemma linked_append [simp]:
  "linked h a (xs @ y # ys) b \<longleftrightarrow> linked h a xs y \<and> linked h y ys b"
  by (induction xs arbitrary: a) auto

lemma linked_snocE:
  assumes "linked h a xs b"
  shows "lprev h b = last (a # xs)" and "lnext h a = hd (xs @ [b])"
  using assms by (induction xs arbitrary: a) auto

lemma linked_frame:
  assumes "linked h a xs b"
    and "\<And>x. x \<in> insert a (set xs) \<Longrightarrow> lnext h' x = lnext h x"
    and "\<And>x. x \<in> insert b (set xs) \<Longrightarrow> lprev h' x = lprev h x"
  shows "linked h' a xs b"
  using assms
proof (induction xs arbitrary: a)
  case Nil
  then show ?case by simp
next
  case (Cons x xs)
  then have "linked h' x xs b" by (intro Cons.IH) auto
  then show ?case using Cons.prems by auto
qed

text \<open>Linking a fresh cell after \<open>p\<close>, and unlinking the cell after \<open>p\<close>.\<close>

lemma linked_insert:
  assumes "linked h p zs b" "np \<notin> {p, b} \<union> set zs" "p \<notin> set zs" "b \<notin> set zs" "distinct zs"
    and "h' = set_prev (hd (zs @ [b])) np (set_next p np (set_prev np p (set_next np (hd (zs @ [b])) h)))"
  shows "linked h' p (np # zs) b"
proof (cases zs)
  case Nil
  then show ?thesis using assms by auto
next
  case (Cons z zs')
  then have "linked h z zs' b" using assms(1) by simp
  then have "linked h' z zs' b" by (rule linked_frame) (use assms Cons in auto)
  then show ?thesis using assms Cons by auto
qed

lemma linked_remove:
  assumes "linked h p (old # zs) b" "old \<notin> {p, b} \<union> set zs" "p \<notin> set zs" "b \<notin> set zs" "distinct zs"
    and "h' = set_prev old v (set_next old w
                (set_prev (hd (zs @ [b])) p (set_next p (hd (zs @ [b])) h)))"
  shows "linked h' p zs b"
proof (cases zs)
  case Nil
  then show ?thesis using assms by auto
next
  case (Cons z zs')
  then have "linked h z zs' b" using assms(1) by simp
  then have "linked h' z zs' b" by (rule linked_frame) (use assms Cons in auto)
  then show ?thesis using assms Cons by auto
qed

text \<open>Both at any place of the circular list: the cells before \<open>p\<close> are a frame.\<close>

lemma dlist_split:
  assumes "dlist h head (ys @ zs)"
  obtains p where "p = last (head # ys)" "linked h p zs head" "p \<notin> set zs" "head \<notin> set zs"
    and "\<And>h' zs'. linked h' p zs' head \<Longrightarrow> ys = [] \<or> linked h' head (butlast ys) p
           \<Longrightarrow> linked h' head (ys @ zs') head"
    and "ys = [] \<or> p \<noteq> head \<and> p \<notin> set (butlast ys) \<and> linked h head (butlast ys) p"
proof (cases ys rule: rev_cases)
  case Nil
  with assms show ?thesis by (intro that [of head]) (auto simp: dlist_def)
next
  case (snoc ys' q)
  with assms show ?thesis by (intro that [of q]) (auto simp: dlist_def)
qed

lemma dlist_insert:
  assumes d: "dlist h head (ys @ zs)" and np: "np \<noteq> NULL" "np \<noteq> head" "np \<notin> set (ys @ zs)"
  shows "\<exists>h'. list_add_link np (last (head # ys)) (hd (zs @ [head])) h = Some h' \<and>
           dlist h' head (ys @ np # zs)"
proof -
  obtain p where p: "p = last (head # ys)" "linked h p zs head" "p \<notin> set zs" "head \<notin> set zs"
    and join: "\<And>h' zs'. linked h' p zs' head \<Longrightarrow> ys = [] \<or> linked h' head (butlast ys) p
           \<Longrightarrow> linked h' head (ys @ zs') head"
    and fr: "ys = [] \<or> p \<noteq> head \<and> p \<notin> set (butlast ys) \<and> linked h head (butlast ys) p"
    using d by (rule dlist_split) blast
  let ?nx = "hd (zs @ [head])"
  let ?h = "set_prev ?nx np (set_next p np (set_prev np p (set_next np ?nx h)))"
  have mem: "p \<in> set (head # ys)" "?nx \<in> set (zs @ [head])"
    unfolding p(1) by (rule last_in_set, simp) (rule hd_in_set, simp)
  have dist: "distinct (head # ys @ zs)" "NULL \<notin> set (head # ys @ zs)" "linked h head (ys @ zs) head"
    using d by (auto simp: dlist_def)
  have "linked ?h p (np # zs) head"
    using p dist np mem(1) by (intro linked_insert [of h]) auto
  moreover have "ys = [] \<or> linked ?h head (butlast ys) p"
  proof (cases "ys = []")
    case False
    with fr have fr': "linked h head (butlast ys) p" "p \<noteq> head" "p \<notin> set (butlast ys)" by auto
    have "?nx \<notin> set (butlast ys)" "?nx \<noteq> p" "np \<notin> insert head (insert p (set (butlast ys)))"
      using mem fr' dist p(3) np by (auto dest: in_set_butlastD)
    then have "linked ?h head (butlast ys) p"
      by (intro linked_frame [OF fr'(1)]) (use fr' in auto)
    then show ?thesis ..
  qed simp
  ultimately have "linked ?h head (ys @ np # zs) head" by (rule join)
  moreover have "list_add_link np p ?nx h = Some ?h"
    using np mem dist by (auto simp: list_add_link_def)
  ultimately show ?thesis using dist np by (auto simp: dlist_def p(1))
qed

lemma dlist_remove:
  assumes d: "dlist h head (ys @ old # zs)"
  shows "\<exists>h'. list_del old h = Some h' \<and> dlist h' head (ys @ zs)"
proof -
  obtain p where p: "p = last (head # ys)" "linked h p (old # zs) head" "p \<notin> set (old # zs)"
      "head \<notin> set (old # zs)"
    and join: "\<And>h' zs'. linked h' p zs' head \<Longrightarrow> ys = [] \<or> linked h' head (butlast ys) p
           \<Longrightarrow> linked h' head (ys @ zs') head"
    and fr: "ys = [] \<or> p \<noteq> head \<and> p \<notin> set (butlast ys) \<and> linked h head (butlast ys) p"
    using d by (rule dlist_split) blast
  let ?nx = "hd (zs @ [head])"
  let ?h = "set_prev old NULL (set_next old NULL (set_prev ?nx p (set_next p ?nx h)))"
  have mem: "p \<in> set (head # ys)" "?nx \<in> set (zs @ [head])"
    unfolding p(1) by (rule last_in_set, simp) (rule hd_in_set, simp)
  have dist: "distinct (head # ys @ old # zs)" "NULL \<notin> set (head # ys @ old # zs)"
    using d by (auto simp: dlist_def)
  have l: "linked h old zs head" "lprev h old = p"
    using p(2) by (simp_all only: linked.simps)
  note links = l(2) linked_snocE(2) [OF l(1)]
  have "linked ?h p zs head"
    by (rule linked_remove [OF p(2) _ _ _ _ refl]) (use p(3,4) dist in auto)
  moreover have "ys = [] \<or> linked ?h head (butlast ys) p"
  proof (cases "ys = []")
    case False
    with fr have fr': "linked h head (butlast ys) p" "p \<noteq> head" "p \<notin> set (butlast ys)" by auto
    have "?nx \<notin> set (butlast ys)" "?nx \<noteq> p" "old \<notin> insert head (insert p (set (butlast ys)))"
      using mem fr' dist p(3) by (auto dest: in_set_butlastD)
    then have "linked ?h head (butlast ys) p"
      by (intro linked_frame [OF fr'(1)]) (use fr' in auto)
    then show ?thesis ..
  qed simp
  ultimately have "linked ?h head (ys @ zs) head" by (rule join)
  moreover have "list_del old h = Some ?h"
    using mem dist p(3) by (auto simp: list_del_def links Let_def)
  ultimately show ?thesis using dist by (auto simp: dlist_def)
qed


section \<open>Each operation as a list operation\<close>

lemma dlist_hd: "dlist h head xs \<Longrightarrow> lnext h head = hd (xs @ [head])"
  by (simp add: dlist_def linked_snocE(2))

lemma dlist_last: "dlist h head xs \<Longrightarrow> lprev h head = last (head # xs)"
  unfolding dlist_def by (elim conjE) (rule linked_snocE(1))

lemma dlist_NULL: "dlist h head xs \<Longrightarrow> head \<noteq> NULL"
  by (auto simp: dlist_def)

lemma list_len_from_linked:
  assumes "linked h a xs head" "head \<notin> set xs"
  shows "list_len_from h head (lnext h a) n = Some (n + length xs)"
  using assms
proof (induction xs arbitrary: a n)
  case Nil
  then show ?case by (simp add: list_len_from.simps)
next
  case (Cons x xs)
  then show ?case by (subst list_len_from.simps) auto
qed

lemma list_for_each_from_linked:
  assumes "linked h a xs head" "head \<notin> set xs"
  shows "list_for_each_from h head (lnext h a) = Some xs"
  using assms
proof (induction xs arbitrary: a)
  case Nil
  then show ?case by (simp add: list_for_each_from.simps)
next
  case (Cons x xs)
  then show ?case by (subst list_for_each_from.simps) auto
qed

lemma dlist_for_each: "dlist h head xs \<Longrightarrow> list_for_each head h = Some xs"
  by (simp add: dlist_def list_for_each_def list_for_each_from_linked)

lemma dlist_init: "head \<noteq> NULL \<Longrightarrow> dlist (INIT_LIST_HEAD head h) head []"
  by (simp add: dlist_def INIT_LIST_HEAD_def)

lemma dlist_add:
  assumes "dlist h head xs" "np \<noteq> NULL" "np \<noteq> head" "np \<notin> set xs"
  shows "\<exists>h'. list_add np head h = Some h' \<and> dlist h' head (np # xs)"
  using dlist_insert [of h head "[]" xs np] assms
  by (simp add: list_add_def dlist_NULL dlist_hd)

lemma dlist_add_tail:
  assumes "dlist h head xs" "np \<noteq> NULL" "np \<noteq> head" "np \<notin> set xs"
  shows "\<exists>h'. list_add_tail np head h = Some h' \<and> dlist h' head (xs @ [np])"
  using dlist_insert [of h head xs "[]" np] assms
  by (simp add: list_add_tail_def dlist_NULL dlist_last [of h head xs])


lemma dlist_before_pos:
  assumes "dlist h head (ys @ z # zs)" "np \<noteq> NULL" "np \<noteq> head" "np \<notin> set (ys @ z # zs)"
  shows "\<exists>h'. list_add_before_pos np z h = Some h' \<and> dlist h' head (ys @ np # z # zs)"
proof -
  have "lprev h z = last (head # ys)" "z \<noteq> NULL"
    using assms(1) by (auto simp: dlist_def dest: linked_snocE(1))
  then show ?thesis
    using dlist_insert [of h head ys "z # zs" np] assms by (simp add: list_add_before_pos_def)
qed

lemma dlist_next:
  "dlist h head (ys @ z # zs) \<Longrightarrow> lnext h z = hd (zs @ [head])"
  by (auto simp: dlist_def dest: linked_snocE(2))

text \<open>
  The pattern of every eviction loop of the program: \<^verbatim>\<open>list_for_each_entry_safe\<close> with a
  \<^verbatim>\<open>list_del\<close> of the cells that satisfy a test is a filter.
\<close>

lemma dlist_for_each_safe_from:
  assumes "dlist h head (ys @ zs)" "n = lnext h (hd (zs @ [head]))"
  shows "\<exists>h'. list_for_each_safe_from (\<lambda>pos h. if P pos then list_del pos h else Some h) head
              (hd (zs @ [head])) n h = Some h' \<and>
            dlist h' head (ys @ filter (\<lambda>x. \<not> P x) zs)"
  using assms
proof (induction zs arbitrary: ys h n)
  case Nil
  then show ?case by (simp add: list_for_each_safe_from.simps)
next
  case (Cons z zs)
  let ?body = "\<lambda>pos h. if P pos then list_del pos h else Some h"
  have z: "z \<noteq> head" and n: "n = hd (zs @ [head])"
    using Cons.prems dlist_next by (auto simp: dlist_def)
  show ?case
  proof (cases "P z")
    case True
    obtain h1 where h1: "list_del z h = Some h1" "dlist h1 head (ys @ zs)"
      using dlist_remove [OF Cons.prems(1)] by blast
    from Cons.IH [OF h1(2) refl] obtain h' where
      "list_for_each_safe_from ?body head n (lnext h1 n) h1 = Some h'"
      "dlist h' head (ys @ filter (\<lambda>x. \<not> P x) zs)" unfolding n by blast
    with True z h1 show ?thesis by (simp add: list_for_each_safe_from.simps [of _ head z])
  next
    case False
    have "dlist h head ((ys @ [z]) @ zs)" using Cons.prems(1) by simp
    from Cons.IH [OF this refl] obtain h' where
      "list_for_each_safe_from ?body head n (lnext h n) h = Some h'"
      "dlist h' head ((ys @ [z]) @ filter (\<lambda>x. \<not> P x) zs)" unfolding n by blast
    with False z show ?thesis by (simp add: list_for_each_safe_from.simps [of _ head z])
  qed
qed

lemma dlist_filter:
  assumes "dlist h head xs"
  shows "\<exists>h'. list_for_each_safe (\<lambda>pos h. if P pos then list_del pos h else Some h) head h = Some h' \<and>
            dlist h' head (filter (\<lambda>x. \<not> P x) xs)"
  using dlist_for_each_safe_from [of h head "[]" xs "lnext h (hd (xs @ [head]))" P] assms
  by (simp add: list_for_each_safe_def dlist_hd)

section \<open>Properties\<close>

lemma list_del_clears:
  "list_del old h = Some h' \<Longrightarrow> lnext h' old = NULL \<and> lprev h' old = NULL"
  by (auto simp: list_del_def Let_def split: if_splits)

lemma dlist_empty: "dlist h head xs \<Longrightarrow> list_empty head h \<longleftrightarrow> xs = []"
  using dlist_hd [of h head xs] by (cases xs) (auto simp: list_empty_def dlist_def)

lemma dlist_len: "dlist h head xs \<Longrightarrow> list_len head h = Some (length xs)"
  using list_len_from_linked [of h head xs head 0] by (simp add: list_len_def dlist_def)

text \<open>C13: the operations of the intrusive list are the operations of a sequence. In a well-formed
  circular list whose cells are \<open>xs\<close>, \<^verbatim>\<open>list_len\<close> is its length and \<^verbatim>\<open>list_empty\<close> tells whether it has
  none. Inserting a fresh cell succeeds: \<^verbatim>\<open>list_add\<close> makes it the first cell, \<^verbatim>\<open>list_add_tail\<close> the last,
  and \<^verbatim>\<open>list_add_before_pos\<close> puts it in front of any cell of the list. \<^verbatim>\<open>list_del\<close> takes any cell out and
  clears its links. The result is a well-formed list each time.\<close>

theorem list_ops_refine:
  assumes "dlist h head xs" "np \<noteq> NULL" "np \<noteq> head" "np \<notin> set xs"
  shows "list_len head h = Some (length xs) \<and> (list_empty head h \<longleftrightarrow> xs = []) \<and>
    (\<exists>h1. list_add np head h = Some h1 \<and> dlist h1 head (np # xs)) \<and>
    (\<exists>h2. list_add_tail np head h = Some h2 \<and> dlist h2 head (xs @ [np])) \<and>
    (\<forall>ys z zs. xs = ys @ z # zs \<longrightarrow>
       (\<exists>h3. list_add_before_pos np z h = Some h3 \<and> dlist h3 head (ys @ np # z # zs)) \<and>
       (\<exists>h4. list_del z h = Some h4 \<and> dlist h4 head (ys @ zs) \<and> lnext h4 z = NULL \<and> lprev h4 z = NULL))"
proof (intro conjI allI impI)
  fix ys z zs assume xs: "xs = ys @ z # zs"
  show "\<exists>h3. list_add_before_pos np z h = Some h3 \<and> dlist h3 head (ys @ np # z # zs)"
    using dlist_before_pos [of h head ys z zs np] assms unfolding xs by blast
  obtain h4 where h4: "list_del z h = Some h4" "dlist h4 head (ys @ zs)"
    using dlist_remove [of h head ys z zs] assms(1) unfolding xs by blast
  with list_del_clears [OF h4(1)]
  show "\<exists>h4. list_del z h = Some h4 \<and> dlist h4 head (ys @ zs) \<and> lnext h4 z = NULL \<and> lprev h4 z = NULL" by blast
qed (use dlist_len [OF assms(1)] dlist_empty [OF assms(1)] dlist_add [OF assms] dlist_add_tail [OF assms] in blast)+

definition example_list :: list_mem where
  "example_list = \<lparr>lprev = (\<lambda>_. 1)(1 := 3, 2 := 1, 3 := 2), lnext = (\<lambda>_. 1)(1 := 2, 2 := 3)\<rparr>"

lemma example_list: "dlist example_list 1 [2, 3]"
  by (simp add: dlist_def example_list_def NULL_def)

theorem list_ops_refine_witness:
  "list_len 1 example_list = Some 2 \<and> (\<exists>h. list_add 7 1 example_list = Some h \<and> dlist h 1 [7, 2, 3]) \<and>
   (\<exists>h. list_add_tail 7 1 example_list = Some h \<and> dlist h 1 [2, 3, 7]) \<and>
   (\<exists>h. list_add_before_pos 7 3 example_list = Some h \<and> dlist h 1 [2, 7, 3]) \<and>
   (\<exists>h. list_del 2 example_list = Some h \<and> dlist h 1 [3] \<and> lnext h 2 = NULL)"
proof -
  have r: "list_len 1 example_list = Some 2" "\<exists>h. list_add 7 1 example_list = Some h \<and> dlist h 1 [7, 2, 3]"
    "\<exists>h. list_add_tail 7 1 example_list = Some h \<and> dlist h 1 ([2, 3] @ [7])"
    and at: "\<forall>ys z zs. [2, 3] = ys @ z # zs \<longrightarrow>
       (\<exists>h3. list_add_before_pos 7 z example_list = Some h3 \<and> dlist h3 1 (ys @ 7 # z # zs)) \<and>
       (\<exists>h4. list_del z example_list = Some h4 \<and> dlist h4 1 (ys @ zs) \<and> lnext h4 z = NULL \<and> lprev h4 z = NULL)"
    using list_ops_refine [OF example_list, of 7] by (simp_all add: NULL_def)
  have "(\<exists>h. list_add_before_pos 7 3 example_list = Some h \<and> dlist h 1 ([2] @ 7 # 3 # []))"
    "(\<exists>h. list_del 2 example_list = Some h \<and> dlist h 1 ([] @ [3]) \<and> lnext h 2 = NULL \<and> lprev h 2 = NULL)"
    using at [rule_format, of "[2]" 3 "[]"] at [rule_format, of "[]" 2 "[3]"] by simp_all
  then show ?thesis using r by auto
qed

text \<open>An eviction loop is a filter. Running \<^verbatim>\<open>list_for_each_entry_safe\<close> with a body that
  \<^verbatim>\<open>list_del\<close>s exactly the cells satisfying \<open>P\<close> returns, never dereferences \<open>NULL\<close>, and leaves
  the list of the cells that do not satisfy \<open>P\<close>, in their order.\<close>

theorem list_eviction_loop_filters:
  assumes "dlist h head xs"
  shows "\<exists>h'. list_for_each_safe (\<lambda>pos h. if P pos then list_del pos h else Some h) head h = Some h' \<and>
           dlist h' head (filter (\<lambda>x. \<not> P x) xs) \<and>
           list_for_each head h' = Some (filter (\<lambda>x. \<not> P x) xs)"
  using dlist_filter [OF assms, of P] dlist_for_each by blast

theorem list_eviction_loop_filters_witness:
  "dlist example_list 1 [2, 3] \<and>
   (\<exists>h'. list_for_each_safe (\<lambda>pos h. if pos = 2 then list_del pos h else Some h) 1 example_list =
       Some h' \<and> dlist h' 1 [3] \<and> list_for_each 1 h' = Some [3])"
proof -
  note d = example_list
  show ?thesis
    using d list_eviction_loop_filters [OF d, of "\<lambda>x. x = 2"] by simp
qed

end
