(* ===== verification/DhtRun.thy ===== *)
theory DhtRun
  imports Dht "HOL-Library.Multiset"
begin

text \<open>
  The runs of an entry of the distributed hash table (\<^verbatim>\<open>src/ss_data.c\<close>): puts, which may overwrite
  the descriptors of older versions, queries, waiting threads and owner updates, in any order. The
  invariant of the runs, and what a query and a waiting thread get in every state of a run.
\<close>

section \<open>Runs of an entry\<close>

text \<open>
  A waiting thread in the history of an entry: its query, and the nodes it could count with the
  descriptors they held then, the newest first: those in the bin of the query when it began to wait
  and those written since. Once they cover what the server owns of the query, the wait is over and
  the list stays as it is.
\<close>

type_synonym waiter = "obj_descriptor \<times> (nat \<times> obj_descriptor) list"

definition got :: "obj_descriptor \<Rightarrow> (nat \<times> obj_descriptor) list \<Rightarrow> u64 list set" where
  "got q ds = (\<Union>p\<in>{p \<in> set ds. same_var q (snd p)}. points (od_bb (snd p)))"

definition hear :: "u64 list set \<Rightarrow> nat \<times> obj_descriptor \<Rightarrow> waiter \<Rightarrow> waiter" where
  "hear own p = (\<lambda>(q, ds). if points (od_bb q) \<inter> own \<subseteq> got q ds then (q, ds) else (q, p # ds))"

definition stored :: "dht_entry \<Rightarrow> obj_descriptor \<Rightarrow> (nat \<times> obj_descriptor) list" where
  "stored de q = map (\<lambda>a. (a, the (odsc_mem de a))) (odsc_hash de ! de_bin de q)"

definition matching :: "obj_descriptor \<Rightarrow> (nat \<times> obj_descriptor) list \<Rightarrow> nat multiset" where
  "matching q ds = mset (map fst (filter (\<lambda>p. obj_desc_equals_intersect (snd p) q) ds))"

text \<open>
  The operations on the entry of a server, with the list \<open>L\<close> of all descriptors put and the waiting
  threads \<open>W\<close>: allocation, puts, queries, which may start to wait, the end of a wait, and owner
  updates. A put overlaps no earlier put of its own name and version (\<^verbatim>\<open>DataSpaces storage is
  intended to be immutable, and the behavior of updates is undefined\<close>); it may overlap puts of
  other versions in its bin, and then \<^verbatim>\<open>dht_add_entry\<close> overwrites the first of them.
\<close>

inductive dht_run :: "intv \<Rightarrow> bbox \<Rightarrow> sspace \<Rightarrow> u64 list set \<Rightarrow> int \<Rightarrow>
    obj_descriptor list \<Rightarrow> (nat \<rightharpoonup> waiter) \<Rightarrow> dht_entry \<Rightarrow> bool" for ijunk junk ss own d where
  init: "0 < sz \<Longrightarrow> dht_run ijunk junk ss own d [] Map.empty (dht_entry_alloc sz)"
| add: "dht_run ijunk junk ss own d L W de \<Longrightarrow> fresh \<notin> set (concat (odsc_hash de)) \<Longrightarrow> box_ok d (od_bb odsc) \<Longrightarrow>
    \<forall>x\<in>set L. same_var odsc x \<longrightarrow> \<not> bbox_does_intersect (od_bb odsc) (od_bb x) \<Longrightarrow>
    dht_add_entry ijunk junk fresh ss de odsc = Some de' \<Longrightarrow>
    dht_run ijunk junk ss own d (odsc # L)
      (\<lambda>t. map_option (hear own (fst (dht_put_node fresh de odsc), odsc)) (W t)) de'"
| query: "dht_run ijunk junk ss own d L W de \<Longrightarrow> box_ok d (od_bb q) \<Longrightarrow>
    dht_find_entry_all ijunk junk t ss k de q timeout = Some (Found tab, de') \<Longrightarrow>
    dht_run ijunk junk ss own d L W de'"
| wait: "dht_run ijunk junk ss own d L W de \<Longrightarrow> box_ok d (od_bb q) \<Longrightarrow> W t = None \<Longrightarrow>
    dht_find_entry_all ijunk junk t ss k de q timeout = Some (Blocked, de') \<Longrightarrow>
    dht_run ijunk junk ss own d L (W(t \<mapsto> (q, stored de q))) de'"
| resume: "dht_run ijunk junk ss own d L W de \<Longrightarrow> dht_resume t de = Found tab \<Longrightarrow>
    dht_run ijunk junk ss own d L (W(t := None)) de"
| owner: "dht_run ijunk junk ss own d L W de \<Longrightarrow> dht_update_owner de odsc clear_flag = (ret, de') \<Longrightarrow>
    dht_run ijunk junk ss own d L W de'"

subsection \<open>The table\<close>

text \<open>The nodes hold descriptors that were put, and those of one name and version are disjoint.\<close>

definition in_log :: "obj_descriptor list \<Rightarrow> obj_descriptor \<Rightarrow> bool" where
  "in_log L x \<longleftrightarrow> (\<exists>z\<in>set L. key_of z = key_of x)"

definition table_imm :: "obj_descriptor list \<Rightarrow> dht_entry \<Rightarrow> bool" where
  "table_imm L de \<longleftrightarrow> (\<forall>a\<in>set (concat (odsc_hash de)). \<forall>x. odsc_mem de a = Some x \<longrightarrow> in_log L x \<and>
     (\<forall>b\<in>set (concat (odsc_hash de)). \<forall>y. a \<noteq> b \<longrightarrow> odsc_mem de b = Some y \<longrightarrow> same_var x y \<longrightarrow>
        points (od_bb x) \<inter> points (od_bb y) = {}))"

lemma in_log_mono: "in_log L x \<Longrightarrow> in_log (y # L) x"
  by (auto simp: in_log_def)

lemma in_log_box: "in_log L x \<Longrightarrow> \<forall>z\<in>set L. box_ok d (od_bb z) \<Longrightarrow> box_ok d (od_bb x)"
  by (auto simp: in_log_def key_of_def)

lemma in_log_disjoint:
  assumes "in_log L x" "same_var odsc x" "\<forall>x\<in>set L. same_var odsc x \<longrightarrow> \<not> bbox_does_intersect (od_bb odsc) (od_bb x)"
    "\<forall>z\<in>set L. box_ok d (od_bb z)" "box_ok d (od_bb odsc)"
  shows "points (od_bb odsc) \<inter> points (od_bb x) = {}"
proof -
  obtain z where "z \<in> set L" "key_of z = key_of x" using assms(1) by (auto simp: in_log_def)
  then have z: "z \<in> set L" "same_var odsc z" "od_bb z = od_bb x" using assms(2) by (simp_all add: key_of_def same_var_def)
  then show ?thesis using assms(3-5) not_intersect_points [of "od_bb odsc" "od_bb x"] by (fastforce simp: box_ok_def)
qed

lemma bin_concat:
  assumes "de_inv de" "a \<in> set (odsc_hash de ! de_bin de q)"
  shows "a \<in> set (concat (odsc_hash de))"
  using assms(2) de_bin_less [OF assms(1)] assms(1) nth_mem [of "de_bin de q" "odsc_hash de"]
  by (auto simp: de_inv_def)

lemma table_imm_tiled:
  assumes "de_inv de" "table_imm L de" "\<forall>z\<in>set L. box_ok d (od_bb z)"
  shows "tiled d de q (odsc_hash de ! de_bin de q)"
  unfolding tiled_def
proof (intro conjI ballI impI)
  note bin = de_bin_less [OF assms(1), of q] and sub = bin_concat [OF assms(1), of _ q]
  fix a assume a: "a \<in> set (odsc_hash de ! de_bin de q)"
  then obtain x where x: "odsc_mem de a = Some x" using node_mem [OF assms(1) a bin] by blast
  have "in_log L x" using assms(2) sub [OF a] x unfolding table_imm_def by blast
  then have "box_ok d (od_bb x)" using assms(3) by (rule in_log_box)
  with x show "\<exists>odsc. odsc_mem de a = Some odsc \<and> (same_var q odsc \<longrightarrow> box_ok d (od_bb odsc))" by blast
  fix b assume b: "b \<in> set (odsc_hash de ! de_bin de q)" "a \<noteq> b"
  then obtain y where y: "odsc_mem de b = Some y" using node_mem [OF assms(1) b(1) bin] by blast
  have "same_var x y \<longrightarrow> points (od_bb x) \<inter> points (od_bb y) = {}"
    using assms(2) sub [OF a] sub [OF b(1)] b x y unfolding table_imm_def by blast
  then show "piece de q a \<inter> piece de q b = {}" using x y by (auto simp: piece_def same_var_def)
qed

lemma table_imm_cong:
  "odsc_hash de' = odsc_hash de \<Longrightarrow> odsc_mem de' = odsc_mem de \<Longrightarrow> table_imm L de' = table_imm L de"
  by (simp add: table_imm_def)

lemma put_node_sel:
  assumes "de_inv de"
  shows "odsc_mem (snd (dht_put_node fresh de odsc)) = (odsc_mem de)(fst (dht_put_node fresh de odsc) \<mapsto> odsc)"
    "set (concat (odsc_hash (snd (dht_put_node fresh de odsc)))) =
       insert (fst (dht_put_node fresh de odsc)) (set (concat (odsc_hash de)))"
    "dht_subs (snd (dht_put_node fresh de odsc)) = dht_subs de" "sub_mem (snd (dht_put_node fresh de odsc)) = sub_mem de"
    "odsc_size (snd (dht_put_node fresh de odsc)) = odsc_size de"
proof -
  have n: "de_bin de odsc < length (odsc_hash de)" using de_bin_less [OF assms] assms by (simp add: de_inv_def)
  show "odsc_mem (snd (dht_put_node fresh de odsc)) = (odsc_mem de)(fst (dht_put_node fresh de odsc) \<mapsto> odsc)"
    "dht_subs (snd (dht_put_node fresh de odsc)) = dht_subs de" "sub_mem (snd (dht_put_node fresh de odsc)) = sub_mem de"
    "odsc_size (snd (dht_put_node fresh de odsc)) = odsc_size de"
    by (auto simp: dht_put_node_def Let_def split: option.splits)
  show "set (concat (odsc_hash (snd (dht_put_node fresh de odsc)))) =
       insert (fst (dht_put_node fresh de odsc)) (set (concat (odsc_hash de)))"
  proof (cases "dht_find_match de odsc")
    case None
    then show ?thesis using set_concat_push [OF n, of fresh] by (simp add: dht_put_node_def Let_def)
  next
    case (Some a)
    then show ?thesis using bin_concat [OF assms find_match_bin [OF Some]] by (auto simp: dht_put_node_def)
  qed
qed

lemma table_imm_put_node:
  assumes inv: "de_inv de" and tab: "table_imm L de"
    and L: "\<forall>z\<in>set L. box_ok d (od_bb z)" "box_ok d (od_bb odsc)"
    and new: "\<forall>x\<in>set L. same_var odsc x \<longrightarrow> \<not> bbox_does_intersect (od_bb odsc) (od_bb x)"
  shows "table_imm (odsc # L) (snd (dht_put_node fresh de odsc))"
proof -
  let ?a = "fst (dht_put_node fresh de odsc)"
  note sel = put_node_sel [OF inv, of fresh odsc]
  have me: "in_log (odsc # L) odsc" by (simp add: in_log_def)
  have old: "points (od_bb odsc) \<inter> points (od_bb x) = {}"
    if "b \<in> set (concat (odsc_hash de))" "odsc_mem de b = Some x" "same_var odsc x" for b x
  proof -
    have "in_log L x" using tab that(1,2) unfolding table_imm_def by blast
    then show ?thesis using that(3) new L by (rule in_log_disjoint)
  qed
  show ?thesis
    unfolding table_imm_def sel(1,2)
  proof (intro ballI allI impI conjI)
    fix a x assume a: "a \<in> insert ?a (set (concat (odsc_hash de)))" "((odsc_mem de)(?a \<mapsto> odsc)) a = Some x"
    show "in_log (odsc # L) x"
    proof (cases "a = ?a")
      case True
      then show ?thesis using a me by simp
    next
      case False
      then have "in_log L x" using a tab unfolding table_imm_def by auto
      then show ?thesis by (rule in_log_mono)
    qed
    fix b y assume b: "b \<in> insert ?a (set (concat (odsc_hash de)))" "a \<noteq> b" "((odsc_mem de)(?a \<mapsto> odsc)) b = Some y"
      "same_var x y"
    consider "a = ?a" "b \<noteq> ?a" | "b = ?a" "a \<noteq> ?a" | "a \<noteq> ?a" "b \<noteq> ?a" using b(2) by blast
    then show "points (od_bb x) \<inter> points (od_bb y) = {}"
    proof cases
      case 1
      then have "x = odsc" "b \<in> set (concat (odsc_hash de))" "odsc_mem de b = Some y" using a b by auto
      then show ?thesis using old [of b y] b(4) by simp
    next
      case 2
      then have "y = odsc" "a \<in> set (concat (odsc_hash de))" "odsc_mem de a = Some x" using a b by auto
      moreover from this have "same_var odsc x" using b(4) by (simp add: same_var_def)
      ultimately show ?thesis using old [of a x] by auto
    next
      case 3
      then have "a \<in> set (concat (odsc_hash de))" "odsc_mem de a = Some x" "b \<in> set (concat (odsc_hash de))" "odsc_mem de b = Some y"
        using a b by auto
      then show ?thesis using tab b(2,4) unfolding table_imm_def by blast
    qed
  qed
qed

lemma alike_imm:
  assumes a: "alike de de'" and t: "table_imm L de"
  shows "table_imm L de'"
  unfolding table_imm_def alike_sel [OF a]
proof (intro allI ballI impI conjI)
  fix x y assume i: "x \<in> set (concat (odsc_hash de))" "odsc_mem de' x = Some y"
  obtain y' where y': "odsc_mem de x = Some y'" "key_of y' = key_of y"
    by (rule alike_mem [OF a i(2)]) (auto simp: key_of_def)
  have "in_log L y'" using t i(1) y'(1) unfolding table_imm_def by blast
  then show "in_log L y" using y'(2) by (simp add: in_log_def)
  fix b z assume b: "b \<in> set (concat (odsc_hash de))" "x \<noteq> b" "odsc_mem de' b = Some z" "same_var y z"
  obtain z' where z': "odsc_mem de b = Some z'" "key_of z' = key_of z"
    by (rule alike_mem [OF a b(3)]) (auto simp: key_of_def)
  have "same_var y' z'" "od_bb y' = od_bb y" "od_bb z' = od_bb z"
    using b(4) y'(2) z'(2) by (simp_all add: same_var_def key_of_def)
  then show "points (od_bb y) \<inter> points (od_bb z) = {}"
    using t i(1) b(1,2) y'(1) z'(1) unfolding table_imm_def by fastforce
qed

subsection \<open>The waiting threads\<close>

definition lacks :: "u64 list set \<Rightarrow> waiter \<Rightarrow> nat" where
  "lacks own w = card (points (od_bb (fst w)) \<inter> own - got (fst w) (snd w))"

definition waiter_ok :: "u64 list set \<Rightarrow> int \<Rightarrow> dht_entry \<Rightarrow> nat \<Rightarrow> waiter \<Rightarrow> bool" where
  "waiter_ok own d de t w \<longleftrightarrow> box_ok d (od_bb (fst w)) \<and>
     (\<exists>sub. sub_mem de t = Some sub \<and> ds_odsc sub = fst w \<and> ds_remaining sub = of_nat (lacks own w) \<and>
        mset (ds_tab sub @ ds_recv sub) = matching (fst w) (snd w)) \<and>
     (\<forall>i<odsc_size de. t \<in> set (dht_subs de ! i) \<longleftrightarrow> i = de_bin de (fst w) \<and> lacks own w \<noteq> 0)"

definition thread_ok :: "u64 list set \<Rightarrow> int \<Rightarrow> obj_descriptor list \<Rightarrow> dht_entry \<Rightarrow> nat \<Rightarrow> waiter option \<Rightarrow> bool" where
  "thread_ok own d L de t w = (case w of
     None \<Rightarrow> \<forall>i<odsc_size de. t \<notin> set (dht_subs de ! i)
   | Some w \<Rightarrow> waiter_ok own d de t w \<and> (\<forall>p\<in>set (snd w). in_log L (snd p)))"

definition run_inv :: "u64 list set \<Rightarrow> int \<Rightarrow> obj_descriptor list \<Rightarrow> (nat \<rightharpoonup> waiter) \<Rightarrow> dht_entry \<Rightarrow> bool" where
  "run_inv own d L W de \<longleftrightarrow> de_inv de \<and> (\<forall>z\<in>set L. box_ok d (od_bb z)) \<and> table_imm L de \<and>
     (\<forall>i<odsc_size de. distinct (dht_subs de ! i)) \<and> (\<forall>t. thread_ok own d L de t (W t))"

lemma run_invD:
  assumes "run_inv own d L W de"
  shows "de_inv de" "\<forall>z\<in>set L. box_ok d (od_bb z)" "table_imm L de"
    "\<And>i. i < odsc_size de \<Longrightarrow> distinct (dht_subs de ! i)" "\<And>t. thread_ok own d L de t (W t)"
  using assms by (simp_all add: run_inv_def)

lemma lacks_0: "lacks own w = 0 \<longleftrightarrow> points (od_bb (fst w)) \<inter> own \<subseteq> got (fst w) (snd w)"
  by (simp add: lacks_def)

lemma lacks_bound: "box_ok d (od_bb (fst w)) \<Longrightarrow> lacks own w < 9223372036854775808"
proof -
  assume "box_ok d (od_bb (fst w))"
  moreover have "lacks own w \<le> card (points (od_bb (fst w)))" unfolding lacks_def by (rule card_mono) auto
  ultimately show ?thesis by (simp add: box_ok_def card_points)
qed

lemma hear_alt: "hear own p w = (fst w, if lacks own w = 0 then snd w else p # snd w)"
  by (simp add: hear_def lacks_0 case_prod_beta prod_eq_iff)

lemma got_Cons: "got q (p # ds) = (if same_var q (snd p) then points (od_bb (snd p)) else {}) \<union> got q ds"
  by (auto simp: got_def)

lemma got_stored:
  assumes "de_inv de"
  shows "got q (stored de q) = cov de q"
proof -
  have "piece de q a = (if same_var q (the (odsc_mem de a)) then points (od_bb (the (odsc_mem de a))) else {})"
    if "a \<in> set (odsc_hash de ! de_bin de q)" for a
    by (rule node_mem [OF assms that de_bin_less [OF assms]]) (simp add: piece_def)
  then have "cov de q = (\<Union>a\<in>set (odsc_hash de ! de_bin de q).
      if same_var q (the (odsc_mem de a)) then points (od_bb (the (odsc_mem de a))) else {})"
    unfolding cov_def by (rule SUP_cong [OF refl])
  moreover have "got q (map (\<lambda>a. (a, f a)) as) = (\<Union>a\<in>set as. if same_var q (f a) then points (od_bb (f a)) else {})"
    for f :: "nat \<Rightarrow> obj_descriptor" and as
    by (induction as) (auto simp: got_Cons got_def)
  ultimately show ?thesis by (simp add: stored_def)
qed

lemma matching_stored:
  assumes "de_inv de"
  shows "matching q (stored de q) = mset (hits de q)"
proof -
  have "node_sat de P a \<longleftrightarrow> P (the (odsc_mem de a))" if "a \<in> set (odsc_hash de ! de_bin de q)" for a P
    by (rule node_mem [OF assms that de_bin_less [OF assms]]) (simp add: node_sat_def)
  then have "hits de q = filter (\<lambda>a. obj_desc_equals_intersect (the (odsc_mem de a)) q) (odsc_hash de ! de_bin de q)"
    unfolding hits_def by (rule filter_cong [OF refl])
  then show ?thesis by (simp add: matching_def stored_def filter_map comp_def)
qed

text \<open>One put: what a waiting thread lacks afterwards.\<close>

lemma lacks_hear:
  assumes w: "box_ok d (od_bb (fst w))" "\<forall>p\<in>set (snd w). in_log L (snd p)" "lacks own w \<noteq> 0"
    and L: "\<forall>z\<in>set L. box_ok d (od_bb z)" "box_ok d (od_bb odsc)"
    and new: "\<forall>x\<in>set L. same_var odsc x \<longrightarrow> \<not> bbox_does_intersect (od_bb odsc) (od_bb x)"
  shows "lacks own w = lacks own (hear own (a, odsc) w) +
    (if obj_desc_equals_intersect odsc (fst w) then card (points (od_bb odsc) \<inter> own \<inter> points (od_bb (fst w))) else 0)"
proof -
  obtain q ds where qd: "w = (q, ds)" by (cases w)
  let ?Q = "points (od_bb q) \<inter> own" and ?P = "points (od_bb odsc)"
  have h: "lacks own (hear own (a, odsc) w) = card (?Q - got q ((a, odsc) # ds))"
    using w(3) unfolding hear_alt by (simp add: lacks_def qd)
  show ?thesis
  proof (cases "same_var q odsc")
    case False
    then show ?thesis using h by (auto simp: qd lacks_def got_Cons obj_desc_equals_intersect_def same_var_def)
  next
    case sv: True
    have "?P \<inter> points (od_bb (snd p)) = {}" if "p \<in> set ds" "same_var q (snd p)" for p
    proof (rule in_log_disjoint [OF _ _ new L])
      show "in_log L (snd p)" using w(2) that(1) by (simp add: qd)
      show "same_var odsc (snd p)" using that(2) sv by (simp add: same_var_def)
    qed
    then have dis: "?P \<inter> got q ds = {}" by (auto simp: got_def)
    have "?Q - got q ds = (?Q - got q ((a, odsc) # ds)) \<union> (?Q \<inter> ?P)" "(?Q - got q ((a, odsc) # ds)) \<inter> (?Q \<inter> ?P) = {}"
      using sv dis by (auto simp: got_Cons)
    then have "lacks own w = card (?Q - got q ((a, odsc) # ds)) + card (?Q \<inter> ?P)"
      by (simp add: lacks_def qd card_Un_disjoint)
    moreover have "?Q \<inter> ?P = {}" if "\<not> obj_desc_equals_intersect odsc q"
    proof -
      have "num_dims (od_bb odsc) = num_dims (od_bb q)" using w(1) L(2) by (simp add: box_ok_def qd)
      then show ?thesis
        using that sv not_intersect_points [of "od_bb odsc" "od_bb q"]
        by (auto simp: obj_desc_equals_intersect_def same_var_def)
    qed
    ultimately show ?thesis using h by (simp add: qd Int_ac)
  qed
qed

lemma sub_match_alt: "sub_match odsc sub \<longleftrightarrow> obj_desc_equals_intersect odsc (ds_odsc sub)"
  by (auto simp: sub_match_def obj_desc_equals_intersect_def)

context counted_space
begin

lemma run_add_loop:
  assumes inv: "run_inv own d L W de" and fresh: "fresh \<notin> set (concat (odsc_hash de))"
    and odsc: "box_ok d (od_bb odsc)"
  defines "a \<equiv> fst (dht_put_node fresh de odsc)" and "de1 \<equiv> snd (dht_put_node fresh de odsc)"
    and "N \<equiv> \<lambda>t. (of_nat (card (points (od_bb odsc) \<inter> own \<inter> points (od_bb (ds_odsc (the (sub_mem de t)))))) :: u64)"
    and "ts \<equiv> dht_subs de ! de_bin de odsc"
  shows "dht_add_entry ijunk junk fresh ss de odsc =
    Some (de1\<lparr>sub_mem := notified odsc a N ts (sub_mem de),
      dht_subs := (dht_subs de)[de_bin de odsc := filter (\<lambda>t. \<not> sub_done odsc N (sub_mem de) t) ts]\<rparr>)"
proof -
  note D = run_invD [OF inv] and sel = put_node_sel [OF run_invD(1) [OF inv], of fresh odsc, folded de1_def]
  have bin: "de_bin de1 = de_bin de" by (rule de_bin_cong) (simp add: sel)
  have b: "de_bin de odsc < odsc_size de" by (rule de_bin_less [OF D(1)])
  have ts: "distinct ts" using D(4) [OF b] by (simp add: ts_def)
  have "\<exists>sub. sub_mem de t = Some sub \<and> (sub_match odsc sub \<longrightarrow>
      ssh_hash_elem_count ijunk junk ss (bbox_intersect (od_bb odsc) (od_bb (ds_odsc sub)) junk) = Some (N t))"
    if t: "t \<in> set ts" for t
  proof -
    obtain w where w: "W t = Some w"
      using D(5) [of t] t b by (cases "W t") (auto simp: thread_ok_def ts_def)
    then obtain sub where sub: "sub_mem de t = Some sub" "box_ok d (od_bb (ds_odsc sub))"
      using D(5) [of t] by (auto simp: thread_ok_def waiter_ok_def)
    then show ?thesis using count_isect [OF odsc sub(2)] by (auto simp: N_def sub_match_def)
  qed
  from sub_loop_spec [of ts de1 odsc, unfolded bin sel, OF ts ts [unfolded ts_def] this]
  have "sub_loop ijunk junk ss odsc a ts de1 = Some (de1\<lparr>sub_mem := notified odsc a N ts (sub_mem de),
      dht_subs := (dht_subs de)[de_bin de odsc := filter (\<lambda>t. \<not> (t \<in> set ts \<and> sub_done odsc N (sub_mem de) t)) ts]\<rparr>)"
    by (simp add: ts_def)
  moreover have "filter (\<lambda>t. \<not> (t \<in> set ts \<and> sub_done odsc N (sub_mem de) t)) ts = filter (\<lambda>t. \<not> sub_done odsc N (sub_mem de) t) ts"
    by (rule filter_cong) simp_all
  moreover have "dht_put_node fresh de odsc = (a, de1)" by (simp add: a_def de1_def)
  ultimately show ?thesis
    using b by (simp add: dht_add_entry_def bin sel ts_def)
qed

lemma waiter_add:
  assumes inv: "run_inv own d L W de" and w: "W t = Some w"
    and odsc: "box_ok d (od_bb odsc)"
    and new: "\<forall>x\<in>set L. same_var odsc x \<longrightarrow> \<not> bbox_does_intersect (od_bb odsc) (od_bb x)"
    and de': "odsc_size de' = odsc_size de"
      "sub_mem de' = notified odsc a N (dht_subs de ! de_bin de odsc) (sub_mem de)"
      "dht_subs de' = (dht_subs de)[de_bin de odsc := filter (\<lambda>t. \<not> sub_done odsc N (sub_mem de) t) (dht_subs de ! de_bin de odsc)]"
    and N: "N \<equiv> \<lambda>t. (of_nat (card (points (od_bb odsc) \<inter> own \<inter> points (od_bb (ds_odsc (the (sub_mem de t)))))) :: u64)"
  shows "waiter_ok own d de' t (hear own (a, odsc) w)"
proof -
  note D = run_invD [OF inv]
  have b: "de_bin de odsc < odsc_size de" by (rule de_bin_less [OF D(1)])
  have len: "length (dht_subs de) = odsc_size de" using D(1) by (simp add: de_inv_def)
  have bin: "de_bin de' = de_bin de" by (rule de_bin_cong [OF de'(1)])
  have wok: "waiter_ok own d de t w" and log: "\<forall>p\<in>set (snd w). in_log L (snd p)"
    using D(5) [of t] w by (simp_all add: thread_ok_def)
  obtain sub where sub: "sub_mem de t = Some sub" "ds_odsc sub = fst w" "ds_remaining sub = of_nat (lacks own w)"
    "mset (ds_tab sub @ ds_recv sub) = matching (fst w) (snd w)" using wok by (auto simp: waiter_ok_def)
  have q: "box_ok d (od_bb (fst w))" using wok by (simp add: waiter_ok_def)
  have inl: "i < odsc_size de \<Longrightarrow> t \<in> set (dht_subs de ! i) \<longleftrightarrow> i = de_bin de (fst w) \<and> lacks own w \<noteq> 0" for i
    using wok by (simp add: waiter_ok_def)
  have Nt: "N t = of_nat (card (points (od_bb odsc) \<inter> own \<inter> points (od_bb (fst w))))" by (simp add: N sub)
  have bq: "obj_desc_equals_intersect odsc (fst w) \<Longrightarrow> de_bin de odsc = de_bin de (fst w)"
    by (simp add: obj_desc_equals_intersect_def de_bin_def)
  show ?thesis
  proof (cases "lacks own w = 0 \<or> \<not> obj_desc_equals_intersect odsc (fst w)")
    case True
    have same: "lacks own (hear own (a, odsc) w) = lacks own w"
      using lacks_hear [OF q log _ D(2) odsc new, where a = a] True by (cases "lacks own w = 0") (auto simp: hear_alt)
    have mt: "matching (fst w) (snd (hear own (a, odsc) w)) = matching (fst w) (snd w)"
      using True by (auto simp: hear_alt matching_def)
    have quiet: "\<not> (t \<in> set (dht_subs de ! de_bin de odsc) \<and> sub_match odsc sub)"
      using True inl [OF b] by (auto simp: sub_match_alt sub(2))
    then have "sub_mem de' t = Some sub" using sub(1) by (auto simp: de'(2) notified_def)
    moreover have "t \<in> set (dht_subs de' ! i) \<longleftrightarrow> t \<in> set (dht_subs de ! i)" if "i < odsc_size de" for i
      using quiet that b len sub(1) by (cases "i = de_bin de odsc") (auto simp: de'(3) sub_done_def)
    moreover have "fst (hear own (a, odsc) w) = fst w" by (simp add: hear_alt)
    ultimately show ?thesis
      using q sub(2-4) inl by (simp add: waiter_ok_def same mt de'(1) bin)
  next
    case False
    note g = lacks_hear [OF q log _ D(2) odsc new, where a = a]
    have h: "lacks own w = lacks own (hear own (a, odsc) w) + card (points (od_bb odsc) \<inter> own \<inter> points (od_bb (fst w)))"
      using g False by simp
    have t: "t \<in> set (dht_subs de ! de_bin de odsc)" using inl [OF b] bq False by simp
    have "sub_mem de' t = Some (sub_recv a (N t) sub)"
      using sub(1,2) t False by (simp add: de'(2) notified_def sub_match_alt)
    moreover have "ds_remaining (sub_recv a (N t) sub) = of_nat (lacks own (hear own (a, odsc) w))"
      by (simp add: sub_recv_def sub(3) Nt h)
    moreover have "mset (ds_tab sub @ ds_recv (sub_recv a (N t) sub)) = matching (fst w) (snd (hear own (a, odsc) w))"
      using sub(4) False by (simp add: sub_recv_def hear_alt matching_def)
    moreover have "ds_remaining sub = N t \<longleftrightarrow> lacks own (hear own (a, odsc) w) = 0"
    proof -
      have "lacks own (hear own (a, odsc) w) < 18446744073709551616"
        using lacks_bound [of d "hear own (a, odsc) w" own] q by (simp add: hear_alt)
      from of_nat_u64_eq_0 [OF this] show ?thesis by (simp add: sub(3) Nt h)
    qed
    then have "t \<in> set (dht_subs de' ! i) \<longleftrightarrow> i = de_bin de (fst w) \<and> lacks own (hear own (a, odsc) w) \<noteq> 0"
      if "i < odsc_size de" for i
      using that t b len sub(1,2) bq False inl [OF that]
      by (cases "i = de_bin de odsc") (auto simp: de'(3) sub_done_def sub_match_alt)
    ultimately show ?thesis
      using q sub(2) by (auto simp: waiter_ok_def de'(1) bin hear_alt sub_recv_def)
  qed
qed

lemma run_inv_add:
  assumes inv: "run_inv own d L W de" and fresh: "fresh \<notin> set (concat (odsc_hash de))"
    and odsc: "box_ok d (od_bb odsc)"
    and new: "\<forall>x\<in>set L. same_var odsc x \<longrightarrow> \<not> bbox_does_intersect (od_bb odsc) (od_bb x)"
  shows "\<exists>de'. dht_add_entry ijunk junk fresh ss de odsc = Some de' \<and>
    run_inv own d (odsc # L) (\<lambda>t. map_option (hear own (fst (dht_put_node fresh de odsc), odsc)) (W t)) de'"
proof -
  let ?a = "fst (dht_put_node fresh de odsc)" and ?de1 = "snd (dht_put_node fresh de odsc)"
  define N where "N = (\<lambda>t. (of_nat (card (points (od_bb odsc) \<inter> own \<inter> points (od_bb (ds_odsc (the (sub_mem de t)))))) :: u64))"
  define de' where "de' = ?de1\<lparr>sub_mem := notified odsc ?a N (dht_subs de ! de_bin de odsc) (sub_mem de),
      dht_subs := (dht_subs de)[de_bin de odsc := filter (\<lambda>t. \<not> sub_done odsc N (sub_mem de) t) (dht_subs de ! de_bin de odsc)]\<rparr>"
  note D = run_invD [OF inv] and sel = put_node_sel [OF run_invD(1) [OF inv], of fresh odsc]
  have add: "dht_add_entry ijunk junk fresh ss de odsc = Some de'"
    using run_add_loop [OF inv fresh odsc] by (simp add: de'_def N_def)
  have sel': "odsc_size de' = odsc_size de" "odsc_hash de' = odsc_hash ?de1" "odsc_mem de' = odsc_mem ?de1"
    "sub_mem de' = notified odsc ?a N (dht_subs de ! de_bin de odsc) (sub_mem de)"
    "dht_subs de' = (dht_subs de)[de_bin de odsc := filter (\<lambda>t. \<not> sub_done odsc N (sub_mem de) t) (dht_subs de ! de_bin de odsc)]"
    by (simp_all add: de'_def sel)
  have "de_inv de'"
    using de_inv_put_node [OF D(1) fresh, of odsc] by (simp add: de_inv_def de'_def sel de_bin_def)
  moreover have "table_imm (odsc # L) de'"
    using table_imm_put_node [OF D(1,3,2) odsc new, of fresh] by (simp add: table_imm_cong [OF sel'(2,3)])
  moreover have "distinct (dht_subs de' ! i)" if "i < odsc_size de'" for i
    using D(4) [of i] that D(1) by (cases "i = de_bin de odsc") (auto simp: sel' de_inv_def nth_list_update)
  moreover have "thread_ok own d (odsc # L) de' t (map_option (hear own (?a, odsc)) (W t))" for t
  proof (cases "W t")
    case None
    then have "t \<notin> set (dht_subs de ! i)" if "i < odsc_size de" for i using D(5) [of t] that by (simp add: thread_ok_def)
    then show ?thesis using None D(1)
      by (auto simp: thread_ok_def sel'(1,5) de_inv_def nth_list_update de_bin_def split: if_splits)
  next
    case (Some w)
    have "in_log (odsc # L) (snd p)" if "p \<in> set (snd (hear own (?a, odsc) w))" for p
      using that D(5) [of t] Some in_log_mono by (auto simp: hear_alt thread_ok_def in_log_def split: if_splits)
    then show ?thesis
      using waiter_add [OF inv Some odsc new sel'(1,4,5)] Some by (simp add: thread_ok_def N_def)
  qed
  ultimately have "run_inv own d (odsc # L) (\<lambda>t. map_option (hear own (?a, odsc)) (W t)) de'"
    using D(2) odsc by (simp add: run_inv_def)
  with add show ?thesis by blast
qed

end

lemma run_inv_alike:
  assumes inv: "run_inv own d L W de" and a: "alike de de'"
  shows "run_inv own d L W de'"
proof -
  have "thread_ok own d L de' t w = thread_ok own d L de t w" for t w
    by (cases w) (simp_all add: thread_ok_def waiter_ok_def alike_sel [OF a])
  then show ?thesis
    using inv alike_inv [OF a] alike_imm [OF a] by (simp add: run_inv_def alike_sel [OF a])
qed

lemma run_inv_update:
  "run_inv own d L W de \<Longrightarrow> thread_ok own d L de t w \<Longrightarrow> run_inv own d L (W(t := w)) de"
  by (simp add: run_inv_def)

context counted_space
begin

lemma run_inv_wait:
  assumes inv: "run_inv own d L W de" and q: "box_ok d (od_bb q)" "miss own de q \<noteq> 0" and t: "W t = None"
  shows "run_inv own d L (W(t \<mapsto> (q, stored de q))) (dht_local_subscribe t de q (hits de q) (of_nat (miss own de q)))"
proof -
  let ?de = "dht_local_subscribe t de q (hits de q) (of_nat (miss own de q))" and ?w = "(q, stored de q)"
  note D = run_invD [OF inv]
  have sel: "odsc_size ?de = odsc_size de" "odsc_hash ?de = odsc_hash de" "odsc_mem ?de = odsc_mem de" "odsc_num ?de = odsc_num de"
    "sub_mem ?de = (sub_mem de)(t \<mapsto> \<lparr>ds_odsc = q, ds_remaining = of_nat (miss own de q), ds_pub_count = 0, ds_recv = [], ds_tab = hits de q\<rparr>)"
    "dht_subs ?de = (dht_subs de)[de_bin de q := t # dht_subs de ! de_bin de q]"
    by (simp_all add: dht_local_subscribe_def Let_def)
  have bin: "de_bin ?de = de_bin de" by (rule de_bin_cong [OF sel(1)])
  have n: "de_bin de q < length (dht_subs de)" "length (dht_subs de) = odsc_size de"
    using de_bin_less [OF D(1)] D(1) by (simp_all add: de_inv_def)
  have nt: "t \<notin> set (dht_subs de ! i)" if "i < odsc_size de" for i
    using D(5) [of t] t that by (simp add: thread_ok_def)
  have lack: "lacks own ?w = miss own de q" by (simp add: lacks_def miss_def got_stored [OF D(1)])
  have "de_inv ?de" using D(1) by (simp add: de_inv_def sel bin)
  moreover have "table_imm L ?de" using D(3) by (simp add: table_imm_cong [OF sel(2,3)])
  moreover have "distinct (dht_subs ?de ! i)" if "i < odsc_size ?de" for i
    using D(4) [of i] nt [of i] that n by (cases "i = de_bin de q") (auto simp: sel)
  moreover have "thread_ok own d L ?de u ((W(t \<mapsto> ?w)) u)" for u
  proof (cases "u = t")
    case True
    have "in_log L (the (odsc_mem de a))" if a: "a \<in> set (odsc_hash de ! de_bin de q)" for a
    proof -
      obtain x where "odsc_mem de a = Some x" by (rule node_mem [OF D(1) a de_bin_less [OF D(1)]])
      then show ?thesis using D(3) bin_concat [OF D(1) a] by (auto simp: table_imm_def)
    qed
    then have "\<forall>p\<in>set (stored de q). in_log L (snd p)" by (auto simp: stored_def)
    moreover have "t \<in> set (dht_subs ?de ! i) \<longleftrightarrow> i = de_bin de q" if "i < odsc_size de" for i
      using nt [OF that] n by (cases "i = de_bin de q") (auto simp: sel(6))
    ultimately have "waiter_ok own d ?de t ?w \<and> (\<forall>p\<in>set (snd ?w). in_log L (snd p))"
      using q by (simp add: waiter_ok_def bin lack sel(1,5) matching_stored [OF D(1)])
    then show ?thesis using True by (simp add: thread_ok_def)
  next
    case False
    have "u \<in> set (dht_subs ?de ! i) \<longleftrightarrow> u \<in> set (dht_subs de ! i)" if "i < odsc_size de" for i
      using False n that by (cases "i = de_bin de q") (auto simp: sel(6))
    then show ?thesis using D(5) [of u] False
      by (cases "W u") (auto simp: thread_ok_def waiter_ok_def bin sel(1,5))
  qed
  ultimately show ?thesis using D(2) by (simp add: run_inv_def)
qed

lemma run_inv_run:
  "dht_run ijunk junk ss own d L W de \<Longrightarrow> run_inv own d L W de"
proof (induction rule: dht_run.induct)
  case (init sz)
  then show ?case by (auto simp: run_inv_def de_inv_def table_imm_def thread_ok_def dht_entry_alloc_def)
next
  case (add L W de fresh odsc de')
  then show ?case using run_inv_add [OF add.IH add.hyps(2-4)] by auto
next
  case (query L W de q t k timeout tab de')
  note D = run_invD [OF query.IH]
  show ?case
    using query.hyps(3) find_all [OF D(1) query.hyps(2) table_imm_tiled [OF D(1,3,2)], of t k timeout] query.IH
    by (auto split: if_splits)
next
  case (wait L W de q t k timeout de')
  note D = run_invD [OF wait.IH]
  show ?case
    using wait.hyps(4) find_all [OF D(1) wait.hyps(2) table_imm_tiled [OF D(1,3,2)], of t k timeout]
      run_inv_wait [OF wait.IH wait.hyps(2) _ wait.hyps(3)] by (auto simp: fun_upd_def split: if_splits)
next
  case (resume L W de t tab)
  have "thread_ok own d L de t None"
  proof (cases "W t")
    case None
    then show ?thesis using run_invD(5) [OF resume.IH, of t] by simp
  next
    case (Some w)
    then have w: "waiter_ok own d de t w" using run_invD(5) [OF resume.IH, of t] by (simp add: thread_ok_def)
    then have "\<not> 0 < lacks own w"
      using resume.hyps(2) sint_pos [OF lacks_bound [of d w own]]
      by (auto simp: waiter_ok_def dht_resume_def split: if_splits)
    then show ?thesis using w by (simp add: waiter_ok_def thread_ok_def)
  qed
  then show ?case by (rule run_inv_update [OF resume.IH])
next
  case (owner L W de odsc clear_flag ret de')
  then show ?case using alike_update_owner run_inv_alike by blast
qed

end

subsection \<open>What the table keeps\<close>

text \<open>The descriptors put, without those a later put of the same name and bin overlaps.\<close>

definition recycles :: "nat \<Rightarrow> obj_descriptor \<Rightarrow> obj_descriptor \<Rightarrow> bool" where
  "recycles n y x \<longleftrightarrow> unat (od_version y) mod n = unat (od_version x) mod n \<and> obj_desc_by_name_intersect y x"

fun kept :: "nat \<Rightarrow> obj_descriptor list \<Rightarrow> obj_descriptor list" where
  "kept n [] = []"
| "kept n (y # L) = y # filter (\<lambda>x. \<not> recycles n y x) (kept n L)"

definition keeps :: "obj_descriptor list \<Rightarrow> dht_entry \<Rightarrow> bool" where
  "keeps L de \<longleftrightarrow> (\<forall>x\<in>set (kept (odsc_size de) L). \<exists>a\<in>set (odsc_hash de ! de_bin de x). \<exists>y.
     odsc_mem de a = Some y \<and> key_of y = key_of x)"

lemma keeps_cong:
  "odsc_size de' = odsc_size de \<Longrightarrow> odsc_hash de' = odsc_hash de \<Longrightarrow> odsc_mem de' = odsc_mem de \<Longrightarrow>
    keeps L de' = keeps L de"
  by (simp add: keeps_def de_bin_def)

lemma keeps_alike:
  assumes a: "alike de de'" and k: "keeps L de"
  shows "keeps L de'"
  unfolding keeps_def alike_sel [OF a]
proof
  fix x assume "x \<in> set (kept (odsc_size de) L)"
  then obtain b y where b: "b \<in> set (odsc_hash de ! de_bin de x)" "odsc_mem de b = Some y" "key_of y = key_of x"
    using k unfolding keeps_def by blast
  have "map_option key_of (odsc_mem de' b) = map_option key_of (odsc_mem de b)" using a unfolding alike_def by blast
  with b(2,3) obtain z where "odsc_mem de' b = Some z" "key_of z = key_of x" by auto
  with b(1) show "\<exists>a\<in>set (odsc_hash de ! de_bin de x). \<exists>y. odsc_mem de' a = Some y \<and> key_of y = key_of x" by blast
qed

lemma keeps_put_node:
  assumes inv: "de_inv de" and fresh: "fresh \<notin> set (concat (odsc_hash de))" and k: "keeps L de"
  shows "keeps (odsc # L) (snd (dht_put_node fresh de odsc))"
proof -
  let ?de = "snd (dht_put_node fresh de odsc)" and ?n = "de_bin de odsc"
  note sel = put_node_sel [OF inv, of fresh odsc]
  have n: "?n < length (odsc_hash de)" "length (odsc_hash de) = odsc_size de"
    using de_bin_less [OF inv] inv by (simp_all add: de_inv_def)
  have bin: "de_bin ?de = de_bin de" by (rule de_bin_cong) (simp add: sel)
  have node: "\<exists>a\<in>set (odsc_hash ?de ! de_bin de x). \<exists>y. odsc_mem ?de a = Some y \<and> key_of y = key_of x"
    if x: "x = odsc \<or> x \<in> set (kept (odsc_size de) L) \<and> \<not> recycles (odsc_size de) odsc x" for x
  proof (cases "dht_find_match de odsc")
    case None
    then have h: "odsc_hash ?de = (odsc_hash de)[?n := fresh # odsc_hash de ! ?n]" "odsc_mem ?de = (odsc_mem de)(fresh \<mapsto> odsc)"
      by (simp_all add: dht_put_node_def Let_def)
    show ?thesis
    proof (cases "x = odsc")
      case True
      then show ?thesis using n by (auto simp: h)
    next
      case False
      then obtain b y where b: "b \<in> set (odsc_hash de ! de_bin de x)" "odsc_mem de b = Some y" "key_of y = key_of x"
        using k x unfolding keeps_def by blast
      have "b \<noteq> fresh" using bin_concat [OF inv b(1)] fresh by blast
      moreover have "b \<in> set (odsc_hash ?de ! de_bin de x)" using b(1) n by (cases "de_bin de x = ?n") (auto simp: h)
      ultimately show ?thesis using b(2,3) by (intro bexI [of _ b]) (auto simp: h)
    qed
  next
    case (Some a)
    then have h: "odsc_hash ?de = odsc_hash de" "odsc_mem ?de = (odsc_mem de)(a \<mapsto> odsc)"
      by (simp_all add: dht_put_node_def)
    note a = find_match_bin [OF Some]
    obtain z where z: "odsc_mem de a = Some z" "obj_desc_by_name_intersect odsc z"
      using Some by (auto simp: dht_find_match_def find_Some_iff node_sat_def split: if_splits option.splits)
    have zb: "de_bin de z = ?n"
    proof -
      obtain z' where "odsc_mem de a = Some z'" "de_bin de z' = ?n" by (rule node_mem [OF inv a de_bin_less [OF inv]])
      then show ?thesis using z(1) by simp
    qed
    show ?thesis
    proof (cases "x = odsc")
      case True
      then show ?thesis using a by (auto simp: h)
    next
      case False
      then obtain b y where b: "b \<in> set (odsc_hash de ! de_bin de x)" "odsc_mem de b = Some y" "key_of y = key_of x"
        using k x unfolding keeps_def by blast
      have "b \<noteq> a"
      proof
        assume "b = a"
        then have "key_of z = key_of x" using b z by simp
        then have "recycles (odsc_size de) odsc x"
          using zb z(2) by (auto simp: recycles_def key_of_def de_bin_def obj_desc_by_name_intersect_def)
        then show False using x False by blast
      qed
      then show ?thesis using b by (intro bexI [of _ b]) (auto simp: h)
    qed
  qed
  show ?thesis
    unfolding keeps_def bin sel(5)
  proof
    fix x assume "x \<in> set (kept (odsc_size de) (odsc # L))"
    then have "x = odsc \<or> x \<in> set (kept (odsc_size de) L) \<and> \<not> recycles (odsc_size de) odsc x" by auto
    then show "\<exists>a\<in>set (odsc_hash ?de ! de_bin de x). \<exists>y. odsc_mem ?de a = Some y \<and> key_of y = key_of x" by (rule node)
  qed
qed

lemma add_entry_frame:
  assumes "dht_add_entry ijunk junk fresh ss de odsc = Some de'"
  shows "odsc_size de' = odsc_size (snd (dht_put_node fresh de odsc)) \<and>
    odsc_hash de' = odsc_hash (snd (dht_put_node fresh de odsc)) \<and> odsc_mem de' = odsc_mem (snd (dht_put_node fresh de odsc))"
  using assms sub_loop_frame by (fastforce simp: dht_add_entry_def case_prod_beta split: if_splits)

lemma cov_kept:
  assumes inv: "de_inv de" and k: "keeps L de" and tab: "table_imm L de"
  shows "(\<Union>x\<in>{x \<in> set (kept (odsc_size de) L). same_var q x}. points (od_bb x)) \<subseteq> cov de q \<and>
    cov de q \<subseteq> (\<Union>x\<in>{x \<in> set L. same_var q x}. points (od_bb x))"
proof (intro conjI subsetI)
  fix p assume "p \<in> (\<Union>x\<in>{x \<in> set (kept (odsc_size de) L). same_var q x}. points (od_bb x))"
  then obtain x where x: "x \<in> set (kept (odsc_size de) L)" "same_var q x" "p \<in> points (od_bb x)" by blast
  then obtain a y where a: "a \<in> set (odsc_hash de ! de_bin de x)" "odsc_mem de a = Some y" "key_of y = key_of x"
    using k unfolding keeps_def by blast
  have "de_bin de x = de_bin de q" using x(2) by (simp add: same_var_def de_bin_def)
  then show "p \<in> cov de q" using a x(2,3) by (auto simp: cov_def piece_def key_of_def same_var_def intro!: bexI [of _ a])
next
  fix p assume "p \<in> cov de q"
  then obtain a where a: "a \<in> set (odsc_hash de ! de_bin de q)" "p \<in> piece de q a" by (auto simp: cov_def)
  then obtain y where y: "odsc_mem de a = Some y" "same_var q y" "p \<in> points (od_bb y)"
    by (auto simp: piece_def split: option.splits if_splits)
  have "in_log L y" using tab bin_concat [OF inv a(1)] y(1) unfolding table_imm_def by blast
  then obtain z where "z \<in> set L" "key_of z = key_of y" by (auto simp: in_log_def)
  then show "p \<in> (\<Union>x\<in>{x \<in> set L. same_var q x}. points (od_bb x))"
    using y(2,3) by (auto simp: key_of_def same_var_def intro!: bexI [of _ z])
qed

lemma find_entry_all_frame:
  assumes "dht_find_entry_all ijunk junk t ss k de q timeout = Some (ans, de')"
  shows "odsc_size de' = odsc_size de \<and> odsc_hash de' = odsc_hash de \<and> odsc_mem de' = odsc_mem de"
  using assms
  by (auto simp: dht_find_entry_all_def bind_eq_Some_conv dht_local_subscribe_def Let_def split: if_splits)


context counted_space
begin

lemma keeps_run:
  "dht_run ijunk junk ss own d L W de \<Longrightarrow> keeps L de"
proof (induction rule: dht_run.induct)
  case (init sz)
  then show ?case by (simp add: keeps_def)
next
  case (add L W de fresh odsc de')
  note inv = run_invD(1) [OF run_inv_run [OF add.hyps(1)]]
  show ?case
    using keeps_put_node [OF inv add.hyps(2) add.IH] add_entry_frame [OF add.hyps(5)] keeps_cong by metis
next
  case (query L W de q t k timeout tab de')
  then show ?case using find_entry_all_frame keeps_cong by metis
next
  case (wait L W de q t k timeout de')
  then show ?case using find_entry_all_frame keeps_cong by metis
next
  case (owner L W de odsc clear_flag ret de')
  then show ?case using alike_update_owner keeps_alike by blast
qed simp_all

end

section \<open>Properties\<close>

text \<open>
  C23: on a server of a version 2 space, in every state its DHT entry can reach by puts (those that overwrite a
  descriptor of an older version included), queries, waits and owner updates, a query returns exactly
  the stored descriptors of its name and version that intersect it, provided these cover the part of
  the query this server owns. Otherwise it starts to wait (on the server's own entry, with timeout -1),
  for exactly the number of missing elements, or returns nothing. What is covered is at least every
  put of the name and version that no later put of the name and bin overlapped, and nothing but
  puts of the name and version. Runs with two overlapping puts of one name and version are excluded:
  the code calls their behavior undefined.
\<close>

theorem dht_find_entry_all_covers:
  assumes "domain_ok bb" "0 < n" "n \<le> 2147483648" "Option.bind (ssd_alloc_v2 bb n mv) (\<lambda>s. ssd_init s r) = Some ss"
    and "wf_bbox junk" "dht_run ijunk junk ss (own_cells ss) (num_dims bb) L W de" "box_ok (num_dims bb) (od_bb q)"
  shows "dht_find_entry_all ijunk junk t ss k de q timeout =
    Some (if points (od_bb q) \<inter> own_cells ss \<subseteq> cov de q then (Found (hits de q), de)
          else if timeout = -1 \<and> k = ent_self ss
          then (Blocked, dht_local_subscribe t de q (hits de q) (of_nat (miss (own_cells ss) de q)))
          else (Found [], de)) \<and>
    (\<Union>x\<in>{x \<in> set (kept (odsc_size de) L). same_var q x}. points (od_bb x)) \<subseteq> cov de q \<and>
    cov de q \<subseteq> (\<Union>x\<in>{x \<in> set L. same_var q x}. points (od_bb x))"
proof -
  note c = alloc_init_counted [OF assms(1-5), of ijunk]
  note D = run_invD [OF counted_space.run_inv_run [OF c assms(6)]]
  show ?thesis
    using counted_space.find_all [OF c D(1) assms(7) table_imm_tiled [OF D(1,3,2)]]
      cov_kept [OF D(1) counted_space.keeps_run [OF c assms(6)] D(3)] by (simp add: miss_0_iff)
qed

definition ex_odsc :: "u32 \<Rightarrow> bbox \<Rightarrow> obj_descriptor" where
  "ex_odsc v bb = \<lparr>od_name = ''u'', od_st = row_major, od_flags = 0, od_tag = 0, od_type = 0, od_owner = ''n1'',
     od_version = v, od_bb = bb, od_size = 1\<rparr>"

definition ex_server :: sspace where
  "ex_server = the (Option.bind (ssd_alloc_v2 (mk_box [0] [3]) 1 1) (\<lambda>s. ssd_init s 0))"

abbreviation ex_ijunk :: intv where "ex_ijunk \<equiv> \<lparr>i_lb = 0, i_ub = 0\<rparr>"

lemma ex_server_alloc: "Option.bind (ssd_alloc_v2 (mk_box [0] [3]) 1 1) (\<lambda>s. ssd_init s 0) = Some ex_server"
proof -
  have "Option.bind (ssd_alloc_v2 (mk_box [0] [3]) 1 1) (\<lambda>s. ssd_init s 0) \<noteq> None" by code_simp
  then show ?thesis by (auto simp: ex_server_def)
qed

lemma ex_box_ok: "domain_ok (mk_box [0] [3])" "wf_bbox (mk_box [] [])" "num_dims (mk_box [0] [3]) = 1"
  "box_ok 1 (mk_box [0] [3])" "box_ok 1 (mk_box [0] [1])"
proof -
  show "domain_ok (mk_box [0] [3])" "wf_bbox (mk_box [] [])" "num_dims (mk_box [0] [3]) = 1"
    unfolding domain_ok_def by (simp_all add: mk_box_simps wf_mk_box mk_box_sel)
  have "vol (mk_box [0] [3]) = 4" "vol (mk_box [0] [1]) = 2" by (simp_all add: vol_def mk_box_sel)
  then show "box_ok 1 (mk_box [0] [3])" "box_ok 1 (mk_box [0] [1])"
    by (simp_all add: box_ok_def mk_box_simps wf_mk_box)
qed

definition ex_add :: "nat \<Rightarrow> obj_descriptor \<Rightarrow> dht_entry \<Rightarrow> dht_entry" where
  "ex_add fresh odsc de = the (dht_add_entry ex_ijunk (mk_box [] []) fresh ex_server de odsc)"

abbreviation ex_run :: "obj_descriptor list \<Rightarrow> (nat \<rightharpoonup> waiter) \<Rightarrow> dht_entry \<Rightarrow> bool" where
  "ex_run \<equiv> dht_run ex_ijunk (mk_box [] []) ex_server (own_cells ex_server) (num_dims (mk_box [0] [3]))"

lemma ex_odsc_sel [simp]: "od_bb (ex_odsc v b) = b" "od_version (ex_odsc v b) = v" "od_name (ex_odsc v b) = ''u''"
  by (simp_all add: ex_odsc_def)

lemma ex_run_add:
  assumes "ex_run L W de" "fresh \<notin> set (concat (odsc_hash de))" "box_ok 1 (od_bb odsc)"
    "\<forall>x\<in>set L. same_var odsc x \<longrightarrow> \<not> bbox_does_intersect (od_bb odsc) (od_bb x)"
    "dht_add_entry ex_ijunk (mk_box [] []) fresh ex_server de odsc \<noteq> None"
  shows "ex_run (odsc # L) (\<lambda>t. map_option (hear (own_cells ex_server) (fst (dht_put_node fresh de odsc), odsc)) (W t))
    (ex_add fresh odsc de)"
  using assms ex_box_ok(3) by (intro dht_run.add [OF assms(1,2)]) (auto simp: ex_add_def)

text \<open>The descriptor of version 0 is overwritten by one of version 2, which the query for version 2 finds.\<close>

definition ex_recycled :: dht_entry where
  "ex_recycled = ex_add 20 (ex_odsc 2 (mk_box [0] [3])) (ex_add 10 (ex_odsc 0 (mk_box [0] [1])) (dht_entry_alloc 2))"

lemma ex_recycled_run:
  "ex_run [ex_odsc 2 (mk_box [0] [3]), ex_odsc 0 (mk_box [0] [1])] Map.empty ex_recycled"
proof -
  let ?a = "ex_odsc 0 (mk_box [0] [1])" and ?b = "ex_odsc 2 (mk_box [0] [3])"
  have i: "ex_run [] Map.empty (dht_entry_alloc 2)" by (rule dht_run.init) simp
  have c: "concat (odsc_hash (dht_entry_alloc 2)) = []" "dht_add_entry ex_ijunk (mk_box [] []) 10 ex_server (dht_entry_alloc 2) ?a \<noteq> None"
    "concat (odsc_hash (ex_add 10 ?a (dht_entry_alloc 2))) = [10]"
    "dht_add_entry ex_ijunk (mk_box [] []) 20 ex_server (ex_add 10 ?a (dht_entry_alloc 2)) ?b \<noteq> None" by code_simp+
  have r: "ex_run [?a] (\<lambda>t. None) (ex_add 10 ?a (dht_entry_alloc 2))"
    using ex_run_add [OF i, of 10 ?a] c(1,2) ex_box_ok by simp
  show ?thesis
    using ex_run_add [OF r, of 20 ?b] c(3,4) ex_box_ok by (simp add: ex_recycled_def same_var_def)
qed

theorem dht_find_entry_all_covers_witness:
  "\<exists>r. dht_find_entry_all ex_ijunk (mk_box [] []) 5 ex_server 0 ex_recycled (ex_odsc 2 (mk_box [0] [3])) 0 = Some r \<and>
     r = (Found (hits ex_recycled (ex_odsc 2 (mk_box [0] [3]))), ex_recycled) \<and>
     hits ex_recycled (ex_odsc 2 (mk_box [0] [3])) = [10] \<and>
     points (mk_box [0] [3]) \<subseteq> cov ex_recycled (ex_odsc 2 (mk_box [0] [3]))"
proof -
  let ?q = "ex_odsc 2 (mk_box [0] [3])"
  have h: "odsc_hash ex_recycled = [[10], []]" "odsc_size ex_recycled = 2" "odsc_mem ex_recycled 10 = Some ?q"
    "hits ex_recycled ?q = [10]" by code_simp+
  have "cov ex_recycled ?q = points (mk_box [0] [3])"
    by (simp add: cov_def de_bin_def h piece_def same_var_def)
  moreover have "{x \<in> set (kept 2 [?q, ex_odsc 0 (mk_box [0] [1])]). same_var ?q x} = {?q}"
    by (auto simp: same_var_def)
  ultimately show ?thesis
    using dht_find_entry_all_covers [OF ex_box_ok(1) _ _ ex_server_alloc ex_box_ok(2) ex_recycled_run, of ?q 5 0 0]
      ex_box_ok(3,4) h(2,4) by simp
qed

text \<open>
  C24: no wake-up is lost on a version 2 space. In every state a DHT entry can reach by puts (those
  that overwrite a descriptor of an older version included), queries, waits and owner updates,
  let \<open>ds\<close> be the nodes and descriptors a thread could count for its query \<open>q\<close>: those in the bin when it
  began to wait and those written since. As long as they do not cover what this server owns of the
  query, the thread is in the waiting list of the bin; as soon as they do it is in no list and goes
  on, and it returns exactly the nodes that were given a descriptor of its name and version that
  intersects it. Every further put is carried out and leads to such a state again.
\<close>

theorem dht_no_lost_wakeup:
  assumes "domain_ok bb" "0 < n" "n \<le> 2147483648" "Option.bind (ssd_alloc_v2 bb n mv) (\<lambda>s. ssd_init s r) = Some ss"
    and "wf_bbox junk" "dht_run ijunk junk ss (own_cells ss) (num_dims bb) L W de" "W t = Some (q, ds)"
    and "fresh \<notin> set (concat (odsc_hash de))" "box_ok (num_dims bb) (od_bb odsc)"
      "\<forall>x\<in>set L. same_var odsc x \<longrightarrow> \<not> bbox_does_intersect (od_bb odsc) (od_bb x)"
  shows "(if points (od_bb q) \<inter> own_cells ss \<subseteq> got q ds
     then (\<forall>i<odsc_size de. t \<notin> set (dht_subs de ! i)) \<and>
       (\<exists>tab. dht_resume t de = Found tab \<and> mset tab = matching q ds)
     else dht_resume t de = Blocked \<and> t \<in> set (dht_subs de ! de_bin de q)) \<and>
    (\<exists>de'. dht_add_entry ijunk junk fresh ss de odsc = Some de' \<and>
       dht_run ijunk junk ss (own_cells ss) (num_dims bb) (odsc # L)
         (\<lambda>t. map_option (hear (own_cells ss) (fst (dht_put_node fresh de odsc), odsc)) (W t)) de')"
proof
  note c = alloc_init_counted [OF assms(1-5), of ijunk]
  note inv = counted_space.run_inv_run [OF c assms(6)]
  note D = run_invD [OF inv]
  obtain de' where "dht_add_entry ijunk junk fresh ss de odsc = Some de'"
    using counted_space.run_inv_add [OF c inv assms(8-10)] by blast
  then show "\<exists>de'. dht_add_entry ijunk junk fresh ss de odsc = Some de' \<and>
       dht_run ijunk junk ss (own_cells ss) (num_dims bb) (odsc # L)
         (\<lambda>t. map_option (hear (own_cells ss) (fst (dht_put_node fresh de odsc), odsc)) (W t)) de'"
    using dht_run.add [OF assms(6,8-10)] by blast
  have w: "waiter_ok (own_cells ss) (num_dims bb) de t (q, ds)" using D(5) [of t] assms(7) by (simp add: thread_ok_def)
  then obtain sub where sub: "sub_mem de t = Some sub" "ds_remaining sub = of_nat (lacks (own_cells ss) (q, ds))"
    "mset (ds_tab sub @ ds_recv sub) = matching q ds" by (auto simp: waiter_ok_def)
  have "lacks (own_cells ss) (q, ds) < 9223372036854775808" using w lacks_bound [of "num_dims bb" "(q, ds)"] by (simp add: waiter_ok_def)
  then have "dht_resume t de = (if lacks (own_cells ss) (q, ds) = 0 then Found (ds_tab sub @ ds_recv sub) else Blocked)"
    using counted_space.sint_pos [OF c] by (simp add: dht_resume_def sub(1,2))
  then show "if points (od_bb q) \<inter> own_cells ss \<subseteq> got q ds
     then (\<forall>i<odsc_size de. t \<notin> set (dht_subs de ! i)) \<and>
       (\<exists>tab. dht_resume t de = Found tab \<and> mset tab = matching q ds)
     else dht_resume t de = Blocked \<and> t \<in> set (dht_subs de ! de_bin de q)"
    using w sub(3) de_bin_less [OF D(1), of q] lacks_0 [of "own_cells ss" "(q, ds)"]
    by (auto simp: waiter_ok_def)
qed

text \<open>
  A thread waits for version 0, of which the lower half is stored; a put of version 2 then overwrites
  that half, and a put of the upper half of version 0 completes the query.
\<close>

definition ex_half :: dht_entry where
  "ex_half = ex_add 10 (ex_odsc 0 (mk_box [0] [1])) (dht_entry_alloc 2)"

definition ex_waiting :: dht_entry where
  "ex_waiting = snd (the (dht_find_entry_all ex_ijunk (mk_box [] []) 5 ex_server 0 ex_half (ex_odsc 0 (mk_box [0] [3])) (-1)))"

definition ex_woken :: dht_entry where
  "ex_woken = ex_add 30 (ex_odsc 0 (mk_box [2] [3])) (ex_add 20 (ex_odsc 2 (mk_box [0] [1])) ex_waiting)"

lemma ex_waiting_query:
  "dht_find_entry_all ex_ijunk (mk_box [] []) 5 ex_server 0 ex_half (ex_odsc 0 (mk_box [0] [3])) (-1) = Some (Blocked, ex_waiting)"
proof -
  have "map_option fst (dht_find_entry_all ex_ijunk (mk_box [] []) 5 ex_server 0 ex_half (ex_odsc 0 (mk_box [0] [3])) (-1)) = Some Blocked"
    by code_simp
  then show ?thesis by (auto simp: ex_waiting_def)
qed

lemma ex_boxes: "box_ok 1 (mk_box [2] [3])" "bbox_does_intersect (mk_box [2] [3]) (mk_box [0] [1]) = False"
proof -
  have "vol (mk_box [2] [3]) = 2" by (simp add: vol_def mk_box_sel)
  then show "box_ok 1 (mk_box [2] [3])" by (simp add: box_ok_def mk_box_simps wf_mk_box)
  show "bbox_does_intersect (mk_box [2] [3]) (mk_box [0] [1]) = False" by code_simp
qed

lemma ex_woken_run:
  obtains W ds where "ex_run [ex_odsc 0 (mk_box [2] [3]), ex_odsc 2 (mk_box [0] [1]), ex_odsc 0 (mk_box [0] [1])] W ex_woken"
    "W 5 = Some (ex_odsc 0 (mk_box [0] [3]), ds)"
proof -
  let ?a = "ex_odsc 0 (mk_box [0] [1])" and ?b = "ex_odsc 2 (mk_box [0] [1])" and ?c = "ex_odsc 0 (mk_box [2] [3])"
    and ?q = "ex_odsc 0 (mk_box [0] [3])"
  let ?de1 = "ex_add 20 ?b ex_waiting"
  have vals: "concat (odsc_hash (dht_entry_alloc 2)) = []" "dht_add_entry ex_ijunk (mk_box [] []) 10 ex_server (dht_entry_alloc 2) ?a \<noteq> None"
    "concat (odsc_hash ex_waiting) = [10]" "dht_add_entry ex_ijunk (mk_box [] []) 20 ex_server ex_waiting ?b \<noteq> None"
    "concat (odsc_hash ?de1) = [10]" "dht_add_entry ex_ijunk (mk_box [] []) 30 ex_server ?de1 ?c \<noteq> None" by code_simp+
  note ok = ex_box_ok(4,5) ex_boxes(1)
  have "ex_run [?a] (\<lambda>t. None) ex_half"
    using ex_run_add [OF dht_run.init, of 2 10 ?a] vals(1,2) ok by (simp add: ex_half_def)
  then have "ex_run [?a] (Map.empty(5 \<mapsto> (?q, stored ex_half ?q))) ex_waiting"
    using ok ex_box_ok(3) by (intro dht_run.wait [OF _ _ _ ex_waiting_query]) simp_all
  then obtain W1 ds where "ex_run [?b, ?a] W1 ?de1" "W1 5 = Some (?q, ds)"
    using ex_run_add [of "[?a]" "Map.empty(5 \<mapsto> (?q, stored ex_half ?q))" ex_waiting 20 ?b] vals(3,4) ok
    by (fastforce simp: same_var_def hear_alt)
  then show thesis
    using that ex_run_add [of "[?b, ?a]" W1 ?de1 30 ?c] vals(5,6) ok ex_boxes(2)
    by (fastforce simp: same_var_def hear_alt ex_woken_def)
qed

theorem dht_no_lost_wakeup_witness:
  "dht_resume 5 ex_waiting = Blocked \<and> dht_resume 5 ex_woken = Found [10, 30] \<and>
   (\<exists>ds. matching (ex_odsc 0 (mk_box [0] [3])) ds = {#10, 30#} \<and> 5 \<notin> set (dht_subs ex_woken ! 0))"
proof -
  have v: "dht_resume 5 ex_waiting = Blocked" "dht_resume 5 ex_woken = Found [10, 30]" "concat (odsc_hash ex_woken) = [30, 10]"
    "odsc_size ex_woken = 2" by code_simp+
  obtain W ds where r: "ex_run [ex_odsc 0 (mk_box [2] [3]), ex_odsc 2 (mk_box [0] [1]), ex_odsc 0 (mk_box [0] [1])] W ex_woken"
    "W 5 = Some (ex_odsc 0 (mk_box [0] [3]), ds)" by (rule ex_woken_run)
  have "matching (ex_odsc 0 (mk_box [0] [3])) ds = {#10, 30#} \<and> 5 \<notin> set (dht_subs ex_woken ! 0)"
    using dht_no_lost_wakeup [OF ex_box_ok(1) _ _ ex_server_alloc ex_box_ok(2) r, of 40 "ex_odsc 1 (mk_box [0] [3])"]
      v ex_box_ok(3,4) by (auto simp: same_var_def split: if_splits)
  with v show ?thesis by blast
qed

section \<open>An overwritten descriptor\<close>

definition overwritten_run :: "(u32 list \<times> nat list) option" where
  "overwritten_run =
     (let add = dht_add_entry ex_ijunk (mk_box [] []) in
      Option.bind (add 10 ex_server (dht_entry_alloc 2) (ex_odsc 0 (mk_box [0] [1]))) (\<lambda>de.
      Option.bind (dht_find_entry_all ex_ijunk (mk_box [] []) 5 ex_server 0 de (ex_odsc 0 (mk_box [0] [3])) (-1)) (\<lambda>(_, de).
      Option.bind (add 20 ex_server de (ex_odsc 2 (mk_box [0] [1]))) (\<lambda>de.
      Option.bind (add 30 ex_server de (ex_odsc 0 (mk_box [2] [3]))) (\<lambda>de.
        case dht_resume 5 de of
          Blocked \<Rightarrow> None
        | Found tab \<Rightarrow> Some (map (\<lambda>a. case odsc_mem de a of None \<Rightarrow> 0 | Some x \<Rightarrow> od_version x) tab, tab))))))"

text \<open>
  A put of another version that shares the bin replaces the first overlapping descriptor of that
  name, also one a waiting thread has been given: the thread is woken and returns a descriptor of a
  version it did not ask for.
\<close>

theorem dht_overwrite_reaches_waiter:
  "overwritten_run = Some ([2, 0], [10, 30])"
  by code_simp

end
