(* ===== verification/PutReq.thy ===== *)
theory PutReq
  imports ClientIO
begin

text \<open>
  Non-blocking puts: the linked list of \<^verbatim>\<open>struct dspaces_put_req\<close> a client keeps in \<^verbatim>\<open>put_reqs\<close> and
  \<^verbatim>\<open>put_reqs_end\<close>, with \<^verbatim>\<open>dspaces_iput\<close>, \<^verbatim>\<open>dspaces_check_put\<close> and the loop of \<^verbatim>\<open>dspaces_fini\<close> that waits for
  the rest. Requests live in a memory of addresses; reading or writing one that was freed has
  no result. The loops walk the list by the address of the pointer to the next request, as the code
  does. \<open>tst\<close> is the flag \<^verbatim>\<open>margo_test\<close> sets for a request, \<open>outp\<close> the return code in its response, or
  none when \<^verbatim>\<open>margo_get_output\<close> fails.
\<close>

section \<open>Data\<close>

record put_req =
  pr_next :: "nat option"
  pr_finalized :: bool
  pr_buffer :: "byte list option"
  pr_ret :: int

record put_list =
  pr_mem :: "nat \<rightharpoonup> put_req"
  put_reqs :: "nat option"
  put_reqs_end :: "nat option"

text \<open>A pointer to a pointer: the head of the list, or the \<^verbatim>\<open>next\<close> field of a request.\<close>

datatype req_ptr = Head | Next nat

primrec deref :: "put_list \<Rightarrow> req_ptr \<Rightarrow> nat option option" where
  "deref s Head = Some (put_reqs s)"
| "deref s (Next a) = map_option pr_next (pr_mem s a)"

primrec assign :: "put_list \<Rightarrow> req_ptr \<Rightarrow> nat option \<Rightarrow> put_list option" where
  "assign s Head v = Some (s\<lparr>put_reqs := v\<rparr>)"
| "assign s (Next a) v = map_option (\<lambda>r. s\<lparr>pr_mem := (pr_mem s)(a \<mapsto> r\<lparr>pr_next := v\<rparr>)\<rparr>) (pr_mem s a)"

section \<open>Operations\<close>

definition finalize_req :: "(nat \<Rightarrow> int option) \<Rightarrow> put_list \<Rightarrow> nat \<Rightarrow> (int \<times> put_list) option" where
  "finalize_req outp s a =
     Option.bind (pr_mem s a) (\<lambda>r.
       case outp a of
         None \<Rightarrow> Some (dspaces_ERR_MERCURY, s)
       | Some ret \<Rightarrow> Some (ret, s\<lparr>pr_mem := (pr_mem s)(a \<mapsto> r\<lparr>pr_buffer := None, pr_finalized := True, pr_ret := ret\<rparr>)\<rparr>))"

text \<open>The loop of \<^verbatim>\<open>dspaces_iput\<close> that checks for completed puts.\<close>

definition check_one :: "(nat \<Rightarrow> bool) \<Rightarrow> (nat \<Rightarrow> int option) \<Rightarrow> req_ptr \<Rightarrow> nat option \<Rightarrow> nat \<Rightarrow> put_list \<Rightarrow> put_list option" where
  "check_one tst outp ds_req_p ds_req_prev a s =
     Option.bind (pr_mem s a) (\<lambda>r.
       if \<not> pr_finalized r \<and> tst a
       then Option.bind (finalize_req outp s a) (\<lambda>(ret, s).
              let s = if pr_next r = None then s\<lparr>put_reqs_end := ds_req_prev\<rparr> else s
              in assign s ds_req_p (pr_next r))
       else Some s)"

partial_function (option) check_loop ::
  "(nat \<Rightarrow> bool) \<Rightarrow> (nat \<Rightarrow> int option) \<Rightarrow> req_ptr \<Rightarrow> nat option \<Rightarrow> put_list \<Rightarrow> put_list option" where
  "check_loop tst outp ds_req_p ds_req_prev s =
     Option.bind (deref s ds_req_p) (\<lambda>p.
       case p of
         None \<Rightarrow> Some s
       | Some a \<Rightarrow> Option.bind (check_one tst outp ds_req_p ds_req_prev a s) (\<lambda>s.
           check_loop tst outp (Next a) (Some a) s))"

text \<open>The new request is linked behind \<^verbatim>\<open>put_reqs_end\<close>.\<close>

definition link_req :: "put_list \<Rightarrow> nat \<Rightarrow> put_req \<Rightarrow> put_list option" where
  "link_req s a r =
     (let s = s\<lparr>pr_mem := (pr_mem s)(a \<mapsto> r\<lparr>pr_next := None\<rparr>)\<rparr>
      in case put_reqs_end s of
           Some e \<Rightarrow> map_option (\<lambda>s. s\<lparr>put_reqs_end := Some a\<rparr>) (assign s (Next e) (Some a))
         | None \<Rightarrow> Some (s\<lparr>put_reqs := Some a, put_reqs_end := Some a\<rparr>))"

text \<open>
  \<open>a\<close> is the address \<^verbatim>\<open>calloc\<close> gives. The request is sent by \<^verbatim>\<open>margo_iforward\<close>; its response is not
  awaited. With \<open>alloc\<close> the data are copied, otherwise \<open>free\<close> says whether the caller's buffer is to be freed.
\<close>

definition dspaces_iput :: "(bulk_gdim_t, bulk_out_t, 'w) margo \<Rightarrow> (nat \<Rightarrow> bool) \<Rightarrow> (nat \<Rightarrow> int option) \<Rightarrow> nat \<Rightarrow>
    dspaces_client \<Rightarrow> put_list \<Rightarrow> string \<Rightarrow> u32 \<Rightarrow> int \<Rightarrow> int \<Rightarrow> u64 list \<Rightarrow> u64 list \<Rightarrow> byte list \<Rightarrow>
    bool \<Rightarrow> bool \<Rightarrow> bool \<Rightarrow> 'w \<Rightarrow> (nat option \<times> put_list \<times> 'w) option" where
  "dspaces_iput m tst outp a c s var_name ver elem_size ndim l u d alloc check free w =
     Option.bind (if check then check_loop tst outp Head None s else Some s) (\<lambda>s.
     Option.bind (put_odsc c var_name ver elem_size 0 0 0 ndim l u) (\<lambda>odsc.
     Option.bind (put_request c odsc elem_size d) (\<lambda>inp.
     let r = \<lparr>pr_next = None, pr_finalized = False,
              pr_buffer = (if alloc then Some (bg_data inp) else if free then Some d else None), pr_ret = 0\<rparr>
     in if m_bulk_create m w \<noteq> HG_SUCCESS then Some (None, s, w)
        else Option.bind (get_server_address c) (\<lambda>addr.
          if m_create m addr w \<noteq> HG_SUCCESS then Some (None, s, w)
          else let (hret, w) = m_forward m addr inp w
               in if hret \<noteq> HG_SUCCESS then Some (None, s, w)
                  else map_option (\<lambda>s. (Some a, s, w)) (link_req s a r)))))"

text \<open>The search of \<^verbatim>\<open>dspaces_check_put\<close>: where the request, or the end of the list, is pointed to from.\<close>

partial_function (option) find_req :: "put_list \<Rightarrow> nat \<Rightarrow> req_ptr \<Rightarrow> nat option \<Rightarrow> (req_ptr \<times> nat option) option" where
  "find_req s req ds_req_p ds_req_prev =
     Option.bind (deref s ds_req_p) (\<lambda>p.
       case p of
         None \<Rightarrow> Some (ds_req_p, ds_req_prev)
       | Some a \<Rightarrow> if a = req then Some (ds_req_p, ds_req_prev) else find_req s req (Next a) (Some a))"

definition free_req :: "put_list \<Rightarrow> nat \<Rightarrow> put_list" where
  "free_req s a = s\<lparr>pr_mem := (pr_mem s)(a := None)\<rparr>"

definition retire_req :: "(nat \<Rightarrow> int option) \<Rightarrow> put_list \<Rightarrow> nat \<Rightarrow> (int \<times> put_list) option" where
  "retire_req outp s req =
     Option.bind (find_req s req Head None) (\<lambda>(ds_req_p, ds_req_prev).
     Option.bind (finalize_req outp s req) (\<lambda>(ret, s).
     Option.bind (pr_mem s req) (\<lambda>r.
     let s = if pr_next r = None then s\<lparr>put_reqs_end := ds_req_prev\<rparr> else s
     in map_option (\<lambda>s. (ret, free_req s req)) (assign s ds_req_p (pr_next r)))))"

text \<open>\<open>hret\<close> is the result of \<^verbatim>\<open>margo_wait\<close>.\<close>

definition dspaces_check_put :: "(nat \<Rightarrow> bool) \<Rightarrow> (nat \<Rightarrow> int option) \<Rightarrow> int \<Rightarrow> put_list \<Rightarrow> nat \<Rightarrow> bool \<Rightarrow> (int \<times> put_list) option" where
  "dspaces_check_put tst outp hret s req wait =
     Option.bind (pr_mem s req) (\<lambda>r.
       if pr_finalized r then Some (pr_ret r, free_req s req)
       else if wait then if hret = HG_SUCCESS then retire_req outp s req else Some (hret, s)
       else if tst req then map_option (\<lambda>(ret, s). (1, s)) (retire_req outp s req)
       else Some (0, s))"

text \<open>The loop of \<^verbatim>\<open>dspaces_fini\<close> on the pending puts; every wait succeeds.\<close>

partial_function (option) fini_puts :: "(nat \<Rightarrow> int option) \<Rightarrow> put_list \<Rightarrow> put_list option" where
  "fini_puts outp s =
     (case put_reqs s of
        None \<Rightarrow> Some s
      | Some a \<Rightarrow> Option.bind (dspaces_check_put (\<lambda>_. False) outp HG_SUCCESS s a True) (\<lambda>(ret, s). fini_puts outp s))"

declare check_loop.simps [code] find_req.simps [code] fini_puts.simps [code]

section \<open>The list a client keeps\<close>

text \<open>\<open>seg m p xs q\<close>: from the pointer \<open>p\<close> the unfinished requests \<open>xs\<close> are linked, and the last of them points to \<open>q\<close>.\<close>

primrec seg :: "(nat \<rightharpoonup> put_req) \<Rightarrow> nat option \<Rightarrow> nat list \<Rightarrow> nat option \<Rightarrow> bool" where
  "seg m p [] q \<longleftrightarrow> p = q"
| "seg m p (a # xs) q \<longleftrightarrow> p = Some a \<and> (\<exists>r. m a = Some r \<and> \<not> pr_finalized r \<and> seg m (pr_next r) xs q)"

definition last_opt :: "'a list \<Rightarrow> 'a option" where
  "last_opt xs = (if xs = [] then None else Some (last xs))"

definition hd_opt :: "'a list \<Rightarrow> 'a option" where
  "hd_opt xs = (if xs = [] then None else Some (hd xs))"

definition list_ok :: "put_list \<Rightarrow> nat list \<Rightarrow> bool" where
  "list_ok s xs \<longleftrightarrow> distinct xs \<and> seg (pr_mem s) (put_reqs s) xs None \<and> put_reqs_end s = last_opt xs"

definition ptr_of :: "nat list \<Rightarrow> req_ptr" where
  "ptr_of ks = (if ks = [] then Head else Next (last ks))"

lemma opt_simps [simp]:
  "last_opt [] = None" "last_opt (xs @ [x]) = Some x" "hd_opt [] = None" "hd_opt (x # xs) = Some x"
  "ptr_of [] = Head" "ptr_of (xs @ [x]) = Next x" "last_opt [x] = Some x"
  by (simp_all add: last_opt_def hd_opt_def ptr_of_def)

lemma last_opt_append: "last_opt (xs @ ys) = (if ys = [] then last_opt xs else last_opt ys)"
  by (simp add: last_opt_def)

lemma seg_append: "seg m p (xs @ ys) q \<longleftrightarrow> (\<exists>z. seg m p xs z \<and> seg m z ys q)"
  by (induction xs arbitrary: p) auto

lemma seg_hd: "seg m p xs None \<Longrightarrow> p = hd_opt xs"
  by (cases xs) auto

lemma seg_cong: "(\<And>a. a \<in> set xs \<Longrightarrow> m a = m' a) \<Longrightarrow> seg m p xs q = seg m' p xs q"
  by (induction xs arbitrary: p) auto

lemma seg_upd: "a \<notin> set xs \<Longrightarrow> seg (m(a := v)) p xs q = seg m p xs q"
  by (induction xs arbitrary: p) auto

lemma seg_mem: "seg m p xs q \<Longrightarrow> a \<in> set xs \<Longrightarrow> \<exists>r. m a = Some r \<and> \<not> pr_finalized r"
  by (induction xs arbitrary: p) auto

lemma seg_set_next:
  assumes "seg m p ks z" "distinct ks" "ks \<noteq> []" "m (last ks) = Some r"
  shows "seg (m(last ks \<mapsto> r\<lparr>pr_next := v\<rparr>)) p ks v" "pr_next r = z"
proof -
  obtain ks' k where ks: "ks = ks' @ [k]" using assms(3) by (metis rev_exhaust)
  with assms obtain y where "seg m p ks' y" "y = Some k" "\<not> pr_finalized r" "pr_next r = z" "k \<notin> set ks'"
    by (auto simp: seg_append)
  moreover from this have "seg (m(k \<mapsto> r\<lparr>pr_next := v\<rparr>)) p ks' y"
    by (subst seg_cong [of _ _ m]) auto
  ultimately show "seg (m(last ks \<mapsto> r\<lparr>pr_next := v\<rparr>)) p ks v" "pr_next r = z"
    by (auto simp: ks seg_append)
qed

lemma assign_ptr_of:
  assumes "seg (pr_mem s) (put_reqs s) ks z" "distinct ks"
  shows "deref s (ptr_of ks) = Some z"
    and "\<exists>s'. assign s (ptr_of ks) v = Some s' \<and> seg (pr_mem s') (put_reqs s') ks v \<and>
      put_reqs_end s' = put_reqs_end s \<and> (\<forall>a. a \<notin> set ks \<longrightarrow> pr_mem s' a = pr_mem s a)"
proof -
  have "deref s (ptr_of ks) = Some z \<and> (\<exists>s'. assign s (ptr_of ks) v = Some s' \<and> seg (pr_mem s') (put_reqs s') ks v \<and>
      put_reqs_end s' = put_reqs_end s \<and> (\<forall>a. a \<notin> set ks \<longrightarrow> pr_mem s' a = pr_mem s a))"
  proof (cases "ks = []")
    case False
    then obtain r where r: "pr_mem s (last ks) = Some r" using seg_mem [OF assms(1), of "last ks"] by auto
    show ?thesis using seg_set_next [OF assms False r] False r by (auto simp: ptr_of_def)
  qed (use assms in simp)
  then show "deref s (ptr_of ks) = Some z"
    "\<exists>s'. assign s (ptr_of ks) v = Some s' \<and> seg (pr_mem s') (put_reqs s') ks v \<and>
      put_reqs_end s' = put_reqs_end s \<and> (\<forall>a. a \<notin> set ks \<longrightarrow> pr_mem s' a = pr_mem s a)" by blast+
qed

text \<open>Removing a request from the middle of the list, as both callers do.\<close>

lemma unlink_ok:
  assumes "list_ok s (ks @ y # ys)" "pr_mem s y = Some r" "s1 = s\<lparr>pr_mem := (pr_mem s)(y \<mapsto> r')\<rparr>"
  shows "pr_next r = hd_opt ys"
    and "\<exists>s'. assign (if pr_next r = None then s1\<lparr>put_reqs_end := last_opt ks\<rparr> else s1) (ptr_of ks) (pr_next r) = Some s' \<and>
      list_ok s' (ks @ ys) \<and> pr_mem s' y = Some r' \<and> (\<forall>a. a \<notin> set (ks @ y # ys) \<longrightarrow> pr_mem s' a = pr_mem s a)"
proof -
  have d: "distinct (ks @ y # ys)" and sg: "seg (pr_mem s) (put_reqs s) (ks @ y # ys) None"
    and e: "put_reqs_end s = last_opt (ks @ y # ys)"
    using assms(1) by (auto simp: list_ok_def)
  obtain z where z: "seg (pr_mem s) (put_reqs s) ks z" "seg (pr_mem s) (pr_next r) ys None"
    using sg assms(2) by (auto simp: seg_append)
  show nx: "pr_next r = hd_opt ys" by (rule seg_hd [OF z(2)])
  define s2 where "s2 = (if pr_next r = None then s1\<lparr>put_reqs_end := last_opt ks\<rparr> else s1)"
  have s2: "pr_mem s2 = (pr_mem s)(y \<mapsto> r')" "put_reqs s2 = put_reqs s"
    "put_reqs_end s2 = last_opt (ks @ ys)"
    using e nx by (auto simp: s2_def assms(3) hd_opt_def last_opt_append last_opt_def)
  have "seg (pr_mem s2) (put_reqs s2) ks z"
    unfolding s2 using z(1) d by (subst seg_cong [of _ _ "pr_mem s"]) auto
  from assign_ptr_of(2) [OF this, of "pr_next r"] d obtain s' where
    s': "assign s2 (ptr_of ks) (pr_next r) = Some s'" "seg (pr_mem s') (put_reqs s') ks (pr_next r)"
      "put_reqs_end s' = last_opt (ks @ ys)" "\<And>a. a \<notin> set ks \<Longrightarrow> pr_mem s' a = ((pr_mem s)(y \<mapsto> r')) a"
    unfolding s2 by auto
  have "seg (pr_mem s') (pr_next r) ys None"
  proof (subst seg_cong [of _ _ "pr_mem s"])
    fix a assume "a \<in> set ys"
    then have "a \<notin> set ks" "a \<noteq> y" using d by auto
    then show "pr_mem s' a = pr_mem s a" using s'(4) [of a] by simp
  qed (rule z(2))
  then have "list_ok s' (ks @ ys)" using s'(2,3) d by (auto simp: list_ok_def seg_append)
  then show "\<exists>s'. assign (if pr_next r = None then s1\<lparr>put_reqs_end := last_opt ks\<rparr> else s1) (ptr_of ks) (pr_next r) = Some s' \<and>
      list_ok s' (ks @ ys) \<and> pr_mem s' y = Some r' \<and> (\<forall>a. a \<notin> set (ks @ y # ys) \<longrightarrow> pr_mem s' a = pr_mem s a)"
    using s'(1,4) d unfolding s2_def by auto
qed

section \<open>Checking for completed puts\<close>

text \<open>No two neighbours in the list have completed.\<close>

fun no_adjacent :: "(nat \<Rightarrow> bool) \<Rightarrow> nat list \<Rightarrow> bool" where
  "no_adjacent tst (x # y # xs) \<longleftrightarrow> \<not> (tst x \<and> tst y) \<and> no_adjacent tst (y # xs)"
| "no_adjacent tst xs \<longleftrightarrow> True"

text \<open>What the check leaves of the requests \<open>ys\<close>: those that have completed are finished and unlinked.\<close>

definition checked :: "(nat \<Rightarrow> bool) \<Rightarrow> (nat \<Rightarrow> int option) \<Rightarrow> put_list \<Rightarrow> nat list \<Rightarrow> nat list \<Rightarrow> put_list \<Rightarrow> bool" where
  "checked tst outp s ks ys s' \<longleftrightarrow> list_ok s' (ks @ filter (\<lambda>a. \<not> tst a) ys) \<and>
     (\<forall>a\<in>set ys. tst a \<longrightarrow> (\<exists>r. pr_mem s' a = Some r \<and> pr_finalized r \<and> pr_buffer r = None \<and> outp a = Some (pr_ret r))) \<and>
     (\<forall>a. a \<notin> set (ks @ ys) \<longrightarrow> pr_mem s' a = pr_mem s a)"

lemma check_loop_checked:
  assumes "list_ok s (ks @ ys)" "no_adjacent tst ys" "\<forall>a. outp a \<noteq> None"
  shows "\<exists>s'. check_loop tst outp (ptr_of ks) (last_opt ks) s = Some s' \<and> checked tst outp s ks ys s'"
    and "z \<notin> set (ks @ ys) \<Longrightarrow> pr_mem s z = Some rz \<Longrightarrow> pr_next rz = hd_opt ys \<Longrightarrow> ys = [] \<or> \<not> tst (hd ys) \<Longrightarrow>
      \<exists>s'. check_loop tst outp (Next z) (Some z) s = Some s' \<and> checked tst outp s ks ys s'"
  using assms(1,2)
proof (induction ys arbitrary: ks s z rz)
  case Nil
  {
    case 1
    then show ?case
      using assign_ptr_of(1) [of s ks None]
      by (subst check_loop.simps) (auto simp: list_ok_def checked_def)
  next
    case 2
    then show ?case
      by (subst check_loop.simps) (auto simp: list_ok_def checked_def)
  }
next
  case (Cons y ys)
  have keep: "\<exists>s'. check_loop tst outp p prev s = Some s' \<and> checked tst outp s ks (y # ys) s'"
    if ok: "list_ok s (ks @ y # ys)" "no_adjacent tst (y # ys)" "\<not> tst y" "deref s p = Some (Some y)" for p prev s ks
  proof -
    have "\<exists>s'. check_loop tst outp (Next y) (Some y) s = Some s' \<and> checked tst outp s (ks @ [y]) ys s'"
      using Cons.IH(1) [of s "ks @ [y]"] ok(1,2) by (cases ys) auto
    moreover obtain r where "pr_mem s y = Some r" using ok(1) by (auto simp: list_ok_def seg_append)
    ultimately show ?thesis
      using ok(3,4) by (subst check_loop.simps) (auto simp: check_one_def checked_def)
  qed
  {
    case 1
    then obtain z where z: "seg (pr_mem s) (put_reqs s) ks z" "z = Some y" "distinct ks"
      by (auto simp: list_ok_def seg_append)
    note dr = assign_ptr_of(1) [OF z(1,3), unfolded z(2)]
    show ?case
    proof (cases "tst y")
      case True
      obtain r where r: "pr_mem s y = Some r" "\<not> pr_finalized r" using 1(1) by (auto simp: list_ok_def seg_append)
      obtain v where v: "outp y = Some v" using assms(3) by auto
      let ?r' = "r\<lparr>pr_buffer := None, pr_finalized := True, pr_ret := v\<rparr>"
      obtain s1 where s1: "check_one tst outp (ptr_of ks) (last_opt ks) y s = Some s1"
        "list_ok s1 (ks @ ys)" "pr_mem s1 y = Some ?r'" "\<And>a. a \<notin> set (ks @ y # ys) \<Longrightarrow> pr_mem s1 a = pr_mem s a"
        using unlink_ok(2) [OF 1(1) r(1) refl, of ?r'] r True v
        by (auto simp: check_one_def finalize_req_def Let_def)
      have "y \<notin> set (ks @ ys)" using 1(1) by (auto simp: list_ok_def)
      moreover have "pr_next ?r' = hd_opt ys" using unlink_ok(1) [OF 1(1) r(1) refl] by simp
      moreover have "ys = [] \<or> \<not> tst (hd ys)" "no_adjacent tst ys" using 1(2) True by (cases ys; simp)+
      ultimately obtain s' where "check_loop tst outp (Next y) (Some y) s1 = Some s'" "checked tst outp s1 ks ys s'"
        using Cons.IH(2) [OF _ s1(3) _ _ s1(2)] by blast
      moreover have "pr_mem s' y = Some ?r'" using calculation(2) s1(3) \<open>y \<notin> set (ks @ ys)\<close> by (simp add: checked_def)
      ultimately show ?thesis
        using True v s1(4) dr s1(1) by (subst check_loop.simps) (auto simp: checked_def)
    qed (rule keep [OF 1 _ dr])
  next
    case 2
    then show ?case by (intro keep) auto
  }
qed

lemma link_req_ok:
  assumes "list_ok s xs" "a \<notin> set xs" "\<not> pr_finalized r"
  shows "\<exists>s'. link_req s a r = Some s' \<and> list_ok s' (xs @ [a]) \<and> (\<forall>b. b \<notin> set (a # xs) \<longrightarrow> pr_mem s' b = pr_mem s b)"
proof -
  define s1 where "s1 = s\<lparr>pr_mem := (pr_mem s)(a \<mapsto> r\<lparr>pr_next := None\<rparr>)\<rparr>"
  have ok: "distinct xs" "seg (pr_mem s1) (put_reqs s1) xs None" "put_reqs_end s1 = last_opt xs"
    using assms by (auto simp: list_ok_def s1_def seg_upd)
  obtain s2 where s2: "assign s1 (ptr_of xs) (Some a) = Some s2" "seg (pr_mem s2) (put_reqs s2) xs (Some a)"
    "\<forall>b. b \<notin> set xs \<longrightarrow> pr_mem s2 b = pr_mem s1 b"
    using assign_ptr_of(2) [OF ok(2,1)] by blast
  have "link_req s a r = Some (s2\<lparr>put_reqs_end := Some a\<rparr>)"
    using s2(1) ok(3) by (cases "xs = []") (auto simp: link_req_def s1_def [symmetric] ptr_of_def last_opt_def Let_def)
  moreover have "list_ok (s2\<lparr>put_reqs_end := Some a\<rparr>) (xs @ [a])"
    using s2(2,3) ok(1) assms(2,3) by (auto simp: list_ok_def seg_append s1_def)
  ultimately show ?thesis using s2(3) by (auto simp: s1_def)
qed

text \<open>
  C28: as long as no two neighbouring requests have completed, \<^verbatim>\<open>dspaces_iput\<close> keeps its list: with
  \<open>check\<close> it unlinks exactly the completed requests, which are finalised with their return code and
  stay allocated for a later \<^verbatim>\<open>dspaces_check_put\<close>, and appends the new one when it was sent.
\<close>

theorem dspaces_iput_keeps_list:
  assumes "list_ok s xs" "no_adjacent tst xs" "\<forall>b. outp b \<noteq> None" "pr_mem s a = None"
    and "put_odsc c var_name ver elem_size 0 0 0 ndim l u = Some odsc" "put_request c odsc elem_size d = Some inp"
    and "my_server c < length (server_address c)"
    and "m_bulk_create m w = HG_SUCCESS" "m_create m (server_address c ! my_server c) w = HG_SUCCESS"
    and "m_forward m (server_address c ! my_server c) inp w = (HG_SUCCESS, w')"
  shows "\<exists>s'. dspaces_iput m tst outp a c s var_name ver elem_size ndim l u d alloc True free w = Some (Some a, s', w') \<and>
    list_ok s' (filter (\<lambda>b. \<not> tst b) xs @ [a]) \<and>
    (\<forall>b\<in>set xs. tst b \<longrightarrow> (\<exists>r. pr_mem s' b = Some r \<and> pr_finalized r \<and> pr_buffer r = None \<and> outp b = Some (pr_ret r)))"
proof -
  let ?ys = "filter (\<lambda>b. \<not> tst b) xs"
  let ?r = "\<lparr>pr_next = None, pr_finalized = False,
      pr_buffer = (if alloc then Some (bg_data inp) else if free then Some d else None), pr_ret = 0\<rparr>"
  obtain s1 where s1: "check_loop tst outp Head None s = Some s1" "checked tst outp s [] xs s1"
    using check_loop_checked(1) [of s "[]" xs tst outp] assms(1-3) by auto
  have a: "a \<notin> set xs" using assms(1,4) by (auto simp: list_ok_def dest: seg_mem)
  then obtain s' where s': "link_req s1 a ?r = Some s'" "list_ok s' (?ys @ [a])"
    "\<forall>b. b \<notin> set (a # ?ys) \<longrightarrow> pr_mem s' b = pr_mem s1 b"
    using link_req_ok [of s1 ?ys a ?r] s1(2) by (auto simp: checked_def)
  have "dspaces_iput m tst outp a c s var_name ver elem_size ndim l u d alloc True free w = Some (Some a, s', w')"
    using s1(1) s'(1) assms(5-) by (simp add: dspaces_iput_def get_server_address_def Let_def)
  moreover have "\<forall>b\<in>set xs. tst b \<longrightarrow> (\<exists>r. pr_mem s' b = Some r \<and> pr_finalized r \<and> pr_buffer r = None \<and> outp b = Some (pr_ret r))"
    using s1(2) s'(3) a by (auto simp: checked_def)
  ultimately show ?thesis using s'(2) by blast
qed

definition ex_puts :: put_list where
  "ex_puts = \<lparr>pr_mem = [1 \<mapsto> \<lparr>pr_next = Some 2, pr_finalized = False, pr_buffer = None, pr_ret = 0\<rparr>,
       2 \<mapsto> \<lparr>pr_next = None, pr_finalized = False, pr_buffer = None, pr_ret = 0\<rparr>],
     put_reqs = Some 1, put_reqs_end = Some 2\<rparr>"

lemma ex_puts_ok: "list_ok ex_puts [1, 2]"
  by (simp add: list_ok_def ex_puts_def last_opt_def)

definition ex_iput :: "(nat \<Rightarrow> bool) \<Rightarrow> put_list \<Rightarrow> nat \<Rightarrow> (nat option \<times> put_list \<times> unit) option" where
  "ex_iput tst s a = dspaces_iput ex_margo tst (\<lambda>_. Some 0) a (ex_client None) s ''v'' 1 1 1 [0] [1] [5, 6] True True True ()"

lemma ex_put_parts:
  obtains odsc inp where "put_odsc (ex_client None) ''v'' 1 1 0 0 0 1 [0] [1] = Some odsc"
    "put_request (ex_client None) odsc 1 [5, 6] = Some inp"
proof -
  let ?o = "\<lparr>od_name = ''v'', od_st = column_major, od_flags = 0, od_tag = 0, od_type = 0, od_owner = [],
        od_version = 1, od_bb = mk_box [0] [1], od_size = 1\<rparr>"
  have o: "put_odsc (ex_client None) ''v'' 1 1 0 0 0 1 [0] [1] = Some ?o"
    by (subst put_odsc_Some) (simp_all add: ex_client_def qual_name_def client_st_def mk_box_def)
  have "vol (mk_box [0] [1]) = 2" by (simp add: bbox_eval)
  then have "unat (bbox_volume (mk_box [0] [1])) = 2"
    by (subst unat_bbox_volume) (simp_all add: nonempty_ordered mk_box_simps)
  with o that show thesis by (auto simp: put_request_def expose_def)
qed

theorem dspaces_iput_keeps_list_witness:
  "\<exists>s'. ex_iput (\<lambda>a. a = 1) ex_puts 3 = Some (Some 3, s', ()) \<and> list_ok s' [2, 3]"
proof -
  obtain odsc inp where o: "put_odsc (ex_client None) ''v'' 1 1 0 0 0 1 [0] [1] = Some odsc"
    "put_request (ex_client None) odsc 1 [5, 6] = Some inp" by (rule ex_put_parts)
  have "\<exists>s'. dspaces_iput ex_margo (\<lambda>a. a = 1) (\<lambda>_. Some 0) 3 (ex_client None) ex_puts ''v'' 1 1 1 [0] [1] [5, 6] True True True () =
      Some (Some 3, s', ()) \<and> list_ok s' (filter (\<lambda>b. \<not> b = 1) [1, 2] @ [3]) \<and>
    (\<forall>b\<in>set [1, 2]. b = 1 \<longrightarrow> (\<exists>r. pr_mem s' b = Some r \<and> pr_finalized r \<and> pr_buffer r = None \<and> Some 0 = Some (pr_ret r)))"
    by (rule dspaces_iput_keeps_list [OF ex_puts_ok _ _ _ o])
      (simp_all add: ex_margo_def ex_client_def ex_puts_def)
  then show ?thesis by (auto simp: ex_iput_def)
qed

section \<open>Two neighbours completed\<close>

lemma check_loop_skip:
  assumes "list_ok s (ks @ zs @ ys)" "\<forall>b\<in>set zs. \<not> tst b"
  shows "check_loop tst outp (ptr_of ks) (last_opt ks) s = check_loop tst outp (ptr_of (ks @ zs)) (last_opt (ks @ zs)) s"
  using assms
proof (induction zs arbitrary: ks)
  case (Cons z zs)
  obtain p where p: "seg (pr_mem s) (put_reqs s) ks p" "p = Some z" "distinct ks"
    using Cons.prems(1) by (auto simp: list_ok_def seg_append)
  obtain r where r: "pr_mem s z = Some r" using Cons.prems(1) by (auto simp: list_ok_def seg_append)
  have "check_loop tst outp (ptr_of ks) (last_opt ks) s = check_loop tst outp (ptr_of (ks @ [z])) (last_opt (ks @ [z])) s"
    using assign_ptr_of(1) [OF p(1,3)] p(2) r Cons.prems(2) by (subst check_loop.simps) (simp add: check_one_def)
  also have "\<dots> = check_loop tst outp (ptr_of ((ks @ [z]) @ zs)) (last_opt ((ks @ [z]) @ zs)) s"
    using Cons.prems by (intro Cons.IH) simp_all
  finally show ?case by simp
qed simp

lemma check_loop_neighbours:
  assumes ok: "list_ok s (ks @ [x, y])" and tst: "\<forall>b\<in>set ks. \<not> tst b" "tst x" "tst y" and outp: "\<forall>b. outp b \<noteq> None"
  obtains s' rx ry where "check_loop tst outp Head None s = Some s'" "seg (pr_mem s') (put_reqs s') ks (Some y)"
    "pr_mem s' y = Some ry" "pr_finalized ry" "pr_next ry = None" "pr_mem s' x = Some rx" "put_reqs_end s' = Some x"
    "\<forall>b. b \<notin> set (ks @ [x, y]) \<longrightarrow> pr_mem s' b = pr_mem s b"
proof -
  have d: "distinct (ks @ [x, y])" using ok by (simp add: list_ok_def)
  obtain p where p: "seg (pr_mem s) (put_reqs s) ks p" "p = Some x" "distinct ks"
    using ok by (auto simp: list_ok_def seg_append)
  obtain r where r: "pr_mem s x = Some r" "\<not> pr_finalized r" using ok by (auto simp: list_ok_def seg_append)
  obtain v u where v: "outp x = Some v" "outp y = Some u" using outp by fastforce
  let ?r = "r\<lparr>pr_buffer := None, pr_finalized := True, pr_ret := v\<rparr>"
  obtain s1 where s1: "check_one tst outp (ptr_of ks) (last_opt ks) x s = Some s1"
    "list_ok s1 (ks @ [y])" "pr_mem s1 x = Some ?r" "\<And>b. b \<notin> set (ks @ x # [y]) \<Longrightarrow> pr_mem s1 b = pr_mem s b"
    using unlink_ok(2) [OF ok r(1) refl, of ?r] r tst(2) v by (auto simp: check_one_def finalize_req_def Let_def)
  obtain q where q: "pr_mem s1 y = Some q" "\<not> pr_finalized q" "pr_next q = None"
    using s1(2) by (auto simp: list_ok_def seg_append)
  let ?q = "q\<lparr>pr_buffer := None, pr_finalized := True, pr_ret := u\<rparr>"
  define s2 where "s2 = s1\<lparr>pr_mem := (pr_mem s1)(y \<mapsto> ?q, x \<mapsto> ?r\<lparr>pr_next := None\<rparr>), put_reqs_end := Some x\<rparr>"
  have rn: "pr_next r = Some y" using unlink_ok(1) [OF ok r(1) refl] by simp
  have "check_one tst outp (Next x) (Some x) y s1 = Some s2"
    using q tst(3) v d s1(3) by (simp add: check_one_def finalize_req_def s2_def)
  then have "check_loop tst outp (Next x) (Some x) s1 = check_loop tst outp (Next y) (Some y) s2"
    using s1(3) rn by (subst check_loop.simps) simp
  also have "\<dots> = Some s2" using d q(3) by (subst check_loop.simps) (simp add: s2_def)
  finally have rest: "check_loop tst outp (Next x) (Some x) s1 = Some s2" .
  have "check_loop tst outp Head None s = check_loop tst outp (ptr_of ks) (last_opt ks) s"
    using check_loop_skip [of s "[]" ks "[x, y]" tst outp] ok tst(1) by simp
  also have "\<dots> = Some s2" using assign_ptr_of(1) [OF p(1,3)] p(2) s1(1) rest by (subst check_loop.simps) simp
  finally have "check_loop tst outp Head None s = Some s2" .
  moreover have "seg (pr_mem s2) (put_reqs s2) ks (Some y)"
  proof -
    have "seg (pr_mem s1) (put_reqs s1) ks (Some y)" using s1(2) by (auto simp: list_ok_def seg_append)
    then show ?thesis using d by (subst seg_cong [of _ _ "pr_mem s1"]) (auto simp: s2_def)
  qed
  moreover have "\<forall>b. b \<notin> set (ks @ [x, y]) \<longrightarrow> pr_mem s2 b = pr_mem s b" using s1(4) by (auto simp: s2_def)
  ultimately show thesis using d q(3) by (intro that [of s2 ?q "?r\<lparr>pr_next := None\<rparr>"]) (auto simp: s2_def)
qed

text \<open>The loop of \<^verbatim>\<open>dspaces_fini\<close> on a list with a freed request.\<close>

lemma fini_puts_dangling:
  assumes "seg (pr_mem s) (put_reqs s) ks (Some y)" "distinct ks" "y \<notin> set ks" "pr_mem s y = None" "\<forall>b. outp b \<noteq> None"
  shows "fini_puts outp s = None"
  using assms(1-4)
proof (induction ks arbitrary: s)
  case Nil
  then show ?case by (subst fini_puts.simps) (simp add: dspaces_check_put_def)
next
  case (Cons k ks)
  obtain r where r: "put_reqs s = Some k" "pr_mem s k = Some r" "\<not> pr_finalized r" "seg (pr_mem s) (pr_next r) ks (Some y)"
    using Cons.prems(1) by auto
  obtain v where v: "outp k = Some v" using assms(5) by auto
  let ?r = "r\<lparr>pr_buffer := None, pr_finalized := True, pr_ret := v\<rparr>"
  define s1 where "s1 = s\<lparr>pr_mem := (pr_mem s)(k := None), put_reqs := pr_next r,
    put_reqs_end := (if pr_next r = None then None else put_reqs_end s)\<rparr>"
  have "find_req s k Head None = Some (Head, None)" using r(1) by (subst find_req.simps) simp
  then have "retire_req outp s k = Some (v, s1)"
    using r v by (simp add: retire_req_def finalize_req_def free_req_def s1_def)
  then have "dspaces_check_put (\<lambda>_. False) outp HG_SUCCESS s k True = Some (v, s1)"
    using r by (simp add: dspaces_check_put_def)
  moreover have "fini_puts outp s1 = None"
  proof (rule Cons.IH)
    show "seg (pr_mem s1) (put_reqs s1) ks (Some y)"
      using r(4) Cons.prems(2) by (simp add: s1_def seg_upd del: fun_upd_apply)
  qed (use Cons.prems in \<open>auto simp: s1_def\<close>)
  ultimately show ?case using r(1) by (subst fini_puts.simps) simp
qed

text \<open>
  C29: when the last two requests of the list have both completed, the check of \<^verbatim>\<open>dspaces_iput\<close> unlinks the first of
  them only, and sets \<^verbatim>\<open>put_reqs_end\<close> to the request it has just unlinked. The new request is sent and
  linked behind that one, so the list that starts at \<^verbatim>\<open>put_reqs\<close> ends with the second, already finalised request
  and does not hold the new one: \<^verbatim>\<open>dspaces_fini\<close> never waits for it. \<^verbatim>\<open>dspaces_check_put\<close> frees the second
  request where it is linked, and then the loop of \<^verbatim>\<open>dspaces_fini\<close> reads a freed request.
\<close>

theorem iput_loses_put:
  assumes "list_ok s (ks @ [x, y])" "\<forall>b\<in>set ks. \<not> tst b" "tst x" "tst y" "\<forall>b. outp b \<noteq> None" "pr_mem s a = None"
    and "put_odsc c var_name ver elem_size 0 0 0 ndim l u = Some odsc" "put_request c odsc elem_size d = Some inp"
    and "my_server c < length (server_address c)"
    and "m_bulk_create m w = HG_SUCCESS" "m_create m (server_address c ! my_server c) w = HG_SUCCESS"
    and "m_forward m (server_address c ! my_server c) inp w = (HG_SUCCESS, w')"
  shows "\<exists>s' r. dspaces_iput m tst outp a c s var_name ver elem_size ndim l u d alloc True free w = Some (Some a, s', w') \<and>
    seg (pr_mem s') (put_reqs s') ks (Some y) \<and> pr_mem s' y = Some r \<and> pr_finalized r \<and> pr_next r = None \<and>
    a \<notin> set (ks @ [y]) \<and> put_reqs_end s' = Some a \<and>
    (\<exists>s''. dspaces_check_put tst outp hret s' y wait = Some (pr_ret r, s'') \<and> fini_puts outp s'' = None)"
proof -
  obtain s1 rx ry where s1: "check_loop tst outp Head None s = Some s1" "seg (pr_mem s1) (put_reqs s1) ks (Some y)"
    "pr_mem s1 y = Some ry" "pr_finalized ry" "pr_next ry = None" "pr_mem s1 x = Some rx" "put_reqs_end s1 = Some x"
    "\<forall>b. b \<notin> set (ks @ [x, y]) \<longrightarrow> pr_mem s1 b = pr_mem s b"
    by (rule check_loop_neighbours [OF assms(1-5)])
  have d: "distinct (ks @ [x, y])" using assms(1) by (simp add: list_ok_def)
  have a: "a \<notin> set (ks @ [x, y])"
    using assms(1,6) seg_mem [of "pr_mem s" "put_reqs s" "ks @ [x, y]" None a] by (auto simp: list_ok_def)
  let ?r = "\<lparr>pr_next = None, pr_finalized = False,
      pr_buffer = (if alloc then Some (bg_data inp) else if free then Some d else None), pr_ret = 0\<rparr>"
  define s' where "s' = s1\<lparr>pr_mem := (pr_mem s1)(a \<mapsto> ?r, x \<mapsto> rx\<lparr>pr_next := Some a\<rparr>), put_reqs_end := Some a\<rparr>"
  have "link_req s1 a ?r = Some s'"
    using s1(6,7) a by (auto simp: link_req_def s'_def)
  then have put: "dspaces_iput m tst outp a c s var_name ver elem_size ndim l u d alloc True free w = Some (Some a, s', w')"
    using s1(1) assms(7-) by (simp add: dspaces_iput_def get_server_address_def Let_def)
  have sg: "seg (pr_mem s') (put_reqs s') ks (Some y)"
    using s1(2) a d by (subst seg_cong [of _ _ "pr_mem s1"]) (auto simp: s'_def)
  have y: "pr_mem s' y = Some ry" using s1(3) a d by (auto simp: s'_def)
  have "dspaces_check_put tst outp hret s' y wait = Some (pr_ret ry, free_req s' y)"
    using y s1(4) by (simp add: dspaces_check_put_def)
  moreover have "fini_puts outp (free_req s' y) = None"
    using sg d assms(5) by (intro fini_puts_dangling [where ks = ks and y = y]) (auto simp: free_req_def seg_upd)
  ultimately show ?thesis using put sg y s1(4,5) a by (auto simp: s'_def)
qed

theorem iput_loses_put_witness:
  "\<exists>s r. ex_iput (\<lambda>a. a \<in> {1, 2}) ex_puts 3 = Some (Some 3, s, ()) \<and> put_reqs s = Some 2 \<and> pr_mem s 2 = Some r \<and>
     pr_next r = None \<and> (\<exists>s'. dspaces_check_put (\<lambda>_. True) (\<lambda>_. Some 0) 0 s 2 True = Some (pr_ret r, s') \<and> fini_puts (\<lambda>_. Some 0) s' = None)"
proof -
  obtain odsc inp where o: "put_odsc (ex_client None) ''v'' 1 1 0 0 0 1 [0] [1] = Some odsc"
    "put_request (ex_client None) odsc 1 [5, 6] = Some inp" by (rule ex_put_parts)
  have "list_ok ex_puts ([] @ [1, 2])" using ex_puts_ok by simp
  from iput_loses_put [OF this _ _ _ _ _ o, of "\<lambda>a. a \<in> {1, 2}" "\<lambda>_. Some 0" 3 ex_margo "()" "()" True True 0 True]
  show ?thesis by (auto simp: ex_iput_def ex_margo_def ex_client_def ex_puts_def dspaces_check_put_def)
qed

section \<open>Waiting for the pending puts\<close>

lemma find_req_ok:
  assumes "list_ok s (ks @ zs @ y # ys)"
  shows "find_req s y (ptr_of ks) (last_opt ks) = Some (ptr_of (ks @ zs), last_opt (ks @ zs))"
  using assms
proof (induction zs arbitrary: ks)
  case Nil
  then obtain z where "seg (pr_mem s) (put_reqs s) ks z" "z = Some y" "distinct ks"
    by (auto simp: list_ok_def seg_append)
  from assign_ptr_of(1) [OF this(1,3)] this(2) show ?case by (subst find_req.simps) simp
next
  case (Cons x zs)
  then obtain z where "seg (pr_mem s) (put_reqs s) ks z" "z = Some x" "distinct ks" "x \<noteq> y"
    by (auto simp: list_ok_def seg_append)
  from assign_ptr_of(1) [OF this(1,3)] this(2,4) Cons.IH [of "ks @ [x]"] Cons.prems show ?case
    by (subst find_req.simps) simp
qed

lemma retire_req_ok:
  assumes "list_ok s (ks @ y # ys)" "outp y = Some v"
  shows "\<exists>s'. retire_req outp s y = Some (v, s') \<and> list_ok s' (ks @ ys) \<and> pr_mem s' y = None \<and>
    (\<forall>a. a \<notin> set (ks @ y # ys) \<longrightarrow> pr_mem s' a = pr_mem s a)"
proof -
  obtain r where r: "pr_mem s y = Some r" using assms(1) by (auto simp: list_ok_def seg_append)
  let ?r' = "r\<lparr>pr_buffer := None, pr_finalized := True, pr_ret := v\<rparr>"
  let ?s1 = "s\<lparr>pr_mem := (pr_mem s)(y \<mapsto> ?r')\<rparr>"
  obtain s' where s': "assign (if pr_next r = None then ?s1\<lparr>put_reqs_end := last_opt ks\<rparr> else ?s1) (ptr_of ks) (pr_next r) = Some s'"
    "list_ok s' (ks @ ys)" "\<forall>a. a \<notin> set (ks @ y # ys) \<longrightarrow> pr_mem s' a = pr_mem s a"
    using unlink_ok(2) [OF assms(1) r refl, of ?r'] by blast
  have "find_req s y Head None = Some (ptr_of ks, last_opt ks)"
    using find_req_ok [of s "[]" ks y ys] assms(1) by simp
  then have "retire_req outp s y = Some (v, free_req s' y)"
    using assms(2) r s'(1) by (auto simp: retire_req_def finalize_req_def Let_def)
  moreover have "y \<notin> set (ks @ ys)" using assms(1) by (auto simp: list_ok_def)
  then have "list_ok (free_req s' y) (ks @ ys)"
    using s'(2) by (auto simp: list_ok_def free_req_def seg_upd)
  ultimately show ?thesis using s'(3) by (auto simp: free_req_def)
qed

text \<open>
  The loop of \<^verbatim>\<open>dspaces_fini\<close> ends and leaves no pending put: every request of a well-formed list is
  waited for, unlinked and freed, in the order of the list, and nothing else is.
\<close>

theorem fini_puts_drains:
  assumes "list_ok s xs" "\<forall>a. outp a \<noteq> None"
  shows "\<exists>s'. fini_puts outp s = Some s' \<and> put_reqs s' = None \<and> put_reqs_end s' = None \<and>
    (\<forall>a. pr_mem s' a = (if a \<in> set xs then None else pr_mem s a))"
  using assms(1)
proof (induction xs arbitrary: s)
  case Nil
  then show ?case by (subst fini_puts.simps) (simp add: list_ok_def)
next
  case (Cons y xs)
  obtain v where v: "outp y = Some v" using assms(2) by auto
  obtain s1 where s1: "retire_req outp s y = Some (v, s1)" "list_ok s1 xs" "pr_mem s1 y = None"
    "\<forall>a. a \<notin> set (y # xs) \<longrightarrow> pr_mem s1 a = pr_mem s a"
    using retire_req_ok [of s "[]" y xs outp v] Cons.prems v by auto
  have "dspaces_check_put (\<lambda>_. False) outp HG_SUCCESS s y True = Some (v, s1)" "put_reqs s = Some y"
    using s1(1) Cons.prems by (auto simp: dspaces_check_put_def list_ok_def)
  moreover obtain s' where "fini_puts outp s1 = Some s'" "put_reqs s' = None" "put_reqs_end s' = None"
    "\<forall>a. pr_mem s' a = (if a \<in> set xs then None else pr_mem s1 a)" using Cons.IH [OF s1(2)] by blast
  ultimately show ?case using s1(3,4) by (subst fini_puts.simps) auto
qed

theorem fini_puts_drains_witness: "\<exists>s'. fini_puts (\<lambda>_. Some 0) ex_puts = Some s' \<and> put_reqs s' = None"
  using fini_puts_drains [OF ex_puts_ok, of "\<lambda>_. Some 0"] by auto

end
