(* ===== verification/Sub.thy ===== *)
theory Sub
  imports ClientIO "HOL-Library.Multiset"
begin

text \<open>
  Subscriptions of a client: \<^verbatim>\<open>struct dspaces_sub_handle\<close>, the buckets of \<^verbatim>\<open>sub_list_node\<close> entries, and the
  functions \<^verbatim>\<open>dspaces_sub\<close>, \<^verbatim>\<open>notify_rpc\<close>, \<^verbatim>\<open>dspaces_cancel_sub\<close>, \<^verbatim>\<open>dspaces_check_sub\<close> and the part of
  \<^verbatim>\<open>dspaces_fini\<close> that waits for them. A notification handler runs in its own thread and takes the
  mutex three times; each of its critical sections, and each stretch of code between them, is one
  step, so that the steps of several handlers and of the user's thread interleave. Handles live in
  a memory of addresses; a freed handle that is read has no result.
\<close>

section \<open>Data\<close>

datatype sub_status = SUB_DONE | SUB_WAIT | SUB_ERR | SUB_TRANSFER | SUB_RUNNING | SUB_INVALID | SUB_CANCELLED

definition SUB_HASH_SIZE :: nat where "SUB_HASH_SIZE = 16"

record sub_handle =
  sh_req :: dspaces_req
  sh_result :: int
  sh_status :: sub_status
  sh_id :: nat
  sh_odsc :: obj_descriptor

text \<open>A node is the identifier of a subscription with the address of its handle.\<close>

type_synonym sub_node = "nat \<times> nat"

text \<open>
  Where a handler is: it has left the first critical section (\<open>Notified\<close>), is fetching the data
  (\<open>Fetching\<close>), has the data or none (\<open>Fetched\<close>), has left the second critical section with the data to
  pass on or none (\<open>Accepted\<close>), has passed the callback (\<open>Called\<close>), has left the third (\<open>Finished\<close>).
\<close>

datatype nphase = Notified "obj_descriptor list" | Fetching "obj_descriptor list" | Fetched "byte list option"
  | Accepted "byte list option" | Called | Finished

text \<open>\<open>sub_calls\<close> records the subscriptions whose callback was called, \<open>sub_thr\<close> the handlers by identifier.\<close>

record sub_state =
  sh_mem :: "nat \<rightharpoonup> sub_handle"
  sub_lists :: "sub_node list list"
  done_list :: "sub_node list"
  pending_sub :: int
  sub_serial :: nat
  sub_thr :: "nat \<rightharpoonup> (nat \<times> nphase)"
  sub_calls :: "nat list"

definition sub_init :: sub_state where
  "sub_init = \<lparr>sh_mem = Map.empty, sub_lists = replicate SUB_HASH_SIZE [], done_list = [], pending_sub = 0,
     sub_serial = 0, sub_thr = Map.empty, sub_calls = []\<rparr>"

section \<open>Operations\<close>

text \<open>
  The loop of \<^verbatim>\<open>dspaces_get_sub\<close> tests the node it starts with and never advances. The outer option says
  whether it returns, the inner one is the handle or \<open>NULL\<close>.
\<close>

partial_function (option) get_sub_loop :: "sub_node list \<Rightarrow> nat \<Rightarrow> nat option option" where
  "get_sub_loop node sub_id =
     (case node of
        [] \<Rightarrow> Some None
      | n # _ \<Rightarrow> if fst n = sub_id then Some (Some (snd n)) else get_sub_loop node sub_id)"

definition dspaces_get_sub :: "sub_state \<Rightarrow> nat \<Rightarrow> nat option option" where
  "dspaces_get_sub s sub_id = get_sub_loop (sub_lists s ! (sub_id mod SUB_HASH_SIZE)) sub_id"

text \<open>\<^verbatim>\<open>dspaces_move_sub\<close> moves the first node of the identifier to the front of the list of finished ones.\<close>

fun take_node :: "nat \<Rightarrow> sub_node list \<Rightarrow> (sub_node \<times> sub_node list) option" where
  "take_node sub_id [] = None"
| "take_node sub_id (n # ns) =
     (if fst n = sub_id then Some (n, ns) else map_option (\<lambda>(m, ms). (m, n # ms)) (take_node sub_id ns))"

definition dspaces_move_sub :: "sub_state \<Rightarrow> nat \<Rightarrow> sub_state" where
  "dspaces_move_sub s sub_id =
     (let listidx = sub_id mod SUB_HASH_SIZE
      in case take_node sub_id (sub_lists s ! listidx) of
           None \<Rightarrow> s
         | Some (n, ns) \<Rightarrow> s\<lparr>sub_lists := (sub_lists s)[listidx := ns], done_list := n # done_list s\<rparr>)"

definition register_client_sub :: "sub_state \<Rightarrow> nat \<Rightarrow> nat \<Rightarrow> sub_state" where
  "register_client_sub s sid h =
     (let listidx = sid mod SUB_HASH_SIZE
      in s\<lparr>sub_lists := (sub_lists s)[listidx := sub_lists s ! listidx @ [(sid, h)]]\<rparr>)"

definition set_status :: "sub_state \<Rightarrow> nat \<Rightarrow> sub_status \<Rightarrow> sub_state option" where
  "set_status s h st = map_option (\<lambda>sh. s\<lparr>sh_mem := (sh_mem s)(h \<mapsto> sh\<lparr>sh_status := st\<rparr>)\<rparr>) (sh_mem s h)"

text \<open>
  \<^verbatim>\<open>dspaces_sub\<close>: \<open>h\<close> is the address of the new handle, \<open>odsc0\<close>, \<open>req0\<close> and \<open>ures\<close> the contents \<^verbatim>\<open>malloc\<close> leaves in its
  descriptor, request and result, \<open>self\<close> the client's address. The request is sent to the server by \<open>fwd\<close>, the
  result of \<^verbatim>\<open>margo_create\<close> and \<^verbatim>\<open>margo_iforward\<close>; a failure returns \<^verbatim>\<open>DSPACES_SUB_FAIL\<close> and leaves the
  subscription registered. The identifiers are an unbounded number; the source's \<^verbatim>\<open>int sub_serial\<close> overflows after
  2147483647 subscriptions, which the model leaves out.
\<close>

definition dspaces_sub :: "int \<Rightarrow> int \<Rightarrow> string \<Rightarrow> obj_descriptor \<Rightarrow> string \<Rightarrow> dspaces_req \<Rightarrow> int \<Rightarrow> nat \<Rightarrow> dspaces_client \<Rightarrow> sub_state \<Rightarrow>
    string \<Rightarrow> u32 \<Rightarrow> int \<Rightarrow> int \<Rightarrow> u64 list \<Rightarrow> u64 list \<Rightarrow> (nat option \<times> odsc_gdim_t option \<times> dspaces_client \<times> sub_state) option" where
  "dspaces_sub listener_ret fwd self odsc0 buf req0 ures h c s var_name ver elem_size ndim l u =
     (if \<not> listener_init c \<and> listener_ret \<noteq> dspaces_SUCCESS then Some (None, None, c, s)
      else let c = c\<lparr>listener_init := True\<rparr> in
       Option.bind (fill_odsc c var_name ver elem_size ndim l u buf odsc0) (\<lambda>odsc.
       let q_odsc = odsc\<lparr>od_owner := self\<rparr>;
           sid = sub_serial s;
           subh = \<lparr>sh_req = req0\<lparr>rq_var_name := var_name, rq_ver := ver, rq_elem_size := elem_size, rq_ndim := ndim,
                     rq_lb := take (nat ndim) l, rq_ub := take (nat ndim) u\<rparr>,
                   sh_result = ures, sh_status = SUB_WAIT, sh_id = sid, sh_odsc = q_odsc\<rparr>;
           s = register_client_sub (s\<lparr>pending_sub := pending_sub s + 1, sub_serial := sub_serial s + 1,
                 sh_mem := (sh_mem s)(h \<mapsto> subh)\<rparr>) sid h;
           inp = \<lparr>og_odsc = q_odsc,
                  og_gdim = set_global_dimension (dcg_gdim_list (dcg c)) (od_name q_odsc) (dcg_default_gdim c),
                  og_param = int sid\<rparr>
       in if fwd \<noteq> HG_SUCCESS then Some (None, None, c, s) else Some (Some h, Some inp, c, s)))"

text \<open>The data of a notification: a buffer of the size of the query, filled when descriptors came with it.\<close>

definition notify_data :: "'w get_env \<Rightarrow> 'w \<Rightarrow> sub_handle \<Rightarrow> obj_descriptor list \<Rightarrow> byte list option" where
  "notify_data e w subh odsc_tab =
     (let q = sh_odsc subh;
          data_size = fold (\<lambda>i n. n * (ub (od_bb q) ! i - lb (od_bb q) ! i + 1)) [0..<ndims (od_bb q)] (od_size q);
          d = map (ge_junk e) [0..<unat data_size]
      in if odsc_tab \<noteq> [] then get_data (ge_bbcom e) (ge_junk e) (ge_lz4 e) (ge_fetch e w) q odsc_tab d else Some d)"

text \<open>The steps of \<^verbatim>\<open>notify_rpc\<close>, in order.\<close>

definition notify_enter :: "sub_state \<Rightarrow> nat \<Rightarrow> obj_descriptor list \<Rightarrow> sub_state option" where
  "notify_enter s sub_id odscs =
     Option.bind (dspaces_get_sub s sub_id) (\<lambda>p.
     Option.bind p (\<lambda>h.
     Option.bind (sh_mem s h) (\<lambda>subh.
       Some (s\<lparr>sub_thr := (sub_thr s)(sub_id \<mapsto>
         (h, if sh_status subh = SUB_WAIT then Notified odscs else Fetched None))\<rparr>))))"

definition notify_transfer :: "sub_state \<Rightarrow> nat \<Rightarrow> sub_state option" where
  "notify_transfer s sub_id =
     (case sub_thr s sub_id of
        Some (h, Notified odscs) \<Rightarrow>
          map_option (\<lambda>s. s\<lparr>sub_thr := (sub_thr s)(sub_id \<mapsto> (h, Fetching odscs))\<rparr>) (set_status s h SUB_TRANSFER)
      | _ \<Rightarrow> None)"

definition notify_fetch :: "'w get_env \<Rightarrow> 'w \<Rightarrow> sub_state \<Rightarrow> nat \<Rightarrow> sub_state option" where
  "notify_fetch e w s sub_id =
     (case sub_thr s sub_id of
        Some (h, Fetching odscs) \<Rightarrow>
          Option.bind (sh_mem s h) (\<lambda>subh. Option.bind (notify_data e w subh odscs) (\<lambda>d.
            Some (s\<lparr>sub_thr := (sub_thr s)(sub_id \<mapsto> (h, Fetched (Some d)))\<rparr>)))
      | _ \<Rightarrow> None)"

definition notify_accept :: "sub_state \<Rightarrow> nat \<Rightarrow> sub_state option" where
  "notify_accept s sub_id =
     (case sub_thr s sub_id of
        Some (h, Fetched d) \<Rightarrow>
          Option.bind (sh_mem s h) (\<lambda>subh.
            if sh_status subh = SUB_TRANSFER
            then Some (s\<lparr>sh_mem := (sh_mem s)(h \<mapsto> subh\<lparr>sh_req := (sh_req subh)\<lparr>rq_buf := d\<rparr>, sh_status := SUB_RUNNING\<rparr>),
                        sub_thr := (sub_thr s)(sub_id \<mapsto> (h, Accepted d))\<rparr>)
            else Some (s\<lparr>sub_thr := (sub_thr s)(sub_id \<mapsto> (h, Accepted None))\<rparr>))
      | _ \<Rightarrow> None)"

text \<open>\<open>cb\<close> is the user's callback.\<close>

definition notify_call :: "(dspaces_req \<Rightarrow> int) \<Rightarrow> sub_state \<Rightarrow> nat \<Rightarrow> sub_state option" where
  "notify_call cb s sub_id =
     (case sub_thr s sub_id of
        Some (h, Accepted (Some d)) \<Rightarrow>
          map_option (\<lambda>subh. s\<lparr>sh_mem := (sh_mem s)(h \<mapsto> subh\<lparr>sh_result := cb (sh_req subh)\<rparr>),
              sub_calls := sub_id # sub_calls s, sub_thr := (sub_thr s)(sub_id \<mapsto> (h, Called))\<rparr>) (sh_mem s h)
      | Some (h, Accepted None) \<Rightarrow> Some (s\<lparr>sub_thr := (sub_thr s)(sub_id \<mapsto> (h, Called))\<rparr>)
      | _ \<Rightarrow> None)"

definition notify_finish :: "sub_state \<Rightarrow> nat \<Rightarrow> sub_state option" where
  "notify_finish s sub_id =
     (case sub_thr s sub_id of
        Some (h, Called) \<Rightarrow>
          map_option (\<lambda>s. s\<lparr>sub_thr := (sub_thr s)(sub_id \<mapsto> (h, Finished))\<rparr>)
            (set_status (dspaces_move_sub (s\<lparr>pending_sub := pending_sub s - 1\<rparr>) sub_id) h SUB_DONE)
      | _ \<Rightarrow> None)"

text \<open>The handler reads the handle once more to free its request.\<close>

definition notify_free :: "sub_state \<Rightarrow> nat \<Rightarrow> sub_state option" where
  "notify_free s sub_id =
     (case sub_thr s sub_id of
        Some (h, Finished) \<Rightarrow> map_option (\<lambda>subh. s\<lparr>sub_thr := (sub_thr s)(sub_id := None)\<rparr>) (sh_mem s h)
      | _ \<Rightarrow> None)"

definition dspaces_cancel_sub :: "sub_state \<Rightarrow> nat option \<Rightarrow> (sub_status option \<times> sub_state) option" where
  "dspaces_cancel_sub s subh =
     (case subh of
        None \<Rightarrow> Some (Some SUB_INVALID, s)
      | Some h \<Rightarrow> Option.bind (sh_mem s h) (\<lambda>sh.
          if sh_status sh = SUB_WAIT \<or> sh_status sh = SUB_TRANSFER
          then map_option (\<lambda>s. (None, s)) (set_status s h SUB_CANCELLED) else Some (None, s)))"

text \<open>
  \<^verbatim>\<open>dspaces_check_sub\<close>: with \<open>wait\<close> it returns only in a state whose status is none of the three it waits
  on; the answer is the status and the result stored, if any. Sleeping is the answer \<open>Inl\<close>.
\<close>

definition dspaces_check_sub :: "sub_state \<Rightarrow> nat option \<Rightarrow> bool \<Rightarrow> (unit + (sub_status \<times> int option)) option" where
  "dspaces_check_sub s subh wait =
     (case subh of
        None \<Rightarrow> Some (Inr (SUB_INVALID, None))
      | Some h \<Rightarrow> Option.bind (sh_mem s h) (\<lambda>sh.
          if wait \<and> sh_status sh \<in> {SUB_WAIT, SUB_TRANSFER, SUB_RUNNING} then Some (Inl ())
          else Some (Inr (sh_status sh, if sh_status sh = SUB_DONE then Some (sh_result sh) else None))))"

text \<open>\<^verbatim>\<open>free_done_list\<close>, which \<^verbatim>\<open>dspaces_fini\<close> calls when no subscription is pending.\<close>

definition free_done_list :: "sub_state \<Rightarrow> sub_state" where
  "free_done_list s = s\<lparr>sh_mem := fold (\<lambda>n m. m(snd n := None)) (done_list s) (sh_mem s), done_list := []\<rparr>"

declare get_sub_loop.simps [code]

section \<open>Interleavings\<close>

text \<open>
  The server sends one notification for a subscription. The steps of all handlers, new
  subscriptions, cancellations and the end of the wait of \<^verbatim>\<open>dspaces_fini\<close> may follow one another
  in any order. The servers' state enters a fetch only through the environment of that step.
\<close>

inductive sub_step :: "sub_state \<Rightarrow> sub_state \<Rightarrow> bool" where
  subscribe: "dspaces_sub lret fwd self odsc0 buf req0 ures h c s vn ver es nd l u = Some (p, inp, c', s') \<Longrightarrow>
     sh_mem s h = None \<Longrightarrow> sub_step s s'"
| enter: "i \<in> fst ` set (concat (sub_lists s)) \<Longrightarrow> sub_thr s i = None \<Longrightarrow> notify_enter s i odscs = Some s' \<Longrightarrow> sub_step s s'"
| transfer: "notify_transfer s i = Some s' \<Longrightarrow> sub_step s s'"
| fetch: "notify_fetch (e :: unit get_env) () s i = Some s' \<Longrightarrow> sub_step s s'"
| accept: "notify_accept s i = Some s' \<Longrightarrow> sub_step s s'"
| call: "notify_call cb s i = Some s' \<Longrightarrow> sub_step s s'"
| finish: "notify_finish s i = Some s' \<Longrightarrow> sub_step s s'"
| free: "notify_free s i = Some s' \<Longrightarrow> sub_step s s'"
| cancel: "dspaces_cancel_sub s p = Some (r, s') \<Longrightarrow> sub_step s s'"
| fini: "pending_sub s \<le> 0 \<Longrightarrow> sub_step s (free_done_list s)"

definition sub_reach :: "sub_state \<Rightarrow> bool" where
  "sub_reach s \<longleftrightarrow> sub_step\<^sup>*\<^sup>* sub_init s"

text \<open>
  The statuses a registered subscription can have while its handler is in a given phase, and how
  often its callback has been called by then.
\<close>

fun live :: "sub_status \<Rightarrow> nphase option \<Rightarrow> nat \<Rightarrow> bool" where
  "live st None k \<longleftrightarrow> st \<in> {SUB_WAIT, SUB_CANCELLED} \<and> k = 0"
| "live st (Some (Notified _)) k \<longleftrightarrow> st \<in> {SUB_WAIT, SUB_CANCELLED} \<and> k = 0"
| "live st (Some (Fetching _)) k \<longleftrightarrow> st \<in> {SUB_TRANSFER, SUB_CANCELLED} \<and> k = 0"
| "live st (Some (Fetched (Some _))) k \<longleftrightarrow> st \<in> {SUB_TRANSFER, SUB_CANCELLED} \<and> k = 0"
| "live st (Some (Fetched None)) k \<longleftrightarrow> st = SUB_CANCELLED \<and> k = 0"
| "live st (Some (Accepted (Some _))) k \<longleftrightarrow> st = SUB_RUNNING \<and> k = 0"
| "live st (Some (Accepted None)) k \<longleftrightarrow> st = SUB_CANCELLED \<and> k = 0"
| "live st (Some Called) k \<longleftrightarrow> st = SUB_RUNNING \<and> k = 1 \<or> st = SUB_CANCELLED \<and> k = 0"
| "live st (Some Finished) k \<longleftrightarrow> False"

abbreviation calls :: "sub_state \<Rightarrow> nat \<Rightarrow> nat" where
  "calls s i \<equiv> count_list (sub_calls s) i"

abbreviation pend :: "sub_state \<Rightarrow> sub_node list" where
  "pend s \<equiv> concat (sub_lists s)"

definition sub_ok :: "sub_state \<Rightarrow> nat \<Rightarrow> nat \<Rightarrow> bool" where
  "sub_ok s i h \<longleftrightarrow> (\<exists>sh. sh_mem s h = Some sh \<and> sh_id sh = i \<and>
     live (sh_status sh) (map_option snd (sub_thr s i)) (calls s i) \<and>
     (\<forall>t. sub_thr s i = Some t \<longrightarrow> fst t = h))"

definition sub_inv :: "sub_state \<Rightarrow> bool" where
  "sub_inv s \<longleftrightarrow> length (sub_lists s) = SUB_HASH_SIZE \<and>
     keyed (\<lambda>n. fst n mod SUB_HASH_SIZE) (sub_lists s) \<and>
     distinct (map fst (pend s @ done_list s)) \<and> distinct (map snd (pend s @ done_list s)) \<and>
     (\<forall>n\<in>set (pend s @ done_list s). fst n < sub_serial s) \<and>
     pending_sub s = int (length (pend s)) \<and>
     (\<forall>(i, h)\<in>set (pend s). sub_ok s i h) \<and>
     (\<forall>(i, h)\<in>set (done_list s). map_option sh_status (sh_mem s h) = Some SUB_DONE) \<and>
     (\<forall>i h ph. sub_thr s i = Some (h, ph) \<longrightarrow> i < sub_serial s \<and> (ph = Finished \<or> (i, h) \<in> set (pend s))) \<and>
     (\<forall>i. calls s i \<le> 1) \<and> (\<forall>i\<ge>sub_serial s. calls s i = 0) \<and>
     dom (sh_mem s) \<subseteq> snd ` set (pend s @ done_list s)"

lemma sub_invD:
  assumes "sub_inv s"
  shows "length (sub_lists s) = SUB_HASH_SIZE" "keyed (\<lambda>n. fst n mod SUB_HASH_SIZE) (sub_lists s)"
    "distinct (map fst (pend s @ done_list s))" "distinct (map snd (pend s @ done_list s))"
    "\<And>n. n \<in> set (pend s @ done_list s) \<Longrightarrow> fst n < sub_serial s" "pending_sub s = int (length (pend s))"
    "\<And>i h. (i, h) \<in> set (pend s) \<Longrightarrow> sub_ok s i h"
    "\<And>i h. (i, h) \<in> set (done_list s) \<Longrightarrow> map_option sh_status (sh_mem s h) = Some SUB_DONE"
    "\<And>i h ph. sub_thr s i = Some (h, ph) \<Longrightarrow> i < sub_serial s \<and> (ph = Finished \<or> (i, h) \<in> set (pend s))"
    "\<And>i. calls s i \<le> 1" "\<And>i. sub_serial s \<le> i \<Longrightarrow> calls s i = 0"
    "dom (sh_mem s) \<subseteq> snd ` set (pend s @ done_list s)"
  using assms unfolding sub_inv_def by blast+

lemma sub_invI:
  assumes "length (sub_lists s) = SUB_HASH_SIZE" "keyed (\<lambda>n. fst n mod SUB_HASH_SIZE) (sub_lists s)"
    "distinct (map fst (pend s @ done_list s))" "distinct (map snd (pend s @ done_list s))"
    "\<And>n. n \<in> set (pend s @ done_list s) \<Longrightarrow> fst n < sub_serial s" "pending_sub s = int (length (pend s))"
    "\<And>i h. (i, h) \<in> set (pend s) \<Longrightarrow> sub_ok s i h"
    "\<And>i h. (i, h) \<in> set (done_list s) \<Longrightarrow> map_option sh_status (sh_mem s h) = Some SUB_DONE"
    "\<And>i h ph. sub_thr s i = Some (h, ph) \<Longrightarrow> i < sub_serial s \<and> (ph = Finished \<or> (i, h) \<in> set (pend s))"
    "\<And>i. calls s i \<le> 1" "\<And>i. sub_serial s \<le> i \<Longrightarrow> calls s i = 0"
    "dom (sh_mem s) \<subseteq> snd ` set (pend s @ done_list s)"
  shows "sub_inv s"
  unfolding sub_inv_def using assms(1-6,10-12)
  by (intro conjI ballI allI impI) (auto simp del: set_concat dest: assms(7-9) split: prod.splits)

lemma sub_inv_init: "sub_inv sub_init"
  by (simp add: sub_inv_def sub_init_def keyed_def)

text \<open>Two nodes that share the identifier or the handle are the same.\<close>

lemma node_unique:
  assumes "sub_inv s" "(i, h) \<in> set (pend s)" "(j, k) \<in> set (pend s @ done_list s)"
  shows "i = j \<longleftrightarrow> h = k"
proof -
  have "(i, h) \<in> set (pend s @ done_list s)" using assms(2) by simp
  then show ?thesis
    using assms(3) sub_invD(3,4) [OF assms(1)]
    by (metis distinct_map inj_onD fst_conv snd_conv)
qed

text \<open>A step of one handler or of the user on one registered subscription.\<close>

lemma sub_inv_update:
  assumes "sub_inv s" "(i, h) \<in> set (pend s)" "sh_mem s h = Some sh" "sh_id sh' = sh_id sh"
    and "\<And>j. j \<noteq> i \<Longrightarrow> count_list cs j = calls s j"
    and "live (sh_status sh') (map_option snd t) (count_list cs i)" "\<And>p. t = Some p \<Longrightarrow> fst p = h"
  shows "sub_inv (s\<lparr>sh_mem := (sh_mem s)(h \<mapsto> sh'), sub_thr := (sub_thr s)(i := t), sub_calls := cs\<rparr>)"
proof -
  let ?s = "s\<lparr>sh_mem := (sh_mem s)(h \<mapsto> sh'), sub_thr := (sub_thr s)(i := t), sub_calls := cs\<rparr>"
  note D = sub_invD [OF assms(1)]
  have sid: "sh_id sh = i" using D(7) [OF assms(2)] assms(3) by (auto simp: sub_ok_def)
  have dm: "dom ((sh_mem s)(h \<mapsto> sh')) \<subseteq> snd ` set (pend s @ done_list s)"
    using D(12) assms(3) by auto
  have k1: "count_list cs i \<le> 1" using assms(6) by (cases "(sh_status sh', map_option snd t, count_list cs i)" rule: live.cases) auto
  have "sub_ok ?s j k" if jk: "(j, k) \<in> set (pend s)" for j k
  proof (cases "j = i")
    case True
    then have "k = h" using node_unique [OF assms(1,2), of j k] jk by auto
    then show ?thesis using True assms(4,6,7) sid by (auto simp: sub_ok_def)
  next
    case False
    then have "k \<noteq> h" using node_unique [OF assms(1,2), of j k] jk by auto
    then show ?thesis using False D(7) [OF jk] assms(5) [OF False] by (simp add: sub_ok_def)
  qed
  moreover have "map_option sh_status (sh_mem ?s k) = Some SUB_DONE" if jk: "(j, k) \<in> set (done_list s)" for j k
  proof -
    have "k \<noteq> h" using node_unique [OF assms(1,2), of j k] jk D(3) assms(2) by (auto simp: image_iff)
    then show ?thesis using D(8) [OF jk] by simp
  qed
  moreover have "count_list cs j \<le> 1" for j using k1 assms(5) D(10) by (cases "j = i") auto
  moreover have "count_list cs j = 0" if "sub_serial s \<le> j" for j
    using that D(11) assms(5) D(5) [of "(i, h)"] assms(2) by (cases "j = i") auto
  moreover have "j < sub_serial s \<and> (ph = Finished \<or> (j, k) \<in> set (pend s))"
    if "((sub_thr s)(i := t)) j = Some (k, ph)" for j k ph
    using that D(9) [of j k ph] D(5) [of "(i, h)"] assms(2,7) by (auto split: if_splits)
  ultimately show ?thesis
    using D(1-6) dm by (intro sub_invI) (simp_all del: set_concat set_append distinct_append)
qed

lemma get_sub_loop_Some:
  assumes "get_sub_loop node i = Some r"
  shows "case node of [] \<Rightarrow> r = None | n # ns \<Rightarrow> fst n = i \<and> r = Some (snd n)"
  using assms by (rule get_sub_loop.raw_induct [rotated]) (fastforce split: list.splits if_splits)

text \<open>What a handler that has not finished knows.\<close>

lemma thread_ok:
  assumes "sub_inv s" "sub_thr s i = Some (h, ph)" "ph \<noteq> Finished"
  obtains sh where "(i, h) \<in> set (pend s)" "sh_mem s h = Some sh" "live (sh_status sh) (Some ph) (calls s i)"
  using sub_invD(9) [OF assms(1,2)] assms(2,3) sub_invD(7) [OF assms(1), of i h] by (auto simp: sub_ok_def)

text \<open>
  The effect of a step of a handler on a state: it changes its own subscription only, and does not
  revive a cancelled one, unless it stands before \<^verbatim>\<open>DSPACES_SUB_TRANSFER\<close>.
\<close>

definition handled :: "sub_state \<Rightarrow> nat \<Rightarrow> sub_state \<Rightarrow> bool" where
  "handled s i s' \<longleftrightarrow> (\<exists>h sh sh' ph cs.
     s' = s\<lparr>sh_mem := (sh_mem s)(h \<mapsto> sh'), sub_thr := (sub_thr s)(i \<mapsto> (h, ph)), sub_calls := cs\<rparr> \<and>
     (i, h) \<in> set (pend s) \<and> sh_mem s h = Some sh \<and> sh_id sh' = sh_id sh \<and> cs \<in> {sub_calls s, i # sub_calls s} \<and>
     live (sh_status sh') (Some ph) (count_list cs i) \<and>
     (sh_status sh = SUB_CANCELLED \<longrightarrow> (\<forall>odscs. sub_thr s i \<noteq> Some (h, Notified odscs)) \<longrightarrow>
        sh_status sh' = SUB_CANCELLED \<and> (\<forall>odscs. ph \<noteq> Notified odscs) \<and> cs = sub_calls s))"

lemma handled_inv: "sub_inv s \<Longrightarrow> handled s i s' \<Longrightarrow> sub_inv s'"
  unfolding handled_def by (elim exE conjE) (auto intro!: sub_inv_update)

lemma handler_handled:
  assumes "sub_inv s"
  shows "sub_thr s i = None \<Longrightarrow> notify_enter s i odscs = Some s' \<Longrightarrow> handled s i s'"
    and "notify_transfer s i = Some s' \<Longrightarrow> handled s i s'"
    and "notify_fetch e w s i = Some s' \<Longrightarrow> handled s i s'"
    and "notify_accept s i = Some s' \<Longrightarrow> handled s i s'"
    and "notify_call cb s i = Some s' \<Longrightarrow> handled s i s'"
proof -
  have upd: "handled s i s'"
    if "s' = s\<lparr>sh_mem := (sh_mem s)(h \<mapsto> sh'), sub_thr := (sub_thr s)(i \<mapsto> (h, ph)), sub_calls := cs\<rparr>"
      "(i, h) \<in> set (pend s)" "sh_mem s h = Some sh" "sh_id sh' = sh_id sh" "cs \<in> {sub_calls s, i # sub_calls s}"
      "live (sh_status sh') (Some ph) (count_list cs i)"
      "sh_status sh = SUB_CANCELLED \<Longrightarrow> (\<forall>odscs. sub_thr s i \<noteq> Some (h, Notified odscs)) \<Longrightarrow>
        sh_status sh' = SUB_CANCELLED \<and> (\<forall>odscs. ph \<noteq> Notified odscs) \<and> cs = sub_calls s" for s' h sh sh' ph cs
    unfolding handled_def using that by blast
  {
    assume thr: "sub_thr s i = None" and st: "notify_enter s i odscs = Some s'"
    obtain h sh where h: "dspaces_get_sub s i = Some (Some h)" "sh_mem s h = Some sh"
      "s' = s\<lparr>sub_thr := (sub_thr s)(i \<mapsto> (h, if sh_status sh = SUB_WAIT then Notified odscs else Fetched None))\<rparr>"
      using st by (auto simp: notify_enter_def bind_eq_Some_conv)
    let ?b = "sub_lists s ! (i mod SUB_HASH_SIZE)"
    have "(i, h) \<in> set ?b"
      using get_sub_loop_Some [OF h(1) [unfolded dspaces_get_sub_def]] by (cases ?b) (auto split: list.splits)
    moreover have "?b \<in> set (sub_lists s)" using sub_invD(1) [OF assms] by (simp add: SUB_HASH_SIZE_def)
    ultimately have m: "(i, h) \<in> set (pend s)" by auto
    have "live (sh_status sh) None (calls s i)"
      using sub_invD(7) [OF assms m] h(2) thr by (auto simp: sub_ok_def)
    then show "handled s i s'"
      using h(3) by (intro upd [OF _ m h(2), where cs = "sub_calls s" and sh' = sh and
          ph = "if sh_status sh = SUB_WAIT then Notified odscs else Fetched None"]) (auto simp: map_upd_triv [of "sh_mem s", OF h(2)])
  }
  show "handled s i s'" if step: "notify_transfer s i = Some s'"
  proof -
    obtain h odscs sh where h: "sub_thr s i = Some (h, Notified odscs)" "sh_mem s h = Some sh"
      "s' = s\<lparr>sh_mem := (sh_mem s)(h \<mapsto> sh\<lparr>sh_status := SUB_TRANSFER\<rparr>), sub_thr := (sub_thr s)(i \<mapsto> (h, Fetching odscs))\<rparr>"
      using step by (auto simp: notify_transfer_def set_status_def split: option.splits nphase.splits)
    obtain "(i, h) \<in> set (pend s)" "live (sh_status sh) (Some (Notified odscs)) (calls s i)"
      using thread_ok [OF assms h(1)] h(2) by auto
    then show ?thesis using h(1,3) by (intro upd [OF _ _ h(2), where cs = "sub_calls s" and
          sh' = "sh\<lparr>sh_status := SUB_TRANSFER\<rparr>" and ph = "Fetching odscs"]) auto
  qed
  show "handled s i s'" if step: "notify_fetch e w s i = Some s'"
  proof -
    obtain h odscs sh d where h: "sub_thr s i = Some (h, Fetching odscs)" "sh_mem s h = Some sh"
      "s' = s\<lparr>sub_thr := (sub_thr s)(i \<mapsto> (h, Fetched (Some d)))\<rparr>"
      using step by (auto simp: notify_fetch_def bind_eq_Some_conv split: option.splits nphase.splits)
    obtain "(i, h) \<in> set (pend s)" "live (sh_status sh) (Some (Fetching odscs)) (calls s i)"
      using thread_ok [OF assms h(1)] h(2) by auto
    then show ?thesis using h(3)
      by (intro upd [OF _ _ h(2), where cs = "sub_calls s" and sh' = sh and ph = "Fetched (Some d)"]) (auto simp: map_upd_triv [of "sh_mem s", OF h(2)])
  qed
  show "handled s i s'" if step: "notify_accept s i = Some s'"
  proof -
    obtain h d where h: "sub_thr s i = Some (h, Fetched d)"
      using step by (auto simp: notify_accept_def split: option.splits nphase.splits)
    obtain sh where sh: "(i, h) \<in> set (pend s)" "sh_mem s h = Some sh" "live (sh_status sh) (Some (Fetched d)) (calls s i)"
      using thread_ok [OF assms h] by auto
    show ?thesis
    proof (cases "sh_status sh = SUB_TRANSFER")
      case True
      then obtain x where "d = Some x" using sh(3) by (cases d) auto
      then show ?thesis using True sh step h
        by (intro upd [OF _ sh(1,2), where cs = "sub_calls s" and ph = "Accepted d" and
            sh' = "sh\<lparr>sh_req := (sh_req sh)\<lparr>rq_buf := d\<rparr>, sh_status := SUB_RUNNING\<rparr>"]) (auto simp: notify_accept_def)
    next
      case False
      have s': "s' = s\<lparr>sub_thr := (sub_thr s)(i \<mapsto> (h, Accepted None))\<rparr>"
        using step h sh(2) False by (simp add: notify_accept_def)
      have "live (sh_status sh) (Some (Accepted None)) (calls s i)" using sh(3) False by (cases d) auto
      then show ?thesis unfolding s'
        by (intro upd [OF _ sh(1,2), where cs = "sub_calls s" and sh' = sh and ph = "Accepted None"])
          (auto simp: map_upd_triv [of "sh_mem s", OF sh(2)])
    qed
  qed
  show "handled s i s'" if step: "notify_call cb s i = Some s'"
  proof -
    obtain h d where h: "sub_thr s i = Some (h, Accepted d)"
      using step by (auto simp: notify_call_def split: option.splits nphase.splits)
    obtain sh where sh: "(i, h) \<in> set (pend s)" "sh_mem s h = Some sh" "live (sh_status sh) (Some (Accepted d)) (calls s i)"
      using thread_ok [OF assms h] by auto
    show ?thesis
    proof (cases d)
      case None
      then show ?thesis using sh step h
        by (intro upd [OF _ sh(1,2), where cs = "sub_calls s" and sh' = sh and ph = Called])
          (auto simp: notify_call_def map_upd_triv [of "sh_mem s", OF sh(2)])
    next
      case (Some x)
      then show ?thesis using sh step h
        by (intro upd [OF _ sh(1,2), where cs = "i # sub_calls s" and ph = Called and sh' = "sh\<lparr>sh_result := cb (sh_req sh)\<rparr>"]) (auto simp: notify_call_def)
    qed
  qed
qed

lemma mset_concat_update:
  "i < length xs \<Longrightarrow> mset (concat (xs[i := y])) + mset (xs ! i) = mset (concat xs) + mset y"
  by (induction xs arbitrary: i) (auto simp: nth_Cons ac_simps split: nat.splits)

lemma distinct_map_mset: "mset xs = mset ys \<Longrightarrow> distinct (map f xs) = distinct (map f ys)"
  by (metis mset_eq_imp_distinct_iff mset_map)

lemma take_node_Some:
  "take_node i ns = Some (n, ms) \<Longrightarrow> fst n = i \<and> mset ns = add_mset n (mset ms)"
  by (induction ns arbitrary: ms) (auto split: if_splits)

lemma take_node_None: "take_node i ns = None \<longleftrightarrow> i \<notin> fst ` set ns"
  by (induction ns) auto

lemma sub_inv_cancel:
  assumes "sub_inv s" "dspaces_cancel_sub s p = Some (r, s')"
  shows "sub_inv s'"
proof -
  have "s' = s \<or> (\<exists>h sh. sh_mem s h = Some sh \<and> (sh_status sh = SUB_WAIT \<or> sh_status sh = SUB_TRANSFER) \<and>
      s' = s\<lparr>sh_mem := (sh_mem s)(h \<mapsto> sh\<lparr>sh_status := SUB_CANCELLED\<rparr>)\<rparr>)"
  proof (cases p)
    case (Some h)
    then obtain sh where sh: "sh_mem s h = Some sh" using assms(2) by (auto simp: dspaces_cancel_sub_def bind_eq_Some_conv)
    show ?thesis
    proof (cases "sh_status sh = SUB_WAIT \<or> sh_status sh = SUB_TRANSFER")
      case True
      then have "s' = s\<lparr>sh_mem := (sh_mem s)(h \<mapsto> sh\<lparr>sh_status := SUB_CANCELLED\<rparr>)\<rparr>"
        using assms(2) Some sh by (simp add: dspaces_cancel_sub_def set_status_def)
      with sh True show ?thesis by blast
    qed (use assms(2) Some sh in \<open>simp add: dspaces_cancel_sub_def\<close>)
  qed (use assms(2) in \<open>simp add: dspaces_cancel_sub_def\<close>)
  then consider "s' = s" | h sh where "sh_mem s h = Some sh" "sh_status sh = SUB_WAIT \<or> sh_status sh = SUB_TRANSFER"
      "s' = s\<lparr>sh_mem := (sh_mem s)(h \<mapsto> sh\<lparr>sh_status := SUB_CANCELLED\<rparr>)\<rparr>" by blast
  then show ?thesis
  proof cases
    case 2
    have "h \<in> snd ` set (pend s @ done_list s)" using sub_invD(12) [OF assms(1)] 2(1) by blast
    moreover have "(i, h) \<notin> set (done_list s)" for i using sub_invD(8) [OF assms(1), of i h] 2(1,2) by auto
    ultimately obtain i where i: "(i, h) \<in> set (pend s)" by (auto simp del: set_concat)
    have ok: "live (sh_status sh) (map_option snd (sub_thr s i)) (calls s i)" "\<And>t. sub_thr s i = Some t \<Longrightarrow> fst t = h"
      using sub_invD(7) [OF assms(1) i] 2(1) by (auto simp: sub_ok_def)
    have "live SUB_CANCELLED (map_option snd (sub_thr s i)) (calls s i)"
      using ok(1) 2(2)
      by (cases "(sh_status sh, map_option snd (sub_thr s i), calls s i)" rule: live.cases) auto
    from sub_inv_update [OF assms(1) i 2(1), of "sh\<lparr>sh_status := SUB_CANCELLED\<rparr>" "sub_calls s" "sub_thr s i"] this ok(2)
    show ?thesis by (simp add: 2(3))
  qed (use assms(1) in simp)
qed

lemma sub_inv_free:
  assumes "sub_inv s" "notify_free s i = Some s'"
  shows "sub_inv s'"
proof -
  obtain h where h: "sub_thr s i = Some (h, Finished)" "s' = s\<lparr>sub_thr := (sub_thr s)(i := None)\<rparr>"
    using assms(2) by (auto simp: notify_free_def split: option.splits nphase.splits)
  note D = sub_invD [OF assms(1)]
  have ni: "j \<noteq> i" if "(j, k) \<in> set (pend s)" for j k using D(7) [OF that] h(1) by (auto simp: sub_ok_def)
  have "sub_ok s' j k" if "(j, k) \<in> set (pend s)" for j k
    using D(7) [OF that] ni [OF that] by (simp add: sub_ok_def h(2))
  moreover have "j < sub_serial s \<and> (ph = Finished \<or> (j, k) \<in> set (pend s))"
    if "((sub_thr s)(i := None)) j = Some (k, ph)" for j k ph
    using that D(9) [of j k ph] by (auto split: if_splits)
  ultimately show ?thesis
    using D(1-6,8,10-12) unfolding h(2) by (intro sub_invI) (simp_all del: set_concat set_append distinct_append)
qed

lemma sub_inv_fini:
  assumes "sub_inv s" "pending_sub s \<le> 0"
  shows "sub_inv (free_done_list s)"
proof -
  note D = sub_invD [OF assms(1)]
  have p: "pend s = []" using D(6) assms(2) by simp
  have f: "fold (\<lambda>n m. m(snd n := None)) ns m = (\<lambda>h. if h \<in> snd ` set ns then None else m h)" for ns m
    by (induction ns arbitrary: m) (auto simp: fun_eq_iff)
  have "sh_mem s h = None" if "h \<notin> snd ` set (done_list s)" for h
    using D(12) that unfolding p by (cases "sh_mem s h") auto
  then have "dom (\<lambda>h. if h \<in> snd ` set (done_list s) then None else sh_mem s h) \<subseteq> {}" by auto
  then show ?thesis
    using D(1,2,6,9-11) p unfolding free_done_list_def f
    by (intro sub_invI) (simp_all add: p del: set_concat concat_eq_Nil_conv)
qed

lemma dspaces_sub_shape:
  assumes "dspaces_sub lret fwd self odsc0 buf req0 ures h c s vn ver es nd l u = Some (p, inp, c', s')"
  shows "s' = s \<or> (\<exists>sh. sh_status sh = SUB_WAIT \<and> sh_id sh = sub_serial s \<and>
      s' = register_client_sub (s\<lparr>pending_sub := pending_sub s + 1, sub_serial := sub_serial s + 1,
         sh_mem := (sh_mem s)(h \<mapsto> sh)\<rparr>) (sub_serial s) h)"
proof (cases "\<not> listener_init c \<and> lret \<noteq> dspaces_SUCCESS")
  case True
  then show ?thesis using assms by (simp add: dspaces_sub_def)
next
  case False
  show ?thesis
    using assms unfolding dspaces_sub_def if_not_P [OF False] Let_def bind_eq_Some_conv
    by (auto intro!: disjI2 exI split: if_split_asm)
qed

lemma sub_inv_subscribe:
  assumes "sub_inv s" "sh_mem s h = None"
    and "dspaces_sub lret fwd self odsc0 buf req0 ures h c s vn ver es nd l u = Some (p, inp, c', s')"
  shows "sub_inv s'"
proof -
  consider "s' = s" | sh where "sh_status sh = SUB_WAIT" "sh_id sh = sub_serial s"
      "s' = register_client_sub (s\<lparr>pending_sub := pending_sub s + 1, sub_serial := sub_serial s + 1,
         sh_mem := (sh_mem s)(h \<mapsto> sh)\<rparr>) (sub_serial s) h"
    using dspaces_sub_shape [OF assms(3)] by blast
  then show ?thesis
  proof cases
    case 2
    note D = sub_invD [OF assms(1)]
    let ?i = "sub_serial s" and ?k = "sub_serial s mod SUB_HASH_SIZE"
    have ms: "mset (pend s') = add_mset (?i, h) (mset (pend s))"
      using mset_concat_update [of ?k "sub_lists s" "sub_lists s ! ?k @ [(?i, h)]"] D(1)
      by (simp add: 2(3) register_client_sub_def SUB_HASH_SIZE_def Let_def)
    have sel: "done_list s' = done_list s" "sub_serial s' = Suc ?i" "pending_sub s' = pending_sub s + 1"
      "sh_mem s' = (sh_mem s)(h \<mapsto> sh)" "sub_thr s' = sub_thr s" "sub_calls s' = sub_calls s"
      by (simp_all add: 2(3) register_client_sub_def Let_def)
    have set: "set (pend s') = insert (?i, h) (set (pend s))" using ms by (metis set_mset_add_mset_insert set_mset_mset)
    have all: "mset (pend s' @ done_list s') = mset ((?i, h) # pend s @ done_list s)" by (simp add: ms sel)
    have new: "h \<notin> snd ` set (pend s @ done_list s)"
    proof
      assume "h \<in> snd ` set (pend s @ done_list s)"
      then obtain i where "(i, h) \<in> set (pend s) \<or> (i, h) \<in> set (done_list s)" by force
      then show False using D(7) [of i h] D(8) [of i h] assms(2) by (auto simp: sub_ok_def)
    qed
    have thr: "sub_thr s ?i = None" using D(9) [of ?i] by (cases "sub_thr s ?i") auto
    show ?thesis
    proof (rule sub_invI)
      show "length (sub_lists s') = SUB_HASH_SIZE" using D(1) by (simp add: 2(3) register_client_sub_def Let_def)
      show "keyed (\<lambda>n. fst n mod SUB_HASH_SIZE) (sub_lists s')"
      proof -
        have "fst x mod SUB_HASH_SIZE = ?k" if "x \<in> set (sub_lists s ! ?k @ [(?i, h)])" for x
          using D(1,2) that by (auto simp: keyed_def SUB_HASH_SIZE_def)
        then have "keyed (\<lambda>n. fst n mod SUB_HASH_SIZE) ((sub_lists s)[?k := sub_lists s ! ?k @ [(?i, h)]])"
          by (rule keyed_update [OF D(2)])
        then show ?thesis unfolding 2(3) register_client_sub_def Let_def by simp
      qed
      show "distinct (map fst (pend s' @ done_list s'))"
      proof -
        have "?i \<notin> fst ` set (pend s @ done_list s)" using D(5) by (metis imageE less_irrefl)
        then show ?thesis unfolding distinct_map_mset [OF all] using D(3) by (simp add: image_Un)
      qed
      show "distinct (map snd (pend s' @ done_list s'))"
        unfolding distinct_map_mset [OF all] using D(4) new by (simp add: image_Un)
      show "fst n < sub_serial s'" if "n \<in> set (pend s' @ done_list s')" for n
        using that D(5) [of n] set sel(1,2) by (auto simp del: set_concat)
      show "pending_sub s' = int (length (pend s'))" using D(6) arg_cong [OF ms, of size] sel(3) by simp
      show "sub_ok s' j k" if "(j, k) \<in> set (pend s')" for j k
      proof (cases "(j, k) = (?i, h)")
        case True
        then show ?thesis using 2(1,2) thr D(11) [of ?i] by (simp add: sub_ok_def sel)
      next
        case False
        then have m: "(j, k) \<in> set (pend s)" using that unfolding set by blast
        then have "k \<noteq> h" using new by force
        then show ?thesis using D(7) [OF m] by (simp add: sub_ok_def sel)
      qed
      show "map_option sh_status (sh_mem s' k) = Some SUB_DONE" if "(j, k) \<in> set (done_list s')" for j k
      proof -
        have "(j, k) \<in> set (done_list s)" using that by (simp add: sel)
        moreover from this have "k \<noteq> h" using new by force
        ultimately show ?thesis using D(8) [of j k] by (simp add: sel)
      qed
      show "j < sub_serial s' \<and> (ph = Finished \<or> (j, k) \<in> set (pend s'))" if "sub_thr s' j = Some (k, ph)" for j k ph
        using that D(9) [of j k ph] unfolding sel set by (auto simp del: set_concat)
      show "calls s' j \<le> 1" for j using D(10) by (simp add: sel)
      show "calls s' j = 0" if "sub_serial s' \<le> j" for j using D(11) [of j] that by (simp add: sel)
      show "dom (sh_mem s') \<subseteq> snd ` set (pend s' @ done_list s')"
        using D(12) unfolding set_append set sel by (auto simp del: set_concat)
    qed
  qed (use assms(1) in simp)
qed

lemma sub_inv_finish:
  assumes "sub_inv s" "notify_finish s i = Some s'"
  shows "sub_inv s'"
proof -
  note D = sub_invD [OF assms(1)]
  obtain h where thr: "sub_thr s i = Some (h, Called)"
    using assms(2) by (auto simp: notify_finish_def split: option.splits nphase.splits)
  obtain sh where sh: "(i, h) \<in> set (pend s)" "sh_mem s h = Some sh" "live (sh_status sh) (Some Called) (calls s i)"
    using thread_ok [OF assms(1) thr] by auto
  let ?k = "i mod SUB_HASH_SIZE"
  have k: "?k < length (sub_lists s)" using D(1) by (simp add: SUB_HASH_SIZE_def)
  have "(i, h) \<in> set (sub_lists s ! ?k)" using keyed_in_concat [OF D(2), of "(i, h)"] sh(1) by simp
  then obtain n ns where tn: "take_node i (sub_lists s ! ?k) = Some (n, ns)"
    using take_node_None [of i "sub_lists s ! ?k"] by (cases "take_node i (sub_lists s ! ?k)") force+
  have n: "fst n = i" "mset (sub_lists s ! ?k) = add_mset n (mset ns)" using take_node_Some [OF tn] by auto
  then have "n \<in> set (sub_lists s ! ?k)" "set ns \<subseteq> set (sub_lists s ! ?k)"
    by (metis set_mset_mset union_single_eq_member add_mset_add_single) (metis n(2) set_mset_add_mset_insert set_mset_mset subset_insertI)
  then have "n \<in> set (pend s)" and ns: "set ns \<subseteq> set (sub_lists s ! ?k)" using k by auto
  then have nh: "n = (i, h)" using node_unique [OF assms(1) sh(1), of "fst n" "snd n"] n(1) by (cases n) auto
  have s': "s' = s\<lparr>pending_sub := pending_sub s - 1, sub_lists := (sub_lists s)[?k := ns], done_list := (i, h) # done_list s,
      sh_mem := (sh_mem s)(h \<mapsto> sh\<lparr>sh_status := SUB_DONE\<rparr>), sub_thr := (sub_thr s)(i \<mapsto> (h, Finished))\<rparr>"
    using assms(2) thr sh(2) tn nh by (simp add: notify_finish_def dspaces_move_sub_def set_status_def)
  have ms: "mset (pend s) = add_mset (i, h) (mset (pend s'))"
    using mset_concat_update [OF k, of ns] n(2) nh by (simp add: s')
  have set: "set (pend s) = insert (i, h) (set (pend s'))" using ms by (metis set_mset_add_mset_insert set_mset_mset)
  have all: "mset (pend s' @ done_list s') = mset (pend s @ done_list s)" by (simp add: ms) (simp add: s')
  then have aset: "set (pend s' @ done_list s') = set (pend s @ done_list s)" by (metis set_mset_mset)
  have d: "distinct (map fst (pend s'))" "i \<notin> fst ` set (pend s')"
  proof -
    have "distinct (map fst ((i, h) # pend s'))"
      using D(3) distinct_map_mset [of "pend s" "(i, h) # pend s'" fst] ms by simp
    then show "distinct (map fst (pend s'))" "i \<notin> fst ` set (pend s')" by auto
  qed
  show ?thesis
  proof (rule sub_invI)
    show "length (sub_lists s') = SUB_HASH_SIZE" using D(1) by (simp add: s')
    show "keyed (\<lambda>n. fst n mod SUB_HASH_SIZE) (sub_lists s')"
    proof -
      have "fst x mod SUB_HASH_SIZE = ?k" if "x \<in> set ns" for x using D(2) ns k that by (auto simp: keyed_def)
      then show ?thesis unfolding s' by (simp add: keyed_update [OF D(2)])
    qed
    show "distinct (map fst (pend s' @ done_list s'))" "distinct (map snd (pend s' @ done_list s'))"
      unfolding distinct_map_mset [OF all] by (rule D(3), rule D(4))
    show "fst n < sub_serial s'" if "n \<in> set (pend s' @ done_list s')" for n
      using that D(5) unfolding aset by (simp add: s')
    show "pending_sub s' = int (length (pend s'))" using D(6) arg_cong [OF ms, of size] by (simp add: s')
    show "sub_ok s' j k" if "(j, k) \<in> set (pend s')" for j k
    proof -
      have m: "(j, k) \<in> set (pend s)" "j \<noteq> i" using that set d(2) by force+
      then have "k \<noteq> h" using node_unique [OF assms(1) sh(1), of j k] by auto
      then show ?thesis using D(7) [OF m(1)] m(2) by (simp add: sub_ok_def s')
    qed
    show "map_option sh_status (sh_mem s' k) = Some SUB_DONE" if "(j, k) \<in> set (done_list s')" for j k
      using that D(8) [of j k] by (auto simp: s')
    show "j < sub_serial s' \<and> (ph = Finished \<or> (j, k) \<in> set (pend s'))" if "sub_thr s' j = Some (k, ph)" for j k ph
      using that D(9) [of j k ph] D(9) [OF thr] set by (auto simp: s' simp del: set_concat split: if_splits)
    show "calls s' j \<le> 1" for j using D(10) by (simp add: s')
    show "calls s' j = 0" if "sub_serial s' \<le> j" for j using D(11) [of j] that by (simp add: s')
    show "dom (sh_mem s') \<subseteq> snd ` set (pend s' @ done_list s')"
      using D(12) sh(2) unfolding aset by (auto simp: s')
  qed
qed

lemma sub_inv_step: "sub_step s s' \<Longrightarrow> sub_inv s \<Longrightarrow> sub_inv s'"
  by (induction rule: sub_step.induct)
    (blast intro: sub_inv_subscribe handled_inv handler_handled sub_inv_finish sub_inv_free sub_inv_cancel sub_inv_fini)+

lemma sub_steps_inv: "sub_step\<^sup>*\<^sup>* s s' \<Longrightarrow> sub_inv s \<Longrightarrow> sub_inv s'"
  by (induction rule: rtranclp_induct) (auto intro: sub_inv_step)

lemma sub_reach_inv: "sub_reach s \<Longrightarrow> sub_inv s"
  unfolding sub_reach_def using sub_steps_inv sub_inv_init by blast

section \<open>What the interleavings keep\<close>

text \<open>
  C30: in every interleaving \<^verbatim>\<open>pending_sub\<close> is the number of subscriptions whose handler has not finished,
  no two subscriptions share an identifier, no callback is called twice, a registered subscription
  has its handle and never the status \<^verbatim>\<open>DSPACES_SUB_DONE\<close>, and is \<^verbatim>\<open>DSPACES_SUB_RUNNING\<close> only when the
  data have been accepted; those on the list of finished ones are all \<^verbatim>\<open>DSPACES_SUB_DONE\<close>.
\<close>

theorem sub_reach_consistent:
  assumes "sub_reach s"
  shows "pending_sub s = int (length (pend s)) \<and> distinct (map fst (pend s @ done_list s)) \<and> (\<forall>i. calls s i \<le> 1) \<and>
    (\<forall>(i, h)\<in>set (pend s). \<exists>sh. sh_mem s h = Some sh \<and> sh_id sh = i \<and> sh_status sh \<noteq> SUB_DONE \<and>
      (sh_status sh = SUB_RUNNING \<longleftrightarrow> (\<exists>d. sub_thr s i = Some (h, Accepted (Some d))) \<or>
         sub_thr s i = Some (h, Called) \<and> calls s i = 1)) \<and>
    (\<forall>(i, h)\<in>set (done_list s). map_option sh_status (sh_mem s h) = Some SUB_DONE)"
proof -
  note D = sub_invD [OF sub_reach_inv [OF assms]]
  have run: "st \<noteq> SUB_DONE \<and> (st = SUB_RUNNING \<longleftrightarrow> (\<exists>d. t = Some (Accepted (Some d))) \<or> t = Some Called \<and> k = 1)"
    if "live st t k" for st t k
    using that by (cases "(st, t, k)" rule: live.cases) auto
  have "\<exists>sh. sh_mem s h = Some sh \<and> sh_id sh = i \<and> sh_status sh \<noteq> SUB_DONE \<and>
      (sh_status sh = SUB_RUNNING \<longleftrightarrow> (\<exists>d. sub_thr s i = Some (h, Accepted (Some d))) \<or>
         sub_thr s i = Some (h, Called) \<and> calls s i = 1)" if m: "(i, h) \<in> set (pend s)" for i h
  proof -
    obtain sh where sh: "sh_mem s h = Some sh" "sh_id sh = i"
      "live (sh_status sh) (map_option snd (sub_thr s i)) (calls s i)" "\<And>t. sub_thr s i = Some t \<Longrightarrow> fst t = h"
      using D(7) [OF m] by (auto simp: sub_ok_def)
    show ?thesis using sh(1,2,4) run [OF sh(3)] by (cases "sub_thr s i") auto
  qed
  then show ?thesis using D(3,6,8,10) by blast
qed

definition settled :: "nat \<Rightarrow> sub_state \<Rightarrow> bool" where
  "settled i s \<longleftrightarrow> i < sub_serial s \<and> calls s i = 0 \<and>
     (\<forall>h sh. (i, h) \<in> set (pend s) \<longrightarrow> sh_mem s h = Some sh \<longrightarrow> sh_status sh = SUB_CANCELLED \<and>
        (\<forall>odscs. sub_thr s i \<noteq> Some (h, Notified odscs)))"

lemma settled_handled:
  assumes "sub_inv s" "handled s j s'" "settled i s"
  shows "settled i s'"
proof -
  obtain h sh sh' ph cs where
    s': "s' = s\<lparr>sh_mem := (sh_mem s)(h \<mapsto> sh'), sub_thr := (sub_thr s)(j \<mapsto> (h, ph)), sub_calls := cs\<rparr>"
    and m: "(j, h) \<in> set (pend s)" "sh_mem s h = Some sh" "cs \<in> {sub_calls s, j # sub_calls s}"
    and fin: "sh_status sh = SUB_CANCELLED \<Longrightarrow> \<forall>odscs. sub_thr s j \<noteq> Some (h, Notified odscs) \<Longrightarrow>
        sh_status sh' = SUB_CANCELLED \<and> (\<forall>odscs. ph \<noteq> Notified odscs) \<and> cs = sub_calls s"
    using assms(2) unfolding handled_def by blast
  have uniq: "i = j \<longleftrightarrow> k = h" if "(i, k) \<in> set (pend s)" for k
    using node_unique [OF assms(1) m(1), of i k] that by auto
  show ?thesis
  proof (cases "i = j")
    case True
    then have "sh_status sh = SUB_CANCELLED" "\<forall>odscs. sub_thr s j \<noteq> Some (h, Notified odscs)"
      using assms(3) m(1,2) by (auto simp: settled_def)
    from fin [OF this] show ?thesis
      using assms(3) True uniq by (auto simp: settled_def s' simp del: set_concat)
  next
    case False
    then show ?thesis using assms(3) m(3) uniq by (auto simp: settled_def s' simp del: set_concat)
  qed
qed

lemma take_node_subset: "take_node j ns = Some (n, ms) \<Longrightarrow> set ms \<subseteq> set ns \<and> n \<in> set ns \<and> fst n = j"
  by (induction ns arbitrary: ms) (auto split: if_splits)

lemma move_sub_pend:
  assumes "sub_inv s"
  shows "set (pend (dspaces_move_sub (s\<lparr>pending_sub := k\<rparr>) j)) \<subseteq> set (pend s)"
proof (cases "take_node j (sub_lists s ! (j mod SUB_HASH_SIZE))")
  case (Some p)
  obtain n ns where p: "p = (n, ns)" by (cases p)
  have k: "j mod SUB_HASH_SIZE < length (sub_lists s)" using sub_invD(1) [OF assms] by (simp add: SUB_HASH_SIZE_def)
  have "set (concat ((sub_lists s)[j mod SUB_HASH_SIZE := ns])) \<subseteq> set ns \<union> set (pend s)"
    using set_update_subset_insert [of "sub_lists s" "j mod SUB_HASH_SIZE" ns] by auto
  moreover have "set ns \<subseteq> set (pend s)" using take_node_subset [OF Some [unfolded p]] k by force
  ultimately show ?thesis using Some p by (auto simp: dspaces_move_sub_def Let_def simp del: set_concat)
qed (simp add: dspaces_move_sub_def Let_def)

lemma live_not_done [simp]: "\<not> live SUB_DONE t k"
  by (cases "(SUB_DONE, t, k)" rule: live.cases) auto

lemma settled_finish:
  assumes "sub_inv s" "notify_finish s j = Some s'" "settled i s"
  shows "settled i s'"
proof -
  note inv' = sub_inv_finish [OF assms(1,2)]
  obtain h where thr: "sub_thr s j = Some (h, Called)"
    using assms(2) by (auto simp: notify_finish_def split: option.splits nphase.splits)
  obtain sh where sh: "(j, h) \<in> set (pend s)" "sh_mem s h = Some sh" using thread_ok [OF assms(1) thr] by blast
  let ?s = "dspaces_move_sub (s\<lparr>pending_sub := pending_sub s - 1\<rparr>) j"
  have s': "s' = ?s\<lparr>sh_mem := (sh_mem s)(h \<mapsto> sh\<lparr>sh_status := SUB_DONE\<rparr>), sub_thr := (sub_thr s)(j \<mapsto> (h, Finished))\<rparr>"
    using assms(2) thr sh(2)
    by (auto simp: notify_finish_def set_status_def dspaces_move_sub_def Let_def split: option.splits)
  have sel: "sub_serial ?s = sub_serial s" "sub_calls ?s = sub_calls s"
    by (auto simp: dspaces_move_sub_def Let_def split: option.splits)
  have "k \<noteq> h \<and> i \<noteq> j" if "(i, k) \<in> set (pend s')" for k
  proof -
    have "k \<noteq> h" using sub_invD(7) [OF inv' that] by (auto simp: sub_ok_def s')
    moreover have "(i, k) \<in> set (pend s)" using that move_sub_pend [OF assms(1)] by (auto simp: s' simp del: set_concat)
    ultimately show ?thesis using node_unique [OF assms(1) sh(1), of i k] by auto
  qed
  then show ?thesis
    using assms(3) move_sub_pend [OF assms(1), of "pending_sub s - 1" j] sel
    by (auto simp: settled_def s' simp del: set_concat)
qed

lemma settled_step: "sub_step s s' \<Longrightarrow> sub_inv s \<Longrightarrow> settled i s \<Longrightarrow> settled i s'"
proof (induction rule: sub_step.induct)
  case (subscribe lret fwd self odsc0 buf req0 ures h c s vn ver es nd l u p inp c' s')
  have "s' = s \<or> (\<exists>sh. s' = register_client_sub (s\<lparr>pending_sub := pending_sub s + 1, sub_serial := sub_serial s + 1,
      sh_mem := (sh_mem s)(h \<mapsto> sh)\<rparr>) (sub_serial s) h)"
    using dspaces_sub_shape [OF subscribe(1)] by blast
  moreover have "k \<noteq> h" if "(i, k) \<in> set (pend s)" for k
    using sub_invD(7) [OF subscribe(3) that] subscribe(2) by (auto simp: sub_ok_def)
  moreover have "set (pend (register_client_sub s2 (sub_serial s) h)) \<subseteq> insert (sub_serial s, h) (set (pend s))"
    if "sub_lists s2 = sub_lists s" for s2
    using sub_invD(1) [OF subscribe(3)] that
    by (force simp: register_client_sub_def SUB_HASH_SIZE_def Let_def dest: set_update_subset_insert [THEN subsetD])
  ultimately show ?case
    using subscribe(4) by (fastforce simp: settled_def register_client_sub_def Let_def simp del: set_concat)
next
  case (free s j s')
  then obtain h where "s' = s\<lparr>sub_thr := (sub_thr s)(j := None)\<rparr>"
    by (auto simp: notify_free_def split: option.splits nphase.splits)
  with free(3) show ?case by (auto simp: settled_def simp del: set_concat split: if_split_asm)
next
  case (cancel s p r s')
  then show ?case
    by (auto simp: settled_def dspaces_cancel_sub_def set_status_def bind_eq_Some_conv simp del: set_concat
        split: option.splits if_split_asm)
next
  case (fini s)
  then show ?case using sub_invD(6) [OF fini(2)] by (auto simp: settled_def free_done_list_def)
qed (blast intro: settled_handled handler_handled settled_finish)+

text \<open>
  C31: a cancellation that takes effect is final: once a subscription has the status
  \<^verbatim>\<open>DSPACES_SUB_CANCELLED\<close> and no handler stands between reading its status and setting
  \<^verbatim>\<open>DSPACES_SUB_TRANSFER\<close>, its callback is not called in any continuation.
\<close>

theorem cancel_is_final:
  assumes "sub_reach s" "(i, h) \<in> set (pend s)" "map_option sh_status (sh_mem s h) = Some SUB_CANCELLED"
    and "\<forall>odscs. sub_thr s i \<noteq> Some (h, Notified odscs)" "calls s i = 0" "sub_step\<^sup>*\<^sup>* s s'"
  shows "calls s' i = 0"
proof -
  have inv: "sub_inv s" using assms(1) by (rule sub_reach_inv)
  have "settled i s"
    using node_unique [OF inv assms(2)] assms(2-5) sub_invD(5) [OF inv, of "(i, h)"]
    by (fastforce simp: settled_def simp del: set_concat)
  with assms(6) have "sub_inv s' \<and> settled i s'"
    by (induction rule: rtranclp_induct) (auto intro: inv sub_inv_step settled_step)
  then show ?thesis by (simp add: settled_def)
qed

definition ex_env :: "unit get_env" where
  "ex_env = \<lparr>ge_query = \<lparr>m_bulk_create = \<lambda>_. HG_SUCCESS, m_create = \<lambda>_ _. HG_SUCCESS, m_forward = \<lambda>_ _ w. (HG_SUCCESS, w),
       m_get_output = \<lambda>_. (HG_SUCCESS, [])\<rparr>, ge_fetch = \<lambda>_ _. (\<lparr>bo_ret = 0, bo_len = 0\<rparr>, []),
     ge_lz4 = \<lambda>_ _ _. (0, []), ge_junk = \<lambda>_. 0, ge_bbcom = mk_box [] []\<rparr>"

definition ex_req :: dspaces_req where
  "ex_req = \<lparr>rq_var_name = '''', rq_ver = 0, rq_elem_size = 0, rq_ndim = 0, rq_lb = [], rq_ub = [], rq_buf = None, rq_tag = 0\<rparr>"

definition ex_sub :: "nat \<Rightarrow> sub_state \<Rightarrow> (nat option \<times> odsc_gdim_t option \<times> dspaces_client \<times> sub_state) option" where
  "ex_sub h s = dspaces_sub 0 0 ''me'' zero_odsc (replicate OD_MAX_NAME_LEN NUL) ex_req 0 h (ex_client None) s ''v'' 1 1 1 [0] [1]"

definition ex_subbed :: sub_state where
  "ex_subbed = snd (snd (snd (the (ex_sub 7 sub_init))))"

lemma ex_subbed_reach: "sub_reach ex_subbed"
proof -
  have "ex_sub 7 sub_init = Some (Some 7, fst (snd (the (ex_sub 7 sub_init))), fst (snd (snd (the (ex_sub 7 sub_init)))), ex_subbed)"
    unfolding ex_subbed_def
    by (auto simp: ex_sub_def dspaces_sub_def dspaces_SUCCESS_def HG_SUCCESS_def Let_def OD_MAX_NAME_LEN_def fill_odsc_Some ex_client_def)
  from sub_step.subscribe [OF this [unfolded ex_sub_def]] show ?thesis
    unfolding sub_reach_def by (intro r_into_rtranclp) (simp add: sub_init_def)
qed

theorem sub_reach_consistent_witness: "pending_sub ex_subbed = 1 \<and> calls ex_subbed 0 \<le> 1"
proof -
  have "length (pend ex_subbed) = 1" by code_simp
  then show ?thesis using sub_reach_consistent [OF ex_subbed_reach] by simp
qed

definition ex_cancelled :: sub_state where
  "ex_cancelled = snd (the (dspaces_cancel_sub ex_subbed (Some 7)))"

theorem cancel_is_final_witness:
  "(0, 7) \<in> set (pend ex_cancelled) \<and> {s'. sub_step\<^sup>*\<^sup>* ex_cancelled s'} \<subseteq> {s'. calls s' 0 = 0}"
proof -
  have "map_option fst (dspaces_cancel_sub ex_subbed (Some 7)) = Some None" by code_simp
  then have "dspaces_cancel_sub ex_subbed (Some 7) = Some (None, ex_cancelled)"
    by (auto simp: ex_cancelled_def)
  from sub_step.cancel [OF this] ex_subbed_reach have r: "sub_reach ex_cancelled"
    unfolding sub_reach_def by (rule rtranclp.rtrancl_into_rtrancl [rotated])
  have p: "pend ex_cancelled = [(0, 7)]" by code_simp
  have "map_option sh_status (sh_mem ex_cancelled 7) = Some SUB_CANCELLED" "sub_thr ex_cancelled 0 = None" "calls ex_cancelled 0 = 0"
    by code_simp+
  with cancel_is_final [OF r, of 0 7] show ?thesis unfolding p by (simp add: subset_iff)
qed

section \<open>Where it goes wrong\<close>

text \<open>
  The status is set to \<^verbatim>\<open>DSPACES_SUB_TRANSFER\<close> after the mutex was released, so a cancellation in
  between is overwritten: \<^verbatim>\<open>dspaces_cancel_sub\<close> leaves the status \<^verbatim>\<open>DSPACES_SUB_CANCELLED\<close>, and the callback
  of the cancelled subscription is called nevertheless.
\<close>

theorem cancel_is_lost:
  "let cancelled = Option.bind (notify_enter ex_subbed 0 []) (\<lambda>s. map_option snd (dspaces_cancel_sub s (Some 7)))
   in Option.bind cancelled (\<lambda>s. map_option sh_status (sh_mem s 7)) = Some SUB_CANCELLED \<and>
      map_option sub_calls (Option.bind cancelled (\<lambda>s. Option.bind (notify_transfer s 0) (\<lambda>s.
        Option.bind (notify_fetch ex_env () s 0) (\<lambda>s. Option.bind (notify_accept s 0) (\<lambda>s.
          notify_call (\<lambda>_. 0) s 0))))) = Some [0]"
  by code_simp

text \<open>
  C32: \<^verbatim>\<open>dspaces_get_sub\<close> returns exactly when the bucket is empty or the subscription is the first of it.
  Otherwise its loop does not end, with the mutex held: a notification for a subscription that is
  not the oldest pending one of its bucket hangs the handler.
\<close>

theorem dspaces_get_sub_returns_iff:
  "dspaces_get_sub s i = (case sub_lists s ! (i mod SUB_HASH_SIZE) of
     [] \<Rightarrow> Some None | n # _ \<Rightarrow> if fst n = i then Some (Some (snd n)) else None)"
proof (cases "sub_lists s ! (i mod SUB_HASH_SIZE)")
  case Nil
  then show ?thesis by (simp add: dspaces_get_sub_def get_sub_loop.simps)
next
  case (Cons n ns)
  show ?thesis
  proof (cases "fst n = i")
    case True
    then show ?thesis using Cons by (simp add: dspaces_get_sub_def get_sub_loop.simps [of "n # ns"])
  next
    case False
    then have "get_sub_loop (n # ns) i \<noteq> Some r" for r using get_sub_loop_Some [of "n # ns" i r] by auto
    then have "get_sub_loop (n # ns) i = None" by (cases "get_sub_loop (n # ns) i") auto
    with Cons False show ?thesis by (simp add: dspaces_get_sub_def)
  qed
qed

text \<open>
  The last thing a handler does is to read the handle, outside the mutex and after \<^verbatim>\<open>pending_sub\<close> was
  decremented: \<^verbatim>\<open>dspaces_fini\<close> may have freed it by then.
\<close>

theorem fini_frees_handle_in_use:
  "Option.bind (notify_enter ex_cancelled 0 []) (\<lambda>s. Option.bind (notify_accept s 0) (\<lambda>s.
     Option.bind (notify_call (\<lambda>_. 0) s 0) (\<lambda>s. Option.bind (notify_finish s 0) (\<lambda>s.
       Some (pending_sub s, map_option (\<lambda>_. ()) (notify_free s 0), map_option (\<lambda>_. ()) (notify_free (free_done_list s) 0)))))) =
   Some (0, Some (), None)"
  by code_simp

end
