(* ===== verification/CText.thy ===== *)
theory CText
  imports Client
begin

text \<open>
  Text as the C library reads and prints it: \<^verbatim>\<open>isspace\<close>, decimal numbers, and the conversions \<^verbatim>\<open>%d\<close> and \<^verbatim>\<open>%s\<close> of
  \<^verbatim>\<open>printf\<close> and \<^verbatim>\<open>scanf\<close>. A number read is always the number printed, whatever stands behind it.
\<close>

section \<open>Operations\<close>

definition isspace :: "char \<Rightarrow> bool" where
  "isspace c \<longleftrightarrow> c \<in> set [CHR '' '', CHR 0x09, CHR 0x0A, CHR 0x0B, CHR 0x0C, CHR 0x0D]"

definition isdigit :: "char \<Rightarrow> bool" where
  "isdigit c \<longleftrightarrow> 48 \<le> (of_char c :: nat) \<and> (of_char c :: nat) \<le> 57"

definition skip_space :: "string \<Rightarrow> string" where
  "skip_space s = dropWhile isspace s"

fun show_nat :: "nat \<Rightarrow> string" where
  "show_nat n = (if n < 10 then [char_of (48 + n)] else show_nat (n div 10) @ [char_of (48 + n mod 10)])"

declare show_nat.simps [simp del]

definition show_int :: "int \<Rightarrow> string" where
  "show_int i = (if i < 0 then CHR ''-'' # show_nat (nat (- i)) else show_nat (nat i))"

definition read_nat :: "string \<Rightarrow> nat" where
  "read_nat ds = foldl (\<lambda>a c. 10 * a + (of_char c - 48)) 0 ds"

text \<open>\<^verbatim>\<open>strtoll\<close> in base 10 before its range check: the number and the text behind it, if there is a number.\<close>

definition strtol :: "string \<Rightarrow> (int \<times> string) option" where
  "strtol s =
     (let s = skip_space s;
          neg = (s \<noteq> [] \<and> hd s = CHR ''-'');
          s = (if s \<noteq> [] \<and> hd s \<in> {CHR ''-'', CHR ''+''} then tl s else s);
          ds = takeWhile isdigit s
      in if ds = [] then None
         else Some (if neg then - int (read_nat ds) else int (read_nat ds), dropWhile isdigit s))"

text \<open>\<^verbatim>\<open>atoi\<close> and \<^verbatim>\<open>atoll\<close>: 0 without a number; a number out of range has no result.\<close>

definition ato :: "nat \<Rightarrow> string \<Rightarrow> int option" where
  "ato bits s =
     (case strtol s of None \<Rightarrow> Some 0
      | Some (v, _) \<Rightarrow> if - (2 ^ (bits - 1)) \<le> v \<and> v < 2 ^ (bits - 1) then Some v else None)"

definition atoi :: "string \<Rightarrow> int option" where "atoi s = ato 32 s"

definition atoll :: "string \<Rightarrow> int option" where "atoll s = ato 64 s"

text \<open>The conversion \<^verbatim>\<open>%s\<close>: the word, the characters consumed and the rest; it fails at the end of the input.\<close>

definition scan_word :: "string \<Rightarrow> (string \<times> nat \<times> string) option" where
  "scan_word s =
     (let t = skip_space s; w = takeWhile (\<lambda>c. \<not> isspace c) t
      in if w = [] then None else Some (w, length s - length t + length w, drop (length w) t))"

section \<open>Numbers\<close>

lemma char_digit: "d < 10 \<Longrightarrow> of_char (char_of (48 + d) :: char) = (48 + d :: nat)"
  by (simp add: of_char_of)

lemma show_nat_digits: "list_all isdigit (show_nat n) \<and> show_nat n \<noteq> []"
proof (induction n rule: show_nat.induct)
  case (1 n)
  have "isdigit (char_of (48 + d))" if "d < 10" for d :: nat using that by (simp add: isdigit_def char_digit)
  then show ?case using 1 by (subst (1 2) show_nat.simps) simp
qed

lemma read_show: "read_nat (show_nat n) = n"
proof (induction n rule: show_nat.induct)
  case (1 n)
  have c: "of_char (char_of (48 + n mod 10) :: char) = (48 + n mod 10 :: nat)" by (intro char_digit) simp
  show ?case
  proof (cases "n < 10")
    case True
    then show ?thesis by (subst show_nat.simps) (simp add: read_nat_def char_digit)
  next
    case False
    then have "read_nat (show_nat n) = 10 * read_nat (show_nat (n div 10)) + n mod 10"
      by (subst show_nat.simps) (simp add: read_nat_def c)
    then show ?thesis using 1 False by simp
  qed
qed

lemma isdigit_props: "isdigit c \<Longrightarrow> \<not> isspace c \<and> c \<noteq> CHR ''-'' \<and> c \<noteq> CHR ''+''"
  by (auto simp: isdigit_def isspace_def)

lemma skip_space_pad: "list_all isspace p \<Longrightarrow> s = [] \<or> \<not> isspace (hd s) \<Longrightarrow> skip_space (p @ s) = s"
  by (induction p) (auto simp: skip_space_def dropWhile_eq_self_iff)

lemma strtol_show:
  assumes "list_all isspace p" "rest = [] \<or> \<not> isdigit (hd rest)"
  shows "strtol (p @ show_int i @ rest) = Some (i, rest)"
proof -
  have sp: "takeWhile isdigit (show_nat n @ rest) = show_nat n" "dropWhile isdigit (show_nat n @ rest) = rest" for n
    using show_nat_digits [of n] assms(2) by (auto simp: list_all_iff takeWhile_append dropWhile_append takeWhile_eq_Nil_iff dropWhile_eq_self_iff)
  obtain c cs where c: "show_nat (nat i) @ rest = c # cs" "isdigit c"
    using show_nat_digits [of "nat i"] by (cases "show_nat (nat i)") auto
  have "\<not> isspace (CHR ''-'')" by (simp add: isspace_def)
  then have k: "skip_space (p @ show_int i @ rest) = show_int i @ rest"
    using c isdigit_props [OF c(2)] by (intro skip_space_pad [OF assms(1)]) (auto simp: show_int_def)
  show ?thesis
  proof (cases "i < 0")
    case True
    then show ?thesis
      unfolding strtol_def k Let_def using sp [of "nat (- i)"] show_nat_digits [of "nat (- i)"] by (simp add: show_int_def read_show)
  next
    case False
    then have "show_int i @ rest = show_nat (nat i) @ rest" by (simp add: show_int_def)
    moreover have "hd (show_nat (nat i) @ rest) \<notin> {CHR ''-'', CHR ''+''}" using c isdigit_props by auto
    ultimately show ?thesis
      unfolding strtol_def k Let_def using sp [of "nat i"] show_nat_digits [of "nat i"] False by (simp add: read_show)
  qed
qed

lemma ato_show:
  assumes "list_all isspace p" "rest = [] \<or> \<not> isdigit (hd rest)" "- (2 ^ (bits - 1)) \<le> i" "i < 2 ^ (bits - 1)"
  shows "ato bits (p @ show_int i @ rest) = Some i"
  using assms(3,4) by (simp add: ato_def strtol_show [OF assms(1,2)])

section \<open>Words\<close>

definition word_text :: "string \<Rightarrow> bool" where
  "word_text w \<longleftrightarrow> w \<noteq> [] \<and> list_all (\<lambda>c. \<not> isspace c \<and> c \<noteq> NUL) w"

lemma scan_word_text:
  assumes "word_text w" "list_all isspace p" "rest = [] \<or> isspace (hd rest)"
  shows "scan_word (p @ w @ rest) = Some (w, length p + length w, rest)"
proof -
  have w: "w \<noteq> []" "\<forall>c\<in>set w. \<not> isspace c" using assms(1) by (auto simp: word_text_def list_all_iff)
  have k: "skip_space (p @ w @ rest) = w @ rest" using w by (intro skip_space_pad [OF assms(2)]) (auto simp: neq_Nil_conv)
  have "takeWhile (\<lambda>c. \<not> isspace c) (w @ rest) = w"
    using w(2) assms(3) by (auto simp: takeWhile_append takeWhile_eq_Nil_iff)
  then show ?thesis using w(1) by (simp add: scan_word_def k Let_def)
qed

end
