(* ===== verification/Boot.thy ===== *)
theory Boot
  imports ClientIO CText Server
begin

text \<open>
  How servers and clients find each other. The servers gather their node names and addresses with MPI, and rank
  0 writes them to \<^verbatim>\<open>conf.ds\<close> (\<^verbatim>\<open>write_conf\<close>); a client waits for that file, reads it, attaches to a server and asks
  it for the space (\<^verbatim>\<open>dspaces_init\<close> and its variants). MPI, Margo, the file system and \<^verbatim>\<open>gethostname\<close> are
  parameters. The build without \<^verbatim>\<open>HAVE_DRC\<close> is modelled.
\<close>

section \<open>Servers\<close>








section \<open>Reading the file\<close>

datatype fopen_result = Opened string | Enoent | Fopen_error

text \<open>\<open>attempts i\<close> is the result of the attempt \<open>i\<close> to open the file; without the file the loop does not end.\<close>

partial_function (option) open_conf_ds :: "(nat \<Rightarrow> fopen_result) \<Rightarrow> nat \<Rightarrow> string option option" where
  "open_conf_ds attempts i =
     (case attempts i of Opened file \<Rightarrow> Some (Some file) | Fopen_error \<Rightarrow> Some None
      | Enoent \<Rightarrow> open_conf_ds attempts (i + 1))"

declare open_conf_ds.simps [code]

text \<open>
  One line: the two words are measured, two buffers allocated, and the words read again into them. A word that
  is missing leaves a buffer uninitialised, and one that is longer than its measure would be written past the buffer.
\<close>

definition read_entry :: "string \<Rightarrow> (string \<times> string \<times> string) option" where
  "read_entry s =
     Option.bind (scan_word s) (\<lambda>(_, size1, s1).
     Option.bind (scan_word s1) (\<lambda>(_, size2, _).
     Option.bind (scan_word s) (\<lambda>(node, _, s1).
     Option.bind (scan_word s1) (\<lambda>(addr, _, s2).
       if length node < size1 + 1 \<and> length addr < size2 + 1 then Some (node, addr, skip_space s2) else None))))"

fun read_entries :: "nat \<Rightarrow> string \<Rightarrow> (string list \<times> string list \<times> string) option" where
  "read_entries 0 s = Some ([], [], s)"
| "read_entries (Suc n) s =
     Option.bind (read_entry s) (\<lambda>(node, addr, s).
       map_option (\<lambda>(names, addrs, s). (node # names, addr # addrs, s)) (read_entries n s))"

text \<open>Without a number the count keeps its value 0. A negative count, which no server writes, has no result.\<close>

definition read_stream :: "string \<Rightarrow> (nat \<times> string list \<times> string list \<times> string) option" where
  "read_stream s =
     (let (size, s) = (case strtol s of None \<Rightarrow> (0, skip_space s) | Some (v, s) \<Rightarrow> (v, skip_space s))
      in if 0 \<le> size \<and> size < 2147483648
         then Option.bind (read_entries (nat size) s) (\<lambda>(names, addrs, s).
                Option.bind (scan_word s) (\<lambda>(w, size1, _).
                  if length w < size1 + 1 then Some (nat size, names, addrs, w) else None))
         else None)"


text \<open>
  With MPI, rank 0 reads the whole file and broadcasts it with its length, an \<^verbatim>\<open>int\<close>; every rank parses its copy.
  \<open>root\<close> are the attempts of rank 0.
\<close>

definition read_conf_mpi :: "(nat \<Rightarrow> fopen_result) \<Rightarrow> dspaces_client \<Rightarrow> (int \<times> dspaces_client \<times> string option) option" where
  "read_conf_mpi root c =
     Option.bind (open_conf_ds root 0) (\<lambda>fd. case fd of
         None \<Rightarrow> Some (-1, c, None)
       | Some file \<Rightarrow>
           if length file < 2147483648
           then map_option (\<lambda>(n, names, addrs, listen).
                  (0, c\<lparr>size_sp := n, server_address := addrs, node_names := names\<rparr>, Some listen)) (read_stream file)
           else None)"

definition arg_conf :: "string \<Rightarrow> dspaces_client \<Rightarrow> dspaces_client" where
  "arg_conf conn_str c = c\<lparr>size_sp := 1, server_address := [conn_str], node_names := [''remote'']\<rparr>"

section \<open>Starting a client\<close>

text \<open>The client structure is zeroed; \<^verbatim>\<open>dcg_alloc\<close> sets version 1 as default.\<close>

definition dcg_alloc :: dc_gspace where
  "dcg_alloc =
     \<lparr>dcg_info = \<lparr>si_num_dims = 0, si_num_space_srv = 0,
        si_ss_domain = \<lparr>num_dims = 0, lb = replicate BBOX_MAX_NDIM 0, ub = replicate BBOX_MAX_NDIM 0\<rparr>, si_max_versions = 0,
        si_hash_version = hash_version_v1, si_default_gdim = \<lparr>gd_ndim = 0, gd_sizes = replicate BBOX_MAX_NDIM 0\<rparr>\<rparr>,
      dcg_gdim_list = init_gdim_list, dcg_ls = ls_alloc 0\<rparr>"

definition dspaces_ERR_ALLOCATION :: int where "dspaces_ERR_ALLOCATION = -1"

text \<open>The result ends with the value of \<^verbatim>\<open>g_is_initialized\<close> after the call.\<close>

definition dspaces_init_internal :: "bool \<Rightarrow> nat \<Rightarrow> int \<times> dspaces_client option \<times> bool" where
  "dspaces_init_internal g_is_initialized rk =
     (if g_is_initialized then (dspaces_ERR_ALLOCATION, None, g_is_initialized)
      else (dspaces_SUCCESS, Some \<lparr>dcg = dcg_alloc, server_address = [], node_names = [], my_node_name = [], my_server = 0,
              size_sp = 0, rank = rk, local_put_count = 0, f_final = False, listener_init = False, nspace = None\<rparr>, True))"

text \<open>The number of versions comes from the server; a negative one has no result.\<close>

definition dspaces_post_init :: "string \<Rightarrow> dspaces_client \<Rightarrow> dspaces_client option" where
  "dspaces_post_init hostname c =
     Option.bind (choose_server hostname c) (\<lambda>c.
       if 0 \<le> si_max_versions (dcg_info (dcg c))
       then Some (c\<lparr>dcg := (dcg c)\<lparr>dcg_ls := ls_alloc (nat (si_max_versions (dcg_info (dcg c))))\<rparr>,
              local_put_count := 0, f_final := False\<rparr>)
       else None)"

text \<open>What the parts of the start-up get from outside; \<open>be_margo_ret\<close> is the return code of \<^verbatim>\<open>dspaces_init_margo\<close>.\<close>

record boot_env =
  be_initialized :: bool
  be_attempts :: "nat \<Rightarrow> fopen_result"
  be_margo_ret :: int
  be_hostname :: string

text \<open>
  The last part all variants share: a server is chosen, \<open>info\<close> gets its space information, and the client is finished.
  With MPI the information comes from rank 0: \<open>bc\<close> is what it broadcasts to the other ranks, its return code and the
  information.
\<close>

definition attach :: "boot_env \<Rightarrow> (dspaces_client \<Rightarrow> 'w \<Rightarrow> (int \<times> dspaces_client \<times> 'w) option) \<Rightarrow> dspaces_client \<Rightarrow> 'w \<Rightarrow>
    (int \<times> dspaces_client option \<times> bool \<times> 'w) option" where
  "attach e info c w =
     Option.bind (choose_server (be_hostname e) c) (\<lambda>c.
     Option.bind (info c w) (\<lambda>(ret, c, w).
       if ret \<noteq> dspaces_SUCCESS then Some (ret, None, True, w)
       else map_option (\<lambda>c. (dspaces_SUCCESS, Some c, True, w)) (dspaces_post_init (be_hostname e) c)))"

definition init_ss_info_mpi :: "(unit, ss_info_hdr, 'w) margo \<Rightarrow> int \<times> ss_info_hdr \<Rightarrow> dspaces_client \<Rightarrow> 'w \<Rightarrow>
    (int \<times> dspaces_client \<times> 'w) option" where
  "init_ss_info_mpi m bc c w =
     (if rank c = 0 then init_ss_info m c w
      else Some (fst bc, if fst bc = dspaces_SUCCESS then install_ss_info c (snd bc) else c, w))"


text \<open>Here \<open>be_attempts\<close> are the attempts of rank 0.\<close>

definition dspaces_init_mpi :: "boot_env \<Rightarrow> (unit, ss_info_hdr, 'w) margo \<Rightarrow> int \<times> ss_info_hdr \<Rightarrow> nat \<Rightarrow> 'w \<Rightarrow>
    (int \<times> dspaces_client option \<times> bool \<times> 'w) option" where
  "dspaces_init_mpi e m bc rk w =
     (case dspaces_init_internal (be_initialized e) rk of
        (ret, None, g) \<Rightarrow> Some (ret, None, g, w)
      | (ret, Some c, g) \<Rightarrow> Option.bind (read_conf_mpi (be_attempts e) c) (\<lambda>(ret, c, listen).
          if ret \<noteq> 0 then Some (ret, None, g, w)
          else if be_margo_ret e \<noteq> 0 then Some (be_margo_ret e, None, g, w)
          else attach e (init_ss_info_mpi m bc) c w))"

text \<open>\<^verbatim>\<open>dspaces_init_wan\<close> drops the return code of \<^verbatim>\<open>dspaces_init_margo\<close> and goes on; its MPI variant tests it.\<close>

definition dspaces_init_wan :: "boot_env \<Rightarrow> (unit, ss_info_hdr, 'w) margo \<Rightarrow> string \<Rightarrow> nat \<Rightarrow> 'w \<Rightarrow> (int \<times> dspaces_client option \<times> bool \<times> 'w) option" where
  "dspaces_init_wan e m conn_str rk w =
     (case dspaces_init_internal (be_initialized e) rk of
        (ret, None, g) \<Rightarrow> Some (ret, None, g, w)
      | (ret, Some c, g) \<Rightarrow> attach e (init_ss_info m) (arg_conf conn_str c) w)"

definition dspaces_init_wan_mpi :: "boot_env \<Rightarrow> (unit, ss_info_hdr, 'w) margo \<Rightarrow> int \<times> ss_info_hdr \<Rightarrow> string \<Rightarrow> nat \<Rightarrow> 'w \<Rightarrow>
    (int \<times> dspaces_client option \<times> bool \<times> 'w) option" where
  "dspaces_init_wan_mpi e m bc conn_str rk w =
     (case dspaces_init_internal (be_initialized e) rk of
        (ret, None, g) \<Rightarrow> Some (ret, None, g, w)
      | (ret, Some c, g) \<Rightarrow>
          if be_margo_ret e \<noteq> 0 then Some (be_margo_ret e, None, g, w)
          else attach e (init_ss_info_mpi m bc) (arg_conf conn_str c) w)"

section \<open>The gathered strings\<close>



section \<open>The file is read back\<close>







section \<open>Servers and clients meet\<close>









end
