(* ===== verification/Conf.thy ===== *)
theory Conf
  imports CText Util Modules Server
begin

text \<open>
  The configuration of a server (\<^verbatim>\<open>src/dspaces-conf.c\<close>): files of \<^verbatim>\<open>key = value\<close> lines and TOML files, and how
  \<^verbatim>\<open>dsg_alloc\<close> chooses between them. The parser of TOML files, vendored in \<^verbatim>\<open>src/toml.c\<close>, is a parameter; its tables
  and the functions that look things up in them are modelled. The build without \<^verbatim>\<open>DSPACES_HAVE_CURL\<close> is modelled.
\<close>

section \<open>The configuration\<close>

record remote =
  rm_name :: string
  rm_addr :: string

text \<open>\<open>rc_remotes\<close> is the array of remotes, \<open>None\<close> for a null pointer.\<close>

record raw_conf =
  rc_ndim :: int
  rc_dims :: coord
  rc_max_versions :: int
  rc_hash_version :: int
  rc_num_apps :: int
  rc_remotes :: "remote list option"
  rc_nremote :: int
  rc_mods :: "dspaces_module list"

section \<open>Files of lines\<close>

definition eat_spaces :: "string \<Rightarrow> string" where
  "eat_spaces line = filter (\<lambda>c. \<not> blank c) line"

datatype conf_opt = Ndim | Dims | Max_versions | Hash_version | Num_apps

fun opt_name :: "conf_opt \<Rightarrow> string" where
  "opt_name Ndim = ''ndim''"
| "opt_name Dims = ''dims''"
| "opt_name Max_versions = ''max_versions''"
| "opt_name Hash_version = ''hash_version''"
| "opt_name Num_apps = ''num_apps''"

definition conf_options :: "conf_opt list" where
  "conf_options = [Ndim, Dims, Max_versions, Hash_version, Num_apps]"

text \<open>\<^verbatim>\<open>*(int *)options[i].pval = v\<close>; the entry for the dimensions is never written that way.\<close>

fun set_opt :: "conf_opt \<Rightarrow> int \<Rightarrow> raw_conf \<Rightarrow> raw_conf" where
  "set_opt Ndim v conf = conf\<lparr>rc_ndim := v\<rparr>"
| "set_opt Dims v conf = conf"
| "set_opt Max_versions v conf = conf\<lparr>rc_max_versions := v\<rparr>"
| "set_opt Hash_version v conf = conf\<lparr>rc_hash_version := v\<rparr>"
| "set_opt Num_apps v conf = conf\<lparr>rc_num_apps := v\<rparr>"

text \<open>The tokens \<^verbatim>\<open>strtok(t, ",")\<close> returns one after the other.\<close>

function strtok_all :: "string \<Rightarrow> string list" where
  "strtok_all s =
     (let w = takeWhile (\<lambda>c. c \<noteq> CHR '','') s; rest = dropWhile (\<lambda>c. c \<noteq> CHR '','') s
      in (if w = [] then [] else [w]) @ (case rest of [] \<Rightarrow> [] | _ # r \<Rightarrow> strtok_all r))"
  by auto
termination
proof (relation "measure length")
  fix s w rest r :: string and d :: char
  assume "rest = dropWhile (\<lambda>c. c \<noteq> CHR '','') s" "rest = d # r"
  then have "length r < length (dropWhile (\<lambda>c. c \<noteq> CHR '','') s)" by (metis length_Cons lessI)
  also have "\<dots> \<le> length s" by (rule length_dropWhile_le)
  finally show "(r, s) \<in> measure length" by simp
qed simp

declare strtok_all.simps [simp del]

text \<open>
  Every coordinate is stored at once; one behind the last place of the array has no result. The number of
  coordinates is compared with \<^verbatim>\<open>ndim\<close> after all of them are stored.
\<close>

fun store_dims :: "nat \<Rightarrow> string list \<Rightarrow> coord \<Rightarrow> coord option" where
  "store_dims ix [] c = Some c"
| "store_dims ix (crd # crds) c =
     Option.bind (atoll crd) (\<lambda>v.
       if ix < length c then store_dims (ix + 1) crds (c[ix := of_int v]) else None)"

definition set_dims :: "string \<Rightarrow> raw_conf \<Rightarrow> (int + raw_conf) option" where
  "set_dims t conf =
     (let crds = strtok_all t in
      map_option (\<lambda>c. if int (length crds) \<noteq> rc_ndim conf then Inl (- EINVAL) else Inr (conf\<lparr>rc_dims := c\<rparr>))
        (store_dims 0 crds (rc_dims conf)))"

fun opt_loop :: "string \<Rightarrow> string \<Rightarrow> conf_opt list \<Rightarrow> raw_conf \<Rightarrow> (int + raw_conf) option" where
  "opt_loop key t [] conf = Some (Inr conf)"
| "opt_loop key t (opt # opts) conf =
     (if key = opt_name Dims then set_dims t conf
      else if key = opt_name opt then map_option (\<lambda>v. Inr (set_opt opt v conf)) (atoi t)
      else opt_loop key t opts conf)"

definition parse_line :: "string \<Rightarrow> raw_conf \<Rightarrow> (int + raw_conf) option" where
  "parse_line line conf =
     (if line \<noteq> [] \<and> hd line = CHR ''#'' then Some (Inr conf)
      else case dropWhile (\<lambda>c. c \<noteq> CHR ''='') line of
        [] \<Rightarrow> Some (if eat_spaces line = [] then Inr conf else Inl (- EINVAL))
      | _ # t \<Rightarrow> opt_loop (eat_spaces (takeWhile (\<lambda>c. c \<noteq> CHR ''='') line)) t conf_options conf)"

text \<open>\<^verbatim>\<open>fgets\<close> with a buffer of 1024 bytes: up to 1023 characters, to the end of the line at most.\<close>

definition fgets_one :: "string \<Rightarrow> string" where
  "fgets_one s =
     (let w = takeWhile (\<lambda>c. c \<noteq> CHR 0x0A) s
      in take 1023 (if length w < length s then w @ [CHR 0x0A] else w))"

function parse_lines :: "string \<Rightarrow> raw_conf \<Rightarrow> (int + raw_conf) option" where
  "parse_lines s conf =
     (if s = [] then Some (Inr conf)
      else case parse_line (c_string (fgets_one s)) conf of
        Some (Inr conf) \<Rightarrow> parse_lines (drop (length (fgets_one s)) s) conf
      | r \<Rightarrow> r)"
  by auto
termination
proof (relation "measure (\<lambda>(s, _). length s)")
  fix s :: string and x y and conf c :: raw_conf
  assume "s \<noteq> []"
  then have "0 < length (fgets_one s)" by (cases s) (auto simp: fgets_one_def Let_def)
  with \<open>s \<noteq> []\<close> show "((drop (length (fgets_one s)) s, c), s, conf) \<in> measure (\<lambda>(s, _). length s)" by simp
qed simp

declare parse_lines.simps [simp del]

text \<open>The file system gives the text of a file or an error number.\<close>

type_synonym files = "string \<Rightarrow> int + string"

definition parse_conf :: "files \<Rightarrow> string \<Rightarrow> raw_conf \<Rightarrow> (int + raw_conf) option" where
  "parse_conf fs fname conf = (case fs fname of Inl errno \<Rightarrow> Some (Inl (- errno)) | Inr s \<Rightarrow> parse_lines s conf)"

section \<open>TOML tables\<close>

text \<open>
  A table holds key values (the value is raw text), arrays and tables, in this order. The entries of an array are
  raw values or something else. \<open>rtoi\<close> and \<open>rtos\<close> convert a raw value: \<open>rtoi\<close> says whether it is an integer, and what
  it stores in any case.
\<close>

datatype toml_item = Raw string | Nested

datatype toml_tab = Tab (kvals: "(string \<times> string) list") (arrs: "(string \<times> toml_item list) list") (tabs: "(string \<times> toml_tab) list")

record toml_conv =
  rtoi :: "string \<Rightarrow> bool \<times> int"
  rtos :: "string \<Rightarrow> string option"

definition toml_key_in :: "toml_tab \<Rightarrow> nat \<Rightarrow> string option" where
  "toml_key_in tab keyidx =
     (let names = map fst (kvals tab) @ map fst (arrs tab) @ map fst (tabs tab)
      in if keyidx < length names then Some (names ! keyidx) else None)"

definition toml_key_exists :: "toml_tab \<Rightarrow> string \<Rightarrow> bool" where
  "toml_key_exists tab key \<longleftrightarrow>
     list_ex (\<lambda>(k, _). key = k) (kvals tab) \<or> list_ex (\<lambda>(k, _). key = k) (arrs tab) \<or> list_ex (\<lambda>(k, _). key = k) (tabs tab)"

definition toml_raw_in :: "toml_tab \<Rightarrow> string \<Rightarrow> string option" where
  "toml_raw_in tab key = map_of (kvals tab) key"

definition toml_array_in :: "toml_tab \<Rightarrow> string \<Rightarrow> toml_item list option" where
  "toml_array_in tab key = map_of (arrs tab) key"

definition toml_table_in :: "toml_tab \<Rightarrow> string \<Rightarrow> toml_tab option" where
  "toml_table_in tab key = map_of (tabs tab) key"

definition toml_raw_at :: "toml_item list \<Rightarrow> nat \<Rightarrow> string option" where
  "toml_raw_at arr ix = (if ix < length arr then case arr ! ix of Raw s \<Rightarrow> Some s | Nested \<Rightarrow> None else None)"

text \<open>A datum is zeroed first: a missing or unreadable string is a null pointer, a missing integer is 0.\<close>

definition toml_int :: "toml_conv \<Rightarrow> string option \<Rightarrow> bool \<times> int" where
  "toml_int cv raw = (case raw of None \<Rightarrow> (False, 0) | Some s \<Rightarrow> rtoi cv s)"

definition toml_string :: "toml_conv \<Rightarrow> string option \<Rightarrow> string option" where
  "toml_string cv raw = (case raw of None \<Rightarrow> None | Some s \<Rightarrow> rtos cv s)"

section \<open>Reading TOML files\<close>

text \<open>An \<^verbatim>\<open>int64_t\<close> stored in an \<^verbatim>\<open>int\<close>.\<close>

definition to_int :: "int \<Rightarrow> int" where
  "to_int v = sint (of_int v :: u32)"

definition get_toml_int :: "toml_conv \<Rightarrow> toml_tab \<Rightarrow> string \<Rightarrow> int option" where
  "get_toml_int cv t key = (if toml_key_exists t key then Some (to_int (snd (toml_int cv (toml_raw_in t key)))) else None)"

text \<open>\<^verbatim>\<open>strdup\<close> of a null pointer has no result: the outer option. The inner one tells whether the key exists.\<close>

definition get_toml_str :: "toml_conv \<Rightarrow> toml_tab \<Rightarrow> string \<Rightarrow> string option option" where
  "get_toml_str cv t key =
     (if toml_key_exists t key then map_option Some (toml_string cv (toml_raw_in t key)) else Some None)"

fun get_vals :: "toml_conv \<Rightarrow> toml_item list \<Rightarrow> nat \<Rightarrow> nat \<Rightarrow> coord \<Rightarrow> (nat \<times> coord) option" where
  "get_vals cv arr 0 i vals = Some (i, vals)"
| "get_vals cv arr (Suc k) i vals =
     (let (ok, v) = toml_int cv (toml_raw_at arr i)
      in if \<not> ok then Some (i, vals)
         else if i < length vals then get_vals cv arr k (i + 1) (vals[i := of_int v]) else None)"

text \<open>The loop ends at the first entry that is no integer, at the end of the array at the latest.\<close>

definition get_toml_arr_ui64 :: "toml_conv \<Rightarrow> toml_tab \<Rightarrow> string \<Rightarrow> coord \<Rightarrow> (nat \<times> coord) option" where
  "get_toml_arr_ui64 cv t key vals =
     (case toml_array_in t key of None \<Rightarrow> Some (0, vals) | Some arr \<Rightarrow> get_vals cv arr (Suc (length arr)) 0 vals)"

text \<open>
  The remote \<open>i\<close> takes its name from entry \<open>i\<close> of the whole table. Without an \<^verbatim>\<open>ip\<close> the pointer is uninitialised, or
  that of the remote before, which is freed. \<open>port\<close> keeps its value from one remote to the next.
\<close>

definition parse_remote :: "toml_conv \<Rightarrow> toml_tab \<Rightarrow> nat \<Rightarrow> int option \<Rightarrow> (remote \<times> int option) option" where
  "parse_remote cv remotes i port =
     Option.bind (toml_key_in remotes i) (\<lambda>nme.
     Option.bind (toml_table_in remotes nme) (\<lambda>rem.
     Option.bind (get_toml_str cv rem ''ip'') (\<lambda>ip.
     Option.bind ip (\<lambda>ip.
       let port = (case get_toml_int cv rem ''port'' of Some v \<Rightarrow> Some v | None \<Rightarrow> port)
       in Option.bind port (\<lambda>p.
            let addr = ip @ '':'' @ show_int p
            in if length addr < 128 then Some (\<lparr>rm_name = nme, rm_addr = addr\<rparr>, port) else None)))))"

fun remotes_loop :: "toml_conv \<Rightarrow> toml_tab \<Rightarrow> nat list \<Rightarrow> int option \<Rightarrow> remote list option" where
  "remotes_loop cv remotes [] port = Some []"
| "remotes_loop cv remotes (i # is) port =
     Option.bind (parse_remote cv remotes i port) (\<lambda>(r, port). map_option ((#) r) (remotes_loop cv remotes is port))"

definition parse_remotes_table :: "toml_conv \<Rightarrow> toml_tab \<Rightarrow> raw_conf \<Rightarrow> raw_conf option" where
  "parse_remotes_table cv remotes conf =
     (let n = length (tabs remotes)
      in map_option (\<lambda>rs. conf\<lparr>rc_remotes := Some rs, rc_nremote := int n\<rparr>) (remotes_loop cv remotes [0..<n] None))"

text \<open>
  A directory of the storage table. Without a path, or without a list of files, the members are
  uninitialised (\<open>None\<close>). The directories are built and then dropped: nothing links them into the configuration.
\<close>

definition DS_FILE_ALL :: int where "DS_FILE_ALL = 0"

record ds_dir =
  dr_name :: string
  dr_path :: "string option"
  dr_cont_type :: "int option"
  dr_files :: "string list option"

fun dir_files :: "toml_conv \<Rightarrow> toml_item list \<Rightarrow> nat list \<Rightarrow> string list \<Rightarrow> string list option" where
  "dir_files cv arr [] files = Some files"
| "dir_files cv arr (j # js) files =
     Option.bind (toml_string cv (toml_raw_at arr j)) (\<lambda>s. dir_files cv arr js (s # files))"

definition parse_dir :: "toml_conv \<Rightarrow> toml_tab \<Rightarrow> nat \<Rightarrow> ds_dir option" where
  "parse_dir cv storage i =
     Option.bind (toml_key_in storage i) (\<lambda>nme.
     Option.bind (toml_table_in storage nme) (\<lambda>conf_dir.
     Option.bind (get_toml_str cv conf_dir ''directory'') (\<lambda>path.
       let dir = \<lparr>dr_name = nme, dr_path = path, dr_cont_type = None, dr_files = None\<rparr>
       in case toml_array_in conf_dir ''files'' of
            Some arr \<Rightarrow> map_option (\<lambda>fs. dir\<lparr>dr_files := Some fs\<rparr>) (dir_files cv arr [0..<length arr] [])
          | None \<Rightarrow>
              (case toml_string cv (toml_raw_in conf_dir ''files'') of
                 Some s \<Rightarrow> Some (if s = ''all'' then dir\<lparr>dr_cont_type := Some DS_FILE_ALL\<rparr> else dir)
               | None \<Rightarrow> Some dir))))"

fun parse_dirs :: "toml_conv \<Rightarrow> toml_tab \<Rightarrow> nat list \<Rightarrow> ds_dir list option" where
  "parse_dirs cv storage [] = Some []"
| "parse_dirs cv storage (i # is) =
     Option.bind (parse_dir cv storage i) (\<lambda>d. map_option ((#) d) (parse_dirs cv storage is))"

definition parse_storage_table :: "toml_conv \<Rightarrow> toml_tab \<Rightarrow> raw_conf \<Rightarrow> raw_conf option" where
  "parse_storage_table cv storage conf = map_option (\<lambda>dirs. conf) (parse_dirs cv storage [0..<length (tabs storage)])"

text \<open>\<^verbatim>\<open>strrchr(s, '.')\<close>: the text before the last point, and the text from it on.\<close>

definition last_point :: "string \<Rightarrow> (string \<times> string) option" where
  "last_point s =
     (let ext = takeWhile (\<lambda>c. c \<noteq> CHR ''.'') (rev s)
      in if length ext < length s
         then Some (take (length s - length ext - 1) s, CHR ''.'' # rev ext) else None)"

text \<open>
  A file without a point is compared through a null pointer. A file that is not Python drops the module, and
  without a file the module is linked with type 0, that of Python.
\<close>

definition parse_module :: "toml_conv \<Rightarrow> toml_tab \<Rightarrow> nat \<Rightarrow> dspaces_module option option" where
  "parse_module cv modules i =
     Option.bind (toml_key_in modules i) (\<lambda>nme.
     Option.bind (toml_table_in modules nme) (\<lambda>tab.
     Option.bind (get_toml_str cv tab ''namespace'') (\<lambda>ns.
     Option.bind (get_toml_str cv tab ''url'') (\<lambda>url.
     Option.bind (get_toml_str cv tab ''file'') (\<lambda>fl.
       let m = \<lparr>dm_name = nme, dm_namespace = ns, dm_file = None, dm_type = 0, dm_loaded = False\<rparr>
       in case fl of
            None \<Rightarrow> Some (Some m)
          | Some f \<Rightarrow> Option.bind (last_point f) (\<lambda>(base, ext).
              if ext = ''.py'' then Some (Some (m\<lparr>dm_type := DSPACES_MOD_PY, dm_file := Some base\<rparr>)) else Some None))))))"

fun modules_loop :: "toml_conv \<Rightarrow> toml_tab \<Rightarrow> nat list \<Rightarrow> dspaces_module list \<Rightarrow> dspaces_module list option" where
  "modules_loop cv modules [] mods = Some mods"
| "modules_loop cv modules (i # is) mods =
     Option.bind (parse_module cv modules i) (\<lambda>m.
       modules_loop cv modules is (case m of Some m \<Rightarrow> m # mods | None \<Rightarrow> mods))"

definition parse_modules_table :: "toml_conv \<Rightarrow> toml_tab \<Rightarrow> raw_conf \<Rightarrow> raw_conf option" where
  "parse_modules_table cv modules conf =
     map_option (\<lambda>ms. conf\<lparr>rc_mods := ms\<rparr>) (modules_loop cv modules [0..<length (tabs modules)] (rc_mods conf))"

definition opt_table :: "toml_tab option \<Rightarrow> (toml_tab \<Rightarrow> raw_conf \<Rightarrow> raw_conf option) \<Rightarrow> raw_conf \<Rightarrow> raw_conf option" where
  "opt_table t f conf = (case t of None \<Rightarrow> Some conf | Some t \<Rightarrow> f t conf)"

text \<open>
  \<open>toml_parse\<close> is \<^verbatim>\<open>toml_parse_file\<close>. After a failure the code tests \<^verbatim>\<open>conf\<close> instead of the table, and looks the
  server up in a null pointer.
\<close>

definition parse_conf_toml :: "files \<Rightarrow> (string \<Rightarrow> toml_tab option) \<Rightarrow> toml_conv \<Rightarrow> string \<Rightarrow> raw_conf \<Rightarrow> (int + raw_conf) option" where
  "parse_conf_toml fs toml_parse cv fname conf =
     (case fs fname of
        Inl errno \<Rightarrow> Some (Inl (- errno))
      | Inr s \<Rightarrow> Option.bind (toml_parse s) (\<lambda>toml_conf.
          case toml_table_in toml_conf ''server'' of
            None \<Rightarrow> Some (Inl (-1))
          | Some server \<Rightarrow>
              Option.bind (get_toml_arr_ui64 cv server ''dims'' (rc_dims conf)) (\<lambda>(ndim, dims).
                let set = (\<lambda>key opt conf. case get_toml_int cv server key of Some v \<Rightarrow> set_opt opt v conf | None \<Rightarrow> conf);
                    conf = conf\<lparr>rc_ndim := int ndim, rc_dims := dims\<rparr>;
                    conf = set ''max_versions'' Max_versions conf;
                    conf = set ''hash_version'' Hash_version conf;
                    conf = set ''num_apps'' Num_apps conf
                in Option.bind (opt_table (toml_table_in toml_conf ''remotes'') (parse_remotes_table cv) conf) (\<lambda>conf.
                   Option.bind (opt_table (toml_table_in toml_conf ''storage'') (parse_storage_table cv) conf) (\<lambda>conf.
                     map_option Inr (opt_table (toml_table_in toml_conf ''modules'') (parse_modules_table cv) conf))))))"

section \<open>The configuration of a server\<close>

definition default_conf :: raw_conf where
  "default_conf = \<lparr>rc_ndim = 0, rc_dims = replicate BBOX_MAX_NDIM 0, rc_max_versions = 255, rc_hash_version = 0,
     rc_num_apps = -1, rc_remotes = None, rc_nremote = 0, rc_mods = []\<rparr>"

definition dsg_conf :: "files \<Rightarrow> (string \<Rightarrow> toml_tab option) \<Rightarrow> toml_conv \<Rightarrow> string \<Rightarrow> (int + raw_conf) option" where
  "dsg_conf fs toml_parse cv conf_name =
     (case last_point conf_name of
        None \<Rightarrow> parse_conf fs conf_name default_conf
      | Some (_, ext) \<Rightarrow>
          if ext \<noteq> ''.toml'' then parse_conf fs conf_name default_conf
          else parse_conf_toml fs toml_parse cv conf_name default_conf)"

fun hash_of_int :: "int \<Rightarrow> sspace_hash_version option" where
  "hash_of_int v =
     (if v = 0 then Some hash_version_auto else if v = 1 then Some hash_version_v0
      else if v = 2 then Some hash_version_v1 else if v = 3 then Some hash_version_v2 else None)"

text \<open>
  \<^verbatim>\<open>dsg_alloc\<close> from the name of the file: the number of dimensions is checked first, then the hash version. A negative
  number of versions gives tables of negative size, which have no result.
\<close>

definition dsg_start :: "files \<Rightarrow> (string \<Rightarrow> toml_tab option) \<Rightarrow> toml_conv \<Rightarrow> string \<Rightarrow> intv \<Rightarrow> coord \<Rightarrow> nat \<Rightarrow> nat \<Rightarrow> string \<Rightarrow>
    (string \<times> string) option \<Rightarrow> (int + server) option" where
  "dsg_start fs toml_parse cv conf_name ijunk gd0 rk n addr ips =
     Option.bind (dsg_conf fs toml_parse cv conf_name) (\<lambda>r. case r of
         Inl err \<Rightarrow> Some (Inl err)
       | Inr conf \<Rightarrow>
           if rc_ndim conf > int BBOX_MAX_NDIM then Some (Inl (- EINVAL))
           else case hash_of_int (rc_hash_version conf) of
             None \<Rightarrow> Some (Inl (- EINVAL))
           | Some hv \<Rightarrow>
               if rc_max_versions conf < 0 then None
               else dsg_alloc ijunk gd0
                 \<lparr>cf_ndim = rc_ndim conf, cf_dims = rc_dims conf, cf_max_versions = nat (rc_max_versions conf),
                  cf_hash_version = hv, cf_num_apps = rc_num_apps conf\<rparr> rk n addr ips
                 (map_option length (rc_remotes conf)))"

section \<open>Files are read as they are written\<close>

text \<open>
  What a file of lines may contain: comments, integer options and the dimensions, with blanks around the keys and
  in front of the values. \<open>item_step\<close> is the meaning of a line.
\<close>

datatype conf_item =
    Comment string
  | Set_int conf_opt string string string int
  | Set_dims string string string "u64 list"

fun commas :: "u64 list \<Rightarrow> string" where
  "commas [] = []"
| "commas [d] = show_int (uint d)"
| "commas (d # ds) = show_int (uint d) @ CHR '','' # commas ds"

fun render :: "conf_item \<Rightarrow> string" where
  "render (Comment s) = CHR ''#'' # s @ [CHR 0x0A]"
| "render (Set_int opt p q r v) = p @ opt_name opt @ q @ CHR ''='' # r @ show_int v @ [CHR 0x0A]"
| "render (Set_dims p q r ds) = p @ opt_name Dims @ q @ CHR ''='' # r @ commas ds @ [CHR 0x0A]"

definition pad :: "string \<Rightarrow> bool" where
  "pad p \<longleftrightarrow> list_all (\<lambda>c. c = CHR '' '' \<or> c = CHR 0x09) p"

fun item_fine :: "conf_item \<Rightarrow> bool" where
  "item_fine (Comment s) \<longleftrightarrow> list_all (\<lambda>c. c \<noteq> CHR 0x0A \<and> c \<noteq> NUL) s"
| "item_fine (Set_int opt p q r v) \<longleftrightarrow> opt \<noteq> Dims \<and> pad p \<and> pad q \<and> pad r \<and> -2147483648 \<le> v \<and> v < 2147483648"
| "item_fine (Set_dims p q r ds) \<longleftrightarrow> pad p \<and> pad q \<and> pad r \<and> ds \<noteq> [] \<and> length ds \<le> 10 \<and> list_all (\<lambda>d. uint d < 9223372036854775808) ds"

definition line_fine :: "conf_item \<Rightarrow> bool" where
  "line_fine i \<longleftrightarrow> item_fine i \<and> length (render i) < 1024"

fun item_step :: "conf_item \<Rightarrow> raw_conf \<Rightarrow> int + raw_conf" where
  "item_step (Comment s) conf = Inr conf"
| "item_step (Set_int opt p q r v) conf = Inr (set_opt opt v conf)"
| "item_step (Set_dims p q r ds) conf =
     (if int (length ds) = rc_ndim conf then Inr (conf\<lparr>rc_dims := ds @ drop (length ds) (rc_dims conf)\<rparr>) else Inl (- EINVAL))"

fun run_items :: "conf_item list \<Rightarrow> raw_conf \<Rightarrow> int + raw_conf" where
  "run_items [] conf = Inr conf"
| "run_items (i # is) conf = (case item_step i conf of Inl e \<Rightarrow> Inl e | Inr conf \<Rightarrow> run_items is conf)"

subsection \<open>Characters\<close>

lemma pad_props: "pad p \<Longrightarrow> list_all isspace p \<and> filter (\<lambda>c. \<not> blank c) p = [] \<and> CHR ''='' \<notin> set p \<and> CHR '','' \<notin> set p
    \<and> CHR 0x0A \<notin> set p \<and> NUL \<notin> set p \<and> CHR ''#'' \<notin> set p"
proof -
  assume p: "pad p"
  have sp: "isspace (CHR '' '')" "isspace (CHR 0x09)" "blank (CHR '' '')" "blank (CHR 0x09)" by code_simp+
  have c: "isspace c \<and> blank c \<and> c \<noteq> CHR ''='' \<and> c \<noteq> CHR '','' \<and> c \<noteq> CHR 0x0A \<and> c \<noteq> NUL \<and> c \<noteq> CHR ''#''"
    if "c \<in> set p" for c
  proof -
    have "c = CHR '' '' \<or> c = CHR 0x09" using p that unfolding pad_def list_all_iff by (rule bspec)
    then show ?thesis using sp by (elim disjE) simp_all
  qed
  show ?thesis unfolding list_all_iff filter_empty_conv using c by blast
qed

lemma show_int_chars: "c \<in> set (show_int i) \<Longrightarrow> c = CHR ''-'' \<or> isdigit c"
  using show_nat_digits [of "nat i"] show_nat_digits [of "nat (- i)"] by (auto simp: show_int_def list_all_iff split: if_splits)

lemma plain_chars: "\<not> isdigit (CHR '','')" "\<not> isdigit (CHR 0x0A)" "\<not> isdigit NUL" "\<not> isdigit (CHR ''='')"
  by (simp_all add: isdigit_def)

lemma show_int_plain: "CHR '','' \<notin> set (show_int i)" "CHR 0x0A \<notin> set (show_int i)" "NUL \<notin> set (show_int i)" "show_int i \<noteq> []"
proof -
  show "CHR '','' \<notin> set (show_int i)" using show_int_chars [of "CHR '',''" i] plain_chars by auto
  show "CHR 0x0A \<notin> set (show_int i)" using show_int_chars [of "CHR 0x0A" i] plain_chars by auto
  show "NUL \<notin> set (show_int i)" using show_int_chars [of NUL i] plain_chars by auto
  show "show_int i \<noteq> []" using show_nat_digits [of "nat i"] by (simp add: show_int_def)
qed

lemma opt_name_chars: "filter (\<lambda>c. \<not> blank c) (opt_name opt) = opt_name opt" "CHR ''='' \<notin> set (opt_name opt)"
    "CHR 0x0A \<notin> set (opt_name opt)" "NUL \<notin> set (opt_name opt)" "CHR ''#'' \<notin> set (opt_name opt)" "opt_name opt \<noteq> []"
  by (cases opt; simp add: blank_def)+

lemma opt_name_inj: "opt_name a = opt_name b \<longleftrightarrow> a = b"
  by (cases a; cases b) simp_all

lemma commas_plain: "CHR 0x0A \<notin> set (commas ds)" "NUL \<notin> set (commas ds)"
  by (induction ds rule: commas.induct) (simp_all add: show_int_plain)

subsection \<open>Lines\<close>

lemma split_line:
  assumes "pad p" "pad q"
  shows "parse_line (p @ opt_name opt @ q @ CHR ''='' # t) conf = opt_loop (opt_name opt) t conf_options conf"
proof -
  let ?k = "p @ opt_name opt @ q"
  note pp = pad_props [OF assms(1)] and pq = pad_props [OF assms(2)] and o = opt_name_chars [of opt]
  have k: "CHR ''='' \<notin> set ?k" using pp pq o by simp
  have tw: "takeWhile (\<lambda>c. c \<noteq> CHR ''='') (?k @ CHR ''='' # t) = ?k" "dropWhile (\<lambda>c. c \<noteq> CHR ''='') (?k @ CHR ''='' # t) = CHR ''='' # t"
    using k by (auto simp: takeWhile_append dropWhile_append)
  have "hd (?k @ CHR ''='' # t) \<in> set ?k" using o(6) by (cases ?k) auto
  then have "hd (?k @ CHR ''='' # t) \<noteq> CHR ''#''" using pp pq o by auto
  moreover have "eat_spaces ?k = opt_name opt" using pp pq o by (simp add: eat_spaces_def)
  ultimately show ?thesis using tw by (simp add: parse_line_def)
qed

lemma loop_int: "opt \<noteq> Dims \<Longrightarrow> opt_loop (opt_name opt) t conf_options conf = map_option (\<lambda>v. Inr (set_opt opt v conf)) (atoi t)"
  by (cases opt) (simp_all add: conf_options_def)

lemma loop_dims: "opt_loop (opt_name Dims) t conf_options conf = set_dims t conf"
  by (simp add: conf_options_def)

lemma strtok_last: "w \<noteq> [] \<Longrightarrow> CHR '','' \<notin> set w \<Longrightarrow> strtok_all w = [w]"
proof -
  assume "w \<noteq> []" "CHR '','' \<notin> set w"
  moreover from this have tw: "takeWhile (\<lambda>c. c \<noteq> CHR '','') w = w" "dropWhile (\<lambda>c. c \<noteq> CHR '','') w = []"
    by (auto simp: takeWhile_eq_all_conv dropWhile_eq_Nil_conv)
  ultimately show ?thesis unfolding strtok_all.simps [of w] tw by (simp add: Let_def)
qed

lemma strtok_comma: "w \<noteq> [] \<Longrightarrow> CHR '','' \<notin> set w \<Longrightarrow> strtok_all (w @ CHR '','' # s) = w # strtok_all s"
  by (subst strtok_all.simps) (auto simp: takeWhile_append dropWhile_append)

lemma store_tokens:
  assumes "ds \<noteq> []" "list_all (\<lambda>d. uint d < 9223372036854775808) ds" "list_all isspace r" "CHR '','' \<notin> set r"
    and "ix + length ds \<le> length c"
  shows "length (strtok_all (r @ commas ds @ [CHR 0x0A])) = length ds \<and>
    store_dims ix (strtok_all (r @ commas ds @ [CHR 0x0A])) c = Some (take ix c @ ds @ drop (ix + length ds) c)"
  using assms
proof (induction ds arbitrary: r ix c rule: commas.induct)
  case (2 d)
  let ?w = "r @ show_int (uint d) @ [CHR 0x0A]"
  have t: "strtok_all ?w = [?w]" using 2 by (intro strtok_last) (auto simp: show_int_plain)
  have "- (2 ^ (64 - 1)) \<le> (0 :: int)" by simp
  also have "0 \<le> uint d" by simp
  finally have d: "- (2 ^ (64 - 1)) \<le> uint d" .
  have "atoll ?w = Some (uint d)" unfolding atoll_def using 2 d by (intro ato_show) (simp_all add: plain_chars)
  then show ?case using 2 by (simp add: t upd_conv_take_nth_drop)
next
  case (3 d e ds)
  let ?w = "r @ show_int (uint d)" and ?rest = "commas (e # ds) @ [CHR 0x0A]"
  have t: "strtok_all (?w @ CHR '','' # ?rest) = ?w # strtok_all ?rest" using 3 by (intro strtok_comma) (auto simp: show_int_plain)
  have "- (2 ^ (64 - 1)) \<le> (0 :: int)" by simp
  also have "0 \<le> uint d" by simp
  finally have d: "- (2 ^ (64 - 1)) \<le> uint d" .
  have a: "atoll ?w = Some (uint d)"
    unfolding atoll_def using 3 d ato_show [of r "[]" 64 "uint d"] by simp
  have "length (strtok_all ([] @ ?rest)) = length (e # ds) \<and>
      store_dims (ix + 1) (strtok_all ([] @ ?rest)) (c[ix := d]) = Some (take (ix + 1) (c[ix := d]) @ (e # ds) @ drop (ix + 1 + length (e # ds)) (c[ix := d]))"
    using 3 by (intro "3.IH") auto
  then show ?case using 3 a t by (simp add: take_Suc_conv_app_nth)
qed simp

lemma parse_render:
  assumes "item_fine i" "length (rc_dims conf) = 10"
  shows "parse_line (render i) conf = Some (item_step i conf)"
proof (cases i)
  case (Comment s)
  then show ?thesis by (simp add: parse_line_def)
next
  case (Set_int opt p q r v)
  then have f: "opt \<noteq> Dims" "pad p" "pad q" "pad r" "-2147483648 \<le> v" "v < 2147483648" using assms(1) by simp_all
  have "atoi (r @ show_int v @ [CHR 0x0A]) = Some v"
    unfolding atoi_def using f pad_props [OF f(4)] by (intro ato_show) (simp_all add: plain_chars)
  then show ?thesis using split_line [OF f(2,3)] loop_int [OF f(1)] by (simp add: Set_int)
next
  case (Set_dims p q r ds)
  then have f: "pad p" "pad q" "pad r" "ds \<noteq> []" "length ds \<le> 10" "list_all (\<lambda>d. uint d < 9223372036854775808) ds"
    using assms(1) by simp_all
  have "length (strtok_all (r @ commas ds @ [CHR 0x0A])) = length ds \<and>
      store_dims 0 (strtok_all (r @ commas ds @ [CHR 0x0A])) (rc_dims conf) = Some (take 0 (rc_dims conf) @ ds @ drop (0 + length ds) (rc_dims conf))"
    using f pad_props [OF f(3)] assms(2) by (intro store_tokens) simp_all
  then show ?thesis using split_line [OF f(1,2), of Dims] loop_dims by (simp add: Set_dims set_dims_def Let_def)
qed

lemma render_line:
  assumes "item_fine i"
  shows "\<exists>w. render i = w @ [CHR 0x0A] \<and> CHR 0x0A \<notin> set w \<and> NUL \<notin> set w"
proof (cases i)
  case (Comment s)
  then show ?thesis using assms by (intro exI [of _ "CHR ''#'' # s"]) (auto simp: list_all_iff)
next
  case (Set_int opt p q r v)
  then show ?thesis using assms pad_props [of p] pad_props [of q] pad_props [of r]
    by (intro exI [of _ "p @ opt_name opt @ q @ CHR ''='' # r @ show_int v"]) (simp add: opt_name_chars show_int_plain)
next
  case (Set_dims p q r ds)
  then show ?thesis using assms pad_props [of p] pad_props [of q] pad_props [of r]
    by (intro exI [of _ "p @ opt_name Dims @ q @ CHR ''='' # r @ commas ds"]) (simp add: commas_plain)
qed

lemma set_opt_dims: "rc_dims (set_opt opt v conf) = rc_dims conf"
  by (cases opt) simp_all

lemma step_dims: "item_fine i \<Longrightarrow> item_step i conf = Inr conf' \<Longrightarrow> length (rc_dims conf) = 10 \<Longrightarrow> length (rc_dims conf') = 10"
  by (cases i) (auto simp: set_opt_dims split: if_splits)

lemma parse_lines_render:
  "list_all line_fine items \<Longrightarrow> length (rc_dims conf) = 10 \<Longrightarrow> parse_lines (concat (map render items)) conf = Some (run_items items conf)"
proof (induction items arbitrary: conf)
  case Nil
  show ?case by (subst parse_lines.simps) simp
next
  case (Cons i items)
  let ?rest = "concat (map render items)"
  have f: "item_fine i" "length (render i) < 1024" using Cons.prems(1) by (simp_all add: line_fine_def)
  obtain w where w: "render i = w @ [CHR 0x0A]" "CHR 0x0A \<notin> set w" "NUL \<notin> set w" using render_line [OF f(1)] by blast
  have "takeWhile (\<lambda>c. c \<noteq> CHR 0x0A) (render i @ ?rest) = w" using w by (auto simp: takeWhile_append)
  then have g: "fgets_one (render i @ ?rest) = render i" using f(2) w(1) by (simp add: fgets_one_def Let_def)
  have c: "c_string (render i) = render i" using w by (auto simp: c_string_def takeWhile_append)
  have ne: "render i @ ?rest \<noteq> []" using w(1) by simp
  have dr: "drop (length (render i)) (render i @ ?rest) = ?rest" by simp
  have "parse_lines (render i @ ?rest) conf = (case item_step i conf of Inl e \<Rightarrow> Some (Inl e) | Inr conf \<Rightarrow> parse_lines ?rest conf)"
    unfolding parse_lines.simps [of "render i @ ?rest"] g c dr parse_render [OF f(1) Cons.prems(2)]
    using ne by (cases "item_step i conf") (simp_all only: if_False option.case sum.case)
  also have "\<dots> = Some (run_items (i # items) conf)"
    using Cons.IH Cons.prems step_dims [OF f(1)] by (auto split: sum.split)
  finally show ?case by simp
qed

section \<open>Properties\<close>

text \<open>
  A configuration file of lines means what it says. A file of comments, integer options and dimensions, with any
  blanks around the keys and before the values, lines of at most 1023 characters and numbers in the range of their type,
  is read completely, and every line has exactly its effect on the defaults: the option of its name gets its number, the
  dimensions replace the first coordinates if their number is the \<^verbatim>\<open>ndim\<close> set before, and are an error
  (\<^verbatim>\<open>-EINVAL\<close>) that ends the reading otherwise.
\<close>

theorem conf_text_read_back:
  assumes "fs conf_name = Inr (concat (map render items))" "list_all line_fine items"
    and "case last_point conf_name of None \<Rightarrow> True | Some (_, ext) \<Rightarrow> ext \<noteq> ''.toml''"
  shows "dsg_conf fs toml_parse cv conf_name = Some (run_items items default_conf)"
proof -
  have "length (rc_dims default_conf) = 10" by (simp add: default_conf_def BBOX_MAX_NDIM_def)
  from parse_lines_render [OF assms(2) this] assms(1,3) show ?thesis
    by (auto simp: dsg_conf_def parse_conf_def split: option.splits)
qed

definition ex_items :: "conf_item list" where
  "ex_items = [Comment '' the domain'', Set_int Ndim [] '' '' '' '' 2, Set_dims '' '' [] [] [128, 64],
     Set_int Max_versions [] [] [CHR 0x09] 10, Set_int Num_apps [] [] [] (-1)]"

theorem conf_text_read_back_witness:
  "dsg_conf (\<lambda>_. Inr (concat (map render ex_items))) (\<lambda>_. None) \<lparr>rtoi = \<lambda>_. (False, 0), rtos = \<lambda>_. None\<rparr> ''dataspaces.conf'' =
     Some (Inr (default_conf\<lparr>rc_ndim := 2, rc_dims := [128, 64, 0, 0, 0, 0, 0, 0, 0, 0], rc_max_versions := 10\<rparr>))"
proof -
  have fine: "list_all line_fine ex_items" by code_simp
  have nme: "case last_point ''dataspaces.conf'' of None \<Rightarrow> True | Some (_, ext) \<Rightarrow> ext \<noteq> ''.toml''" by code_simp
  have "run_items ex_items default_conf =
      Inr (default_conf\<lparr>rc_ndim := 2, rc_dims := [128, 64, 0, 0, 0, 0, 0, 0, 0, 0], rc_max_versions := 10\<rparr>)" by code_simp
  then show ?thesis using conf_text_read_back [OF refl fine nme] by simp
qed

end
