(* ===== verification/Pexec.thy ===== *)
theory Pexec
  imports Server
begin

text \<open>
  Functions in Python that run on the servers (\<^verbatim>\<open>dspaces_pexec\<close>, \<^verbatim>\<open>dspaces_mpexec\<close> and their handlers in
  \<^verbatim>\<open>src/dspaces-server.c\<close>). The client sends a pickled function and descriptors; the server assembles an array for
  every descriptor out of its own store, calls the function, exposes the pickled result, and waits until the client
  has fetched it. The Python interpreter with its module \<^verbatim>\<open>dill\<close>, NumPy and Margo are parameters.
\<close>

section \<open>Arrays\<close>

text \<open>An array of NumPy refers to the buffer of its object; its dimensions are those of the box in reverse order.\<close>

record ndarray =
  nd_tag :: int
  nd_dims :: "int list"
  nd_data :: "byte list"

definition build_ndarray_from_od :: "obj_data \<Rightarrow> ndarray option" where
  "build_ndarray_from_od od =
     (let odsc = obj_desc od; n = ndims (od_bb odsc);
          dims = fold (\<lambda>i ds. ds[n - i - 1 := sint (ub (od_bb odsc) ! i - lb (od_bb odsc) ! i + 1)]) [0..<n] (replicate n 0)
      in map_option (\<lambda>d. \<lparr>nd_tag = od_tag odsc, nd_dims = dims, nd_data = d\<rparr>) (data od))"

text \<open>
  The objects found are copied one after the other: the common part goes into an object of its own and from there
  into the argument. A failed allocation is dereferenced.
\<close>

fun copy_objs :: "sv_env \<Rightarrow> ss_storage \<Rightarrow> obj_descriptor \<Rightarrow> oaddr list \<Rightarrow> obj_data \<Rightarrow> obj_data option" where
  "copy_objs env ls in_odsc [] arg_obj = Some arg_obj"
| "copy_objs env ls in_odsc (a # from_objs) arg_obj =
     (let odsc = the_odsc ls a;
          odsc = odsc\<lparr>od_bb := bbox_intersect (od_bb in_odsc) (od_bb odsc) (od_bb odsc)\<rparr>
      in Option.bind (obj_data_alloc (en_mem env) odsc) (\<lambda>od.
         Option.bind (ssd_copy (en_junk env) od (the_od ls a)) (\<lambda>(od, _).
         Option.bind (ssd_copy (en_junk env) arg_obj od) (\<lambda>(arg_obj, _).
           copy_objs env ls in_odsc from_objs arg_obj))))"

text \<open>The inner option is \<open>None\<close> when the store does not cover the descriptor.\<close>

definition find_arg :: "sv_env \<Rightarrow> server \<Rightarrow> obj_descriptor \<Rightarrow> obj_data option option" where
  "find_arg env sv in_odsc =
     (let (num_obj, from_objs) = ls_find_all (en_junk env) (sv_ls sv) in_odsc
      in if num_obj < 1 then Some None
         else Option.bind (obj_data_alloc (en_mem env) in_odsc) (\<lambda>arg_obj.
              map_option Some (copy_objs env (sv_ls sv) in_odsc from_objs arg_obj)))"

text \<open>\<^verbatim>\<open>mpexec_rpc\<close> first takes over the element size of the first object found, if the request has none.\<close>

definition find_sized_arg :: "sv_env \<Rightarrow> server \<Rightarrow> obj_descriptor \<Rightarrow> obj_data option option" where
  "find_sized_arg env sv in_odsc =
     (let (num_obj, from_objs) = ls_find_all (en_junk env) (sv_ls sv) in_odsc
      in if num_obj < 1 then Some None
         else let in_odsc = (if od_size in_odsc = 0
                then in_odsc\<lparr>od_size := od_size (the_odsc (sv_ls sv) (hd from_objs))\<rparr> else in_odsc)
              in Option.bind (obj_data_alloc (en_mem env) in_odsc) (\<lambda>arg_obj.
                 map_option Some (copy_objs env (sv_ls sv) in_odsc from_objs arg_obj)))"

section \<open>Python\<close>

datatype 'v call_res = Raised | Returned_none | Returned 'v

text \<open>
  The module \<^verbatim>\<open>dill\<close>: whether it can be imported, the callable of some bytes, if they give one, a call, and the
  bytes of a value. A value that cannot be pickled is dereferenced.
\<close>

record ('f, 'v) dill =
  dl_import :: bool
  dl_loads :: "byte list \<Rightarrow> 'f option"
  dl_call :: "'f \<Rightarrow> ndarray list \<Rightarrow> 'v call_res"
  dl_dumps :: "'v \<Rightarrow> byte list option"

section \<open>The handlers\<close>

text \<open>\<open>pi_fn\<close> are the bytes the handle of the function exposes; a null handle exposes nothing.\<close>

record pexec_in =
  pi_odscs :: "obj_descriptor list"
  pi_fn :: "byte list"
  pi_length :: int
  pi_fn_name :: string

record pexec_out =
  po_handle :: "byte list option"
  po_length :: int
  po_mtxp :: u64
  po_condp :: u64

text \<open>
  Return codes of Margo, the addresses of the handler's mutex and condition, and the structure of the answer before
  it is written.
\<close>

record px_env =
  xe_bulk :: int
  xe_xfer :: int
  xe_res_bulk :: int
  xe_mtxp :: u64
  xe_condp :: u64
  xe_out :: pexec_out

text \<open>A handler has answered and ended, or it has answered and waits on its condition.\<close>

datatype pexec_res = Answered pexec_out | Waiting pexec_out

text \<open>
  The function is pulled from the client. Without a function the handle of the transfer is released uninitialised; a
  negative length, as a \<^verbatim>\<open>size_t\<close>, is more than can be allocated.
\<close>

datatype pulled = Pull_failed | Pulled "byte list"

definition pull_fn :: "px_env \<Rightarrow> pexec_in \<Rightarrow> pulled option" where
  "pull_fn X inp =
     (if pi_length inp \<le> 0 then None
      else if xe_bulk X \<noteq> HG_SUCCESS \<or> xe_xfer X \<noteq> HG_SUCCESS \<or> length (pi_fn inp) < nat (pi_length inp) then Some Pull_failed
      else Some (Pulled (take (nat (pi_length inp)) (pi_fn inp))))"

text \<open>
  The result: its bytes with the terminating zero of the string, their number as an \<^verbatim>\<open>int32_t\<close>. The mutex is held
  from before the answer until the handler waits.
\<close>

definition no_result :: "px_env \<Rightarrow> pexec_out" where
  "no_result X = (xe_out X)\<lparr>po_length := 0, po_handle := None\<rparr>"

definition respond_result :: "('f, 'v) dill \<Rightarrow> px_env \<Rightarrow> 'v call_res \<Rightarrow> pexec_res option" where
  "respond_result D X pres =
     (case pres of
        Returned v \<Rightarrow>
          Option.bind (dl_dumps D v) (\<lambda>pres_bytes.
            let res_data = pres_bytes @ [0]; len = int_of_u64 (of_nat (length res_data))
            in if xe_res_bulk X \<noteq> HG_SUCCESS then Some (Answered (no_result X))
               else if len > 0
               then Some (Waiting \<lparr>po_handle = Some res_data, po_length = len, po_mtxp = xe_mtxp X, po_condp = xe_condp X\<rparr>)
               else Some (Answered ((xe_out X)\<lparr>po_length := len, po_handle := None\<rparr>)))
      | _ \<Rightarrow> Some (Answered (no_result X)))"

text \<open>\<^verbatim>\<open>pexec_rpc\<close>. After a failed transfer, import or load the answer is not initialised.\<close>

definition pexec_rpc :: "('f, 'v) dill \<Rightarrow> sv_env \<Rightarrow> (nat \<Rightarrow> int) \<Rightarrow> px_env \<Rightarrow> server \<Rightarrow> pexec_in \<Rightarrow>
    (pexec_res \<times> server \<times> msgs) option" where
  "pexec_rpc D env hret X sv inp =
     (case pi_odscs inp of
        [] \<Rightarrow> None
      | in_odsc # _ \<Rightarrow>
          Option.bind (pull_fn X inp) (\<lambda>fn. case fn of
              Pull_failed \<Rightarrow> Some (Answered (xe_out X), sv, [])
            | Pulled fn \<Rightarrow>
                Option.bind (route_request env hret sv in_odsc (sv_default_gdim sv)) (\<lambda>(_, in_odsc, sv, out).
                Option.bind (find_arg env sv in_odsc) (\<lambda>arg. case arg of
                    None \<Rightarrow> Some (Answered (no_result X), sv, out)
                  | Some arg_obj \<Rightarrow>
                      Option.bind (build_ndarray_from_od arg_obj) (\<lambda>array.
                        if \<not> dl_import D then Some (Answered (xe_out X), sv, out)
                        else case dl_loads D fn of
                          None \<Rightarrow> Some (Answered (xe_out X), sv, out)
                        | Some fnp \<Rightarrow> map_option (\<lambda>r. (r, sv, out)) (respond_result D X (dl_call D fnp [array])))))))"

text \<open>The arguments of \<^verbatim>\<open>mpexec_rpc\<close> in order; the first that is not covered ends the search.\<close>

fun mpexec_args :: "sv_env \<Rightarrow> (nat \<Rightarrow> int) \<Rightarrow> server \<Rightarrow> obj_descriptor list \<Rightarrow> (ndarray list option \<times> server \<times> msgs) option" where
  "mpexec_args env hret sv [] = Some (Some [], sv, [])"
| "mpexec_args env hret sv (in_odsc # in_odscs) =
     Option.bind (route_request env hret sv in_odsc (sv_default_gdim sv)) (\<lambda>(_, in_odsc, sv, out).
     Option.bind (find_sized_arg env sv in_odsc) (\<lambda>arg. case arg of
         None \<Rightarrow> Some (None, sv, out)
       | Some arg_obj \<Rightarrow>
           Option.bind (build_ndarray_from_od arg_obj) (\<lambda>array.
             map_option (\<lambda>(arrays, sv, out'). (map_option ((#) array) arrays, sv, out @ out'))
               (mpexec_args env hret sv in_odscs))))"

text \<open>\<^verbatim>\<open>mpexec_rpc\<close>. When the import or the load fails, it answers twice on a handle and an input already released.\<close>

definition mpexec_rpc :: "('f, 'v) dill \<Rightarrow> sv_env \<Rightarrow> (nat \<Rightarrow> int) \<Rightarrow> px_env \<Rightarrow> server \<Rightarrow> pexec_in \<Rightarrow>
    (pexec_res \<times> server \<times> msgs) option" where
  "mpexec_rpc D env hret X sv inp =
     Option.bind (pull_fn X inp) (\<lambda>fn. case fn of
         Pull_failed \<Rightarrow> Some (Answered (xe_out X), sv, [])
       | Pulled fn \<Rightarrow>
           Option.bind (mpexec_args env hret sv (pi_odscs inp)) (\<lambda>(arrays, sv, out). case arrays of
               None \<Rightarrow> Some (Answered (no_result X), sv, out)
             | Some args \<Rightarrow>
                 if \<not> dl_import D then None
                 else Option.bind (dl_loads D fn) (\<lambda>fnp.
                        map_option (\<lambda>r. (r, sv, out)) (respond_result D X (dl_call D fnp args)))))"

text \<open>
  \<^verbatim>\<open>cond_rpc\<close> signals the condition and mutex at the addresses in the request. \<open>frames\<close> are the addresses of the
  handlers that wait; any other address is not that of a mutex.
\<close>

record cond_in =
  ci_mtxp :: u64
  ci_condp :: u64

definition cond_rpc :: "(u64 \<times> u64) list \<Rightarrow> cond_in \<Rightarrow> (u64 \<times> u64) list option" where
  "cond_rpc frames inp =
     (if (ci_mtxp inp, ci_condp inp) \<in> set frames then Some (remove1 (ci_mtxp inp, ci_condp inp) frames) else None)"

section \<open>The client\<close>

text \<open>
  \<open>pc_rpc\<close> are the calls of Margo for the request, \<open>pc_cond\<close> those for \<^verbatim>\<open>cond_rpc\<close> (\<^verbatim>\<open>margo_iforward\<close> is its
  \<open>m_forward\<close>), \<open>pc_bulk\<close> and \<open>pc_xfer\<close> the return codes of the transfer of the result.
\<close>

record 'w px_calls =
  pc_rpc :: "(pexec_in, pexec_out, 'w) margo"
  pc_cond :: "(cond_in, unit, 'w) margo"
  pc_bulk :: "'w \<Rightarrow> int"
  pc_xfer :: "'w \<Rightarrow> int"

text \<open>
  The result: \<open>*data\<close> and \<open>*size\<close> after a success. A negative length, as a \<^verbatim>\<open>size_t\<close>, is more than can be allocated; a
  pull that goes beyond what the server exposes fails.
\<close>

definition fetch_result :: "'w px_calls \<Rightarrow> string \<Rightarrow> pexec_out \<Rightarrow> 'w \<Rightarrow> (int \<times> (byte list \<times> int) option \<times> 'w) option" where
  "fetch_result m addr out w =
     (if po_length out = 0 then Some (dspaces_SUCCESS, Some ([], 0), w)
      else if po_length out < 0 then None
      else if pc_bulk m w \<noteq> HG_SUCCESS then Some (dspaces_ERR_MERCURY, None, w)
      else case po_handle out of
        None \<Rightarrow> Some (dspaces_ERR_MERCURY, None, w)
      | Some d \<Rightarrow>
          if pc_xfer m w \<noteq> HG_SUCCESS \<or> length d < nat (po_length out) then Some (dspaces_ERR_MERCURY, None, w)
          else if m_create (pc_cond m) addr w \<noteq> HG_SUCCESS then Some (dspaces_ERR_MERCURY, None, w)
          else let (hret, w) = m_forward (pc_cond m) addr \<lparr>ci_mtxp = po_mtxp out, ci_condp = po_condp out\<rparr> w
               in if hret \<noteq> HG_SUCCESS then Some (dspaces_ERR_MERCURY, None, w)
                  else Some (dspaces_SUCCESS, Some (take (nat (po_length out)) d, po_length out), w))"

text \<open>
  The common part of both calls. Without a function the handle in the request is not initialised; the length is an
  \<^verbatim>\<open>unsigned int\<close> sent as an \<^verbatim>\<open>int32_t\<close>.
\<close>

definition send_exec :: "'w px_calls \<Rightarrow> dspaces_client \<Rightarrow> obj_descriptor list \<Rightarrow> byte list \<Rightarrow> u32 \<Rightarrow> string \<Rightarrow> 'w \<Rightarrow>
    (int \<times> (byte list \<times> int) option \<times> 'w) option" where
  "send_exec m c odscs fn fnsz fn_name w =
     (if fnsz = 0 then None
      else Option.bind (expose fn (ucast fnsz)) (\<lambda>bytes.
        if m_bulk_create (pc_rpc m) w \<noteq> HG_SUCCESS then Some (dspaces_ERR_MERCURY, None, w)
        else Option.bind (get_server_address c) (\<lambda>addr.
          case rpc_call (pc_rpc m) addr \<lparr>pi_odscs = odscs, pi_fn = bytes, pi_length = sint fnsz, pi_fn_name = fn_name\<rparr> w of
            (None, w) \<Rightarrow> Some (dspaces_ERR_MERCURY, None, w)
          | (Some out, w) \<Rightarrow> fetch_result m addr out w)))"

definition dspaces_mpexec :: "'w px_calls \<Rightarrow> dspaces_client \<Rightarrow> dspaces_req list \<Rightarrow> byte list \<Rightarrow> u32 \<Rightarrow> string \<Rightarrow> 'w \<Rightarrow>
    (int \<times> (byte list \<times> int) option \<times> 'w) option" where
  "dspaces_mpexec m c args fn fnsz fn_name w =
     Option.bind (those (map (\<lambda>req. odsc_from_req c req (replicate OD_MAX_NAME_LEN NUL) zero_odsc) args)) (\<lambda>arg_odscs.
       send_exec m c arg_odscs fn fnsz fn_name w)"

text \<open>\<^verbatim>\<open>dspaces_pexec\<close> gives the descriptor the element size 0.\<close>

definition dspaces_pexec :: "'w px_calls \<Rightarrow> dspaces_client \<Rightarrow> string \<Rightarrow> u32 \<Rightarrow> int \<Rightarrow> u64 list \<Rightarrow> u64 list \<Rightarrow> byte list \<Rightarrow> u32 \<Rightarrow>
    string \<Rightarrow> 'w \<Rightarrow> (int \<times> (byte list \<times> int) option \<times> 'w) option" where
  "dspaces_pexec m c var_name ver ndim l u fn fnsz fn_name w =
     Option.bind (fill_odsc c var_name ver 0 ndim l u (replicate OD_MAX_NAME_LEN NUL) zero_odsc) (\<lambda>odsc.
       send_exec m c [odsc] fn fnsz fn_name w)"


section \<open>The argument without an element size\<close>

lemma copy_loop_length:
  assumes "\<And>av bv st st'. body av bv st = Some st' \<Longrightarrow> length (fst st') = length (fst st)"
  shows "copy_loop body bound av bv st = Some st' \<Longrightarrow> length (fst st') = length (fst st)"
proof -
  let ?P = "\<lambda>body bound av bv st st'. (\<forall>av bv st st'. body av bv st = Some st' \<longrightarrow> length (fst st') = length (fst st)) \<longrightarrow>
    length (fst st') = length (fst st)"
  have "?P body bound av bv st st'" if "copy_loop body bound av bv st = Some st'"
  proof (rule copy_loop.raw_induct [where P = ?P, OF _ that])
    fix f body bound av bv and st y :: copy_state
    assume IH: "\<And>body bound av bv st y. f body bound av bv st = Some y \<Longrightarrow> ?P body bound av bv st y"
      and r: "(if av \<le> bound then Option.bind (body av bv st) (f body bound (av + 1) (bv + 1)) else Some st) = Some y"
    show "?P body bound av bv st y"
    proof
      assume b: "\<forall>av bv st st'. body av bv st = Some st' \<longrightarrow> length (fst st') = length (fst st)"
      show "length (fst y) = length (fst st)"
      proof (cases "av \<le> bound")
        case True
        with r obtain m where "body av bv st = Some m" "f body bound (av + 1) (bv + 1) m = Some y" by (auto split: Option.bind_splits)
        then show ?thesis using mp [OF IH b] b by metis
      qed (use r in simp)
    qed
  qed
  then show "copy_loop body bound av bv st = Some st' \<Longrightarrow> length (fst st') = length (fst st)" using assms by blast
qed

lemma copy_dim_length: "copy_dim a b k x y st = Some st' \<Longrightarrow> length (fst st') = length (fst st)"
proof (induction k arbitrary: x y st st')
  case 0
  then show ?case by (auto simp: copy_row_def Let_def memcpy_def split: prod.splits if_splits Option.bind_splits)
next
  case (Suc k)
  show ?case using Suc.prems by (auto intro: copy_loop_length Suc.IH)
qed

lemma ssd_copy_length:
  assumes "ssd_copy junk to from = Some (to', n)"
  shows "map_option length (data to') = map_option length (data to) \<and> od_bb (obj_desc to') = od_bb (obj_desc to)"
proof -
  have l: "length (fst st') = length (fst st)" if "copy_dim10 a b st = Some st'" for a b st st'
    using that unfolding copy_dim10_def by (rule copy_loop_length [rotated]) (rule copy_dim_length)
  have "matrix_copy a b = Some (m, n) \<Longrightarrow> length (pdata m) = length (pdata a)" for a b m n
    using l copy_dim_length by (fastforce simp: matrix_copy_def split: if_splits Option.bind_splits)
  moreover have "pdata (matrix_init st g l p se) = p" for st g l p se by (simp add: matrix_init_def)
  ultimately show ?thesis using assms
    by (auto simp: ssd_copy_def Let_def split: Option.bind_splits)
qed

lemma copy_objs_length:
  "copy_objs env ls q from arg = Some arg' \<Longrightarrow> map_option length (data arg') = map_option length (data arg) \<and> od_bb (obj_desc arg') = od_bb (obj_desc arg)"
proof (induction "from" arbitrary: arg)
  case (Cons a "from")
  then show ?case by (auto simp: Let_def dest!: ssd_copy_length split: Option.bind_splits)
qed simp

text \<open>
  The array of \<^verbatim>\<open>pexec_rpc\<close> has no bytes: \<^verbatim>\<open>dspaces_pexec\<close> sends the element size 0, and without a module that sets it
  nothing is allocated and nothing is copied, whatever the store holds.
\<close>

lemma pexec_array_empty:
  assumes "fill_odsc c var_name ver 0 ndim l u buf zero_odsc = Some odsc" "find_arg env sv odsc = Some (Some arg)"
    and "build_ndarray_from_od arg = Some nd"
  shows "nd_data nd = []"
proof -
  have "od_size odsc = 0" using assms(1) by (auto simp: fill_odsc_def split: Option.bind_splits)
  then have "alloc_size odsc = 0" by (simp add: alloc_size_def obj_data_size_def)
  then have "obj_data_alloc (en_mem env) odsc = Some (obj_data_blank odsc (Some []))" by (simp add: obj_data_alloc_def)
  then obtain "from" where "copy_objs env (sv_ls sv) odsc from (obj_data_blank odsc (Some [])) = Some arg"
    using assms(2) by (auto simp: find_arg_def split: prod.splits if_splits)
  from copy_objs_length [OF this] have "data arg = Some []" by auto
  then show ?thesis using assms(3) by (auto simp: build_ndarray_from_od_def Let_def)
qed

section \<open>The arguments of several objects\<close>

text \<open>
  \<open>arg_fine\<close>: the objects of the name and version that meet the box are disjoint and cover it, have one element size and tag,
  and objects below 2 GB with at most nine dimensions; the request names this element size or none, and no module.
  \<open>array_of\<close>: the array has the dimensions of the box, and at every point the element of the object there.
\<close>

definition arg_size :: "server \<Rightarrow> obj_descriptor \<Rightarrow> u64" where
  "arg_size sv q = od_size (the_odsc (sv_ls sv) (hd (matching (sv_ls sv) q)))"

definition arg_fine :: "sv_env \<Rightarrow> server \<Rightarrow> obj_descriptor \<Rightarrow> bool" where
  "arg_fine env sv q \<longleftrightarrow>
     (let ls = sv_ls sv; m = matching ls q; b = od_bb q; se = arg_size sv q in
      ls_inv ls \<and> wf_bbox (en_junk env) \<and> en_query env q = Mod_None \<and>
      1 \<le> num_dims b \<and> num_dims b \<le> 9 \<and> box_ok (num_dims b) b \<and> (od_size q = 0 \<or> od_size q = se) \<and> unat se * vol b < 2147483648 \<and>
      list_all (\<lambda>a. obj_fits (the_od ls a) \<and> box_ok (num_dims b) (od_bb (the_odsc ls a)) \<and> od_size (the_odsc ls a) = se \<and>
        od_tag (the_odsc ls a) = od_tag (the_odsc ls (hd m)) \<and> unat se * vol (od_bb (the_odsc ls a)) < 2147483648) m \<and>
      (\<forall>x\<in>set m. \<forall>y\<in>set m. x \<noteq> y \<longrightarrow> points (od_bb (the_odsc ls x)) \<inter> points (od_bb (the_odsc ls y)) = {}) \<and>
      points b \<subseteq> (\<Union>x\<in>set m. points (od_bb (the_odsc ls x))))"

definition array_of :: "server \<Rightarrow> obj_descriptor \<Rightarrow> ndarray \<Rightarrow> bool" where
  "array_of sv q nd \<longleftrightarrow>
     (let ls = sv_ls sv; m = matching ls q; b = od_bb q; se = unat (arg_size sv q) in
      nd_dims nd = rev (map (\<lambda>i. int (extent b i)) [0..<ndims b]) \<and> nd_tag nd = od_tag (the_odsc ls (hd m)) \<and>
      length (nd_data nd) = se * vol b \<and>
      (\<forall>p\<in>points b. \<exists>a\<in>set m. p \<in> points (od_bb (the_odsc ls a)) \<and> elem se (nd_data nd) (lin b p) = obj_get (the_od ls a) p))"

lemma ndarray_dims:
  assumes "\<And>i. i < n \<Longrightarrow> f i = int (g i)"
  shows "fold (\<lambda>i ds. ds[n - i - 1 := f i]) [0..<n] (replicate n 0) = rev (map (\<lambda>i. int (g i)) [0..<n])"
proof -
  have "fold (\<lambda>i ds. ds[n - i - 1 := f i]) [0..<k] (replicate n 0) =
      replicate (n - k) 0 @ rev (map (\<lambda>i. int (g i)) [0..<k])" if "k \<le> n" for k
    using that
  proof (induction k)
    case (Suc k)
    then have r: "replicate (n - k) (0 :: int) = replicate (n - Suc k) 0 @ [0]"
      by (metis Suc_diff_Suc Suc_le_lessD replicate_Suc replicate_append_same)
    show ?case using Suc assms [of k] by (simp add: r list_update_append)
  qed simp
  from this [of n] show ?thesis by simp
qed

lemma sint_extent:
  assumes "wf_bbox b" "nonempty_bbox b" "i < ndims b" "vol b < 2147483648"
  shows "sint (ub b ! i - lb b ! i + 1) = int (extent b i)"
proof -
  have e: "extent b i < 2147483648" using extent_le_vol [OF assms(1-3)] assms(4) by simp
  have le: "unat (lb b ! i) \<le> unat (ub b ! i)" using assms(2,3) by (simp add: nonempty_bbox_def word_le_nat_alt)
  then have "unat (ub b ! i - lb b ! i) = unat (ub b ! i) - unat (lb b ! i)" by (simp add: unat_sub word_le_nat_alt)
  then have "unat (ub b ! i - lb b ! i + 1) = extent b i"
    using e le by (simp add: extent_def unat_word_ariths Suc_diff_le)
  then have "ub b ! i - lb b ! i + 1 = of_nat (extent b i)" by (metis of_nat_unat ucast_id)
  moreover have "sint (of_nat (extent b i) :: u64) = int (extent b i)" using e by (simp add: signed_of_nat signed_take_bit_int_eq_self)
  ultimately show ?thesis by simp
qed

lemma copy_objs_ok:
  assumes "wf_bbox (en_junk env)" "box_ok d (od_bb q)" "1 \<le> d" "d \<le> 9" "od_size q = se"
    and "\<forall>a\<in>set from. obj_fits (the_od ls a) \<and> box_ok d (od_bb (the_odsc ls a)) \<and> od_size (the_odsc ls a) = se \<and>
      unat se * vol (od_bb (the_odsc ls a)) < 2147483648 \<and> bbox_does_intersect (od_bb q) (od_bb (the_odsc ls a)) \<and> od_tag (the_odsc ls a) = t"
    and "obj_fits arg" "od_bb (obj_desc arg) = od_bb q" "od_size (obj_desc arg) = se"
  shows "\<exists>arg'. copy_objs env ls q from arg = Some arg' \<and> obj_fits arg' \<and> od_bb (obj_desc arg') = od_bb q \<and> od_size (obj_desc arg') = se \<and>
    od_tag (obj_desc arg') = (if from = [] then od_tag (obj_desc arg) else t) \<and>
    (\<forall>p\<in>points (od_bb q). obj_get arg' p =
      fold (\<lambda>a v. if p \<in> points (od_bb (the_odsc ls a)) then obj_get (the_od ls a) p else v) from (obj_get arg p))"
  using assms(6-)
proof (induction "from" arbitrary: arg)
  case (Cons a as)
  let ?b = "od_bb q" and ?o = "the_odsc ls a"
  let ?b' = "od_bb ?o"
  let ?C = "bbox_intersect ?b ?b' ?b'"
  let ?q' = "?o\<lparr>od_bb := ?C\<rparr>"
  have a: "obj_fits (the_od ls a)" "box_ok d ?b'" "od_size ?o = se" "unat se * vol ?b' < 2147483648" "bbox_does_intersect ?b ?b'" "od_tag ?o = t"
    using Cons.prems(1) by simp_all
  have "wf_bbox ?b'" using a(2) by (simp add: box_ok_def)
  note C = box_ok_isect [OF assms(2) a(2) this a(5)]
  have dims: "num_dims ?C = d" "num_dims ?b' = d" "num_dims ?b = d" using C(1) a(2) assms(2) by (simp_all add: box_ok_def)
  have w: "wf_bbox ?C" "nonempty_bbox ?C" using C(1) by (simp_all add: box_ok_def)
  have se: "0 < unat se" using a(1,3) by (auto simp: obj_fits_def Let_def)
  have "card (points ?C) \<le> card (points ?b')" by (rule card_mono) (simp_all add: C(2))
  then have "vol ?C \<le> vol ?b'" using w a(2) by (simp add: card_points nonempty_ordered box_ok_def)
  then have v: "unat se * vol ?C < 2147483648" using a(4) by (meson le_less_trans mult_le_mono2)
  have "unat (obj_data_size ?q') = unat se * vol ?C" using obj_data_size_eq [of ?q'] w v se a(3) by simp
  then obtain d0 where d0: "obj_data_alloc (en_mem env) ?q' = Some (obj_data_blank ?q' (Some d0))" "length d0 = unat se * vol ?C"
    using obj_data_alloc_Some [of ?q'] v by auto
  have f0: "obj_fits (obj_data_blank ?q' (Some d0))" using w v se d0(2) a(3) by (simp add: obj_fits_def Let_def)
  have "points ?b \<inter> points ?b' \<noteq> {}" using dims a(2,5) assms(2) by (intro intersect_points) (simp_all add: box_ok_def)
  then have "points ?C \<inter> points ?b' \<noteq> {}" "points ?b \<inter> points ?C \<noteq> {}" unfolding C(2) by auto
  then have i: "bbox_does_intersect ?C ?b'" "bbox_does_intersect ?b ?C"
    using not_intersect_points [of ?C ?b'] not_intersect_points [of ?b ?C] dims by auto
  obtain o1 n1 where o1: "ssd_copy (en_junk env) (obj_data_blank ?q' (Some d0)) (the_od ls a) = Some (o1, n1)" "obj_fits o1"
    "obj_desc o1 = obj_desc (copy_tag_type (obj_data_blank ?q' (Some d0)) (the_od ls a))"
    "\<forall>p\<in>points ?C. obj_get o1 p = (if p \<in> points ?b' then obj_get (the_od ls a) p else obj_get (obj_data_blank ?q' (Some d0)) p)"
    using ssd_copy_elements [OF f0 a(1), of "en_junk env"] dims assms(1,3,4) i(1) by auto
  have s1: "od_bb (obj_desc o1) = ?C" "od_size (obj_desc o1) = se" "od_tag (obj_desc o1) = t"
    using o1(3) a(3,6) by (simp_all add: copy_tag_type_def)
  obtain o2 n2 where o2: "ssd_copy (en_junk env) arg o1 = Some (o2, n2)" "obj_fits o2" "obj_desc o2 = obj_desc (copy_tag_type arg o1)"
    "\<forall>p\<in>points ?b. obj_get o2 p = (if p \<in> points ?C then obj_get o1 p else obj_get arg p)"
    using ssd_copy_elements [OF Cons.prems(2) o1(2), of "en_junk env"] dims assms(1,3,4) i(2) s1 Cons.prems(3,4) by auto
  have s2: "od_bb (obj_desc o2) = ?b" "od_size (obj_desc o2) = se" "od_tag (obj_desc o2) = t"
    using o2(3) Cons.prems(3,4) s1 by (simp_all add: copy_tag_type_def)
  have e2: "obj_get o2 p = (if p \<in> points ?b' then obj_get (the_od ls a) p else obj_get arg p)" if "p \<in> points ?b" for p
    using o1(4) o2(4) C(2) that by auto
  have st: "copy_objs env ls q (a # as) arg = copy_objs env ls q as o2" using d0(1) o1(1) o2(1) by simp
  obtain arg' where arg': "copy_objs env ls q as o2 = Some arg'" "obj_fits arg'" "od_bb (obj_desc arg') = ?b" "od_size (obj_desc arg') = se"
    "od_tag (obj_desc arg') = (if as = [] then od_tag (obj_desc o2) else t)"
    "\<forall>p\<in>points ?b. obj_get arg' p = fold (\<lambda>a v. if p \<in> points (od_bb (the_odsc ls a)) then obj_get (the_od ls a) p else v) as (obj_get o2 p)"
    using Cons.IH [of o2] Cons.prems(1) o2(2) s2 by auto
  then show ?case unfolding st using e2 s2(3) by (intro exI [of _ arg']) simp
qed simp

lemma fold_hit:
  "\<exists>a\<in>set xs. P a \<Longrightarrow> \<exists>a\<in>set xs. P a \<and> fold (\<lambda>a v. if P a then f a else v) xs v = f a"
proof (induction xs arbitrary: v)
  case (Cons x xs)
  show ?case
  proof (cases "\<exists>a\<in>set xs. P a")
    case True
    then show ?thesis using Cons.IH [of "if P x then f x else v"] by auto
  next
    case False
    then have "fold (\<lambda>a v. if P a then f a else v) xs w = w" for w by (induction xs) auto
    then show ?thesis using False Cons.prems by auto
  qed
qed simp

lemma find_sized_arg_ok:
  assumes "arg_fine env sv q"
  shows "\<exists>arg nd. find_sized_arg env sv q = Some (Some arg) \<and> build_ndarray_from_od arg = Some nd \<and> array_of sv q nd"
proof -
  let ?ls = "sv_ls sv" and ?b = "od_bb q" and ?se = "arg_size sv q"
  define m where "m = matching ?ls q"
  let ?q' = "q\<lparr>od_size := arg_size sv q\<rparr>"
  let ?t = "od_tag (the_odsc ?ls (hd m))"
  have f: "ls_inv ?ls" "wf_bbox (en_junk env)" "1 \<le> num_dims ?b" "num_dims ?b \<le> 9" "box_ok (num_dims ?b) ?b"
    "od_size q = 0 \<or> od_size q = ?se" "unat ?se * vol ?b < 2147483648"
    "\<forall>x\<in>set m. \<forall>y\<in>set m. x \<noteq> y \<longrightarrow> points (od_bb (the_odsc ?ls x)) \<inter> points (od_bb (the_odsc ?ls y)) = {}"
    "points ?b \<subseteq> (\<Union>x\<in>set m. points (od_bb (the_odsc ?ls x)))"
    and objs: "\<forall>a\<in>set m. obj_fits (the_od ?ls a) \<and> box_ok (num_dims ?b) (od_bb (the_odsc ?ls a)) \<and> od_size (the_odsc ?ls a) = ?se \<and>
      od_tag (the_odsc ?ls a) = ?t \<and> unat ?se * vol (od_bb (the_odsc ?ls a)) < 2147483648"
    using assms unfolding arg_fine_def Let_def list_all_iff m_def [symmetric] by blast+
  have w: "wf_bbox ?b" "nonempty_bbox ?b" using f(5) by (simp_all add: box_ok_def)
  have "points ?b \<noteq> {}" using take_lb_in_points [OF w] by auto
  then have ne: "m \<noteq> []" using f(9) by auto
  have bo: "boxes_ok ?ls q" using objs w unfolding boxes_ok_def m_def [symmetric] by (auto simp: box_ok_def)
  have v64: "vol ?b < 18446744073709551616" using f(5) by (simp add: box_ok_def)
  have fa: "ls_find_all (en_junk env) ?ls q = (int (length m), m)"
    using ls_find_all_cover [OF f(1) bo f(2) v64, folded m_def, OF f(8)] f(9) by simp
  have inst: "\<forall>a\<in>set m. obj_fits (the_od ?ls a) \<and> box_ok (num_dims ?b) (od_bb (the_odsc ?ls a)) \<and> od_size (the_odsc ?ls a) = ?se \<and>
      unat ?se * vol (od_bb (the_odsc ?ls a)) < 2147483648 \<and> bbox_does_intersect (od_bb ?q') (od_bb (the_odsc ?ls a)) \<and> od_tag (the_odsc ?ls a) = ?t"
    using objs by (auto simp: obj_desc_equals_intersect_def m_def)
  have "hd m \<in> set m" using ne by (rule hd_in_set)
  then have se: "0 < unat ?se" using objs by (auto simp: obj_fits_def Let_def)
  have sz: "unat (obj_data_size ?q') = unat ?se * vol ?b" using obj_data_size_eq [of ?q'] w f(7) se by simp
  then obtain d0 where d0: "obj_data_alloc (en_mem env) ?q' = Some (obj_data_blank ?q' (Some d0))" "length d0 = unat ?se * vol ?b"
    using obj_data_alloc_Some [of ?q'] f(7) by auto
  have f0: "obj_fits (obj_data_blank ?q' (Some d0))" using w f(7) se d0(2) by (simp add: obj_fits_def Let_def)
  obtain arg where arg: "copy_objs env ?ls ?q' m (obj_data_blank ?q' (Some d0)) = Some arg" "obj_fits arg" "od_bb (obj_desc arg) = ?b"
    "od_size (obj_desc arg) = ?se" "od_tag (obj_desc arg) = ?t"
    "\<forall>p\<in>points ?b. obj_get arg p = fold (\<lambda>a v. if p \<in> points (od_bb (the_odsc ?ls a)) then obj_get (the_od ?ls a) p else v) m
       (obj_get (obj_data_blank ?q' (Some d0)) p)"
    using copy_objs_ok [OF f(2) _ f(3,4) _ inst f0] f(5) ne by auto
  have "(if od_size q = 0 then q\<lparr>od_size := od_size (the_odsc ?ls (hd m))\<rparr> else q) = ?q'" using f(6) by (auto simp: arg_size_def m_def)
  then have fs: "find_sized_arg env sv q = Some (Some arg)"
    using fa ne d0(1) arg(1) by (simp add: find_sized_arg_def Suc_le_eq)
  obtain d where d: "data arg = Some d" "length d = unat ?se * vol ?b"
    using arg(2-4) by (auto simp: obj_fits_def Let_def split: option.splits)
  have v: "vol ?b < 2147483648" using f(7) se by (metis le_less_trans less_eq_nat.simps(1) mult_le_cancel2 mult.commute nat_mult_1_right Suc_leI One_nat_def mult_le_mono2)
  let ?nd = "\<lparr>nd_tag = ?t, nd_dims = rev (map (\<lambda>i. int (extent ?b i)) [0..<ndims ?b]), nd_data = d\<rparr>"
  have nd: "build_ndarray_from_od arg = Some ?nd"
    using d(1) arg(3,5) ndarray_dims [of "ndims ?b" "\<lambda>i. sint (ub ?b ! i - lb ?b ! i + 1)" "extent ?b"] sint_extent [OF w _ v]
    by (simp add: build_ndarray_from_od_def Let_def)
  have "\<exists>a\<in>set m. p \<in> points (od_bb (the_odsc ?ls a)) \<and> elem (unat ?se) d (lin ?b p) = obj_get (the_od ?ls a) p" if p: "p \<in> points ?b" for p
  proof -
    have "\<exists>a\<in>set m. p \<in> points (od_bb (the_odsc ?ls a))" using f(9) p by auto
    from fold_hit [OF this, of "\<lambda>a. obj_get (the_od ?ls a) p" "obj_get (obj_data_blank ?q' (Some d0)) p"]
    show ?thesis using arg(3,4,6) d(1) p by (auto simp: obj_get_def)
  qed
  then have "array_of sv q ?nd" using d(2) unfolding array_of_def Let_def m_def [symmetric] by simp
  then show ?thesis using fs nd by blast
qed

lemma mpexec_args_ok:
  "list_all (arg_fine env sv) qs \<Longrightarrow> \<exists>nds. mpexec_args env hret sv qs = Some (Some nds, sv, []) \<and> list_all2 (array_of sv) qs nds"
proof (induction qs)
  case (Cons q qs)
  then obtain nds where nds: "mpexec_args env hret sv qs = Some (Some nds, sv, [])" "list_all2 (array_of sv) qs nds" by auto
  have q: "arg_fine env sv q" using Cons.prems by simp
  then have "en_query env q = Mod_None" by (simp add: arg_fine_def Let_def)
  then have "route_request env hret sv q (sv_default_gdim sv) = Some (0, q, sv, [])" by (simp add: route_request_def)
  then show ?case using find_sized_arg_ok [OF q] nds by auto
qed simp

section \<open>From the client to the function and back\<close>

fun answer_of :: "pexec_res \<Rightarrow> pexec_out" where
  "answer_of (Answered out) = out"
| "answer_of (Waiting out) = out"

lemma int_of_length: "n < 2147483648 \<Longrightarrow> int_of_u64 (of_nat n) = int n"
  by (simp add: int_of_u64_def sint_uint unsigned_ucast_eq uint_nat unat_of_nat take_bit_nat_eq_self take_bit_int_eq_self
      signed_take_bit_int_eq_self of_nat_take_bit [symmetric] del: unat_eq_nat_uint of_nat_take_bit)

lemma fn_length:
  assumes "n < 2147483648"
  shows "sint (of_nat n :: u32) = int n" "unat (ucast (of_nat n :: u32) :: u64) = n"
  using assms by (simp_all add: sint_uint uint_nat unat_of_nat signed_take_bit_int_eq_self take_bit_nat_eq_self unsigned_ucast_eq)

text \<open>
  A function runs on stored objects. When the store of the server covers every argument, the function is called with
  one array for every argument, with the bytes of the objects at their places. The client gets the pickled result,
  with a zero behind it, and releases exactly the handler that waits; a function that raises an exception or
  returns nothing is a success with an empty result.
\<close>

theorem mpexec_computes:
  assumes args: "those (map (\<lambda>req. odsc_from_req c req (replicate OD_MAX_NAME_LEN NUL) zero_odsc) args) = Some qs"
    and fine: "list_all (arg_fine env sv) qs"
    and fn: "0 < n" "n < 2147483648" "n \<le> length fn" "dl_import D" "dl_loads D (take n fn) = Some f"
    and X: "xe_bulk X = HG_SUCCESS" "xe_xfer X = HG_SUCCESS" "xe_res_bulk X = HG_SUCCESS"
    and srv: "get_server_address c = Some addr"
      "\<forall>inp r sv' out. mpexec_rpc D env hret X sv inp = Some (r, sv', out) \<longrightarrow> rpc_call (pc_rpc m) addr inp w = (Some (answer_of r), w1)"
    and margo: "m_bulk_create (pc_rpc m) w = HG_SUCCESS" "pc_bulk m w1 = HG_SUCCESS" "pc_xfer m w1 = HG_SUCCESS"
      "m_create (pc_cond m) addr w1 = HG_SUCCESS" "\<forall>ci. m_forward (pc_cond m) addr ci w1 = (HG_SUCCESS, w2 ci)"
  shows "\<exists>nds. list_all2 (array_of sv) qs nds \<and>
    (case dl_call D f nds of
       Returned v \<Rightarrow> \<forall>bs. dl_dumps D v = Some bs \<and> length bs < 2147483647 \<longrightarrow>
         (\<exists>ci. dspaces_mpexec m c args fn (of_nat n) fn_name w = Some (dspaces_SUCCESS, Some (bs @ [0], int (length bs) + 1), w2 ci) \<and>
            cond_rpc ((xe_mtxp X, xe_condp X) # frames) ci = Some frames)
     | _ \<Rightarrow> dspaces_mpexec m c args fn (of_nat n) fn_name w = Some (dspaces_SUCCESS, Some ([], 0), w1))"
proof -
  obtain nds where nds: "mpexec_args env hret sv qs = Some (Some nds, sv, [])" "list_all2 (array_of sv) qs nds"
    using mpexec_args_ok [OF fine] by blast
  define inp where "inp = \<lparr>pi_odscs = qs, pi_fn = take n fn, pi_length = int n, pi_fn_name = fn_name\<rparr>"
  have n0: "(of_nat n :: u32) \<noteq> 0" using fn(1) fn_length(1) [OF fn(2)] by (metis of_nat_0_less_iff order_less_irrefl sint_0)
  have pull: "pull_fn X inp = Some (Pulled (take n fn))" using fn X by (simp add: pull_fn_def inp_def)
  have rpc: "mpexec_rpc D env hret X sv inp = map_option (\<lambda>r. (r, sv, [])) (respond_result D X (dl_call D f nds))"
    using nds(1) fn(4,5) by (simp add: mpexec_rpc_def pull) (simp add: inp_def)
  have cl: "dspaces_mpexec m c args fn (of_nat n) fn_name w =
      (case rpc_call (pc_rpc m) addr inp w of (None, w) \<Rightarrow> Some (dspaces_ERR_MERCURY, None, w) | (Some out, w) \<Rightarrow> fetch_result m addr out w)"
    using n0 fn(3) margo(1) srv(1) fn_length [OF fn(2)] by (simp add: dspaces_mpexec_def args send_exec_def expose_def inp_def)
  have resp: "dspaces_mpexec m c args fn (of_nat n) fn_name w = fetch_result m addr (answer_of r) w1"
    if "respond_result D X (dl_call D f nds) = Some r" for r
    using srv(2) rpc that cl by simp
  have "case dl_call D f nds of
       Returned v \<Rightarrow> \<forall>bs. dl_dumps D v = Some bs \<and> length bs < 2147483647 \<longrightarrow>
         (\<exists>ci. dspaces_mpexec m c args fn (of_nat n) fn_name w = Some (dspaces_SUCCESS, Some (bs @ [0], int (length bs) + 1), w2 ci) \<and>
            cond_rpc ((xe_mtxp X, xe_condp X) # frames) ci = Some frames)
     | _ \<Rightarrow> dspaces_mpexec m c args fn (of_nat n) fn_name w = Some (dspaces_SUCCESS, Some ([], 0), w1)"
  proof (cases "dl_call D f nds")
    case (Returned v)
    have "\<exists>ci. dspaces_mpexec m c args fn (of_nat n) fn_name w = Some (dspaces_SUCCESS, Some (bs @ [0], int (length bs) + 1), w2 ci) \<and>
            cond_rpc ((xe_mtxp X, xe_condp X) # frames) ci = Some frames" if bs: "dl_dumps D v = Some bs" "length bs < 2147483647" for bs
    proof -
      have len: "int_of_u64 (of_nat (length (bs @ [0]))) = int (length bs) + 1" using int_of_length [of "Suc (length bs)"] bs(2) by simp
      have "respond_result D X (dl_call D f nds) =
          Some (Waiting \<lparr>po_handle = Some (bs @ [0]), po_length = int (length bs) + 1, po_mtxp = xe_mtxp X, po_condp = xe_condp X\<rparr>)"
        unfolding respond_result_def Returned call_res.case bs(1) Option.bind.bind_lunit Let_def len using X(3) by simp
      from resp [OF this] show ?thesis
        using margo by (intro exI [of _ "\<lparr>ci_mtxp = xe_mtxp X, ci_condp = xe_condp X\<rparr>"])
          (simp add: fetch_result_def cond_rpc_def nat_add_distrib)
    qed
    then show ?thesis using Returned by simp
  qed (use resp in \<open>simp_all add: respond_result_def no_result_def fetch_result_def\<close>)
  then show ?thesis using nds(2) by blast
qed

section \<open>An example\<close>

lemma arg_fine_example:
  assumes "wf_bbox (en_junk env)" "en_query env = (\<lambda>_. Mod_None)"
  shows "arg_fine env (sv\<lparr>sv_ls := ex_store2\<rparr>) (obj_desc (ex_obj (mk_box [1] [2]) []))"
proof -
  let ?q = "obj_desc (ex_obj (mk_box [1] [2]) [])"
  have m: "matching ex_store2 ?q = [5, 4]" by code_simp
  have od: "the_od ex_store2 4 = ex_obj (mk_box [0] [1]) [10, 11]" "the_od ex_store2 5 = ex_obj (mk_box [2] [3]) [12, 13]"
    by (simp_all add: the_od_def ex_store2_eval)
  have v: "vol (mk_box [0] [1]) = 2" "vol (mk_box [2] [3]) = 2" "vol (mk_box [1] [2]) = 2" by (simp_all add: vol_eval mk_box_def upt_rec)
  have disj: "points (mk_box [0] [1]) \<inter> points (mk_box [2] [3]) = {}" by (rule not_intersect_points) (code_simp+)
  have cover: "points (mk_box [1] [2]) \<subseteq> points (mk_box [2] [3]) \<union> points (mk_box [0] [1])"
    by (auto simp: points_def mk_box_def word_le_nat_alt)
  have t: "od_tag (obj_desc (ex_obj b d)) = 0" for b d by (simp add: ex_obj_def obj_data_blank_def)
  have bo: "box_ok 1 (mk_box [0] [1])" "box_ok 1 (mk_box [2] [3])" "box_ok 1 (mk_box [1] [2])"
    unfolding box_ok_def v by (simp_all add: mk_box_simps)
  have nd: "num_dims (mk_box [1] [2]) = 1" by (simp add: mk_box_def)
  have se: "arg_size (sv\<lparr>sv_ls := ex_store2\<rparr>) ?q = 1" using m by (simp add: arg_size_def od)
  have fits: "obj_fits (ex_obj (mk_box [0] [1]) [10, 11])" "obj_fits (ex_obj (mk_box [2] [3]) [12, 13])"
    using bo v by (simp_all add: obj_fits_def Let_def box_ok_def)
  have ls: "sv_ls (sv\<lparr>sv_ls := ex_store2\<rparr>) = ex_store2" by simp
  show ?thesis
    unfolding arg_fine_def Let_def se ls m using assms ex_store2_inv disj cover bo fits by (simp add: od t v nd Int_commute)
qed

end
