(* ===== verification/Spec2Isabelle.thy ===== *)
theory Spec2Isabelle
  imports V1Hash CurveCubes ClientMod Modules Util Wire Cluster Ops Bcast Server CList CQueue StrHash BBox ObjDesc Matrix LocalStore Meta Gdim Hilbert Intv SSpace Dht DhtRun Client ClientIO PutReq Sub Boot Conf Pexec
begin

text \<open>
  DataSpaces is a distributed store for arrays. Clients put the values of a variable and version on a box of
  its index space, and get the values on any other box back. The servers of one communicator divide the index
  space among them; every server keeps the objects that were put at it and, for its part of the space, the
  descriptors of all objects that meet it (a distributed hash table). A client asks its server for a box; the
  server asks the servers responsible for the box, answers with descriptors, and the client fetches the parts
  from their owners and assembles them. Around this core there are metadata with versions, subscriptions,
  non-blocking and local puts, expressions the servers evaluate, modules in Python, and the configuration.

  \<^bold>\<open>Conventions.\<close> The theories are shallow embeddings of the C sources. A \<^verbatim>\<open>uint64_t\<close> or \<^verbatim>\<open>size_t\<close> is a 64-bit
  word and wraps; an \<^verbatim>\<open>int\<close> is an integer, cut to 32 bits or checked where its range matters. A structure is a record
  whose fields keep the order of the C declaration. Where C leaves the behaviour undefined (an access outside an
  object, a signed overflow, a null dereference), or a thread never returns, the model has the value \<open>None\<close>.
  Error returns are numbers or the left part of a sum. Pointers are list positions or addresses of an explicit
  memory wherever aliasing matters (\<open>CList\<close>, \<open>CQueue\<close>, \<open>LocalStore\<close>, \<open>PutReq\<close>, \<open>Sub\<close>, \<open>Dht\<close>). Memory the code
  reads before it is written is a parameter. MPI, files, Margo, Mercury, Argobots, LZ4, Python, NumPy and floating point are
  parameters too; what is assumed of them is named: \<open>lz4_ok\<close> (\<open>Server\<close>), \<open>fpu_ok\<close> (\<open>Ops\<close>), \<open>allgatherv_ok\<close>
  (\<open>Boot\<close>). A section a mutex
  protects is one step; the interleavings of such steps are relations.

  \<^bold>\<open>Containers and geometry.\<close>
  \<^item> \<open>Prelude\<close>: types, shared lemmas on words and lists, the collections of rewrite rules.
  \<^item> \<open>CList\<close> (\<^verbatim>\<open>include/list.h\<close>), \<open>CQueue\<close> (\<^verbatim>\<open>include/queue.h\<close>), \<open>StrHash\<close> (\<^verbatim>\<open>include/str_hash.h\<close>): the pointer
    operations refine sequences, a queue (locale \<open>fifo\<close>) and a set (locale \<open>str_set\<close>).
  \<^item> \<open>BBox\<close> (\<^verbatim>\<open>src/bbox.c\<close>): boxes as sets of points; intersection, hull, volume, division into parts.
  \<^item> \<open>Hilbert\<close> (\<^verbatim>\<open>include/sfc.h\<close>), \<open>Intv\<close> (\<^verbatim>\<open>src/bbox.c\<close>): the curve and the two routines that turn a box into
    intervals of it. They agree, and they terminate; the locale \<open>sfc_curve\<close> says what makes their table right.
  \<^item> \<open>Curve\<close>, \<open>Transpose\<close>, \<open>CurveMap\<close>: the levels of the curve, the transposition of its bits, and that
    \<^verbatim>\<open>hilbert_c2i\<close> and \<^verbatim>\<open>hilbert_i2c\<close> are inverse. \<open>CurveTop\<close>, \<open>CurveCubes\<close>: aligned cubes are intervals of the curve
    that end in corners, so \<open>sfc_curve\<close> holds of the curve in every dimension and the tables are right.

  \<^bold>\<open>Objects and storage\<close> (\<^verbatim>\<open>src/ss_data.c\<close>, \<^verbatim>\<open>include/ss_data.h\<close>).
  \<^item> \<open>ObjDesc\<close>: descriptors and data objects. \<open>Matrix\<close>: \<^verbatim>\<open>ssd_copy\<close> copies exactly the common points, in row and
    column order, for up to nine dimensions, and goes wrong in ten.
  \<^item> \<open>LocalStore\<close>: the object table with its invariant under every sequence of operations, what a put replaces, and
    when \<^verbatim>\<open>ls_find_all\<close> covers a query. \<open>Meta\<close>: metadata and the threads that wait for it: in every run a thread
    is woken with the metadata it asked for, or still registered. \<open>Gdim\<close>: global dimensions.
  \<^item> \<open>SSpace\<close>: the division of a domain among servers in its three versions, hashing and counting. \<open>V1Hash\<close>: the
    pieces of the curve in version 1 own every point once, and hashing finds exactly the owners. \<open>Dht\<close>: the
    descriptors of one server and the threads that wait for them. \<open>DhtRun\<close>: its runs, with puts that overwrite the
    descriptors of older versions; a query finds every put that was not overwritten, and no thread misses one.

  \<^bold>\<open>Clients\<close> (\<^verbatim>\<open>src/dspaces-client.c\<close>).
  \<^item> \<open>CText\<close>: numbers and words as the C library prints and reads them. \<open>Boot\<close>: the file the servers write and the
    clients read, up to a client that is attached to its server.
  \<^item> \<open>Client\<close>: state, names, descriptors and requests. \<open>ClientIO\<close>: puts, gets, local puts, and the handlers of the
    client's own store. \<open>PutReq\<close>: the list of pending puts. \<open>Sub\<close>: subscriptions under every interleaving. \<open>ClientMod\<close>:
    queries of modules and metadata, end to end with the server's handlers, registration and lists.

  \<^bold>\<open>Servers\<close> (\<^verbatim>\<open>src/dspaces-server.c\<close>).
  \<^item> \<open>Server\<close>: the state and the handlers of puts, queries, gets, drains and metadata. \<open>Bcast\<close>: broadcasts along a
    tree, shutdown and registration. \<open>Cluster\<close>: all servers together. Its invariant ties what every server holds to
    the log of the puts, in runs where overlapping puts do not share a name and a version bin; from it a query finds
    the puts that meet it, a get returns the bytes that were put, and the servers settle in the same state whatever
    the order of the messages. \<open>Conf\<close> (\<^verbatim>\<open>src/dspaces-conf.c\<close>): the configuration, from files of lines and from TOML
    tables; a file of lines has the effect it describes.
  \<^item> \<open>Ops\<close> (\<^verbatim>\<open>src/dspaces-ops.c\<close>, \<^verbatim>\<open>include/dspaces-ops.h\<close>): expressions, from their constructors over the wire to
    the buffer of the client. \<open>Wire\<close>: the other wire procedures (locale \<open>wire_format\<close>). \<open>Modules\<close>
    (\<^verbatim>\<open>src/dspaces-modules.c\<close>): calls of modules and what becomes of their results. \<open>Pexec\<close>: functions in
    Python that clients send to run on stored objects, from the call to the bytes of the result. \<open>Util\<close> (\<^verbatim>\<open>src/util.c\<close>): strings.

  \<^bold>\<open>Bounds and fuel.\<close> Loops that are not structural have termination proofs. \<open>intv_loop\<close> and \<open>intv2_loop\<close> (\<open>Intv\<close>)
  are partial functions, and their theorem says that they return. \<open>decode_fuel\<close> (\<open>Ops\<close>) gets the length of the
  stream, which every recursive call shortens, and the round trip shows that it is enough. \<open>reg_rpc\<close> (\<open>Bcast\<close>) is
  defined by fuel because with two servers it does not end: the theorem is that no fuel is enough. \<open>get_sub_loop\<close>
  (\<open>Sub\<close>) is a partial function that returns in the stated cases only. Theorems on copied data ask for
  at most nine dimensions and for objects below 2 GB, where the code's \<^verbatim>\<open>int\<close> sizes end.

  \<^bold>\<open>Not modelled.\<close> \<^verbatim>\<open>src/toml.c\<close> is a vendored parser;
  \<open>Conf\<close> has its tables and look-ups. The registration of handlers with Margo
  (\<^verbatim>\<open>dspaces_server_init\<close>, \<^verbatim>\<open>dspaces_init_margo\<close>) is glue; the build
  is the one without \<^verbatim>\<open>HAVE_DRC\<close> and \<^verbatim>\<open>DSPACES_HAVE_CURL\<close>. Functions
  that only release memory or print have no state to speak of. The rest of \<^verbatim>\<open>sfc.h\<close> has no
  caller. The bindings, examples, tests and the logging macros are outside the core. The runs of
  \<open>Cluster\<close> have no puts that recycle a version under an overlapping box; \<open>DhtRun\<close> and
  \<open>LocalStore\<close> treat that case for one server.
\<close>

end
